(* ===== verification/Py_Base.thy ===== *)
theory Py_Base
  imports Complex_Main
begin

text \<open>
  The prelude of the development: the collections of simplification rules the component
  theories extend, the error results, and the few operations of Python's standard library
  that the modelled code uses (\<open>str.split\<close>, \<open>str.strip\<close>, \<open>int\<close>, \<open>str\<close>, \<open>range\<close>) with the
  laws the components need. A Python exception is the \<open>Inl\<close> value of a sum; an early
  \<open>return\<close> or \<open>raise\<close> is a branch. Python integers are \<open>int\<close>, strings are \<open>string\<close>, floats
  are exact rationals (rounding is not modelled).
\<close>

section \<open>Collections of facts\<close>

named_theorems py_simps \<open>unfolding rules of the modelled library functions\<close>
named_theorems result_simps \<open>rules about the sum type used for exceptions\<close>

section \<open>Results: a value or a raised exception\<close>

type_synonym ('e, 'a) result = "'e + 'a"

definition rbind :: "('e, 'a) result \<Rightarrow> ('a \<Rightarrow> ('e, 'b) result) \<Rightarrow> ('e, 'b) result" where
  "rbind m f = (case m of Inl e \<Rightarrow> Inl e | Inr x \<Rightarrow> f x)"

lemma rbind_Inl [simp, result_simps]: "rbind (Inl e) f = Inl e"
  by (simp add: rbind_def)

lemma rbind_Inr [simp, result_simps]: "rbind (Inr x) f = f x"
  by (simp add: rbind_def)

lemma rbind_eq_Inr [result_simps]: "rbind m f = Inr y \<longleftrightarrow> (\<exists>x. m = Inr x \<and> f x = Inr y)"
  by (cases m) auto

lemma rbind_eq_Inl [result_simps]:
  "rbind m f = Inl e \<longleftrightarrow> m = Inl e \<or> (\<exists>x. m = Inr x \<and> f x = Inl e)"
  by (cases m) auto

lemma rbind_cong [fundef_cong]:
  "m = m' \<Longrightarrow> (\<And>x. m' = Inr x \<Longrightarrow> f x = f' x) \<Longrightarrow> rbind m f = rbind m' f'"
  by (cases m') auto

text \<open>A statement that raises unless a condition holds.\<close>

definition rguard :: "bool \<Rightarrow> 'e \<Rightarrow> ('e, unit) result" where
  "rguard b e = (if b then Inr () else Inl e)"

lemma rguard_eq_Inr [simp, result_simps]: "rguard b e = Inr u \<longleftrightarrow> b"
  by (simp add: rguard_def)

lemma rguard_eq_Inl [simp, result_simps]: "rguard b e = Inl e' \<longleftrightarrow> \<not> b \<and> e' = e"
  by (auto simp: rguard_def)

lemma rguard_True [simp]: "rguard True e = Inr ()"
  by (simp add: rguard_def)

lemma rguard_False [simp]: "rguard False e = Inl e"
  by (simp add: rguard_def)

text \<open>A list comprehension and a \<open>for\<close> loop whose body may raise.\<close>

fun rmap :: "('a \<Rightarrow> ('e, 'b) result) \<Rightarrow> 'a list \<Rightarrow> ('e, 'b list) result" where
  "rmap f [] = Inr []"
| "rmap f (x # xs) = rbind (f x) (\<lambda>y. rbind (rmap f xs) (\<lambda>ys. Inr (y # ys)))"

fun rfold :: "('s \<Rightarrow> 'a \<Rightarrow> ('e, 's) result) \<Rightarrow> 's \<Rightarrow> 'a list \<Rightarrow> ('e, 's) result" where
  "rfold f s [] = Inr s"
| "rfold f s (x # xs) = rbind (f s x) (\<lambda>s'. rfold f s' xs)"

lemma rmap_Inr_iff: "rmap f xs = Inr ys \<longleftrightarrow> list_all2 (\<lambda>x y. f x = Inr y) xs ys"
  by (induction xs arbitrary: ys) (auto simp: rbind_eq_Inr list_all2_Cons1)

lemma rmap_length: "rmap f xs = Inr ys \<Longrightarrow> length ys = length xs"
  by (auto simp: rmap_Inr_iff dest: list_all2_lengthD)

lemma rfold_append: "rfold f s (xs @ ys) = rbind (rfold f s xs) (\<lambda>s'. rfold f s' ys)"
proof (induction xs arbitrary: s)
  case (Cons x xs)
  then show ?case by (cases "f s x") auto
qed simp

text \<open>A loop keeps what each of its iterations keeps.\<close>

lemma rfold_invariant:
  assumes "rfold f s xs = Inr s'" and "P s"
    and "\<And>s x s'. x \<in> set xs \<Longrightarrow> P s \<Longrightarrow> f s x = Inr s' \<Longrightarrow> P s'"
  shows "P s'"
  using assms
proof (induction xs arbitrary: s)
  case (Cons x xs)
  then obtain t where t: "f s x = Inr t" "rfold f t xs = Inr s'"
    by (auto simp: rbind_eq_Inr)
  have "P t"
    by (rule Cons.prems(3)[OF _ Cons.prems(2) t(1)]) simp
  then show ?case
    by (rule Cons.IH[OF t(2)]) (metis Cons.prems(3) list.set_intros(2))
qed simp

section \<open>Strings\<close>

definition is_space :: "char \<Rightarrow> bool" where
  "is_space c \<longleftrightarrow> c \<in> set [CHR 0x20, CHR 0x09, CHR 0x0A, CHR 0x0B, CHR 0x0C, CHR 0x0D]"

definition lstrip :: "string \<Rightarrow> string" where
  "lstrip s = dropWhile is_space s"

definition strip :: "string \<Rightarrow> string" where
  "strip s = rev (lstrip (rev (lstrip s)))"

text \<open>\<open>s.split(c)\<close> for a one-character separator.\<close>

fun split_on :: "char \<Rightarrow> string \<Rightarrow> string list" where
  "split_on c [] = [[]]"
| "split_on c (x # xs) =
     (if x = c then [] # split_on c xs
      else (case split_on c xs of [] \<Rightarrow> [[x]] | w # ws \<Rightarrow> (x # w) # ws))"

text \<open>\<open>s.split(c, 1)\<close>: at most one split, at the first separator.\<close>

definition split_once :: "char \<Rightarrow> string \<Rightarrow> string list" where
  "split_once c s =
     (let a = takeWhile (\<lambda>x. x \<noteq> c) s; r = dropWhile (\<lambda>x. x \<noteq> c) s
      in if r = [] then [a] else [a, tl r])"

text \<open>\<open>s.split()\<close>: the maximal runs of characters that are not white space.\<close>

function split_words :: "string \<Rightarrow> string list" where
  "split_words s =
     (let t = lstrip s
      in if t = [] then []
         else takeWhile (\<lambda>c. \<not> is_space c) t # split_words (dropWhile (\<lambda>c. \<not> is_space c) t))"
  by pat_completeness auto
termination
proof (relation "measure length", simp)
  fix s t assume t: "t = lstrip s" and ne: "t \<noteq> []"
  have "\<not> is_space (hd t)"
    using ne unfolding t lstrip_def by (rule hd_dropWhile)
  moreover obtain c cs where c: "t = c # cs" using ne by (cases t) auto
  ultimately have "dropWhile (\<lambda>c. \<not> is_space c) t = dropWhile (\<lambda>c. \<not> is_space c) cs"
    by simp
  then have "length (dropWhile (\<lambda>c. \<not> is_space c) t) < length t"
    using c by (simp add: le_imp_less_Suc length_dropWhile_le)
  also have "length t \<le> length s"
    by (simp add: t lstrip_def length_dropWhile_le)
  finally show "(dropWhile (\<lambda>c. \<not> is_space c) t, s) \<in> measure length" by simp
qed

declare split_words.simps [simp del]

text \<open>\<open>sep.join(ws)\<close>.\<close>

fun join :: "string \<Rightarrow> string list \<Rightarrow> string" where
  "join sep [] = []"
| "join sep [w] = w"
| "join sep (w # ws) = w @ sep @ join sep ws"

lemma split_on_ne [simp]: "split_on c s \<noteq> []"
  by (induction s) (auto split: list.splits)

lemma split_on_free: "c \<notin> set w \<Longrightarrow> split_on c w = [w]"
  by (induction w) auto

lemma split_on_append: "c \<notin> set w \<Longrightarrow> split_on c (w @ c # s) = w # split_on c s"
  by (induction w) auto

lemma split_on_sep: "split_on c (a @ c # b) = split_on c a @ split_on c b"
  by (induction a) (auto split: list.splits)

lemma split_on_join:
  assumes "ws \<noteq> []" and "\<forall>w \<in> set ws. c \<notin> set w"
  shows "split_on c (join [c] ws) = ws"
  using assms
proof (induction "[c]" ws rule: join.induct)
  case (3 w v ws)
  then show ?case by (simp add: split_on_append)
qed (simp_all add: split_on_free)

lemma split_once_free: "c \<notin> set s \<Longrightarrow> split_once c s = [s]"
  unfolding split_once_def Let_def
  by (metis (mono_tags, lifting) dropWhile_eq_Nil_conv takeWhile_eq_all_conv)

lemma split_once_append: "c \<notin> set a \<Longrightarrow> split_once c (a @ c # b) = [a, b]"
  unfolding split_once_def Let_def
  by (subst takeWhile_append2, force, subst dropWhile_append2, force, simp)+

lemma strip_id: "\<forall>c \<in> set s. \<not> is_space c \<Longrightarrow> strip s = s"
proof -
  have id: "\<forall>c \<in> set t. \<not> is_space c \<Longrightarrow> lstrip t = t" for t
    by (cases t) (auto simp: lstrip_def)
  assume "\<forall>c \<in> set s. \<not> is_space c"
  then show ?thesis by (simp add: strip_def id)
qed

section \<open>Decimal numbers\<close>

definition is_digit :: "char \<Rightarrow> bool" where
  "is_digit c \<longleftrightarrow> 48 \<le> (of_char c :: nat) \<and> (of_char c :: nat) \<le> 57"

definition digit_char :: "nat \<Rightarrow> char" where
  "digit_char d = char_of (48 + d)"

definition char_digit :: "char \<Rightarrow> nat" where
  "char_digit c = of_char c - 48"

lemma digit_char_inverse [simp]:
  "d < 10 \<Longrightarrow> char_digit (digit_char d) = d" "d < 10 \<Longrightarrow> is_digit (digit_char d)"
  by (auto simp: digit_char_def char_digit_def is_digit_def of_char_of take_bit_eq_mod)

fun dec_digits :: "nat \<Rightarrow> string" where
  "dec_digits n = (if n < 10 then [digit_char n] else dec_digits (n div 10) @ [digit_char (n mod 10)])"

declare dec_digits.simps [simp del]

definition parse_digits :: "string \<Rightarrow> nat" where
  "parse_digits s = foldl (\<lambda>acc c. 10 * acc + char_digit c) 0 s"

text \<open>\<open>str(i)\<close> of an integer, and \<open>int(s)\<close> of a string: \<open>None\<close> where Python raises
  \<open>ValueError\<close>. White space around the number and one sign are accepted.\<close>

definition str_of_int :: "int \<Rightarrow> string" where
  "str_of_int i = (if i < 0 then CHR ''-'' # dec_digits (nat (- i)) else dec_digits (nat i))"

definition nat_of_str :: "string \<Rightarrow> nat option" where
  "nat_of_str s = (if s \<noteq> [] \<and> list_all is_digit s then Some (parse_digits s) else None)"

definition int_of_str :: "string \<Rightarrow> int option" where
  "int_of_str s =
     (case strip s of
        [] \<Rightarrow> None
      | c # cs \<Rightarrow>
          if c = CHR ''-'' then map_option (\<lambda>n. - int n) (nat_of_str cs)
          else if c = CHR ''+'' then map_option int (nat_of_str cs)
          else map_option int (nat_of_str (c # cs)))"

lemma dec_digits_ne [simp]: "dec_digits n \<noteq> []"
  by (subst dec_digits.simps) simp

lemma dec_digits_digits: "list_all is_digit (dec_digits n)"
proof (induction n rule: dec_digits.induct)
  case (1 n)
  then show ?case by (subst dec_digits.simps) auto
qed

lemma parse_dec_digits: "parse_digits (dec_digits n) = n"
proof (induction n rule: dec_digits.induct)
  case (1 n)
  then show ?case by (subst dec_digits.simps) (auto simp: parse_digits_def)
qed

lemma digit_not_special:
  assumes "is_digit c"
  shows "\<not> is_space c" "c \<noteq> CHR ''-''" "c \<noteq> CHR '',''" "c \<noteq> CHR ''^''" "c \<noteq> CHR ''+''"
  using assms by (auto simp: is_digit_def is_space_def)

lemma dec_digits_char:
  assumes "c \<in> set (dec_digits n)"
  shows "\<not> is_space c" "c \<noteq> CHR ''-''" "c \<noteq> CHR '',''" "c \<noteq> CHR ''^''"
  using assms dec_digits_digits[of n] digit_not_special by (auto simp: list_all_iff)

lemma strip_dec_digits [simp]: "strip (dec_digits n) = dec_digits n"
  by (rule strip_id) (simp add: dec_digits_char)

lemma int_of_str_dec: "int_of_str (dec_digits n) = Some (int n)"
proof -
  obtain c cs where c: "dec_digits n = c # cs"
    by (meson dec_digits_ne list.exhaust)
  then have "is_digit c"
    using dec_digits_digits[of n] by simp
  moreover have "strip (c # cs) = c # cs"
    using c strip_dec_digits[of n] by simp
  ultimately show ?thesis
    using c digit_not_special[of c] dec_digits_digits[of n] parse_dec_digits[of n]
    by (simp add: int_of_str_def nat_of_str_def)
qed

lemma int_of_str_str: "int_of_str (str_of_int i) = Some i"
proof (cases "i < 0")
  case True
  have "strip (CHR ''-'' # dec_digits k) = CHR ''-'' # dec_digits k" for k
    by (rule strip_id) (use dec_digits_char(1) in \<open>auto simp: is_space_def\<close>)
  with True show ?thesis
    using dec_digits_digits[of "nat (- i)"] parse_dec_digits[of "nat (- i)"]
    by (simp add: str_of_int_def int_of_str_def nat_of_str_def)
next
  case False
  then show ?thesis by (simp add: str_of_int_def int_of_str_dec)
qed

section \<open>Ranges\<close>

text \<open>\<open>range(a, b)\<close> is the library's \<open>[a..b - 1]\<close> on integers.\<close>

definition py_range :: "int \<Rightarrow> int \<Rightarrow> int list" where
  "py_range a b = [a..b - 1]"

lemma set_py_range [simp]: "set (py_range a b) = {a..<b}"
  by (auto simp: py_range_def)

lemma distinct_py_range [simp]: "distinct (py_range a b)"
  by (simp add: py_range_def)

lemma length_py_range [simp]: "length (py_range a b) = nat (b - a)"
  by (simp add: py_range_def)

end
