(* ===== verification/Nova_Base.thy ===== *)
theory Nova_Base
  imports Py_Base
begin

text \<open>
  What the Nova theories share: the exceptions the modelled code raises (\<open>nova/exception.py\<close>
  and Python's own), dictionaries with string keys as association lists in iteration order,
  the flavor and the image properties (\<open>nova/objects/flavor.py\<close>,
  \<open>nova/objects/image_meta.py\<close>) with the fields the code reads, and
  \<open>oslo_utils.strutils.bool_from_string\<close>.
\<close>

section \<open>Exceptions\<close>

datatype nova_exc =
    Invalid string string
  | ImageSerialPortNumberInvalid string
  | ImageSerialPortNumberExceedFlavorValue
  | ImageVCPULimitsRangeExceeded
  | ImageVCPUTopologyRangeExceeded
  | ImageVCPULimitsRangeImpossible
  | MemoryPageSizeNotSupported int
  | MemoryPageSizeInvalid int
  | MemoryPageSizeForbidden string string
  | ImageNUMATopologyForbidden string
  | ImageNUMATopologyIncomplete
  | ImageNUMATopologyAsymmetric
  | ImageNUMATopologyCPUOutOfRange int int
  | ImageNUMATopologyCPUDuplicates int
  | ImageNUMATopologyCPUsUnassigned "int set"
  | ImageNUMATopologyMemoryOutOfRange int int
  | RealtimeMaskNotFoundOrInvalid
  | RealtimeConfigurationInvalid
  | ImageCPUPinningForbidden
  | CPUThreadPolicyConfigurationInvalid
  | ImageCPUThreadPolicyForbidden
  | CPUPinningUnknown "int set" "int set"
  | CPUPinningInvalid "int set" "int set"
  | PciDevicePoolEmpty
  | PciDeviceRequestFailed
  | NoValidHost
  | PyValueError
  | PyTypeError
  | PyKeyError
  | PyIndexError
  | PyAttributeError
  | PyZeroDivisionError

type_synonym 'a nova = "(nova_exc, 'a) result"

section \<open>Dictionaries with string keys\<close>

type_synonym 'v sdict = "(string \<times> 'v) list"

abbreviation dget :: "'v sdict \<Rightarrow> string \<Rightarrow> 'v option" where
  "dget d k \<equiv> map_of d k"

text \<open>\<open>int(s)\<close>, and \<open>int(d.get(k, default))\<close>.\<close>

definition py_int :: "string \<Rightarrow> int nova" where
  "py_int s = (case int_of_str s of None \<Rightarrow> Inl PyValueError | Some i \<Rightarrow> Inr i)"

definition dget_int :: "string sdict \<Rightarrow> string \<Rightarrow> int \<Rightarrow> int nova" where
  "dget_int d k dflt = (case dget d k of None \<Rightarrow> Inr dflt | Some s \<Rightarrow> py_int s)"

definition opt_or :: "'a option \<Rightarrow> 'a \<Rightarrow> 'a" where
  "opt_or x d = (case x of None \<Rightarrow> d | Some y \<Rightarrow> y)"

lemma opt_or_simps [simp]: "opt_or None d = d" "opt_or (Some y) d = y"
  by (simp_all add: opt_or_def)

text \<open>Truth value of an optional string, and of a string with \<open>or\<close>.\<close>

definition str_true :: "string option \<Rightarrow> bool" where
  "str_true s = (case s of None \<Rightarrow> False | Some x \<Rightarrow> x \<noteq> [])"

section \<open>\<open>strutils.bool_from_string\<close>\<close>

definition lower_char :: "char \<Rightarrow> char" where
  "lower_char c =
     (let n = (of_char c :: nat) in if 65 \<le> n \<and> n \<le> 90 then char_of (n + 32) else c)"

definition lower :: "string \<Rightarrow> string" where
  "lower s = map lower_char s"

definition true_strings :: "string list" where
  "true_strings = [''1'', ''t'', ''true'', ''on'', ''y'', ''yes'']"

text \<open>Not strict, with the default \<open>False\<close>; \<open>None\<close> is read as the string \<open>None\<close>.\<close>

definition bool_from_string :: "string option \<Rightarrow> bool" where
  "bool_from_string s =
     (case s of None \<Rightarrow> False | Some x \<Rightarrow> lower (strip x) \<in> set true_strings)"

section \<open>CPU policies\<close>

datatype cpu_policy = DEDICATED | SHARED
datatype cpu_thread_policy = PREFER | ISOLATE | REQUIRE

fun cpu_policy_str :: "cpu_policy \<Rightarrow> string" where
  "cpu_policy_str DEDICATED = ''dedicated''"
| "cpu_policy_str SHARED = ''shared''"

fun cpu_thread_policy_str :: "cpu_thread_policy \<Rightarrow> string" where
  "cpu_thread_policy_str PREFER = ''prefer''"
| "cpu_thread_policy_str ISOLATE = ''isolate''"
| "cpu_thread_policy_str REQUIRE = ''require''"

text \<open>Assigning a string to an enum field: \<open>ValueError\<close> for an unknown value.\<close>

definition coerce_thread_policy :: "string option \<Rightarrow> cpu_thread_policy option nova" where
  "coerce_thread_policy s =
     (case s of
        None \<Rightarrow> Inr None
      | Some x \<Rightarrow>
          (if x = ''prefer'' then Inr (Some PREFER)
           else if x = ''isolate'' then Inr (Some ISOLATE)
           else if x = ''require'' then Inr (Some REQUIRE)
           else Inl PyValueError))"

lemma coerce_thread_policy_str [simp]:
  "coerce_thread_policy (Some (cpu_thread_policy_str p)) = Inr (Some p)"
  by (cases p) (simp_all add: coerce_thread_policy_def)

section \<open>Flavor and image properties\<close>

record flavor =
  fl_id :: int
  fl_name :: string
  fl_vcpus :: int
  fl_memory_mb :: int
  fl_extra_specs :: "string sdict"

text \<open>\<open>None\<close>: the attribute is not set.\<close>

record image_props =
  hw_serial_port_count :: "int option"
  hw_cpu_sockets :: "int option"
  hw_cpu_cores :: "int option"
  hw_cpu_threads :: "int option"
  hw_cpu_max_sockets :: "int option"
  hw_cpu_max_cores :: "int option"
  hw_cpu_max_threads :: "int option"
  hw_cpu_policy :: "cpu_policy option"
  hw_cpu_thread_policy :: "cpu_thread_policy option"
  hw_cpu_realtime_mask :: "string option"
  hw_mem_page_size :: "string option"
  hw_numa_nodes :: "int option"
  hw_numa_cpus :: "int set list option"
  hw_numa_mem :: "int list option"

definition no_image_props :: image_props where
  "no_image_props =
     \<lparr>hw_serial_port_count = None, hw_cpu_sockets = None, hw_cpu_cores = None,
      hw_cpu_threads = None, hw_cpu_max_sockets = None, hw_cpu_max_cores = None,
      hw_cpu_max_threads = None, hw_cpu_policy = None, hw_cpu_thread_policy = None,
      hw_cpu_realtime_mask = None, hw_mem_page_size = None, hw_numa_nodes = None,
      hw_numa_cpus = None, hw_numa_mem = None\<rparr>"

section \<open>Sorting in descending order\<close>

text \<open>\<open>sorted(xs, key=key, reverse=True)\<close> keeps the order of elements with equal keys.\<close>

definition sorted_rev_by :: "('a \<Rightarrow> 'b::linorder) \<Rightarrow> 'a list \<Rightarrow> 'a list" where
  "sorted_rev_by key xs = rev (sort_key key (rev xs))"

lemma set_sorted_rev_by [simp]: "set (sorted_rev_by key xs) = set xs"
  by (simp add: sorted_rev_by_def)

lemma length_sorted_rev_by [simp]: "length (sorted_rev_by key xs) = length xs"
  by (simp add: sorted_rev_by_def)

lemma sorted_rev_by_Nil [simp]: "sorted_rev_by key xs = [] \<longleftrightarrow> xs = []"
  by (metis length_0_conv length_sorted_rev_by)

lemma distinct_sorted_rev_by [simp]: "distinct (sorted_rev_by key xs) = distinct xs"
  by (simp add: sorted_rev_by_def)

lemma sorted_rev_by_desc: "sorted_wrt (\<lambda>x y. key x \<ge> key y) (sorted_rev_by key xs)"
proof -
  have "sorted (map key (sort_key key (rev xs)))" by simp
  then show ?thesis
    by (simp only: sorted_rev_by_def sorted_wrt_rev sorted_map)
qed

end
