(* ===== verification/Cpu_Spec.thy ===== *)
theory Cpu_Spec
  imports Nova_Base
begin

text \<open>
  The CPU set specifications of \<open>nova/virt/hardware.py\<close>: \<open>parse_cpu_spec\<close>,
  \<open>format_cpu_spec\<close>, \<open>get_vcpu_pin_set\<close> and \<open>vcpus_realtime_topology\<close>, with the round trip
  of formatting and parsing.
\<close>

section \<open>Parsing\<close>

text \<open>One iteration of the loop over the rules: the ids included and the ids rejected.\<close>

definition parse_rule :: "int set \<times> int set \<Rightarrow> string \<Rightarrow> (int set \<times> int set) nova" where
  "parse_rule st rule0 =
     (let (cpuset_ids, cpuset_reject_ids) = st; rule = strip rule0
      in if length rule < 1 then Inr st
         else
           (case split_once (CHR ''-'') rule of
              [p0, p1] \<Rightarrow>
                (let reject = (p0 \<noteq> [] \<and> hd p0 = CHR ''^'');
                     p0' = (if reject then tl p0 else p0)
                 in (case (int_of_str (strip p0'), int_of_str (strip p1)) of
                       (Some start, Some stop) \<Rightarrow>
                         if start > stop then Inl (Invalid ''Invalid range expression'' rule)
                         else if \<not> reject
                         then Inr (cpuset_ids \<union> set (py_range start (stop + 1)), cpuset_reject_ids)
                         else Inr (cpuset_ids, cpuset_reject_ids \<union> set (py_range start (stop + 1)))
                     | _ \<Rightarrow> Inl (Invalid ''Invalid range expression'' rule)))
            | _ \<Rightarrow>
                if hd rule = CHR ''^''
                then (case int_of_str (strip (tl rule)) of
                        Some i \<Rightarrow> Inr (cpuset_ids, insert i cpuset_reject_ids)
                      | None \<Rightarrow> Inl (Invalid ''Invalid exclusion expression'' rule))
                else (case int_of_str rule of
                        Some i \<Rightarrow> Inr (insert i cpuset_ids, cpuset_reject_ids)
                      | None \<Rightarrow> Inl (Invalid ''Invalid inclusion expression'' rule))))"

definition parse_rules :: "string list \<Rightarrow> (int set \<times> int set) nova" where
  "parse_rules rules = rfold parse_rule ({}, {}) rules"

definition parse_cpu_spec :: "string \<Rightarrow> int set nova" where
  "parse_cpu_spec spec =
     rbind (parse_rules (split_on (CHR '','') spec))
       (\<lambda>(cpuset_ids, cpuset_reject_ids). Inr (cpuset_ids - cpuset_reject_ids))"

text \<open>\<open>CONF.vcpu_pin_set\<close> is the argument.\<close>

definition get_vcpu_pin_set :: "string option \<Rightarrow> int set option nova" where
  "get_vcpu_pin_set conf =
     (if \<not> str_true conf then Inr None
      else rbind (parse_cpu_spec (the conf)) (\<lambda>cpuset_ids.
        if cpuset_ids = {} then Inl (Invalid ''No CPUs available after parsing'' (the conf))
        else Inr (Some cpuset_ids)))"

section \<open>Formatting\<close>

text \<open>One iteration of the loop that groups consecutive indexes.\<close>

definition group_step :: "int list list \<times> int option \<Rightarrow> int \<Rightarrow> int list list \<times> int option" where
  "group_step st cpuindex =
     (let (ranges, previndex) = st;
          ranges' = (if previndex = None \<or> previndex \<noteq> Some (cpuindex - 1)
                     then ranges @ [[]] else ranges)
      in (butlast ranges' @ [last ranges' @ [cpuindex]], Some cpuindex))"

definition group_ranges :: "int list \<Rightarrow> int list list" where
  "group_ranges xs = fst (foldl group_step ([], None) xs)"

definition format_entry :: "int list \<Rightarrow> string" where
  "format_entry entry =
     (if length entry = 1 then str_of_int (hd entry)
      else str_of_int (hd entry) @ ''-'' @ str_of_int (entry ! (length entry - 1)))"

text \<open>The argument is a Python set; \<open>sorted(cpuset)\<close> is its sorted list.\<close>

definition format_cpu_spec :: "int set \<Rightarrow> bool \<Rightarrow> string" where
  "format_cpu_spec cpuset allow_ranges =
     (if allow_ranges
      then join '','' (map format_entry (group_ranges (sorted_list_of_set cpuset)))
      else join '','' (map str_of_int (sorted_list_of_set cpuset)))"

section \<open>Realtime CPUs\<close>

definition is_realtime_enabled :: "flavor \<Rightarrow> bool" where
  "is_realtime_enabled fl = bool_from_string (dget (fl_extra_specs fl) ''hw:cpu_realtime'')"

definition get_realtime_mask :: "flavor \<Rightarrow> image_props \<Rightarrow> string option" where
  "get_realtime_mask fl im =
     (let flavor_mask = dget (fl_extra_specs fl) ''hw:cpu_realtime_mask'';
          image_mask = hw_cpu_realtime_mask im
      in if str_true image_mask then image_mask else flavor_mask)"

definition vcpus_realtime_topology ::
  "int set \<Rightarrow> flavor \<Rightarrow> image_props \<Rightarrow> (int set \<times> int set) nova" where
  "vcpus_realtime_topology vcpus_set fl im =
     (let mask = get_realtime_mask fl im
      in if \<not> str_true mask then Inl RealtimeMaskNotFoundOrInvalid
         else
           let vcpus_spec = format_cpu_spec vcpus_set True
           in rbind (parse_cpu_spec (vcpus_spec @ '', '' @ the mask)) (\<lambda>vcpus_rt.
                let vcpus_em = vcpus_set - vcpus_rt
                in if card vcpus_rt < 1 \<or> card vcpus_em < 1
                   then Inl RealtimeMaskNotFoundOrInvalid
                   else Inr (vcpus_rt, vcpus_em)))"

section \<open>The loop of the parser\<close>

text \<open>What a rule adds does not depend on the state of the loop.\<close>

lemma parse_rule_effect:
  "parse_rule (i, r) rule =
     rbind (parse_rule ({}, {}) rule) (\<lambda>(a, b). Inr (i \<union> a, r \<union> b))"
  by (simp add: parse_rule_def Let_def split: list.splits option.splits)

lemma parse_rule_finite: "parse_rule ({}, {}) rule = Inr (a, b) \<Longrightarrow> finite a \<and> finite b"
  by (auto simp: parse_rule_def Let_def split: if_splits list.splits option.splits)

lemma parse_rules_effect:
  "rfold parse_rule (i, r) rules =
     rbind (parse_rules rules) (\<lambda>(a, b). Inr (i \<union> a, r \<union> b))"
proof (induction rules arbitrary: i r)
  case (Cons x xs)
  show ?case
  proof (cases "parse_rule ({}, {}) x")
    case (Inr ab)
    obtain a b where ab: "ab = (a, b)" by fastforce
    have "rfold parse_rule (i \<union> a, r \<union> b) xs =
        rbind (rfold parse_rule (a, b) xs) (\<lambda>(a, b). Inr (i \<union> a, r \<union> b))"
      unfolding Cons.IH[of "i \<union> a"] Cons.IH[of a]
      by (cases "parse_rules xs") (auto simp: Un_assoc)
    with Inr ab show ?thesis
      by (simp add: parse_rules_def parse_rule_effect[of i r x])
  qed (simp add: parse_rules_def parse_rule_effect[of i r x])
qed (simp add: parse_rules_def)

lemma parse_rules_append:
  "parse_rules (xs @ ys) =
     rbind (parse_rules xs) (\<lambda>(a, b). rbind (parse_rules ys) (\<lambda>(c, d). Inr (a \<union> c, b \<union> d)))"
  by (cases "parse_rules xs")
     (auto simp: parse_rules_def[of "xs @ ys"] rfold_append parse_rules_def[of xs, symmetric]
       parse_rules_effect)

section \<open>Grouping into ranges\<close>

definition run_of :: "int list \<Rightarrow> bool" where
  "run_of e \<longleftrightarrow> e \<noteq> [] \<and> e = [hd e..last e]"

lemma run_of_snoc: "run_of e \<Longrightarrow> last e = i - 1 \<Longrightarrow> run_of (e @ [i])"
proof -
  assume e: "run_of e" and l: "last e = i - 1"
  have ne: "e \<noteq> []" and up: "[hd e..last e] = e" using e by (simp_all add: run_of_def)
  then have "hd e \<le> last e" by (metis upto_empty linorder_not_less)
  then have "[hd e..i] = [hd e..i - 1] @ [i]" using l by (simp add: upto_rec2)
  also have "\<dots> = e @ [i]" using up l by simp
  finally show ?thesis using ne by (simp add: run_of_def)
qed

lemma group_step_inv:
  assumes "concat rs = xs" "\<forall>e \<in> set rs. run_of e"
    and "xs = [] \<longrightarrow> p = None" "xs \<noteq> [] \<longrightarrow> rs \<noteq> [] \<and> p = Some (last xs)"
  shows "concat (fst (group_step (rs, p) i)) = xs @ [i] \<and>
    (\<forall>e \<in> set (fst (group_step (rs, p) i)). run_of e) \<and>
    fst (group_step (rs, p) i) \<noteq> [] \<and> snd (group_step (rs, p) i) = Some i"
proof (cases "p = None \<or> p \<noteq> Some (i - 1)")
  case True
  then show ?thesis using assms by (auto simp: group_step_def run_of_def)
next
  case False
  then have ne: "xs \<noteq> []" and p: "p = Some (i - 1)" using assms by auto
  then obtain rs' e where rs: "rs = rs' @ [e]" using assms(4) by (metis rev_exhaust)
  have e: "run_of e" and l: "last e = i - 1"
    using assms ne p rs by (auto simp: run_of_def last_append)
  have "run_of (e @ [i])" by (rule run_of_snoc[OF e l])
  with rs p show ?thesis using assms by (auto simp: group_step_def)
qed

lemma group_ranges_runs:
  "concat (group_ranges xs) = xs \<and> (\<forall>e \<in> set (group_ranges xs). run_of e)"
proof -
  have "concat (fst (foldl group_step ([], None) xs)) = xs \<and>
    (\<forall>e \<in> set (fst (foldl group_step ([], None) xs)). run_of e) \<and>
    (xs = [] \<longrightarrow> snd (foldl group_step ([], None) xs) = None) \<and>
    (xs \<noteq> [] \<longrightarrow> fst (foldl group_step ([], None) xs) \<noteq> [] \<and>
      snd (foldl group_step ([], None) xs) = Some (last xs))"
  proof (induction xs rule: rev_induct)
    case (snoc i xs)
    then show ?case
      using group_step_inv[of "fst (foldl group_step ([], None) xs)" xs
          "snd (foldl group_step ([], None) xs)" i]
      by (simp del: concat_eq_Nil_conv)
  qed simp
  then show ?thesis by (simp add: group_ranges_def)
qed

section \<open>Round trip\<close>

lemma str_of_nonneg: "0 \<le> i \<Longrightarrow> str_of_int i = dec_digits (nat i)"
  by (simp add: str_of_int_def)

lemma parse_rule_single:
  assumes "strip r = r" "r \<noteq> []" "CHR ''-'' \<notin> set r" "hd r \<noteq> CHR ''^''" "int_of_str r = Some i"
  shows "parse_rule ({}, {}) r = Inr ({i}, {})"
  using assms by (simp add: parse_rule_def Let_def split_once_free Suc_le_eq)

lemma parse_rule_range:
  assumes "strip (a @ CHR ''-'' # b) = a @ CHR ''-'' # b" "a \<noteq> []" "CHR ''-'' \<notin> set a"
    and "hd a \<noteq> CHR ''^''" "int_of_str (strip a) = Some i" "int_of_str (strip b) = Some j" "i \<le> j"
  shows "parse_rule ({}, {}) (a @ CHR ''-'' # b) = Inr ({i..j}, {})"
  using assms by (simp add: parse_rule_def Let_def split_once_append atLeastLessThanPlusOne_atLeastAtMost_int)

lemma format_entry_parses:
  assumes "run_of e" and "\<forall>i \<in> set e. 0 \<le> i"
  shows "parse_rule ({}, {}) (format_entry e) = Inr (set e, {})"
    and "CHR '','' \<notin> set (format_entry e)"
proof -
  have ne: "e \<noteq> []" and e: "e = [hd e..last e]" using assms(1) by (auto simp: run_of_def)
  let ?a = "hd e" and ?b = "last e"
  have ab: "0 \<le> ?a" "0 \<le> ?b" "?a \<le> ?b"
    using assms(2) ne e by (auto simp: upto_empty intro: ccontr)
  have dash: "CHR ''-'' \<notin> set (dec_digits n)" for n using dec_digits_char(2) by blast
  have comma: "CHR '','' \<notin> set (dec_digits n)" for n using dec_digits_char(3) by blast
  have caret: "hd (dec_digits n) \<noteq> CHR ''^''" for n
    using dec_digits_char(4) dec_digits_ne hd_in_set by blast
  have "parse_rule ({}, {}) (format_entry e) = Inr (set e, {}) \<and>
    CHR '','' \<notin> set (format_entry e)"
  proof (cases "length e = 1")
    case True
    then obtain a where "e = [a]" by (auto simp: length_Suc_conv)
    then have "format_entry e = dec_digits (nat ?a)" and "set e = {?a}"
      using ab by (auto simp: format_entry_def str_of_nonneg)
    then show ?thesis
      using ab by (simp add: parse_rule_single[OF _ _ dash caret int_of_str_dec] comma)
  next
    case False
    have last: "str_of_int (e ! (length e - 1)) = dec_digits (nat ?b)"
      using ne ab by (metis last_conv_nth str_of_nonneg)
    have f: "format_entry e = dec_digits (nat ?a) @ CHR ''-'' # dec_digits (nat ?b)"
      using False ab by (simp add: format_entry_def str_of_nonneg last[simplified])
    have st: "strip (format_entry e) = format_entry e"
      unfolding f by (rule strip_id) (use dec_digits_char(1) in \<open>auto simp: is_space_def\<close>)
    have "set e = {?a..?b}" using e by (metis set_upto)
    then show ?thesis
      using st ab comma unfolding f
      by (simp add: parse_rule_range[OF _ _ dash caret, where i = ?a and j = ?b] int_of_str_dec)
  qed
  then show "parse_rule ({}, {}) (format_entry e) = Inr (set e, {})"
    and "CHR '','' \<notin> set (format_entry e)" by auto
qed

lemma parse_rules_entries:
  assumes "\<forall>e \<in> set es. run_of e \<and> (\<forall>i \<in> set e. 0 \<le> i)"
  shows "parse_rules (map format_entry es) = Inr (set (concat es), {})"
  using assms
proof (induction es)
  case (Cons e es)
  then show ?case
    by (simp add: parse_rules_def[of "_ # _"] format_entry_parses(1) parse_rules_effect)
qed (simp add: parse_rules_def)

lemma parse_join_entries:
  assumes "\<forall>e \<in> set es. run_of e \<and> (\<forall>i \<in> set e. 0 \<le> i)"
  shows "parse_rules (split_on (CHR '','') (join '','' (map format_entry es))) =
    Inr (set (concat es), {})"
proof (cases "es = []")
  case False
  have "split_on (CHR '','') (join '','' (map format_entry es)) = map format_entry es"
    by (rule split_on_join) (use False assms format_entry_parses(2) in auto)
  then show ?thesis using parse_rules_entries[OF assms] by simp
qed (simp add: parse_rules_def parse_rule_def strip_def lstrip_def)

lemma format_cpu_spec_entries:
  assumes "finite s" and "\<forall>i \<in> s. 0 \<le> i"
  obtains es where "format_cpu_spec s allow = join '','' (map format_entry es)"
    and "\<forall>e \<in> set es. run_of e \<and> (\<forall>i \<in> set e. 0 \<le> i)" and "set (concat es) = s"
proof (cases allow)
  case True
  let ?es = "group_ranges (sorted_list_of_set s)"
  have c: "concat ?es = sorted_list_of_set s" and r: "\<forall>e \<in> set ?es. run_of e"
    using group_ranges_runs by auto
  have s: "set (concat ?es) = s" unfolding c using assms(1) by simp
  moreover have "\<forall>e \<in> set ?es. \<forall>i \<in> set e. 0 \<le> i"
    using s assms(2) by auto
  ultimately show thesis
    using that[of ?es] True r by (simp add: format_cpu_spec_def)
next
  case False
  let ?es = "map (\<lambda>i. [i]) (sorted_list_of_set s)"
  have eq: "map str_of_int (sorted_list_of_set s) = map format_entry ?es"
    by (simp add: format_entry_def comp_def)
  have "format_cpu_spec s allow = join '','' (map format_entry ?es)"
    using False unfolding format_cpu_spec_def eq by simp
  then show thesis
    by (rule that) (use assms in \<open>auto simp: run_of_def\<close>)
qed

lemma parse_rules_format:
  assumes "finite s" and "\<forall>i \<in> s. 0 \<le> i"
  shows "parse_rules (split_on (CHR '','') (format_cpu_spec s allow)) = Inr (s, {})"
proof -
  obtain es where "format_cpu_spec s allow = join '','' (map format_entry es)"
    and "\<forall>e \<in> set es. run_of e \<and> (\<forall>i \<in> set e. 0 \<le> i)" and "set (concat es) = s"
    using format_cpu_spec_entries[OF assms] by blast
  then show ?thesis using parse_join_entries[of es] by simp
qed

lemma parse_format_cpu_spec:
  assumes "finite s" and "\<forall>i \<in> s. 0 \<le> i"
  shows "parse_cpu_spec (format_cpu_spec s allow) = Inr s"
  by (simp add: parse_cpu_spec_def parse_rules_format[OF assms])

text \<open>Claim C32. Formatting a finite set of CPU indexes, with or without ranges, and parsing the
  text gives the set back: the specification stored for libvirt and in the legacy topology
  dictionaries loses no CPU.\<close>

theorem cpu_spec_roundtrip:
  assumes "finite s" and "\<forall>i \<in> s. 0 \<le> i"
  shows "parse_cpu_spec (format_cpu_spec s allow_ranges) = Inr s"
  using assms by (rule parse_format_cpu_spec)

theorem cpu_spec_roundtrip_witness:
  "parse_cpu_spec (format_cpu_spec {0, 1, 2, 5, 11} True) = Inr {0, 1, 2, 5, 11}"
  by (rule cpu_spec_roundtrip) simp_all

section \<open>The realtime partition\<close>

lemma parse_rule_space [simp]: "parse_rule st (CHR '' '' # r) = parse_rule st r"
proof -
  have "strip (CHR '' '' # r) = strip r" by (simp add: strip_def lstrip_def is_space_def)
  then show ?thesis by (simp add: parse_rule_def)
qed

lemma parse_rules_space: "parse_rules (split_on (CHR '','') (CHR '' '' # m)) = parse_rules (split_on (CHR '','') m)"
proof -
  obtain w ws where w: "split_on (CHR '','') m = w # ws" by (meson split_on_ne list.exhaust)
  then have "split_on (CHR '','') (CHR '' '' # m) = (CHR '' '' # w) # ws" by simp
  with w show ?thesis by (simp add: parse_rules_def)
qed

lemma parse_rules_finite: "parse_rules rules = Inr (a, b) \<Longrightarrow> finite a \<and> finite b"
proof -
  assume "parse_rules rules = Inr (a, b)"
  then have "(\<lambda>(x, y). finite x \<and> finite y) (a, b)"
    unfolding parse_rules_def
  proof (rule rfold_invariant)
    fix st r st'
    assume "(\<lambda>(x, y). finite x \<and> finite y) st" and "parse_rule st r = Inr st'"
    then show "(\<lambda>(x, y). finite x \<and> finite y) st'"
      using parse_rule_effect[of "fst st" "snd st" r]
      by (cases "parse_rule ({}, {}) r") (auto dest: parse_rule_finite)
  qed simp
  then show ?thesis by simp
qed

lemma parse_spec_with_mask:
  assumes "finite s" and "\<forall>i \<in> s. 0 \<le> i"
  shows "parse_cpu_spec (format_cpu_spec s allow @ '', '' @ m) =
    rbind (parse_rules (split_on (CHR '','') m)) (\<lambda>(a, b). Inr ((s \<union> a) - b))"
proof -
  define t where "t = CHR '' '' # m"
  have "split_on (CHR '','') (format_cpu_spec s allow @ '', '' @ m) =
      split_on (CHR '','') (format_cpu_spec s allow) @ split_on (CHR '','') t"
    by (simp add: split_on_sep t_def)
  moreover have "parse_rules (split_on (CHR '','') t) = parse_rules (split_on (CHR '','') m)"
    unfolding t_def by (rule parse_rules_space)
  ultimately show ?thesis
    by (cases "parse_rules (split_on (CHR '','') m)")
       (auto simp: parse_cpu_spec_def parse_rules_append parse_rules_format[OF assms])
qed

text \<open>When \<open>vcpus_realtime_topology\<close> succeeds, the mask parses to included and
  excluded CPUs, the emulator CPUs are exactly the guest's CPUs the mask excludes, the realtime
  CPUs are the guest's and the included CPUs without the excluded ones, and neither set is
  empty: no CPU of the guest is in both sets or in none.\<close>

theorem realtime_partition:
  assumes "finite vcpus" and "\<forall>i \<in> vcpus. 0 \<le> i"
    and "vcpus_realtime_topology vcpus fl im = Inr (rt, em)"
  shows "\<exists>m inc exc. get_realtime_mask fl im = Some m \<and>
    parse_rules (split_on (CHR '','') m) = Inr (inc, exc) \<and>
    rt = (vcpus \<union> inc) - exc \<and> em = vcpus \<inter> exc \<and> rt \<noteq> {} \<and> em \<noteq> {} \<and>
    rt \<inter> em = {} \<and> vcpus \<subseteq> rt \<union> em"
proof -
  obtain m where m: "get_realtime_mask fl im = Some m"
    using assms(3) by (auto simp: vcpus_realtime_topology_def Let_def str_true_def
        split: if_splits option.splits)
  obtain inc exc where p: "parse_rules (split_on (CHR '','') m) = Inr (inc, exc)"
    and r: "rt = (vcpus \<union> inc) - exc" "em = vcpus - rt" "\<not> card rt < 1" "\<not> card em < 1"
    using assms(3) m
    by (auto simp: vcpus_realtime_topology_def Let_def rbind_eq_Inr
        parse_spec_with_mask[OF assms(1,2), unfolded append.simps] split: if_splits)
  have "finite rt" using r(1) assms(1) parse_rules_finite[OF p] by simp
  then have "rt \<noteq> {}" using r(3) by (metis card.empty less_one)
  moreover have "em \<noteq> {}" using r(4) by (metis card.empty less_one)
  ultimately have "em = vcpus \<inter> exc" "rt \<noteq> {}" "em \<noteq> {}" "vcpus \<subseteq> rt \<union> em" "rt \<inter> em = {}"
    using r(1,2) by auto
  with m p r show ?thesis by blast
qed

theorem realtime_partition_witness:
  "\<exists>m inc exc. parse_rules (split_on (CHR '','') m) = Inr (inc, exc) \<and>
    ({1, 2, 3} :: int set) = ({0, 1, 2, 3} \<union> inc) - exc \<and> ({0} :: int set) = {0, 1, 2, 3} \<inter> exc"
proof -
  let ?fl = "\<lparr>fl_id = 1, fl_name = ''rt'', fl_vcpus = 4, fl_memory_mb = 512,
    fl_extra_specs = [(''hw:cpu_realtime_mask'', ''^0'')]\<rparr>"
  have "vcpus_realtime_topology {0, 1, 2, 3} ?fl no_image_props = Inr ({1, 2, 3}, {0})"
    by code_simp
  from realtime_partition[OF _ _ this] show ?thesis by auto
qed

end
