(* ===== verification/Numa_Objects.thy ===== *)
theory Numa_Objects
  imports Cpu_Spec
begin

text \<open>
  The objects of \<open>nova/objects/virt_cpu_topology.py\<close>, \<open>nova/objects/numa.py\<close> and
  \<open>nova/objects/instance_numa_topology.py\<close>: host NUMA cells with their huge pages and pinned
  CPUs, instance cells with their pinning, and the operations of these classes. A set of a
  host's CPUs is an \<open>int set\<close>; the pinning dictionary is an association list.
\<close>

section \<open>Records\<close>

record virt_cpu_topology =
  sockets :: int
  cores :: int
  threads :: int

record numa_pages =
  size_kb :: int
  total :: int
  used :: int

record numa_cell =
  nc_id :: int
  nc_cpuset :: "int set"
  nc_memory :: int
  nc_cpu_usage :: int
  nc_memory_usage :: int
  nc_pinned_cpus :: "int set"
  nc_siblings :: "int set list"
  nc_mempages :: "numa_pages list"

type_synonym numa_topology = "numa_cell list"

record numa_limits =
  cpu_allocation_ratio :: rat
  ram_allocation_ratio :: rat

record inst_cell =
  ic_id :: int
  ic_cpuset :: "int set"
  ic_memory :: int
  ic_pagesize :: "int option"
  ic_cpu_topology :: "virt_cpu_topology option"
  ic_cpu_pinning :: "(int \<times> int) list option"
  ic_cpu_policy :: "cpu_policy option"
  ic_cpu_thread_policy :: "cpu_thread_policy option"

type_synonym inst_topology = "inst_cell list"

text \<open>The constructor with the keyword arguments the code passes; the rest is \<open>None\<close>.\<close>

definition InstanceNUMACell :: "int \<Rightarrow> int set \<Rightarrow> int \<Rightarrow> inst_cell" where
  "InstanceNUMACell cid cpuset memory =
     \<lparr>ic_id = cid, ic_cpuset = cpuset, ic_memory = memory, ic_pagesize = None,
      ic_cpu_topology = None, ic_cpu_pinning = None, ic_cpu_policy = None,
      ic_cpu_thread_policy = None\<rparr>"

section \<open>Huge pages\<close>

definition pages_free :: "numa_pages \<Rightarrow> int" where
  "pages_free p = total p - used p"

definition pages_free_kb :: "numa_pages \<Rightarrow> int" where
  "pages_free_kb p = pages_free p * size_kb p"

text \<open>\<open>NUMACell.can_fit_hugepages\<close>: the first pages entry of the size decides;
  \<open>memory % 0\<close> raises.\<close>

fun can_fit_pages :: "numa_pages list \<Rightarrow> int \<Rightarrow> int \<Rightarrow> bool nova" where
  "can_fit_pages [] pagesize memory = Inl (MemoryPageSizeNotSupported pagesize)"
| "can_fit_pages (p # ps) pagesize memory =
     (if size_kb p = pagesize
      then (if memory \<le> pages_free_kb p
            then (if size_kb p = 0 then Inl PyZeroDivisionError
                  else Inr (memory mod size_kb p = 0))
            else Inr False)
      else can_fit_pages ps pagesize memory)"

definition can_fit_hugepages :: "numa_cell \<Rightarrow> int \<Rightarrow> int \<Rightarrow> bool nova" where
  "can_fit_hugepages c pagesize memory = can_fit_pages (nc_mempages c) pagesize memory"

section \<open>Free and pinned CPUs of a host cell\<close>

definition free_cpus :: "numa_cell \<Rightarrow> int set" where
  "free_cpus c = nc_cpuset c - nc_pinned_cpus c"

definition free_siblings :: "numa_cell \<Rightarrow> int set list" where
  "free_siblings c = map (\<lambda>s. s \<inter> free_cpus c) (nc_siblings c)"

definition avail_cpus :: "numa_cell \<Rightarrow> int" where
  "avail_cpus c = int (card (free_cpus c))"

definition avail_memory :: "numa_cell \<Rightarrow> int" where
  "avail_memory c = nc_memory c - nc_memory_usage c"

definition pin_cpus :: "numa_cell \<Rightarrow> int set \<Rightarrow> numa_cell nova" where
  "pin_cpus c cpus =
     (if cpus - nc_cpuset c \<noteq> {} then Inl (CPUPinningUnknown cpus (nc_pinned_cpus c))
      else if nc_pinned_cpus c \<inter> cpus \<noteq> {} then Inl (CPUPinningInvalid cpus (nc_pinned_cpus c))
      else Inr (c\<lparr>nc_pinned_cpus := nc_pinned_cpus c \<union> cpus\<rparr>))"

definition unpin_cpus :: "numa_cell \<Rightarrow> int set \<Rightarrow> numa_cell nova" where
  "unpin_cpus c cpus =
     (if cpus - nc_cpuset c \<noteq> {} then Inl (CPUPinningUnknown cpus (nc_pinned_cpus c))
      else if nc_pinned_cpus c \<inter> cpus \<noteq> cpus then Inl (CPUPinningInvalid cpus (nc_pinned_cpus c))
      else Inr (c\<lparr>nc_pinned_cpus := nc_pinned_cpus c - cpus\<rparr>))"

text \<open>The loop that collects the sibling sets that meet the requested CPUs.\<close>

definition pin_siblings :: "numa_cell \<Rightarrow> int set \<Rightarrow> int set" where
  "pin_siblings c cpus =
     fold (\<lambda>sib acc. if cpus \<inter> sib \<noteq> {} then acc \<union> sib else acc) (nc_siblings c) {}"

definition pin_cpus_with_siblings :: "numa_cell \<Rightarrow> int set \<Rightarrow> numa_cell nova" where
  "pin_cpus_with_siblings c cpus = pin_cpus c (pin_siblings c cpus)"

definition unpin_cpus_with_siblings :: "numa_cell \<Rightarrow> int set \<Rightarrow> numa_cell nova" where
  "unpin_cpus_with_siblings c cpus = unpin_cpus c (pin_siblings c cpus)"

section \<open>The legacy dictionary of a host cell\<close>

text \<open>\<open>None\<close>: the key is missing. The inner dictionary \<open>mem\<close> has the keys \<open>total\<close> and \<open>used\<close>.\<close>

record cell_dict =
  cd_id :: "int option"
  cd_cpus :: "string option"
  cd_mem :: "(int option \<times> int option) option"
  cd_cpu_usage :: "int option"

definition cell_to_dict :: "numa_cell \<Rightarrow> cell_dict" where
  "cell_to_dict c =
     \<lparr>cd_id = Some (nc_id c), cd_cpus = Some (format_cpu_spec (nc_cpuset c) False),
      cd_mem = Some (Some (nc_memory c), Some (nc_memory_usage c)),
      cd_cpu_usage = Some (nc_cpu_usage c)\<rparr>"

text \<open>An absent \<open>id\<close> gives \<open>id=None\<close>, which the integer field refuses.\<close>

definition cell_from_dict :: "cell_dict \<Rightarrow> numa_cell nova" where
  "cell_from_dict d =
     rbind (parse_cpu_spec (opt_or (cd_cpus d) '''')) (\<lambda>cpuset.
       let cpu_usage = opt_or (cd_cpu_usage d) 0;
           mem = opt_or (cd_mem d) (None, None);
           memory = opt_or (fst mem) 0;
           memory_usage = opt_or (snd mem) 0
       in (case cd_id d of
             None \<Rightarrow> Inl PyValueError
           | Some cell_id \<Rightarrow>
               Inr \<lparr>nc_id = cell_id, nc_cpuset = cpuset, nc_memory = memory,
                    nc_cpu_usage = cpu_usage, nc_memory_usage = memory_usage,
                    nc_pinned_cpus = {}, nc_siblings = [], nc_mempages = []\<rparr>))"

definition topology_to_dict :: "numa_topology \<Rightarrow> cell_dict list" where
  "topology_to_dict cells = map cell_to_dict cells"

definition topology_from_dict :: "cell_dict list option \<Rightarrow> numa_topology nova" where
  "topology_from_dict cells = rmap cell_from_dict (opt_or cells [])"

section \<open>Instance cells\<close>

text \<open>\<open>zip(*[iter(xs)] * n)\<close>: consecutive groups of \<open>n\<close>, an incomplete last group dropped.\<close>

function chunks :: "nat \<Rightarrow> 'a list \<Rightarrow> 'a list list" where
  "chunks n xs = (if n = 0 \<or> length xs < n then [] else take n xs # chunks n (drop n xs))"
  by pat_completeness auto
termination by (relation "measure (\<lambda>(n, xs). length xs)") auto

declare chunks.simps [simp del]

definition ic_siblings :: "inst_cell \<Rightarrow> int set list" where
  "ic_siblings c =
     (let cpu_list = sorted_list_of_set (ic_cpuset c);
          threads0 = (case ic_cpu_topology c of None \<Rightarrow> 0 | Some t \<Rightarrow> threads t);
          threads1 = (if threads0 = 1 then 0 else threads0)
      in map set (chunks (nat threads1) cpu_list))"

definition ic_cpu_pinning_requested :: "inst_cell \<Rightarrow> bool" where
  "ic_cpu_pinning_requested c \<longleftrightarrow> ic_cpu_policy c = Some DEDICATED"

text \<open>\<open>d[k] = v\<close> on an association list: the entry in place, a new key at the end.\<close>

fun dict_set :: "'k \<Rightarrow> 'v \<Rightarrow> ('k \<times> 'v) list \<Rightarrow> ('k \<times> 'v) list" where
  "dict_set k v [] = [(k, v)]"
| "dict_set k v ((k', v') # d) = (if k = k' then (k, v) # d else (k', v') # dict_set k v d)"

definition ic_pin :: "inst_cell \<Rightarrow> int \<Rightarrow> int \<Rightarrow> inst_cell" where
  "ic_pin c vcpu pcpu =
     (if vcpu \<notin> ic_cpuset c then c
      else let pinning_dict = opt_or (ic_cpu_pinning c) []
           in c\<lparr>ic_cpu_pinning := Some (dict_set vcpu pcpu pinning_dict)\<rparr>)"

fun ic_pin_vcpus :: "inst_cell \<Rightarrow> (int \<times> int) list \<Rightarrow> inst_cell" where
  "ic_pin_vcpus c [] = c"
| "ic_pin_vcpus c ((vcpu, pcpu) # pairs) = ic_pin_vcpus (ic_pin c vcpu pcpu) pairs"

definition ic_clear_host_pinning :: "inst_cell \<Rightarrow> inst_cell" where
  "ic_clear_host_pinning c = c\<lparr>ic_id := -1, ic_cpu_pinning := Some []\<rparr>"

definition it_cpu_pinning_requested :: "inst_topology \<Rightarrow> bool" where
  "it_cpu_pinning_requested cells \<longleftrightarrow> (\<forall>c \<in> set cells. ic_cpu_pinning_requested c)"

definition it_clear_host_pinning :: "inst_topology \<Rightarrow> inst_topology" where
  "it_clear_host_pinning cells = map ic_clear_host_pinning cells"

section \<open>Laws of the pinning of host CPUs\<close>

lemma pin_siblings_eq:
  "pin_siblings c cpus = \<Union> {s \<in> set (nc_siblings c). cpus \<inter> s \<noteq> {}}"
proof -
  have "fold (\<lambda>sib acc. if cpus \<inter> sib \<noteq> {} then acc \<union> sib else acc) ss a =
      a \<union> \<Union> {s \<in> set ss. cpus \<inter> s \<noteq> {}}" for ss a
    by (induction ss arbitrary: a) auto
  then show ?thesis by (simp add: pin_siblings_def)
qed

lemma pin_cpus_Inr:
  "pin_cpus c cpus = Inr c' \<longleftrightarrow>
     cpus \<subseteq> free_cpus c \<and> c' = c\<lparr>nc_pinned_cpus := nc_pinned_cpus c \<union> cpus\<rparr>"
  by (auto simp: pin_cpus_def free_cpus_def)

lemma unpin_cpus_Inr:
  "unpin_cpus c cpus = Inr c' \<longleftrightarrow>
     cpus \<subseteq> nc_cpuset c \<and> cpus \<subseteq> nc_pinned_cpus c \<and>
     c' = c\<lparr>nc_pinned_cpus := nc_pinned_cpus c - cpus\<rparr>"
  by (auto simp: unpin_cpus_def)

text \<open>The invariant of a host cell: only its own CPUs are pinned, and the sibling sets are
  disjoint sets of its CPUs.\<close>

definition wf_cell :: "numa_cell \<Rightarrow> bool" where
  "wf_cell c \<longleftrightarrow> finite (nc_cpuset c) \<and> nc_pinned_cpus c \<subseteq> nc_cpuset c \<and>
     (\<forall>s \<in> set (nc_siblings c). s \<subseteq> nc_cpuset c) \<and>
     sorted_wrt (\<lambda>s t. s \<inter> t = {}) (nc_siblings c)"

lemma pin_cpus_wf: "wf_cell c \<Longrightarrow> pin_cpus c cpus = Inr c' \<Longrightarrow> wf_cell c'"
  by (auto simp: pin_cpus_Inr wf_cell_def free_cpus_def)

lemma unpin_cpus_wf: "wf_cell c \<Longrightarrow> unpin_cpus c cpus = Inr c' \<Longrightarrow> wf_cell c'"
  by (auto simp: unpin_cpus_Inr wf_cell_def)

end
