(* ===== verification/Cpu_Topology.thy ===== *)
theory Cpu_Topology
  imports Numa_Objects "HOL-Library.Product_Lexorder"
begin

text \<open>
  The choice of a guest CPU topology in \<open>nova/virt/hardware.py\<close>: the constraints from the
  flavor and the image, the enumeration of the possible topologies, the filter for NUMA
  threads, the sort by preference, and the serial port count, which follows the same
  "image may only lower the flavor" rule.
\<close>

section \<open>Serial ports\<close>

text \<open>
  The condition \<open>(flavor_num_ports and image_num_ports) is not None\<close> is written out: \<open>and\<close>
  returns its first operand when that is false (\<open>None\<close> or \<open>0\<close>). In Python 2 \<open>None > n\<close> is
  false. The result is optional, because the code can return \<open>None\<close>.
\<close>

definition get_number_of_serial_ports :: "flavor \<Rightarrow> image_props \<Rightarrow> int option nova" where
  "get_number_of_serial_ports fl im =
     rbind (case dget (fl_extra_specs fl) ''hw:serial_port_count'' of
              None \<Rightarrow> Inr None
            | Some s \<Rightarrow> (case int_of_str s of
                           None \<Rightarrow> Inl (ImageSerialPortNumberInvalid s)
                         | Some i \<Rightarrow> Inr (Some i)))
       (\<lambda>flavor_num_ports.
          let image_num_ports = hw_serial_port_count im;
              both = (case flavor_num_ports of
                        None \<Rightarrow> None
                      | Some f \<Rightarrow> if f = 0 then Some 0 else image_num_ports)
          in if both \<noteq> None
             then (if (case image_num_ports of None \<Rightarrow> False | Some i \<Rightarrow> i > the flavor_num_ports)
                   then Inl ImageSerialPortNumberExceedFlavorValue
                   else Inr image_num_ports)
             else Inr (Some (if opt_or flavor_num_ports 0 \<noteq> 0 then the flavor_num_ports
                             else if opt_or image_num_ports 0 \<noteq> 0 then the image_num_ports
                             else 1)))"

section \<open>Constraints\<close>

definition topo :: "int \<Rightarrow> int \<Rightarrow> int \<Rightarrow> virt_cpu_topology" where
  "topo s c t = \<lparr>sockets = s, cores = c, threads = t\<rparr>"

lemma topo_simps [simp]:
  "sockets (topo s c t) = s" "cores (topo s c t) = c" "threads (topo s c t) = t"
  by (simp_all add: topo_def)

lemma topo_inject [simp]: "topo s c t = topo s' c' t' \<longleftrightarrow> s = s' \<and> c = c' \<and> t = t'"
  by (simp add: topo_def)

lemma topo_eq: "topo (sockets x) (cores x) (threads x) = (x :: virt_cpu_topology)"
  by (simp add: topo_def)

definition get_cpu_topology_constraints ::
  "flavor \<Rightarrow> image_props \<Rightarrow> (virt_cpu_topology \<times> virt_cpu_topology) nova" where
  "get_cpu_topology_constraints fl im =
     (let es = fl_extra_specs fl in
      rbind (dget_int es ''hw:cpu_max_sockets'' 65536) (\<lambda>flvmaxsockets.
      rbind (dget_int es ''hw:cpu_max_cores'' 65536) (\<lambda>flvmaxcores.
      rbind (dget_int es ''hw:cpu_max_threads'' 65536) (\<lambda>flvmaxthreads.
      let maxsockets = opt_or (hw_cpu_max_sockets im) flvmaxsockets;
          maxcores = opt_or (hw_cpu_max_cores im) flvmaxcores;
          maxthreads = opt_or (hw_cpu_max_threads im) flvmaxthreads
      in if maxsockets > flvmaxsockets \<or> maxcores > flvmaxcores \<or> maxthreads > flvmaxthreads
         then Inl ImageVCPULimitsRangeExceeded
         else
      rbind (dget_int es ''hw:cpu_sockets'' (-1)) (\<lambda>flvsockets.
      rbind (dget_int es ''hw:cpu_cores'' (-1)) (\<lambda>flvcores.
      rbind (dget_int es ''hw:cpu_threads'' (-1)) (\<lambda>flvthreads.
      let flv = (if flvsockets > maxsockets \<or> flvcores > maxcores \<or> flvthreads > maxthreads
                 then topo (-1) (-1) (-1) else topo flvsockets flvcores flvthreads);
          s = opt_or (hw_cpu_sockets im) (-1);
          c = opt_or (hw_cpu_cores im) (-1);
          t = opt_or (hw_cpu_threads im) (-1)
      in if s > maxsockets \<or> c > maxcores \<or> t > maxthreads
         then Inl ImageVCPUTopologyRangeExceeded
         else if s = -1 \<and> c = -1 \<and> t = -1
         then Inr (flv, topo maxsockets maxcores maxthreads)
         else Inr (topo s c t, topo maxsockets maxcores maxthreads))))))))"

section \<open>Possible topologies\<close>

definition topo_pref :: "virt_cpu_topology \<Rightarrow> int \<times> int \<times> int" where
  "topo_pref x = (sockets x * cores x, sockets x, threads x)"

definition get_possible_cpu_topologies ::
  "int \<Rightarrow> virt_cpu_topology \<Rightarrow> bool \<Rightarrow> virt_cpu_topology list nova" where
  "get_possible_cpu_topologies vcpus maxtopology allow_threads =
     (let maxsockets = min vcpus (sockets maxtopology);
          maxcores = min vcpus (cores maxtopology);
          maxthreads = (if \<not> allow_threads then 1 else min vcpus (threads maxtopology));
          possible = [topo s c t. s \<leftarrow> py_range 1 (maxsockets + 1), c \<leftarrow> py_range 1 (maxcores + 1),
                        t \<leftarrow> py_range 1 (maxthreads + 1), t * c * s = vcpus];
          possible = sorted_rev_by topo_pref possible
      in if length possible = 0 then Inl ImageVCPULimitsRangeImpossible else Inr possible)"

definition filter_for_numa_threads ::
  "virt_cpu_topology list \<Rightarrow> int \<Rightarrow> virt_cpu_topology list" where
  "filter_for_numa_threads possible wantthreads =
     (let mostthreads =
            foldl (\<lambda>m x. if threads x > wantthreads then m
                         else if threads x > m then threads x else m) 0 possible
      in filter (\<lambda>x. threads x = mostthreads) possible)"

definition score_cpu_topology :: "virt_cpu_topology \<Rightarrow> virt_cpu_topology \<Rightarrow> nat" where
  "score_cpu_topology topology want =
     (if sockets want \<noteq> -1 \<and> sockets topology = sockets want then 1 else 0) +
     (if cores want \<noteq> -1 \<and> cores topology = cores want then 1 else 0) +
     (if threads want \<noteq> -1 \<and> threads topology = threads want then 1 else 0)"

text \<open>The four lists of the dictionary \<open>scores\<close>, in the order they were filled.\<close>

definition sort_possible_cpu_topologies ::
  "virt_cpu_topology list \<Rightarrow> virt_cpu_topology \<Rightarrow> virt_cpu_topology list" where
  "sort_possible_cpu_topologies possible want =
     (let scores = (\<lambda>k. filter (\<lambda>x. score_cpu_topology x want = k) possible)
      in scores 3 @ scores 2 @ scores 1 @ scores 0)"

section \<open>Desirable and best topologies\<close>

definition numa_requested_threads :: "inst_topology option \<Rightarrow> int option" where
  "numa_requested_threads numa_topology =
     (let cell_topologies =
            List.map_filter ic_cpu_topology (opt_or numa_topology [])
      in if cell_topologies = [] then None else Some (Min (set (map threads cell_topologies))))"

definition restrict_for_numa ::
  "inst_topology option \<Rightarrow> virt_cpu_topology \<Rightarrow> virt_cpu_topology list \<Rightarrow> virt_cpu_topology list" where
  "restrict_for_numa numa_topology preferred possible =
     (case numa_requested_threads numa_topology of
        None \<Rightarrow> possible
      | Some r \<Rightarrow>
          if r = 0 then possible
          else
            let r' = (if threads preferred \<noteq> -1 then min (threads preferred) r else r);
                specified_threads = max 1 r'
            in filter_for_numa_threads possible specified_threads)"

definition get_desirable_cpu_topologies ::
  "flavor \<Rightarrow> image_props \<Rightarrow> bool \<Rightarrow> inst_topology option \<Rightarrow> virt_cpu_topology list nova" where
  "get_desirable_cpu_topologies fl im allow_threads numa_topology =
     rbind (get_cpu_topology_constraints fl im) (\<lambda>(preferred, maximum).
     rbind (get_possible_cpu_topologies (fl_vcpus fl) maximum allow_threads) (\<lambda>possible.
       Inr (sort_possible_cpu_topologies (restrict_for_numa numa_topology preferred possible)
              preferred)))"

definition get_best_cpu_topology ::
  "flavor \<Rightarrow> image_props \<Rightarrow> bool \<Rightarrow> inst_topology option \<Rightarrow> virt_cpu_topology nova" where
  "get_best_cpu_topology fl im allow_threads numa_topology =
     rbind (get_desirable_cpu_topologies fl im allow_threads numa_topology) (\<lambda>ts.
       case ts of [] \<Rightarrow> Inl PyIndexError | t # _ \<Rightarrow> Inr t)"

section \<open>The constraints are consistent\<close>

definition topo_le :: "virt_cpu_topology \<Rightarrow> virt_cpu_topology \<Rightarrow> bool" where
  "topo_le x y \<longleftrightarrow> sockets x \<le> sockets y \<and> cores x \<le> cores y \<and> threads x \<le> threads y"

lemma constraints_consistent:
  assumes "get_cpu_topology_constraints fl im = Inr (preferred, maximum)"
  shows "topo_le preferred maximum"
    and "\<exists>s c t. dget_int (fl_extra_specs fl) ''hw:cpu_max_sockets'' 65536 = Inr s \<and>
      dget_int (fl_extra_specs fl) ''hw:cpu_max_cores'' 65536 = Inr c \<and>
      dget_int (fl_extra_specs fl) ''hw:cpu_max_threads'' 65536 = Inr t \<and>
      topo_le maximum (topo s c t)"
proof -
  obtain s c t where flv: "dget_int (fl_extra_specs fl) ''hw:cpu_max_sockets'' 65536 = Inr s"
      "dget_int (fl_extra_specs fl) ''hw:cpu_max_cores'' 65536 = Inr c"
      "dget_int (fl_extra_specs fl) ''hw:cpu_max_threads'' 65536 = Inr t"
    using assms by (auto simp: get_cpu_topology_constraints_def Let_def rbind_eq_Inr)
  define ms where "ms = opt_or (hw_cpu_max_sockets im) s"
  define mc where "mc = opt_or (hw_cpu_max_cores im) c"
  define mt where "mt = opt_or (hw_cpu_max_threads im) t"
  define i_s where "i_s = opt_or (hw_cpu_sockets im) (-1)"
  define i_c where "i_c = opt_or (hw_cpu_cores im) (-1)"
  define i_t where "i_t = opt_or (hw_cpu_threads im) (-1)"
  note defs = ms_def[symmetric] mc_def[symmetric] mt_def[symmetric] i_s_def[symmetric]
    i_c_def[symmetric] i_t_def[symmetric]
  have "maximum = topo ms mc mt \<and> ms \<le> s \<and> mc \<le> c \<and> mt \<le> t \<and> topo_le preferred maximum"
    using assms
    by (auto simp: get_cpu_topology_constraints_def Let_def flv defs rbind_eq_Inr topo_le_def
        split: if_splits)
  then show "topo_le preferred maximum"
    and "\<exists>s c t. dget_int (fl_extra_specs fl) ''hw:cpu_max_sockets'' 65536 = Inr s \<and>
      dget_int (fl_extra_specs fl) ''hw:cpu_max_cores'' 65536 = Inr c \<and>
      dget_int (fl_extra_specs fl) ''hw:cpu_max_threads'' 65536 = Inr t \<and>
      topo_le maximum (topo s c t)"
    using flv by (auto simp: topo_le_def)
qed

section \<open>The enumeration is exact\<close>

text \<open>The topologies the limits allow.\<close>

definition allowed_topology :: "int \<Rightarrow> virt_cpu_topology \<Rightarrow> bool \<Rightarrow> virt_cpu_topology \<Rightarrow> bool" where
  "allowed_topology vcpus maximum allow_threads x \<longleftrightarrow>
     sockets x * cores x * threads x = vcpus \<and>
     1 \<le> sockets x \<and> sockets x \<le> sockets maximum \<and>
     1 \<le> cores x \<and> cores x \<le> cores maximum \<and>
     1 \<le> threads x \<and> (if allow_threads then threads x \<le> threads maximum else threads x = 1)"

lemma factor_le:
  assumes "1 \<le> (a::int)" "1 \<le> b" "1 \<le> c" "c * b * a = v"
  shows "a \<le> v" "b \<le> v" "c \<le> v"
proof -
  have "1 \<le> c * b" "1 \<le> b * a" "1 \<le> c * a"
    using assms(1-3) by (simp_all add: int_one_le_iff_zero_less)
  with assms show "a \<le> v" "b \<le> v" "c \<le> v"
    by (smt (verit, best) mult.commute mult.left_commute mult_le_cancel_left1)+
qed

definition enumerate_topologies :: "int \<Rightarrow> int \<Rightarrow> int \<Rightarrow> int \<Rightarrow> virt_cpu_topology list" where
  "enumerate_topologies vcpus ms mc mt =
     [topo s c t. s \<leftarrow> py_range 1 (ms + 1), c \<leftarrow> py_range 1 (mc + 1),
        t \<leftarrow> py_range 1 (mt + 1), t * c * s = vcpus]"

lemma set_enumerate:
  "set (enumerate_topologies vcpus ms mc mt) =
    {x. threads x * cores x * sockets x = vcpus \<and> 1 \<le> sockets x \<and> sockets x \<le> ms \<and>
        1 \<le> cores x \<and> cores x \<le> mc \<and> 1 \<le> threads x \<and> threads x \<le> mt}"
proof (rule set_eqI)
  fix x
  let ?P = "\<lambda>s c t. t * c * s = vcpus \<and> s \<in> {1..ms} \<and> c \<in> {1..mc} \<and> t \<in> {1..mt}"
  have "x \<in> set (enumerate_topologies vcpus ms mc mt) \<longleftrightarrow> (\<exists>s c t. x = topo s c t \<and> ?P s c t)"
    by (auto simp: enumerate_topologies_def atLeastLessThanPlusOne_atLeastAtMost_int)
  also have "\<dots> \<longleftrightarrow> ?P (sockets x) (cores x) (threads x)"
    by (metis topo_eq topo_simps)
  finally show "x \<in> set (enumerate_topologies vcpus ms mc mt) \<longleftrightarrow>
    x \<in> {x. threads x * cores x * sockets x = vcpus \<and> 1 \<le> sockets x \<and> sockets x \<le> ms \<and>
        1 \<le> cores x \<and> cores x \<le> mc \<and> 1 \<le> threads x \<and> threads x \<le> mt}"
    by auto
qed

lemma distinct_concat_map:
  assumes "distinct xs" and "\<And>x. distinct (f x)" and "\<And>x z. z \<in> set (f x) \<Longrightarrow> g z = x"
  shows "distinct (concat (map f xs))"
  using assms(1)
proof (induction xs)
  case (Cons x xs)
  then have "x \<notin> set xs" by simp
  then have "set (f x) \<inter> set (concat (map f xs)) = {}"
    using assms(3) by auto
  with Cons assms(2) show ?case by simp
qed simp

lemma distinct_enumerate: "distinct (enumerate_topologies vcpus ms mc mt)"
  unfolding enumerate_topologies_def
  by (rule distinct_concat_map[where g = sockets], simp,
      rule distinct_concat_map[where g = cores], simp,
      rule distinct_concat_map[where g = threads]) (auto split: if_splits)

definition allowed_list :: "int \<Rightarrow> virt_cpu_topology \<Rightarrow> bool \<Rightarrow> virt_cpu_topology list" where
  "allowed_list vcpus m allow =
     sorted_rev_by topo_pref (enumerate_topologies vcpus (min vcpus (sockets m))
       (min vcpus (cores m)) (if allow then min vcpus (threads m) else 1))"

lemma get_possible_allowed:
  "get_possible_cpu_topologies vcpus m allow =
     (if allowed_list vcpus m allow = [] then Inl ImageVCPULimitsRangeImpossible
      else Inr (allowed_list vcpus m allow))"
  by (simp add: get_possible_cpu_topologies_def enumerate_topologies_def Let_def allowed_list_def)

lemma set_allowed_list: "set (allowed_list vcpus m allow) = {x. allowed_topology vcpus m allow x}"
proof (rule set_eqI)
  fix x :: virt_cpu_topology
  have "sockets x \<le> vcpus \<and> cores x \<le> vcpus \<and> threads x \<le> vcpus"
    if "threads x * cores x * sockets x = vcpus" "1 \<le> sockets x" "1 \<le> cores x" "1 \<le> threads x"
    using factor_le[OF that(2-4,1)] by simp
  then show "x \<in> set (allowed_list vcpus m allow) \<longleftrightarrow> x \<in> {x. allowed_topology vcpus m allow x}"
    by (auto simp: allowed_list_def set_enumerate allowed_topology_def mult_ac)
qed

lemma distinct_allowed_list: "distinct (allowed_list vcpus m allow)"
  by (simp add: allowed_list_def distinct_enumerate)

lemma sorted_allowed_list: "sorted_wrt (\<lambda>x y. topo_pref x \<ge> topo_pref y) (allowed_list vcpus m allow)"
  by (simp add: allowed_list_def sorted_rev_by_desc)

lemma get_possible_Inr:
  assumes "get_possible_cpu_topologies vcpus m allow = Inr ps"
  shows "set ps = {x. allowed_topology vcpus m allow x}" "ps \<noteq> []" "distinct ps"
    and "sorted_wrt (\<lambda>x y. topo_pref x \<ge> topo_pref y) ps"
  using assms
  by (auto simp: get_possible_allowed set_allowed_list distinct_allowed_list sorted_allowed_list
      split: if_splits)

text \<open>Claim C34. The enumeration of the possible topologies is exact: the list holds every
  topology whose sockets, cores and threads multiply to the number of vCPUs within the limits,
  each once, fewest threads first; the exception is raised only when there is none.\<close>

theorem possible_topologies_exact:
  "case get_possible_cpu_topologies vcpus maxtopology allow_threads of
     Inr ps \<Rightarrow> set ps = {x. allowed_topology vcpus maxtopology allow_threads x} \<and> ps \<noteq> [] \<and>
       distinct ps \<and> sorted_wrt (\<lambda>x y. topo_pref x \<ge> topo_pref y) ps
   | Inl e \<Rightarrow> e = ImageVCPULimitsRangeImpossible \<and>
       {x. allowed_topology vcpus maxtopology allow_threads x} = {}"
proof (cases "get_possible_cpu_topologies vcpus maxtopology allow_threads")
  case (Inl e)
  then have "allowed_list vcpus maxtopology allow_threads = []"
    and "e = ImageVCPULimitsRangeImpossible"
    by (auto simp: get_possible_allowed split: if_splits)
  with Inl show ?thesis
    using set_allowed_list[of vcpus maxtopology allow_threads] by simp
next
  case (Inr ps)
  then show ?thesis using get_possible_Inr[OF Inr] by simp
qed

section \<open>The best topology\<close>

lemma score_le_3: "score_cpu_topology x want \<le> 3"
  by (simp add: score_cpu_topology_def)

lemma set_sort_possible [simp]: "set (sort_possible_cpu_topologies ps want) = set ps"
proof (rule set_eqI)
  fix x
  have "score_cpu_topology x want \<in> {0, 1, 2, 3}"
    using score_le_3[of x want] by auto
  then show "x \<in> set (sort_possible_cpu_topologies ps want) \<longleftrightarrow> x \<in> set ps"
    by (auto simp: sort_possible_cpu_topologies_def)
qed

lemma sort_possible_sorted:
  assumes "sorted_wrt R ps"
  shows "sorted_wrt (\<lambda>x y. score_cpu_topology x want > score_cpu_topology y want \<or>
    score_cpu_topology x want = score_cpu_topology y want \<and> R x y)
    (sort_possible_cpu_topologies ps want)"
proof -
  have "sorted_wrt (\<lambda>x y. score_cpu_topology x want > score_cpu_topology y want \<or>
    score_cpu_topology x want = score_cpu_topology y want \<and> R x y)
    (filter (\<lambda>x. score_cpu_topology x want = k) ps)" for k
    using assms by (induction ps) auto
  then show ?thesis
    by (auto simp: sort_possible_cpu_topologies_def sorted_wrt_append)
qed

lemma restrict_for_numa_filter:
  "\<exists>P. restrict_for_numa nt pref ps = filter P ps"
proof (cases "numa_requested_threads nt")
  case None
  then show ?thesis by (auto simp: restrict_for_numa_def intro!: exI[of _ "\<lambda>_. True"])
next
  case (Some r)
  then show ?thesis
    by (auto simp: restrict_for_numa_def filter_for_numa_threads_def Let_def
        intro: exI[of _ "\<lambda>_. True"])
qed

lemma desirable_Inr:
  assumes "get_desirable_cpu_topologies fl im allow nt = Inr ds"
  obtains preferred maximum possible where
    "get_cpu_topology_constraints fl im = Inr (preferred, maximum)"
    "get_possible_cpu_topologies (fl_vcpus fl) maximum allow = Inr possible"
    "set ds = set (restrict_for_numa nt preferred possible)"
    "sorted_wrt (\<lambda>x y. score_cpu_topology x preferred > score_cpu_topology y preferred \<or>
      score_cpu_topology x preferred = score_cpu_topology y preferred \<and> topo_pref x \<ge> topo_pref y) ds"
proof -
  obtain preferred maximum possible where
    c: "get_cpu_topology_constraints fl im = Inr (preferred, maximum)" and
    p: "get_possible_cpu_topologies (fl_vcpus fl) maximum allow = Inr possible" and
    d: "ds = sort_possible_cpu_topologies (restrict_for_numa nt preferred possible) preferred"
    using assms by (auto simp: get_desirable_cpu_topologies_def rbind_eq_Inr)
  have "sorted_wrt (\<lambda>x y. topo_pref x \<ge> topo_pref y) (restrict_for_numa nt preferred possible)"
    using restrict_for_numa_filter[of nt preferred possible] get_possible_Inr(4)[OF p]
    by (auto simp: sorted_wrt_filter)
  from sort_possible_sorted[OF this] show thesis
    by (intro that[OF c p]) (simp_all add: d)
qed

text \<open>Claim C33. The topology \<open>get_best_cpu_topology\<close> returns multiplies to the flavor's vCPUs and
  stays within the limits that the code computes; these limits are at most those that the flavor
  itself sets (65536 where it sets none), and the preferred counts are within them. No other topology
  left after the NUMA restriction matches the preference better, nor equally well and further ahead
  in the order of \<open>get_possible_cpu_topologies\<close> (fewer threads first, then more sockets).\<close>

theorem best_topology_optimal:
  assumes "get_best_cpu_topology fl im allow nt = Inr t"
  shows "\<exists>preferred maximum possible.
    get_cpu_topology_constraints fl im = Inr (preferred, maximum) \<and>
    get_possible_cpu_topologies (fl_vcpus fl) maximum allow = Inr possible \<and>
    topo_le preferred maximum \<and> allowed_topology (fl_vcpus fl) maximum allow t \<and>
    (\<exists>fs fc ft. dget_int (fl_extra_specs fl) ''hw:cpu_max_sockets'' 65536 = Inr fs \<and>
       dget_int (fl_extra_specs fl) ''hw:cpu_max_cores'' 65536 = Inr fc \<and>
       dget_int (fl_extra_specs fl) ''hw:cpu_max_threads'' 65536 = Inr ft \<and>
       sockets maximum \<le> fs \<and> cores maximum \<le> fc \<and> threads maximum \<le> ft) \<and>
    t \<in> set (restrict_for_numa nt preferred possible) \<and>
    (\<forall>u \<in> set (restrict_for_numa nt preferred possible).
       score_cpu_topology u preferred < score_cpu_topology t preferred \<or>
       score_cpu_topology u preferred = score_cpu_topology t preferred \<and>
       topo_pref u \<le> topo_pref t)"
proof -
  obtain ds where ds: "get_desirable_cpu_topologies fl im allow nt = Inr ds"
      "(case ds of [] \<Rightarrow> Inl PyIndexError | t # _ \<Rightarrow> Inr t) = Inr t"
    using assms unfolding get_best_cpu_topology_def rbind_eq_Inr by blast
  then obtain ts where d: "get_desirable_cpu_topologies fl im allow nt = Inr (t # ts)"
    by (cases ds) auto
  obtain preferred maximum possible where
    c: "get_cpu_topology_constraints fl im = Inr (preferred, maximum)" and
    p: "get_possible_cpu_topologies (fl_vcpus fl) maximum allow = Inr possible" and
    s: "set (t # ts) = set (restrict_for_numa nt preferred possible)" and
    w: "sorted_wrt (\<lambda>x y. score_cpu_topology x preferred > score_cpu_topology y preferred \<or>
      score_cpu_topology x preferred = score_cpu_topology y preferred \<and> topo_pref x \<ge> topo_pref y)
      (t # ts)"
    by (rule desirable_Inr[OF d])
  have t: "t \<in> set (restrict_for_numa nt preferred possible)" using s by auto
  moreover have "t \<in> set possible"
    using t restrict_for_numa_filter[of nt preferred possible] by auto
  then have "allowed_topology (fl_vcpus fl) maximum allow t"
    using get_possible_Inr(1)[OF p] by auto
  moreover have "score_cpu_topology u preferred < score_cpu_topology t preferred \<or>
       score_cpu_topology u preferred = score_cpu_topology t preferred \<and> topo_pref u \<le> topo_pref t"
    if "u \<in> set (restrict_for_numa nt preferred possible)" for u
    using that w unfolding s[symmetric] by auto
  moreover have "\<exists>fs fc ft. dget_int (fl_extra_specs fl) ''hw:cpu_max_sockets'' 65536 = Inr fs \<and>
       dget_int (fl_extra_specs fl) ''hw:cpu_max_cores'' 65536 = Inr fc \<and>
       dget_int (fl_extra_specs fl) ''hw:cpu_max_threads'' 65536 = Inr ft \<and>
       sockets maximum \<le> fs \<and> cores maximum \<le> fc \<and> threads maximum \<le> ft"
    using constraints_consistent(2)[OF c] by (auto simp: topo_le_def)
  ultimately show ?thesis using c p constraints_consistent(1)[OF c] by blast
qed

theorem best_topology_optimal_witness:
  "\<exists>maximum. allowed_topology 8 maximum True (topo 2 4 1)"
proof -
  let ?fl = "\<lparr>fl_id = 1, fl_name = ''m1'', fl_vcpus = 8, fl_memory_mb = 512,
    fl_extra_specs = [(''hw:cpu_max_sockets'', ''2''), (''hw:cpu_cores'', ''4'')]\<rparr>"
  have "get_best_cpu_topology ?fl no_image_props True None = Inr (topo 2 4 1)"
    by code_simp
  from best_topology_optimal[OF this] show ?thesis by auto
qed

text \<open>The NUMA thread filter can leave no topology although the enumeration found
  one: with one socket, one core and four threads allowed for four vCPUs and two threads wanted
  by the instance's NUMA cell, \<open>get_best_cpu_topology\<close> fails with an index error instead of the
  documented exception.\<close>

theorem numa_threads_filter_empty:
  "let fl = \<lparr>fl_id = 1, fl_name = ''m1'', fl_vcpus = 4, fl_memory_mb = 512,
         fl_extra_specs = [(''hw:cpu_max_sockets'', ''1''), (''hw:cpu_max_cores'', ''1'')]\<rparr>;
       cell = (InstanceNUMACell 0 {0, 1, 2, 3} 512)\<lparr>ic_cpu_topology := Some (topo 1 2 2)\<rparr>
   in get_best_cpu_topology fl no_image_props True (Some [cell]) = Inl PyIndexError \<and>
      get_best_cpu_topology fl no_image_props True None = Inr (topo 1 1 4)"
  by code_simp

end
