(* ===== verification/Pci_Stats.thy ===== *)
theory Pci_Stats
  imports Numa_Objects
begin

text \<open>
  The summary of a host's PCI devices (\<open>nova/pci/stats.py\<close>, class \<open>PciDeviceStats\<close>, and
  \<open>nova/pci/utils.py\<close>, \<open>pci_device_prop_match\<close>). A pool is a dictionary: its matching keys and
  values, the count, and, on the compute node only, the devices. The code finds a pool by
  reference and mutates it; the model replaces the first pool with the same value, which is the
  same pool, since the loops visit pools from the front. The white list that gives a device its
  tags is an argument (\<open>devspec\<close>).
\<close>

section \<open>Pools, devices and requests\<close>

datatype pval = PNone | PStr string | PInt int | PObject

record pci_device =
  pd_address :: string
  pd_compute_node_id :: int
  pd_product_id :: pval
  pd_vendor_id :: pval
  pd_numa_node :: pval
  pd_dev_type :: pval

record pci_pool =
  pl_keys :: "(string \<times> pval) list"
  pl_count :: int
  pl_devices :: "pci_device list option"

record pci_request =
  rq_count :: int
  rq_spec :: "(string \<times> pval) list list"

definition SRIOV_PF :: pval where "SRIOV_PF = PStr ''type-PF''"
definition SRIOV_VF :: pval where "SRIOV_VF = PStr ''type-VF''"

definition dict_get :: "(string \<times> pval) list \<Rightarrow> string \<Rightarrow> pval" where
  "dict_get d k = (case map_of d k of None \<Rightarrow> PNone | Some v \<Rightarrow> v)"

text \<open>\<open>pool.get(k)\<close> on the whole pool dictionary.\<close>

definition pool_get :: "pci_pool \<Rightarrow> string \<Rightarrow> pval" where
  "pool_get p k =
     (if k = ''count'' then PInt (pl_count p)
      else if k = ''devices'' \<and> pl_devices p \<noteq> None then PObject
      else dict_get (pl_keys p) k)"

text \<open>\<open>len(pool)\<close>, the sort key of the pools.\<close>

definition pool_len :: "pci_pool \<Rightarrow> nat" where
  "pool_len p = length (pl_keys p) + 1 + (if pl_devices p = None then 0 else 1)"

text \<open>The constructor: the pools of the compute node's record, sorted.\<close>

definition pci_stats_init :: "pci_pool list option \<Rightarrow> pci_pool list" where
  "pci_stats_init stats = sort_key pool_len (opt_or stats [])"

definition pci_stats_clear :: "pci_pool list \<Rightarrow> pci_pool list" where
  "pci_stats_clear pools = []"

text \<open>Iteration: the pools without their devices.\<close>

definition pci_stats_iter :: "pci_pool list \<Rightarrow> pci_pool list" where
  "pci_stats_iter pools = map (\<lambda>p. p\<lparr>pl_devices := None\<rparr>) pools"

section \<open>Adding and removing devices\<close>

definition equal_properties ::
  "(string \<times> pval) list \<Rightarrow> (string \<times> pval) list \<Rightarrow> string list \<Rightarrow> bool" where
  "equal_properties dev entry matching_keys =
     list_all (\<lambda>prop. dict_get dev prop = dict_get entry prop) matching_keys"

definition pool_matches :: "(string \<times> pval) list \<Rightarrow> pci_pool \<Rightarrow> bool" where
  "pool_matches dev_pool p \<longleftrightarrow>
     length (pl_keys p) = length dev_pool \<and> equal_properties dev_pool (pl_keys p) (map fst dev_pool)"

text \<open>\<open>del pool_keys['devices']\<close> raises \<open>KeyError\<close> on a pool without devices.\<close>

fun find_pool :: "pci_pool list \<Rightarrow> (string \<times> pval) list \<Rightarrow> pci_pool option nova" where
  "find_pool [] dev_pool = Inr None"
| "find_pool (p # ps) dev_pool =
     (if pl_devices p = None then Inl PyKeyError
      else if pool_matches dev_pool p then Inr (Some p)
      else find_pool ps dev_pool)"

definition create_pool_keys_from_dev ::
  "(pci_device \<Rightarrow> (string \<times> pval) list option) \<Rightarrow> pci_device \<Rightarrow> (string \<times> pval) list option" where
  "create_pool_keys_from_dev devspec dev =
     (case devspec dev of
        None \<Rightarrow> None
      | Some tags \<Rightarrow>
          Some (foldl (\<lambda>d (k, v). dict_set k v d)
            [(''product_id'', pd_product_id dev), (''vendor_id'', pd_vendor_id dev),
             (''numa_node'', pd_numa_node dev), (''dev_type'', pd_dev_type dev)] tags))"

text \<open>Replace the first pool equal to \<open>p\<close>.\<close>

fun replace1 :: "'a \<Rightarrow> 'a \<Rightarrow> 'a list \<Rightarrow> 'a list" where
  "replace1 p q [] = []"
| "replace1 p q (x # xs) = (if x = p then q # xs else x # replace1 p q xs)"

definition add_device ::
  "(pci_device \<Rightarrow> (string \<times> pval) list option) \<Rightarrow> pci_pool list \<Rightarrow> pci_device \<Rightarrow> pci_pool list nova" where
  "add_device devspec pools dev =
     (case create_pool_keys_from_dev devspec dev of
        None \<Rightarrow> Inr pools
      | Some dev_pool \<Rightarrow>
          rbind (find_pool pools dev_pool) (\<lambda>found.
            case found of
              None \<Rightarrow>
                Inr (sort_key pool_len
                  (pools @ [\<lparr>pl_keys = dev_pool, pl_count = 0 + 1, pl_devices = Some ([] @ [dev])\<rparr>]))
            | Some pool \<Rightarrow>
                Inr (replace1 pool
                  (pool\<lparr>pl_count := pl_count pool + 1,
                        pl_devices := Some (the (pl_devices pool) @ [dev])\<rparr>) pools)))"

definition decrease_pool_count ::
  "pci_pool list \<Rightarrow> pci_pool \<Rightarrow> int \<Rightarrow> pci_pool list \<times> int" where
  "decrease_pool_count pool_list pool count =
     (if pl_count pool > count
      then (replace1 pool (pool\<lparr>pl_count := pl_count pool - count\<rparr>) pool_list, 0)
      else (remove1 pool pool_list, count - pl_count pool))"

definition remove_device ::
  "(pci_device \<Rightarrow> (string \<times> pval) list option) \<Rightarrow> pci_pool list \<Rightarrow> pci_device \<Rightarrow> pci_pool list nova" where
  "remove_device devspec pools dev =
     (case create_pool_keys_from_dev devspec dev of
        None \<Rightarrow> Inr pools
      | Some dev_pool \<Rightarrow>
          rbind (find_pool pools dev_pool) (\<lambda>found.
            case found of
              None \<Rightarrow> Inl PciDevicePoolEmpty
            | Some pool \<Rightarrow>
                if dev \<notin> set (the (pl_devices pool)) then Inl PyValueError
                else
                  let pool' = pool\<lparr>pl_devices := Some (remove1 dev (the (pl_devices pool)))\<rparr>
                  in Inr (fst (decrease_pool_count (replace1 pool pool' pools) pool' 1))))"

text \<open>\<open>pool['devices']\<close> raises \<open>KeyError\<close> on a pool without devices.\<close>

definition get_free_devs :: "pci_pool list \<Rightarrow> pci_device list nova" where
  "get_free_devs pools =
     rfold (\<lambda>acc p. case pl_devices p of None \<Rightarrow> Inl PyKeyError | Some ds \<Rightarrow> Inr (acc @ ds)) [] pools"

section \<open>Matching pools\<close>

definition pci_device_prop_match :: "pci_pool \<Rightarrow> (string \<times> pval) list list \<Rightarrow> bool" where
  "pci_device_prop_match pool specs =
     list_ex (\<lambda>spec. list_all (\<lambda>(k, v). pool_get pool k = v) spec) specs"

definition filter_pools_for_spec ::
  "pci_pool list \<Rightarrow> (string \<times> pval) list list \<Rightarrow> pci_pool list" where
  "filter_pools_for_spec pools specs = filter (\<lambda>p. pci_device_prop_match p specs) pools"

text \<open>The instance cells enter with their ids only.\<close>

definition filter_pools_for_numa_cells :: "pci_pool list \<Rightarrow> int list \<Rightarrow> pci_pool list" where
  "filter_pools_for_numa_cells pools cell_ids =
     (let numa_cells = PNone # map PInt cell_ids
      in filter (\<lambda>p. list_ex (\<lambda>cell. pci_device_prop_match p [[(''numa_node'', cell)]]) numa_cells)
           pools)"

definition filter_pools_for_pfs :: "pci_pool list \<Rightarrow> pci_pool list" where
  "filter_pools_for_pfs pools = filter (\<lambda>p. pool_get p ''dev_type'' \<noteq> SRIOV_PF) pools"

definition filter_non_requested_pfs :: "pci_request \<Rightarrow> pci_pool list \<Rightarrow> pci_pool list" where
  "filter_non_requested_pfs request matching_pools =
     (if list_all (\<lambda>spec. dict_get spec ''dev_type'' \<noteq> SRIOV_PF) (rq_spec request)
      then filter_pools_for_pfs matching_pools else matching_pools)"

section \<open>Applying requests\<close>

fun take_from_pools :: "pci_pool list \<Rightarrow> pci_pool list \<Rightarrow> int \<Rightarrow> pci_pool list" where
  "take_from_pools pools [] count = pools"
| "take_from_pools pools (pool # rest) count =
     (let (pools', count') = decrease_pool_count pools pool count
      in if count' = 0 then pools' else take_from_pools pools' rest count')"

definition matching_pools :: "pci_pool list \<Rightarrow> pci_request \<Rightarrow> int list \<Rightarrow> pci_pool list" where
  "matching_pools pools request numa_cells =
     (let matching = filter_pools_for_spec pools (rq_spec request);
          matching = (if numa_cells \<noteq> [] then filter_pools_for_numa_cells matching numa_cells
                      else matching)
      in filter_non_requested_pfs request matching)"

text \<open>The pools after the call and its result.\<close>

definition apply_request ::
  "pci_pool list \<Rightarrow> pci_request \<Rightarrow> int list \<Rightarrow> pci_pool list \<times> bool" where
  "apply_request pools request numa_cells =
     (let count = rq_count request;
          matching = matching_pools pools request numa_cells
      in if sum_list (map pl_count matching) < count then (pools, False)
         else (take_from_pools pools matching count, True))"

text \<open>\<open>all([...])\<close> over a list: every request is applied, also after one that failed.\<close>

fun apply_all :: "pci_pool list \<Rightarrow> pci_request list \<Rightarrow> int list \<Rightarrow> pci_pool list \<times> bool" where
  "apply_all pools [] numa_cells = (pools, True)"
| "apply_all pools (r # rs) numa_cells =
     (let (pools', ok) = apply_request pools r numa_cells;
          (pools'', oks) = apply_all pools' rs numa_cells
      in (pools'', ok \<and> oks))"

definition support_requests :: "pci_pool list \<Rightarrow> pci_request list \<Rightarrow> int list \<Rightarrow> bool" where
  "support_requests pools requests numa_cells = snd (apply_all pools requests numa_cells)"

text \<open>The pools after the call, and whether it returned (\<open>False\<close>: it raised
  \<open>PciDeviceRequestFailed\<close>).\<close>

definition apply_requests ::
  "pci_pool list \<Rightarrow> pci_request list \<Rightarrow> int list \<Rightarrow> pci_pool list \<times> bool" where
  "apply_requests pools requests numa_cells = apply_all pools requests numa_cells"

section \<open>What a request takes\<close>

definition matches_request :: "pci_request \<Rightarrow> int list \<Rightarrow> pci_pool \<Rightarrow> bool" where
  "matches_request r cells p \<longleftrightarrow>
     pci_device_prop_match p (rq_spec r) \<and>
     (cells \<noteq> [] \<longrightarrow> (\<exists>cell \<in> set (PNone # map PInt cells).
        pci_device_prop_match p [[(''numa_node'', cell)]])) \<and>
     ((\<forall>spec \<in> set (rq_spec r). dict_get spec ''dev_type'' \<noteq> SRIOV_PF) \<longrightarrow>
        pool_get p ''dev_type'' \<noteq> SRIOV_PF)"

lemma matching_pools_filter: "matching_pools pools r cells = filter (matches_request r cells) pools"
proof -
  define nopf where "nopf \<longleftrightarrow> (\<forall>spec \<in> set (rq_spec r). dict_get spec ''dev_type'' \<noteq> SRIOV_PF)"
  have "list_all (\<lambda>spec. dict_get spec ''dev_type'' \<noteq> SRIOV_PF) (rq_spec r) = nopf"
    by (simp add: list_all_iff nopf_def)
  moreover have "matches_request r cells p \<longleftrightarrow> pci_device_prop_match p (rq_spec r) \<and>
     (cells \<noteq> [] \<longrightarrow> (\<exists>cell \<in> set (PNone # map PInt cells).
        pci_device_prop_match p [[(''numa_node'', cell)]])) \<and>
     (nopf \<longrightarrow> pool_get p ''dev_type'' \<noteq> SRIOV_PF)" for p
    by (simp only: matches_request_def nopf_def)
  ultimately show ?thesis
    unfolding matching_pools_def Let_def filter_pools_for_spec_def filter_pools_for_numa_cells_def
      filter_non_requested_pfs_def filter_pools_for_pfs_def
    by (cases "cells = []"; cases nopf) (simp_all add: list_ex_iff cong: filter_cong)
qed

definition pool_total :: "pci_pool list \<Rightarrow> int" where
  "pool_total pools = sum_list (map pl_count pools)"

lemma pool_total_simps [simp]:
  "pool_total [] = 0" "pool_total (p # ps) = pl_count p + pool_total ps"
  "pool_total (ps @ qs) = pool_total ps + pool_total qs"
  by (simp_all add: pool_total_def)

lemma decrease_first:
  "decrease_pool_count (p # ps) p n =
     (if pl_count p > n then (p\<lparr>pl_count := pl_count p - n\<rparr> # ps, 0) else (ps, n - pl_count p))"
  by (simp add: decrease_pool_count_def)

lemma decrease_other:
  "p \<noteq> q \<Longrightarrow> decrease_pool_count (q # ps) p n =
     (q # fst (decrease_pool_count ps p n), snd (decrease_pool_count ps p n))"
  by (simp add: decrease_pool_count_def)

lemma take_from_other:
  "\<forall>p \<in> set ms. p \<noteq> q \<Longrightarrow> take_from_pools (q # ps) ms n = q # take_from_pools ps ms n"
proof (induction ms arbitrary: ps n)
  case (Cons m ms)
  then show ?case
    by (simp add: decrease_other Let_def case_prod_beta)
qed simp

text \<open>The loop over the references is one pass over the list.\<close>

fun take_matching :: "(pci_pool \<Rightarrow> bool) \<Rightarrow> pci_pool list \<Rightarrow> int \<Rightarrow> pci_pool list" where
  "take_matching P [] n = []"
| "take_matching P (p # ps) n =
     (if \<not> P p then p # take_matching P ps n
      else if pl_count p > n then p\<lparr>pl_count := pl_count p - n\<rparr> # ps
      else if n - pl_count p = 0 then ps
      else take_matching P ps (n - pl_count p))"

lemma take_from_pools_matching: "take_from_pools pools (filter P pools) n = take_matching P pools n"
proof (induction pools arbitrary: n)
  case (Cons p ps)
  show ?case
  proof (cases "P p")
    case False
    then have "\<forall>q \<in> set (filter P ps). q \<noteq> p" by auto
    with False Cons.IH show ?thesis by (simp add: take_from_other)
  qed (simp add: decrease_first Cons.IH Let_def)
qed simp

lemma take_matching_total:
  "0 \<le> n \<Longrightarrow> n \<le> pool_total (filter P ps) \<Longrightarrow>
     pool_total (take_matching P ps n) = pool_total ps - n"
  by (induction P ps n rule: take_matching.induct) auto

lemma take_matching_positive:
  "\<forall>p \<in> set ps. 0 < pl_count p \<Longrightarrow> 0 \<le> n \<Longrightarrow> \<forall>p \<in> set (take_matching P ps n). 0 < pl_count p"
  by (induction P ps n rule: take_matching.induct) auto

lemma take_matching_keeps: "p \<in> set ps \<Longrightarrow> \<not> P p \<Longrightarrow> p \<in> set (take_matching P ps n)"
  by (induction P ps n rule: take_matching.induct) auto

definition available :: "pci_pool list \<Rightarrow> pci_request \<Rightarrow> int list \<Rightarrow> int" where
  "available pools r cells = pool_total (filter (matches_request r cells) pools)"

lemma apply_request_eq:
  "apply_request pools r cells =
     (if available pools r cells < rq_count r then (pools, False)
      else (take_matching (matches_request r cells) pools (rq_count r), True))"
  by (simp add: apply_request_def matching_pools_filter take_from_pools_matching available_def
      pool_total_def)

lemma apply_all_Cons_True:
  "apply_all pools (r # rs) cells = (pools', True) \<longleftrightarrow>
     (\<exists>p1. apply_request pools r cells = (p1, True) \<and> apply_all p1 rs cells = (pools', True))"
  by (auto simp: Let_def case_prod_beta prod_eq_iff)

lemma apply_all_total:
  assumes "apply_all pools rs cells = (pools', True)" and "\<forall>r \<in> set rs. 0 \<le> rq_count r"
  shows "pool_total pools' = pool_total pools - sum_list (map rq_count rs)"
  using assms
proof (induction rs arbitrary: pools)
  case (Cons r rs)
  then obtain p1 where "apply_request pools r cells = (p1, True)"
      and *: "apply_all p1 rs cells = (pools', True)"
    unfolding apply_all_Cons_True by blast
  then have "pool_total p1 = pool_total pools - rq_count r"
    using Cons.prems(2)
    by (auto simp: apply_request_eq available_def take_matching_total split: if_splits)
  with Cons.IH[OF *] Cons.prems(2) show ?case by simp
qed simp

lemma apply_all_positive:
  assumes "\<forall>p \<in> set pools. 0 < pl_count p" and "\<forall>r \<in> set rs. 0 \<le> rq_count r"
  shows "\<forall>p \<in> set (fst (apply_all pools rs cells)). 0 < pl_count p"
  using assms
proof (induction rs arbitrary: pools)
  case (Cons r rs)
  have "\<forall>p \<in> set (fst (apply_request pools r cells)). 0 < pl_count p"
    using Cons.prems take_matching_positive[of pools "rq_count r" "matches_request r cells"]
    by (simp add: apply_request_eq)
  with Cons show ?case by (simp add: Let_def case_prod_beta)
qed simp

lemma apply_all_keeps:
  assumes "p \<in> set pools" and "\<forall>r \<in> set rs. \<not> matches_request r cells p"
  shows "p \<in> set (fst (apply_all pools rs cells))"
  using assms
  by (induction rs arbitrary: pools)
     (simp_all add: Let_def case_prod_beta apply_request_eq take_matching_keeps)



section \<open>The pools of the compute node\<close>

definition pool_key_names :: "string list" where
  "pool_key_names = [''product_id'', ''vendor_id'', ''numa_node'', ''dev_type'']"

text \<open>The keys of a pool: the four names of the class, and tags, whose values are not \<open>None\<close>.\<close>

definition wf_keys :: "(string \<times> pval) list \<Rightarrow> bool" where
  "wf_keys k \<longleftrightarrow> distinct (map fst k) \<and> set pool_key_names \<subseteq> fst ` set k \<and>
     (\<forall>(x, v) \<in> set k. x \<notin> set pool_key_names \<longrightarrow> v \<noteq> PNone)"

definition wf_pool :: "pci_pool \<Rightarrow> bool" where
  "wf_pool p \<longleftrightarrow> wf_keys (pl_keys p) \<and>
     (\<exists>ds. pl_devices p = Some ds \<and> ds \<noteq> [] \<and> pl_count p = int (length ds))"

text \<open>Every pool counts its devices, no two pools have the same keys and values, and the list
  is sorted by the number of keys.\<close>

definition wf_pools :: "pci_pool list \<Rightarrow> bool" where
  "wf_pools ps \<longleftrightarrow> (\<forall>p \<in> set ps. wf_pool p) \<and> distinct ps \<and> sorted (map pool_len ps) \<and>
     (\<forall>p \<in> set ps. \<forall>q \<in> set ps. map_of (pl_keys p) = map_of (pl_keys q) \<longrightarrow> p = q)"

lemma wf_keys_match:
  assumes k: "wf_keys k" and p: "wf_keys (pl_keys p)"
  shows "pool_matches k p \<longleftrightarrow> map_of (pl_keys p) = map_of k"
proof
  assume eq: "map_of (pl_keys p) = map_of k"
  have "card (dom (map_of k)) = length k" "card (dom (map_of (pl_keys p))) = length (pl_keys p)"
    using k p by (metis wf_keys_def dom_map_of_conv_image_fst distinct_card length_map set_map)+
  with eq show "pool_matches k p"
    by (auto simp: pool_matches_def equal_properties_def list_all_iff dict_get_def)
next
  assume m: "pool_matches k p"
  have dk: "dom (map_of k) = fst ` set k" "card (dom (map_of k)) = length k"
    and dp: "dom (map_of (pl_keys p)) = fst ` set (pl_keys p)"
      "card (dom (map_of (pl_keys p))) = length (pl_keys p)"
    using k p by (metis wf_keys_def dom_map_of_conv_image_fst distinct_card length_map set_map)+
  have get: "dict_get k x = dict_get (pl_keys p) x" if "x \<in> fst ` set k" for x
    using m that by (auto simp: pool_matches_def equal_properties_def list_all_iff)
  have "fst ` set k \<subseteq> fst ` set (pl_keys p)"
  proof
    fix x assume x: "x \<in> fst ` set k"
    show "x \<in> fst ` set (pl_keys p)"
    proof (cases "x \<in> set pool_key_names")
      case True
      then show ?thesis using p by (auto simp: wf_keys_def)
    next
      case False
      obtain v where v: "map_of k x = Some v" using x dk(1) by auto
      then have "v \<noteq> PNone" using k False map_of_SomeD[OF v] by (auto simp: wf_keys_def)
      then have "map_of (pl_keys p) x \<noteq> None"
        using get[OF x] v by (auto simp: dict_get_def split: option.splits)
      then show ?thesis using dp(1) by auto
    qed
  qed
  moreover have "length (pl_keys p) = length k" using m by (simp add: pool_matches_def)
  ultimately have dom: "dom (map_of k) = dom (map_of (pl_keys p))"
    using dk dp by (metis card_subset_eq finite_dom_map_of)
  show "map_of (pl_keys p) = map_of k"
  proof
    fix x
    show "map_of (pl_keys p) x = map_of k x"
    proof (cases "x \<in> dom (map_of k)")
      case True
      then obtain v w where "map_of k x = Some v" "map_of (pl_keys p) x = Some w"
        using dom by blast
      then show ?thesis using get[of x] True dk(1) by (simp add: dict_get_def)
    next
      case False
      then show ?thesis using dom by (metis domIff)
    qed
  qed
qed

lemma find_pool_None:
  "\<forall>p \<in> set ps. pl_devices p \<noteq> None \<Longrightarrow>
     find_pool ps k = Inr None \<longleftrightarrow> (\<forall>p \<in> set ps. \<not> pool_matches k p)"
  by (induction ps) auto

lemma find_pool_Some: "find_pool ps k = Inr (Some p) \<Longrightarrow> p \<in> set ps \<and> pool_matches k p"
  by (induction ps) (auto split: if_splits)

lemma find_pool_unique:
  assumes "\<forall>p \<in> set ps. pl_devices p \<noteq> None" "p \<in> set ps" "pool_matches k p"
    and "\<forall>q \<in> set ps. pool_matches k q \<longrightarrow> q = p"
  shows "find_pool ps k = Inr (Some p)"
  using assms
proof (induction ps)
  case (Cons q qs)
  show ?case
  proof (cases "pool_matches k q")
    case True
    then have "q = p" using Cons.prems(4) by simp
    with True Cons.prems(1) show ?thesis by simp
  next
    case False
    then have "p \<in> set qs" using Cons.prems(2,3) by auto
    then have "find_pool qs k = Inr (Some p)"
      by (metis Cons.IH Cons.prems(1,3,4) list.set_intros(2))
    moreover have "pl_devices q \<noteq> None" using Cons.prems(1) by simp
    ultimately show ?thesis using False by (simp only: find_pool.simps if_False)
  qed
qed simp

lemma find_pool_total: "\<forall>p \<in> set ps. pl_devices p \<noteq> None \<Longrightarrow> \<exists>r. find_pool ps k = Inr r"
  by (induction ps) auto

lemma set_replace1: "distinct ps \<Longrightarrow> p \<in> set ps \<Longrightarrow> set (replace1 p q ps) = insert q (set ps - {p})"
  by (induction ps) auto

lemma replace1_compose: "q \<notin> set ps \<Longrightarrow> replace1 q r (replace1 p q ps) = replace1 p r ps"
  by (induction ps) auto

lemma replace1_same [simp]: "replace1 p p ps = ps"
  by (induction ps) auto

lemma remove1_replace1: "q \<notin> set ps \<Longrightarrow> remove1 q (replace1 p q ps) = remove1 p ps"
  by (induction ps) auto

lemma map_replace1: "f p = f q \<Longrightarrow> map f (replace1 p q ps) = map f ps"
  by (induction ps) auto

lemma distinct_replace1: "distinct ps \<Longrightarrow> q \<notin> set ps \<Longrightarrow> distinct (replace1 p q ps)"
proof (induction ps)
  case (Cons x ps)
  have "set (replace1 p q ps) \<subseteq> insert q (set ps)" for ps by (induction ps) auto
  then have "x \<notin> set (replace1 p q ps)" using Cons.prems by fastforce
  with Cons show ?case by simp
qed simp

lemma remove1_sort_key:
  assumes "sorted (map f ps)" and "distinct ps" and "x \<notin> set ps"
  shows "remove1 x (sort_key f (ps @ [x])) = ps"
proof -
  have "distinct (sort_key f (ps @ [x]))" using assms by simp
  then have "remove1 x (sort_key f (ps @ [x])) = filter (\<lambda>y. x \<noteq> y) (sort_key f (ps @ [x]))"
    by (simp add: distinct_remove1_removeAll removeAll_filter_not_eq)
  also have "\<dots> = sort_key f (filter (\<lambda>y. x \<noteq> y) (ps @ [x]))" by (rule filter_sort)
  also have "filter (\<lambda>y. x \<noteq> y) (ps @ [x]) = ps" using assms(3) by (auto simp: filter_id_conv)
  also have "sort_key f ps = ps" using assms(1) by (rule sort_key_id_if_sorted)
  finally show ?thesis .
qed

lemma wf_pools_devices: "wf_pools ps \<Longrightarrow> \<forall>p \<in> set ps. pl_devices p \<noteq> None"
  by (auto simp: wf_pools_def wf_pool_def)

lemma wf_pools_unique:
  assumes "wf_pools ps" "wf_keys k" "p \<in> set ps" "q \<in> set ps" "pool_matches k p" "pool_matches k q"
  shows "q = p"
proof -
  have "wf_keys (pl_keys p)" "wf_keys (pl_keys q)"
    using assms by (auto simp: wf_pools_def wf_pool_def)
  then have "map_of (pl_keys p) = map_of (pl_keys q)"
    using assms wf_keys_match by metis
  with assms show ?thesis by (metis wf_pools_def)
qed

text \<open>A pool whose fields but the keys change keeps its place, its keys and its length.\<close>

lemma wf_pools_replace1:
  assumes wf: "wf_pools ps" and p: "p \<in> set ps" and q: "wf_pool q" and k: "pl_keys q = pl_keys p"
  shows "wf_pools (replace1 p q ps)"
proof (cases "q = p")
  case False
  have "q \<notin> set ps"
    using wf p k False by (metis wf_pools_def)
  then have "distinct (replace1 p q ps)" and s: "set (replace1 p q ps) = insert q (set ps - {p})"
    using wf p by (simp_all add: distinct_replace1 set_replace1 wf_pools_def)
  moreover have "pool_len p = pool_len q"
    using wf p q k by (auto simp: pool_len_def wf_pools_def wf_pool_def)
  then have "sorted (map pool_len (replace1 p q ps))"
    using wf by (simp add: map_replace1 wf_pools_def)
  ultimately show ?thesis
    using wf p q k unfolding wf_pools_def s by (metis Diff_iff insert_iff)
qed (use wf in simp)

lemma wf_pools_insert:
  assumes wf: "wf_pools ps" and q: "wf_pool q" and none: "\<forall>p \<in> set ps. \<not> pool_matches (pl_keys q) p"
  shows "wf_pools (sort_key pool_len (ps @ [q]))" and "q \<notin> set ps"
proof -
  have kq: "wf_keys (pl_keys q)" using q by (simp add: wf_pool_def)
  have ne: "map_of (pl_keys p) \<noteq> map_of (pl_keys q)" if "p \<in> set ps" for p
    using that none wf_keys_match[OF kq, of p] wf by (auto simp: wf_pools_def wf_pool_def)
  then show "q \<notin> set ps" by blast
  with ne show "wf_pools (sort_key pool_len (ps @ [q]))"
    using wf q unfolding wf_pools_def
    by (simp del: sort_key_simps) (metis insert_iff)
qed

text \<open>The white list gives tags with distinct names and values other than \<open>None\<close>.\<close>

definition wf_devspec :: "(pci_device \<Rightarrow> (string \<times> pval) list option) \<Rightarrow> bool" where
  "wf_devspec devspec \<longleftrightarrow>
     (\<forall>d k. create_pool_keys_from_dev devspec d = Some k \<longrightarrow> wf_keys k)"

lemma add_new_then_remove:
  assumes wf: "wf_pools ps" and k: "create_pool_keys_from_dev devspec d = Some k" "wf_keys k"
    and f: "find_pool ps k = Inr None"
  shows "\<exists>ps'. add_device devspec ps d = Inr ps' \<and> wf_pools ps' \<and> remove_device devspec ps' d = Inr ps"
proof -
  let ?q = "\<lparr>pl_keys = k, pl_count = 1, pl_devices = Some [d]\<rparr>"
  let ?e = "\<lparr>pl_keys = k, pl_count = 1, pl_devices = Some []\<rparr>"
  let ?ps = "sort_key pool_len (ps @ [?q])"
  have none: "\<forall>p \<in> set ps. \<not> pool_matches (pl_keys ?q) p"
    using f find_pool_None[OF wf_pools_devices[OF wf]] by simp
  have q: "wf_pool ?q" using k(2) by (simp add: wf_pool_def)
  have wf': "wf_pools ?ps" and new: "?q \<notin> set ps"
    using wf_pools_insert[OF wf q none] by auto
  have "pool_matches k ?q" using k(2) by (subst wf_keys_match) simp_all
  then have f': "find_pool ?ps k = Inr (Some ?q)"
    by (intro find_pool_unique wf_pools_devices[OF wf']) (use none in auto)
  have "?e \<notin> set ?ps" using wf' by (auto simp: wf_pools_def wf_pool_def)
  then have "remove1 ?e (replace1 ?q ?e ?ps) = ps"
    using wf new by (simp add: remove1_replace1 remove1_sort_key wf_pools_def del: sort_key_simps)
  then have "remove_device devspec ?ps d = Inr ps"
    by (simp add: remove_device_def k(1) f' Let_def decrease_pool_count_def del: sort_key_simps)
  moreover have "add_device devspec ps d = Inr ?ps"
    by (simp add: add_device_def k(1) f)
  ultimately show ?thesis using wf' by blast
qed

lemma add_known_then_remove:
  assumes wf: "wf_pools ps" and k: "create_pool_keys_from_dev devspec d = Some k" "wf_keys k"
    and f: "find_pool ps k = Inr (Some p)" and new: "\<forall>p \<in> set ps. d \<notin> set (the (pl_devices p))"
  shows "\<exists>ps'. add_device devspec ps d = Inr ps' \<and> wf_pools ps' \<and> remove_device devspec ps' d = Inr ps"
proof -
  have p: "p \<in> set ps" "pool_matches k p" using find_pool_Some[OF f] by auto
  then obtain ds where ds: "pl_devices p = Some ds" "ds \<noteq> []" "pl_count p = int (length ds)"
      "wf_keys (pl_keys p)"
    using wf by (auto simp: wf_pools_def wf_pool_def)
  let ?q = "p\<lparr>pl_count := pl_count p + 1, pl_devices := Some (ds @ [d])\<rparr>"
  let ?r = "p\<lparr>pl_count := pl_count p + 1\<rparr>"
  let ?ps = "replace1 p ?q ps"
  have "d \<notin> set ds" using new p ds(1) by force
  have q: "wf_pool ?q" using ds by (simp add: wf_pool_def)
  have wf': "wf_pools ?ps" by (rule wf_pools_replace1[OF wf p(1) q]) simp
  have qm: "pool_matches k ?q" using p(2) by (simp add: pool_matches_def)
  have set': "set ?ps = insert ?q (set ps - {p})"
    using wf p(1) by (simp add: set_replace1 wf_pools_def)
  have f': "find_pool ?ps k = Inr (Some ?q)"
    by (intro find_pool_unique wf_pools_devices[OF wf'] qm ballI impI
        wf_pools_unique[OF wf' k(2)]) (auto simp: set')
  have nq: "?q \<notin> set ps"
  proof
    assume "?q \<in> set ps"
    moreover have "map_of (pl_keys ?q) = map_of (pl_keys p)" by simp
    ultimately have "?q = p" using wf p(1) unfolding wf_pools_def by blast
    then have "pl_count ?q = pl_count p" by (rule arg_cong)
    then show False by simp
  qed
  have "\<not> wf_pool ?r" using ds(1,3) by (simp add: wf_pool_def)
  then have nr: "?r \<notin> set ps" using wf unfolding wf_pools_def by blast
  have "replace1 ?q ?r ?ps = replace1 p ?r ps" by (rule replace1_compose[OF nq])
  then have "replace1 ?r p (replace1 ?q ?r ?ps) = ps"
    using replace1_compose[OF nr, of p p] by simp
  moreover have "remove1 d (ds @ [d]) = ds" using \<open>d \<notin> set ds\<close> by (simp add: remove1_append)
  moreover have "?r\<lparr>pl_devices := Some ds\<rparr> = ?r" "?q\<lparr>pl_devices := Some ds\<rparr> = ?r"
    using ds(1) by simp_all
  moreover have "0 < pl_count p" using ds(2,3) by simp
  ultimately have "remove_device devspec ?ps d = Inr ps"
    using ds(2) by (simp add: remove_device_def k(1) f' Let_def decrease_pool_count_def)
  moreover have "add_device devspec ps d = Inr ?ps"
    using ds(1) by (simp add: add_device_def k(1) f)
  ultimately show ?thesis using wf' by blast
qed

text \<open>Claim C31. On well-formed pools \<open>add_device\<close> of a device that no pool holds succeeds and
  keeps the pools well formed (every count is the number of devices, no two pools have the same
  keys, the list stays sorted), and \<open>remove_device\<close> of that device gives the old pools back.\<close>

theorem pci_add_remove:
  assumes "wf_pools ps" and "wf_devspec devspec" and "\<forall>p \<in> set ps. d \<notin> set (the (pl_devices p))"
  shows "\<exists>ps'. add_device devspec ps d = Inr ps' \<and> wf_pools ps' \<and>
    remove_device devspec ps' d = Inr ps"
proof (cases "create_pool_keys_from_dev devspec d")
  case None
  then show ?thesis using assms(1) by (simp add: add_device_def remove_device_def)
next
  case (Some k)
  then have k: "wf_keys k" using assms(2) by (simp add: wf_devspec_def)
  obtain r where "find_pool ps k = Inr r"
    using find_pool_total[OF wf_pools_devices[OF assms(1)]] by blast
  then show ?thesis
    using add_new_then_remove[OF assms(1) Some k] add_known_then_remove[OF assms(1) Some k _ assms(3)]
    by (cases r) auto
qed

theorem pci_add_remove_witness:
  "\<exists>ps'. add_device (\<lambda>_. Some [])
      [] \<lparr>pd_address = ''0000:00:00.1'', pd_compute_node_id = 1, pd_product_id = PStr ''1520'',
        pd_vendor_id = PStr ''8086'', pd_numa_node = PNone, pd_dev_type = PStr ''type-PCI''\<rparr> = Inr ps' \<and>
    wf_pools ps'"
proof -
  have "wf_devspec (\<lambda>_. Some [])"
    by (auto simp: wf_devspec_def create_pool_keys_from_dev_def wf_keys_def pool_key_names_def)
  moreover have "wf_pools []" by (simp add: wf_pools_def)
  ultimately show ?thesis using pci_add_remove[of "[]"] by (metis empty_iff list.set(1))
qed

end
