(* ===== verification/Numa_Fit.thy ===== *)
theory Numa_Fit
  imports Pci_Stats "HOL-Library.Multiset"
begin

text \<open>
  Fitting an instance's NUMA topology onto a host (\<open>nova/virt/hardware.py\<close>, from
  \<open>_numa_cell_supports_pagesize_request\<close> to \<open>_numa_fit_instance_cell\<close>, and
  \<open>numa_fit_instance_to_host\<close>). The code assigns to the fields of the instance cells while it
  tries the permutations of the host's cells, so every operation returns the cell as it is after
  the call beside its result. The order in which Python lists the elements of a set is not
  fixed by the language: it is the argument \<open>it\<close>, of which \<open>set_order it\<close> says that it lists
  each element once.
\<close>

section \<open>Page sizes\<close>

definition MEMPAGES_SMALL :: int where "MEMPAGES_SMALL = -1"
definition MEMPAGES_LARGE :: int where "MEMPAGES_LARGE = -2"
definition MEMPAGES_ANY :: int where "MEMPAGES_ANY = -3"

fun verify_pagesizes :: "numa_cell \<Rightarrow> inst_cell \<Rightarrow> int list \<Rightarrow> int option nova" where
  "verify_pagesizes host_cell inst_cell [] = Inr None"
| "verify_pagesizes host_cell inst_cell (pagesize # rest) =
     rbind (can_fit_hugepages host_cell pagesize (ic_memory inst_cell * 1024)) (\<lambda>ok.
       if ok then Inr (Some pagesize) else verify_pagesizes host_cell inst_cell rest)"

text \<open>The caller checks that \<open>pagesize\<close> is set.\<close>

definition numa_cell_supports_pagesize_request :: "numa_cell \<Rightarrow> inst_cell \<Rightarrow> int option nova" where
  "numa_cell_supports_pagesize_request host_cell inst_cell =
     (let avail_pagesize = rev (sort (map size_kb (nc_mempages host_cell)));
          pagesize = the (ic_pagesize inst_cell)
      in if pagesize = MEMPAGES_SMALL
         then verify_pagesizes host_cell inst_cell (drop (length avail_pagesize - 1) avail_pagesize)
         else if pagesize = MEMPAGES_LARGE
         then verify_pagesizes host_cell inst_cell (butlast avail_pagesize)
         else if pagesize = MEMPAGES_ANY
         then verify_pagesizes host_cell inst_cell avail_pagesize
         else verify_pagesizes host_cell inst_cell [pagesize])"

section \<open>Packing onto cores\<close>

definition set_order :: "(int set \<Rightarrow> int list) \<Rightarrow> bool" where
  "set_order it \<longleftrightarrow> (\<forall>s. finite s \<longrightarrow> set (it s) = s \<and> distinct (it s))"

text \<open>\<open>d[k].append(v)\<close> on a \<open>defaultdict(list)\<close>.\<close>

fun dict_append :: "'k \<Rightarrow> 'v \<Rightarrow> ('k \<times> 'v list) list \<Rightarrow> ('k \<times> 'v list) list" where
  "dict_append k v [] = [(k, [v])]"
| "dict_append k v ((k', vs) # d) =
     (if k = k' then (k', vs @ [v]) # d else (k', vs) # dict_append k v d)"

definition sibling_sets :: "int set list \<Rightarrow> (int \<times> int set list) list" where
  "sibling_sets available_siblings =
     foldl (\<lambda>d sib. foldl (\<lambda>d threads_no. dict_append threads_no sib d) d
         (py_range 1 (int (card sib) + 1)))
       [] available_siblings"

definition orphans :: "inst_cell \<Rightarrow> int \<Rightarrow> int" where
  "orphans c threads_per_core = int (card (ic_cpuset c)) mod threads_per_core"

definition exposed_threads :: "inst_cell \<Rightarrow> int \<Rightarrow> int" where
  "exposed_threads c threads_per_core = gcd threads_per_core (orphans c threads_per_core)"

definition get_pinning ::
  "(int set \<Rightarrow> int list) \<Rightarrow> int \<Rightarrow> int set list \<Rightarrow> int set \<Rightarrow> (int \<times> int) list option" where
  "get_pinning it threads_no sibling_set instance_cores =
     (if threads_no * int (length sibling_set) < int (card instance_cores) then None
      else let usable_cores = map (\<lambda>s. take (nat threads_no) (it s)) sibling_set
           in Some (zip (sorted_list_of_set instance_cores) (concat usable_cores)))"

abbreviation pinning_found :: "(int \<times> int) list option \<Rightarrow> bool" where
  "pinning_found p \<equiv> p \<noteq> None \<and> p \<noteq> Some []"

text \<open>The main loop, over the sorted items of \<open>sibling_sets\<close>.\<close>

fun pack_loop ::
  "(int set \<Rightarrow> int list) \<Rightarrow> inst_cell \<Rightarrow> (int \<times> int set list) list \<Rightarrow> int \<Rightarrow> (int \<times> int) list option
    \<Rightarrow> int \<times> (int \<times> int) list option" where
  "pack_loop it c [] threads_no pinning = (threads_no, pinning)"
| "pack_loop it c ((threads_no, sibling_set) # rest) _ pinning =
     (if ic_cpu_thread_policy c = Some REQUIRE \<and> threads_no \<le> 1
      then pack_loop it c rest threads_no pinning
      else let pinning = get_pinning it threads_no sibling_set (ic_cpuset c)
           in if pinning_found pinning then (threads_no, pinning)
              else pack_loop it c rest threads_no pinning)"

definition pack_instance_onto_cores ::
  "(int set \<Rightarrow> int list) \<Rightarrow> int set list \<Rightarrow> inst_cell \<Rightarrow> int \<Rightarrow> int \<Rightarrow> inst_cell option" where
  "pack_instance_onto_cores it available_siblings c host_cell_id threads_per_core =
     (let sibs = sibling_sets available_siblings;
          (threads_no, pinning) =
            (if ic_cpu_thread_policy c = Some ISOLATE
             then (1, case map_of sibs threads_per_core of
                        None \<Rightarrow> None
                      | Some sibling_set \<Rightarrow> get_pinning it 1 sibling_set (ic_cpuset c))
             else let (threads_no, pinning) = pack_loop it c (sorted_rev_by fst sibs) 1 None
                  in (exposed_threads c threads_no, pinning))
      in case pinning of
           None \<Rightarrow> None
         | Some pairs \<Rightarrow>
             (if pairs = [] then None
              else Some ((ic_pin_vcpus c pairs)
                \<lparr>ic_cpu_topology :=
                   Some \<lparr>sockets = 1, cores = int (length pairs) div threads_no, threads = threads_no\<rparr>,
                 ic_id := host_cell_id\<rparr>)))"

definition numa_fit_instance_cell_with_pinning ::
  "(int set \<Rightarrow> int list) \<Rightarrow> numa_cell \<Rightarrow> inst_cell \<Rightarrow> inst_cell option" where
  "numa_fit_instance_cell_with_pinning it host_cell c =
     (if avail_cpus host_cell < int (card (ic_cpuset c)) \<or> avail_memory host_cell < ic_memory c
      then None
      else if nc_siblings host_cell \<noteq> []
      then pack_instance_onto_cores it (free_siblings host_cell) c (nc_id host_cell)
             (int (Max (set (map card (nc_siblings host_cell)))))
      else pack_instance_onto_cores it (map (\<lambda>cpu. {cpu}) (it (free_cpus host_cell))) c
             (nc_id host_cell) 1)"

section \<open>Fitting a cell\<close>

text \<open>The cell after the call, and whether the call returned it (\<open>False\<close>: it returned \<open>None\<close>).\<close>

definition fit_pagesize :: "numa_cell \<Rightarrow> inst_cell \<Rightarrow> inst_cell \<times> bool nova" where
  "fit_pagesize host_cell c =
     (if ic_pagesize c = None \<or> ic_pagesize c = Some 0
      then (c\<lparr>ic_id := nc_id host_cell, ic_pagesize := None\<rparr>, Inr True)
      else case numa_cell_supports_pagesize_request host_cell c of
             Inl e \<Rightarrow> (c, Inl e)
           | Inr pagesize \<Rightarrow>
               (if pagesize = None \<or> pagesize = Some 0 then (c, Inr False)
                else (c\<lparr>ic_id := nc_id host_cell, ic_pagesize := pagesize\<rparr>, Inr True)))"

definition within_limits :: "numa_cell \<Rightarrow> inst_cell \<Rightarrow> numa_limits option \<Rightarrow> bool" where
  "within_limits host_cell c limit_cell \<longleftrightarrow>
     (case limit_cell of
        None \<Rightarrow> True
      | Some l \<Rightarrow>
          let memory_usage = nc_memory_usage host_cell + ic_memory c;
              cpu_usage = nc_cpu_usage host_cell + int (card (ic_cpuset c));
              cpu_limit = of_nat (card (nc_cpuset host_cell)) * cpu_allocation_ratio l;
              ram_limit = of_int (nc_memory host_cell) * ram_allocation_ratio l
          in \<not> (of_int memory_usage > ram_limit \<or> of_int cpu_usage > cpu_limit))"

definition numa_fit_instance_cell ::
  "(int set \<Rightarrow> int list) \<Rightarrow> numa_cell \<Rightarrow> inst_cell \<Rightarrow> numa_limits option \<Rightarrow> inst_cell \<times> bool nova" where
  "numa_fit_instance_cell it host_cell c limit_cell =
     (if ic_memory c > nc_memory host_cell \<or> card (ic_cpuset c) > card (nc_cpuset host_cell)
      then (c, Inr False)
      else if ic_cpu_pinning_requested c
      then (case numa_fit_instance_cell_with_pinning it host_cell c of
              None \<Rightarrow> (c, Inr False)
            | Some c' \<Rightarrow> fit_pagesize host_cell (c'\<lparr>ic_pagesize := ic_pagesize c\<rparr>))
      else if \<not> within_limits host_cell c limit_cell then (c, Inr False)
      else fit_pagesize host_cell c)"

section \<open>Fitting a topology\<close>

text \<open>\<open>itertools.permutations(xs, k)\<close>.\<close>

fun permutations_of :: "nat \<Rightarrow> 'a list \<Rightarrow> 'a list list" where
  "permutations_of 0 xs = [[]]"
| "permutations_of (Suc k) xs =
     concat (map (\<lambda>i. map ((#) (xs ! i)) (permutations_of k (take i xs @ drop (Suc i) xs)))
       [0..<length xs])"

text \<open>The loop over \<open>zip(host_cell_perm, instance_topology.cells)\<close>: the instance cells after it,
  and whether every cell was fitted.\<close>

fun fit_cells ::
  "(int set \<Rightarrow> int list) \<Rightarrow> numa_limits option \<Rightarrow> numa_cell list \<Rightarrow> inst_cell list
    \<Rightarrow> inst_cell list \<times> bool nova" where
  "fit_cells it limits (h # hs) (c # cs) =
     (let (c', r) = numa_fit_instance_cell it h c limits
      in case r of
           Inl e \<Rightarrow> (c' # cs, (case e of MemoryPageSizeNotSupported _ \<Rightarrow> Inr False | _ \<Rightarrow> Inl e))
         | Inr got \<Rightarrow>
             (if got
              then let (cs', r') = fit_cells it limits hs cs in (c' # cs', r')
              else (c' # cs, Inr False)))"
| "fit_cells it limits _ cs = (cs, Inr True)"

text \<open>The loop over the permutations. The topology returned holds the cells as they are then.\<close>

fun fit_permutations ::
  "(int set \<Rightarrow> int list) \<Rightarrow> numa_limits option \<Rightarrow> pci_request list \<Rightarrow> pci_pool list option
    \<Rightarrow> numa_cell list list \<Rightarrow> inst_cell list \<Rightarrow> inst_cell list \<times> inst_topology option nova" where
  "fit_permutations it limits reqs stats [] cs = (cs, Inr None)"
| "fit_permutations it limits reqs stats (perm # perms) cs =
     (let (cs', r) = fit_cells it limits perm cs
      in case r of
           Inl e \<Rightarrow> (cs', Inl e)
         | Inr all_fit \<Rightarrow>
             (if all_fit \<and> (reqs = [] \<or>
                  (case stats of None \<Rightarrow> False
                   | Some pools \<Rightarrow> support_requests pools reqs (map ic_id cs')))
              then (cs', Inr (Some cs'))
              else fit_permutations it limits reqs stats perms cs'))"

definition numa_fit_instance_to_host ::
  "(int set \<Rightarrow> int list) \<Rightarrow> numa_topology \<Rightarrow> inst_topology \<Rightarrow> numa_limits option
    \<Rightarrow> pci_request list \<Rightarrow> pci_pool list option \<Rightarrow> inst_cell list \<times> inst_topology option nova" where
  "numa_fit_instance_to_host it host_topology instance_topology limits pci_requests pci_stats =
     (if host_topology = [] \<or> instance_topology = [] then (instance_topology, Inr None)
      else if length host_topology < length instance_topology then (instance_topology, Inr None)
      else fit_permutations it limits pci_requests pci_stats
             (permutations_of (length instance_topology) host_topology) instance_topology)"

section \<open>The sibling sets\<close>

lemma map_of_dict_append:
  "map_of (dict_append k v d) =
     (map_of d)(k \<mapsto> (case map_of d k of None \<Rightarrow> [v] | Some vs \<Rightarrow> vs @ [v]))"
  by (induction d) (auto simp: fun_eq_iff split: option.splits)

lemma keys_dict_append: "fst ` set (dict_append k v d) = insert k (fst ` set d)"
  by (induction k v d rule: dict_append.induct) (simp_all add: insert_commute)

lemma distinct_dict_append: "distinct (map fst d) \<Longrightarrow> distinct (map fst (dict_append k v d))"
proof (induction d)
  case (Cons x d)
  have "fst x \<notin> fst ` set (dict_append k v d)" if "k \<noteq> fst x"
    using Cons.prems that by (auto simp: keys_dict_append)
  then show ?case using Cons by (cases x) auto
qed simp

definition larger_siblings :: "int set list \<Rightarrow> int \<Rightarrow> int set list" where
  "larger_siblings ss n = filter (\<lambda>s. 1 \<le> n \<and> n \<le> int (card s)) ss"

lemma dict_append_range:
  assumes "distinct ns"
  shows "map_of (foldl (\<lambda>d n. dict_append n v d) d ns) k =
    (if k \<in> set ns then Some (case map_of d k of None \<Rightarrow> [v] | Some vs \<Rightarrow> vs @ [v])
     else map_of d k)"
  using assms by (induction ns arbitrary: d) (auto simp: map_of_dict_append)

lemma distinct_dict_append_range:
  "distinct (map fst d) \<Longrightarrow> distinct (map fst (foldl (\<lambda>d n. dict_append n v d) d ns))"
  by (induction ns arbitrary: d) (simp_all add: distinct_dict_append)

lemma sibling_sets_snoc:
  "sibling_sets (ss @ [s]) =
     foldl (\<lambda>d n. dict_append n s d) (sibling_sets ss) (py_range 1 (int (card s) + 1))"
  by (simp add: sibling_sets_def)

lemma map_of_sibling_sets:
  "map_of (sibling_sets ss) n =
     (if larger_siblings ss n = [] then None else Some (larger_siblings ss n))"
proof (induction ss rule: rev_induct)
  case Nil
  show ?case by (simp add: sibling_sets_def larger_siblings_def)
next
  case (snoc s ss)
  then show ?case
    by (auto simp: sibling_sets_snoc dict_append_range larger_siblings_def split: if_splits)
qed

lemma distinct_sibling_sets: "distinct (map fst (sibling_sets ss))"
proof (induction ss rule: rev_induct)
  case Nil
  show ?case by (simp add: sibling_sets_def)
next
  case (snoc s ss)
  then show ?case by (simp only: sibling_sets_snoc distinct_dict_append_range)
qed

lemma in_sibling_sets:
  "(n, xs) \<in> set (sibling_sets ss) \<Longrightarrow> xs = larger_siblings ss n \<and> xs \<noteq> []"
  using map_of_is_SomeI[OF distinct_sibling_sets] map_of_sibling_sets[of ss n]
  by (auto split: if_splits)

section \<open>A pinning is injective and complete\<close>

text \<open>What a pinning of the CPUs \<open>cpuset\<close> onto the host CPUs \<open>free\<close> has to be.\<close>

definition pins :: "(int \<times> int) list \<Rightarrow> int set \<Rightarrow> int set \<Rightarrow> bool" where
  "pins ps cpuset free \<longleftrightarrow>
     distinct (map fst ps) \<and> fst ` set ps = cpuset \<and> inj_on snd (set ps) \<and> snd ` set ps \<subseteq> free"

lemma concat_take_distinct:
  assumes "set_order it" and "sorted_wrt (\<lambda>s t. s \<inter> t = {}) ss" and "\<forall>s \<in> set ss. finite s"
  shows "distinct (concat (map (\<lambda>s. take n (it s)) ss)) \<and>
    set (concat (map (\<lambda>s. take n (it s)) ss)) \<subseteq> \<Union> (set ss)"
  using assms(2,3)
proof (induction ss)
  case (Cons s ss)
  have s: "set (it s) = s" "distinct (it s)" using Cons.prems assms(1) by (auto simp: set_order_def)
  have "set (take n (it s)) \<inter> \<Union> (set ss) = {}"
    using Cons.prems(1) s(1) set_take_subset[of n "it s"] by auto
  then show ?case
    using Cons s set_take_subset[of n "it s"] by (auto simp: distinct_take) blast+
qed simp

lemma concat_take_length:
  assumes "set_order it" and "\<forall>s \<in> set ss. finite s \<and> n \<le> card s"
  shows "length (concat (map (\<lambda>s. take n (it s)) ss)) = n * length ss"
  using assms(2)
proof (induction ss)
  case (Cons s ss)
  have "length (it s) = card s"
    using assms(1) Cons.prems distinct_card[of "it s"] by (auto simp: set_order_def)
  then show ?case using Cons by simp
qed simp

lemma get_pinning_pins:
  assumes "set_order it" "sorted_wrt (\<lambda>s t. s \<inter> t = {}) ss"
    and "\<forall>s \<in> set ss. finite s \<and> n \<le> int (card s)" and "0 \<le> n" and "finite cpuset"
    and g: "get_pinning it n ss cpuset = Some ps"
  shows "pins ps cpuset (\<Union> (set ss)) \<and> map fst ps = sorted_list_of_set cpuset"
proof -
  let ?xs = "concat (map (\<lambda>s. take (nat n) (it s)) ss)"
  have ps: "ps = zip (sorted_list_of_set cpuset) ?xs"
    and len: "int (card cpuset) \<le> n * int (length ss)"
    using g by (auto simp: get_pinning_def split: if_splits)
  have "\<forall>s \<in> set ss. finite s \<and> nat n \<le> card s" using assms(3) by auto
  then have "length ?xs = nat n * length ss"
    using concat_take_length[OF assms(1), of ss "nat n"] by blast
  then have "int (length ?xs) = n * int (length ss)" using assms(4) by simp
  then have le: "length (sorted_list_of_set cpuset) \<le> length ?xs" using len by simp
  have d: "distinct ?xs" "set ?xs \<subseteq> \<Union> (set ss)"
    using concat_take_distinct[OF assms(1,2), of "nat n"] assms(3) by blast+
  have snds: "map snd ps = take (length (sorted_list_of_set cpuset)) ?xs"
    using le by (simp only: ps map_snd_zip_take min_absorb1)
  have fsts: "map fst ps = sorted_list_of_set cpuset" using le by (simp only: ps map_fst_zip_take min_absorb1) simp
  have "distinct (map snd ps)" using d(1) by (simp only: snds distinct_take)
  then have "inj_on snd (set ps)" by (simp only: distinct_map)
  moreover have "set (map snd ps) \<subseteq> \<Union> (set ss)"
    using d(2) set_take_subset[of _ ?xs] by (simp only: snds) blast
  moreover have "fst ` set ps = cpuset"
    using assms(5) arg_cong[OF fsts, of set] by simp
  moreover have "distinct (map fst ps)" by (simp only: fsts distinct_sorted_list_of_set)
  ultimately show ?thesis using fsts by (simp only: pins_def set_map)
qed

section \<open>What packing does to the cell\<close>

definition pinning_wf :: "inst_cell \<Rightarrow> bool" where
  "pinning_wf c \<longleftrightarrow> finite (ic_cpuset c) \<and> distinct (map fst (opt_or (ic_cpu_pinning c) [])) \<and>
     fst ` set (opt_or (ic_cpu_pinning c) []) \<subseteq> ic_cpuset c"

lemma keys_dict_set: "fst ` set (dict_set k v d) = insert k (fst ` set d)"
  by (induction k v d rule: dict_set.induct) (simp_all add: insert_commute)

lemma distinct_dict_set: "distinct (map fst d) \<Longrightarrow> distinct (map fst (dict_set k v d))"
proof (induction d)
  case (Cons x d)
  have "fst x \<notin> fst ` set (dict_set k v d)" if "k \<noteq> fst x"
    using Cons.prems that by (auto simp: keys_dict_set)
  then show ?case using Cons by (cases x) auto
qed simp

lemma map_of_dict_set: "map_of (dict_set k v d) = (map_of d)(k \<mapsto> v)"
  by (induction k v d rule: dict_set.induct) (auto simp: fun_eq_iff)

abbreviation dict_update :: "('k \<times> 'v) list \<Rightarrow> ('k \<times> 'v) list \<Rightarrow> ('k \<times> 'v) list" where
  "dict_update d pairs \<equiv> foldl (\<lambda>d (k, v). dict_set k v d) d pairs"

lemma map_of_dict_update: "map_of (dict_update d pairs) = map_of d ++ map_of (rev pairs)"
  by (induction pairs rule: rev_induct) (auto simp: map_of_dict_set fun_upd_def map_add_def fun_eq_iff)

lemma distinct_dict_update:
  "distinct (map fst d) \<Longrightarrow> distinct (map fst (dict_update d pairs))"
  by (induction pairs rule: rev_induct) (auto simp: distinct_dict_set)

lemma dict_update_all:
  assumes "distinct (map fst d)" "fst ` set d \<subseteq> fst ` set pairs" "distinct (map fst pairs)"
  shows "set (dict_update d pairs) = set pairs"
proof -
  have "dom (map_of d) \<subseteq> dom (map_of pairs)" using assms(2) by (simp add: dom_map_of_conv_image_fst)
  moreover have "map_of (rev pairs) = map_of pairs" using assms(3) by (intro map_of_inject_set[THEN iffD2]) (auto simp: rev_map[symmetric])
  ultimately have "map_of (dict_update d pairs) = map_of pairs"
    by (auto simp: map_of_dict_update map_add_def fun_eq_iff split: option.split)
  then show ?thesis
    using map_of_inject_set[OF distinct_dict_update[OF assms(1)] assms(3)] by blast
qed

lemma ic_pin_vcpus_eq:
  "fst ` set pairs \<subseteq> ic_cpuset c \<Longrightarrow> pairs \<noteq> [] \<Longrightarrow>
   ic_pin_vcpus c pairs =
     c\<lparr>ic_cpu_pinning := Some (dict_update (opt_or (ic_cpu_pinning c) []) pairs)\<rparr>"
proof (induction pairs arbitrary: c)
  case (Cons p pairs)
  obtain v q where p: "p = (v, q)" by (cases p)
  have pin: "ic_pin c v q = c\<lparr>ic_cpu_pinning := Some (dict_set v q (opt_or (ic_cpu_pinning c) []))\<rparr>"
    using Cons.prems(1) by (simp add: ic_pin_def p)
  show ?case
  proof (cases "pairs = []")
    case True
    then show ?thesis by (simp add: p pin)
  next
    case False
    have "fst ` set pairs \<subseteq> ic_cpuset (ic_pin c v q)" using Cons.prems(1) by (simp add: pin)
    from Cons.IH[OF this False] show ?thesis by (simp add: p pin)
  qed
qed simp

lemma pin_vcpus_pins:
  assumes "pinning_wf c" "pins ps (ic_cpuset c) free" "ps \<noteq> []"
  shows "\<exists>d. ic_pin_vcpus c ps = c\<lparr>ic_cpu_pinning := Some d\<rparr> \<and> set d = set ps \<and>
    pins d (ic_cpuset c) free"
proof -
  let ?d = "dict_update (opt_or (ic_cpu_pinning c) []) ps"
  have ps: "distinct (map fst ps)" "fst ` set ps = ic_cpuset c" using assms(2) by (auto simp: pins_def)
  have wf: "distinct (map fst (opt_or (ic_cpu_pinning c) []))"
    "fst ` set (opt_or (ic_cpu_pinning c) []) \<subseteq> fst ` set ps"
    using assms(1) ps(2) by (simp_all add: pinning_wf_def)
  have "set ?d = set ps" by (rule dict_update_all[OF wf ps(1)])
  moreover have "distinct (map fst ?d)" by (rule distinct_dict_update[OF wf(1)])
  moreover have "ic_pin_vcpus c ps = c\<lparr>ic_cpu_pinning := Some ?d\<rparr>"
    using ps(2) assms(3) by (intro ic_pin_vcpus_eq) auto
  ultimately show ?thesis using assms(2) by (intro exI[of _ ?d]) (simp add: pins_def)
qed

text \<open>The pairs come from one entry of the sibling sets.\<close>

definition from_siblings ::
  "(int set \<Rightarrow> int list) \<Rightarrow> int set list \<Rightarrow> int set \<Rightarrow> int \<Rightarrow> int \<Rightarrow> (int \<times> int) list \<Rightarrow> bool" where
  "from_siblings it avail cpuset n m ps \<longleftrightarrow>
     1 \<le> n \<and> n \<le> m \<and> ps \<noteq> [] \<and> get_pinning it n (larger_siblings avail m) cpuset = Some ps"

lemma pack_loop_from:
  assumes "pack_loop it c items k0 p0 = (k, Some ps)" "p0 = None \<or> p0 = Some []" "ps \<noteq> []"
    and "\<forall>(n, ss) \<in> set items. 1 \<le> n \<and> ss = larger_siblings avail n"
  shows "from_siblings it avail (ic_cpuset c) k k ps \<and>
    (ic_cpu_thread_policy c = Some REQUIRE \<longrightarrow> 1 < k)"
  using assms
proof (induction items arbitrary: k0 p0)
  case (Cons item items)
  obtain n ss where item: "item = (n, ss)" by (cases item)
  let ?p = "get_pinning it n ss (ic_cpuset c)"
  show ?case
  proof (cases "ic_cpu_thread_policy c = Some REQUIRE \<and> n \<le> 1")
    case True
    then show ?thesis using Cons by (auto simp: item)
  next
    case F: False
    show ?thesis
    proof (cases "pinning_found ?p")
      case True
      then show ?thesis using F Cons.prems by (auto simp: item Let_def from_siblings_def)
    next
      case False
      then have "pack_loop it c items n ?p = (k, Some ps)" "?p = None \<or> ?p = Some []"
        using F Cons.prems(1) by (auto simp: item Let_def)
      then show ?thesis using Cons.IH Cons.prems(3,4) by auto
    qed
  qed
qed auto

lemma pack_Some:
  assumes p: "pack_instance_onto_cores it avail c hid tpc = Some c'"
  shows "\<exists>n m ps. from_siblings it avail (ic_cpuset c) n m ps \<and>
    (if ic_cpu_thread_policy c = Some ISOLATE then n = 1 \<and> m = tpc else m = n) \<and>
    (ic_cpu_thread_policy c = Some REQUIRE \<longrightarrow> 1 < n) \<and>
    c' = (ic_pin_vcpus c ps)
      \<lparr>ic_cpu_topology := Some \<lparr>sockets = 1, cores = int (length ps) div exposed_threads c n,
         threads = exposed_threads c n\<rparr>, ic_id := hid\<rparr>"
proof (cases "ic_cpu_thread_policy c = Some ISOLATE")
  case True
  let ?g = "get_pinning it 1 (larger_siblings avail tpc) (ic_cpuset c)"
  have ne: "larger_siblings avail tpc \<noteq> []" and "?g \<noteq> None" "?g \<noteq> Some []"
    and c': "c' = (ic_pin_vcpus c (the ?g))
      \<lparr>ic_cpu_topology := Some \<lparr>sockets = 1, cores = int (length (the ?g)), threads = 1\<rparr>, ic_id := hid\<rparr>"
    using p True by (auto simp: pack_instance_onto_cores_def map_of_sibling_sets
      split: if_splits option.splits)
  moreover from ne have "1 \<le> tpc" by (auto simp: larger_siblings_def filter_empty_conv)
  moreover have "exposed_threads c 1 = 1" by (simp add: exposed_threads_def)
  ultimately show ?thesis using True
    by (intro exI[of _ 1] exI[of _ tpc] exI[of _ "the ?g"]) (auto simp: from_siblings_def)
next
  case False
  obtain n ps where l: "pack_loop it c (sorted_rev_by fst (sibling_sets avail)) 1 None = (n, Some ps)"
    "ps \<noteq> []" and c': "c' = (ic_pin_vcpus c ps)
      \<lparr>ic_cpu_topology := Some \<lparr>sockets = 1, cores = int (length ps) div exposed_threads c n,
         threads = exposed_threads c n\<rparr>, ic_id := hid\<rparr>"
    using p False by (auto simp: pack_instance_onto_cores_def split: if_splits option.splits prod.splits)
  have "1 \<le> k \<and> xs = larger_siblings avail k" if "(k, xs) \<in> set (sibling_sets avail)" for k xs
    using in_sibling_sets[OF that] by (auto simp: larger_siblings_def filter_empty_conv)
  then have "from_siblings it avail (ic_cpuset c) n n ps \<and>
      (ic_cpu_thread_policy c = Some REQUIRE \<longrightarrow> 1 < n)"
    using pack_loop_from[OF l(1) _ l(2), of avail] by auto
  then show ?thesis using False c' by auto
qed

definition disjoint_sets_of :: "int set list \<Rightarrow> bool" where
  "disjoint_sets_of ss \<longleftrightarrow> sorted_wrt (\<lambda>s t. s \<inter> t = {}) ss \<and> (\<forall>s \<in> set ss. finite s)"

lemma larger_siblings_disjoint:
  "disjoint_sets_of ss \<Longrightarrow> disjoint_sets_of (larger_siblings ss m)"
  by (auto simp: disjoint_sets_of_def larger_siblings_def sorted_wrt_filter)

lemma from_siblings_pins:
  assumes "set_order it" "disjoint_sets_of avail" "finite cpuset" "from_siblings it avail cpuset n m ps"
  shows "pins ps cpuset (\<Union> (set (larger_siblings avail m)))"
proof -
  have "\<forall>s \<in> set (larger_siblings avail m). finite s \<and> n \<le> int (card s)"
    using assms(2,4) by (auto simp: disjoint_sets_of_def larger_siblings_def from_siblings_def)
  then show ?thesis
    using get_pinning_pins[OF assms(1) _ _ _ assms(3)] larger_siblings_disjoint[OF assms(2), of m] assms(4)
    by (fastforce simp: disjoint_sets_of_def from_siblings_def)
qed

text \<open>What a cell that was packed is.\<close>

definition packed :: "int set list \<Rightarrow> inst_cell \<Rightarrow> int \<Rightarrow> int \<Rightarrow> inst_cell \<Rightarrow> bool" where
  "packed avail c hid tpc c' \<longleftrightarrow>
     (\<exists>d t m. c' = c\<lparr>ic_cpu_pinning := Some d, ic_cpu_topology := Some t, ic_id := hid\<rparr> \<and>
        pins d (ic_cpuset c) (\<Union> (set (larger_siblings avail m))) \<and>
        (ic_cpu_thread_policy c = Some ISOLATE \<longrightarrow> m = tpc))"

lemma pack_packed:
  assumes "set_order it" "disjoint_sets_of avail" "pinning_wf c"
    and "pack_instance_onto_cores it avail c hid tpc = Some c'"
  shows "packed avail c hid tpc c'"
proof -
  obtain n m ps t where f: "from_siblings it avail (ic_cpuset c) n m ps"
    and m: "ic_cpu_thread_policy c = Some ISOLATE \<longrightarrow> m = tpc"
    and c': "c' = (ic_pin_vcpus c ps)\<lparr>ic_cpu_topology := Some t, ic_id := hid\<rparr>"
    using pack_Some[OF assms(4)] by (metis (full_types))
  have "finite (ic_cpuset c)" using assms(3) by (simp add: pinning_wf_def)
  note p = from_siblings_pins[OF assms(1,2) this f]
  have "ps \<noteq> []" using f by (simp add: from_siblings_def)
  obtain d where "ic_pin_vcpus c ps = c\<lparr>ic_cpu_pinning := Some d\<rparr>"
      "pins d (ic_cpuset c) (\<Union> (set (larger_siblings avail m)))"
    using pin_vcpus_pins[OF assms(3) p \<open>ps \<noteq> []\<close>] by blast
  then show ?thesis using m c' unfolding packed_def by (intro exI[of _ d] exI[of _ t] exI[of _ m]) simp
qed

lemma packed_wf: "packed avail c hid tpc c' \<Longrightarrow> pinning_wf c \<Longrightarrow> pinning_wf c'"
  unfolding packed_def pinning_wf_def pins_def by (elim exE conjE) simp

section \<open>What a fitted cell is\<close>

definition same_request :: "inst_cell \<Rightarrow> inst_cell \<Rightarrow> bool" where
  "same_request c c' \<longleftrightarrow> ic_cpuset c' = ic_cpuset c \<and> ic_memory c' = ic_memory c \<and>
     ic_cpu_policy c' = ic_cpu_policy c \<and> ic_cpu_thread_policy c' = ic_cpu_thread_policy c"

lemma same_request_refl [simp]: "same_request c c"
  by (simp add: same_request_def)

lemma same_request_trans: "same_request a b \<Longrightarrow> same_request b c \<Longrightarrow> same_request a c"
  by (simp add: same_request_def)

definition claimed_cpus :: "numa_cell \<Rightarrow> inst_cell \<Rightarrow> (int \<times> int) list \<Rightarrow> int set" where
  "claimed_cpus h c d =
     (if ic_cpu_thread_policy c = Some ISOLATE \<and> nc_siblings h \<noteq> []
      then pin_siblings h (snd ` set d) else snd ` set d)"

definition cell_pinned :: "numa_cell \<Rightarrow> inst_cell \<Rightarrow> (int \<times> int) list option \<Rightarrow> bool" where
  "cell_pinned h c pinning \<longleftrightarrow>
     (\<exists>d. pinning = Some d \<and> pins d (ic_cpuset c) (free_cpus h) \<and> claimed_cpus h c d \<subseteq> free_cpus h)
     \<and> ic_memory c \<le> avail_memory h"

definition cell_fitted :: "numa_cell \<Rightarrow> numa_limits option \<Rightarrow> inst_cell \<Rightarrow> inst_cell \<Rightarrow> bool" where
  "cell_fitted h limits c c' \<longleftrightarrow>
     same_request c c' \<and> ic_id c' = nc_id h \<and>
     ic_memory c \<le> nc_memory h \<and> card (ic_cpuset c) \<le> card (nc_cpuset h) \<and>
     (if ic_cpu_pinning_requested c then cell_pinned h c (ic_cpu_pinning c')
      else within_limits h c limits) \<and>
     (\<forall>pagesize. ic_pagesize c' = Some pagesize \<longrightarrow>
        can_fit_hugepages h pagesize (ic_memory c * 1024) = Inr True)"

lemma same_request_cong:
  assumes "same_request b c"
  shows "ic_cpuset c = ic_cpuset b" "ic_memory c = ic_memory b"
    "ic_cpu_pinning_requested c = ic_cpu_pinning_requested b"
    "cell_pinned h c p = cell_pinned h b p" "within_limits h c l = within_limits h b l"
  using assms by (cases l; simp add: same_request_def cell_pinned_def claimed_cpus_def
    ic_cpu_pinning_requested_def within_limits_def)+

lemma cell_fitted_request:
  assumes "same_request b c" "cell_fitted h l c c'"
  shows "cell_fitted h l b c'"
  using assms same_request_trans[OF assms(1)]
  by (cases "ic_cpu_pinning_requested b") (simp_all add: cell_fitted_def same_request_cong[OF assms(1)])

lemma verify_pagesizes_Some:
  "verify_pagesizes h c ps = Inr (Some p) \<Longrightarrow>
   p \<in> set ps \<and> can_fit_hugepages h p (ic_memory c * 1024) = Inr True"
  by (induction ps) (auto simp: rbind_eq_Inr split: if_splits)

lemma supports_pagesize_Some:
  "numa_cell_supports_pagesize_request h c = Inr (Some p) \<Longrightarrow>
   can_fit_hugepages h p (ic_memory c * 1024) = Inr True"
  unfolding numa_cell_supports_pagesize_request_def Let_def
  by (elim verify_pagesizes_Some[THEN conjunct2] | simp only: split: if_splits)+

lemma fit_pagesize_True:
  assumes "fit_pagesize h c = (c', Inr True)"
  shows "\<exists>p. c' = c\<lparr>ic_id := nc_id h, ic_pagesize := p\<rparr> \<and>
    (\<forall>q. p = Some q \<longrightarrow> can_fit_hugepages h q (ic_memory c * 1024) = Inr True)"
proof (cases "ic_pagesize c = None \<or> ic_pagesize c = Some 0")
  case True
  then show ?thesis using assms by (auto simp: fit_pagesize_def)
next
  case False
  then obtain p where "numa_cell_supports_pagesize_request h c = Inr p"
      "c' = c\<lparr>ic_id := nc_id h, ic_pagesize := p\<rparr>"
    using assms by (auto simp: fit_pagesize_def split: if_splits sum.splits)
  then show ?thesis using supports_pagesize_Some by blast
qed

lemma fit_pagesize_same:
  "fit_pagesize h c = (c', r) \<Longrightarrow> same_request c c' \<and> ic_cpu_pinning c' = ic_cpu_pinning c"
  by (auto simp: fit_pagesize_def same_request_def split: if_splits sum.splits)

subsection \<open>Packing onto a host cell\<close>

lemma wf_cell_finite: "wf_cell h \<Longrightarrow> finite (free_cpus h)"
  by (simp add: wf_cell_def free_cpus_def)

lemma free_siblings_disjoint: "wf_cell h \<Longrightarrow> disjoint_sets_of (free_siblings h)"
  unfolding disjoint_sets_of_def free_siblings_def
  using wf_cell_finite[of h]
  by (auto simp: wf_cell_def sorted_wrt_map elim: sorted_wrt_mono_rel[rotated])

lemma singletons_disjoint: "distinct xs \<Longrightarrow> disjoint_sets_of (map (\<lambda>x. {x}) xs)"
  by (induction xs) (auto simp: disjoint_sets_of_def)

lemma siblings_meet:
  assumes "sorted_wrt (\<lambda>s t. s \<inter> t = {}) ss" "s \<in> set ss" "t \<in> set ss" "x \<in> s" "x \<in> t"
  shows "s = t"
  using assms by (induction ss) auto

lemma full_sibling:
  assumes "wf_cell h" "s \<in> set (larger_siblings (free_siblings h) (int (Max (set (map card (nc_siblings h))))))"
  shows "s \<in> set (nc_siblings h) \<and> s \<subseteq> free_cpus h"
proof -
  let ?m = "Max (set (map card (nc_siblings h)))"
  obtain t where t: "t \<in> set (nc_siblings h)" "s = t \<inter> free_cpus h" "?m \<le> card s"
    using assms(2) by (auto simp: larger_siblings_def free_siblings_def)
  have fin: "finite t" using t(1) assms(1) by (auto simp: wf_cell_def elim: finite_subset)
  have "card t \<le> ?m" using t(1) by (intro Max_ge) auto
  then have "card t \<le> card s" using t(3) by simp
  then have "s = t" using fin t(2) by (intro card_seteq) auto
  then show ?thesis using t by auto
qed

lemma isolated_free:
  assumes "wf_cell h"
    "P \<subseteq> \<Union> (set (larger_siblings (free_siblings h) (int (Max (set (map card (nc_siblings h)))))))"
  shows "pin_siblings h P \<subseteq> free_cpus h"
proof
  fix x assume "x \<in> pin_siblings h P"
  then obtain t p where t: "t \<in> set (nc_siblings h)" "x \<in> t" "p \<in> P" "p \<in> t"
    by (auto simp: pin_siblings_eq)
  then obtain s where s: "s \<in> set (nc_siblings h)" "s \<subseteq> free_cpus h" "p \<in> s"
    using assms(2) full_sibling[OF assms(1)] by blast
  have "s = t" using assms(1) s t by (auto simp: wf_cell_def dest: siblings_meet)
  then show "x \<in> free_cpus h" using s t by blast
qed

lemma fit_with_pinning:
  assumes it: "set_order it" and wf: "wf_cell h" "pinning_wf c"
    and fit: "numa_fit_instance_cell_with_pinning it h c = Some c'"
  shows "\<exists>d t. c' = c\<lparr>ic_cpu_pinning := Some d, ic_cpu_topology := Some t, ic_id := nc_id h\<rparr> \<and>
    cell_pinned h c (Some d)"
proof (cases "nc_siblings h = []")
  case True
  let ?ss = "map (\<lambda>x. {x}) (it (free_cpus h))"
  have fin: "finite (free_cpus h)" using wf by (simp add: wf_cell_def free_cpus_def)
  then have fr: "distinct (it (free_cpus h))" "set (it (free_cpus h)) = free_cpus h"
    using it by (auto simp: set_order_def)
  have p: "pack_instance_onto_cores it ?ss c (nc_id h) 1 = Some c'" and m: "ic_memory c \<le> avail_memory h"
    using fit True by (auto simp: numa_fit_instance_cell_with_pinning_def split: if_splits)
  have "packed ?ss c (nc_id h) 1 c'"
    by (rule pack_packed[OF it singletons_disjoint[OF fr(1)] wf(2) p])
  then obtain d t k where d: "c' = c\<lparr>ic_cpu_pinning := Some d, ic_cpu_topology := Some t, ic_id := nc_id h\<rparr>"
    "pins d (ic_cpuset c) (\<Union> (set (larger_siblings ?ss k)))"
    unfolding packed_def by blast
  moreover have "\<Union> (set (larger_siblings ?ss k)) \<subseteq> free_cpus h"
    using fr(2) by (auto simp: larger_siblings_def)
  ultimately have "pins d (ic_cpuset c) (free_cpus h)" unfolding pins_def by blast
  moreover from this have "claimed_cpus h c d \<subseteq> free_cpus h"
    using True by (simp add: claimed_cpus_def pins_def)
  ultimately show ?thesis using d(1) m unfolding cell_pinned_def by blast
next
  case ne: False
  let ?m = "int (Max (set (map card (nc_siblings h))))"
  have p: "pack_instance_onto_cores it (free_siblings h) c (nc_id h) ?m = Some c'"
    and m: "ic_memory c \<le> avail_memory h"
    using fit ne by (auto simp: numa_fit_instance_cell_with_pinning_def split: if_splits)
  have "packed (free_siblings h) c (nc_id h) ?m c'"
    by (rule pack_packed[OF it free_siblings_disjoint[OF wf(1)] wf(2) p])
  then obtain d t k where d: "c' = c\<lparr>ic_cpu_pinning := Some d, ic_cpu_topology := Some t, ic_id := nc_id h\<rparr>"
    "pins d (ic_cpuset c) (\<Union> (set (larger_siblings (free_siblings h) k)))"
    "ic_cpu_thread_policy c = Some ISOLATE \<longrightarrow> k = ?m"
    unfolding packed_def by blast
  have sub: "\<Union> (set (larger_siblings (free_siblings h) k)) \<subseteq> free_cpus h"
    by (auto simp: larger_siblings_def free_siblings_def)
  have "claimed_cpus h c d \<subseteq> free_cpus h"
  proof (cases "ic_cpu_thread_policy c = Some ISOLATE")
    case True
    then show ?thesis
      using isolated_free[OF wf(1), of "snd ` set d"] d(2,3) ne by (simp add: claimed_cpus_def pins_def)
  next
    case False
    have "snd ` set d \<subseteq> free_cpus h" using d(2) sub unfolding pins_def by blast
    then show ?thesis using False by (simp add: claimed_cpus_def)
  qed
  moreover have "pins d (ic_cpuset c) (free_cpus h)"
    using d(2) sub unfolding pins_def by blast
  ultimately show ?thesis using d(1) m by (auto simp: cell_pinned_def)
qed

section \<open>Fitting a cell and a topology\<close>

lemma fit_instance_cell_True:
  assumes "set_order it" "wf_cell h" "pinning_wf c" "numa_fit_instance_cell it h c l = (c', Inr True)"
  shows "cell_fitted h l c c'"
proof (cases "ic_cpu_pinning_requested c")
  case True
  obtain c1 where c1: "numa_fit_instance_cell_with_pinning it h c = Some c1"
      "fit_pagesize h (c1\<lparr>ic_pagesize := ic_pagesize c\<rparr>) = (c', Inr True)"
    and m: "ic_memory c \<le> nc_memory h" "card (ic_cpuset c) \<le> card (nc_cpuset h)"
    using assms(4) True by (auto simp: numa_fit_instance_cell_def split: if_splits option.splits)
  obtain d t where d: "c1 = c\<lparr>ic_cpu_pinning := Some d, ic_cpu_topology := Some t, ic_id := nc_id h\<rparr>"
      "cell_pinned h c (Some d)"
    using fit_with_pinning[OF assms(1-3) c1(1)] by blast
  obtain p where "c' = c1\<lparr>ic_pagesize := ic_pagesize c, ic_id := nc_id h, ic_pagesize := p\<rparr>"
      "\<forall>q. p = Some q \<longrightarrow> can_fit_hugepages h q (ic_memory c1 * 1024) = Inr True"
    using fit_pagesize_True[OF c1(2)] by auto
  then show ?thesis using True d m by (simp add: cell_fitted_def same_request_def)
next
  case False
  then have f: "fit_pagesize h c = (c', Inr True)"
    and m: "ic_memory c \<le> nc_memory h" "card (ic_cpuset c) \<le> card (nc_cpuset h)" "within_limits h c l"
    using assms(4) by (auto simp: numa_fit_instance_cell_def split: if_splits)
  obtain p where "c' = c\<lparr>ic_id := nc_id h, ic_pagesize := p\<rparr>"
      "\<forall>q. p = Some q \<longrightarrow> can_fit_hugepages h q (ic_memory c * 1024) = Inr True"
    using fit_pagesize_True[OF f] by auto
  then show ?thesis using False m by (simp add: cell_fitted_def same_request_def)
qed

lemma fit_instance_cell_same:
  assumes "set_order it" "wf_cell h" "pinning_wf c" "numa_fit_instance_cell it h c l = (c', r)"
  shows "same_request c c' \<and> pinning_wf c'"
proof -
  have wf: "pinning_wf b" if "same_request c b" "ic_cpu_pinning b = ic_cpu_pinning c" for b
    using that assms(3) by (simp add: pinning_wf_def same_request_def)
  have wf': "pinning_wf b" if "same_request c b" "ic_cpu_pinning b = Some d" "cell_pinned h c (Some d)" for b d
    using that assms(3) by (simp add: pinning_wf_def same_request_def cell_pinned_def pins_def)
  consider (same) "c' = c" | (fit) "fit_pagesize h c = (c', r)"
    | (pin) c1 where "numa_fit_instance_cell_with_pinning it h c = Some c1"
      "fit_pagesize h (c1\<lparr>ic_pagesize := ic_pagesize c\<rparr>) = (c', r)"
    using assms(4) by (auto simp: numa_fit_instance_cell_def split: if_splits option.splits)
  then show ?thesis
  proof cases
    case same
    then show ?thesis using assms(3) by simp
  next
    case fit
    then show ?thesis using fit_pagesize_same wf by blast
  next
    case pin
    obtain d t where d: "c1 = c\<lparr>ic_cpu_pinning := Some d, ic_cpu_topology := Some t, ic_id := nc_id h\<rparr>"
        "cell_pinned h c (Some d)"
      using fit_with_pinning[OF assms(1-3) pin(1)] by blast
    have "same_request c c' \<and> ic_cpu_pinning c' = Some d"
      using fit_pagesize_same[OF pin(2)] d(1) by (auto simp: same_request_def)
    then show ?thesis using wf'[of c' d] d(2) by blast
  qed
qed

abbreviation wf_cells :: "numa_cell list \<Rightarrow> bool" where
  "wf_cells hs \<equiv> \<forall>h \<in> set hs. wf_cell h"

abbreviation same_requests :: "inst_cell list \<Rightarrow> inst_cell list \<Rightarrow> bool" where
  "same_requests cs cs' \<equiv> list_all2 same_request cs cs'"

lemma same_requests_refl [simp]: "same_requests cs cs"
  by (simp add: list_all2_refl)

lemma fit_cells_Cons:
  assumes "set_order it" "wf_cells (h # hs)" "\<forall>c \<in> set (c # cs). pinning_wf c"
    "fit_cells it l (h # hs) (c # cs) = (cs', r)"
  shows "\<exists>c1 r1. numa_fit_instance_cell it h c l = (c1, r1) \<and> same_request c c1 \<and> pinning_wf c1 \<and>
    (if r1 = Inr True then \<exists>cs1. fit_cells it l hs cs = (cs1, r) \<and> cs' = c1 # cs1
     else cs' = c1 # cs \<and> r \<noteq> Inr True)"
proof -
  obtain c1 r1 where f: "numa_fit_instance_cell it h c l = (c1, r1)" by (metis surj_pair)
  have "same_request c c1 \<and> pinning_wf c1"
    using fit_instance_cell_same[OF assms(1) _ _ f] assms(2,3) by simp
  moreover have "if r1 = Inr True then \<exists>cs1. fit_cells it l hs cs = (cs1, r) \<and> cs' = c1 # cs1
     else cs' = c1 # cs \<and> r \<noteq> Inr True"
    using assms(4) by (auto simp: f split: sum.splits nova_exc.splits prod.splits if_splits)
  ultimately show ?thesis using f by blast
qed

lemma fit_cells_same:
  assumes "set_order it"
  shows "wf_cells hs \<Longrightarrow> \<forall>c \<in> set cs. pinning_wf c \<Longrightarrow> fit_cells it l hs cs = (cs', r) \<Longrightarrow>
    same_requests cs cs' \<and> (\<forall>c \<in> set cs'. pinning_wf c)"
proof (induction hs arbitrary: cs cs' r)
  case (Cons h hs)
  show ?case
  proof (cases cs)
    case cs: (Cons c cs0)
    obtain c1 r1 where "numa_fit_instance_cell it h c l = (c1, r1)" and c1: "same_request c c1" "pinning_wf c1"
      and r: "if r1 = Inr True then \<exists>cs1. fit_cells it l hs cs0 = (cs1, r) \<and> cs' = c1 # cs1
        else cs' = c1 # cs0 \<and> r \<noteq> Inr True"
      using fit_cells_Cons[OF assms Cons.prems(1) Cons.prems(2)[unfolded cs] Cons.prems(3)[unfolded cs]]
      by blast
    show ?thesis
    proof (cases "r1 = Inr True")
      case True
      then obtain cs1 where "fit_cells it l hs cs0 = (cs1, r)" "cs' = c1 # cs1" using r by auto
      then show ?thesis using Cons.IH[of cs0 cs1 r] Cons.prems(1,2) cs c1 by simp
    next
      case False
      then show ?thesis using r Cons.prems(2) cs c1 by simp
    qed
  qed (use Cons.prems in auto)
qed auto

lemma fit_cells_True:
  assumes "set_order it"
  shows "wf_cells hs \<Longrightarrow> \<forall>c \<in> set cs. pinning_wf c \<Longrightarrow> length hs = length cs \<Longrightarrow>
    fit_cells it l hs cs = (cs', Inr True) \<Longrightarrow>
    length cs' = length cs \<and> (\<forall>i < length cs. cell_fitted (hs ! i) l (cs ! i) (cs' ! i))"
proof (induction hs arbitrary: cs cs')
  case (Cons h hs)
  then obtain c cs0 where cs: "cs = c # cs0" by (cases cs) auto
  obtain c1 cs1 where f: "numa_fit_instance_cell it h c l = (c1, Inr True)"
      "fit_cells it l hs cs0 = (cs1, Inr True)" "cs' = c1 # cs1"
    using fit_cells_Cons[OF assms Cons.prems(1), of c cs0 l cs' "Inr True"] Cons.prems(2,4) cs
    by (metis (full_types))
  have "cell_fitted h l c c1"
    using fit_instance_cell_True[OF assms _ _ f(1)] Cons.prems(1,2) cs by simp
  moreover have "length cs1 = length cs0 \<and> (\<forall>i < length cs0. cell_fitted (hs ! i) l (cs0 ! i) (cs1 ! i))"
    using Cons.IH[of cs0 cs1] Cons.prems(1-3) cs f(2) by simp
  ultimately show ?case by (auto simp: cs f(3) nth_Cons split: nat.splits)
qed auto

lemma fit_permutations_Some:
  assumes "set_order it" and "\<forall>perm \<in> set perms. wf_cells perm \<and> length perm = length cs"
  shows "\<forall>c \<in> set cs. pinning_wf c \<Longrightarrow>
    fit_permutations it l reqs stats perms cs = (cs', Inr (Some cells)) \<Longrightarrow>
    cs' = cells \<and> (reqs \<noteq> [] \<longrightarrow> support_requests (the stats) reqs (map ic_id cells)) \<and>
    (\<exists>perm \<in> set perms. \<forall>i < length cs. cell_fitted (perm ! i) l (cs ! i) (cells ! i)) \<and>
    length cells = length cs"
  using assms(2)
proof (induction perms arbitrary: cs)
  case (Cons perm perms)
  obtain cs1 r where f: "fit_cells it l perm cs = (cs1, r)" by (metis surj_pair)
  have perm: "wf_cells perm" "length perm = length cs" using Cons.prems(3) by auto
  have cs1: "same_requests cs cs1" "\<forall>c \<in> set cs1. pinning_wf c"
    using fit_cells_same[OF assms(1) perm(1) Cons.prems(1) f] by auto
  have len: "length cs1 = length cs" using cs1(1) by (simp add: list_all2_lengthD)
  define ok where "ok \<longleftrightarrow> r = Inr True \<and> (reqs = [] \<or>
    (case stats of None \<Rightarrow> False | Some pools \<Rightarrow> support_requests pools reqs (map ic_id cs1)))"
  have eq: "fit_permutations it l reqs stats (perm # perms) cs =
      (if ok then (cs1, Inr (Some cs1))
       else case r of Inl e \<Rightarrow> (cs1, Inl e) | Inr _ \<Rightarrow> fit_permutations it l reqs stats perms cs1)"
    by (cases r) (auto simp: f ok_def)
  show ?case
  proof (cases ok)
    case True
    have "cs' = cs1 \<and> cells = cs1" using Cons.prems(2)[unfolded eq] True by auto
    moreover have "r = Inr True" using True by (simp add: ok_def)
    moreover have "reqs \<noteq> [] \<longrightarrow> support_requests (the stats) reqs (map ic_id cs1)"
      using True by (auto simp: ok_def split: option.splits)
    ultimately show ?thesis using fit_cells_True[OF assms(1) perm(1) Cons.prems(1) perm(2)] f by auto
  next
    case False
    have more: "fit_permutations it l reqs stats perms cs1 = (cs', Inr (Some cells))"
      using Cons.prems(2) False by (simp only: eq split: sum.splits if_splits) simp_all
    then have "cs' = cells \<and> (reqs \<noteq> [] \<longrightarrow> support_requests (the stats) reqs (map ic_id cells)) \<and>
        (\<exists>perm \<in> set perms. \<forall>i < length cs1. cell_fitted (perm ! i) l (cs1 ! i) (cells ! i)) \<and>
        length cells = length cs1"
      using Cons.IH[OF cs1(2) more] Cons.prems(3) len by simp
    moreover have "cell_fitted h l (cs ! i) c'" if "cell_fitted h l (cs1 ! i) c'" "i < length cs" for h i c'
      using cell_fitted_request[OF _ that(1)] cs1(1) that(2) by (simp add: list_all2_nthD)
    ultimately show ?thesis using len by (metis list.set_intros(2))
  qed
qed auto

lemma permutations_of_Suc:
  "ys \<in> set (permutations_of (Suc k) xs) \<longleftrightarrow>
   (\<exists>i < length xs. \<exists>zs \<in> set (permutations_of k (take i xs @ drop (Suc i) xs)). ys = xs ! i # zs)"
  by auto

lemma mset_nth_split: "i < length xs \<Longrightarrow> mset xs = add_mset (xs ! i) (mset (take i xs @ drop (Suc i) xs))"
  by (metis id_take_nth_drop mset.simps(2) mset_append union_mset_add_mset_right)

lemma set_permutations_of:
  "ys \<in> set (permutations_of k xs) \<longleftrightarrow> length ys = k \<and> mset ys \<subseteq># mset xs"
proof (induction k arbitrary: xs ys)
  case (Suc k)
  show ?case
  proof
    assume "ys \<in> set (permutations_of (Suc k) xs)"
    then obtain i zs where "i < length xs" "ys = xs ! i # zs"
        "zs \<in> set (permutations_of k (take i xs @ drop (Suc i) xs))"
      unfolding permutations_of_Suc by blast
    then show "length ys = Suc k \<and> mset ys \<subseteq># mset xs"
      using Suc.IH by (auto simp: mset_nth_split[of i xs] simp del: mset_append)
  next
    assume ys: "length ys = Suc k \<and> mset ys \<subseteq># mset xs"
    then obtain y zs where y: "ys = y # zs" by (cases ys) auto
    then have "y \<in> set xs" using ys by (metis list.set_intros(1) mset_subset_eqD set_mset_mset)
    then obtain i where i: "i < length xs" "xs ! i = y" by (auto simp: in_set_conv_nth)
    have "mset zs \<subseteq># mset (take i xs @ drop (Suc i) xs)"
      using ys y mset_nth_split[OF i(1)] i(2) by (simp del: mset_append)
    then have "zs \<in> set (permutations_of k (take i xs @ drop (Suc i) xs))"
      using Suc.IH ys y by simp
    then show "ys \<in> set (permutations_of (Suc k) xs)"
      unfolding permutations_of_Suc using i y by blast
  qed
qed auto

lemma fit_to_host_Some:
  assumes "set_order it" "wf_cells host" "\<forall>c \<in> set cs. pinning_wf c"
    and "numa_fit_instance_to_host it host cs l reqs stats = (cs', Inr (Some cells))"
  shows "length cells = length cs \<and>
    (reqs \<noteq> [] \<longrightarrow> support_requests (the stats) reqs (map ic_id cells)) \<and>
    (\<exists>hs. length hs = length cs \<and> mset hs \<subseteq># mset host \<and>
       (\<forall>i < length cs. cell_fitted (hs ! i) l (cs ! i) (cells ! i)))"
proof -
  have f: "fit_permutations it l reqs stats (permutations_of (length cs) host) cs = (cs', Inr (Some cells))"
    using assms(4) by (auto simp: numa_fit_instance_to_host_def split: if_splits)
  have "\<forall>perm \<in> set (permutations_of (length cs) host). wf_cells perm \<and> length perm = length cs"
    using assms(2) set_mset_mono by (fastforce simp: set_permutations_of)
  from fit_permutations_Some[OF assms(1) this assms(3) f] show ?thesis
    using set_permutations_of by blast
qed

section \<open>The guest's threads\<close>

lemma concat_uniform_nth:
  "\<forall>xs \<in> set xss. length xs = n \<Longrightarrow> i < n * length xss \<Longrightarrow>
   concat xss ! i = xss ! (i div n) ! (i mod n) \<and> i div n < length xss"
proof (induction xss arbitrary: i)
  case (Cons xs xss)
  show ?case
  proof (cases "i < n")
    case True
    then show ?thesis using Cons.prems by (simp add: nth_append)
  next
    case False
    then have "i - n < n * length xss" using Cons.prems(2) by auto
    then have IH: "concat xss ! (i - n) = xss ! ((i - n) div n) ! ((i - n) mod n) \<and> (i - n) div n < length xss"
      using Cons.IH Cons.prems(1) by simp
    have n: "0 < n" using Cons.prems(2) by (cases n) auto
    then have "i div n = Suc ((i - n) div n)" "i mod n = (i - n) mod n"
      using False by (simp_all add: div_if mod_if)
    then show ?thesis using IH False Cons.prems(1) by (simp add: nth_append)
  qed
qed simp

lemma chunks_0 [simp]: "chunks 0 ys = []"
  by (subst chunks.simps) simp

lemma set_chunks:
  "xs \<in> set (chunks n ys) \<Longrightarrow> \<exists>k. xs = take n (drop (k * n) ys) \<and> k * n + n \<le> length ys"
proof (induction n ys rule: chunks.induct)
  case (1 n ys)
  have ok: "\<not> (n = 0 \<or> length ys < n)" using 1(2) by (auto simp: chunks.simps[of n ys] split: if_splits)
  then have "chunks n ys = take n ys # chunks n (drop n ys)" by (subst chunks.simps) simp
  then consider "xs = take n ys" | "xs \<in> set (chunks n (drop n ys))" using 1(2) by auto
  then show ?case
  proof cases
    case 1
    then show ?thesis using ok by (intro exI[of _ 0]) simp
  next
    case 2
    then obtain k where k: "xs = take n (drop (k * n) (drop n ys))" "k * n + n \<le> length (drop n ys)"
      using 1(1)[OF ok] by blast
    then show ?thesis using ok by (intro exI[of _ "Suc k"]) (simp add: add.commute)
  qed
qed

lemma exposed_threads_gcd:
  "exposed_threads c n = gcd n (int (card (ic_cpuset c)))"
  by (simp add: exposed_threads_def orphans_def gcd.commute gcd_red_int[symmetric])

lemma pinned_core:
  assumes "set_order it" "disjoint_sets_of avail" "from_siblings it avail cpuset n m ps" "i < card cpuset"
    and "finite cpuset"
  shows "\<exists>q. (sorted_list_of_set cpuset ! i, q) \<in> set ps \<and>
    q \<in> larger_siblings avail m ! (i div nat n) \<and> i div nat n < length (larger_siblings avail m)"
proof -
  let ?ss = "larger_siblings avail m"
  let ?xss = "map (\<lambda>s. take (nat n) (it s)) ?ss"
  have ss: "\<forall>s \<in> set ?ss. finite s \<and> nat n \<le> card s"
    using assms(2,3) by (auto simp: disjoint_sets_of_def larger_siblings_def from_siblings_def)
  have n: "1 \<le> n" using assms(3) by (simp add: from_siblings_def)
  have ps: "ps = zip (sorted_list_of_set cpuset) (concat ?xss)"
    and le: "int (card cpuset) \<le> n * int (length ?ss)"
    using assms(3) by (auto simp: from_siblings_def get_pinning_def split: if_splits)
  have "int (nat n * length ?ss) = n * int (length ?ss)" using n by simp
  then have i: "i < nat n * length ?ss" using le assms(4) by linarith
  have len: "length (concat ?xss) = nat n * length ?ss"
    by (rule concat_take_length[OF assms(1) ss])
  have "length (it s) = card s \<and> set (it s) = s" if "s \<in> set ?ss" for s
    using that ss assms(1) distinct_card[of "it s"] by (auto simp: set_order_def)
  then have it: "\<forall>s \<in> set ?ss. length (take (nat n) (it s)) = nat n \<and> set (take (nat n) (it s)) \<subseteq> s"
    using ss by (metis length_take min.absorb2 set_take_subset)
  then have u: "concat ?xss ! i = ?xss ! (i div nat n) ! (i mod nat n)" "i div nat n < length ?ss"
    using concat_uniform_nth[of ?xss "nat n" i] i by auto
  have "i mod nat n < nat n" using n by simp
  then have "?xss ! (i div nat n) ! (i mod nat n) \<in> ?ss ! (i div nat n)"
    using it u(2) by (metis (no_types, lifting) nth_map nth_mem subsetD)
  moreover have "ps ! i = (sorted_list_of_set cpuset ! i, concat ?xss ! i)" "i < length ps"
    using i len assms(4,5) by (simp_all add: ps)
  then have "(sorted_list_of_set cpuset ! i, concat ?xss ! i) \<in> set ps" by (metis nth_mem)
  ultimately show ?thesis using u by auto
qed

text \<open>The chunk of \<open>g\<close> consecutive CPUs is on one core when \<open>g\<close> divides the threads used.\<close>

lemma chunk_core:
  assumes "set_order it" "disjoint_sets_of avail" "from_siblings it avail cpuset n m ps" "finite cpuset"
    and "g dvd nat n" "xs \<in> set (chunks g (sorted_list_of_set cpuset))"
  shows "\<exists>s \<in> set avail. \<forall>v \<in> set xs. \<exists>q \<in> s. (v, q) \<in> set ps"
proof -
  let ?cs = "sorted_list_of_set cpuset"
  obtain k where k: "xs = take g (drop (k * g) ?cs)" "k * g + g \<le> length ?cs"
    using set_chunks[OF assms(6)] by blast
  obtain e where e: "nat n = g * e" using assms(5) by (auto simp: dvd_def)
  have g: "0 < g" using assms(6) by (cases g) auto
  have core: "\<exists>q. (?cs ! (k * g + j), q) \<in> set ps \<and> q \<in> larger_siblings avail m ! (k div e) \<and>
      k div e < length (larger_siblings avail m)" if "j < g" for j
  proof -
    have "(k * g + j) div nat n = k div e"
      using that g by (simp add: e div_mult2_eq)
    then show ?thesis
      using pinned_core[OF assms(1-3) _ assms(4), of "k * g + j"] k(2) that assms(4) by simp
  qed
  have "larger_siblings avail m ! (k div e) \<in> set avail"
    using core[OF g] nth_mem by (fastforce simp: larger_siblings_def)
  moreover have "\<exists>q \<in> larger_siblings avail m ! (k div e). (v, q) \<in> set ps" if "v \<in> set xs" for v
  proof -
    obtain j where "j < g" "v = ?cs ! (k * g + j)"
      using \<open>v \<in> set xs\<close> k by (auto simp: in_set_conv_nth)
    then show ?thesis using core by blast
  qed
  ultimately show ?thesis by blast
qed

lemma pack_topology:
  assumes "set_order it" "disjoint_sets_of avail" "pinning_wf c"
    and p: "pack_instance_onto_cores it avail c hid tpc = Some c'"
  shows "\<exists>d t. ic_cpu_pinning c' = Some d \<and> ic_cpu_topology c' = Some t \<and>
    sockets t * cores t * threads t = int (card (ic_cpuset c)) \<and>
    (\<forall>g \<in> set (ic_siblings c'). \<exists>s \<in> set avail. \<forall>v \<in> g. \<exists>q \<in> s. (v, q) \<in> set d)"
proof -
  obtain n m ps where f: "from_siblings it avail (ic_cpuset c) n m ps"
    and c': "c' = (ic_pin_vcpus c ps)
      \<lparr>ic_cpu_topology := Some \<lparr>sockets = 1, cores = int (length ps) div exposed_threads c n,
         threads = exposed_threads c n\<rparr>, ic_id := hid\<rparr>"
    using pack_Some[OF p] by blast
  have fin: "finite (ic_cpuset c)" using assms(3) by (simp add: pinning_wf_def)
  have ne: "ps \<noteq> []" and n: "1 \<le> n" using f by (simp_all add: from_siblings_def)
  note pins = from_siblings_pins[OF assms(1,2) fin f]
  then have len: "length ps = card (ic_cpuset c)"
    unfolding pins_def by (metis distinct_card length_map list.set_map)
  obtain d where d: "ic_pin_vcpus c ps = c\<lparr>ic_cpu_pinning := Some d\<rparr>" "set d = set ps"
    using pin_vcpus_pins[OF assms(3) pins ne] by blast
  let ?g = "exposed_threads c n"
  have g: "?g dvd n" "?g dvd int (length ps)" "0 < ?g"
    using n by (simp_all add: exposed_threads_gcd len)
  have "nat ?g dvd nat n" using g n by (simp add: nat_dvd_iff)
  moreover have "xs \<in> set (chunks (nat (if ?g = 1 then 0 else ?g)) (sorted_list_of_set (ic_cpuset c)))
      \<Longrightarrow> xs \<in> set (chunks (nat ?g) (sorted_list_of_set (ic_cpuset c)))" for xs
    by (auto split: if_splits)
  ultimately have "\<forall>g \<in> set (ic_siblings c'). \<exists>s \<in> set avail. \<forall>v \<in> g. \<exists>q \<in> s. (v, q) \<in> set d"
    using chunk_core[OF assms(1,2) f fin, of "nat ?g"]
    unfolding ic_siblings_def c' d(1) Let_def d(2) by auto
  then show ?thesis using g(2) len by (simp add: c' d(1))
qed

section \<open>Instances without pinning and page sizes\<close>

definition plain_cell :: "inst_cell \<Rightarrow> bool" where
  "plain_cell c \<longleftrightarrow> \<not> ic_cpu_pinning_requested c \<and> (ic_pagesize c = None \<or> ic_pagesize c = Some 0)"

definition has_room :: "numa_limits option \<Rightarrow> numa_cell \<Rightarrow> inst_cell \<Rightarrow> bool" where
  "has_room limits h c \<longleftrightarrow> ic_memory c \<le> nc_memory h \<and> card (ic_cpuset c) \<le> card (nc_cpuset h) \<and>
     within_limits h c limits"

lemma has_room_same: "same_request c c' \<Longrightarrow> has_room l h c' = has_room l h c"
  by (simp add: has_room_def same_request_cong)

lemma fit_plain_cell:
  assumes "plain_cell c" "numa_fit_instance_cell it h c l = (c', r)"
  shows "r = Inr (has_room l h c) \<and> same_request c c' \<and> plain_cell c'"
proof -
  have "numa_fit_instance_cell it h c l =
      (if has_room l h c then (c\<lparr>ic_id := nc_id h, ic_pagesize := None\<rparr>, Inr True) else (c, Inr False))"
    using assms(1) by (auto simp: numa_fit_instance_cell_def fit_pagesize_def has_room_def plain_cell_def)
  then show ?thesis
    using assms by (auto simp: plain_cell_def same_request_def ic_cpu_pinning_requested_def split: if_splits)
qed

lemma fit_plain_cells:
  "\<forall>c \<in> set cs. plain_cell c \<Longrightarrow> length hs = length cs \<Longrightarrow> fit_cells it l hs cs = (cs', r) \<Longrightarrow>
   r = Inr (list_all2 (has_room l) hs cs) \<and> same_requests cs cs' \<and> (\<forall>c \<in> set cs'. plain_cell c)"
proof (induction hs arbitrary: cs cs' r)
  case (Cons h hs)
  then obtain c cs0 where cs: "cs = c # cs0" by (cases cs) auto
  obtain c1 r1 where f: "numa_fit_instance_cell it h c l = (c1, r1)" by (metis surj_pair)
  obtain cs1 r2 where f2: "fit_cells it l hs cs0 = (cs1, r2)" by (metis surj_pair)
  have c1: "r1 = Inr (has_room l h c)" "same_request c c1" "plain_cell c1"
    using fit_plain_cell[OF _ f] Cons.prems(1) cs by auto
  have "r2 = Inr (list_all2 (has_room l) hs cs0) \<and> same_requests cs0 cs1 \<and> (\<forall>c \<in> set cs1. plain_cell c)"
    using Cons.IH[OF _ _ f2] Cons.prems(1,2) cs by simp
  moreover have "(cs', r) = (if has_room l h c then (c1 # cs1, r2) else (c1 # cs0, Inr False))"
    using Cons.prems(3) by (auto simp: cs f f2 c1(1))
  ultimately show ?case using c1 Cons.prems(1) cs by (auto split: if_splits)
qed auto

lemma fit_plain_permutations:
  "\<forall>c \<in> set cs. plain_cell c \<Longrightarrow> \<forall>perm \<in> set perms. length perm = length cs \<Longrightarrow>
   \<exists>res. snd (fit_permutations it l [] stats perms cs) = Inr res \<and>
     (res \<noteq> None \<longleftrightarrow> (\<exists>perm \<in> set perms. list_all2 (has_room l) perm cs))"
proof (induction perms arbitrary: cs)
  case (Cons perm perms)
  obtain cs1 r where f: "fit_cells it l perm cs = (cs1, r)" by (metis surj_pair)
  have r: "r = Inr (list_all2 (has_room l) perm cs)" and cs1: "same_requests cs cs1" "\<forall>c \<in> set cs1. plain_cell c"
    using fit_plain_cells[OF Cons.prems(1) _ f] Cons.prems(2) by auto
  have room: "list_all2 (has_room l) p cs1 \<longleftrightarrow> list_all2 (has_room l) p cs" for p
    using cs1(1) by (simp add: list_all2_conv_all_nth) (metis has_room_same)
  show ?case
  proof (cases "list_all2 (has_room l) perm cs")
    case True
    then show ?thesis by (simp add: f r)
  next
    case False
    have "\<forall>perm \<in> set perms. length perm = length cs1"
      using Cons.prems(2) cs1(1) by (simp add: list_all2_lengthD)
    then show ?thesis using Cons.IH[OF cs1(2)] False by (simp add: f r room)
  qed
qed simp

lemma fit_to_host_plain:
  assumes "\<forall>c \<in> set cs. plain_cell c" "cs \<noteq> []"
  shows "\<exists>res. snd (numa_fit_instance_to_host it host cs l [] stats) = Inr res \<and>
    (res \<noteq> None \<longleftrightarrow> (\<exists>hs. mset hs \<subseteq># mset host \<and> list_all2 (has_room l) hs cs))"
proof (cases "length host < length cs")
  case True
  have "\<not> (mset hs \<subseteq># mset host \<and> list_all2 (has_room l) hs cs)" for hs
    using True size_mset_mono[of "mset hs" "mset host"] list_all2_lengthD[of "has_room l" hs cs] by auto
  then show ?thesis using True by (auto simp: numa_fit_instance_to_host_def)
next
  case False
  let ?perms = "permutations_of (length cs) host"
  have "host \<noteq> []" using False assms(2) by auto
  then have e: "numa_fit_instance_to_host it host cs l [] stats = fit_permutations it l [] stats ?perms cs"
    using False assms(2) by (simp add: numa_fit_instance_to_host_def)
  have "\<forall>perm \<in> set ?perms. length perm = length cs" by (simp add: set_permutations_of)
  from fit_plain_permutations[OF assms(1) this] show ?thesis
    unfolding e by (metis list_all2_lengthD set_permutations_of)
qed

section \<open>Properties\<close>


definition demo_host :: "numa_cell list" where
  "demo_host =
     [\<lparr>nc_id = 0, nc_cpuset = {0, 1, 2, 3}, nc_memory = 512, nc_cpu_usage = 0, nc_memory_usage = 0,
       nc_pinned_cpus = {0}, nc_siblings = [{0, 1}, {2, 3}], nc_mempages = []\<rparr>]"

definition demo_cell :: inst_cell where
  "demo_cell = (InstanceNUMACell 0 {0, 1} 256)
     \<lparr>ic_cpu_policy := Some DEDICATED, ic_cpu_thread_policy := Some REQUIRE\<rparr>"

definition demo_fitted :: inst_cell where
  "demo_fitted = demo_cell
     \<lparr>ic_cpu_topology := Some \<lparr>sockets = 1, cores = 1, threads = 2\<rparr>,
      ic_cpu_pinning := Some [(0, 2), (1, 3)]\<rparr>"

lemma demo_wf:
  "set_order sorted_list_of_set" "\<forall>h \<in> set demo_host. wf_cell h" "\<forall>c \<in> set [demo_cell]. pinning_wf c"
  by (simp_all add: set_order_def demo_host_def wf_cell_def demo_cell_def pinning_wf_def InstanceNUMACell_def)

lemma demo_fit:
  "numa_fit_instance_to_host sorted_list_of_set demo_host [demo_cell] None [] None =
     ([demo_fitted], Inr (Some [demo_fitted]))"
  by code_simp


text \<open>Claim C2. The CPUs of a fitted topology can be claimed: for every cell with pinning, pinning
  its CPUs on its host cell succeeds, with their hardware siblings when the thread policy is
  \<open>isolate\<close> and the host has hyperthreads, and keeps the host cell well formed.\<close>

theorem numa_fit_claimable:
  assumes "set_order it" and "\<forall>h \<in> set host. wf_cell h" and "\<forall>c \<in> set cs. pinning_wf c"
    and "numa_fit_instance_to_host it host cs limits reqs stats = (cs', Inr (Some cells))"
    and "i < length cs" and "ic_cpu_pinning_requested (cs ! i)"
  shows "\<exists>h \<in> set host. ic_id (cells ! i) = nc_id h \<and>
    (\<exists>d h'. ic_cpu_pinning (cells ! i) = Some d \<and> wf_cell h' \<and>
       (if ic_cpu_thread_policy (cs ! i) = Some ISOLATE \<and> nc_siblings h \<noteq> []
        then pin_cpus_with_siblings h (snd ` set d) = Inr h'
        else pin_cpus h (snd ` set d) = Inr h'))"
proof -
  obtain hs where hs: "length hs = length cs" "mset hs \<subseteq># mset host"
      "cell_fitted (hs ! i) limits (cs ! i) (cells ! i)"
    using fit_to_host_Some[OF assms(1-4)] assms(5) by blast
  let ?h = "hs ! i"
  have h: "?h \<in> set host" using hs(1,2) assms(5) by (metis mset_subset_eqD nth_mem set_mset_mset)
  obtain d where d: "ic_cpu_pinning (cells ! i) = Some d" "claimed_cpus ?h (cs ! i) d \<subseteq> free_cpus ?h"
      "ic_id (cells ! i) = nc_id ?h"
    using hs(3) assms(6) by (auto simp: cell_fitted_def cell_pinned_def)
  let ?h' = "?h\<lparr>nc_pinned_cpus := nc_pinned_cpus ?h \<union> claimed_cpus ?h (cs ! i) d\<rparr>"
  have p: "pin_cpus ?h (claimed_cpus ?h (cs ! i) d) = Inr ?h'" using d(2) by (simp add: pin_cpus_Inr)
  then have "wf_cell ?h'" using pin_cpus_wf assms(2) h by blast
  then show ?thesis using h d(1,3) p
    by (intro bexI[OF _ h] conjI exI[of _ d] exI[of _ ?h'])
      (auto simp: pin_cpus_with_siblings_def claimed_cpus_def split: if_splits)
qed

theorem numa_fit_claimable_witness:
  "\<exists>h \<in> set demo_host. \<exists>h'. pin_cpus h {2, 3} = Inr h'"
proof -
  have "(0::nat) < length [demo_cell]" "ic_cpu_pinning_requested ([demo_cell] ! 0)"
    by (simp_all add: demo_cell_def ic_cpu_pinning_requested_def)
  note f = numa_fit_claimable[OF demo_wf demo_fit this]
  have "ic_cpu_thread_policy ([demo_cell] ! 0) \<noteq> Some ISOLATE" "snd ` set [(0::int, 2::int), (1, 3)] = {2, 3}"
      "ic_cpu_pinning ([demo_fitted] ! 0) = Some [(0, 2), (1, 3)]"
    by (simp_all add: demo_cell_def demo_fitted_def)
  then show ?thesis using f by (metis option.inject)
qed

text \<open>Claim C27. For an instance with at least one cell, without CPU pinning, without page sizes and
  without PCI requests the search is complete and never raises: it returns a topology exactly when
  the instance's cells can be placed on different host cells that are large enough and whose
  overcommit limits are kept. (With PCI requests a placement within the limits may be turned down for
  the devices.)\<close>

theorem numa_fit_complete:
  assumes "\<forall>c \<in> set cs. plain_cell c" and "cs \<noteq> []"
  shows "\<exists>res. snd (numa_fit_instance_to_host it host cs limits [] stats) = Inr res \<and>
    (res \<noteq> None \<longleftrightarrow> (\<exists>hs. mset hs \<subseteq># mset host \<and> list_all2 (has_room limits) hs cs))"
  by (rule fit_to_host_plain[OF assms])

theorem numa_fit_complete_witness:
  "\<exists>cells. snd (numa_fit_instance_to_host sorted_list_of_set demo_host [InstanceNUMACell 0 {0, 1} 256]
     None [] None) = Inr (Some cells)"
proof -
  have "\<forall>c \<in> set [InstanceNUMACell 0 {0, 1} 256]. plain_cell c"
    by (simp add: plain_cell_def InstanceNUMACell_def ic_cpu_pinning_requested_def)
  moreover have "mset demo_host \<subseteq># mset demo_host \<and>
      list_all2 (has_room None) demo_host [InstanceNUMACell 0 {0, 1} 256]"
    by (simp add: demo_host_def has_room_def within_limits_def InstanceNUMACell_def)
  ultimately show ?thesis
    using numa_fit_complete[of "[InstanceNUMACell 0 {0, 1} 256]" sorted_list_of_set demo_host None None]
    by (metis list.discI option.exhaust)
qed

text \<open>Claim C29. When \<open>_pack_instance_onto_cores\<close> finds a placement, the topology it gives the guest
  has exactly the cell's CPUs, and the CPUs that the guest sees as threads of one core are pinned
  within one of the host's sibling sets.\<close>

theorem packed_threads_share_core:
  assumes "set_order it" and "disjoint_sets_of avail" and "pinning_wf c"
    and "pack_instance_onto_cores it avail c hid tpc = Some c'"
  shows "\<exists>d t. ic_cpu_pinning c' = Some d \<and> ic_cpu_topology c' = Some t \<and>
    sockets t * cores t * threads t = int (card (ic_cpuset c)) \<and>
    (\<forall>g \<in> set (ic_siblings c'). \<exists>s \<in> set avail. \<forall>v \<in> g. \<exists>q \<in> s. (v, q) \<in> set d)"
  by (rule pack_topology[OF assms])

theorem packed_threads_share_core_witness:
  "\<exists>d t. ic_cpu_pinning demo_fitted = Some d \<and> ic_cpu_topology demo_fitted = Some t \<and>
    sockets t * cores t * threads t = 2"
proof -
  have "disjoint_sets_of [{1}, {2, 3}]" by (simp add: disjoint_sets_of_def)
  moreover have "pack_instance_onto_cores sorted_list_of_set [{1}, {2, 3}] demo_cell 0 2 = Some demo_fitted"
    by code_simp
  moreover have "pinning_wf demo_cell" "int (card (ic_cpuset demo_cell)) = 2"
    using demo_wf(3) by (simp_all add: demo_cell_def InstanceNUMACell_def)
  ultimately show ?thesis using packed_threads_share_core[OF demo_wf(1)] by metis
qed

definition pages_host :: "numa_cell list" where
  "pages_host =
     [\<lparr>nc_id = 0, nc_cpuset = {0, 1}, nc_memory = 2048, nc_cpu_usage = 0, nc_memory_usage = 0,
       nc_pinned_cpus = {}, nc_siblings = [], nc_mempages = [\<lparr>size_kb = 2048, total = 1000, used = 0\<rparr>]\<rparr>,
      \<lparr>nc_id = 1, nc_cpuset = {2, 3}, nc_memory = 2048, nc_cpu_usage = 0, nc_memory_usage = 0,
       nc_pinned_cpus = {}, nc_siblings = [], nc_mempages = [\<lparr>size_kb = 4, total = 65536, used = 0\<rparr>]\<rparr>]"

definition pages_cells :: "inst_cell list" where
  "pages_cells =
     [(InstanceNUMACell 0 {0} 128)\<lparr>ic_pagesize := Some MEMPAGES_ANY\<rparr>,
      (InstanceNUMACell 1 {1} 1024)\<lparr>ic_pagesize := Some MEMPAGES_ANY\<rparr>]"

text \<open>The search forgets the page size that was asked for: with \<open>any\<close> page size, the first
  permutation overwrites the request by the size found there, and the instance is refused although
  the second permutation fits every cell as it was requested.\<close>

theorem numa_fit_forgets_pagesize:
  "snd (numa_fit_instance_to_host sorted_list_of_set pages_host pages_cells None [] None) = Inr None \<and>
   list_all2 (\<lambda>h c. snd (numa_fit_instance_cell sorted_list_of_set h c None) = Inr True)
     (rev pages_host) pages_cells"
  by code_simp

end
