(* ===== verification/Numa_Usage.thy ===== *)
theory Numa_Usage
  imports Numa_Fit
begin

text \<open>
  The usage of a host's NUMA topology (\<open>_numa_pagesize_usage_from_cell\<close> and
  \<open>numa_usage_from_instances\<close> of \<open>nova/virt/hardware.py\<close>). Claiming and releasing host CPUs is
  stated as an interface, the locale \<open>accounting\<close>, and interpreted on the operations of
  \<open>NUMACell\<close>; the round trip of claiming and releasing the CPUs of a list of instances is proved
  in the locale.
\<close>

section \<open>Usage\<close>

definition numa_pagesize_usage_from_cell :: "numa_cell \<Rightarrow> inst_cell \<Rightarrow> int \<Rightarrow> numa_pages list" where
  "numa_pagesize_usage_from_cell hostcell instancecell sign =
     map (\<lambda>pages.
       if Some (size_kb pages) = ic_pagesize instancecell
       then pages\<lparr>used := max 0 (used pages + ic_memory instancecell * 1024 div size_kb pages * sign)\<rparr>
       else pages) (nc_mempages hostcell)"

text \<open>The four calls that pin or unpin CPUs.\<close>

definition claim_cpus :: "numa_cell \<Rightarrow> bool \<times> int set \<Rightarrow> numa_cell nova" where
  "claim_cpus c r = (if fst r then pin_cpus_with_siblings c (snd r) else pin_cpus c (snd r))"

definition release_cpus :: "numa_cell \<Rightarrow> bool \<times> int set \<Rightarrow> numa_cell nova" where
  "release_cpus c r = (if fst r then unpin_cpus_with_siblings c (snd r) else unpin_cpus c (snd r))"

record usage_state =
  us_memory :: int
  us_cpu :: int
  us_cell :: numa_cell

definition isolated :: "inst_cell \<Rightarrow> bool" where
  "isolated c \<longleftrightarrow> ic_cpu_thread_policy c = Some ISOLATE"

definition cpu_usage_diff :: "numa_cell \<Rightarrow> inst_cell \<Rightarrow> int" where
  "cpu_usage_diff hostcell c =
     (let n = int (card (ic_cpuset c))
      in if isolated c \<and> nc_siblings hostcell \<noteq> []
         then n * int (Max (set (map card (nc_siblings hostcell)))) else n)"

text \<open>The body of the loop over the cells of an instance; \<open>pinned\<close> is
  \<open>instance.cpu_pinning_requested\<close>. Reading \<open>values()\<close> of a cell that has no pinning raises.\<close>

definition usage_cell ::
  "bool \<Rightarrow> numa_cell \<Rightarrow> bool \<Rightarrow> usage_state \<Rightarrow> inst_cell \<Rightarrow> usage_state nova" where
  "usage_cell free hostcell pinned st c =
     (if ic_id c \<noteq> nc_id hostcell then Inr st
      else
        let sign = (if free then -1 else 1);
            st1 = st\<lparr>us_memory := us_memory st + sign * ic_memory c,
                     us_cpu := us_cpu st + sign * cpu_usage_diff hostcell c\<rparr>;
            st2 = (case ic_pagesize c of
                     None \<Rightarrow> st1
                   | Some p \<Rightarrow>
                       if p > 0
                       then st1\<lparr>us_cell := (us_cell st1)
                              \<lparr>nc_mempages := numa_pagesize_usage_from_cell hostcell c sign\<rparr>\<rparr>
                       else st1)
        in if \<not> pinned then Inr st2
           else (case ic_cpu_pinning c of
                   None \<Rightarrow> Inl PyAttributeError
                 | Some d \<Rightarrow>
                     let pinned_cpus = snd ` set d
                     in rbind (if free then release_cpus (us_cell st2) (isolated c, pinned_cpus)
                               else claim_cpus (us_cell st2) (isolated c, pinned_cpus)) (\<lambda>cell.
                          Inr (st2\<lparr>us_cell := cell\<rparr>))))"

definition usage_instance ::
  "bool \<Rightarrow> numa_cell \<Rightarrow> usage_state \<Rightarrow> inst_topology \<Rightarrow> usage_state nova" where
  "usage_instance free hostcell st inst =
     rbind (rfold (usage_cell free hostcell (it_cpu_pinning_requested inst)) st inst) (\<lambda>st.
       Inr (st\<lparr>us_cell := (us_cell st)\<lparr>nc_cpu_usage := max 0 (us_cpu st),
                                        nc_memory_usage := max 0 (us_memory st)\<rparr>\<rparr>))"

definition usage_hostcell :: "bool \<Rightarrow> inst_topology list \<Rightarrow> numa_cell \<Rightarrow> numa_cell nova" where
  "usage_hostcell free instances hostcell =
     (let newcell = hostcell\<lparr>nc_cpu_usage := 0, nc_memory_usage := 0\<rparr>
      in rbind (rfold (usage_instance free hostcell)
           \<lparr>us_memory = nc_memory_usage hostcell, us_cpu = nc_cpu_usage hostcell, us_cell = newcell\<rparr>
           instances) (\<lambda>st. Inr (us_cell st)))"

definition numa_usage_from_instances ::
  "numa_topology option \<Rightarrow> inst_topology list option \<Rightarrow> bool \<Rightarrow> numa_topology option nova" where
  "numa_usage_from_instances host instances free =
     (case host of
        None \<Rightarrow> Inr None
      | Some cells \<Rightarrow>
          rbind (rmap (usage_hostcell free (opt_or instances [])) cells) (\<lambda>cells. Inr (Some cells)))"

section \<open>Claiming and releasing, as an interface\<close>

locale accounting =
  fixes inv :: "'s \<Rightarrow> bool"
    and capacity :: "'s \<Rightarrow> 'u set"
    and used :: "'s \<Rightarrow> 'u set"
    and footprint :: "'s \<Rightarrow> 'r \<Rightarrow> 'u set"
    and claim :: "'s \<Rightarrow> 'r \<Rightarrow> ('e, 's) result"
    and release :: "'s \<Rightarrow> 'r \<Rightarrow> ('e, 's) result"
    and set_used :: "'s \<Rightarrow> 'u set \<Rightarrow> 's"
  assumes claim_Inr: "inv s \<Longrightarrow> claim s r = Inr s' \<longleftrightarrow>
      footprint s r \<subseteq> capacity s - used s \<and> s' = set_used s (used s \<union> footprint s r)"
    and release_Inr: "inv s \<Longrightarrow> release s r = Inr s' \<longleftrightarrow>
      footprint s r \<subseteq> capacity s \<inter> used s \<and> s' = set_used s (used s - footprint s r)"
    and set_used_inv: "inv s \<Longrightarrow> U \<subseteq> capacity s \<Longrightarrow> inv (set_used s U)"
    and set_used_frame: "used (set_used s U) = U" "capacity (set_used s U) = capacity s"
      "footprint (set_used s U) = footprint s"
    and set_used_again: "set_used (set_used s U) V = set_used s V" "set_used s (used s) = s"
    and inv_used: "inv s \<Longrightarrow> used s \<subseteq> capacity s"
begin

lemma claim_inv: "inv s \<Longrightarrow> claim s r = Inr s' \<Longrightarrow> inv s'"
  using inv_used by (auto simp: claim_Inr intro!: set_used_inv)

lemma release_inv: "inv s \<Longrightarrow> release s r = Inr s' \<Longrightarrow> inv s'"
  using inv_used by (auto simp: release_Inr intro!: set_used_inv)

lemma claim_all_Inr:
  "inv s \<Longrightarrow> rfold claim s rs = Inr s' \<longleftrightarrow>
     (\<forall>r \<in> set rs. footprint s r \<subseteq> capacity s - used s) \<and>
     sorted_wrt (\<lambda>q r. footprint s q \<inter> footprint s r = {}) rs \<and>
     s' = set_used s (used s \<union> (\<Union>r \<in> set rs. footprint s r))"
proof (induction rs arbitrary: s)
  case (Cons r rs)
  let ?t = "set_used s (used s \<union> footprint s r)"
  show ?case
  proof (cases "footprint s r \<subseteq> capacity s - used s")
    case True
    then have c: "claim s r = Inr ?t" using Cons.prems by (simp add: claim_Inr)
    have "rfold claim s (r # rs) = rfold claim ?t rs" by (simp add: c rbind_def)
    then show ?thesis
      using Cons.IH[OF claim_inv[OF Cons.prems c]] True
      by (simp add: set_used_frame set_used_again Un_assoc) blast
  next
    case False
    then have "claim s r \<noteq> Inr t" for t using Cons.prems by (simp add: claim_Inr)
    then show ?thesis using False by (simp add: rbind_eq_Inr)
  qed
qed (auto simp: set_used_again)

lemma release_all_Inr:
  "inv s \<Longrightarrow> \<forall>r \<in> set rs. footprint s r \<subseteq> capacity s \<inter> used s \<Longrightarrow>
   sorted_wrt (\<lambda>q r. footprint s q \<inter> footprint s r = {}) rs \<Longrightarrow>
   rfold release s rs = Inr (set_used s (used s - (\<Union>r \<in> set rs. footprint s r)))"
proof (induction rs arbitrary: s)
  case (Cons r rs)
  let ?t = "set_used s (used s - footprint s r)"
  have c: "release s r = Inr ?t" using Cons.prems by (simp add: release_Inr)
  have "\<forall>q \<in> set rs. footprint ?t q \<subseteq> capacity ?t \<inter> used ?t"
    using Cons.prems(2,3) by (auto simp: set_used_frame)
  moreover have "sorted_wrt (\<lambda>q r. footprint ?t q \<inter> footprint ?t r = {}) rs"
    using Cons.prems(3) by (simp add: set_used_frame)
  ultimately have "rfold release ?t rs = Inr (set_used ?t (used ?t - (\<Union>r \<in> set rs. footprint ?t r)))"
    by (rule Cons.IH[OF release_inv[OF Cons.prems(1) c]])
  then show ?case by (simp add: c set_used_frame set_used_again rbind_def Diff_Diff_Int set_diff_eq)
qed (simp add: set_used_again)

text \<open>What was claimed can be released, and the state is the old one.\<close>

lemma claim_release:
  assumes "inv s" "rfold claim s rs = Inr s'"
  shows "rfold release s' rs = Inr s"
proof -
  let ?F = "\<Union>r \<in> set rs. footprint s r"
  have c: "\<forall>r \<in> set rs. footprint s r \<subseteq> capacity s - used s"
      "sorted_wrt (\<lambda>q r. footprint s q \<inter> footprint s r = {}) rs"
      "s' = set_used s (used s \<union> ?F)"
    using claim_all_Inr[OF assms(1)] assms(2) by blast+
  have "inv s'" using assms(1) c(1) inv_used[OF assms(1)] by (auto simp: c(3) intro!: set_used_inv)
  moreover have "\<forall>r \<in> set rs. footprint s' r \<subseteq> capacity s' \<inter> used s'"
    using c(1) by (auto simp: c(3) set_used_frame)
  moreover have "sorted_wrt (\<lambda>q r. footprint s' q \<inter> footprint s' r = {}) rs"
    using c(2) by (simp add: c(3) set_used_frame)
  ultimately have "rfold release s' rs = Inr (set_used s' (used s' - (\<Union>r \<in> set rs. footprint s' r)))"
    by (rule release_all_Inr)
  moreover have "used s' - (\<Union>r \<in> set rs. footprint s' r) = used s"
    using c(1) by (auto simp: c(3) set_used_frame)
  ultimately show ?thesis by (simp add: c(3) set_used_again)
qed

end

definition claim_footprint :: "numa_cell \<Rightarrow> bool \<times> int set \<Rightarrow> int set" where
  "claim_footprint c r = (if fst r then pin_siblings c (snd r) else snd r)"

definition set_pinned :: "numa_cell \<Rightarrow> int set \<Rightarrow> numa_cell" where
  "set_pinned c U = c\<lparr>nc_pinned_cpus := U\<rparr>"

lemma claim_footprint_set_pinned: "claim_footprint (set_pinned c U) = claim_footprint c"
  by (simp add: fun_eq_iff claim_footprint_def set_pinned_def pin_siblings_eq)

interpretation cpus: accounting wf_cell nc_cpuset nc_pinned_cpus claim_footprint claim_cpus
    release_cpus set_pinned
  by unfold_locales
    (auto simp: claim_cpus_def release_cpus_def claim_footprint_def pin_cpus_with_siblings_def
      unpin_cpus_with_siblings_def pin_cpus_Inr unpin_cpus_Inr free_cpus_def set_pinned_def wf_cell_def
      claim_footprint_set_pinned[unfolded set_pinned_def])

interpretation single: accounting wf_cell nc_cpuset nc_pinned_cpus "\<lambda>_ cpus. cpus" pin_cpus
    unpin_cpus set_pinned
  by unfold_locales (auto simp: pin_cpus_Inr unpin_cpus_Inr free_cpus_def set_pinned_def wf_cell_def)

section \<open>The accounting behind the usage\<close>

text \<open>The usage without the page counts and the fields that are set at the end: memory, CPUs and
  the host cell with its pinned CPUs.\<close>

definition cpu_view :: "numa_cell \<Rightarrow> numa_cell" where
  "cpu_view c = c\<lparr>nc_mempages := [], nc_cpu_usage := 0, nc_memory_usage := 0\<rparr>"

definition usage_abs :: "usage_state \<Rightarrow> int \<times> int \<times> numa_cell" where
  "usage_abs st = (us_memory st, us_cpu st, cpu_view (us_cell st))"

definition account_op :: "bool \<Rightarrow> numa_cell \<Rightarrow> bool \<times> int set \<Rightarrow> numa_cell nova" where
  "account_op free = (if free then release_cpus else claim_cpus)"

definition sign_of :: "bool \<Rightarrow> int" where
  "sign_of free = (if free then -1 else 1)"

definition account_cell ::
  "bool \<Rightarrow> numa_cell \<Rightarrow> int \<times> int \<times> numa_cell \<Rightarrow> bool \<times> inst_cell \<Rightarrow> (int \<times> int \<times> numa_cell) nova" where
  "account_cell free h a pc =
     (let (m, k, v) = a; (pinned, c) = pc
      in if ic_id c \<noteq> nc_id h then Inr a
         else let m' = m + sign_of free * ic_memory c; k' = k + sign_of free * cpu_usage_diff h c
              in if \<not> pinned then Inr (m', k', v)
                 else (case ic_cpu_pinning c of
                         None \<Rightarrow> Inl PyAttributeError
                       | Some d \<Rightarrow> rbind (account_op free v (isolated c, snd ` set d)) (\<lambda>v.
                           Inr (m', k', v))))"

lemma account_op_view:
  "map_sum id cpu_view (account_op free c r) = account_op free (cpu_view c) r"
  by (auto simp: account_op_def claim_cpus_def release_cpus_def pin_cpus_with_siblings_def
    unpin_cpus_with_siblings_def pin_siblings_eq pin_cpus_def unpin_cpus_def cpu_view_def)

lemma account_op_frame:
  "account_op free (c\<lparr>nc_mempages := mp\<rparr>) r =
     map_sum id (\<lambda>c'. c'\<lparr>nc_mempages := mp\<rparr>) (account_op free c r)"
  by (auto simp: account_op_def claim_cpus_def release_cpus_def pin_cpus_with_siblings_def
    unpin_cpus_with_siblings_def pin_siblings_eq pin_cpus_def unpin_cpus_def)

lemma usage_cell_account:
  "map_sum id usage_abs (usage_cell free h pinned st c) = account_cell free h (usage_abs st) (pinned, c)"
proof -
  have v: "cpu_view (x\<lparr>nc_mempages := mp\<rparr>) = cpu_view x" for x mp by (simp add: cpu_view_def)
  have b: "map_sum id usage_abs (rbind (account_op fr x r)
        (\<lambda>cell. Inr (st\<lparr>us_memory := m, us_cpu := k, us_cell := cell\<rparr>))) =
      rbind (account_op fr (cpu_view x) r) (\<lambda>v. Inr (m, k, v))" for fr x r m k
    unfolding account_op_view[symmetric]
    by (cases "account_op fr x r") (simp_all add: rbind_def usage_abs_def)
  have op: "(if free then release_cpus x r else claim_cpus x r) = account_op free x r" for x r
    by (simp add: account_op_def)
  show ?thesis
    unfolding usage_cell_def account_cell_def Let_def op
    by (auto simp: b v sign_of_def usage_abs_def split: option.splits)
qed

lemma rfold_abs:
  assumes "\<And>s x. map_sum id ab (f s x) = g (ab s) (h x)"
  shows "map_sum id ab (rfold f s xs) = rfold g (ab s) (map h xs)"
proof (induction xs arbitrary: s)
  case (Cons x xs)
  show ?case
    using Cons.IH assms[of s x, symmetric] by (cases "f s x") (simp_all add: rbind_def)
qed simp

lemma rfold_concat: "rfold (\<lambda>s. rfold f s) s xss = rfold f s (concat xss)"
  by (induction xss arbitrary: s) (simp_all add: rfold_append)

definition account_items :: "inst_topology list \<Rightarrow> (bool \<times> inst_cell) list" where
  "account_items insts = concat (map (\<lambda>i. map (Pair (it_cpu_pinning_requested i)) i) insts)"

lemma usage_instance_account:
  "map_sum id usage_abs (usage_instance free h st inst) =
     rfold (account_cell free h) (usage_abs st) (map (Pair (it_cpu_pinning_requested inst)) inst)"
proof -
  let ?f = "usage_cell free h (it_cpu_pinning_requested inst)"
  have "map_sum id usage_abs (usage_instance free h st inst) = map_sum id usage_abs (rfold ?f st inst)"
    by (cases "rfold ?f st inst") (simp_all add: usage_instance_def rbind_def usage_abs_def cpu_view_def)
  then show ?thesis
    using rfold_abs[of usage_abs ?f "account_cell free h" "Pair (it_cpu_pinning_requested inst)"]
      usage_cell_account by simp
qed

lemma usage_instances_account:
  "map_sum id usage_abs (rfold (usage_instance free h) st insts) =
     rfold (account_cell free h) (usage_abs st) (account_items insts)"
  unfolding account_items_def rfold_concat[symmetric]
  by (rule rfold_abs) (rule usage_instance_account)

text \<open>What the items that are on the host cell ask for.\<close>

abbreviation on_cell :: "numa_cell \<Rightarrow> (bool \<times> inst_cell) list \<Rightarrow> (bool \<times> inst_cell) list" where
  "on_cell h items \<equiv> filter (\<lambda>(_, c). ic_id c = nc_id h) items"

definition item_claims :: "numa_cell \<Rightarrow> (bool \<times> inst_cell) list \<Rightarrow> (bool \<times> int set) list" where
  "item_claims h items =
     map (\<lambda>(_, c). (isolated c, snd ` set (the (ic_cpu_pinning c)))) (filter fst (on_cell h items))"

definition items_pinned :: "numa_cell \<Rightarrow> (bool \<times> inst_cell) list \<Rightarrow> bool" where
  "items_pinned h items \<longleftrightarrow> (\<forall>(pinned, c) \<in> set (on_cell h items). pinned \<longrightarrow> ic_cpu_pinning c \<noteq> None)"

definition item_memory :: "numa_cell \<Rightarrow> (bool \<times> inst_cell) list \<Rightarrow> int" where
  "item_memory h items = sum_list (map (\<lambda>(_, c). ic_memory c) (on_cell h items))"

definition item_cpus :: "numa_cell \<Rightarrow> (bool \<times> inst_cell) list \<Rightarrow> int" where
  "item_cpus h items = sum_list (map (\<lambda>(_, c). cpu_usage_diff h c) (on_cell h items))"

lemma account_items_Inr:
  "rfold (account_cell free h) (m, k, v) items = Inr (m', k', v') \<longleftrightarrow>
     items_pinned h items \<and> rfold (account_op free) v (item_claims h items) = Inr v' \<and>
     m' = m + sign_of free * item_memory h items \<and> k' = k + sign_of free * item_cpus h items"
proof (induction items arbitrary: m k v)
  case Nil
  show ?case by (auto simp: items_pinned_def item_claims_def item_memory_def item_cpus_def)
next
  case (Cons pc items)
  obtain p c where pc: "pc = (p, c)" by (cases pc)
  show ?case
  proof (cases "ic_id c = nc_id h")
    case False
    have "account_cell free h (m, k, v) pc = Inr (m, k, v)" using False by (simp add: pc account_cell_def)
    moreover have "on_cell h (pc # items) = on_cell h items" using False by (simp add: pc)
    ultimately show ?thesis using Cons.IH
      by (simp add: items_pinned_def item_claims_def item_memory_def item_cpus_def)
  next
    case on: True
    have defs: "item_memory h (pc # items) = ic_memory c + item_memory h items"
        "item_cpus h (pc # items) = cpu_usage_diff h c + item_cpus h items"
        "items_pinned h (pc # items) \<longleftrightarrow> (p \<longrightarrow> ic_cpu_pinning c \<noteq> None) \<and> items_pinned h items"
        "item_claims h (pc # items) =
          (if p then (isolated c, snd ` set (the (ic_cpu_pinning c))) # item_claims h items
           else item_claims h items)"
      using on by (simp_all add: pc item_memory_def item_cpus_def items_pinned_def item_claims_def)
    let ?m = "m + sign_of free * ic_memory c" and ?k = "k + sign_of free * cpu_usage_diff h c"
    have sums: "?m + sign_of free * item_memory h items = m + sign_of free * item_memory h (pc # items)"
        "?k + sign_of free * item_cpus h items = k + sign_of free * item_cpus h (pc # items)"
      by (simp_all add: defs algebra_simps)
    have step: "account_cell free h (m, k, v) pc =
        (if \<not> p then Inr (?m, ?k, v)
         else case ic_cpu_pinning c of None \<Rightarrow> Inl PyAttributeError
           | Some d \<Rightarrow> rbind (account_op free v (isolated c, snd ` set d)) (\<lambda>v. Inr (?m, ?k, v)))"
      using on by (simp add: pc account_cell_def)
    consider (unpinned) "\<not> p" | (no) "p" "ic_cpu_pinning c = None"
      | (yes) d where "p" "ic_cpu_pinning c = Some d" by auto
    then show ?thesis
    proof cases
      case unpinned
      then have "account_cell free h (m, k, v) pc = Inr (?m, ?k, v)" by (simp add: step)
      then show ?thesis using unpinned Cons.IH[of ?m ?k v] sums by (simp add: defs(3,4))
    next
      case no
      then show ?thesis by (simp add: step defs(3))
    next
      case yes
      show ?thesis
      proof (cases "account_op free v (isolated c, snd ` set d)")
        case (Inl e)
        then show ?thesis using yes by (simp add: step defs(4))
      next
        case (Inr w)
        then have "account_cell free h (m, k, v) pc = Inr (?m, ?k, w)" using yes by (simp add: step)
        then show ?thesis using yes Inr Cons.IH[of ?m ?k w] sums by (simp add: defs(3,4))
      qed
    qed
  qed
qed

lemma usage_last_instance:
  assumes "insts \<noteq> []" "rfold (usage_instance free h) st insts = Inr st'"
  shows "nc_memory_usage (us_cell st') = max 0 (us_memory st') \<and>
    nc_cpu_usage (us_cell st') = max 0 (us_cpu st')"
proof -
  obtain xs x where "insts = xs @ [x]" using assms(1) by (metis append_butlast_last_id)
  then show ?thesis using assms(2)
    by (auto simp: rfold_append rbind_eq_Inr usage_instance_def)
qed

abbreviation usage_start :: "numa_cell \<Rightarrow> usage_state" where
  "usage_start h \<equiv> \<lparr>us_memory = nc_memory_usage h, us_cpu = nc_cpu_usage h,
     us_cell = h\<lparr>nc_cpu_usage := 0, nc_memory_usage := 0\<rparr>\<rparr>"

lemma usage_abs_start:
  "usage_abs (usage_start h) = (nc_memory_usage h, nc_cpu_usage h, cpu_view h)"
  by (simp add: usage_abs_def cpu_view_def)

lemma map_sum_Inr: "map_sum id f x = Inr y \<longleftrightarrow> (\<exists>z. x = Inr z \<and> f z = y)"
  by (cases x) auto

lemma usage_hostcell_Inr:
  assumes "insts \<noteq> []" "usage_hostcell free insts h = Inr c'"
  shows "items_pinned h (account_items insts) \<and>
    rfold (account_op free) (cpu_view h) (item_claims h (account_items insts)) = Inr (cpu_view c') \<and>
    nc_memory_usage c' = max 0 (nc_memory_usage h + sign_of free * item_memory h (account_items insts)) \<and>
    nc_cpu_usage c' = max 0 (nc_cpu_usage h + sign_of free * item_cpus h (account_items insts))"
proof -
  obtain st' where st: "rfold (usage_instance free h) (usage_start h) insts = Inr st'" "c' = us_cell st'"
    using assms(2) by (auto simp: usage_hostcell_def Let_def rbind_eq_Inr)
  have "rfold (account_cell free h) (nc_memory_usage h, nc_cpu_usage h, cpu_view h) (account_items insts)
      = Inr (usage_abs st')"
    using usage_instances_account[of free h "usage_start h" insts] st(1) by (simp add: usage_abs_start)
  then show ?thesis
    using usage_last_instance[OF assms(1) st(1)] st(2) unfolding usage_abs_def account_items_Inr by simp
qed

lemma usage_hostcell_total:
  assumes "items_pinned h (account_items insts)"
    and "rfold (account_op free) (cpu_view h) (item_claims h (account_items insts)) = Inr v"
  shows "\<exists>c'. usage_hostcell free insts h = Inr c'"
proof -
  have "rfold (account_cell free h) (usage_abs (usage_start h)) (account_items insts) =
      Inr (nc_memory_usage h + sign_of free * item_memory h (account_items insts),
           nc_cpu_usage h + sign_of free * item_cpus h (account_items insts), v)"
    using assms by (simp only: usage_abs_start account_items_Inr)
  then obtain st' where "rfold (usage_instance free h) (usage_start h) insts = Inr st'"
    unfolding usage_instances_account[symmetric] map_sum_Inr by blast
  then show ?thesis by (simp add: usage_hostcell_def)
qed

lemma cpu_view_wf [simp]: "wf_cell (cpu_view h) = wf_cell h"
  by (simp add: wf_cell_def cpu_view_def)

lemma account_op_cases: "account_op False = claim_cpus" "account_op True = release_cpus"
  by (simp_all add: account_op_def)

lemma cpu_view_frame:
  assumes "cpu_view c' = set_pinned (cpu_view h) U"
  shows "nc_id c' = nc_id h" "nc_cpuset c' = nc_cpuset h" "nc_memory c' = nc_memory h"
    "nc_siblings c' = nc_siblings h" "nc_pinned_cpus c' = U"
  using assms by (auto simp: cpu_view_def set_pinned_def dest: arg_cong[where f = nc_id]
    arg_cong[where f = nc_cpuset] arg_cong[where f = nc_memory] arg_cong[where f = nc_siblings]
    arg_cong[where f = nc_pinned_cpus])

lemma item_frame:
  assumes "nc_id c' = nc_id h" "nc_siblings c' = nc_siblings h"
  shows "item_claims c' items = item_claims h items" "items_pinned c' items = items_pinned h items"
    "item_memory c' items = item_memory h items" "item_cpus c' items = item_cpus h items"
proof -
  have "cpu_usage_diff c' = cpu_usage_diff h"
    using assms(2) by (simp add: fun_eq_iff cpu_usage_diff_def Let_def)
  then show "item_claims c' items = item_claims h items" "items_pinned c' items = items_pinned h items"
    "item_memory c' items = item_memory h items" "item_cpus c' items = item_cpus h items"
    using assms(1) by (simp_all add: item_claims_def items_pinned_def item_memory_def item_cpus_def)
qed

lemma usage_claim:
  assumes "insts \<noteq> []" "wf_cell h" "usage_hostcell False insts h = Inr c'"
  shows "cpu_view c' = set_pinned (cpu_view h) (nc_pinned_cpus h \<union>
      (\<Union>r \<in> set (item_claims h (account_items insts)). claim_footprint h r)) \<and>
    (\<forall>r \<in> set (item_claims h (account_items insts)). claim_footprint h r \<subseteq> free_cpus h) \<and>
    sorted_wrt (\<lambda>q r. claim_footprint h q \<inter> claim_footprint h r = {})
      (item_claims h (account_items insts))"
proof -
  have "rfold claim_cpus (cpu_view h) (item_claims h (account_items insts)) = Inr (cpu_view c')"
    using usage_hostcell_Inr[OF assms(1,3)] by (simp add: account_op_cases)
  moreover have "claim_footprint (cpu_view h) = claim_footprint h" "nc_pinned_cpus (cpu_view h) = nc_pinned_cpus h"
      "nc_cpuset (cpu_view h) = nc_cpuset h"
    by (auto simp: fun_eq_iff claim_footprint_def pin_siblings_eq cpu_view_def)
  moreover have "wf_cell (cpu_view h)" using assms(2) by simp
  ultimately show ?thesis by (simp add: cpus.claim_all_Inr free_cpus_def)
qed

text \<open>Using and then freeing, on one host cell.\<close>

lemma usage_release:
  assumes "insts \<noteq> []" "wf_cell h" "usage_hostcell False insts h = Inr c'"
  shows "\<exists>c''. usage_hostcell True insts c' = Inr c'' \<and> cpu_view c'' = cpu_view h \<and>
    nc_memory_usage c'' = max 0 (nc_memory_usage c' - item_memory h (account_items insts)) \<and>
    nc_cpu_usage c'' = max 0 (nc_cpu_usage c' - item_cpus h (account_items insts))"
proof -
  let ?items = "account_items insts"
  note u = usage_hostcell_Inr[OF assms(1,3)]
  have fold: "rfold claim_cpus (cpu_view h) (item_claims h ?items) = Inr (cpu_view c')"
    using u by (simp add: account_op_cases)
  have undo: "rfold (account_op True) (cpu_view c') (item_claims h ?items) = Inr (cpu_view h)"
    using cpus.claim_release[OF _ fold] assms(2) by (simp add: account_op_cases)
  note fr = cpu_view_frame[OF usage_claim[OF assms, THEN conjunct1]]
  note it = item_frame[OF fr(1,4), of ?items]
  obtain c'' where c'': "usage_hostcell True insts c' = Inr c''"
    using usage_hostcell_total[of c' insts True] u undo it by auto
  show ?thesis
    using usage_hostcell_Inr[OF assms(1) c''] undo c'' by (simp add: it sign_of_def)
qed

section \<open>Properties\<close>

text \<open>Claim C28. When \<open>numa_usage_from_instances\<close> counts at least one instance on a host (it is not
  called to free, and the host's own cells are consistent), it succeeds only when the CPUs that the
  pinned cells of the instances claim are free and pairwise disjoint; every host cell then has exactly
  these CPUs pinned in addition, its memory and CPU usage grown by what the cells placed on it take
  (never below 0), and its id, CPUs, memory and siblings unchanged. Page counts are not part of the
  claim. Without instances the code does something else: it resets the CPU and memory usage to 0.\<close>

theorem numa_usage_accounts:
  assumes "numa_usage_from_instances (Some host) (Some insts) False = Inr (Some cells)"
    and "insts \<noteq> []" and "\<forall>h \<in> set host. wf_cell h"
  shows "list_all2 (\<lambda>h c'.
    nc_id c' = nc_id h \<and> nc_cpuset c' = nc_cpuset h \<and> nc_memory c' = nc_memory h \<and>
    nc_siblings c' = nc_siblings h \<and>
    nc_pinned_cpus c' = nc_pinned_cpus h \<union>
      (\<Union>r \<in> set (item_claims h (account_items insts)). claim_footprint h r) \<and>
    (\<forall>r \<in> set (item_claims h (account_items insts)). claim_footprint h r \<subseteq> free_cpus h) \<and>
    sorted_wrt (\<lambda>q r. claim_footprint h q \<inter> claim_footprint h r = {})
      (item_claims h (account_items insts)) \<and>
    nc_memory_usage c' = max 0 (nc_memory_usage h + item_memory h (account_items insts)) \<and>
    nc_cpu_usage c' = max 0 (nc_cpu_usage h + item_cpus h (account_items insts))) host cells"
proof -
  have "list_all2 (\<lambda>h c'. usage_hostcell False insts h = Inr c') host cells"
    using assms(1) by (auto simp: numa_usage_from_instances_def rbind_eq_Inr rmap_Inr_iff)
  then show ?thesis
  proof (rule list.rel_mono_strong)
    fix h c' assume h: "h \<in> set host" "usage_hostcell False insts h = Inr c'"
    note c = usage_claim[OF assms(2) bspec[OF assms(3) h(1)] h(2)]
    show "nc_id c' = nc_id h \<and> nc_cpuset c' = nc_cpuset h \<and> nc_memory c' = nc_memory h \<and>
      nc_siblings c' = nc_siblings h \<and>
      nc_pinned_cpus c' = nc_pinned_cpus h \<union>
        (\<Union>r \<in> set (item_claims h (account_items insts)). claim_footprint h r) \<and>
      (\<forall>r \<in> set (item_claims h (account_items insts)). claim_footprint h r \<subseteq> free_cpus h) \<and>
      sorted_wrt (\<lambda>q r. claim_footprint h q \<inter> claim_footprint h r = {})
        (item_claims h (account_items insts)) \<and>
      nc_memory_usage c' = max 0 (nc_memory_usage h + item_memory h (account_items insts)) \<and>
      nc_cpu_usage c' = max 0 (nc_cpu_usage h + item_cpus h (account_items insts))"
      using cpu_view_frame[OF c[THEN conjunct1]] c usage_hostcell_Inr[OF assms(2) h(2)]
      by (simp add: sign_of_def)
  qed
qed

lemma usage_topology_total:
  assumes "list_all2 (\<lambda>h c'. \<exists>c''. usage_hostcell free insts h = Inr c'' \<and> P c'' c') hs cs"
  shows "\<exists>cells. numa_usage_from_instances (Some hs) (Some insts) free = Inr (Some cells) \<and>
    list_all2 P cells cs"
proof -
  have "\<exists>cells. list_all2 (\<lambda>h c''. usage_hostcell free insts h = Inr c'') hs cells \<and> list_all2 P cells cs"
    using assms by (induction hs cs) (auto intro: list_all2_Cons[THEN iffD2])
  then show ?thesis by (auto simp: numa_usage_from_instances_def rmap_Inr_iff[symmetric])
qed

definition demo_usage_host :: "numa_cell list" where
  "demo_usage_host =
     [\<lparr>nc_id = 0, nc_cpuset = {0, 1, 2, 3}, nc_memory = 512, nc_cpu_usage = 1, nc_memory_usage = 64,
       nc_pinned_cpus = {0}, nc_siblings = [], nc_mempages = []\<rparr>]"

definition demo_used_host :: "numa_cell list" where
  "demo_used_host =
     [\<lparr>nc_id = 0, nc_cpuset = {0, 1, 2, 3}, nc_memory = 512, nc_cpu_usage = 3, nc_memory_usage = 320,
       nc_pinned_cpus = {0, 2, 3}, nc_siblings = [], nc_mempages = []\<rparr>]"

lemma demo_usage_wf: "\<forall>h \<in> set demo_usage_host. wf_cell h"
  by (simp add: demo_usage_host_def wf_cell_def)

lemma demo_usage:
  "numa_usage_from_instances (Some demo_usage_host) (Some [[demo_fitted]]) False = Inr (Some demo_used_host)"
  by code_simp

theorem numa_usage_accounts_witness:
  "list_all2 (\<lambda>h c'. nc_memory_usage c' =
     max 0 (nc_memory_usage h + item_memory h (account_items [[demo_fitted]]))) demo_usage_host demo_used_host"
  using numa_usage_accounts[OF demo_usage _ demo_usage_wf] by (auto elim: list_all2_mono)

text \<open>Claim C24. Freeing what was used gives the old usage back, page counts aside: when
  \<open>numa_usage_from_instances\<close> has counted at least one instance, none with negative memory, on a host whose cells are consistent
  and whose usage is not negative, the same call with \<open>free\<close> on its result succeeds, and every host
  cell it returns is the old one in everything but the list of page sizes. The page counts do not come
  back in general, since the code takes the pages of the last instance cell only; and without
  instances nothing comes back, since the code then resets the usage to 0.\<close>

theorem numa_usage_free_roundtrip:
  assumes u: "numa_usage_from_instances (Some host) (Some insts) False = Inr (Some cells)"
    and ne: "insts \<noteq> []" and wf: "\<forall>h \<in> set host. wf_cell h"
    and pos: "\<forall>h \<in> set host. 0 \<le> nc_memory_usage h \<and> 0 \<le> nc_cpu_usage h"
    "\<forall>inst \<in> set insts. \<forall>c \<in> set inst. 0 \<le> ic_memory c"
  shows "\<exists>cells'. numa_usage_from_instances (Some cells) (Some insts) True = Inr (Some cells') \<and>
    list_all2 (\<lambda>c' h. c'\<lparr>nc_mempages := []\<rparr> = h\<lparr>nc_mempages := []\<rparr>) cells' host"
proof (rule usage_topology_total)
  have "list_all2 (\<lambda>h c. usage_hostcell False insts h = Inr c) host cells"
    using u by (auto simp: numa_usage_from_instances_def rbind_eq_Inr rmap_Inr_iff)
  then have "list_all2 (\<lambda>h c. \<exists>c''. usage_hostcell True insts c = Inr c'' \<and>
      c''\<lparr>nc_mempages := []\<rparr> = h\<lparr>nc_mempages := []\<rparr>) host cells"
  proof (rule list.rel_mono_strong)
    fix h c assume h: "h \<in> set host" "usage_hostcell False insts h = Inr c"
    have items: "0 \<le> item_memory h (account_items insts)" "0 \<le> item_cpus h (account_items insts)"
      using pos(2) by (auto simp: item_memory_def item_cpus_def account_items_def cpu_usage_diff_def Let_def
        intro!: sum_list_nonneg)
    obtain c'' where c: "usage_hostcell True insts c = Inr c''" "cpu_view c'' = cpu_view h"
        "nc_memory_usage c'' = max 0 (nc_memory_usage c - item_memory h (account_items insts))"
        "nc_cpu_usage c'' = max 0 (nc_cpu_usage c - item_cpus h (account_items insts))"
      using usage_release[OF ne bspec[OF wf h(1)] h(2)] by blast
    moreover have "nc_memory_usage c'' = nc_memory_usage h" "nc_cpu_usage c'' = nc_cpu_usage h"
      using usage_hostcell_Inr[OF ne h(2)] c(3,4) pos(1) h(1) items by (auto simp: sign_of_def)
    moreover have "x\<lparr>nc_mempages := []\<rparr> = (cpu_view x)\<lparr>nc_cpu_usage := nc_cpu_usage x,
        nc_memory_usage := nc_memory_usage x\<rparr>" for x by (simp add: cpu_view_def)
    ultimately show "\<exists>c''. usage_hostcell True insts c = Inr c'' \<and>
        c''\<lparr>nc_mempages := []\<rparr> = h\<lparr>nc_mempages := []\<rparr>" by auto
  qed
  then show "list_all2 (\<lambda>c h. \<exists>c''. usage_hostcell True insts c = Inr c'' \<and>
      c''\<lparr>nc_mempages := []\<rparr> = h\<lparr>nc_mempages := []\<rparr>) cells host"
    by (simp add: list_all2_conv_all_nth)
qed

theorem numa_usage_free_roundtrip_witness:
  "\<exists>cells'. numa_usage_from_instances (Some demo_used_host) (Some [[demo_fitted]]) True = Inr (Some cells')"
  using numa_usage_free_roundtrip[OF demo_usage _ demo_usage_wf]
  by (auto simp: demo_usage_host_def demo_fitted_def demo_cell_def InstanceNUMACell_def)

definition pages_used_host :: "numa_cell list" where
  "pages_used_host = [(hd pages_host)\<lparr>nc_cpuset := {0, 1, 2, 3}\<rparr>]"

definition page_instance :: "int \<Rightarrow> inst_topology" where
  "page_instance i = [(InstanceNUMACell 0 {i} 256)\<lparr>ic_pagesize := Some 2048, ic_cpu_policy := Some SHARED\<rparr>]"

text \<open>The huge pages are counted from the host cell and not from the new cell, so only the
  last cell counts: after two instances that take 256 MB each in 2 MB pages, 128 pages are reported
  as used instead of 256.\<close>

theorem numa_usage_last_pages_only:
  "\<exists>cell. numa_usage_from_instances (Some pages_used_host) (Some [page_instance 0, page_instance 1]) False
      = Inr (Some [cell]) \<and>
    nc_memory_usage cell = 512 \<and> map used (nc_mempages cell) = [128]"
  by (rule exI[of _ "(hd pages_used_host)\<lparr>nc_memory_usage := 512, nc_cpu_usage := 2,
    nc_mempages := [\<lparr>size_kb = 2048, total = 1000, used = 128\<rparr>]\<rparr>"]) code_simp

text \<open>With no instances the call does not return the host's usage but resets it: the CPU
  and memory usage of every cell is zero, while its pinned CPUs and pages are kept.\<close>

theorem numa_usage_without_instances:
  "numa_usage_from_instances (Some host) (Some []) free =
     Inr (Some (map (\<lambda>h. h\<lparr>nc_cpu_usage := 0, nc_memory_usage := 0\<rparr>) host))"
proof -
  have "rmap (usage_hostcell free []) host =
      Inr (map (\<lambda>h. h\<lparr>nc_cpu_usage := 0, nc_memory_usage := 0\<rparr>) host)"
    by (induction host) (simp_all add: usage_hostcell_def)
  then show ?thesis by (simp add: numa_usage_from_instances_def)
qed

definition isolate_cell :: inst_cell where
  "isolate_cell = (InstanceNUMACell 0 {0} 128)
     \<lparr>ic_cpu_policy := Some DEDICATED, ic_cpu_thread_policy := Some ISOLATE\<rparr>"

definition fit_on :: "numa_cell list \<Rightarrow> inst_cell \<Rightarrow> inst_topology" where
  "fit_on host c = (case snd (numa_fit_instance_to_host sorted_list_of_set host [c] None [] None) of
     Inr (Some cells) \<Rightarrow> cells | _ \<Rightarrow> [])"

text \<open>On a host without hyperthreads the \<open>isolate\<close> policy does not reserve CPUs: the usage
  call pins with the siblings of the CPUs, of which there are none, so a second instance is fitted
  onto the CPU the first one is pinned to.\<close>

theorem isolate_without_siblings_shares_cpus:
  "\<exists>used_host. numa_usage_from_instances (Some demo_usage_host)
      (Some [fit_on demo_usage_host isolate_cell]) False = Inr (Some used_host) \<and>
    map ic_cpu_pinning (fit_on demo_usage_host isolate_cell) = [Some [(0, 1)]] \<and>
    map ic_cpu_pinning (fit_on used_host isolate_cell) = [Some [(0, 1)]]"
  by (rule exI[of _ "[(hd demo_usage_host)\<lparr>nc_memory_usage := 192, nc_cpu_usage := 2\<rparr>]"]) code_simp

end
