(* ===== verification/Numa_Constraints.thy ===== *)
theory Numa_Constraints
  imports Numa_Usage
begin

text \<open>
  The NUMA topology that a flavor and an image ask for: \<open>numa_get_constraints\<close> of
  \<open>nova/virt/hardware.py\<close> and its helpers, with \<open>oslo_utils.strutils.string_to_bytes\<close>. Page
  sizes with a unit are exact rationals where the code has floats. The order in which
  \<open>_numa_get_constraints_manual\<close> visits a cell's CPUs, which decides only the exception that is
  raised, is the argument \<open>it\<close>.
\<close>

section \<open>Sizes with a unit\<close>

text \<open>The number before the unit: digits with at most one point, and a digit at the end.\<close>

definition parse_magnitude :: "string \<Rightarrow> rat option" where
  "parse_magnitude s =
     (let neg = (s \<noteq> [] \<and> hd s = CHR ''-'');
          t = (if s \<noteq> [] \<and> (hd s = CHR ''-'' \<or> hd s = CHR ''+'') then tl s else s);
          whole = takeWhile is_digit t;
          r = dropWhile is_digit t;
          sgn = (if neg then -1 else 1)
      in if r = [] then (if whole = [] then None else Some (sgn * of_nat (parse_digits whole)))
         else if hd r = CHR ''.'' \<and> tl r \<noteq> [] \<and> list_all is_digit (tl r)
         then Some (sgn * (of_nat (parse_digits whole) +
                of_nat (parse_digits (tl r)) / 10 ^ length (tl r)))
         else None)"

definition unit_prefix_exponent :: "char \<Rightarrow> nat option" where
  "unit_prefix_exponent c =
     (if c = CHR ''K'' then Some 1 else if c = CHR ''M'' then Some 2
      else if c = CHR ''G'' then Some 3 else if c = CHR ''T'' then Some 4 else None)"

text \<open>The text after the number: the exponent of 1024 and whether the unit is bits.\<close>

definition parse_unit :: "string \<Rightarrow> (nat \<times> bool) option" where
  "parse_unit s =
     (let (e, r) = (case s of [] \<Rightarrow> (0, s)
                     | c # cs \<Rightarrow> (case unit_prefix_exponent c of
                                    None \<Rightarrow> (0, s)
                                  | Some e \<Rightarrow> (e, if cs \<noteq> [] \<and> hd cs = CHR ''i'' then tl cs else cs)));
          u = (if r \<noteq> [] \<and> last r = CHR 0x0A then butlast r else r)
      in if u = ''b'' \<or> u = ''bit'' then Some (e, True)
         else if u = ''B'' then Some (e, False) else None)"

definition is_number_char :: "char \<Rightarrow> bool" where
  "is_number_char c \<longleftrightarrow> is_digit c \<or> c = CHR ''.'' \<or> c = CHR ''-'' \<or> c = CHR ''+''"

text \<open>With the default unit system \<open>IEC\<close> and \<open>return_int=True\<close>; \<open>None\<close>: \<open>ValueError\<close>.\<close>

definition string_to_bytes :: "string \<Rightarrow> int option" where
  "string_to_bytes text =
     (case (parse_magnitude (takeWhile is_number_char text), parse_unit (dropWhile is_number_char text)) of
        (Some magnitude, Some (e, bits)) \<Rightarrow>
          Some \<lceil>(if bits then magnitude / 8 else magnitude) * 1024 ^ e\<rceil>
      | _ \<Rightarrow> None)"

section \<open>Page size\<close>

definition check_and_return_pages_size :: "string \<Rightarrow> int nova" where
  "check_and_return_pages_size request =
     (if request = ''any'' then Inr MEMPAGES_ANY
      else if request = ''large'' then Inr MEMPAGES_LARGE
      else if request = ''small'' then Inr MEMPAGES_SMALL
      else let n = (case int_of_str request of
                      Some i \<Rightarrow> i
                    | None \<Rightarrow> (case string_to_bytes request of Some b \<Rightarrow> b div 1024 | None \<Rightarrow> 0))
           in if n \<le> 0 then Inl (MemoryPageSizeInvalid n) else Inr n)"

definition numa_get_pagesize_constraints :: "flavor \<Rightarrow> image_props \<Rightarrow> int option nova" where
  "numa_get_pagesize_constraints fl props =
     (let flavor_request = opt_or (dget (fl_extra_specs fl) ''hw:mem_page_size'') '''';
          image_request = opt_or (hw_mem_page_size props) ''''
      in if flavor_request = '''' \<and> image_request \<noteq> ''''
         then Inl (MemoryPageSizeForbidden image_request ''<empty>'')
         else if flavor_request = '''' then Inr None
         else rbind (check_and_return_pages_size flavor_request) (\<lambda>pagesize.
           if image_request \<noteq> '''' \<and> pagesize \<in> {MEMPAGES_ANY, MEMPAGES_LARGE}
           then rbind (check_and_return_pages_size image_request) (\<lambda>p. Inr (Some p))
           else if image_request \<noteq> '''' then Inl (MemoryPageSizeForbidden image_request flavor_request)
           else Inr (Some pagesize)))"

section \<open>CPUs and memory per node\<close>

definition NUMA_NODES_MAX :: int where "NUMA_NODES_MAX = 128"

text \<open>The loop of both flavor lists: the entries \<open>prefix.0\<close>, \<open>prefix.1\<close>, ... up to the first that
  is missing; no entry at all gives \<open>None\<close>.\<close>

fun flavor_entries :: "(string \<Rightarrow> 'a nova) \<Rightarrow> string \<Rightarrow> string sdict \<Rightarrow> int list \<Rightarrow> 'a list nova" where
  "flavor_entries parse prefix extra_specs [] = Inr []"
| "flavor_entries parse prefix extra_specs (cellid # cellids) =
     (case dget extra_specs (prefix @ str_of_int cellid) of
        None \<Rightarrow> Inr []
      | Some v \<Rightarrow> rbind (parse v) (\<lambda>x.
          rbind (flavor_entries parse prefix extra_specs cellids) (\<lambda>xs. Inr (x # xs))))"

definition none_if_empty :: "'a list \<Rightarrow> 'a list option" where
  "none_if_empty xs = (if xs = [] then None else Some xs)"

definition numa_get_flavor_cpu_map_list :: "flavor \<Rightarrow> int set list option nova" where
  "numa_get_flavor_cpu_map_list fl =
     rbind (flavor_entries parse_cpu_spec ''hw:numa_cpus.'' (fl_extra_specs fl)
       (py_range 0 NUMA_NODES_MAX)) (\<lambda>xs. Inr (none_if_empty xs))"

definition numa_get_cpu_map_list :: "flavor \<Rightarrow> image_props \<Rightarrow> int set list option nova" where
  "numa_get_cpu_map_list fl props =
     rbind (numa_get_flavor_cpu_map_list fl) (\<lambda>flavor_cpu_list.
       case flavor_cpu_list of
         None \<Rightarrow> Inr (hw_numa_cpus props)
       | Some l \<Rightarrow> if hw_numa_cpus props \<noteq> None then Inl (ImageNUMATopologyForbidden ''hw_numa_cpus'')
                  else Inr (Some l))"

definition numa_get_flavor_mem_map_list :: "flavor \<Rightarrow> int list option nova" where
  "numa_get_flavor_mem_map_list fl =
     rbind (flavor_entries py_int ''hw:numa_mem.'' (fl_extra_specs fl)
       (py_range 0 NUMA_NODES_MAX)) (\<lambda>xs. Inr (none_if_empty xs))"

definition numa_get_mem_map_list :: "flavor \<Rightarrow> image_props \<Rightarrow> int list option nova" where
  "numa_get_mem_map_list fl props =
     rbind (numa_get_flavor_mem_map_list fl) (\<lambda>flavor_mem_list.
       case flavor_mem_list of
         None \<Rightarrow> Inr (hw_numa_mem props)
       | Some l \<Rightarrow> if hw_numa_mem props \<noteq> None then Inl (ImageNUMATopologyForbidden ''hw_numa_mem'')
                  else Inr (Some l))"

text \<open>The inner loop over the CPUs of a node, and the outer loop over the nodes.\<close>

definition take_cpu :: "flavor \<Rightarrow> int set \<Rightarrow> int \<Rightarrow> int set nova" where
  "take_cpu fl availcpus cpu =
     (if cpu > fl_vcpus fl - 1 then Inl (ImageNUMATopologyCPUOutOfRange cpu (fl_vcpus fl - 1))
      else if cpu \<notin> availcpus then Inl (ImageNUMATopologyCPUDuplicates cpu)
      else Inr (availcpus - {cpu}))"

definition manual_node ::
  "(int set \<Rightarrow> int list) \<Rightarrow> flavor \<Rightarrow> int set list \<Rightarrow> int list
    \<Rightarrow> inst_cell list \<times> int \<times> int set \<Rightarrow> int \<Rightarrow> (inst_cell list \<times> int \<times> int set) nova" where
  "manual_node it fl cpu_list mem_list st node =
     (let (cells, totalmem, availcpus) = st
      in if int (length mem_list) \<le> node \<or> int (length cpu_list) \<le> node then Inl PyIndexError
         else let mem = mem_list ! nat node; cpuset = cpu_list ! nat node
              in rbind (rfold (take_cpu fl) availcpus (it cpuset)) (\<lambda>availcpus.
                   Inr (cells @ [InstanceNUMACell node cpuset mem], totalmem + mem, availcpus)))"

definition numa_get_constraints_manual ::
  "(int set \<Rightarrow> int list) \<Rightarrow> int \<Rightarrow> flavor \<Rightarrow> int set list \<Rightarrow> int list \<Rightarrow> inst_topology nova" where
  "numa_get_constraints_manual it nodes fl cpu_list mem_list =
     rbind (rfold (manual_node it fl cpu_list mem_list) ([], 0, set (py_range 0 (fl_vcpus fl)))
         (py_range 0 nodes)) (\<lambda>(cells, totalmem, availcpus).
       if availcpus \<noteq> {} then Inl (ImageNUMATopologyCPUsUnassigned availcpus)
       else if totalmem \<noteq> fl_memory_mb fl
       then Inl (ImageNUMATopologyMemoryOutOfRange totalmem (fl_memory_mb fl))
       else Inr cells)"

definition numa_get_constraints_auto :: "int \<Rightarrow> flavor \<Rightarrow> inst_topology nova" where
  "numa_get_constraints_auto nodes fl =
     (if fl_vcpus fl mod nodes > 0 \<or> fl_memory_mb fl mod nodes > 0
      then Inl ImageNUMATopologyAsymmetric
      else Inr (map (\<lambda>node.
             let ncpus = fl_vcpus fl div nodes; mem = fl_memory_mb fl div nodes; start = node * ncpus
             in InstanceNUMACell node (set (py_range start (start + ncpus))) mem) (py_range 0 nodes)))"

section \<open>CPU policies\<close>

definition effective_cpu_policy :: "string option \<Rightarrow> cpu_policy option \<Rightarrow> cpu_policy nova" where
  "effective_cpu_policy flavor_policy image_policy =
     (if flavor_policy = Some (cpu_policy_str DEDICATED) then Inr DEDICATED
      else if flavor_policy = Some (cpu_policy_str SHARED)
      then (if image_policy = Some DEDICATED then Inl ImageCPUPinningForbidden else Inr SHARED)
      else if image_policy = Some DEDICATED then Inr DEDICATED
      else Inr SHARED)"

definition effective_thread_policy ::
  "string option \<Rightarrow> cpu_thread_policy option \<Rightarrow> string option nova" where
  "effective_thread_policy flavor_thread_policy image_thread_policy =
     (let image_str = map_option cpu_thread_policy_str image_thread_policy
      in if flavor_thread_policy = None \<or> flavor_thread_policy = Some (cpu_thread_policy_str PREFER)
         then Inr image_str
         else if image_thread_policy \<noteq> None \<and> image_str \<noteq> flavor_thread_policy
         then Inl ImageCPUThreadPolicyForbidden
         else Inr flavor_thread_policy)"

text \<open>Assigning the thread policy to a cell raises \<open>ValueError\<close> for an unknown name.\<close>

definition add_cpu_pinning_constraint ::
  "flavor \<Rightarrow> image_props \<Rightarrow> inst_topology option \<Rightarrow> inst_topology option nova" where
  "add_cpu_pinning_constraint fl props numa_topology =
     rbind (effective_cpu_policy (dget (fl_extra_specs fl) ''hw:cpu_policy'') (hw_cpu_policy props))
       (\<lambda>cpu_policy.
       let rt = is_realtime_enabled fl
       in if rt \<and> cpu_policy \<noteq> DEDICATED then Inl RealtimeConfigurationInvalid
          else if rt \<and> \<not> str_true (get_realtime_mask fl props) then Inl RealtimeMaskNotFoundOrInvalid
          else
            let flavor_thread_policy = dget (fl_extra_specs fl) ''hw:cpu_thread_policy'';
                image_thread_policy = hw_cpu_thread_policy props
            in if cpu_policy = SHARED
               then (if str_true flavor_thread_policy \<or> image_thread_policy \<noteq> None
                     then Inl CPUThreadPolicyConfigurationInvalid else Inr numa_topology)
               else rbind (effective_thread_policy flavor_thread_policy image_thread_policy) (\<lambda>tp.
                    rbind (coerce_thread_policy tp) (\<lambda>cpu_thread_policy.
                      if opt_or numa_topology [] \<noteq> []
                      then Inr (Some (map (\<lambda>c. c\<lparr>ic_cpu_policy := Some cpu_policy,
                             ic_cpu_thread_policy := cpu_thread_policy\<rparr>) (the numa_topology)))
                      else Inr (Some [(InstanceNUMACell 0 (set (py_range 0 (fl_vcpus fl))) (fl_memory_mb fl))
                             \<lparr>ic_cpu_policy := Some cpu_policy,
                              ic_cpu_thread_policy := cpu_thread_policy\<rparr>]))))"

section \<open>\<open>numa_get_constraints\<close>\<close>

definition requested_nodes :: "flavor \<Rightarrow> image_props \<Rightarrow> int option nova" where
  "requested_nodes fl props =
     (case dget (fl_extra_specs fl) ''hw:numa_nodes'' of
        Some nodes \<Rightarrow>
          if hw_numa_nodes props \<noteq> None then Inl (ImageNUMATopologyForbidden ''hw_numa_nodes'')
          else rbind (py_int nodes) (\<lambda>n. Inr (Some n))
      | None \<Rightarrow> Inr (hw_numa_nodes props))"

definition int_true :: "int option \<Rightarrow> bool" where
  "int_true x \<longleftrightarrow> x \<noteq> None \<and> x \<noteq> Some 0"

definition requested_topology ::
  "(int set \<Rightarrow> int list) \<Rightarrow> flavor \<Rightarrow> image_props \<Rightarrow> int option \<Rightarrow> int option \<Rightarrow> inst_topology option nova" where
  "requested_topology it fl props nodes pagesize =
     (if \<not> (int_true nodes \<or> int_true pagesize) then Inr None
      else
        let nodes = (if int_true nodes then the nodes else 1)
        in rbind (numa_get_cpu_map_list fl props) (\<lambda>cpu_list.
           rbind (numa_get_mem_map_list fl props) (\<lambda>mem_list.
             if (cpu_list = None \<and> mem_list \<noteq> None) \<or> (cpu_list \<noteq> None \<and> mem_list = None)
             then Inl ImageNUMATopologyIncomplete
             else if (cpu_list \<noteq> None \<and> int (length (the cpu_list)) \<noteq> nodes) \<or>
                     (mem_list \<noteq> None \<and> int (length (the mem_list)) \<noteq> nodes)
             then Inl ImageNUMATopologyIncomplete
             else rbind (case cpu_list of
                    None \<Rightarrow> numa_get_constraints_auto nodes fl
                  | Some l \<Rightarrow> numa_get_constraints_manual it nodes fl l (the mem_list)) (\<lambda>cells.
                  Inr (Some (map (\<lambda>c. c\<lparr>ic_pagesize := pagesize\<rparr>) cells))))))"

definition numa_get_constraints ::
  "(int set \<Rightarrow> int list) \<Rightarrow> flavor \<Rightarrow> image_props \<Rightarrow> inst_topology option nova" where
  "numa_get_constraints it fl props =
     rbind (requested_nodes fl props) (\<lambda>nodes.
     rbind (numa_get_pagesize_constraints fl props) (\<lambda>pagesize.
     rbind (requested_topology it fl props nodes pagesize) (\<lambda>numa_topology.
       add_cpu_pinning_constraint fl props numa_topology)))"

section \<open>The cells divide the CPUs and the memory\<close>

definition divides_flavor :: "flavor \<Rightarrow> inst_cell list \<Rightarrow> bool" where
  "divides_flavor fl cells \<longleftrightarrow>
     map ic_id cells = py_range 0 (int (length cells)) \<and>
     sorted_wrt (\<lambda>c d. ic_cpuset c \<inter> ic_cpuset d = {}) cells \<and>
     (\<Union>c \<in> set cells. ic_cpuset c) = {0..<fl_vcpus fl} \<and>
     sum_list (map ic_memory cells) = fl_memory_mb fl"

lemma parse_rule_ids_finite:
  assumes "parse_rule st r = Inr st'" "finite (fst st)"
  shows "finite (fst st')"
  using assms unfolding parse_rule_def
  by (auto simp: Let_def split: if_splits list.splits option.splits prod.splits)

lemma parse_cpu_spec_finite:
  assumes "parse_cpu_spec s = Inr ids"
  shows "finite ids"
proof -
  obtain a b where r: "rfold parse_rule ({}, {}) (split_on (CHR '','') s) = Inr (a, b)" "ids = a - b"
    using assms by (auto simp: parse_cpu_spec_def parse_rules_def rbind_eq_Inr)
  have "finite (fst (a, b))"
    by (rule rfold_invariant[OF r(1), of "\<lambda>st. finite (fst st)"]) (auto intro: parse_rule_ids_finite)
  then show ?thesis using r(2) by simp
qed

lemma flavor_entries_prop:
  "flavor_entries parse prefix specs ns = Inr xs \<Longrightarrow> (\<And>v x. parse v = Inr x \<Longrightarrow> P x) \<Longrightarrow> \<forall>x \<in> set xs. P x"
  by (induction ns arbitrary: xs) (auto simp: rbind_eq_Inr split: option.splits)

lemma cpu_map_list_finite:
  assumes "numa_get_cpu_map_list fl props = Inr (Some l)" "\<forall>s \<in> set (opt_or (hw_numa_cpus props) []). finite s"
  shows "\<forall>s \<in> set l. finite s"
proof (cases "hw_numa_cpus props")
  case None
  then have "flavor_entries parse_cpu_spec ''hw:numa_cpus.'' (fl_extra_specs fl) (py_range 0 NUMA_NODES_MAX) = Inr l"
    using assms(1)
    by (auto simp: numa_get_cpu_map_list_def numa_get_flavor_cpu_map_list_def none_if_empty_def rbind_eq_Inr
      split: option.splits if_splits)
  then show ?thesis by (rule flavor_entries_prop) (rule parse_cpu_spec_finite)
next
  case (Some k)
  then have "l = k" using assms(1)
    by (auto simp: numa_get_cpu_map_list_def rbind_eq_Inr split: option.splits)
  then show ?thesis using assms(2) Some by simp
qed

lemma take_cpus_Inr:
  "rfold (take_cpu fl) avail xs = Inr avail' \<Longrightarrow> set xs \<subseteq> avail \<and> avail' = avail - set xs"
  by (induction xs arbitrary: avail) (auto simp: take_cpu_def rbind_eq_Inr split: if_splits)

abbreviation manual_cell :: "int set list \<Rightarrow> int list \<Rightarrow> int \<Rightarrow> inst_cell" where
  "manual_cell cpu_list mem_list n \<equiv> InstanceNUMACell n (cpu_list ! nat n) (mem_list ! nat n)"

lemma manual_nodes_Inr:
  assumes "set_order it" "\<forall>s \<in> set cpu_list. finite s" "\<forall>n \<in> set ns. 0 \<le> n"
    and "rfold (manual_node it fl cpu_list mem_list) (cells, t, avail) ns = Inr (cells', t', avail')"
  shows "cells' = cells @ map (manual_cell cpu_list mem_list) ns \<and>
    t' = t + sum_list (map (\<lambda>n. mem_list ! nat n) ns) \<and>
    (\<forall>n \<in> set ns. cpu_list ! nat n \<subseteq> avail) \<and>
    sorted_wrt (\<lambda>m n. cpu_list ! nat m \<inter> cpu_list ! nat n = {}) ns \<and>
    avail' = avail - (\<Union>n \<in> set ns. cpu_list ! nat n)"
  using assms(3,4)
proof (induction ns arbitrary: cells t avail)
  case (Cons n ns)
  let ?s = "cpu_list ! nat n"
  obtain st1 where st1: "manual_node it fl cpu_list mem_list (cells, t, avail) n = Inr st1"
      "rfold (manual_node it fl cpu_list mem_list) st1 ns = Inr (cells', t', avail')"
    using Cons.prems(2) by (auto simp: rbind_eq_Inr)
  from st1(1) obtain av where step: "rfold (take_cpu fl) avail (it ?s) = Inr av" "n < int (length cpu_list)"
    and "st1 = (cells @ [manual_cell cpu_list mem_list n], t + mem_list ! nat n, av)"
    by (auto simp: manual_node_def Let_def rbind_eq_Inr split: if_splits)
  with st1(2) have rest: "rfold (manual_node it fl cpu_list mem_list)
      (cells @ [manual_cell cpu_list mem_list n], t + mem_list ! nat n, av) ns = Inr (cells', t', avail')"
    by simp
  have "?s \<in> set cpu_list" using step(2) Cons.prems(1) by (intro nth_mem) auto
  then have "finite ?s" using assms(2) by simp
  then have "set (it ?s) = ?s" using assms(1) by (simp add: set_order_def)
  then have av: "?s \<subseteq> avail" "av = avail - ?s" using take_cpus_Inr[OF step(1)] by auto
  have "\<forall>n \<in> set ns. 0 \<le> n" using Cons.prems(1) by simp
  note IH = Cons.IH[OF this rest]
  have "\<forall>m \<in> set ns. ?s \<inter> cpu_list ! nat m = {}" using IH av(2) by blast
  then show ?case using IH av by auto
qed auto

lemma manual_divides:
  assumes "set_order it" "\<forall>s \<in> set cpu_list. finite s" "0 \<le> nodes"
    and "numa_get_constraints_manual it nodes fl cpu_list mem_list = Inr cells"
  shows "divides_flavor fl cells \<and> (\<forall>c \<in> set cells. ic_cpu_pinning c = None \<and> ic_cpu_policy c = None)"
proof -
  let ?ns = "py_range 0 nodes"
  have nn: "\<forall>n \<in> set ?ns. 0 \<le> n" by simp
  obtain t av where f: "rfold (manual_node it fl cpu_list mem_list) ([], 0, set (py_range 0 (fl_vcpus fl))) ?ns
      = Inr (cells, t, av)" "av = {}" "t = fl_memory_mb fl"
    using assms(4) by (auto simp: numa_get_constraints_manual_def rbind_eq_Inr split: if_splits prod.splits)
  note m = manual_nodes_Inr[OF assms(1,2) nn f(1)]
  have cells: "cells = map (manual_cell cpu_list mem_list) ?ns" using m by simp
  have "(\<Union>c \<in> set cells. ic_cpuset c) = (\<Union>n \<in> set ?ns. cpu_list ! nat n)"
    by (simp only: cells set_map UN_simps InstanceNUMACell_def) simp
  then have "(\<Union>c \<in> set cells. ic_cpuset c) = {0..<fl_vcpus fl}" using m f(2) by (simp only:) auto
  moreover have "sorted_wrt (\<lambda>c d. ic_cpuset c \<inter> ic_cpuset d = {}) cells"
    using m by (simp add: cells sorted_wrt_map InstanceNUMACell_def)
  moreover have "sum_list (map ic_memory cells) = fl_memory_mb fl"
    using m f(3) by (simp add: cells InstanceNUMACell_def comp_def)
  moreover have "map ic_id cells = py_range 0 (int (length cells))"
    using assms(3) by (simp add: cells InstanceNUMACell_def comp_def)
  ultimately show ?thesis by (auto simp: divides_flavor_def cells InstanceNUMACell_def)
qed

lemma auto_divides:
  assumes "0 < nodes" "0 \<le> fl_vcpus fl" "numa_get_constraints_auto nodes fl = Inr cells"
  shows "divides_flavor fl cells \<and> (\<forall>c \<in> set cells. ic_cpu_pinning c = None \<and> ic_cpu_policy c = None)"
proof -
  let ?q = "fl_vcpus fl div nodes" and ?ns = "py_range 0 nodes"
  let ?s = "\<lambda>n::int. {n * ?q..<n * ?q + ?q}"
  have mods: "fl_vcpus fl mod nodes = 0" "fl_memory_mb fl mod nodes = 0"
    and cells: "cells = map (\<lambda>n. InstanceNUMACell n (?s n) (fl_memory_mb fl div nodes)) ?ns"
    using assms(3) pos_mod_sign[OF assms(1)]
    by (auto simp: numa_get_constraints_auto_def Let_def not_less intro: antisym split: if_splits)
  have vq: "fl_vcpus fl = nodes * ?q" "fl_memory_mb fl = nodes * (fl_memory_mb fl div nodes)"
    using mods by (simp_all add: mod_0_imp_dvd)
  have q: "0 \<le> ?q" using assms(1,2) by (simp add: pos_imp_zdiv_nonneg_iff)
  have "(\<Union>n \<in> {0..<nodes}. ?s n) = {0..<nodes * ?q}"
  proof (intro equalityI subsetI)
    fix x assume "x \<in> (\<Union>n \<in> {0..<nodes}. ?s n)"
    then obtain n where n: "0 \<le> n" "n < nodes" "n * ?q \<le> x" "x < n * ?q + ?q" by auto
    have "(n + 1) * ?q \<le> nodes * ?q" using n(2) q by (intro mult_right_mono) auto
    moreover have "0 \<le> n * ?q" using n(1) q by simp
    ultimately show "x \<in> {0..<nodes * ?q}" using n(3,4) by (simp add: algebra_simps)
  next
    fix x assume x: "x \<in> {0..<nodes * ?q}"
    then have qp: "0 < ?q" using q by (cases "?q = 0") auto
    have le: "x div ?q * ?q \<le> x" "x < x div ?q * ?q + ?q"
      using qp div_mult_mod_eq[of x ?q] pos_mod_bound[OF qp, of x] pos_mod_sign[OF qp, of x] by linarith+
    have "x div ?q < nodes"
    proof (rule ccontr)
      assume "\<not> x div ?q < nodes"
      then have "nodes * ?q \<le> x div ?q * ?q" using q by (intro mult_right_mono) auto
      then show False using x le(1) by auto
    qed
    moreover have "0 \<le> x div ?q" using x qp by (simp add: pos_imp_zdiv_nonneg_iff)
    moreover note le
    ultimately show "x \<in> (\<Union>n \<in> {0..<nodes}. ?s n)" by (auto intro!: bexI[of _ "x div ?q"])
  qed
  then have "(\<Union>c \<in> set cells. ic_cpuset c) = {0..<fl_vcpus fl}"
    using vq(1) by (simp add: cells InstanceNUMACell_def)
  moreover have "sorted_wrt (\<lambda>c d. ic_cpuset c \<inter> ic_cpuset d = {}) cells"
  proof -
    have dis: "?s m \<inter> ?s n = {}" if "m < n" for m n
    proof -
      have "(m + 1) * ?q \<le> n * ?q" using that q by (intro mult_right_mono) auto
      then show ?thesis by (auto simp: algebra_simps)
    qed
    have "sorted_wrt (<) ?ns" by (simp add: py_range_def)
    then have "sorted_wrt (\<lambda>m n. ?s m \<inter> ?s n = {}) ?ns"
      by (rule sorted_wrt_mono_rel[rotated]) (rule dis)
    then show ?thesis by (simp add: cells sorted_wrt_map InstanceNUMACell_def)
  qed
  moreover have "sum_list (map ic_memory cells) = fl_memory_mb fl"
    using vq(2) assms(1) by (simp add: cells InstanceNUMACell_def comp_def sum_list_triv)
  moreover have "map ic_id cells = py_range 0 (int (length cells))"
    using assms(1) by (simp add: cells InstanceNUMACell_def comp_def)
  ultimately show ?thesis by (auto simp: divides_flavor_def cells InstanceNUMACell_def)
qed

lemma divides_update:
  "(\<And>c. ic_id (f c) = ic_id c \<and> ic_cpuset (f c) = ic_cpuset c \<and> ic_memory (f c) = ic_memory c) \<Longrightarrow>
   divides_flavor fl (map f cells) = divides_flavor fl cells"
  by (simp add: divides_flavor_def comp_def sorted_wrt_map)

text \<open>A topology before the CPU policies are added, and after.\<close>

definition topology_ok :: "flavor \<Rightarrow> inst_cell list \<Rightarrow> bool" where
  "topology_ok fl cells \<longleftrightarrow> divides_flavor fl cells \<and> (\<forall>c \<in> set cells. ic_cpu_pinning c = None)"

lemma requested_topology_ok:
  assumes "set_order it" "0 \<le> fl_vcpus fl" "\<forall>s \<in> set (opt_or (hw_numa_cpus props) []). finite s"
    and "\<forall>n. nodes = Some n \<longrightarrow> 0 \<le> n"
    and "requested_topology it fl props nodes pagesize = Inr (Some cells)"
  shows "topology_ok fl cells \<and> (\<forall>c \<in> set cells. ic_cpu_policy c = None)"
proof -
  define n where "n = (if int_true nodes then the nodes else 1)"
  have n: "0 < n" using assms(4) by (auto simp: n_def int_true_def less_le)
  obtain cpu_list mem_list cells0 where l: "numa_get_cpu_map_list fl props = Inr cpu_list"
    and c: "(case cpu_list of None \<Rightarrow> numa_get_constraints_auto n fl
        | Some l \<Rightarrow> numa_get_constraints_manual it n fl l (the mem_list)) = Inr cells0"
    and cells: "cells = map (\<lambda>c. c\<lparr>ic_pagesize := pagesize\<rparr>) cells0"
    using assms(5) unfolding requested_topology_def n_def[symmetric]
    by (auto simp: rbind_eq_Inr split: if_splits)
  have "divides_flavor fl cells0 \<and> (\<forall>c \<in> set cells0. ic_cpu_pinning c = None \<and> ic_cpu_policy c = None)"
  proof (cases cpu_list)
    case None
    then show ?thesis using c auto_divides[OF n assms(2)] by simp
  next
    case (Some k)
    have "\<forall>s \<in> set k. finite s" using cpu_map_list_finite[OF _ assms(3)] l Some by simp
    then show ?thesis using manual_divides[OF assms(1) _ less_imp_le[OF n]] c Some by simp
  qed
  then show ?thesis by (auto simp: cells topology_ok_def divides_update)
qed

lemma single_cell_ok:
  assumes "0 \<le> fl_vcpus fl"
  shows "topology_ok fl [(InstanceNUMACell 0 (set (py_range 0 (fl_vcpus fl))) (fl_memory_mb fl))
    \<lparr>ic_cpu_policy := p, ic_cpu_thread_policy := t\<rparr>]"
proof -
  have "py_range 0 1 = [0]" by (simp add: py_range_def upto.simps)
  then show ?thesis by (simp add: topology_ok_def divides_flavor_def InstanceNUMACell_def)
qed

lemma single_cell_ok':
  "0 \<le> fl_vcpus fl \<Longrightarrow> topology_ok fl [InstanceNUMACell 0 (set (py_range 0 (fl_vcpus fl))) (fl_memory_mb fl)]"
  using single_cell_ok[of fl None None] by (simp add: InstanceNUMACell_def)

abbreviation set_policies :: "cpu_policy \<Rightarrow> cpu_thread_policy option \<Rightarrow> inst_cell \<Rightarrow> inst_cell" where
  "set_policies p tp c \<equiv> c\<lparr>ic_cpu_policy := Some p, ic_cpu_thread_policy := tp\<rparr>"

definition pinning_base :: "flavor \<Rightarrow> inst_topology option \<Rightarrow> inst_topology" where
  "pinning_base fl topology =
     (if opt_or topology [] \<noteq> [] then the topology
      else [InstanceNUMACell 0 (set (py_range 0 (fl_vcpus fl))) (fl_memory_mb fl)])"

abbreviation flavor_thread_policy :: "flavor \<Rightarrow> string option" where
  "flavor_thread_policy fl \<equiv> dget (fl_extra_specs fl) ''hw:cpu_thread_policy''"

lemma add_pinning_dedicated:
  "rbind (effective_thread_policy a b) (\<lambda>tp. rbind (coerce_thread_policy tp) (\<lambda>tp'.
     if opt_or topology [] \<noteq> []
     then Inr (Some (map (set_policies p tp') (the topology)))
     else Inr (Some [set_policies p tp' (InstanceNUMACell 0 (set (py_range 0 (fl_vcpus fl))) (fl_memory_mb fl))])))
   = rbind (effective_thread_policy a b) (\<lambda>tp. rbind (coerce_thread_policy tp) (\<lambda>tp'.
       Inr (Some (map (set_policies p tp') (pinning_base fl topology)))))"
  by (simp add: pinning_base_def)

lemma add_pinning_Inr:
  assumes "add_cpu_pinning_constraint fl props topology = Inr r"
  obtains (shared) "effective_cpu_policy (dget (fl_extra_specs fl) ''hw:cpu_policy'') (hw_cpu_policy props) = Inr SHARED"
      "r = topology" "\<not> is_realtime_enabled fl" "hw_cpu_thread_policy props = None"
      "\<not> str_true (flavor_thread_policy fl)"
    | (dedicated) tp tp' where
      "effective_cpu_policy (dget (fl_extra_specs fl) ''hw:cpu_policy'') (hw_cpu_policy props) = Inr DEDICATED"
      "effective_thread_policy (flavor_thread_policy fl) (hw_cpu_thread_policy props) = Inr tp"
      "coerce_thread_policy tp = Inr tp'"
      "r = Some (map (set_policies DEDICATED tp') (pinning_base fl topology))"
proof -
  obtain p where p: "effective_cpu_policy (dget (fl_extra_specs fl) ''hw:cpu_policy'') (hw_cpu_policy props) = Inr p"
    using assms by (auto simp: add_cpu_pinning_constraint_def rbind_eq_Inr)
  show ?thesis
  proof (cases p)
    case SHARED
    then show ?thesis using assms p shared
      by (simp add: add_cpu_pinning_constraint_def Let_def split: if_splits)
  next
    case DEDICATED
    have "rbind (effective_thread_policy (flavor_thread_policy fl) (hw_cpu_thread_policy props)) (\<lambda>tp.
        rbind (coerce_thread_policy tp) (\<lambda>tp'.
          Inr (Some (map (set_policies DEDICATED tp') (pinning_base fl topology))))) = Inr r"
      using assms p DEDICATED unfolding add_cpu_pinning_constraint_def Let_def add_pinning_dedicated
      by (simp only: rbind_Inr cpu_policy.distinct if_False not_True_eq_False simp_thms split: if_splits) simp_all
    then show ?thesis using dedicated p DEDICATED by (auto simp: rbind_eq_Inr)
  qed
qed

lemma add_pinning_ok:
  assumes "0 \<le> fl_vcpus fl" "\<And>t. topology = Some t \<Longrightarrow> topology_ok fl t"
    and "add_cpu_pinning_constraint fl props topology = Inr (Some cells)"
  shows "topology_ok fl cells"
  using assms(3)
proof (cases rule: add_pinning_Inr)
  case shared
  then show ?thesis using assms(2) by simp
next
  case (dedicated tp tp')
  have upd: "topology_ok fl (map (set_policies p t) cs) = topology_ok fl cs"
    for p t cs by (simp add: topology_ok_def divides_update)
  have "topology_ok fl (pinning_base fl topology)"
    using assms(2) single_cell_ok'[OF assms(1)] by (cases topology) (auto simp: pinning_base_def)
  then show ?thesis using dedicated(4) upd by simp
qed

lemma numa_get_constraints_Inr:
  assumes "numa_get_constraints it fl props = Inr r"
  obtains nodes pagesize topology where "requested_nodes fl props = Inr nodes"
    "requested_topology it fl props nodes pagesize = Inr topology"
    "add_cpu_pinning_constraint fl props topology = Inr r"
  using assms by (auto simp: numa_get_constraints_def rbind_eq_Inr)

text \<open>A negative number of nodes is accepted; the lists of the flavor or the image cannot have it as
  their length, and dividing evenly gives no cell.\<close>

lemma requested_topology_negative:
  assumes "requested_topology it fl props (Some n) pagesize = Inr (Some t)" "n < 0"
  shows "t = []"
proof -
  have "py_range 0 n = []" using assms(2) by (simp add: py_range_def)
  then have "numa_get_constraints_auto n fl = Inr cells \<Longrightarrow> cells = []" for cells
    by (auto simp: numa_get_constraints_auto_def split: if_splits)
  then show ?thesis
    using assms by (auto simp: requested_topology_def Let_def rbind_eq_Inr int_true_def split: if_splits option.splits)
qed

lemma numa_get_constraints_ok:
  assumes "set_order it" "0 \<le> fl_vcpus fl" "\<forall>s \<in> set (opt_or (hw_numa_cpus props) []). finite s"
    and "\<forall>n. requested_nodes fl props = Inr (Some n) \<longrightarrow> 0 \<le> n"
    and "numa_get_constraints it fl props = Inr (Some cells)"
  shows "topology_ok fl cells"
  using assms(5)
proof (rule numa_get_constraints_Inr)
  fix nodes pagesize topology
  assume r: "requested_nodes fl props = Inr nodes"
    "requested_topology it fl props nodes pagesize = Inr topology"
    "add_cpu_pinning_constraint fl props topology = Inr (Some cells)"
  have "topology_ok fl t" if "topology = Some t" for t
    using requested_topology_ok[OF assms(1-3) _ r(2)[unfolded that]] assms(4) r(1) by blast
  then show ?thesis by (rule add_pinning_ok[OF assms(2) _ r(3)])
qed

lemma numa_get_constraints_negative:
  assumes "0 \<le> fl_vcpus fl" "numa_get_constraints it fl props = Inr (Some cells)"
    and "requested_nodes fl props = Inr (Some n)" "n < 0"
  shows "cells = [] \<or> topology_ok fl cells"
  using assms(2)
proof (rule numa_get_constraints_Inr)
  fix nodes pagesize topology
  assume r: "requested_nodes fl props = Inr nodes"
    "requested_topology it fl props nodes pagesize = Inr topology"
    "add_cpu_pinning_constraint fl props topology = Inr (Some cells)"
  have "t = []" if "topology = Some t" for t
    using requested_topology_negative[OF _ assms(4)] r(1,2) assms(3) that by simp
  then have empty: "topology = None \<or> topology = Some []" by (cases topology) auto
  from r(3) show ?thesis
  proof (cases rule: add_pinning_Inr)
    case shared
    then show ?thesis using empty by auto
  next
    case (dedicated tp tp')
    have "pinning_base fl topology = pinning_base fl None" using empty by (auto simp: pinning_base_def)
    moreover have "topology_ok fl (pinning_base fl None)" using single_cell_ok'[OF assms(1)] by (simp add: pinning_base_def)
    ultimately show ?thesis using dedicated(4) by (simp add: topology_ok_def divides_update)
  qed
qed

lemma topology_ok_wf:
  assumes "topology_ok fl cells" "c \<in> set cells"
  shows "pinning_wf c"
proof -
  have "(\<Union>c \<in> set cells. ic_cpuset c) = {0..<fl_vcpus fl}"
    using assms(1) by (simp add: topology_ok_def divides_flavor_def)
  then have "ic_cpuset c \<subseteq> {0..<fl_vcpus fl}" using assms(2) by blast
  then have "finite (ic_cpuset c)" by (rule finite_subset) simp
  then show ?thesis using assms by (simp add: pinning_wf_def topology_ok_def)
qed

section \<open>Properties\<close>

text \<open>Claim C25. When \<open>numa_get_constraints\<close> returns a topology for a flavor whose number of CPUs is
  not negative, its cells are numbered from 0, their CPU sets are disjoint and together exactly the
  flavor's CPUs, and their memory adds up to the flavor's memory, whether the cells were given by the
  flavor, by the image or divided evenly. There is one exception: for a negative number of nodes,
  which the code does not refuse, the topology may have no cell at all.\<close>

theorem numa_constraints_divide:
  assumes "set_order it" and "0 \<le> fl_vcpus fl" and "\<forall>s \<in> set (opt_or (hw_numa_cpus props) []). finite s"
    and "numa_get_constraints it fl props = Inr (Some cells)"
  shows "cells = [] \<and> (\<exists>n. requested_nodes fl props = Inr (Some n) \<and> n < 0) \<or>
    map ic_id cells = py_range 0 (int (length cells)) \<and>
    sorted_wrt (\<lambda>c d. ic_cpuset c \<inter> ic_cpuset d = {}) cells \<and>
    (\<Union>c \<in> set cells. ic_cpuset c) = {0..<fl_vcpus fl} \<and>
    sum_list (map ic_memory cells) = fl_memory_mb fl"
proof (cases "\<exists>n. requested_nodes fl props = Inr (Some n) \<and> n < 0")
  case True
  then obtain n where n: "requested_nodes fl props = Inr (Some n)" "n < 0" by blast
  from numa_get_constraints_negative[OF assms(2,4) n] show ?thesis
    using True by (auto simp: topology_ok_def divides_flavor_def)
next
  case False
  then have "\<forall>n. requested_nodes fl props = Inr (Some n) \<longrightarrow> 0 \<le> n" by (meson not_less)
  from numa_get_constraints_ok[OF assms(1-3) this assms(4)] show ?thesis
    by (simp add: topology_ok_def divides_flavor_def)
qed

definition demo_flavor :: flavor where
  "demo_flavor = \<lparr>fl_id = 1, fl_name = ''m1.numa'', fl_vcpus = 3, fl_memory_mb = 768,
     fl_extra_specs = [(''hw:numa_nodes'', ''2''), (''hw:numa_cpus.0'', ''0,2''),
       (''hw:numa_cpus.1'', ''1''), (''hw:numa_mem.0'', ''512''), (''hw:numa_mem.1'', ''256''),
       (''hw:cpu_policy'', ''dedicated''), (''hw:cpu_thread_policy'', ''require'')]\<rparr>"

definition demo_topology :: "inst_cell list" where
  "demo_topology = map (\<lambda>c. c\<lparr>ic_cpu_policy := Some DEDICATED, ic_cpu_thread_policy := Some REQUIRE\<rparr>)
     [InstanceNUMACell 0 {0, 2} 512, InstanceNUMACell 1 {1} 256]"

lemma demo_constraints:
  "numa_get_constraints sorted_list_of_set demo_flavor no_image_props = Inr (Some demo_topology)"
  by code_simp

lemma demo_constraints_hyps:
  "0 \<le> fl_vcpus demo_flavor" "\<forall>s \<in> set (opt_or (hw_numa_cpus no_image_props) []). finite s"
  by (simp_all add: demo_flavor_def no_image_props_def)

theorem numa_constraints_divide_witness:
  "(\<Union>c \<in> set demo_topology. ic_cpuset c) = {0..<3} \<and> sum_list (map ic_memory demo_topology) = 768"
  using numa_constraints_divide[OF demo_wf(1) demo_constraints_hyps demo_constraints]
  by (simp add: demo_flavor_def demo_topology_def)

lemma requested_topology_unpinned:
  assumes "requested_topology it fl props nodes pagesize = Inr (Some cells)"
  shows "\<forall>c \<in> set cells. ic_cpu_policy c = None"
proof -
  have man: "\<forall>c \<in> set cs. ic_cpu_policy c = None"
    if man: "numa_get_constraints_manual it n fl l m = Inr cs" for n l m cs
  proof -
    obtain t av where f: "rfold (manual_node it fl l m) ([], 0, set (py_range 0 (fl_vcpus fl))) (py_range 0 n)
        = Inr (cs, t, av)"
      using man by (auto simp: numa_get_constraints_manual_def rbind_eq_Inr split: if_splits prod.splits)
    have "case (cs, t, av) of (cs, _) \<Rightarrow> \<forall>c \<in> set cs. ic_cpu_policy c = None"
      by (rule rfold_invariant[OF f, of "\<lambda>st. case st of (cs, _) \<Rightarrow> \<forall>c \<in> set cs. ic_cpu_policy c = None"])
        (auto simp: manual_node_def Let_def rbind_eq_Inr InstanceNUMACell_def split: if_splits)
    then show ?thesis by simp
  qed
  have aut: "\<forall>c \<in> set cs. ic_cpu_policy c = None" if "numa_get_constraints_auto n fl = Inr cs" for n cs
    using that by (auto simp: numa_get_constraints_auto_def Let_def InstanceNUMACell_def split: if_splits)
  define n where "n = (if int_true nodes then the nodes else 1)"
  obtain cpu_list mem_list cells0 where
      "(case cpu_list of None \<Rightarrow> numa_get_constraints_auto n fl
        | Some l \<Rightarrow> numa_get_constraints_manual it n fl l (the mem_list)) = Inr cells0"
    and cells: "cells = map (\<lambda>c. c\<lparr>ic_pagesize := pagesize\<rparr>) cells0"
    using assms unfolding requested_topology_def n_def[symmetric]
    by (auto simp: rbind_eq_Inr split: if_splits)
  then have "\<forall>c \<in> set cells0. ic_cpu_policy c = None" using man aut by (auto split: option.splits)
  then show ?thesis by (simp add: cells)
qed

lemma effective_thread_policy_fixed:
  assumes "effective_thread_policy (Some (cpu_thread_policy_str tp)) img = Inr r" "tp \<noteq> PREFER"
  shows "r = Some (cpu_thread_policy_str tp) \<and> img \<in> {None, Some tp}"
proof -
  have inj: "cpu_thread_policy_str x = cpu_thread_policy_str y \<longleftrightarrow> x = y" for x y
    by (cases x; cases y) simp_all
  have "cpu_thread_policy_str tp \<noteq> ''prefer''" using assms(2) by (cases tp) simp_all
  then show ?thesis using assms
    by (cases img) (auto simp: effective_thread_policy_def inj Let_def split: if_splits)
qed

text \<open>The CPU policy of the result: with the flavor's \<open>dedicated\<close>, or the image's when
  the flavor does not say \<open>shared\<close>, there is a topology and all its cells are dedicated; with the
  flavor's \<open>shared\<close> the image does not ask for \<open>dedicated\<close>, the instance is not a realtime one and
  no cell is pinned; and an \<open>isolate\<close> or \<open>require\<close> thread policy of the flavor is the policy of
  every dedicated cell, which the image repeats at most.\<close>

theorem numa_constraints_policy:
  assumes "numa_get_constraints it fl props = Inr topology"
  shows "(if dget (fl_extra_specs fl) ''hw:cpu_policy'' = Some ''dedicated'' \<or>
      (hw_cpu_policy props = Some DEDICATED \<and> dget (fl_extra_specs fl) ''hw:cpu_policy'' \<noteq> Some ''shared'')
    then \<exists>cells. topology = Some cells \<and> cells \<noteq> [] \<and> it_cpu_pinning_requested cells \<and>
      (\<forall>tp. tp \<noteq> PREFER \<longrightarrow> flavor_thread_policy fl = Some (cpu_thread_policy_str tp) \<longrightarrow>
        hw_cpu_thread_policy props \<in> {None, Some tp} \<and> (\<forall>c \<in> set cells. ic_cpu_thread_policy c = Some tp))
    else hw_cpu_policy props \<noteq> Some DEDICATED \<and> \<not> is_realtime_enabled fl \<and>
      hw_cpu_thread_policy props = None \<and> \<not> str_true (flavor_thread_policy fl) \<and>
      (\<forall>c \<in> set (opt_or topology []). \<not> ic_cpu_pinning_requested c))"
  using assms
proof (rule numa_get_constraints_Inr)
  fix nodes pagesize t
  assume t: "requested_topology it fl props nodes pagesize = Inr t"
    and a: "add_cpu_pinning_constraint fl props t = Inr topology"
  from a show ?thesis
  proof (cases rule: add_pinning_Inr)
    case shared
    have "\<forall>c \<in> set (opt_or t []). \<not> ic_cpu_pinning_requested c"
      using t requested_topology_unpinned by (cases t) (auto simp: ic_cpu_pinning_requested_def)
    then show ?thesis using shared by (auto simp: effective_cpu_policy_def split: if_splits)
  next
    case (dedicated tp tp')
    have "pinning_base fl t \<noteq> []" by (cases t) (simp_all add: pinning_base_def)
    then have "\<exists>cells. topology = Some cells \<and> cells \<noteq> [] \<and> it_cpu_pinning_requested cells \<and>
        (\<forall>c \<in> set cells. ic_cpu_thread_policy c = tp')"
      using dedicated(4) by (auto simp: it_cpu_pinning_requested_def ic_cpu_pinning_requested_def)
    moreover have "hw_cpu_thread_policy props \<in> {None, Some p} \<and> tp' = Some p"
      if "p \<noteq> PREFER" "flavor_thread_policy fl = Some (cpu_thread_policy_str p)" for p
      using effective_thread_policy_fixed[OF dedicated(2)[unfolded that(2)] that(1)] dedicated(3) by auto
    ultimately show ?thesis using dedicated(1)
      by (auto simp: effective_cpu_policy_def split: if_splits)
  qed
qed

theorem numa_constraints_policy_witness:
  "it_cpu_pinning_requested demo_topology \<and> map ic_cpu_thread_policy demo_topology = [Some REQUIRE, Some REQUIRE]"
proof -
  have "dget (fl_extra_specs demo_flavor) ''hw:cpu_policy'' = Some ''dedicated''"
    "flavor_thread_policy demo_flavor = Some (cpu_thread_policy_str REQUIRE)"
    by (simp_all add: demo_flavor_def)
  then have "it_cpu_pinning_requested demo_topology \<and>
      (\<forall>c \<in> set demo_topology. ic_cpu_thread_policy c = Some REQUIRE)"
    using numa_constraints_policy[OF demo_constraints] by force
  then show ?thesis by (simp add: demo_topology_def)
qed

text \<open>A requested page size that comes back is positive or one of the three symbolic sizes;
  the image may only replace \<open>any\<close> and \<open>large\<close>, so a size that the flavor fixes is never changed by
  the image, and an image cannot ask for a size when the flavor does not.\<close>

theorem pagesize_constraints_bounds:
  "(case numa_get_pagesize_constraints fl props of
     Inr (Some p) \<Rightarrow>
       (p > 0 \<or> p \<in> {MEMPAGES_ANY, MEMPAGES_LARGE, MEMPAGES_SMALL}) \<and>
       str_true (dget (fl_extra_specs fl) ''hw:mem_page_size'') \<and>
       (str_true (hw_mem_page_size props) \<longrightarrow>
          the (dget (fl_extra_specs fl) ''hw:mem_page_size'') \<in> {''any'', ''large''}) \<and>
       (\<not> str_true (hw_mem_page_size props) \<longrightarrow>
          check_and_return_pages_size (the (dget (fl_extra_specs fl) ''hw:mem_page_size'')) = Inr p)
   | Inr None \<Rightarrow> \<not> str_true (dget (fl_extra_specs fl) ''hw:mem_page_size'') \<and>
       \<not> str_true (hw_mem_page_size props)
   | Inl e \<Rightarrow> (\<exists>n. e = MemoryPageSizeInvalid n \<and> n \<le> 0) \<or> (\<exists>a b. e = MemoryPageSizeForbidden a b))"
proof -
  have chk: "case check_and_return_pages_size s of
      Inr p \<Rightarrow> (p > 0 \<or> p \<in> {MEMPAGES_ANY, MEMPAGES_LARGE, MEMPAGES_SMALL}) \<and>
        (p \<in> {MEMPAGES_ANY, MEMPAGES_LARGE} \<longrightarrow> s \<in> {''any'', ''large''})
    | Inl e \<Rightarrow> \<exists>n. e = MemoryPageSizeInvalid n \<and> n \<le> 0" for s
    by (auto simp: check_and_return_pages_size_def Let_def MEMPAGES_ANY_def MEMPAGES_LARGE_def
      MEMPAGES_SMALL_def not_le)
  let ?f = "opt_or (dget (fl_extra_specs fl) ''hw:mem_page_size'') ''''"
  let ?i = "opt_or (hw_mem_page_size props) ''''"
  have tr: "str_true x \<longleftrightarrow> opt_or x '''' \<noteq> ''''" "opt_or x '''' \<noteq> '''' \<Longrightarrow> the x = opt_or x ''''" for x
    by (cases x; simp add: str_true_def)+
  show ?thesis
    using chk[of ?f] chk[of ?i] tr
    unfolding numa_get_pagesize_constraints_def Let_def tr(1)
    by (cases "check_and_return_pages_size ?f"; cases "check_and_return_pages_size ?i"; cases "?f = ''''"; cases "?i = ''''")
      auto
qed

definition pages_flavor :: flavor where
  "pages_flavor = demo_flavor\<lparr>fl_extra_specs := [(''hw:mem_page_size'', ''large'')]\<rparr>"

definition pages_image :: image_props where
  "pages_image = no_image_props\<lparr>hw_mem_page_size := Some ''2MB''\<rparr>"

lemma pages_request: "numa_get_pagesize_constraints pages_flavor pages_image = Inr (Some 2048)"
  by code_simp

theorem pagesize_constraints_bounds_witness:
  "(2048 > (0::int) \<or> 2048 \<in> {MEMPAGES_ANY, MEMPAGES_LARGE, MEMPAGES_SMALL}) \<and>
   str_true (dget (fl_extra_specs pages_flavor) ''hw:mem_page_size'')"
  using pagesize_constraints_bounds[of pages_flavor pages_image] by (simp add: pages_request)

end
