(* ===== verification/Host_State.thy ===== *)
theory Host_State
  imports Numa_Constraints
begin

text \<open>
  What the filter scheduler works on: the configuration options it reads, the request
  (\<open>nova/objects/request_spec.py\<close>, the fields the scheduler uses), the state of a host
  (\<open>HostState\<close> of \<open>nova/scheduler/host_manager.py\<close>) with its update from a compute node, the
  helpers of \<open>nova/scheduler/filters/utils.py\<close> and the operators of
  \<open>nova/scheduler/filters/extra_specs_ops.py\<close>. Floats are exact rationals; \<open>inf\<close> and \<open>nan\<close>
  are not numbers of the model.
\<close>

section \<open>Configuration and request\<close>

record sched_config =
  cf_max_io_ops_per_host :: int
  cf_max_instances_per_host :: int
  cf_default_availability_zone :: string
  cf_isolated_hosts :: "string list"
  cf_isolated_images :: "string list"
  cf_restrict_isolated :: bool
  cf_isolation_namespace :: "string option"
  cf_isolation_separator :: string
  cf_scheduler_host_subset_size :: int
  cf_service_is_up :: "string \<Rightarrow> bool"
  cf_set_order :: "int set \<Rightarrow> int list"
  cf_string_order :: "string set \<Rightarrow> string list"

record instance_group =
  ig_policies :: "string list"
  ig_hosts :: "string list"
  ig_members :: "string list"

text \<open>\<open>rs_image_id\<close> is \<open>None\<close> when the request has no image; \<open>rs_image_properties\<close> holds the
  image's properties as strings, those that are unset or false left out.\<close>

record request_spec =
  rs_num_instances :: nat
  rs_vcpus :: int
  rs_memory_mb :: int
  rs_root_gb :: int
  rs_ephemeral_gb :: int
  rs_swap :: int
  rs_flavor :: flavor
  rs_project_id :: string
  rs_availability_zone :: "string option"
  rs_image_id :: "string option"
  rs_image_props :: image_props
  rs_image_properties :: "string sdict"
  rs_instance_group :: "instance_group option"
  rs_retry :: "(string \<times> string) list option"
  rs_different_host :: "string list"
  rs_same_host :: "string list"
  rs_ignore_hosts :: "string list"
  rs_force_hosts :: "string list"
  rs_force_nodes :: "string list"
  rs_numa_topology :: "inst_topology option"
  rs_pci_requests :: "pci_request list option"

section \<open>Hosts\<close>

record host_limits =
  lim_vcpu :: "rat option"
  lim_memory_mb :: "rat option"
  lim_disk_gb :: "rat option"
  lim_numa_topology :: "numa_limits option"

definition no_limits :: host_limits where
  "no_limits = \<lparr>lim_vcpu = None, lim_memory_mb = None, lim_disk_gb = None, lim_numa_topology = None\<rparr>"

text \<open>\<open>hs_instances\<close>: the uuids of the instances with their flavor ids.\<close>

record host_state =
  hs_host :: string
  hs_nodename :: string
  hs_total_usable_ram_mb :: int
  hs_total_usable_disk_gb :: int
  hs_disk_mb_used :: int
  hs_free_ram_mb :: int
  hs_free_disk_mb :: int
  hs_vcpus_total :: int
  hs_vcpus_used :: int
  hs_pci_stats :: "pci_pool list option"
  hs_numa_topology :: "numa_topology option"
  hs_num_instances :: int
  hs_num_io_ops :: int
  hs_limits :: host_limits
  hs_aggregates :: "string sdict list"
  hs_instances :: "(string \<times> int) list"
  hs_ram_allocation_ratio :: rat
  hs_cpu_allocation_ratio :: rat
  hs_disk_allocation_ratio :: rat
  hs_service_disabled :: bool
  hs_updated :: "int option"

definition new_host_state :: "string \<Rightarrow> string \<Rightarrow> host_state" where
  "new_host_state host node =
     \<lparr>hs_host = host, hs_nodename = node, hs_total_usable_ram_mb = 0, hs_total_usable_disk_gb = 0,
      hs_disk_mb_used = 0, hs_free_ram_mb = 0, hs_free_disk_mb = 0, hs_vcpus_total = 0,
      hs_vcpus_used = 0, hs_pci_stats = None, hs_numa_topology = None, hs_num_instances = 0,
      hs_num_io_ops = 0, hs_limits = no_limits, hs_aggregates = [], hs_instances = [],
      hs_ram_allocation_ratio = 0, hs_cpu_allocation_ratio = 0, hs_disk_allocation_ratio = 0,
      hs_service_disabled = False, hs_updated = None\<rparr>"

record compute_node =
  cn_memory_mb :: int
  cn_free_disk_gb :: int
  cn_disk_available_least :: "int option"
  cn_local_gb_used :: int
  cn_free_ram_mb :: int
  cn_local_gb :: int
  cn_vcpus :: int
  cn_vcpus_used :: int
  cn_updated_at :: "int option"
  cn_numa_topology :: "numa_topology option"
  cn_pci_device_pools :: "pci_pool list option"
  cn_num_instances :: int
  cn_io_workload :: int
  cn_cpu_allocation_ratio :: rat
  cn_ram_allocation_ratio :: rat
  cn_disk_allocation_ratio :: rat

text \<open>Times are numbers; a time of \<open>None\<close> is false. An older compute node record is ignored.\<close>

definition update_from_compute_node :: "host_state \<Rightarrow> compute_node \<Rightarrow> host_state" where
  "update_from_compute_node h c =
     (if (case (hs_updated h, cn_updated_at c) of (Some u, Some a) \<Rightarrow> u > a | _ \<Rightarrow> False) then h
      else
        let free_gb = (case cn_disk_available_least c of
                         None \<Rightarrow> cn_free_disk_gb c
                       | Some least_gb \<Rightarrow> min least_gb (cn_free_disk_gb c))
        in h\<lparr>hs_disk_mb_used := cn_local_gb_used c * 1024,
             hs_free_ram_mb := cn_free_ram_mb c,
             hs_total_usable_ram_mb := cn_memory_mb c,
             hs_total_usable_disk_gb := cn_local_gb c,
             hs_free_disk_mb := free_gb * 1024,
             hs_vcpus_total := cn_vcpus c,
             hs_vcpus_used := cn_vcpus_used c,
             hs_updated := cn_updated_at c,
             hs_numa_topology := cn_numa_topology c,
             hs_pci_stats := Some (pci_stats_init (cn_pci_device_pools c)),
             hs_num_instances := cn_num_instances c,
             hs_num_io_ops := cn_io_workload c,
             hs_cpu_allocation_ratio := cn_cpu_allocation_ratio c,
             hs_ram_allocation_ratio := cn_ram_allocation_ratio c,
             hs_disk_allocation_ratio := cn_disk_allocation_ratio c\<rparr>)"

text \<open>\<open>HostState.update\<close>; the instances and aggregates are taken over after the compute node.\<close>

definition host_update ::
  "host_state \<Rightarrow> compute_node option \<Rightarrow> bool option \<Rightarrow> string sdict list option \<Rightarrow>
    (string \<times> int) list option \<Rightarrow> host_state" where
  "host_update h compute service_disabled aggregates inst_dict =
     (let h1 = (case compute of None \<Rightarrow> h | Some c \<Rightarrow> update_from_compute_node h c);
          h2 = (case aggregates of None \<Rightarrow> h1 | Some a \<Rightarrow> h1\<lparr>hs_aggregates := a\<rparr>);
          h3 = (case service_disabled of None \<Rightarrow> h2 | Some s \<Rightarrow> h2\<lparr>hs_service_disabled := s\<rparr>)
      in (case inst_dict of None \<Rightarrow> h3 | Some i \<Rightarrow> h3\<lparr>hs_instances := i\<rparr>))"

section \<open>Numbers in strings\<close>

text \<open>\<open>float(s)\<close>: an optional sign, digits with at most one point, an optional exponent.\<close>

definition parse_decimal :: "string \<Rightarrow> rat option" where
  "parse_decimal t =
     (let whole = takeWhile is_digit t; r = dropWhile is_digit t
      in if r = [] then (if whole = [] then None else Some (of_nat (parse_digits whole)))
         else if hd r = CHR ''.'' \<and> (whole \<noteq> [] \<or> tl r \<noteq> []) \<and> list_all is_digit (tl r)
         then Some (of_nat (parse_digits whole) + of_nat (parse_digits (tl r)) / 10 ^ length (tl r))
         else None)"

definition py_float :: "string \<Rightarrow> rat option" where
  "py_float s =
     (let t = strip s;
          neg = (t \<noteq> [] \<and> hd t = CHR ''-'');
          u = (if t \<noteq> [] \<and> (hd t = CHR ''-'' \<or> hd t = CHR ''+'') then tl t else t);
          is_e = (\<lambda>c. c = CHR ''e'' \<or> c = CHR ''E'');
          m = takeWhile (\<lambda>c. \<not> is_e c) u;
          r = dropWhile (\<lambda>c. \<not> is_e c) u;
          ex = (if r = [] then Some 0
                else if tl r \<noteq> [] \<and> \<not> is_space (hd (tl r)) \<and> \<not> is_space (last (tl r))
                then int_of_str (tl r) else None)
      in (case (parse_decimal m, ex) of
            (Some x, Some e) \<Rightarrow>
              Some ((if neg then -1 else 1) * x * (if e \<ge> 0 then 10 ^ nat e else 1 / 10 ^ nat (- e)))
          | _ \<Rightarrow> None))"

section \<open>Helpers of the filters\<close>

text \<open>The set of values is a list without duplicates.\<close>

definition aggregate_values_from_key :: "host_state \<Rightarrow> string \<Rightarrow> string list" where
  "aggregate_values_from_key h key_name =
     remdups (List.map_filter (\<lambda>metadata. dget metadata key_name) (hs_aggregates h))"

fun dict_union :: "'k \<Rightarrow> 'v set \<Rightarrow> ('k \<times> 'v set) list \<Rightarrow> ('k \<times> 'v set) list" where
  "dict_union k s [] = [(k, s)]"
| "dict_union k s ((k', s') # d) = (if k = k' then (k', s' \<union> s) # d else (k', s') # dict_union k s d)"

definition aggregate_metadata_get_by_host :: "host_state \<Rightarrow> string option \<Rightarrow> (string \<times> string set) list" where
  "aggregate_metadata_get_by_host h key =
     foldl (\<lambda>d metadata.
       if (case key of None \<Rightarrow> True | Some k \<Rightarrow> dget metadata k \<noteq> None)
       then foldl (\<lambda>d (k, v). dict_union k (set (map strip (split_on (CHR '','') v))) d) d metadata
       else d) [] (hs_aggregates h)"

text \<open>\<open>validate_num_values(vals, default, cast_to)\<close> with \<open>based_on=min\<close>; \<open>None\<close>: \<open>ValueError\<close>.\<close>

definition validate_num_values :: "string list \<Rightarrow> 'a \<Rightarrow> (string \<Rightarrow> 'a option) \<Rightarrow> 'a::linorder option" where
  "validate_num_values vals dflt cast_to =
     (if vals = [] then Some dflt
      else if list_all (\<lambda>v. cast_to v \<noteq> None) vals
      then Some (Min (set (map (the \<circ> cast_to) vals))) else None)"

text \<open>The pattern of the aggregate filters: a value that does not parse falls back to the default.\<close>

definition aggregate_value_or :: "host_state \<Rightarrow> string \<Rightarrow> 'a \<Rightarrow> (string \<Rightarrow> 'a option) \<Rightarrow> 'a::linorder" where
  "aggregate_value_or h key dflt cast_to =
     opt_or (validate_num_values (aggregate_values_from_key h key) dflt cast_to) dflt"

definition instance_uuids_overlap :: "host_state \<Rightarrow> string list \<Rightarrow> bool" where
  "instance_uuids_overlap h uuids \<longleftrightarrow> list_ex (\<lambda>u. u \<in> set (map fst (hs_instances h))) uuids"

definition other_types_on_host :: "host_state \<Rightarrow> int \<Rightarrow> bool" where
  "other_types_on_host h type_id \<longleftrightarrow> list_ex (\<lambda>(_, t). t \<noteq> type_id) (hs_instances h)"

section \<open>Extra specs operators\<close>

definition substring :: "string \<Rightarrow> string \<Rightarrow> bool" where
  "substring y x \<longleftrightarrow> list_ex (\<lambda>i. take (length y) (drop i x) = y) [0..<Suc (length x)]"

fun string_less :: "string \<Rightarrow> string \<Rightarrow> bool" where
  "string_less _ [] = False"
| "string_less [] (_ # _) = True"
| "string_less (a # as) (b # bs) =
     (if a = b then string_less as bs else (of_char a :: nat) < of_char b)"

definition float_op :: "(rat \<Rightarrow> rat \<Rightarrow> bool) \<Rightarrow> string \<Rightarrow> string \<Rightarrow> bool nova" where
  "float_op f x y = (case (py_float x, py_float y) of
     (Some a, Some b) \<Rightarrow> Inr (f a b) | _ \<Rightarrow> Inl PyValueError)"

text \<open>\<open>op_methods\<close>; \<open><all-in>\<close> and \<open><or>\<close> take all words and are in \<open>extra_specs_match\<close>.\<close>

definition op_method :: "string \<Rightarrow> (string \<Rightarrow> string \<Rightarrow> bool nova) option" where
  "op_method op =
     (if op = ''='' then Some (float_op (\<ge>))
      else if op = ''<in>'' then Some (\<lambda>x y. Inr (substring y x))
      else if op = ''<all-in>'' then Some (\<lambda>x y. Inr (substring y x))
      else if op = ''=='' then Some (float_op (=))
      else if op = ''!='' then Some (float_op (\<noteq>))
      else if op = ''>='' then Some (float_op (\<ge>))
      else if op = ''<='' then Some (float_op (\<le>))
      else if op = ''s=='' then Some (\<lambda>x y. Inr (x = y))
      else if op = ''s!='' then Some (\<lambda>x y. Inr (x \<noteq> y))
      else if op = ''s<'' then Some (\<lambda>x y. Inr (string_less x y))
      else if op = ''s<='' then Some (\<lambda>x y. Inr (x = y \<or> string_less x y))
      else if op = ''s>'' then Some (\<lambda>x y. Inr (string_less y x))
      else if op = ''s>='' then Some (\<lambda>x y. Inr (x = y \<or> string_less y x))
      else None)"

text \<open>The loop of \<open><or>\<close>: a value, then a word that is dropped, and so on.\<close>

fun or_words :: "string list \<Rightarrow> string \<Rightarrow> bool nova" where
  "or_words [] value = Inl PyIndexError"
| "or_words [w] value = Inr (w = value)"
| "or_words [w, _] value = Inr (w = value)"
| "or_words (w # _ # v # ws) value = (if w = value then Inr True else or_words (v # ws) value)"

definition extra_specs_match :: "string option \<Rightarrow> string \<Rightarrow> bool nova" where
  "extra_specs_match value req =
     (let words = split_words req
      in case words of
           [] \<Rightarrow> Inr (value = Some req)
         | op # words \<Rightarrow>
             (if op \<noteq> ''<or>'' \<and> op_method op = None then Inr (value = Some req)
              else case value of
                     None \<Rightarrow> Inr False
                   | Some v \<Rightarrow>
                       (if op = ''<or>'' then or_words words v
                        else if words = [] then Inr False
                        else if op = ''<all-in>'' then Inr (list_all (\<lambda>w. substring w v) words)
                        else the (op_method op) v (hd words))))"

end
