(* ===== verification/Host_Filters.thy ===== *)
theory Host_Filters
  imports Host_State
begin

text \<open>
  The host filters of \<open>nova/scheduler/filters/\<close> and the filter loop of \<open>nova/filters.py\<close>. A
  filter may write to the host it looks at (the limits for the compute node), and the NUMA filter
  writes to the request as well, through \<open>numa_fit_instance_to_host\<close>; so a filter returns its
  verdict with the host and the request as they are after the call. The hosts are objects that
  the list of candidates, the weighed list and the host map share: they live in a store, and a
  list of hosts is a list of positions in it.
\<close>

section \<open>Capacity\<close>

definition set_limits :: "(host_limits \<Rightarrow> host_limits) \<Rightarrow> host_state \<Rightarrow> host_state" where
  "set_limits f h = h\<lparr>hs_limits := f (hs_limits h)\<rparr>"

definition core_filter :: "rat \<Rightarrow> host_state \<Rightarrow> request_spec \<Rightarrow> bool \<times> host_state" where
  "core_filter ratio h spec =
     (if hs_vcpus_total h = 0 then (True, h)
      else
        let instance_vcpus = rs_vcpus spec;
            vcpus_total = of_int (hs_vcpus_total h) * ratio;
            h' = (if vcpus_total > 0 then set_limits (\<lambda>l. l\<lparr>lim_vcpu := Some vcpus_total\<rparr>) h else h)
        in if vcpus_total > 0 \<and> instance_vcpus > hs_vcpus_total h then (False, h')
           else let free_vcpus = vcpus_total - of_int (hs_vcpus_used h)
                in if free_vcpus < of_int instance_vcpus then (False, h') else (True, h'))"

definition ram_filter :: "rat \<Rightarrow> host_state \<Rightarrow> request_spec \<Rightarrow> bool \<times> host_state" where
  "ram_filter ratio h spec =
     (let requested_ram = rs_memory_mb spec;
          free_ram_mb = hs_free_ram_mb h;
          total_usable_ram_mb = hs_total_usable_ram_mb h
      in if \<not> total_usable_ram_mb \<ge> requested_ram then (False, h)
         else
           let memory_mb_limit = of_int total_usable_ram_mb * ratio;
               used_ram_mb = total_usable_ram_mb - free_ram_mb;
               usable_ram = memory_mb_limit - of_int used_ram_mb
           in if \<not> usable_ram \<ge> of_int requested_ram then (False, h)
              else (True, set_limits (\<lambda>l. l\<lparr>lim_memory_mb := Some memory_mb_limit\<rparr>) h))"

definition requested_disk :: "request_spec \<Rightarrow> int" where
  "requested_disk spec = 1024 * (rs_root_gb spec + rs_ephemeral_gb spec) + rs_swap spec"

definition disk_filter :: "rat \<Rightarrow> host_state \<Rightarrow> request_spec \<Rightarrow> bool \<times> host_state" where
  "disk_filter ratio h spec =
     (let free_disk_mb = hs_free_disk_mb h;
          total_usable_disk_mb = hs_total_usable_disk_gb h * 1024;
          disk_mb_limit = of_int total_usable_disk_mb * ratio;
          used_disk_mb = total_usable_disk_mb - free_disk_mb;
          usable_disk_mb = disk_mb_limit - of_int used_disk_mb
      in if \<not> usable_disk_mb \<ge> of_int (requested_disk spec) then (False, h)
         else (True, set_limits (\<lambda>l. l\<lparr>lim_disk_gb := Some (disk_mb_limit / 1024)\<rparr>) h))"

definition exact_core_filter :: "host_state \<Rightarrow> request_spec \<Rightarrow> bool \<times> host_state" where
  "exact_core_filter h spec =
     (if hs_vcpus_total h = 0 then (False, h)
      else if rs_vcpus spec \<noteq> hs_vcpus_total h - hs_vcpus_used h then (False, h)
      else (True, set_limits (\<lambda>l. l\<lparr>lim_vcpu := Some (of_int (hs_vcpus_total h))\<rparr>) h))"

definition exact_ram_filter :: "host_state \<Rightarrow> request_spec \<Rightarrow> bool \<times> host_state" where
  "exact_ram_filter h spec =
     (if rs_memory_mb spec \<noteq> hs_free_ram_mb h then (False, h)
      else (True, set_limits (\<lambda>l. l\<lparr>lim_memory_mb := Some (of_int (hs_total_usable_ram_mb h))\<rparr>) h))"

definition exact_disk_filter :: "host_state \<Rightarrow> request_spec \<Rightarrow> bool \<times> host_state" where
  "exact_disk_filter h spec =
     (if requested_disk spec \<noteq> hs_free_disk_mb h then (False, h)
      else (True, set_limits (\<lambda>l. l\<lparr>lim_disk_gb := Some (of_int (hs_total_usable_disk_gb h))\<rparr>) h))"

section \<open>Load, history and affinity\<close>

definition io_ops_filter :: "int \<Rightarrow> host_state \<Rightarrow> bool" where
  "io_ops_filter max_io_ops h \<longleftrightarrow> hs_num_io_ops h < max_io_ops"

definition num_instances_filter :: "int \<Rightarrow> host_state \<Rightarrow> bool" where
  "num_instances_filter max_instances h \<longleftrightarrow> hs_num_instances h < max_instances"

definition retry_filter :: "host_state \<Rightarrow> request_spec \<Rightarrow> bool" where
  "retry_filter h spec =
     (case rs_retry spec of None \<Rightarrow> True | Some hosts \<Rightarrow> (hs_host h, hs_nodename h) \<notin> set hosts)"

definition different_host_filter :: "host_state \<Rightarrow> request_spec \<Rightarrow> bool" where
  "different_host_filter h spec =
     (if rs_different_host spec \<noteq> [] then \<not> instance_uuids_overlap h (rs_different_host spec) else True)"

definition same_host_filter :: "host_state \<Rightarrow> request_spec \<Rightarrow> bool" where
  "same_host_filter h spec =
     (if rs_same_host spec \<noteq> [] then instance_uuids_overlap h (rs_same_host spec) else True)"

definition group_anti_affinity_filter :: "string \<Rightarrow> host_state \<Rightarrow> request_spec \<Rightarrow> bool" where
  "group_anti_affinity_filter policy_name h spec =
     (case rs_instance_group spec of
        None \<Rightarrow> True
      | Some g \<Rightarrow>
          (if policy_name \<notin> set (ig_policies g) then True
           else if ig_hosts g \<noteq> [] then hs_host h \<notin> set (ig_hosts g) else True))"

definition group_affinity_filter :: "string \<Rightarrow> host_state \<Rightarrow> request_spec \<Rightarrow> bool" where
  "group_affinity_filter policy_name h spec =
     (case rs_instance_group spec of
        None \<Rightarrow> True
      | Some g \<Rightarrow>
          (if policy_name \<notin> set (ig_policies g) then True
           else if ig_hosts g \<noteq> [] then hs_host h \<in> set (ig_hosts g) else True))"

definition type_affinity_filter :: "host_state \<Rightarrow> request_spec \<Rightarrow> bool" where
  "type_affinity_filter h spec \<longleftrightarrow> \<not> other_types_on_host h (fl_id (rs_flavor spec))"

section \<open>Aggregates\<close>

definition aggregate_type_affinity_filter :: "host_state \<Rightarrow> request_spec \<Rightarrow> bool" where
  "aggregate_type_affinity_filter h spec =
     (let vals = aggregate_values_from_key h ''instance_type''
      in list_ex (\<lambda>val. fl_name (rs_flavor spec) \<in> set (map strip (split_on (CHR '','') val))) vals
         \<or> vals = [])"

definition availability_zone_filter :: "sched_config \<Rightarrow> host_state \<Rightarrow> request_spec \<Rightarrow> bool" where
  "availability_zone_filter cf h spec =
     (if \<not> str_true (rs_availability_zone spec) then True
      else
        let az = the (rs_availability_zone spec);
            metadata = aggregate_metadata_get_by_host h (Some ''availability_zone'')
        in (case map_of metadata ''availability_zone'' of
              Some zones \<Rightarrow> az \<in> zones
            | None \<Rightarrow> az = cf_default_availability_zone cf))"

definition multitenancy_filter :: "host_state \<Rightarrow> request_spec \<Rightarrow> bool" where
  "multitenancy_filter h spec =
     (let metadata = aggregate_metadata_get_by_host h (Some ''filter_tenant_id'')
      in if metadata \<noteq> []
         then (case map_of metadata ''filter_tenant_id'' of
                 None \<Rightarrow> True
               | Some ids \<Rightarrow> if ids \<noteq> {} then rs_project_id spec \<in> ids else True)
         else True)"

definition starts_with :: "string \<Rightarrow> string \<Rightarrow> bool" where
  "starts_with p s \<longleftrightarrow> take (length p) s = p"

definition image_properties_isolation_filter :: "sched_config \<Rightarrow> host_state \<Rightarrow> request_spec \<Rightarrow> bool" where
  "image_properties_isolation_filter cf h spec =
     list_all (\<lambda>(key, options).
       if str_true (cf_isolation_namespace cf) \<and>
          \<not> starts_with (the (cf_isolation_namespace cf) @ cf_isolation_separator cf) key
       then True
       else (case dget (rs_image_properties spec) key of
               None \<Rightarrow> True
             | Some prop \<Rightarrow> prop = [] \<or> prop \<in> options))
     (aggregate_metadata_get_by_host h None)"

text \<open>The values of a key are a set; whether one of them matches does not depend on their order,
  but whether a value that is no number raises before a match is found does: \<open>order\<close> lists them.\<close>

fun any_match :: "string list \<Rightarrow> string \<Rightarrow> bool nova" where
  "any_match [] req = Inr False"
| "any_match (v # vs) req =
     rbind (extra_specs_match (Some v) req) (\<lambda>ok. if ok then Inr True else any_match vs req)"

fun instance_extra_specs_loop ::
  "(string set \<Rightarrow> string list) \<Rightarrow> (string \<times> string set) list \<Rightarrow> string sdict \<Rightarrow> bool nova" where
  "instance_extra_specs_loop order metadata [] = Inr True"
| "instance_extra_specs_loop order metadata ((key, req) # rest) =
     (let scope = split_once (CHR '':'') key
      in if length scope > 1 \<and> hd scope \<noteq> ''aggregate_instance_extra_specs''
         then instance_extra_specs_loop order metadata rest
         else (case map_of metadata (last scope) of
                 None \<Rightarrow> Inr False
               | Some vals \<Rightarrow>
                   (if vals = {} then Inr False
                    else rbind (any_match (order vals) req) (\<lambda>ok.
                           if ok then instance_extra_specs_loop order metadata rest
                           else Inr False))))"

definition instance_extra_specs_filter ::
  "(string set \<Rightarrow> string list) \<Rightarrow> host_state \<Rightarrow> request_spec \<Rightarrow> bool nova" where
  "instance_extra_specs_filter order h spec =
     (if fl_extra_specs (rs_flavor spec) = [] then Inr True
      else instance_extra_specs_loop order (aggregate_metadata_get_by_host h None)
             (fl_extra_specs (rs_flavor spec)))"

section \<open>Isolation, service state, PCI and NUMA\<close>

definition isolated_hosts_filter :: "sched_config \<Rightarrow> host_state \<Rightarrow> request_spec \<Rightarrow> bool" where
  "isolated_hosts_filter cf h spec =
     (if cf_isolated_images cf = []
      then \<not> cf_restrict_isolated cf \<or> hs_host h \<notin> set (cf_isolated_hosts cf)
      else
        let image_isolated = (case rs_image_id spec of
              None \<Rightarrow> False | Some i \<Rightarrow> i \<in> set (cf_isolated_images cf));
            host_isolated = hs_host h \<in> set (cf_isolated_hosts cf)
        in if cf_restrict_isolated cf then image_isolated = host_isolated
           else \<not> image_isolated \<or> host_isolated)"

definition compute_filter :: "sched_config \<Rightarrow> host_state \<Rightarrow> bool" where
  "compute_filter cf h \<longleftrightarrow> \<not> hs_service_disabled h \<and> cf_service_is_up cf (hs_host h)"

definition pci_passthrough_filter :: "host_state \<Rightarrow> request_spec \<Rightarrow> bool nova" where
  "pci_passthrough_filter h spec =
     (case rs_pci_requests spec of
        None \<Rightarrow> Inr True
      | Some reqs \<Rightarrow> (case hs_pci_stats h of
                       None \<Rightarrow> Inl PyAttributeError
                     | Some pools \<Rightarrow> Inr (support_requests pools reqs [])))"

definition satisfies_cpu_policy :: "host_state \<Rightarrow> request_spec \<Rightarrow> bool" where
  "satisfies_cpu_policy h spec =
     (let extra_specs = fl_extra_specs (rs_flavor spec);
          cpu_policy = [dget extra_specs ''hw:cpu_policy'',
            map_option cpu_policy_str (hw_cpu_policy (rs_image_props spec))];
          cpu_thread_policy = [dget extra_specs ''hw:cpu_thread_policy'',
            map_option cpu_thread_policy_str (hw_cpu_thread_policy (rs_image_props spec))];
          host_topology = opt_or (hs_numa_topology h) []
      in if host_topology = [] then True
         else if Some (cpu_policy_str DEDICATED) \<notin> set cpu_policy then True
         else if Some (cpu_thread_policy_str REQUIRE) \<notin> set cpu_thread_policy then True
         else list_all (\<lambda>cell. nc_siblings cell \<noteq> []) host_topology)"

definition numa_topology_filter ::
  "sched_config \<Rightarrow> host_state \<Rightarrow> request_spec \<Rightarrow> (bool \<times> host_state \<times> request_spec) nova" where
  "numa_topology_filter cf h spec =
     (if rs_image_id spec = None then Inl PyAttributeError
      else if \<not> satisfies_cpu_policy h spec then Inr (False, h, spec)
      else
        let requested = opt_or (rs_numa_topology spec) [];
            host_topology = opt_or (hs_numa_topology h) []
        in if requested \<noteq> [] \<and> host_topology \<noteq> []
           then let limits = \<lparr>cpu_allocation_ratio = hs_cpu_allocation_ratio h,
                              ram_allocation_ratio = hs_ram_allocation_ratio h\<rparr>;
                    (cells, r) = numa_fit_instance_to_host (cf_set_order cf) host_topology requested
                      (Some limits) (opt_or (rs_pci_requests spec) []) (hs_pci_stats h);
                    spec' = spec\<lparr>rs_numa_topology := Some cells\<rparr>
                in rbind r (\<lambda>instance_topology.
                     if opt_or instance_topology [] = [] then Inr (False, h, spec')
                     else Inr (True, set_limits (\<lambda>l. l\<lparr>lim_numa_topology := Some limits\<rparr>) h, spec'))
           else if requested \<noteq> [] then Inr (False, h, spec)
           else Inr (True, h, spec))"

section \<open>The filter classes\<close>

datatype host_filter =
    AllHostsFilter
  | CoreFilter | AggregateCoreFilter
  | RamFilter | AggregateRamFilter
  | DiskFilter | AggregateDiskFilter
  | ExactCoreFilter | ExactRamFilter | ExactDiskFilter
  | IoOpsFilter | AggregateIoOpsFilter
  | NumInstancesFilter | AggregateNumInstancesFilter
  | RetryFilter
  | DifferentHostFilter | SameHostFilter
  | ServerGroupAntiAffinityFilter | ServerGroupAffinityFilter
  | TypeAffinityFilter | AggregateTypeAffinityFilter
  | AvailabilityZoneFilter
  | AggregateMultiTenancyIsolation
  | AggregateImagePropertiesIsolation
  | AggregateInstanceExtraSpecsFilter
  | IsolatedHostsFilter
  | ComputeFilter
  | PciPassthroughFilter
  | NUMATopologyFilter

definition run_filter_once_per_request :: "host_filter \<Rightarrow> bool" where
  "run_filter_once_per_request f \<longleftrightarrow>
     f \<in> set [AllHostsFilter, DifferentHostFilter, SameHostFilter, AggregateTypeAffinityFilter,
       AvailabilityZoneFilter, AggregateMultiTenancyIsolation, AggregateImagePropertiesIsolation,
       AggregateInstanceExtraSpecsFilter, IsolatedHostsFilter, ComputeFilter]"

definition run_filter_for_index :: "host_filter \<Rightarrow> nat \<Rightarrow> bool" where
  "run_filter_for_index f index = (if run_filter_once_per_request f \<and> index > 0 then False else True)"

section \<open>Running the filters\<close>

definition pure_result :: "request_spec \<Rightarrow> bool \<times> host_state \<Rightarrow> (bool \<times> host_state \<times> request_spec) nova" where
  "pure_result spec r = Inr (fst r, snd r, spec)"

fun host_passes ::
  "sched_config \<Rightarrow> host_filter \<Rightarrow> host_state \<Rightarrow> request_spec \<Rightarrow> (bool \<times> host_state \<times> request_spec) nova" where
  "host_passes cf AllHostsFilter h spec = Inr (True, h, spec)"
| "host_passes cf CoreFilter h spec = pure_result spec (core_filter (hs_cpu_allocation_ratio h) h spec)"
| "host_passes cf AggregateCoreFilter h spec = pure_result spec
     (core_filter (aggregate_value_or h ''cpu_allocation_ratio'' (hs_cpu_allocation_ratio h) py_float) h spec)"
| "host_passes cf RamFilter h spec = pure_result spec (ram_filter (hs_ram_allocation_ratio h) h spec)"
| "host_passes cf AggregateRamFilter h spec = pure_result spec
     (ram_filter (aggregate_value_or h ''ram_allocation_ratio'' (hs_ram_allocation_ratio h) py_float) h spec)"
| "host_passes cf DiskFilter h spec = pure_result spec (disk_filter (hs_disk_allocation_ratio h) h spec)"
| "host_passes cf AggregateDiskFilter h spec = pure_result spec
     (disk_filter (aggregate_value_or h ''disk_allocation_ratio'' (hs_disk_allocation_ratio h) py_float) h spec)"
| "host_passes cf ExactCoreFilter h spec = pure_result spec (exact_core_filter h spec)"
| "host_passes cf ExactRamFilter h spec = pure_result spec (exact_ram_filter h spec)"
| "host_passes cf ExactDiskFilter h spec = pure_result spec (exact_disk_filter h spec)"
| "host_passes cf IoOpsFilter h spec = Inr (io_ops_filter (cf_max_io_ops_per_host cf) h, h, spec)"
| "host_passes cf AggregateIoOpsFilter h spec = Inr (io_ops_filter
     (aggregate_value_or h ''max_io_ops_per_host'' (cf_max_io_ops_per_host cf) int_of_str) h, h, spec)"
| "host_passes cf NumInstancesFilter h spec =
     Inr (num_instances_filter (cf_max_instances_per_host cf) h, h, spec)"
| "host_passes cf AggregateNumInstancesFilter h spec = Inr (num_instances_filter
     (aggregate_value_or h ''max_instances_per_host'' (cf_max_instances_per_host cf) int_of_str) h, h, spec)"
| "host_passes cf RetryFilter h spec = Inr (retry_filter h spec, h, spec)"
| "host_passes cf DifferentHostFilter h spec = Inr (different_host_filter h spec, h, spec)"
| "host_passes cf SameHostFilter h spec = Inr (same_host_filter h spec, h, spec)"
| "host_passes cf ServerGroupAntiAffinityFilter h spec =
     Inr (group_anti_affinity_filter ''anti-affinity'' h spec, h, spec)"
| "host_passes cf ServerGroupAffinityFilter h spec =
     Inr (group_affinity_filter ''affinity'' h spec, h, spec)"
| "host_passes cf TypeAffinityFilter h spec = Inr (type_affinity_filter h spec, h, spec)"
| "host_passes cf AggregateTypeAffinityFilter h spec = Inr (aggregate_type_affinity_filter h spec, h, spec)"
| "host_passes cf AvailabilityZoneFilter h spec = Inr (availability_zone_filter cf h spec, h, spec)"
| "host_passes cf AggregateMultiTenancyIsolation h spec = Inr (multitenancy_filter h spec, h, spec)"
| "host_passes cf AggregateImagePropertiesIsolation h spec =
     Inr (image_properties_isolation_filter cf h spec, h, spec)"
| "host_passes cf AggregateInstanceExtraSpecsFilter h spec =
     rbind (instance_extra_specs_filter (cf_string_order cf) h spec) (\<lambda>ok. Inr (ok, h, spec))"
| "host_passes cf IsolatedHostsFilter h spec = Inr (isolated_hosts_filter cf h spec, h, spec)"
| "host_passes cf ComputeFilter h spec = Inr (compute_filter cf h, h, spec)"
| "host_passes cf PciPassthroughFilter h spec =
     rbind (pci_passthrough_filter h spec) (\<lambda>ok. Inr (ok, h, spec))"
| "host_passes cf NUMATopologyFilter h spec = numa_topology_filter cf h spec"

text \<open>\<open>BaseFilter.filter_all\<close> on the hosts at the given positions of the store; \<open>passes\<close> is
  \<open>_filter_one\<close>.\<close>

fun filter_all ::
  "('h \<Rightarrow> 's \<Rightarrow> ('e, bool \<times> 'h \<times> 's) result) \<Rightarrow> 'h list \<Rightarrow> 's \<Rightarrow> nat list \<Rightarrow> ('e, 'h list \<times> 's \<times> nat list) result"
where
  "filter_all passes store spec [] = Inr (store, spec, [])"
| "filter_all passes store spec (a # as) =
     rbind (passes (store ! a) spec) (\<lambda>(ok, h, spec).
     rbind (filter_all passes (store[a := h]) spec as) (\<lambda>(store, spec, rest).
       Inr (store, spec, if ok then a # rest else rest)))"

text \<open>The loop of \<open>get_filtered_objects\<close>: it stops when no host is left.\<close>

fun run_filters ::
  "('f \<Rightarrow> 'h \<Rightarrow> 's \<Rightarrow> ('e, bool \<times> 'h \<times> 's) result) \<Rightarrow> ('f \<Rightarrow> bool) \<Rightarrow> 'f list \<Rightarrow> 'h list \<Rightarrow> 's \<Rightarrow> nat list
    \<Rightarrow> ('e, 'h list \<times> 's \<times> nat list) result" where
  "run_filters passes runs [] store spec objs = Inr (store, spec, objs)"
| "run_filters passes runs (f # fs) store spec objs =
     (if runs f
      then rbind (filter_all (passes f) store spec objs) (\<lambda>(store, spec, objs).
             if objs = [] then Inr (store, spec, []) else run_filters passes runs fs store spec objs)
      else run_filters passes runs fs store spec objs)"

definition get_filtered_objects ::
  "sched_config \<Rightarrow> host_filter list \<Rightarrow> host_state list \<Rightarrow> request_spec \<Rightarrow> nat list \<Rightarrow> nat
    \<Rightarrow> (host_state list \<times> request_spec \<times> nat list) nova" where
  "get_filtered_objects cf filters store spec objs index =
     run_filters (host_passes cf) (\<lambda>f. run_filter_for_index f index) filters store spec objs"

section \<open>The contract of a filter\<close>

text \<open>What a filter chain relies on: a filter that is allowed in it changes no more of a host than
  \<open>same\<close> and no more of the request than \<open>same_req\<close> say, and the verdict of an admissible filter
  does not depend on what may change.\<close>

locale filter_chain =
  fixes passes :: "'f \<Rightarrow> 'h \<Rightarrow> 's \<Rightarrow> ('e, bool \<times> 'h \<times> 's) result"
    and allowed :: "'f \<Rightarrow> bool"
    and admissible :: "'f \<Rightarrow> bool"
    and verdict :: "'f \<Rightarrow> 'h \<Rightarrow> 's \<Rightarrow> bool"
    and same :: "'h \<Rightarrow> 'h \<Rightarrow> bool"
    and same_req :: "'s \<Rightarrow> 's \<Rightarrow> bool"
  assumes frame: "allowed f \<Longrightarrow> passes f h s = Inr (ok, h', s') \<Longrightarrow> same h h' \<and> same_req s s'"
    and verdict: "admissible f \<Longrightarrow> passes f h s = Inr (ok, h', s') \<Longrightarrow> ok = verdict f h s"
    and verdict_same: "admissible f \<Longrightarrow> same h h' \<Longrightarrow> same_req s s' \<Longrightarrow> verdict f h' s' = verdict f h s"
    and same_refl: "same h h" "same_req s s"
    and same_trans: "same a b \<Longrightarrow> same b c \<Longrightarrow> same a c"
    and same_req_trans: "same_req r s \<Longrightarrow> same_req s t \<Longrightarrow> same_req r t"
begin

definition same_store :: "'h list \<Rightarrow> 'h list \<Rightarrow> bool" where
  "same_store st st' \<longleftrightarrow> length st' = length st \<and> (\<forall>i < length st. same (st ! i) (st' ! i))"

lemma same_store_refl: "same_store st st"
  by (simp add: same_store_def same_refl)

lemma same_store_trans: "same_store a b \<Longrightarrow> same_store b c \<Longrightarrow> same_store a c"
  unfolding same_store_def using same_trans by metis

lemma same_store_update:
  "a < length st \<Longrightarrow> same (st ! a) h \<Longrightarrow> same_store st (st[a := h])"
  by (auto simp: same_store_def nth_list_update same_refl)

lemma same_store_verdict:
  "admissible f \<Longrightarrow> same_store st st' \<Longrightarrow> same_req s s' \<Longrightarrow> a < length st \<Longrightarrow>
   verdict f (st' ! a) s' = verdict f (st ! a) s"
  unfolding same_store_def using verdict_same by blast

lemma filter_all_Inr:
  "allowed f \<Longrightarrow> \<forall>a \<in> set as. a < length st \<Longrightarrow> filter_all (passes f) st s as = Inr (st', s', r) \<Longrightarrow>
   same_store st st' \<and> same_req s s' \<and> set r \<subseteq> set as \<and>
   (admissible f \<longrightarrow> r = filter (\<lambda>a. verdict f (st ! a) s) as)"
proof (induction as arbitrary: st s r)
  case (Cons a as)
  obtain ok h s1 r1 where p: "passes f (st ! a) s = Inr (ok, h, s1)"
    and rest: "filter_all (passes f) (st[a := h]) s1 as = Inr (st', s', r1)"
    and r: "r = (if ok then a # r1 else r1)"
    using Cons.prems(3) by (auto simp: rbind_eq_Inr)
  note c = frame[OF Cons.prems(1) p]
  have st: "same_store st (st[a := h])" using c Cons.prems(2) by (intro same_store_update) auto
  have "\<forall>b \<in> set as. b < length (st[a := h])" using Cons.prems(2) by simp
  note IH = Cons.IH[OF Cons.prems(1) this rest]
  have "filter (\<lambda>b. verdict f (st[a := h] ! b) s1) as = filter (\<lambda>b. verdict f (st ! b) s) as"
    if "admissible f"
    using same_store_verdict[OF that st] c Cons.prems(2) by (intro filter_cong) auto
  moreover have "ok = verdict f (st ! a) s" if "admissible f" using verdict[OF that p] .
  ultimately have "admissible f \<longrightarrow> r = filter (\<lambda>a. verdict f (st ! a) s) (a # as)"
    using IH r by auto
  moreover have "same_store st st'" "same_req s s'"
    using IH c st same_store_trans same_req_trans by blast+
  moreover have "set r \<subseteq> set (a # as)" using IH r by auto
  ultimately show ?case by blast
qed (simp add: same_store_refl same_refl)

text \<open>A chain keeps hosts that pass every admissible filter that is run, and exactly those when all
  filters are admissible.\<close>

lemma run_filters_Inr:
  "\<forall>f \<in> set fs. runs f \<longrightarrow> allowed f \<Longrightarrow> \<forall>a \<in> set as. a < length st \<Longrightarrow>
   run_filters passes runs fs st s as = Inr (st', s', r) \<Longrightarrow>
   same_store st st' \<and> same_req s s' \<and> set r \<subseteq> set as \<and>
   (\<forall>f \<in> set fs. runs f \<and> admissible f \<longrightarrow> (\<forall>a \<in> set r. verdict f (st ! a) s)) \<and>
   ((\<forall>f \<in> set fs. runs f \<longrightarrow> admissible f) \<longrightarrow>
      r = filter (\<lambda>a. \<forall>f \<in> set fs. runs f \<longrightarrow> verdict f (st ! a) s) as)"
proof (induction fs arbitrary: st s as)
  case Nil
  then show ?case by (simp add: same_store_refl same_refl)
next
  case (Cons f fs)
  show ?case
  proof (cases "runs f")
    case False
    then show ?thesis using Cons by auto
  next
    case True
    obtain st1 s1 as1 where f: "filter_all (passes f) st s as = Inr (st1, s1, as1)"
      and rest: "(if as1 = [] then Inr (st1, s1, []) else run_filters passes runs fs st1 s1 as1) = Inr (st', s', r)"
      using Cons.prems(3) True by (auto simp: rbind_eq_Inr)
    have "allowed f" using Cons.prems(1) True by simp
    note c = filter_all_Inr[OF this Cons.prems(2) f]
    show ?thesis
    proof (cases "as1 = []")
      case True
      then have "admissible f \<longrightarrow> filter (\<lambda>a. verdict f (st ! a) s) as = []" using c by metis
      then have "admissible f \<longrightarrow> filter (\<lambda>a. \<forall>f \<in> set (f # fs). runs f \<longrightarrow> verdict f (st ! a) s) as = []"
        using \<open>runs f\<close> by (auto simp: filter_empty_conv)
      then show ?thesis using rest c True \<open>runs f\<close> by auto
    next
      case False
      then have run: "run_filters passes runs fs st1 s1 as1 = Inr (st', s', r)" using rest by simp
      have as1: "\<forall>a \<in> set as1. a < length st1" "\<forall>a \<in> set as1. a < length st"
        using c Cons.prems(2) unfolding same_store_def by auto
      have "\<forall>f \<in> set fs. runs f \<longrightarrow> allowed f" using Cons.prems(1) by simp
      note IH = Cons.IH[OF this as1(1) run]
      have v: "verdict g (st1 ! a) s1 = verdict g (st ! a) s" if "admissible g" "a \<in> set as1" for g a
        using same_store_verdict[OF that(1)] c as1(2) that(2) by blast
      have passed: "\<forall>g \<in> set (f # fs). runs g \<and> admissible g \<longrightarrow> (\<forall>a \<in> set r. verdict g (st ! a) s)"
      proof (intro ballI impI)
        fix g a assume g: "g \<in> set (f # fs)" "runs g \<and> admissible g" and a: "a \<in> set r"
        have as1': "a \<in> set as1" using IH a by blast
        show "verdict g (st ! a) s"
        proof (cases "g = f")
          case True
          then have "as1 = filter (\<lambda>a. verdict g (st ! a) s) as" using c g(2) by blast
          then have "a \<in> set (filter (\<lambda>a. verdict g (st ! a) s) as)" using as1' by metis
          then show ?thesis by simp
        next
          case False
          then have "verdict g (st1 ! a) s1" using IH g a by simp
          then show ?thesis using v g(2) as1' by blast
        qed
      qed
      have "r = filter (\<lambda>a. \<forall>f \<in> set (f # fs). runs f \<longrightarrow> verdict f (st ! a) s) as"
        if all: "\<forall>g \<in> set (f # fs). runs g \<longrightarrow> admissible g"
      proof -
        have "\<forall>g \<in> set fs. runs g \<longrightarrow> admissible g" using all by simp
        then have "r = filter (\<lambda>a. \<forall>g \<in> set fs. runs g \<longrightarrow> verdict g (st1 ! a) s1) as1" using IH by blast
        also have "\<dots> = filter (\<lambda>a. \<forall>g \<in> set fs. runs g \<longrightarrow> verdict g (st ! a) s) as1"
          using v all by (intro filter_cong) auto
        finally have r1: "r = filter (\<lambda>a. \<forall>g \<in> set fs. runs g \<longrightarrow> verdict g (st ! a) s) as1" .
        have "admissible f" using all \<open>runs f\<close> by simp
        then have eq: "as1 = filter (\<lambda>a. verdict f (st ! a) s) as" using c by blast
        have "r = filter (\<lambda>a. \<forall>g \<in> set fs. runs g \<longrightarrow> verdict g (st ! a) s)
            (filter (\<lambda>a. verdict f (st ! a) s) as)" using r1 unfolding eq .
        then show ?thesis using \<open>runs f\<close> by (simp add: conj_commute)
      qed
      moreover have "same_store st st'" "same_req s s'" "set r \<subseteq> set as"
        using IH c same_store_trans same_req_trans by blast+
      ultimately show ?thesis using passed by blast
    qed
  qed
qed

end

section \<open>The filters keep the contract\<close>

named_theorems filter_defs \<open>the definitions of the filters\<close>

lemmas [filter_defs] = core_filter_def ram_filter_def disk_filter_def exact_core_filter_def
  exact_ram_filter_def exact_disk_filter_def io_ops_filter_def num_instances_filter_def
  retry_filter_def different_host_filter_def same_host_filter_def group_anti_affinity_filter_def
  group_affinity_filter_def type_affinity_filter_def aggregate_type_affinity_filter_def
  availability_zone_filter_def multitenancy_filter_def image_properties_isolation_filter_def
  instance_extra_specs_filter_def isolated_hosts_filter_def compute_filter_def
  pci_passthrough_filter_def pure_result_def set_limits_def

definition same_host :: "host_state \<Rightarrow> host_state \<Rightarrow> bool" where
  "same_host h h' \<longleftrightarrow> h' = h\<lparr>hs_limits := hs_limits h'\<rparr>"

lemma same_host_refl: "same_host h h"
  by (simp add: same_host_def)

lemma same_host_trans:
  assumes "same_host a b" "same_host b c"
  shows "same_host a c"
proof -
  have "c = (a\<lparr>hs_limits := hs_limits b\<rparr>)\<lparr>hs_limits := hs_limits c\<rparr>"
    using assms unfolding same_host_def by metis
  then show ?thesis by (simp add: same_host_def)
qed

lemma same_host_limits: "same_host h (h\<lparr>hs_limits := l\<rparr>)"
  by (simp add: same_host_def)

lemma host_passes_frame:
  assumes "host_passes cf f h s = Inr (ok, h', s')"
  shows "same_host h h' \<and> (f \<noteq> NUMATopologyFilter \<longrightarrow> s' = s)"
  using assms same_host_refl same_host_limits
  by (cases f) (auto simp: filter_defs numa_topology_filter_def Let_def rbind_eq_Inr split: if_splits prod.splits)

lemma limits_irrelevant [simp]:
  "aggregate_values_from_key (h\<lparr>hs_limits := l\<rparr>) = aggregate_values_from_key h"
  "aggregate_metadata_get_by_host (h\<lparr>hs_limits := l\<rparr>) = aggregate_metadata_get_by_host h"
  "aggregate_value_or (h\<lparr>hs_limits := l\<rparr>) k d c = aggregate_value_or h k d c"
  "instance_uuids_overlap (h\<lparr>hs_limits := l\<rparr>) = instance_uuids_overlap h"
  "other_types_on_host (h\<lparr>hs_limits := l\<rparr>) = other_types_on_host h"
  by (simp_all add: fun_eq_iff aggregate_values_from_key_def aggregate_metadata_get_by_host_def
    aggregate_value_or_def instance_uuids_overlap_def other_types_on_host_def)

definition filter_verdict :: "sched_config \<Rightarrow> host_filter \<Rightarrow> host_state \<Rightarrow> request_spec \<Rightarrow> bool" where
  "filter_verdict cf f h s = (case host_passes cf f h s of Inl _ \<Rightarrow> False | Inr (ok, _, _) \<Rightarrow> ok)"

lemma capacity_limits [simp]:
  "fst (core_filter r (h\<lparr>hs_limits := l\<rparr>) s) = fst (core_filter r h s)"
  "fst (ram_filter r (h\<lparr>hs_limits := l\<rparr>) s) = fst (ram_filter r h s)"
  "fst (disk_filter r (h\<lparr>hs_limits := l\<rparr>) s) = fst (disk_filter r h s)"
  "fst (exact_core_filter (h\<lparr>hs_limits := l\<rparr>) s) = fst (exact_core_filter h s)"
  "fst (exact_ram_filter (h\<lparr>hs_limits := l\<rparr>) s) = fst (exact_ram_filter h s)"
  "fst (exact_disk_filter (h\<lparr>hs_limits := l\<rparr>) s) = fst (exact_disk_filter h s)"
  by (simp_all add: filter_defs Let_def)

lemma filter_verdict_limits:
  "f \<noteq> NUMATopologyFilter \<Longrightarrow> filter_verdict cf f (h\<lparr>hs_limits := l\<rparr>) s = filter_verdict cf f h s"
  by (cases f) (simp_all add: filter_verdict_def pure_result_def io_ops_filter_def
    num_instances_filter_def retry_filter_def different_host_filter_def same_host_filter_def
    group_anti_affinity_filter_def group_affinity_filter_def type_affinity_filter_def
    aggregate_type_affinity_filter_def availability_zone_filter_def multitenancy_filter_def
    image_properties_isolation_filter_def instance_extra_specs_filter_def isolated_hosts_filter_def
    compute_filter_def pci_passthrough_filter_def rbind_def split: sum.splits option.splits)

lemma filter_verdict_passes: "host_passes cf f h s = Inr (ok, h', s') \<Longrightarrow> ok = filter_verdict cf f h s"
  by (simp add: filter_verdict_def)

text \<open>What the NUMA filter may change of the request.\<close>

definition same_but_numa :: "request_spec \<Rightarrow> request_spec \<Rightarrow> bool" where
  "same_but_numa s s' \<longleftrightarrow> s' = s\<lparr>rs_numa_topology := rs_numa_topology s'\<rparr>"

lemma same_but_numa_trans:
  assumes "same_but_numa a b" "same_but_numa b c"
  shows "same_but_numa a c"
proof -
  have "c = (a\<lparr>rs_numa_topology := rs_numa_topology b\<rparr>)\<lparr>rs_numa_topology := rs_numa_topology c\<rparr>"
    using assms unfolding same_but_numa_def by metis
  then show ?thesis by (simp add: same_but_numa_def)
qed

lemma host_passes_numa:
  assumes "host_passes cf f h s = Inr (ok, h', s')"
  shows "same_but_numa s s'"
proof (cases "f = NUMATopologyFilter")
  case True
  then show ?thesis using assms
    by (auto simp: numa_topology_filter_def Let_def rbind_eq_Inr same_but_numa_def split: if_splits prod.splits)
next
  case False
  then show ?thesis using host_passes_frame[OF assms] by (simp add: same_but_numa_def)
qed

lemma capacity_numa [simp]:
  "core_filter r h (s\<lparr>rs_numa_topology := t\<rparr>) = core_filter r h s"
  "ram_filter r h (s\<lparr>rs_numa_topology := t\<rparr>) = ram_filter r h s"
  "disk_filter r h (s\<lparr>rs_numa_topology := t\<rparr>) = disk_filter r h s"
  "exact_core_filter h (s\<lparr>rs_numa_topology := t\<rparr>) = exact_core_filter h s"
  "exact_ram_filter h (s\<lparr>rs_numa_topology := t\<rparr>) = exact_ram_filter h s"
  "exact_disk_filter h (s\<lparr>rs_numa_topology := t\<rparr>) = exact_disk_filter h s"
  by (simp_all add: filter_defs requested_disk_def Let_def)

lemma filter_verdict_numa:
  "f \<noteq> NUMATopologyFilter \<Longrightarrow> filter_verdict cf f h (s\<lparr>rs_numa_topology := t\<rparr>) = filter_verdict cf f h s"
  by (cases f) (simp_all add: filter_verdict_def pure_result_def io_ops_filter_def
    num_instances_filter_def retry_filter_def different_host_filter_def same_host_filter_def
    group_anti_affinity_filter_def group_affinity_filter_def type_affinity_filter_def
    aggregate_type_affinity_filter_def availability_zone_filter_def multitenancy_filter_def
    image_properties_isolation_filter_def instance_extra_specs_filter_def isolated_hosts_filter_def
    compute_filter_def pci_passthrough_filter_def rbind_def split: sum.splits option.splits)

interpretation pure: filter_chain "host_passes cf" "\<lambda>f. f \<noteq> NUMATopologyFilter"
    "\<lambda>f. f \<noteq> NUMATopologyFilter" "filter_verdict cf" same_host "(=)"
  for cf
proof unfold_locales
  fix f h h' and s s' :: request_spec
  assume "f \<noteq> NUMATopologyFilter" "same_host h h'" "s = s'"
  then show "filter_verdict cf f h' s' = filter_verdict cf f h s"
    unfolding same_host_def by (metis filter_verdict_limits)
qed (auto dest: host_passes_frame filter_verdict_passes same_host_trans intro: same_host_refl)

interpretation chain: filter_chain "host_passes cf" "\<lambda>_. True"
    "\<lambda>f. f \<noteq> NUMATopologyFilter" "filter_verdict cf" same_host same_but_numa
  for cf
proof unfold_locales
  fix f h h' s s'
  assume "f \<noteq> NUMATopologyFilter" "same_host h h'" "same_but_numa s s'"
  then show "filter_verdict cf f h' s' = filter_verdict cf f h s"
    unfolding same_host_def same_but_numa_def by (metis filter_verdict_limits filter_verdict_numa)
qed (auto dest: host_passes_frame host_passes_numa filter_verdict_passes same_host_trans
    intro: same_host_refl same_but_numa_trans simp: same_but_numa_def[of s s for s])

section \<open>Properties\<close>

text \<open>Claim C40. Without the NUMA filter, \<open>get_filtered_objects\<close> returns in their order exactly the
  hosts that every filter passes that has to be run for this instance of the request, judged on the
  hosts as they were at the start; it leaves the request alone and changes nothing of a host but
  its limits.\<close>

theorem filtered_hosts_exact:
  assumes "get_filtered_objects cf filters store spec hosts index = Inr (store', spec', result)"
    and "NUMATopologyFilter \<notin> set filters" and "\<forall>a \<in> set hosts. a < length store"
  shows "spec' = spec \<and>
    result = filter (\<lambda>a. \<forall>f \<in> set filters. run_filter_for_index f index \<longrightarrow>
      filter_verdict cf f (store ! a) spec) hosts \<and>
    length store' = length store \<and> (\<forall>a < length store. same_host (store ! a) (store' ! a))"
proof -
  have "\<forall>f \<in> set filters. run_filter_for_index f index \<longrightarrow> f \<noteq> NUMATopologyFilter" using assms(2) by auto
  from pure.run_filters_Inr[OF this assms(3) assms(1)[unfolded get_filtered_objects_def]]
  show ?thesis using assms(2) by (auto simp: pure.same_store_def)
qed

definition plain_config :: sched_config where
  "plain_config = \<lparr>cf_max_io_ops_per_host = 8, cf_max_instances_per_host = 50,
     cf_default_availability_zone = ''nova'', cf_isolated_hosts = [], cf_isolated_images = [],
     cf_restrict_isolated = True, cf_isolation_namespace = None, cf_isolation_separator = ''.'',
     cf_scheduler_host_subset_size = 1, cf_service_is_up = (\<lambda>_. True),
     cf_set_order = sorted_list_of_set, cf_string_order = (\<lambda>_. [])\<rparr>"

definition plain_spec :: request_spec where
  "plain_spec = \<lparr>rs_num_instances = 2, rs_vcpus = 2, rs_memory_mb = 512, rs_root_gb = 1,
     rs_ephemeral_gb = 0, rs_swap = 0, rs_flavor = demo_flavor\<lparr>fl_extra_specs := []\<rparr>,
     rs_project_id = ''demo'', rs_availability_zone = None, rs_image_id = Some ''cirros'',
     rs_image_props = no_image_props, rs_image_properties = [],
     rs_instance_group = Some \<lparr>ig_policies = [''anti-affinity''], ig_hosts = [], ig_members = []\<rparr>,
     rs_retry = None, rs_different_host = [], rs_same_host = [], rs_ignore_hosts = [],
     rs_force_hosts = [], rs_force_nodes = [], rs_numa_topology = None, rs_pci_requests = None\<rparr>"

definition plain_host :: "string \<Rightarrow> int \<Rightarrow> host_state" where
  "plain_host name ram = (new_host_state name name)
     \<lparr>hs_total_usable_ram_mb := 2048, hs_free_ram_mb := ram, hs_total_usable_disk_gb := 10,
      hs_free_disk_mb := 10240, hs_vcpus_total := 8, hs_ram_allocation_ratio := 1,
      hs_cpu_allocation_ratio := 2, hs_disk_allocation_ratio := 1\<rparr>"

definition plain_store :: "host_state list" where
  "plain_store = [plain_host ''a'' 2048, plain_host ''b'' 256, plain_host ''c'' 1024]"

lemma plain_filtered:
  "\<exists>store' spec'. get_filtered_objects plain_config [RamFilter, CoreFilter] plain_store plain_spec [0, 1, 2] 0
     = Inr (store', spec', [0, 2])"
proof -
  have "(case get_filtered_objects plain_config [RamFilter, CoreFilter] plain_store plain_spec [0, 1, 2] 0 of
      Inr (_, _, r) \<Rightarrow> r = [0, 2] | Inl _ \<Rightarrow> False)"
    by code_simp
  then show ?thesis by (auto split: sum.splits)
qed

theorem filtered_hosts_exact_witness:
  "filter (\<lambda>a. filter_verdict plain_config RamFilter (plain_store ! a) plain_spec \<and>
     filter_verdict plain_config CoreFilter (plain_store ! a) plain_spec) [0, 1, 2] = [0, 2]"
proof -
  obtain store' spec' where "get_filtered_objects plain_config [RamFilter, CoreFilter] plain_store plain_spec
      [0, 1, 2] 0 = Inr (store', spec', [0, 2])"
    using plain_filtered by blast
  from filtered_hosts_exact[OF this]
  have "[0, 2] = filter (\<lambda>a. \<forall>f \<in> set [RamFilter, CoreFilter]. run_filter_for_index f 0 \<longrightarrow>
      filter_verdict plain_config f (plain_store ! a) plain_spec) [0, 1, 2]"
    by (auto simp: plain_store_def)
  then show ?thesis by (simp add: run_filter_for_index_def cong: filter_cong)
qed

end
