(* ===== verification/Host_Weights.thy ===== *)
theory Host_Weights
  imports Host_Filters
begin

text \<open>
  Weighing hosts (\<open>nova/weights.py\<close> and \<open>nova/scheduler/weights/\<close>). A weigher object keeps the
  smallest and the largest weight it has seen, across calls and requests: they are the state of
  the model's weighers. Weights are exact rationals.
\<close>

section \<open>Weighers\<close>

datatype host_weigher =
    RAMWeigher | DiskWeigher | IoOpsWeigher
  | ServerGroupSoftAffinityWeigher | ServerGroupSoftAntiAffinityWeigher

record weigher =
  wg_class :: host_weigher
  wg_multiplier :: rat
  wg_minval :: "rat option"
  wg_maxval :: "rat option"

text \<open>The class attribute \<open>minval\<close>: 0 for the weighers of disk, RAM and I/O.\<close>

definition new_weigher :: "host_weigher \<Rightarrow> rat \<Rightarrow> weigher" where
  "new_weigher c multiplier =
     \<lparr>wg_class = c, wg_multiplier = multiplier,
      wg_minval = (if c \<in> {RAMWeigher, DiskWeigher, IoOpsWeigher} then Some 0 else None),
      wg_maxval = None\<rparr>"

definition soft_affinity_weight :: "string \<Rightarrow> host_state \<Rightarrow> request_spec \<Rightarrow> rat" where
  "soft_affinity_weight policy_name h spec =
     (case rs_instance_group spec of
        None \<Rightarrow> 0
      | Some g \<Rightarrow>
          (if policy_name \<notin> set (ig_policies g) then 0
           else of_nat (card (set (map fst (hs_instances h)) \<inter> set (ig_members g)))))"

fun weigh_object :: "host_weigher \<Rightarrow> host_state \<Rightarrow> request_spec \<Rightarrow> rat" where
  "weigh_object RAMWeigher h spec = of_int (hs_free_ram_mb h)"
| "weigh_object DiskWeigher h spec = of_int (hs_free_disk_mb h)"
| "weigh_object IoOpsWeigher h spec = of_int (hs_num_io_ops h)"
| "weigh_object ServerGroupSoftAffinityWeigher h spec = soft_affinity_weight ''soft-affinity'' h spec"
| "weigh_object ServerGroupSoftAntiAffinityWeigher h spec =
     -1 * soft_affinity_weight ''soft-anti-affinity'' h spec"

section \<open>Normalizing\<close>

definition record_weight :: "rat option \<times> rat option \<Rightarrow> rat \<Rightarrow> rat option \<times> rat option" where
  "record_weight st weight =
     (let minval = (case fst st of None \<Rightarrow> weight | Some m \<Rightarrow> m);
          maxval = (case snd st of None \<Rightarrow> weight | Some m \<Rightarrow> m)
      in if weight < minval then (Some weight, Some maxval)
         else if weight > maxval then (Some minval, Some weight)
         else (Some minval, Some maxval))"

definition normalize_weights :: "rat list \<Rightarrow> rat option \<Rightarrow> rat option \<Rightarrow> rat list" where
  "normalize_weights weight_list minval maxval =
     (if weight_list = [] then []
      else
        let maxval = opt_or maxval (Max (set weight_list));
            minval = opt_or minval (Min (set weight_list))
        in if minval = maxval then replicate (length weight_list) 0
           else map (\<lambda>i. (i - minval) / (maxval - minval)) weight_list)"

text \<open>One weigher on the list of weighed objects: the object's position in the store, its weight.\<close>

definition apply_weigher ::
  "host_state list \<Rightarrow> request_spec \<Rightarrow> (nat \<times> rat) list \<Rightarrow> weigher \<Rightarrow> (nat \<times> rat) list \<times> weigher" where
  "apply_weigher store spec objs w =
     (let weights = map (\<lambda>(a, _). weigh_object (wg_class w) (store ! a) spec) objs;
          (minval, maxval) = foldl record_weight (wg_minval w, wg_maxval w) weights;
          normalized = normalize_weights weights minval maxval
      in (map2 (\<lambda>(a, x) n. (a, x + wg_multiplier w * n)) objs normalized,
          w\<lparr>wg_minval := minval, wg_maxval := maxval\<rparr>))"

fun apply_weighers ::
  "host_state list \<Rightarrow> request_spec \<Rightarrow> (nat \<times> rat) list \<Rightarrow> weigher list \<Rightarrow> (nat \<times> rat) list \<times> weigher list" where
  "apply_weighers store spec objs [] = (objs, [])"
| "apply_weighers store spec objs (w # ws) =
     (let (objs, w') = apply_weigher store spec objs w;
          (objs, ws') = apply_weighers store spec objs ws
      in (objs, w' # ws'))"

definition get_weighed_objects ::
  "host_state list \<Rightarrow> request_spec \<Rightarrow> weigher list \<Rightarrow> nat list \<Rightarrow> (nat \<times> rat) list \<times> weigher list" where
  "get_weighed_objects store spec weighers obj_list =
     (let weighed_objs = map (\<lambda>a. (a, 0)) obj_list
      in if length weighed_objs \<le> 1 then (weighed_objs, weighers)
         else let (objs, ws) = apply_weighers store spec weighed_objs weighers
              in (sorted_rev_by snd objs, ws))"

section \<open>Laws\<close>

text \<open>The invariant of a weigher's state: what it has seen lies between the bounds.\<close>

definition bounds_ok :: "rat option \<times> rat option \<Rightarrow> bool" where
  "bounds_ok st \<longleftrightarrow> (case st of (Some a, Some b) \<Rightarrow> a \<le> b | (Some a, None) \<Rightarrow> True | (None, m) \<Rightarrow> m = None)"

definition spans :: "rat option \<times> rat option \<Rightarrow> rat \<Rightarrow> bool" where
  "spans st w \<longleftrightarrow> (\<exists>a b. st = (Some a, Some b) \<and> a \<le> w \<and> w \<le> b)"

lemma record_weight_spans:
  assumes "bounds_ok st"
  shows "spans (record_weight st w) w \<and> bounds_ok (record_weight st w) \<and>
    (\<forall>v. spans st v \<longrightarrow> spans (record_weight st w) v)"
  using assms by (cases st; cases "fst st"; cases "snd st")
    (auto simp: record_weight_def bounds_ok_def spans_def Let_def)

lemma record_weights_spans:
  "bounds_ok st \<Longrightarrow> bounds_ok (foldl record_weight st ws) \<and> (\<forall>w \<in> set ws. spans (foldl record_weight st ws) w) \<and>
    (\<forall>v. spans st v \<longrightarrow> spans (foldl record_weight st ws) v)"
proof (induction ws arbitrary: st)
  case (Cons w ws)
  then show ?case using record_weight_spans[OF Cons.prems, of w] by auto
qed simp

lemma length_normalize_weights [simp]: "length (normalize_weights ws a b) = length ws"
  by (simp add: normalize_weights_def Let_def)

lemma normalize_nth:
  assumes "ws \<noteq> []" "a < b" "i < length ws"
  shows "normalize_weights ws (Some a) (Some b) ! i = (ws ! i - a) / (b - a)"
  using assms by (simp add: normalize_weights_def)

lemma apply_weigher_fst:
  "apply_weigher store spec objs w = (objs', w') \<Longrightarrow>
     map fst objs' = map fst objs \<and> length objs' = length objs \<and>
     wg_class w' = wg_class w \<and> wg_multiplier w' = wg_multiplier w"
proof -
  assume a: "apply_weigher store spec objs w = (objs', w')"
  define ws where "ws = map (\<lambda>(a, _). weigh_object (wg_class w) (store ! a) spec) objs"
  obtain mn mx where m: "foldl record_weight (wg_minval w, wg_maxval w) ws = (mn, mx)" by fastforce
  have o: "objs' = map2 (\<lambda>(a, x) n. (a, x + wg_multiplier w * n)) objs (normalize_weights ws mn mx)"
    and w: "w' = w\<lparr>wg_minval := mn, wg_maxval := mx\<rparr>"
    using a m by (simp_all add: apply_weigher_def ws_def[symmetric])
  have l: "length (normalize_weights ws mn mx) = length objs" by (simp add: ws_def)
  have "map fst (map2 (\<lambda>(a, x) n. (a, x + wg_multiplier w * n)) xs ys) = map fst xs"
    if "length ys = length xs" for xs :: "(nat \<times> rat) list" and ys
    using that by (induction xs ys rule: list_induct2') auto
  from this[OF l] show ?thesis using l by (simp add: o w)
qed

lemma apply_weighers_fst:
  "apply_weighers store spec objs ws = (objs', ws') \<Longrightarrow> map fst objs' = map fst objs"
proof (induction ws arbitrary: objs objs' ws')
  case (Cons w ws)
  obtain objs1 w1 where 1: "apply_weigher store spec objs w = (objs1, w1)" by fastforce
  obtain objs2 ws2 where 2: "apply_weighers store spec objs1 ws = (objs2, ws2)" by fastforce
  show ?case using Cons.prems Cons.IH[OF 2] apply_weigher_fst[OF 1] 1 2 by simp
qed simp

text \<open>The weighed list is the list of hosts in the order of falling weights.\<close>

lemma weighed_objects_perm:
  assumes "get_weighed_objects store spec ws hosts = (objs, ws')"
  shows "mset (map fst objs) = mset hosts \<and> sorted_wrt (\<lambda>x y. snd y \<le> snd x) objs"
proof (cases "length hosts \<le> 1")
  case True
  then have "hosts = [] \<or> (\<exists>a. hosts = [a])" by (cases hosts) auto
  then show ?thesis using assms by (auto simp: get_weighed_objects_def comp_def)
next
  case False
  obtain objs1 ws1 where 1: "apply_weighers store spec (map (\<lambda>a. (a, 0)) hosts) ws = (objs1, ws1)" by fastforce
  have o: "objs = sorted_rev_by snd objs1" using assms False 1 by (simp add: get_weighed_objects_def)
  have "mset (map fst objs) = mset (map fst objs1)" by (simp add: o sorted_rev_by_def)
  also have "map fst objs1 = hosts" using apply_weighers_fst[OF 1] by (simp add: comp_def)
  finally show ?thesis using sorted_rev_by_desc[of snd objs1] by (simp add: o)
qed

text \<open>With one weigher the order is that of the raw weights, whatever was seen before.\<close>

lemma single_weigher_order:
  assumes "0 < wg_multiplier w" "bounds_ok (wg_minval w, wg_maxval w)"
    and "get_weighed_objects store spec [w] hosts = (objs, ws')"
  shows "sorted_wrt (\<lambda>x y. weigh_object (wg_class w) (store ! fst y) spec
      \<le> weigh_object (wg_class w) (store ! fst x) spec) objs"
proof (cases "length hosts \<le> 1")
  case True
  then have "hosts = [] \<or> (\<exists>a. hosts = [a])" by (cases hosts) auto
  then show ?thesis using assms(3) by (auto simp: get_weighed_objects_def)
next
  case False
  let ?raw = "\<lambda>a. weigh_object (wg_class w) (store ! a) spec"
  define weights where "weights = map ?raw hosts"
  have rw: "map (\<lambda>(a, _). ?raw a) (map (\<lambda>a. (a, 0::rat)) hosts) = weights" by (simp add: weights_def)
  have fold: "\<forall>v \<in> set weights. spans (foldl record_weight (wg_minval w, wg_maxval w) weights) v"
    using record_weights_spans[OF assms(2)] by blast
  have "weights \<noteq> []" using False by (auto simp: weights_def)
  then obtain v where "v \<in> set weights" by (cases weights) auto
  then obtain a b where ab: "foldl record_weight (wg_minval w, wg_maxval w) weights = (Some a, Some b)"
    using fold by (auto simp: spans_def)
  define norm where "norm = normalize_weights weights (Some a) (Some b)"
  have objs: "objs = sorted_rev_by snd (map2 (\<lambda>(a, x) n. (a, x + wg_multiplier w * n)) (map (\<lambda>a. (a, 0)) hosts) norm)"
  proof -
    have "apply_weigher store spec (map (\<lambda>a. (a, 0)) hosts) w =
        (map2 (\<lambda>(a, x) n. (a, x + wg_multiplier w * n)) (map (\<lambda>a. (a, 0)) hosts) norm,
         w\<lparr>wg_minval := Some a, wg_maxval := Some b\<rparr>)"
      unfolding apply_weigher_def rw Let_def ab norm_def by simp
    then show ?thesis using assms(3) False by (auto simp: get_weighed_objects_def)
  qed
  have len: "length norm = length hosts" by (simp add: norm_def weights_def)
  have mono: "?raw (hosts ! i) \<le> ?raw (hosts ! j)"
    if "i < length hosts" "j < length hosts" "norm ! i \<le> norm ! j" for i j
  proof (cases "a = b")
    case True
    then have "v = a" if "v \<in> set weights" for v using fold ab that by (force simp: spans_def)
    then have "?raw (hosts ! k) = a" if "k < length hosts" for k
      using that by (simp add: weights_def)
    then show ?thesis using that(1,2) by simp
  next
    case ne: False
    then have lt: "a < b" using fold ab \<open>v \<in> set weights\<close> by (force simp: spans_def)
    have n: "norm ! k = (?raw (hosts ! k) - a) / (b - a)" if "k < length hosts" for k
      using normalize_nth[OF \<open>weights \<noteq> []\<close> lt, of k] that by (simp add: norm_def weights_def)
    show ?thesis using that lt by (simp add: n divide_le_cancel)
  qed
  have elem: "\<exists>i < length hosts. fst x = hosts ! i \<and> snd x = wg_multiplier w * norm ! i" if "x \<in> set objs" for x
    using that len by (auto simp: objs in_set_zip) blast
  have "?raw (fst y) \<le> ?raw (fst x)" if "x \<in> set objs" "y \<in> set objs" "snd y \<le> snd x" for x y
    using elem[OF that(1)] elem[OF that(2)] that(3) mono assms(1) by auto
  moreover have "sorted_wrt (\<lambda>x y. snd y \<le> snd x) objs" unfolding objs by (rule sorted_rev_by_desc)
  ultimately show ?thesis by (auto elim!: sorted_wrt_mono_rel[rotated])
qed

section \<open>Properties\<close>

text \<open>Weighing returns every host once, in the order of falling weights. With a single weigher of
  positive multiplier (spreading) the hosts come in the order of the raw quantity, so the host with
  the most of it is first, whatever bounds the weigher keeps from earlier requests.\<close>

theorem weighed_hosts_order:
  assumes "get_weighed_objects store spec ws hosts = (objs, ws')"
  shows "mset (map fst objs) = mset hosts \<and> sorted_wrt (\<lambda>x y. snd y \<le> snd x) objs \<and>
    (\<forall>w. ws = [w] \<and> 0 < wg_multiplier w \<and> bounds_ok (wg_minval w, wg_maxval w) \<longrightarrow>
       sorted_wrt (\<lambda>x y. weigh_object (wg_class w) (store ! fst y) spec
         \<le> weigh_object (wg_class w) (store ! fst x) spec) objs)"
  using weighed_objects_perm[OF assms] single_weigher_order assms by blast

definition demo_weigher :: weigher where
  "demo_weigher = (new_weigher RAMWeigher 1)\<lparr>wg_maxval := Some 4096\<rparr>"

lemma demo_weighed:
  "get_weighed_objects plain_store plain_spec [demo_weigher] [0, 1, 2] =
     ([(0, 1/2), (2, 1/4), (1, 1/16)], [demo_weigher])"
  by code_simp

theorem weighed_hosts_order_witness:
  "sorted_wrt (\<lambda>x y. weigh_object RAMWeigher (plain_store ! fst y) plain_spec
     \<le> weigh_object RAMWeigher (plain_store ! fst x) plain_spec) [(0::nat, 1/2 :: rat), (2, 1/4), (1, 1/16)]"
proof -
  have "wg_class demo_weigher = RAMWeigher" "0 < wg_multiplier demo_weigher"
    "bounds_ok (wg_minval demo_weigher, wg_maxval demo_weigher)"
    by (simp_all add: demo_weigher_def new_weigher_def bounds_ok_def)
  then show ?thesis using weighed_hosts_order[OF demo_weighed] by metis
qed

end
