(* ===== verification/Filter_Scheduler.thy ===== *)
theory Filter_Scheduler
  imports Host_Weights
begin

text \<open>
  The filter scheduler (\<open>nova/scheduler/filter_scheduler.py\<close>) with the parts of
  \<open>nova/scheduler/host_manager.py\<close> it calls: \<open>get_filtered_hosts\<close> and the consumption of a
  host's resources by a request. The hosts live in a store; the state threaded through the loop
  is the store, the request, and the weighers. \<open>random.choice\<close> is an arbitrary number for each
  instance of the request, taken modulo the length of the list; the order in which a dictionary
  lists its values is the argument \<open>order\<close>.
\<close>

section \<open>Consuming\<close>

text \<open>\<open>get_host_numa_usage_from_instance\<close> where host and instance hold objects.\<close>

definition host_numa_usage ::
  "numa_topology option \<Rightarrow> inst_topology option \<Rightarrow> bool \<Rightarrow> numa_topology option nova" where
  "host_numa_usage host instance_topology free =
     numa_usage_from_instances host
       (case instance_topology of None \<Rightarrow> None | Some t \<Rightarrow> if t \<noteq> [] then Some [t] else None) free"

text \<open>\<open>_locked_consume_from_request\<close>: the host and the request after it and whether it returned; a
  raised exception leaves what was assigned before. The decorator logs the exception.\<close>

definition locked_consume_from_request ::
  "sched_config \<Rightarrow> host_state \<Rightarrow> request_spec \<Rightarrow> host_state \<times> request_spec \<times> bool" where
  "locked_consume_from_request cf h spec =
     (let disk_mb = (rs_root_gb spec + rs_ephemeral_gb spec) * 1024;
          h1 = h\<lparr>hs_free_ram_mb := hs_free_ram_mb h - rs_memory_mb spec,
                 hs_free_disk_mb := hs_free_disk_mb h - disk_mb,
                 hs_vcpus_used := hs_vcpus_used h + rs_vcpus spec,
                 hs_num_instances := hs_num_instances h + 1\<rparr>;
          pci_requests = (case (rs_pci_requests spec, hs_pci_stats h) of
            (Some reqs, Some pools) \<Rightarrow> reqs | _ \<Rightarrow> []);
          (cells, fit) = numa_fit_instance_to_host (cf_set_order cf) (opt_or (hs_numa_topology h) [])
            (opt_or (rs_numa_topology spec) []) (lim_numa_topology (hs_limits h)) pci_requests
            (hs_pci_stats h);
          spec1 = (if rs_numa_topology spec = None then spec else spec\<lparr>rs_numa_topology := Some cells\<rparr>)
      in case fit of
           Inl e \<Rightarrow> (h1, spec1, False)
         | Inr topology \<Rightarrow>
             let spec2 = spec\<lparr>rs_numa_topology := topology\<rparr>;
                 (h2, applied) =
                   (if pci_requests = [] then (h1, True)
                    else let (pools, ok) = apply_requests (the (hs_pci_stats h)) pci_requests
                               (map ic_id (opt_or topology []))
                         in (h1\<lparr>hs_pci_stats := Some pools\<rparr>, ok))
             in if \<not> applied then (h2, spec2, False)
                else (case host_numa_usage (hs_numa_topology h) topology False of
                        Inl e \<Rightarrow> (h2, spec2, False)
                      | Inr usage \<Rightarrow>
                          (h2\<lparr>hs_numa_topology := usage, hs_num_io_ops := hs_num_io_ops h2 + 1\<rparr>,
                           spec2, True)))"

text \<open>\<open>consume_from_request\<close> with the decorator \<open>set_update_time_on_success\<close>; \<open>now\<close> is the time.\<close>

definition consume_from_request ::
  "sched_config \<Rightarrow> int \<Rightarrow> host_state \<Rightarrow> request_spec \<Rightarrow> host_state \<times> request_spec" where
  "consume_from_request cf now h spec =
     (let (h', spec', ok) = locked_consume_from_request cf h spec
      in (if ok then h'\<lparr>hs_updated := Some now\<rparr> else h', spec'))"

section \<open>Candidates\<close>

type_synonym host_map = "((string \<times> string) \<times> nat) list"

definition host_map_of :: "host_state list \<Rightarrow> nat list \<Rightarrow> host_map" where
  "host_map_of store hosts =
     foldl (\<lambda>d a. dict_set (hs_host (store ! a), hs_nodename (store ! a)) a d) [] hosts"

definition strip_ignore_hosts :: "host_map \<Rightarrow> string list \<Rightarrow> host_map" where
  "strip_ignore_hosts host_map hosts_to_ignore =
     foldl (\<lambda>d host. filter (\<lambda>((hostname, _), _). lower host \<noteq> lower hostname) d) host_map hosts_to_ignore"

definition match_forced_hosts :: "host_map \<Rightarrow> string list \<Rightarrow> host_map" where
  "match_forced_hosts host_map hosts_to_force =
     filter (\<lambda>((hostname, _), _). lower hostname \<in> set (map lower hosts_to_force)) host_map"

definition match_forced_nodes :: "host_map \<Rightarrow> string list \<Rightarrow> host_map" where
  "match_forced_nodes host_map nodes_to_force =
     filter (\<lambda>((_, nodename), _). nodename \<in> set nodes_to_force) host_map"

definition get_filtered_hosts ::
  "sched_config \<Rightarrow> (nat list \<Rightarrow> nat list) \<Rightarrow> host_filter list \<Rightarrow> host_state list \<Rightarrow> request_spec \<Rightarrow> nat list
    \<Rightarrow> nat \<Rightarrow> (host_state list \<times> request_spec \<times> nat list) nova" where
  "get_filtered_hosts cf order filters store spec hosts index =
     (let ignore_hosts = rs_ignore_hosts spec;
          force_hosts = rs_force_hosts spec;
          force_nodes = rs_force_nodes spec
      in if ignore_hosts = [] \<and> force_hosts = [] \<and> force_nodes = []
         then get_filtered_objects cf filters store spec hosts index
         else
           let m0 = host_map_of store hosts;
               m1 = (if ignore_hosts \<noteq> [] then strip_ignore_hosts m0 ignore_hosts else m0)
           in if ignore_hosts \<noteq> [] \<and> m1 = [] then Inr (store, spec, [])
              else
                let m2 = (if force_hosts \<noteq> [] then match_forced_hosts m1 force_hosts else m1);
                    m3 = (if force_nodes \<noteq> [] then match_forced_nodes m2 force_nodes else m2)
                in if force_hosts \<noteq> [] \<or> force_nodes \<noteq> []
                   then Inr (store, spec, if m3 \<noteq> [] then order (map snd m3) else [])
                   else get_filtered_objects cf filters store spec (order (map snd m3)) index)"

section \<open>Scheduling\<close>

record sched_state =
  ss_store :: "host_state list"
  ss_spec :: request_spec
  ss_weighers :: "weigher list"

record sched_env =
  se_config :: sched_config
  se_filters :: "host_filter list"
  se_order :: "nat list \<Rightarrow> nat list"
  se_random :: "nat \<Rightarrow> nat"
  se_now :: "nat \<Rightarrow> int"

text \<open>The choice among the best hosts.\<close>

definition choose_host :: "sched_env \<Rightarrow> nat \<Rightarrow> (nat \<times> rat) list \<Rightarrow> nat" where
  "choose_host env num weighed_hosts =
     (let size = max 1 (cf_scheduler_host_subset_size (se_config env));
          subset = (if size < int (length weighed_hosts) then take (nat size) weighed_hosts
                    else weighed_hosts)
      in fst (subset ! (se_random env num mod length subset)))"

definition group_add_host :: "request_spec \<Rightarrow> string \<Rightarrow> request_spec" where
  "group_add_host spec host =
     (case rs_instance_group spec of
        None \<Rightarrow> spec
      | Some g \<Rightarrow> spec\<lparr>rs_instance_group := Some (g\<lparr>ig_hosts := ig_hosts g @ [host]\<rparr>)\<rparr>)"

text \<open>The loop of \<open>_schedule\<close> over the instances \<open>nums\<close>: the state and the selected hosts.\<close>

fun schedule_loop ::
  "sched_env \<Rightarrow> nat list \<Rightarrow> sched_state \<Rightarrow> nat list \<Rightarrow> nat list \<Rightarrow> (sched_state \<times> nat list) nova" where
  "schedule_loop env [] st hosts selected = Inr (st, selected)"
| "schedule_loop env (num # nums) st hosts selected =
     rbind (get_filtered_hosts (se_config env) (se_order env) (se_filters env) (ss_store st) (ss_spec st)
         hosts num) (\<lambda>(store, spec, hosts).
       if hosts = [] then Inr (st\<lparr>ss_store := store, ss_spec := spec\<rparr>, selected)
       else
         let (weighed_hosts, ws) = get_weighed_objects store spec (ss_weighers st) hosts;
             chosen = choose_host env num weighed_hosts;
             (h, spec) = consume_from_request (se_config env) (se_now env num) (store ! chosen) spec;
             spec = group_add_host spec (hs_host h)
         in schedule_loop env nums
              \<lparr>ss_store = store[chosen := h], ss_spec = spec, ss_weighers = ws\<rparr> hosts (selected @ [chosen]))"

definition schedule :: "sched_env \<Rightarrow> sched_state \<Rightarrow> nat list \<Rightarrow> (sched_state \<times> nat list) nova" where
  "schedule env st hosts = schedule_loop env [0..<rs_num_instances (ss_spec st)] st hosts []"

record destination =
  de_host :: string
  de_nodename :: string
  de_limits :: host_limits

definition dest_of :: "host_state \<Rightarrow> destination" where
  "dest_of h = \<lparr>de_host = hs_host h, de_nodename = hs_nodename h, de_limits = hs_limits h\<rparr>"

text \<open>\<open>select_destinations\<close>: when there are not enough hosts, those selected are marked to be
  refreshed. An exception of a filter ends the call on its way, and what it leaves of the hosts is
  not modelled: the result is then \<open>Inl\<close> the exception, and no state. Otherwise it is the state and
  what the call returns or raises.\<close>

definition select_destinations ::
  "sched_env \<Rightarrow> sched_state \<Rightarrow> nat list \<Rightarrow> (sched_state \<times> destination list nova) nova" where
  "select_destinations env st hosts =
     (let num_instances = rs_num_instances (ss_spec st)
      in rbind (schedule env st hosts) (\<lambda>(st', selected). Inr
           (if length selected < num_instances
            then (st'\<lparr>ss_store := foldl (\<lambda>store a. store[a := (store ! a)\<lparr>hs_updated := None\<rparr>])
                    (ss_store st') selected\<rparr>, Inl NoValidHost)
            else (st', Inr (map (\<lambda>a. dest_of (ss_store st' ! a)) selected)))))"

section \<open>What a step keeps\<close>

text \<open>What scheduling never changes of a host, and of a request.\<close>

definition fixed_host :: "host_state \<Rightarrow> host_state \<Rightarrow> bool" where
  "fixed_host h h' \<longleftrightarrow> hs_host h' = hs_host h \<and> hs_nodename h' = hs_nodename h \<and>
     hs_total_usable_ram_mb h' = hs_total_usable_ram_mb h \<and>
     hs_total_usable_disk_gb h' = hs_total_usable_disk_gb h \<and>
     hs_vcpus_total h' = hs_vcpus_total h \<and>
     hs_ram_allocation_ratio h' = hs_ram_allocation_ratio h \<and>
     hs_cpu_allocation_ratio h' = hs_cpu_allocation_ratio h \<and>
     hs_disk_allocation_ratio h' = hs_disk_allocation_ratio h"

definition fixed_spec :: "request_spec \<Rightarrow> request_spec \<Rightarrow> bool" where
  "fixed_spec s s' \<longleftrightarrow> rs_vcpus s' = rs_vcpus s \<and> rs_memory_mb s' = rs_memory_mb s \<and>
     rs_root_gb s' = rs_root_gb s \<and> rs_ephemeral_gb s' = rs_ephemeral_gb s \<and> rs_swap s' = rs_swap s \<and>
     rs_ignore_hosts s' = rs_ignore_hosts s \<and> rs_force_hosts s' = rs_force_hosts s \<and>
     rs_force_nodes s' = rs_force_nodes s"

lemma fixed_refl [simp]: "fixed_host h h" "fixed_spec s s"
  by (simp_all add: fixed_host_def fixed_spec_def)

lemma fixed_trans:
  "fixed_host a b \<Longrightarrow> fixed_host b c \<Longrightarrow> fixed_host a c"
  "fixed_spec r s \<Longrightarrow> fixed_spec s t \<Longrightarrow> fixed_spec r t"
  by (simp_all add: fixed_host_def fixed_spec_def)

text \<open>The consumed quantities.\<close>

definition consumed :: "nat \<Rightarrow> request_spec \<Rightarrow> host_state \<Rightarrow> host_state \<Rightarrow> bool" where
  "consumed n spec h h' \<longleftrightarrow> fixed_host h h' \<and>
     hs_free_ram_mb h' = hs_free_ram_mb h - int n * rs_memory_mb spec \<and>
     hs_free_disk_mb h' = hs_free_disk_mb h - int n * ((rs_root_gb spec + rs_ephemeral_gb spec) * 1024) \<and>
     hs_vcpus_used h' = hs_vcpus_used h + int n * rs_vcpus spec \<and>
     hs_num_instances h' = hs_num_instances h + int n"

lemma same_host_consumed:
  assumes "same_host h h'"
  shows "consumed 0 spec h h'"
proof -
  have "h' = h\<lparr>hs_limits := hs_limits h'\<rparr>" using assms by (simp only: same_host_def)
  moreover have "consumed 0 spec h (h\<lparr>hs_limits := l\<rparr>)" for l by (simp add: consumed_def fixed_host_def)
  ultimately show ?thesis by metis
qed

lemma same_but_numa_fixed:
  assumes "same_but_numa s s'"
  shows "fixed_spec s s' \<and> rs_instance_group s' = rs_instance_group s"
proof -
  have "s' = s\<lparr>rs_numa_topology := rs_numa_topology s'\<rparr>" using assms by (simp only: same_but_numa_def)
  moreover have "fixed_spec s (s\<lparr>rs_numa_topology := t\<rparr>) \<and>
      rs_instance_group (s\<lparr>rs_numa_topology := t\<rparr>) = rs_instance_group s" for t
    by (simp add: fixed_spec_def)
  ultimately show ?thesis by metis
qed

lemma consumed_trans:
  "consumed m spec h1 h2 \<Longrightarrow> consumed n spec h2 h3 \<Longrightarrow> consumed (m + n) spec h1 h3"
  by (auto simp: consumed_def algebra_simps intro: fixed_trans)

lemma consumed_spec: "fixed_spec s s' \<Longrightarrow> consumed n s' h h' = consumed n s h h'"
  by (simp add: consumed_def fixed_spec_def)

lemma locked_consume:
  assumes "locked_consume_from_request cf h spec = (h', spec', ok)"
  shows "consumed 1 spec h h' \<and> fixed_spec spec spec' \<and> rs_instance_group spec' = rs_instance_group spec"
  using assms unfolding locked_consume_from_request_def Let_def
  by (auto simp: consumed_def fixed_host_def fixed_spec_def split: sum.splits prod.splits if_splits)

lemma consume:
  assumes "consume_from_request cf now h spec = (h', spec')"
  shows "consumed 1 spec h h' \<and> fixed_spec spec spec' \<and> rs_instance_group spec' = rs_instance_group spec"
proof -
  obtain h1 s1 ok where c: "locked_consume_from_request cf h spec = (h1, s1, ok)" by (metis prod_cases3)
  have "h' = (if ok then h1\<lparr>hs_updated := Some now\<rparr> else h1)" "spec' = s1"
    using assms by (simp_all add: consume_from_request_def c)
  moreover have "consumed 1 spec h (h1\<lparr>hs_updated := u\<rparr>) = consumed 1 spec h h1" for u
    by (simp add: consumed_def fixed_host_def)
  ultimately show ?thesis using locked_consume[OF c] by simp
qed

lemma group_add_host_fixed: "fixed_spec spec (group_add_host spec host)"
  by (auto simp: group_add_host_def fixed_spec_def split: option.splits)

lemma choose_host_in:
  assumes "weighed \<noteq> []"
  shows "choose_host env num weighed \<in> set (map fst weighed)"
proof -
  define size where "size = max 1 (cf_scheduler_host_subset_size (se_config env))"
  define subset where "subset = (if size < int (length weighed) then take (nat size) weighed else weighed)"
  have "subset \<noteq> []" using assms by (auto simp: subset_def size_def)
  then have "subset ! (se_random env num mod length subset) \<in> set subset" by simp
  moreover have "set subset \<subseteq> set weighed" by (auto simp: subset_def dest: in_set_takeD)
  ultimately show ?thesis by (auto simp: choose_host_def Let_def size_def[symmetric] subset_def[symmetric])
qed

lemma weighed_nonempty:
  assumes "get_weighed_objects store spec ws hosts = (objs, ws')" "hosts \<noteq> []"
  shows "objs \<noteq> [] \<and> set (map fst objs) = set hosts"
  using weighed_objects_perm[OF assms(1)] assms(2)
  by (metis list.map_disc_iff mset_zero_iff set_mset_mset)

text \<open>Requests that force no host and no node go through the filters.\<close>

definition unforced :: "request_spec \<Rightarrow> bool" where
  "unforced spec \<longleftrightarrow> rs_force_hosts spec = [] \<and> rs_force_nodes spec = []"

definition host_ignored :: "request_spec \<Rightarrow> host_state \<Rightarrow> bool" where
  "host_ignored spec h \<longleftrightarrow> lower (hs_host h) \<in> set (map lower (rs_ignore_hosts spec))"

text \<open>A dictionary lists all its values, in some order.\<close>

definition reorders :: "(nat list \<Rightarrow> nat list) \<Rightarrow> bool" where
  "reorders order \<longleftrightarrow> (\<forall>xs. set (order xs) = set xs)"

lemma host_map_members:
  "((hostname, nodename), a) \<in> set (host_map_of store hosts) \<Longrightarrow> a \<in> set hosts \<and> hostname = hs_host (store ! a)"
proof -
  have set: "set (dict_set k v d) \<subseteq> insert (k, v) (set d)" for k :: "string \<times> string" and v :: nat and d
    by (induction k v d rule: dict_set.induct) (auto split: if_splits)
  have "((hostname, nodename), a) \<in> set (foldl (\<lambda>d a. dict_set (hs_host (store ! a), hs_nodename (store ! a)) a d) d0 hosts) \<Longrightarrow>
      ((hostname, nodename), a) \<in> set d0 \<or> a \<in> set hosts \<and> hostname = hs_host (store ! a)" for d0
  proof (induction hosts arbitrary: d0)
    case (Cons b hosts)
    from Cons.IH[of "dict_set (hs_host (store ! b), hs_nodename (store ! b)) b d0"] Cons.prems
    show ?case using set[of "(hs_host (store ! b), hs_nodename (store ! b))" b d0] by auto
  qed simp
  from this[of "[]"] show "((hostname, nodename), a) \<in> set (host_map_of store hosts) \<Longrightarrow> a \<in> set hosts \<and> hostname = hs_host (store ! a)"
    by (simp add: host_map_of_def)
qed

lemma set_strip_ignore:
  "set (strip_ignore_hosts m hosts) = {((hostname, nodename), a) \<in> set m. \<forall>host \<in> set hosts. lower host \<noteq> lower hostname}"
proof -
  have "set (foldl (\<lambda>d host. filter (\<lambda>((hostname, _), _). lower host \<noteq> lower hostname) d) m hosts) =
      {((hostname, nodename), a) \<in> set m. \<forall>host \<in> set hosts. lower host \<noteq> lower hostname}"
    by (induction hosts arbitrary: m) auto
  then show ?thesis by (simp add: strip_ignore_hosts_def)
qed

lemma matched_subset:
  "set (match_forced_hosts m hosts) \<subseteq> set m" "set (match_forced_nodes m nodes) \<subseteq> set m"
  by (auto simp: match_forced_hosts_def match_forced_nodes_def)

text \<open>One round of the loop, whatever the request forces or ignores.\<close>

lemma hosts_round:
  assumes order: "reorders order" and lt: "\<forall>a \<in> set hosts. a < length store"
    and got: "get_filtered_hosts cf order filters store spec hosts num = Inr (store', spec', hosts')"
  shows "length store' = length store \<and> (\<forall>a < length store. same_host (store ! a) (store' ! a)) \<and>
    same_but_numa spec spec' \<and> set hosts' \<subseteq> set hosts \<and> (\<forall>a \<in> set hosts'. \<not> host_ignored spec (store ! a)) \<and>
    (unforced spec \<longrightarrow> (\<forall>f \<in> set filters. run_filter_for_index f num \<and> f \<noteq> NUMATopologyFilter \<longrightarrow>
       (\<forall>a \<in> set hosts'. filter_verdict cf f (store ! a) spec)))"
proof -
  let ?ignore = "rs_ignore_hosts spec"
  define m1 where "m1 = (if ?ignore \<noteq> [] then strip_ignore_hosts (host_map_of store hosts) ?ignore else host_map_of store hosts)"
  define m2 where "m2 = (if rs_force_hosts spec \<noteq> [] then match_forced_hosts m1 (rs_force_hosts spec) else m1)"
  define m3 where "m3 = (if rs_force_nodes spec \<noteq> [] then match_forced_nodes m2 (rs_force_nodes spec) else m2)"
  have refl: "same_host h h" "same_but_numa s s" for h s by (simp_all add: same_host_refl same_but_numa_def)
  have filtered: "length store' = length store \<and> (\<forall>a < length store. same_host (store ! a) (store' ! a)) \<and>
      same_but_numa spec spec' \<and> set hosts' \<subseteq> set hs \<and>
      (\<forall>f \<in> set filters. run_filter_for_index f num \<and> f \<noteq> NUMATopologyFilter \<longrightarrow>
         (\<forall>a \<in> set hosts'. filter_verdict cf f (store ! a) spec))"
    if "get_filtered_objects cf filters store spec hs num = Inr (store', spec', hosts')" "set hs \<subseteq> set hosts" for hs
  proof -
    have "\<forall>a \<in> set hs. a < length store" using that(2) lt by blast
    from chain.run_filters_Inr[OF _ this that(1)[unfolded get_filtered_objects_def]] show ?thesis
      by (simp add: chain.same_store_def)
  qed
  have "set m3 \<subseteq> set m1" unfolding m3_def m2_def
    using matched_subset(1)[of m1 "rs_force_hosts spec"] matched_subset(2)[of _ "rs_force_nodes spec"]
    by (simp split: if_splits) blast+
  then have sub: "set m3 \<subseteq> set m1" .
  have m3: "a \<in> set hosts \<and> \<not> host_ignored spec (store ! a)" if mem3: "a \<in> snd ` set m3" for a
  proof -
    obtain hostname nodename where mem: "((hostname, nodename), a) \<in> set m1"
      using mem3 sub by fastforce
    then have "((hostname, nodename), a) \<in> set (host_map_of store hosts)"
      by (simp add: m1_def set_strip_ignore split: if_splits)
    note host_map_members[OF this]
    moreover have "\<forall>host \<in> set ?ignore. lower host \<noteq> lower hostname"
      using mem by (simp add: m1_def set_strip_ignore split: if_splits)
    ultimately show ?thesis by (auto simp: host_ignored_def)
  qed
  have ord: "set (order (map snd m3)) = snd ` set m3" using order by (simp add: reorders_def)
  consider (all) "?ignore = []" "unforced spec" "get_filtered_objects cf filters store spec hosts num = Inr (store', spec', hosts')"
    | (none) "store' = store" "spec' = spec" "hosts' = []"
    | (forced) "\<not> unforced spec" "store' = store" "spec' = spec" "set hosts' \<subseteq> snd ` set m3"
    | (rest) "get_filtered_objects cf filters store spec (order (map snd m3)) num = Inr (store', spec', hosts')"
  proof (cases "?ignore = [] \<and> unforced spec")
    case True
    then show thesis using got all by (simp add: get_filtered_hosts_def unforced_def)
  next
    case False
    then have ne: "\<not> (?ignore = [] \<and> rs_force_hosts spec = [] \<and> rs_force_nodes spec = [])" by (simp add: unforced_def)
    have uf: "(rs_force_hosts spec \<noteq> [] \<or> rs_force_nodes spec \<noteq> []) = (\<not> unforced spec)" by (simp add: unforced_def)
    have eq: "(if ?ignore \<noteq> [] \<and> m1 = [] then Inr (store, spec, [])
        else if \<not> unforced spec then Inr (store, spec, if m3 \<noteq> [] then order (map snd m3) else [])
        else get_filtered_objects cf filters store spec (order (map snd m3)) num) = Inr (store', spec', hosts')"
      using got unfolding get_filtered_hosts_def Let_def m1_def[symmetric] m2_def[symmetric] m3_def[symmetric] if_not_P[OF ne] uf .
    show thesis
    proof (cases "?ignore \<noteq> [] \<and> m1 = []")
      case True
      then show thesis using eq none by simp
    next
      case no: False
      show thesis
      proof (cases "unforced spec")
        case True
        then show thesis using eq no rest by (simp only: if_False not_True_eq_False)
      next
        case False
        have "store' = store" "spec' = spec" "hosts' = (if m3 \<noteq> [] then order (map snd m3) else [])"
          using eq no False by (auto simp only: if_False not_False_eq_True if_True Inr_inject prod.inject)
        moreover from this(3) have "set hosts' \<subseteq> snd ` set m3" using ord by (cases "m3 = []") auto
        ultimately show thesis using forced[OF False] by blast
      qed
    qed
  qed
  then show ?thesis
  proof cases
    case all
    then show ?thesis using filtered[OF all(3)] by (simp add: host_ignored_def)
  next
    case rest
    have "set (order (map snd m3)) \<subseteq> set hosts" unfolding ord using m3 by blast
    from filtered[OF rest this] show ?thesis using m3 unfolding ord by blast
  qed (use m3 refl in auto)
qed

definition passed :: "sched_env \<Rightarrow> nat \<Rightarrow> host_state \<Rightarrow> request_spec \<Rightarrow> bool" where
  "passed env num h spec \<longleftrightarrow> (\<forall>f \<in> set (se_filters env).
     run_filter_for_index f num \<and> f \<noteq> NUMATopologyFilter \<longrightarrow> filter_verdict (se_config env) f h spec)"

lemma schedule_step:
  assumes "reorders (se_order env)" "\<forall>a \<in> set hosts. a < length (ss_store st)"
    and "schedule_loop env (num # nums) st hosts selected = Inr (st', selected')"
  obtains (stop) "selected' = selected" "length (ss_store st') = length (ss_store st)"
      "\<forall>a < length (ss_store st). consumed 0 (ss_spec st) (ss_store st ! a) (ss_store st' ! a)"
    | (chosen) chosen hosts1 st1 where "chosen \<in> set hosts1" "set hosts1 \<subseteq> set hosts"
      "unforced (ss_spec st) \<longrightarrow> passed env num (ss_store st ! chosen) (ss_spec st)"
      "\<not> host_ignored (ss_spec st) (ss_store st ! chosen)"
      "length (ss_store st1) = length (ss_store st)"
      "\<forall>a < length (ss_store st).
         consumed (if a = chosen then 1 else 0) (ss_spec st) (ss_store st ! a) (ss_store st1 ! a)"
      "fixed_spec (ss_spec st) (ss_spec st1)"
      "rs_instance_group (ss_spec st1) = map_option
         (\<lambda>g. g\<lparr>ig_hosts := ig_hosts g @ [hs_host (ss_store st ! chosen)]\<rparr>) (rs_instance_group (ss_spec st))"
      "schedule_loop env nums st1 hosts1 (selected @ [chosen]) = Inr (st', selected')"
proof -
  let ?store = "ss_store st" and ?spec = "ss_spec st"
  obtain store1 spec1 hosts1 where f: "get_filtered_hosts (se_config env) (se_order env) (se_filters env)
      ?store ?spec hosts num = Inr (store1, spec1, hosts1)"
    using assms(3) by (auto simp: rbind_eq_Inr)
  note r = hosts_round[OF assms(1,2) f]
  have same: "consumed 0 ?spec (?store ! a) (store1 ! a)" if "a < length ?store" for a
    using r that same_host_consumed by blast
  show thesis
  proof (cases "hosts1 = []")
    case True
    then have "selected' = selected" "st' = st\<lparr>ss_store := store1, ss_spec := spec1\<rparr>"
      using assms(3) f by simp_all
    then show thesis using stop r same by simp
  next
    case False
    obtain weighed ws where w: "get_weighed_objects store1 spec1 (ss_weighers st) hosts1 = (weighed, ws)"
      by fastforce
    define c where "c = choose_host env num weighed"
    obtain h spec2 where h: "consume_from_request (se_config env) (se_now env num) (store1 ! c) spec1 = (h, spec2)"
      by fastforce
    define st1 where "st1 = \<lparr>ss_store = store1[c := h], ss_spec = group_add_host spec2 (hs_host h), ss_weighers = ws\<rparr>"
    have loop: "schedule_loop env nums st1 hosts1 (selected @ [c]) = Inr (st', selected')"
      using assms(3) False by (simp add: f w c_def[symmetric] h st1_def)
    have c_in: "c \<in> set hosts1"
      using choose_host_in[of weighed env num] weighed_nonempty[OF w False] by (simp add: c_def)
    have c_lt: "c < length ?store" using c_in r assms(2) by auto
    note con = consume[OF h]
    have fs: "fixed_spec ?spec spec1" "rs_instance_group spec1 = rs_instance_group ?spec"
      using same_but_numa_fixed r by blast+
    have step: "consumed (if a = c then 1 else 0) ?spec (?store ! a) (store1[c := h] ! a)"
      if "a < length ?store" for a
    proof (cases "a = c")
      case True
      have "consumed 1 ?spec (store1 ! c) h" using con consumed_spec[OF fs(1)] by blast
      then show ?thesis using True consumed_trans[OF same[OF c_lt]] r c_lt by simp
    next
      case False
      then show ?thesis using same[OF that] by simp
    qed
    have name: "hs_host h = hs_host (?store ! c)"
      using con same[OF c_lt] by (simp add: consumed_def fixed_host_def)
    have group: "rs_instance_group (ss_spec st1) = map_option
        (\<lambda>g. g\<lparr>ig_hosts := ig_hosts g @ [hs_host (?store ! c)]\<rparr>) (rs_instance_group ?spec)"
      using con fs(2) by (auto simp: st1_def group_add_host_def name split: option.splits)
    have fixed: "fixed_spec ?spec (ss_spec st1)"
      using con fs(1) fixed_trans(2) group_add_host_fixed by (simp add: st1_def) blast
    have "unforced ?spec \<longrightarrow> passed env num (?store ! c) ?spec" "\<not> host_ignored ?spec (?store ! c)"
      using r c_in by (auto simp: passed_def)
    then show thesis
      using chosen[OF c_in _ _ _ _ _ fixed group loop] r step by (simp add: st1_def)
  qed
qed

section \<open>Capacity\<close>

definition ram_ok :: "host_state \<Rightarrow> bool" where
  "ram_ok h \<longleftrightarrow> of_int (hs_total_usable_ram_mb h - hs_free_ram_mb h)
     \<le> of_int (hs_total_usable_ram_mb h) * hs_ram_allocation_ratio h"

definition cpu_ok :: "host_state \<Rightarrow> bool" where
  "cpu_ok h \<longleftrightarrow> hs_vcpus_total h = 0 \<or>
     of_int (hs_vcpus_used h) \<le> of_int (hs_vcpus_total h) * hs_cpu_allocation_ratio h"

definition disk_ok :: "host_state \<Rightarrow> bool" where
  "disk_ok h \<longleftrightarrow> of_int (hs_total_usable_disk_gb h * 1024 - hs_free_disk_mb h)
     \<le> of_int (hs_total_usable_disk_gb h * 1024) * hs_disk_allocation_ratio h"

lemma consumed_0_ok:
  assumes "consumed 0 spec h h'"
  shows "ram_ok h' = ram_ok h \<and> cpu_ok h' = cpu_ok h \<and> disk_ok h' = disk_ok h"
  using assms by (simp add: consumed_def fixed_host_def ram_ok_def cpu_ok_def disk_ok_def)

lemma ram_filter_consumed:
  assumes "filter_verdict cf RamFilter h spec" "consumed 1 spec h h'"
  shows "ram_ok h'"
  using assms by (auto simp: filter_verdict_def pure_result_def ram_filter_def Let_def consumed_def
    fixed_host_def ram_ok_def split: if_splits)

lemma core_filter_consumed:
  assumes "filter_verdict cf CoreFilter h spec" "consumed 1 spec h h'"
  shows "cpu_ok h'"
  using assms by (auto simp: filter_verdict_def pure_result_def core_filter_def Let_def consumed_def
    fixed_host_def cpu_ok_def split: if_splits)

lemma disk_filter_consumed:
  assumes "filter_verdict cf DiskFilter h spec" "consumed 1 spec h h'" "0 \<le> rs_swap spec"
  shows "disk_ok h'"
  using assms by (auto simp: filter_verdict_def pure_result_def disk_filter_def requested_disk_def Let_def
    consumed_def fixed_host_def disk_ok_def split: if_splits)

definition host_ok :: "sched_env \<Rightarrow> host_state \<Rightarrow> bool" where
  "host_ok env h \<longleftrightarrow> (RamFilter \<in> set (se_filters env) \<longrightarrow> ram_ok h) \<and>
     (CoreFilter \<in> set (se_filters env) \<longrightarrow> cpu_ok h) \<and>
     (DiskFilter \<in> set (se_filters env) \<longrightarrow> disk_ok h)"

lemma runs_always: "f \<in> {RamFilter, CoreFilter, DiskFilter, ServerGroupAntiAffinityFilter} \<Longrightarrow>
    run_filter_for_index f num \<and> f \<noteq> NUMATopologyFilter"
  by (auto simp: run_filter_for_index_def run_filter_once_per_request_def)

lemma passed_consumed_ok:
  assumes "passed env num h spec" "consumed 1 spec h h'" "0 \<le> rs_swap spec"
  shows "host_ok env h'"
  unfolding host_ok_def
  using assms ram_filter_consumed core_filter_consumed disk_filter_consumed runs_always
  unfolding passed_def by blast

lemma consumed_name: "consumed n spec h h' \<Longrightarrow> hs_host h' = hs_host h"
  by (simp add: consumed_def fixed_host_def)

lemma ignored_cong: "fixed_spec s s' \<Longrightarrow> hs_host h' = hs_host h \<Longrightarrow> host_ignored s' h' = host_ignored s h"
  by (simp add: host_ignored_def fixed_spec_def)

lemma unforced_cong: "fixed_spec s s' \<Longrightarrow> unforced s' = unforced s"
  by (simp add: unforced_def fixed_spec_def)

lemma schedule_loop_ok:
  assumes order: "reorders (se_order env)"
  shows "fixed_spec spec0 (ss_spec st) \<Longrightarrow> \<forall>a \<in> set hosts. a < length (ss_store st) \<Longrightarrow>
    schedule_loop env nums st hosts selected = Inr (st', selected') \<Longrightarrow>
    \<exists>new. selected' = selected @ new \<and> length new \<le> length nums \<and> set new \<subseteq> set hosts \<and>
      length (ss_store st') = length (ss_store st) \<and>
      (\<forall>a \<in> set new. \<not> host_ignored spec0 (ss_store st ! a)) \<and>
      (\<forall>a < length (ss_store st).
        consumed (count_list new a) spec0 (ss_store st ! a) (ss_store st' ! a) \<and>
        (unforced spec0 \<and> 0 \<le> rs_swap spec0 \<longrightarrow>
          a \<in> set new \<or> host_ok env (ss_store st ! a) \<longrightarrow> host_ok env (ss_store st' ! a)))"
proof (induction nums arbitrary: st hosts selected)
  case Nil
  then show ?case by (simp add: consumed_def)
next
  case (Cons num nums)
  have spec: "consumed n (ss_spec st) h h' = consumed n spec0 h h'" for n h h'
    using consumed_spec[OF Cons.prems(1)] by blast
  from order Cons.prems(2,3) show ?case
  proof (cases rule: schedule_step)
    case stop
    then show ?thesis using consumed_0_ok spec by (auto simp: host_ok_def)
  next
    case (chosen c hosts1 st1)
    have fr: "fixed_spec spec0 (ss_spec st1)" using fixed_trans(2)[OF Cons.prems(1) chosen(7)] .
    have lt: "\<forall>a \<in> set hosts1. a < length (ss_store st1)" using chosen(2,5) Cons.prems(2) by auto
    obtain new where new: "selected' = (selected @ [c]) @ new" "length new \<le> length nums"
        "set new \<subseteq> set hosts1" "length (ss_store st') = length (ss_store st1)"
        "\<forall>a \<in> set new. \<not> host_ignored spec0 (ss_store st1 ! a)"
        "\<forall>a < length (ss_store st1).
          consumed (count_list new a) spec0 (ss_store st1 ! a) (ss_store st' ! a) \<and>
          (unforced spec0 \<and> 0 \<le> rs_swap spec0 \<longrightarrow>
            a \<in> set new \<or> host_ok env (ss_store st1 ! a) \<longrightarrow> host_ok env (ss_store st' ! a))"
      using Cons.IH[OF fr lt chosen(9)] by blast
    have c: "c < length (ss_store st)" using chosen(1,2) Cons.prems(2) by blast
    have name: "hs_host (ss_store st1 ! a) = hs_host (ss_store st ! a)" if "a < length (ss_store st)" for a
      using consumed_name chosen(6) that by blast
    have ignored: "\<forall>a \<in> set (c # new). \<not> host_ignored spec0 (ss_store st ! a)"
    proof
      fix a assume a: "a \<in> set (c # new)"
      show "\<not> host_ignored spec0 (ss_store st ! a)"
      proof (cases "a = c")
        case True
        then show ?thesis using chosen(4) ignored_cong[OF Cons.prems(1)] by blast
      next
        case False
        then have "a \<in> set new" "a < length (ss_store st)" using a new(3) lt chosen(5) by auto
        then show ?thesis using new(5) name by (auto simp: host_ignored_def)
      qed
    qed
    have first: "host_ok env (ss_store st1 ! c)" if "unforced spec0 \<and> 0 \<le> rs_swap spec0"
    proof -
      have "passed env num (ss_store st ! c) (ss_spec st)" "0 \<le> rs_swap (ss_spec st)"
        using chosen(3) that unforced_cong[OF Cons.prems(1)] Cons.prems(1) by (auto simp: fixed_spec_def)
      moreover have "consumed 1 (ss_spec st) (ss_store st ! c) (ss_store st1 ! c)"
        using chosen(6)[rule_format, OF c] by simp
      ultimately show ?thesis by (intro passed_consumed_ok)
    qed
    moreover have "host_ok env (ss_store st1 ! a) = host_ok env (ss_store st ! a)"
      if "a < length (ss_store st)" "a \<noteq> c" for a
    proof -
      have "consumed 0 (ss_spec st) (ss_store st ! a) (ss_store st1 ! a)"
        using chosen(6)[rule_format, OF that(1)] that(2) by simp
      from consumed_0_ok[OF this] show ?thesis by (simp add: host_ok_def)
    qed
    ultimately have ok: "a \<in> set (c # new) \<or> host_ok env (ss_store st ! a) \<longrightarrow> host_ok env (ss_store st' ! a)"
      if "a < length (ss_store st)" "unforced spec0 \<and> 0 \<le> rs_swap spec0" for a
      using new(6) chosen(5) that by (cases "a = c") auto
    have "consumed (count_list (c # new) a) spec0 (ss_store st ! a) (ss_store st' ! a)"
      if "a < length (ss_store st)" for a
      using consumed_trans[of _ spec0 "ss_store st ! a" "ss_store st1 ! a" "count_list new a" "ss_store st' ! a"]
        chosen(6) new(6) spec chosen(5) that by (cases "a = c") fastforce+
    then show ?thesis using ok new ignored chosen(1,2,5) by (intro exI[of _ "c # new"]) auto
  qed
qed

section \<open>Server groups\<close>

lemma anti_affinity_verdict:
  assumes "filter_verdict cf ServerGroupAntiAffinityFilter h spec" "rs_instance_group spec = Some g"
    "''anti-affinity'' \<in> set (ig_policies g)"
  shows "hs_host h \<notin> set (ig_hosts g)"
  using assms by (auto simp: filter_verdict_def group_anti_affinity_filter_def split: if_splits)

lemma schedule_loop_anti_affinity:
  assumes "ServerGroupAntiAffinityFilter \<in> set (se_filters env)"
    and order: "reorders (se_order env)"
  shows "unforced (ss_spec st) \<Longrightarrow> \<forall>a \<in> set hosts. a < length (ss_store st) \<Longrightarrow>
    rs_instance_group (ss_spec st) = Some g \<Longrightarrow> ''anti-affinity'' \<in> set (ig_policies g) \<Longrightarrow>
    schedule_loop env nums st hosts selected = Inr (st', selected') \<Longrightarrow>
    \<exists>new. selected' = selected @ new \<and> set new \<subseteq> set hosts \<and>
      distinct (map (\<lambda>a. hs_host (ss_store st ! a)) new) \<and>
      set (map (\<lambda>a. hs_host (ss_store st ! a)) new) \<inter> set (ig_hosts g) = {}"
proof (induction nums arbitrary: st hosts selected g)
  case Nil
  then show ?case by simp
next
  case (Cons num nums)
  from order Cons.prems(2,5) show ?case
  proof (cases rule: schedule_step)
    case stop
    then show ?thesis by simp
  next
    case (chosen c hosts1 st1)
    let ?name = "\<lambda>a. hs_host (ss_store st ! a)"
    let ?g1 = "g\<lparr>ig_hosts := ig_hosts g @ [?name c]\<rparr>"
    have filtered: "unforced (ss_spec st1)" using Cons.prems(1) unforced_cong[OF chosen(7)] by simp
    have lt: "\<forall>a \<in> set hosts1. a < length (ss_store st1)" using chosen(2,5) Cons.prems(2) by auto
    have g1: "rs_instance_group (ss_spec st1) = Some ?g1" "''anti-affinity'' \<in> set (ig_policies ?g1)"
      using chosen(8) Cons.prems(3,4) by simp_all
    obtain new where new: "selected' = (selected @ [c]) @ new" "set new \<subseteq> set hosts1"
        "distinct (map (\<lambda>a. hs_host (ss_store st1 ! a)) new)"
        "set (map (\<lambda>a. hs_host (ss_store st1 ! a)) new) \<inter> set (ig_hosts ?g1) = {}"
      using Cons.IH[OF filtered lt g1 chosen(9)] by blast
    have "hs_host (ss_store st1 ! a) = ?name a" if "a \<in> set new" for a
      using chosen(2,6) new(2) Cons.prems(2) that by (auto simp: consumed_def fixed_host_def subset_iff)
    then have names: "map (\<lambda>a. hs_host (ss_store st1 ! a)) new = map ?name new" by simp
    have "filter_verdict (se_config env) ServerGroupAntiAffinityFilter (ss_store st ! c) (ss_spec st)"
      using chosen(3) Cons.prems(1) assms(1) runs_always[of ServerGroupAntiAffinityFilter num] by (simp add: passed_def)
    from anti_affinity_verdict[OF this Cons.prems(3,4)] have "?name c \<notin> set (ig_hosts g)" .
    moreover have "?name c \<notin> set (map ?name new)" "set (map ?name new) \<inter> set (ig_hosts g) = {}"
      using new(4) unfolding names by auto
    ultimately show ?thesis
      using new(1-3) chosen(1,2) unfolding names by (intro exI[of _ "c # new"] conjI) (simp_all, blast?)
  qed
qed

lemma length_marked [simp]:
  "length (foldl (\<lambda>store a. store[a := (store ! a)\<lparr>hs_updated := None\<rparr>]) store sel) = length store"
  by (induction sel rule: rev_induct) simp_all

lemma marked:
  "a < length store \<Longrightarrow>
   \<exists>u. foldl (\<lambda>store a. store[a := (store ! a)\<lparr>hs_updated := None\<rparr>]) store sel ! a = (store ! a)\<lparr>hs_updated := u\<rparr>"
proof (induction sel arbitrary: store)
  case Nil
  show ?case by (intro exI[of _ "hs_updated (store ! a)"]) simp
next
  case (Cons b sel)
  have "a < length (store[b := (store ! b)\<lparr>hs_updated := None\<rparr>])" using Cons.prems by simp
  from Cons.IH[OF this] show ?case using Cons.prems by (cases "a = b") auto
qed

lemma consumed_marked [simp]: "consumed n spec h (h'\<lparr>hs_updated := u\<rparr>) = consumed n spec h h'"
  by (simp add: consumed_def fixed_host_def)

lemma refreshed:
  "a \<in> set sel \<Longrightarrow> \<forall>a \<in> set sel. a < length store \<Longrightarrow>
   hs_updated (foldl (\<lambda>store a. store[a := (store ! a)\<lparr>hs_updated := None\<rparr>]) store sel ! a) = None"
proof (induction sel rule: rev_induct)
  case (snoc b sel)
  let ?st = "foldl (\<lambda>store a. store[a := (store ! a)\<lparr>hs_updated := None\<rparr>]) store sel"
  have "length ?st = length store" by (induction sel rule: rev_induct) simp_all
  then show ?case using snoc by (cases "a = b") (auto simp: nth_list_update)
qed simp

section \<open>Properties\<close>

text \<open>Claim C13. Scheduling never overcommits a host beyond its ratios: when \<open>_schedule\<close> with the RAM,
  core or disk filter selects hosts for a request that forces no host and no node (it may ignore
  some) and asks for no negative swap, then after all instances are consumed every selected host uses
  at most its total times the allocation ratio of each of these resources (a host that reports no
  CPUs aside), and every other host that was within its ratios still is. Each host has exactly the
  resources of the instances placed on it consumed, and no selected host is one the request ignores.\<close>

theorem schedule_respects_capacity:
  assumes "schedule env st hosts = Inr (st', selected)" and "reorders (se_order env)"
    and "\<forall>a \<in> set hosts. a < length (ss_store st)" and "unforced (ss_spec st)" and "0 \<le> rs_swap (ss_spec st)"
  shows "length selected \<le> rs_num_instances (ss_spec st) \<and> set selected \<subseteq> set hosts \<and>
    length (ss_store st') = length (ss_store st) \<and>
    (\<forall>a \<in> set selected. \<not> host_ignored (ss_spec st) (ss_store st ! a)) \<and>
    (\<forall>a < length (ss_store st).
      consumed (count_list selected a) (ss_spec st) (ss_store st ! a) (ss_store st' ! a) \<and>
      (a \<in> set selected \<or> host_ok env (ss_store st ! a) \<longrightarrow> host_ok env (ss_store st' ! a)))"
  using schedule_loop_ok[OF assms(2) fixed_refl(2) assms(3) assms(1)[unfolded schedule_def]] assms(4,5) by auto

definition demo_env :: sched_env where
  "demo_env = \<lparr>se_config = plain_config,
     se_filters = [RamFilter, CoreFilter, DiskFilter, ServerGroupAntiAffinityFilter],
     se_order = id, se_random = id, se_now = int\<rparr>"

definition demo_state :: sched_state where
  "demo_state = \<lparr>ss_store = plain_store, ss_spec = plain_spec, ss_weighers = [new_weigher RAMWeigher 1]\<rparr>"

lemma demo_schedule: "\<exists>st'. schedule demo_env demo_state [0, 1, 2] = Inr (st', [0, 2])"
proof -
  have "(case schedule demo_env demo_state [0, 1, 2] of Inr (_, r) \<Rightarrow> r = [0, 2] | Inl _ \<Rightarrow> False)"
    by code_simp
  then show ?thesis by (auto split: sum.splits)
qed

lemma demo_schedule_hyps:
  "reorders (se_order demo_env)" "\<forall>a \<in> set [0, 1, 2]. a < length (ss_store demo_state)"
  "unforced (ss_spec demo_state)" "0 \<le> rs_swap (ss_spec demo_state)"
  by (simp_all add: demo_state_def plain_spec_def unforced_def plain_store_def reorders_def demo_env_def)

theorem schedule_respects_capacity_witness:
  "\<exists>st'. schedule demo_env demo_state [0, 1, 2] = Inr (st', [0, 2]) \<and>
     ram_ok (ss_store st' ! 0) \<and> hs_free_ram_mb (ss_store st' ! 0) = 1536"
proof -
  obtain st' where s: "schedule demo_env demo_state [0, 1, 2] = Inr (st', [0, 2])" using demo_schedule by blast
  have l: "length (ss_store demo_state) = 3" "hs_free_ram_mb (ss_store demo_state ! 0) = 2048"
    "rs_memory_mb (ss_spec demo_state) = 512"
    by (simp_all add: demo_state_def plain_store_def plain_host_def plain_spec_def)
  have "consumed 1 (ss_spec demo_state) (ss_store demo_state ! 0) (ss_store st' ! 0) \<and>
      host_ok demo_env (ss_store st' ! 0)"
    using schedule_respects_capacity[OF s demo_schedule_hyps] l(1) by fastforce
  then show ?thesis using s l by (auto simp: host_ok_def demo_env_def consumed_def)
qed

text \<open>Claim C14. With the anti-affinity filter, the hosts selected for a group with the policy
  \<open>anti-affinity\<close> have pairwise different names and none of them is a host the group already uses,
  provided the request forces no host and no node: for a forced host the code skips the filters.\<close>

theorem schedule_anti_affinity:
  assumes "schedule env st hosts = Inr (st', selected)" and "reorders (se_order env)"
    and "\<forall>a \<in> set hosts. a < length (ss_store st)" and "unforced (ss_spec st)"
    and "ServerGroupAntiAffinityFilter \<in> set (se_filters env)"
    and "rs_instance_group (ss_spec st) = Some g" and "''anti-affinity'' \<in> set (ig_policies g)"
  shows "distinct (map (\<lambda>a. hs_host (ss_store st ! a)) selected) \<and>
    set (map (\<lambda>a. hs_host (ss_store st ! a)) selected) \<inter> set (ig_hosts g) = {}"
  using schedule_loop_anti_affinity[OF assms(5,2,4,3,6,7) assms(1)[unfolded schedule_def]] by auto

theorem schedule_anti_affinity_witness:
  "distinct (map (\<lambda>a. hs_host (ss_store demo_state ! a)) [0, 2])"
proof -
  obtain st' where s: "schedule demo_env demo_state [0, 1, 2] = Inr (st', [0, 2])" using demo_schedule by blast
  have "ServerGroupAntiAffinityFilter \<in> set (se_filters demo_env)"
    "rs_instance_group (ss_spec demo_state) = Some \<lparr>ig_policies = [''anti-affinity''], ig_hosts = [], ig_members = []\<rparr>"
    by (simp_all add: demo_env_def demo_state_def plain_spec_def)
  from schedule_anti_affinity[OF s demo_schedule_hyps(1-3) this] show ?thesis by simp
qed

text \<open>Claim C16. \<open>select_destinations\<close> is all or nothing, for any request, also one that forces or
  ignores hosts, unless a filter raises an exception, which ends the call on its way. Either it returns one destination for each
  instance: candidates that the request does not ignore, with the limits that were last set on them,
  and every candidate has exactly the resources of the instances placed on it consumed. Or it raises
  \<open>NoValidHost\<close>, when it found a host for fewer; then every host of which something was consumed is marked,
  so that whatever its compute node reports next, and however old that is, replaces its resources.\<close>

theorem select_destinations_complete:
  assumes "select_destinations env st hosts = Inr (st', res)"
    and "reorders (se_order env)" and "\<forall>a \<in> set hosts. a < length (ss_store st)"
  shows "\<exists>selected. set selected \<subseteq> set hosts \<and> length (ss_store st') = length (ss_store st) \<and>
    (\<forall>a \<in> set selected. \<not> host_ignored (ss_spec st) (ss_store st ! a)) \<and>
    (\<forall>a < length (ss_store st). consumed (count_list selected a) (ss_spec st) (ss_store st ! a) (ss_store st' ! a)) \<and>
    (case res of
       Inr dests \<Rightarrow> length selected = rs_num_instances (ss_spec st) \<and>
         map de_host dests = map (\<lambda>a. hs_host (ss_store st ! a)) selected \<and>
         map de_nodename dests = map (\<lambda>a. hs_nodename (ss_store st ! a)) selected \<and>
         map de_limits dests = map (\<lambda>a. hs_limits (ss_store st' ! a)) selected
     | Inl e \<Rightarrow> e = NoValidHost \<and> length selected < rs_num_instances (ss_spec st) \<and>
         (\<forall>a \<in> set selected. \<forall>c. hs_free_ram_mb (update_from_compute_node (ss_store st' ! a) c) = cn_free_ram_mb c \<and>
            hs_vcpus_used (update_from_compute_node (ss_store st' ! a) c) = cn_vcpus_used c \<and>
            hs_num_instances (update_from_compute_node (ss_store st' ! a) c) = cn_num_instances c))"
proof -
  obtain st1 sel where s: "schedule env st hosts = Inr (st1, sel)"
    and r: "(st', res) = (if length sel < rs_num_instances (ss_spec st)
      then (st1\<lparr>ss_store := foldl (\<lambda>store a. store[a := (store ! a)\<lparr>hs_updated := None\<rparr>]) (ss_store st1) sel\<rparr>, Inl NoValidHost)
      else (st1, Inr (map (\<lambda>a. dest_of (ss_store st1 ! a)) sel)))"
    using assms(1) by (auto simp: select_destinations_def Let_def rbind_eq_Inr)
  have sel: "length sel \<le> rs_num_instances (ss_spec st)" "set sel \<subseteq> set hosts" "length (ss_store st1) = length (ss_store st)"
      "\<forall>a \<in> set sel. \<not> host_ignored (ss_spec st) (ss_store st ! a)"
      "\<forall>a < length (ss_store st). consumed (count_list sel a) (ss_spec st) (ss_store st ! a) (ss_store st1 ! a)"
    using schedule_loop_ok[OF assms(2) fixed_refl(2) assms(3) s[unfolded schedule_def]] by auto
  have lt: "a < length (ss_store st)" if "a \<in> set sel" for a using that sel(2) assms(3) by blast
  show ?thesis
  proof (cases "length sel < rs_num_instances (ss_spec st)")
    case True
    let ?store = "foldl (\<lambda>store a. store[a := (store ! a)\<lparr>hs_updated := None\<rparr>]) (ss_store st1) sel"
    have st': "ss_store st' = ?store" "res = Inl NoValidHost" using r True by simp_all
    have "hs_updated (?store ! a) = None" if "a \<in> set sel" for a
      by (rule refreshed[OF that]) (use lt sel(3) in auto)
    then have "hs_free_ram_mb (update_from_compute_node (?store ! a) c) = cn_free_ram_mb c \<and>
        hs_vcpus_used (update_from_compute_node (?store ! a) c) = cn_vcpus_used c \<and>
        hs_num_instances (update_from_compute_node (?store ! a) c) = cn_num_instances c" if "a \<in> set sel" for a c
      using that by (simp add: update_from_compute_node_def Let_def)
    moreover have "consumed n spec h (?store ! a) = consumed n spec h (ss_store st1 ! a)" if "a < length (ss_store st1)" for n spec h a
      using marked[OF that, of sel] by auto
    ultimately show ?thesis using sel True by (intro exI[of _ sel]) (simp add: st')
  next
    case False
    have "st' = st1" "res = Inr (map (\<lambda>a. dest_of (ss_store st1 ! a)) sel)" using r False by simp_all
    moreover have "hs_host (ss_store st1 ! a) = hs_host (ss_store st ! a)" "hs_nodename (ss_store st1 ! a) = hs_nodename (ss_store st ! a)"
      if "a \<in> set sel" for a using sel(5) lt[OF that] by (auto simp: consumed_def fixed_host_def)
    ultimately show ?thesis using sel False by (intro exI[of _ sel]) (simp add: dest_of_def)
  qed
qed

definition demo_shortage :: sched_state where
  "demo_shortage = demo_state\<lparr>ss_spec := plain_spec\<lparr>rs_num_instances := 3, rs_ignore_hosts := [''C'']\<rparr>\<rparr>"

text \<open>Two hosts have the memory, and one of them is to be ignored.\<close>

theorem select_destinations_complete_witness:
  "\<exists>st' selected. select_destinations demo_env demo_shortage [0, 1, 2] = Inr (st', Inl NoValidHost) \<and>
     set selected \<subseteq> {0, 1, 2} \<and> length selected < 3 \<and>
     (\<forall>a \<in> set selected. \<forall>c. hs_free_ram_mb (update_from_compute_node (ss_store st' ! a) c) = cn_free_ram_mb c)"
proof -
  have "(case select_destinations demo_env demo_shortage [0, 1, 2] of Inr (_, Inl e) \<Rightarrow> e = NoValidHost | _ \<Rightarrow> False)"
    by code_simp
  then obtain st' where s: "select_destinations demo_env demo_shortage [0, 1, 2] = Inr (st', Inl NoValidHost)"
    by (auto split: sum.splits) (metis sumE)
  have l: "\<forall>a \<in> set [0, 1, 2]. a < length (ss_store demo_shortage)" "rs_num_instances (ss_spec demo_shortage) = 3"
    by (simp_all add: demo_shortage_def demo_state_def plain_store_def)
  from select_destinations_complete[OF s demo_schedule_hyps(1) l(1)] obtain selected where
    "set selected \<subseteq> {0, 1, 2}" "length selected < 3"
    "\<forall>a \<in> set selected. \<forall>c. hs_free_ram_mb (update_from_compute_node (ss_store st' ! a) c) = cn_free_ram_mb c"
    by (auto simp: l(2))
  then show ?thesis using s by blast
qed

text \<open>Consuming a request that asks for no NUMA topology and no PCI device resets the NUMA usage
  the scheduler keeps for the host: the CPU and memory usage of every cell becomes 0, whatever other
  instances use, so the limits of the NUMA filter no longer see them.\<close>

theorem consume_resets_numa_usage:
  assumes "rs_numa_topology spec = None" and "rs_pci_requests spec = None"
    and "hs_numa_topology h = Some cells"
  shows "hs_numa_topology (fst (consume_from_request cf now h spec)) =
    Some (map (\<lambda>c. c\<lparr>nc_cpu_usage := 0, nc_memory_usage := 0\<rparr>) cells)"
proof -
  have "rmap (usage_hostcell False []) cells =
      Inr (map (\<lambda>c. c\<lparr>nc_cpu_usage := 0, nc_memory_usage := 0\<rparr>) cells)"
    by (induction cells) (simp_all add: usage_hostcell_def)
  then show ?thesis using assms
    by (simp add: consume_from_request_def locked_consume_from_request_def Let_def
      numa_fit_instance_to_host_def host_numa_usage_def numa_usage_from_instances_def)
qed

theorem consume_resets_numa_usage_witness:
  "hs_numa_topology (fst (consume_from_request plain_config 0
     ((plain_host ''a'' 2048)\<lparr>hs_numa_topology := Some demo_used_host\<rparr>) plain_spec)) =
   Some (map (\<lambda>c. c\<lparr>nc_cpu_usage := 0, nc_memory_usage := 0\<rparr>) demo_used_host)"
proof -
  have "rs_numa_topology plain_spec = None" "rs_pci_requests plain_spec = None"
    "hs_numa_topology ((plain_host ''a'' 2048)\<lparr>hs_numa_topology := Some demo_used_host\<rparr>) = Some demo_used_host"
    by (simp_all add: plain_spec_def)
  then show ?thesis by (rule consume_resets_numa_usage)
qed

end
