(* ===== verification/Heat_Dependencies.thy ===== *)
theory Heat_Dependencies
  imports Py_Base "HOL-Library.AList"
begin

text \<open>
  Heat's dependency graphs (\<open>heat/engine/dependencies.py\<close>): the nodes and the mutable graph
  with its \<open>defaultdict\<close> accesses, the topological sort, and the operations of \<open>Dependencies\<close>.
  A dictionary is an association list in its iteration order; the two sets of a node are lists
  without duplicates in their iteration order. The locale \<open>topological\<close> is what the users of an
  iteration order rely on; forward and reverse iteration are its interpretations.
\<close>

section \<open>Nodes and graphs\<close>

record 'k node =
  nd_require :: "'k list"
  nd_satisfy :: "'k list"

definition new_node :: "'k node" where
  "new_node = \<lparr>nd_require = [], nd_satisfy = []\<rparr>"

definition node_reverse_copy :: "'k node \<Rightarrow> 'k node" where
  "node_reverse_copy n = \<lparr>nd_require = nd_satisfy n, nd_satisfy = nd_require n\<rparr>"

definition add_required_by :: "'k \<Rightarrow> 'k node \<Rightarrow> 'k node" where
  "add_required_by source n = n\<lparr>nd_satisfy := List.insert source (nd_satisfy n)\<rparr>"

definition add_requires :: "'k \<Rightarrow> 'k node \<Rightarrow> 'k node" where
  "add_requires target n = n\<lparr>nd_require := List.insert target (nd_require n)\<rparr>"

text \<open>\<open>node -= target\<close>, guarded by \<open>target in node\<close> as its only caller does.\<close>

definition node_isub :: "'k \<Rightarrow> 'k node \<Rightarrow> 'k node" where
  "node_isub target n =
     (if target \<in> set (nd_require n) then n\<lparr>nd_require := removeAll target (nd_require n)\<rparr> else n)"

definition node_bool :: "'k node \<Rightarrow> bool" where
  "node_bool n \<longleftrightarrow> nd_require n \<noteq> []"

definition node_stem :: "'k node \<Rightarrow> bool" where
  "node_stem n \<longleftrightarrow> nd_satisfy n = []"

definition node_disjoint :: "'k node \<Rightarrow> bool" where
  "node_disjoint n \<longleftrightarrow> \<not> node_bool n \<and> node_stem n"

type_synonym 'k graph = "('k \<times> 'k node) list"

definition keys :: "'k graph \<Rightarrow> 'k set" where
  "keys g = fst ` set g"

text \<open>\<open>self[key]\<close> of the \<open>defaultdict\<close>: the node, which is created when it is missing.\<close>

definition node_of :: "'k graph \<Rightarrow> 'k \<Rightarrow> 'k node" where
  "node_of g k = (case map_of g k of None \<Rightarrow> new_node | Some n \<Rightarrow> n)"

definition update_node :: "('k node \<Rightarrow> 'k node) \<Rightarrow> 'k \<Rightarrow> 'k graph \<Rightarrow> 'k graph" where
  "update_node f k g = AList.update k (f (node_of g k)) g"

definition reverse_copy :: "'k graph \<Rightarrow> 'k graph" where
  "reverse_copy g = map (\<lambda>(k, n). (k, node_reverse_copy n)) g"

definition graph_edges :: "'k graph \<Rightarrow> ('k \<times> 'k option) list" where
  "graph_edges g = concat (map (\<lambda>(rqr, n).
     if node_disjoint n then [(rqr, None)] else map (\<lambda>rqd. (rqr, Some rqd)) (nd_require n)) g)"

text \<open>\<open>Graph.__delitem__\<close>: every access creates a missing node, also of a key that requires the
  deleted one but was deleted before.\<close>

definition del_node :: "'k \<Rightarrow> 'k graph \<Rightarrow> 'k graph" where
  "del_node key g =
     (let g1 = update_node id key g;
          g2 = foldl (\<lambda>g src. update_node (node_isub key) src g) g1 (nd_satisfy (node_of g1 key))
      in AList.delete key g2)"

section \<open>The topological sort\<close>

text \<open>The exceptions of the Heat theories. A circular dependency carries the rest of the graph.\<close>

datatype 'k heat_exc = CircularDependency "'k graph" | HeatKeyError

text \<open>\<open>Graph.toposort\<close> is a generator: the keys it yields and the exception it ends with. The
  number of iterations is fixed before the loop.\<close>

fun toposort_loop :: "nat \<Rightarrow> 'k graph \<Rightarrow> 'k list \<times> 'k heat_exc option" where
  "toposort_loop 0 g = ([], None)"
| "toposort_loop (Suc n) g =
     (case find (\<lambda>(k, nd). \<not> node_bool nd) g of
        None \<Rightarrow> ([], Some (CircularDependency g))
      | Some (key, _) \<Rightarrow>
          (let (ks, e) = toposort_loop n (del_node key g) in (key # ks, e)))"

definition toposort :: "'k graph \<Rightarrow> 'k list \<times> 'k heat_exc option" where
  "toposort g = toposort_loop (length g) g"

text \<open>\<open>list(generator)\<close>.\<close>

definition py_list :: "'a list \<times> 'e option \<Rightarrow> ('e, 'a list) result" where
  "py_list gen = (case gen of (xs, None) \<Rightarrow> Inr xs | (_, Some e) \<Rightarrow> Inl e)"

section \<open>Dependencies\<close>

text \<open>An edge is a requirer with what it requires, or with \<open>None\<close> for a node without edges.\<close>

type_synonym 'k edge = "'k \<times> 'k option"

definition add_edge :: "'k graph \<Rightarrow> 'k edge \<Rightarrow> 'k graph" where
  "add_edge g e = (case e of
     (requirer, None) \<Rightarrow> update_node id requirer g
   | (requirer, Some required) \<Rightarrow>
       update_node (add_requires required) requirer (update_node (add_required_by requirer) required g))"

definition dependencies :: "'k edge list \<Rightarrow> 'k graph" where
  "dependencies edges = foldl add_edge [] edges"

definition dep_graph :: "'k graph \<Rightarrow> bool \<Rightarrow> 'k graph" where
  "dep_graph g reverse = (if reverse then reverse_copy g else g)"

definition dep_iter :: "'k graph \<Rightarrow> ('k heat_exc, 'k list) result" where
  "dep_iter g = py_list (toposort (dep_graph g False))"

definition dep_reversed :: "'k graph \<Rightarrow> ('k heat_exc, 'k list) result" where
  "dep_reversed g = py_list (toposort (dep_graph g True))"

definition dep_required_by :: "'k graph \<Rightarrow> 'k \<Rightarrow> ('k heat_exc, 'k list) result" where
  "dep_required_by g last_key =
     (if last_key \<in> keys g then Inr (nd_satisfy (node_of g last_key)) else Inl HeatKeyError)"

definition dep_requires :: "'k graph \<Rightarrow> 'k \<Rightarrow> ('k heat_exc, 'k list) result" where
  "dep_requires g target =
     (if target \<in> keys g then Inr (nd_require (node_of g target)) else Inl HeatKeyError)"

definition leaves :: "'k graph \<Rightarrow> 'k list" where
  "leaves g = map fst (filter (\<lambda>(k, n). \<not> node_bool n) g)"

definition roots :: "'k graph \<Rightarrow> 'k list" where
  "roots g = leaves (dep_graph g True)"

definition translate :: "('k \<Rightarrow> 'j) \<Rightarrow> 'k graph \<Rightarrow> 'j graph" where
  "translate transform g = dependencies (map (map_prod transform (map_option transform)) (graph_edges g))"

text \<open>The generators of \<open>__getitem__\<close>: the recursion follows the requirers and does not end on a
  cycle, so it is bounded by a number of levels; \<open>None\<close> is more levels than that.\<close>

fun get_edges :: "nat \<Rightarrow> 'k graph \<Rightarrow> 'k \<Rightarrow> 'k edge list option" where
  "get_edges 0 g key = None"
| "get_edges (Suc n) g key = map_option concat
     (those (map (\<lambda>rqr. map_option (Cons (rqr, Some key)) (get_edges n g rqr)) (nd_satisfy (node_of g key))))"

definition dep_getitem :: "nat \<Rightarrow> 'k graph \<Rightarrow> 'k \<Rightarrow> ('k heat_exc, 'k graph) result option" where
  "dep_getitem n g last_key =
     (if last_key \<notin> keys g then Some (Inl HeatKeyError)
      else if node_stem (node_of g last_key) then Some (Inr (dependencies [(last_key, None)]))
      else map_option (\<lambda>edges. Inr (dependencies edges)) (get_edges n g last_key))"

section \<open>The graph as a relation\<close>

definition requires :: "'k graph \<Rightarrow> 'k \<Rightarrow> 'k set" where
  "requires g k = set (nd_require (node_of g k))"

definition required_by :: "'k graph \<Rightarrow> 'k \<Rightarrow> 'k set" where
  "required_by g k = set (nd_satisfy (node_of g k))"

text \<open>A graph is well formed when its two views of the edges agree.\<close>

definition wf_graph :: "'k graph \<Rightarrow> bool" where
  "wf_graph g \<longleftrightarrow> distinct (map fst g) \<and> (\<forall>a b. b \<in> requires g a \<longleftrightarrow> a \<in> required_by g b)"

definition dep_rel :: "'k graph \<Rightarrow> ('k \<times> 'k) set" where
  "dep_rel g = {(a, b). b \<in> requires g a}"

named_theorems graph_simps \<open>what the graph operations do to keys and edges\<close>

lemma keys_update_node [simp, graph_simps]: "keys (update_node f k g) = insert k (keys g)"
  by (auto simp: keys_def update_node_def dom_update)

lemma distinct_update_node [simp]: "distinct (map fst g) \<Longrightarrow> distinct (map fst (update_node f k g))"
  by (simp add: update_node_def distinct_update)

lemma node_of_update_node [graph_simps]:
  "node_of (update_node f k g) j = (if j = k then f (node_of g k) else node_of g j)"
  by (simp add: node_of_def update_node_def update_conv')

lemma node_of_missing: "k \<notin> keys g \<Longrightarrow> node_of g k = new_node"
  unfolding node_of_def keys_def by (metis map_of_eq_None_iff option.case(1))

lemma new_node_simps [simp]: "nd_require new_node = []" "nd_satisfy new_node = []"
  by (simp_all add: new_node_def)

lemma requires_keys: "b \<in> requires g a \<Longrightarrow> a \<in> keys g"
  by (rule ccontr) (simp add: requires_def node_of_missing)

lemma required_by_keys: "b \<in> required_by g a \<Longrightarrow> a \<in> keys g"
  by (rule ccontr) (simp add: required_by_def node_of_missing)

lemma wf_graphD:
  assumes "wf_graph g"
  shows "distinct (map fst g)" "b \<in> requires g a \<longleftrightarrow> a \<in> required_by g b"
    "b \<in> requires g a \<Longrightarrow> b \<in> keys g" "a \<in> required_by g b \<Longrightarrow> a \<in> keys g"
proof -
  show "distinct (map fst g)" and sym: "b \<in> requires g a \<longleftrightarrow> a \<in> required_by g b" for a b
    using assms by (simp_all add: wf_graph_def)
  show "b \<in> requires g a \<Longrightarrow> b \<in> keys g" "a \<in> required_by g b \<Longrightarrow> a \<in> keys g"
    using sym requires_keys required_by_keys by metis+
qed

lemma dep_rel_keys: "wf_graph g \<Longrightarrow> (a, b) \<in> dep_rel g \<Longrightarrow> a \<in> keys g \<and> b \<in> keys g"
  by (auto simp: dep_rel_def requires_keys wf_graphD(3))

lemma finite_keys [simp]: "finite (keys g)"
  by (simp add: keys_def)

lemma finite_dep_rel: "wf_graph g \<Longrightarrow> finite (dep_rel g)"
  by (rule finite_subset[of _ "keys g \<times> keys g"]) (auto dest: dep_rel_keys)

lemma node_of_in: "distinct (map fst g) \<Longrightarrow> (k, n) \<in> set g \<Longrightarrow> node_of g k = n"
  by (simp add: node_of_def)

lemma in_node_of: "k \<in> keys g \<Longrightarrow> (k, node_of g k) \<in> set g"
  by (auto simp: node_of_def keys_def split: option.splits dest: map_of_SomeD weak_map_of_SomeI)

subsection \<open>Deletion\<close>

lemma foldl_isub:
  "node_of (foldl (\<lambda>g src. update_node (node_isub key) src g) g srcs) j =
     (if j \<in> set srcs then node_isub key (node_of g j) else node_of g j)"
  "keys (foldl (\<lambda>g src. update_node (node_isub key) src g) g srcs) = keys g \<union> set srcs"
  "distinct (map fst g) \<Longrightarrow> distinct (map fst (foldl (\<lambda>g src. update_node (node_isub key) src g) g srcs))"
  by (induction srcs arbitrary: g) (auto simp: node_of_update_node node_isub_def)

lemma node_of_delete: "node_of (AList.delete k g) j = (if j = k then new_node else node_of g j)"
  by (simp add: node_of_def delete_conv')

lemma keys_delete: "keys (AList.delete k g) = keys g - {k}"
  by (auto simp: keys_def AList.delete_eq image_iff)

lemma node_of_del_node [graph_simps]:
  "node_of (del_node key g) j =
     (if j = key then new_node
      else if j \<in> required_by g key then node_isub key (node_of g j) else node_of g j)"
  by (auto simp: del_node_def Let_def node_of_delete foldl_isub node_of_update_node required_by_def)

lemma keys_del_node [graph_simps]: "keys (del_node key g) = keys g \<union> required_by g key - {key}"
  by (auto simp: del_node_def Let_def keys_delete foldl_isub node_of_update_node required_by_def)

lemma distinct_del_node: "distinct (map fst g) \<Longrightarrow> distinct (map fst (del_node key g))"
  by (simp add: del_node_def Let_def distinct_delete foldl_isub)

lemma requires_del_node [graph_simps]:
  "requires (del_node key g) j =
     (if j = key then {} else if j \<in> required_by g key then requires g j - {key} else requires g j)"
  by (auto simp: requires_def node_of_del_node node_isub_def)

lemma required_by_del_node [graph_simps]:
  "required_by (del_node key g) j = (if j = key then {} else required_by g j)"
  by (auto simp: required_by_def node_of_del_node node_isub_def)

text \<open>Deleting a node that requires nothing keeps the graph well formed.\<close>

lemma wf_del_node:
  assumes wf: "wf_graph g" and leaf: "requires g key = {}"
  shows "wf_graph (del_node key g)" "dep_rel (del_node key g) = dep_rel g - UNIV \<times> {key}"
    "keys (del_node key g) = keys g - {key}"
proof -
  note D = wf_graphD[OF wf]
  show "keys (del_node key g) = keys g - {key}"
    using D(4) by (auto simp: keys_del_node)
  have req: "requires (del_node key g) a = requires g a - {key}" for a
  proof (cases "a \<in> required_by g key")
    case False
    then have "key \<notin> requires g a" using D(2) by blast
    then show ?thesis using False leaf by (simp add: requires_del_node)
  qed (use leaf in \<open>simp add: requires_del_node\<close>)
  show "dep_rel (del_node key g) = dep_rel g - UNIV \<times> {key}" by (auto simp: dep_rel_def req)
  show "wf_graph (del_node key g)"
    unfolding wf_graph_def req required_by_del_node using distinct_del_node[OF D(1)] D(2) by simp
qed

lemma length_keys: "distinct (map fst g) \<Longrightarrow> length g = card (keys g)"
  unfolding keys_def by (metis distinct_card length_map list.set_map)

section \<open>What a topological order promises\<close>

text \<open>\<open>order\<close> lists the nodes so that none requires itself or a later one.\<close>

definition topological_order :: "('k \<times> 'k) set \<Rightarrow> 'k set \<Rightarrow> 'k list \<Rightarrow> bool" where
  "topological_order r A ks \<longleftrightarrow>
     distinct ks \<and> set ks = A \<and> sorted_wrt (\<lambda>x y. (x, y) \<notin> r) ks \<and> (\<forall>x \<in> set ks. (x, x) \<notin> r)"

text \<open>A user iterates over \<open>nodes\<close> in an order and only relies on this: any part of the nodes that
  is not finished has one whose requirements are all finished.\<close>

locale topological =
  fixes rel :: "'g \<Rightarrow> ('k \<times> 'k) set" and nodes :: "'g \<Rightarrow> 'k set" and ok :: "'g \<Rightarrow> bool"
    and iterate :: "'g \<Rightarrow> ('e, 'k list) result"
  assumes order: "ok g \<Longrightarrow> iterate g = Inr ks \<Longrightarrow> topological_order (rel g) (nodes g) ks"
    and closed: "ok g \<Longrightarrow> rel g \<subseteq> nodes g \<times> nodes g"
    and fails: "ok g \<Longrightarrow> iterate g = Inl e \<Longrightarrow> \<not> acyclic (rel g)"
begin

lemma first_pending:
  assumes "ok g" "iterate g = Inr ks" "P \<subseteq> nodes g" "P \<noteq> {}"
  obtains k where "k \<in> P" "\<And>j. (k, j) \<in> rel g \<Longrightarrow> j \<notin> P"
proof -
  have top: "distinct ks" "set ks = nodes g" "sorted_wrt (\<lambda>x y. (x, y) \<notin> rel g) ks"
      "\<forall>x \<in> set ks. (x, x) \<notin> rel g"
    using order[OF assms(1,2)] by (auto simp: topological_order_def)
  have "\<exists>x \<in> set ks. x \<in> P" using assms(3,4) top(2) by auto
  from split_list_first_prop[OF this] obtain ys k zs where
    split: "ks = ys @ k # zs" "k \<in> P" "\<forall>y \<in> set ys. y \<notin> P" by blast
  have "j \<notin> P" if "(k, j) \<in> rel g" for j
  proof
    assume "j \<in> P"
    then have "j \<in> set ks" using assms(3) top(2) by blast
    then have "j \<in> insert k (set zs)" using split(1,3) \<open>j \<in> P\<close> by auto
    then show False using that top(3,4) split(1) by (auto simp: sorted_wrt_append)
  qed
  then show thesis using that split(2) by blast
qed

lemma last_pending:
  assumes "ok g" "iterate g = Inr ks" "P \<subseteq> nodes g" "P \<noteq> {}"
  obtains k where "k \<in> P" "\<And>j. (j, k) \<in> rel g \<Longrightarrow> j \<notin> P"
proof -
  have top: "distinct ks" "set ks = nodes g" "sorted_wrt (\<lambda>x y. (x, y) \<notin> rel g) ks"
      "\<forall>x \<in> set ks. (x, x) \<notin> rel g"
    using order[OF assms(1,2)] by (auto simp: topological_order_def)
  have "\<exists>x \<in> set ks. x \<in> P" using assms(3,4) top(2) by auto
  from split_list_last_prop[OF this] obtain ys k zs where
    split: "ks = ys @ k # zs" "k \<in> P" "\<forall>z \<in> set zs. z \<notin> P" by blast
  have "j \<notin> P" if "(j, k) \<in> rel g" for j
  proof
    assume "j \<in> P"
    then have "j \<in> set ks" using assms(3) top(2) by blast
    then have "j \<in> insert k (set ys)" using split(1,3) \<open>j \<in> P\<close> by auto
    then show False using that top(3,4) split(1) by (auto simp: sorted_wrt_append)
  qed
  then show thesis using that split(2) by blast
qed

lemma iterates_iff_acyclic:
  assumes "ok g" shows "(\<exists>ks. iterate g = Inr ks) \<longleftrightarrow> acyclic (rel g)"
proof
  assume "\<exists>ks. iterate g = Inr ks"
  then obtain ks where ks: "iterate g = Inr ks" ..
  show "acyclic (rel g)"
  proof (rule ccontr)
    assume "\<not> acyclic (rel g)"
    then obtain x where x: "(x, x) \<in> (rel g)\<^sup>+" by (auto simp: acyclic_def)
    let ?P = "{y. (x, y) \<in> (rel g)\<^sup>+ \<and> (y, x) \<in> (rel g)\<^sup>+}"
    have "?P \<subseteq> nodes g" using trancl_subset_Sigma[OF closed[OF assms]] by blast
    then obtain k where k: "k \<in> ?P" "\<And>j. (k, j) \<in> rel g \<Longrightarrow> j \<notin> ?P"
      using first_pending[OF assms ks, of ?P] x by blast
    from k(1) obtain j where j: "(k, j) \<in> rel g" "(j, x) \<in> (rel g)\<^sup>*" by (auto dest: tranclD)
    have "(x, j) \<in> (rel g)\<^sup>+" using k(1) j(1) by (auto intro: trancl.trancl_into_trancl)
    moreover have "(j, x) \<in> (rel g)\<^sup>+" using rtranclD[OF j(2)] x by auto
    ultimately show False using k(2)[OF j(1)] by simp
  qed
next
  assume "acyclic (rel g)"
  then show "\<exists>ks. iterate g = Inr ks" using fails[OF assms] by (cases "iterate g") auto
qed

end

section \<open>Correctness of the sort\<close>

text \<open>A deleted leaf leaves every cycle in place.\<close>

lemma cycle_avoids_leaf:
  assumes "(x, y) \<in> r\<^sup>+" "y \<noteq> k" "\<And>b. (k, b) \<notin> r"
  shows "(x, y) \<in> (r - UNIV \<times> {k})\<^sup>+"
  using assms(1,2)
proof (induction rule: trancl_induct)
  case (base y)
  then show ?case by blast
next
  case (step y z)
  have "y \<noteq> k" using step.hyps(2) assms(3) by blast
  then have "(x, y) \<in> (r - UNIV \<times> {k})\<^sup>+" by (rule step.IH)
  moreover have "(y, z) \<in> r - UNIV \<times> {k}" using step.hyps(2) step.prems by blast
  ultimately show ?case by (rule trancl_into_trancl)
qed

lemma no_leaf_cyclic:
  assumes wf: "wf_graph g" and ne: "g \<noteq> []" and no: "\<And>k. k \<in> keys g \<Longrightarrow> requires g k \<noteq> {}"
  shows "\<not> acyclic (dep_rel g)"
proof
  assume "acyclic (dep_rel g)"
  then have "wf ((dep_rel g)\<inverse>)" by (rule finite_acyclic_wf_converse[OF finite_dep_rel[OF wf]])
  moreover have "fst (hd g) \<in> keys g" using ne by (auto simp: keys_def)
  ultimately obtain z where z: "z \<in> keys g" "\<And>y. (y, z) \<in> (dep_rel g)\<inverse> \<Longrightarrow> y \<notin> keys g"
    by (rule wfE_min) blast
  obtain y where "y \<in> requires g z" using no[OF z(1)] by blast
  then show False using z(2)[of y] wf_graphD(3)[OF wf] by (simp add: dep_rel_def)
qed

lemma find_leaf:
  assumes "distinct (map fst g)"
  shows "find (\<lambda>(k, nd). \<not> node_bool nd) g = None \<Longrightarrow> k \<in> keys g \<Longrightarrow> requires g k \<noteq> {}"
    and "find (\<lambda>(k, nd). \<not> node_bool nd) g = Some (key, nd) \<Longrightarrow> key \<in> keys g \<and> requires g key = {}"
proof -
  show "find (\<lambda>(k, nd). \<not> node_bool nd) g = None \<Longrightarrow> k \<in> keys g \<Longrightarrow> requires g k \<noteq> {}"
    using in_node_of[of k g] by (auto simp: find_None_iff node_bool_def requires_def)
  assume "find (\<lambda>(k, nd). \<not> node_bool nd) g = Some (key, nd)"
  then have "(key, nd) \<in> set g \<and> (\<lambda>(k, nd). \<not> node_bool nd) (key, nd)"
    by (metis (no_types, lifting) find_Some_iff nth_mem)
  then have "(key, nd) \<in> set g" "nd_require nd = []" by (simp_all add: node_bool_def)
  then show "key \<in> keys g \<and> requires g key = {}"
    using node_of_in[OF assms] by (auto simp: requires_def keys_def rev_image_eqI)
qed

lemma toposort_loop_spec:
  assumes "wf_graph g" "length g = n" "toposort_loop n g = (ks, e)"
  shows "(e = None \<longrightarrow> topological_order (dep_rel g) (keys g) ks) \<and> (e \<noteq> None \<longrightarrow> \<not> acyclic (dep_rel g))"
  using assms
proof (induction n arbitrary: g ks e)
  case 0
  then show ?case by (simp add: topological_order_def keys_def)
next
  case (Suc n)
  note wf = Suc.prems(1)
  note dist = wf_graphD(1)[OF wf]
  show ?case
  proof (cases "find (\<lambda>(k, nd). \<not> node_bool nd) g")
    case None
    have "g \<noteq> []" using Suc.prems(2) by auto
    from no_leaf_cyclic[OF wf this find_leaf(1)[OF dist None]] None Suc.prems(3) show ?thesis by auto
  next
    case (Some p)
    then obtain key nd where p: "find (\<lambda>(k, nd). \<not> node_bool nd) g = Some (key, nd)" by (cases p) auto
    note leaf = find_leaf(2)[OF dist p]
    note del = wf_del_node[OF wf conjunct2[OF leaf]]
    obtain ks' where ks: "toposort_loop n (del_node key g) = (ks', e)" "ks = key # ks'"
      using Suc.prems(3) p by (auto split: prod.splits)
    have "length (del_node key g) = n"
      using Suc.prems(2) leaf del(3) length_keys[OF dist] length_keys[OF wf_graphD(1)[OF del(1)]] by simp
    from Suc.IH[OF del(1) this ks(1)] have IH:
      "e = None \<Longrightarrow> topological_order (dep_rel (del_node key g)) (keys (del_node key g)) ks'"
      "e \<noteq> None \<Longrightarrow> \<not> acyclic (dep_rel (del_node key g))" by auto
    have sink: "(key, b) \<notin> dep_rel g" for b using leaf by (simp add: dep_rel_def)
    have "topological_order (dep_rel g) (keys g) ks" if "e = None"
    proof -
      note top = IH(1)[OF that, unfolded topological_order_def del(2,3)]
      have t: "distinct ks'" "set ks' = keys g - {key}"
        "sorted_wrt (\<lambda>x y. (x, y) \<notin> dep_rel g - UNIV \<times> {key}) ks'"
        using top by blast+
      have irrefl: "\<forall>x \<in> set ks'. (x, x) \<notin> dep_rel g" using top by blast
      have "sorted_wrt (\<lambda>x y. (x, y) \<notin> dep_rel g) ks'"
        by (rule sorted_wrt_mono_rel[OF _ t(3)]) (use t(2) in auto)
      then show ?thesis using t(1,2) irrefl leaf sink by (auto simp: topological_order_def ks(2))
    qed
    moreover have "\<not> acyclic (dep_rel g)" if "e \<noteq> None"
      using IH(2)[OF that] acyclic_subset[of "dep_rel g"] del(2) by blast
    ultimately show ?thesis by blast
  qed
qed

lemma dep_iter_spec:
  assumes "wf_graph g"
  shows "dep_iter g = Inr ks \<Longrightarrow> topological_order (dep_rel g) (keys g) ks"
    "dep_iter g = Inl e \<Longrightarrow> \<not> acyclic (dep_rel g)"
  using toposort_loop_spec[OF assms refl]
  by (auto simp: dep_iter_def dep_graph_def py_list_def toposort_def split: prod.splits option.splits)

subsection \<open>Reversing the edges\<close>

lemma node_of_reverse: "node_of (reverse_copy g) k = node_reverse_copy (node_of g k)"
proof -
  have "map_of (reverse_copy g) k = map_option node_reverse_copy (map_of g k)"
    unfolding reverse_copy_def by (induction g) auto
  then show ?thesis
    by (simp add: node_of_def node_reverse_copy_def new_node_def split: option.splits)
qed

lemma wf_reverse:
  "keys (reverse_copy g) = keys g" "dep_rel (reverse_copy g) = {(a, b). b \<in> required_by g a}"
  "wf_graph g \<Longrightarrow> wf_graph (reverse_copy g)" "wf_graph g \<Longrightarrow> dep_rel (reverse_copy g) = (dep_rel g)\<inverse>"
proof -
  have map: "map fst (reverse_copy g) = map fst g" by (auto simp: reverse_copy_def)
  then show "keys (reverse_copy g) = keys g" unfolding keys_def by (metis list.set_map)
  have req: "requires (reverse_copy g) a = required_by g a" "required_by (reverse_copy g) a = requires g a" for a
    by (simp_all add: requires_def required_by_def node_of_reverse node_reverse_copy_def)
  show "dep_rel (reverse_copy g) = {(a, b). b \<in> required_by g a}" by (simp add: dep_rel_def req)
  show "wf_graph g \<Longrightarrow> wf_graph (reverse_copy g)" by (auto simp: wf_graph_def req map)
  show "wf_graph g \<Longrightarrow> dep_rel (reverse_copy g) = (dep_rel g)\<inverse>"
    by (auto simp: dep_rel_def req wf_graph_def)
qed

lemma dep_reversed_iter: "dep_reversed g = dep_iter (reverse_copy g)"
  by (simp add: dep_reversed_def dep_iter_def dep_graph_def)

interpretation fwd: topological dep_rel keys wf_graph dep_iter
  by unfold_locales (auto simp: dep_iter_spec dest: dep_rel_keys)

interpretation bwd: topological "\<lambda>g. (dep_rel g)\<inverse>" keys wf_graph dep_reversed
proof unfold_locales
  fix g :: "'a graph" and ks e
  assume wf: "wf_graph g"
  show "dep_reversed g = Inr ks \<Longrightarrow> topological_order ((dep_rel g)\<inverse>) (keys g) ks"
    using dep_iter_spec(1)[OF wf_reverse(3)[OF wf]]
    by (simp add: dep_reversed_iter wf_reverse(1) wf_reverse(4)[OF wf])
  show "(dep_rel g)\<inverse> \<subseteq> keys g \<times> keys g" using dep_rel_keys[OF wf] by auto
  show "dep_reversed g = Inl e \<Longrightarrow> \<not> acyclic ((dep_rel g)\<inverse>)"
    using dep_iter_spec(2)[OF wf_reverse(3)[OF wf]] wf_reverse(4)[OF wf]
    by (simp add: dep_reversed_iter)
qed

section \<open>The graph of a list of edges\<close>

lemma add_edge_effect:
  "keys (add_edge g e) = keys g \<union> insert (fst e) (set_option (snd e))"
  "distinct (map fst g) \<Longrightarrow> distinct (map fst (add_edge g e))"
  "requires (add_edge g e) a = requires g a \<union> {b. e = (a, Some b)}"
  "required_by (add_edge g e) b = required_by g b \<union> {a. e = (a, Some b)}"
  by (auto simp: add_edge_def requires_def required_by_def node_of_update_node add_requires_def
      add_required_by_def split: prod.splits option.splits)

lemma foldl_add_edge:
  "keys (foldl add_edge g es) = keys g \<union> (\<Union>e \<in> set es. insert (fst e) (set_option (snd e)))"
  "distinct (map fst g) \<Longrightarrow> distinct (map fst (foldl add_edge g es))"
  "requires (foldl add_edge g es) a = requires g a \<union> {b. (a, Some b) \<in> set es}"
  "required_by (foldl add_edge g es) b = required_by g b \<union> {a. (a, Some b) \<in> set es}"
  by (induction es arbitrary: g) (auto simp: add_edge_effect)

definition edge_rel :: "'k edge list \<Rightarrow> ('k \<times> 'k) set" where
  "edge_rel es = {(a, b). (a, Some b) \<in> set es}"

definition edge_nodes :: "'k edge list \<Rightarrow> 'k set" where
  "edge_nodes es = (\<Union>e \<in> set es. insert (fst e) (set_option (snd e)))"

lemma dependencies_simps [simp]:
  "keys (dependencies es) = edge_nodes es" "requires (dependencies es) a = {b. (a, b) \<in> edge_rel es}"
  "required_by (dependencies es) b = {a. (a, b) \<in> edge_rel es}"
  "dep_rel (dependencies es) = edge_rel es" "wf_graph (dependencies es)"
proof -
  have empty: "keys [] = {}" "requires [] a = {}" "required_by [] a = {}" for a :: 'a
    by (simp_all add: keys_def requires_def required_by_def node_of_def)
  show req: "requires (dependencies es) a = {b. (a, b) \<in> edge_rel es}"
    "required_by (dependencies es) b = {a. (a, b) \<in> edge_rel es}" for a b
    by (simp_all add: dependencies_def foldl_add_edge empty edge_rel_def)
  show "keys (dependencies es) = edge_nodes es"
    by (simp add: dependencies_def foldl_add_edge empty edge_nodes_def)
  show "dep_rel (dependencies es) = edge_rel es" by (simp add: dep_rel_def req)
  show "wf_graph (dependencies es)"
    using foldl_add_edge(2)[of "[]" es] by (simp add: wf_graph_def req dependencies_def[symmetric])
qed

subsection \<open>The partial graph of a node\<close>

lemma those_map_None: "those (map f xs) = None \<longleftrightarrow> (\<exists>x \<in> set xs. f x = None)"
  by (induction xs) (auto split: option.splits)

lemma those_map_Some: "those (map f xs) = Some ys \<longleftrightarrow> list_all2 (\<lambda>x y. f x = Some y) xs ys"
  by (induction xs arbitrary: ys) (auto split: option.splits simp: list_all2_Cons1)

lemma get_edges_sound:
  "get_edges n g key = Some es \<Longrightarrow>
     set es = {(a, Some b) | a b. a \<in> required_by g b \<and> (b, key) \<in> {(x, y). x \<in> required_by g y}\<^sup>*}"
proof (induction n arbitrary: key es)
  case (Suc n)
  let ?r = "{(x, y). x \<in> required_by g y}"
  let ?sat = "nd_satisfy (node_of g key)"
  obtain ess where ess: "list_all2 (\<lambda>rqr e. map_option (Cons (rqr, Some key)) (get_edges n g rqr) = Some e) ?sat ess"
      "es = concat ess"
    using Suc.prems by (auto simp: those_map_Some)
  define from_node where "from_node k = {(a, Some b) | a b. a \<in> required_by g b \<and> (b, k) \<in> ?r\<^sup>*}" for k
  have "list_all2 (\<lambda>rqr e. set e = insert (rqr, Some key) (from_node rqr)) ?sat ess"
    using ess(1) by (rule list_all2_mono) (auto dest!: Suc.IH simp: from_node_def)
  then have "set (concat ess) = (\<Union>rqr \<in> set ?sat. insert (rqr, Some key) (from_node rqr))"
    by (induction rule: list_all2_induct) auto
  moreover have "\<dots> = from_node key"
  proof
    show "(\<Union>rqr \<in> set ?sat. insert (rqr, Some key) (from_node rqr)) \<subseteq> from_node key"
      by (auto simp: from_node_def required_by_def intro: rtrancl_into_rtrancl)
    show "from_node key \<subseteq> (\<Union>rqr \<in> set ?sat. insert (rqr, Some key) (from_node rqr))"
    proof
      fix e assume "e \<in> from_node key"
      then obtain a b where e: "e = (a, Some b)" "a \<in> required_by g b" "(b, key) \<in> ?r\<^sup>*"
        by (auto simp: from_node_def)
      from e(3) show "e \<in> (\<Union>rqr \<in> set ?sat. insert (rqr, Some key) (from_node rqr))"
      proof (cases rule: rtranclE)
        case base
        then show ?thesis using e(1,2) by (auto simp: required_by_def)
      next
        case (step c)
        then have "c \<in> set ?sat" "e \<in> from_node c" using e(1,2) by (auto simp: required_by_def from_node_def)
        then show ?thesis by blast
      qed
    qed
  qed
  ultimately show ?case by (simp add: ess(2) from_node_def)
qed simp

text \<open>On an acyclic graph as many levels as there are nodes are enough.\<close>

lemma get_edges_enough:
  assumes wf: "wf_graph g" and acyclic: "acyclic (dep_rel g)"
  shows "card {a. (a, key) \<in> (dep_rel g)\<^sup>+} < n \<Longrightarrow> get_edges n g key \<noteq> None"
proof (induction n arbitrary: key)
  case 0
  then show ?case by simp
next
  case (Suc n)
  have "get_edges n g rqr \<noteq> None" if "rqr \<in> set (nd_satisfy (node_of g key))" for rqr
  proof (rule Suc.IH)
    let ?above = "\<lambda>k. {a. (a, k) \<in> (dep_rel g)\<^sup>+}"
    have edge: "(rqr, key) \<in> dep_rel g"
      using that wf_graphD(2)[OF wf] by (simp add: dep_rel_def required_by_def)
    have "dep_rel g \<subseteq> keys g \<times> keys g" by (rule fwd.closed[OF wf])
    then have "?above key \<subseteq> keys g" using trancl_subset_Sigma[of "dep_rel g" "keys g"] by blast
    then have "finite (?above key)" by (rule finite_subset) simp
    moreover have "?above rqr \<subset> ?above key"
    proof
      show "?above rqr \<subseteq> ?above key" using edge by (auto intro: trancl_into_trancl)
      have "rqr \<in> ?above key" "rqr \<notin> ?above rqr"
        using edge acyclic by (auto simp: acyclic_def)
      then show "?above rqr \<noteq> ?above key" by blast
    qed
    ultimately have "card (?above rqr) < card (?above key)" by (rule psubset_card_mono)
    then show "card (?above rqr) < n" using Suc.prems by simp
  qed
  then show ?case by (simp add: those_map_None)
qed

lemma partial_graph:
  assumes "get_edges n (dependencies es) k = Some pes" and "(a0, k) \<in> edge_rel es"
  shows "edge_nodes pes = {a. (a, k) \<in> (edge_rel es)\<^sup>*}"
    and "edge_rel pes = {(a, b) \<in> edge_rel es. (b, k) \<in> (edge_rel es)\<^sup>*}"
proof -
  let ?r = "edge_rel es"
  have set: "set pes = {(a, Some b) | a b. (a, b) \<in> ?r \<and> (b, k) \<in> ?r\<^sup>*}"
    using get_edges_sound[OF assms(1)] by simp
  show "edge_rel pes = {(a, b) \<in> ?r. (b, k) \<in> ?r\<^sup>*}"
    unfolding edge_rel_def[of pes] set by auto
  show "edge_nodes pes = {a. (a, k) \<in> ?r\<^sup>*}"
  proof
    show "edge_nodes pes \<subseteq> {a. (a, k) \<in> ?r\<^sup>*}"
      unfolding edge_nodes_def set by (auto intro: converse_rtrancl_into_rtrancl)
    show "{a. (a, k) \<in> ?r\<^sup>*} \<subseteq> edge_nodes pes"
    proof
      fix x assume "x \<in> {a. (a, k) \<in> ?r\<^sup>*}"
      then have "x = k \<or> (\<exists>y. (x, y) \<in> ?r \<and> (y, k) \<in> ?r\<^sup>*)" by (auto elim: converse_rtranclE)
      then have "\<exists>e \<in> set pes. x = fst e \<or> snd e = Some x" using assms(2) unfolding set by force
      then show "x \<in> edge_nodes pes" unfolding edge_nodes_def by force
    qed
  qed
qed

section \<open>Properties\<close>

text \<open>Claim C35. Iterating over the dependencies of any list of edges yields every node exactly once,
  none before a node it requires, and raises \<open>CircularDependencyException\<close> exactly when the edges
  have a cycle; iterating in reverse order is the same for the reversed edges.\<close>

theorem toposort_correct:
  "(case dep_iter (dependencies es) of
      Inr ks \<Rightarrow> acyclic (edge_rel es) \<and> topological_order (edge_rel es) (edge_nodes es) ks
    | Inl e \<Rightarrow> \<not> acyclic (edge_rel es) \<and> (\<exists>g. e = CircularDependency g)) \<and>
   (case dep_reversed (dependencies es) of
      Inr ks \<Rightarrow> acyclic (edge_rel es) \<and> topological_order ((edge_rel es)\<inverse>) (edge_nodes es) ks
    | Inl e \<Rightarrow> \<not> acyclic (edge_rel es) \<and> (\<exists>g. e = CircularDependency g))"
proof -
  let ?g = "dependencies es"
  have circular: "toposort_loop n g = (ks, Some e) \<Longrightarrow> \<exists>g'. e = CircularDependency g'"
    for n and g :: "'a graph" and ks e
    by (induction n g arbitrary: ks rule: toposort_loop.induct) (auto split: option.splits prod.splits)
  have exn: "dep_iter g = Inl e \<Longrightarrow> \<exists>g'. e = CircularDependency g'" for g :: "'a graph" and e
    using circular by (auto simp: dep_iter_def py_list_def toposort_def split: prod.splits option.splits)
  have "case dep_iter ?g of
      Inr ks \<Rightarrow> acyclic (edge_rel es) \<and> topological_order (edge_rel es) (edge_nodes es) ks
    | Inl e \<Rightarrow> \<not> acyclic (edge_rel es) \<and> (\<exists>g. e = CircularDependency g)"
    using fwd.order[of ?g] fwd.fails[of ?g] fwd.iterates_iff_acyclic[of ?g] exn
    by (auto split: sum.splits)
  moreover have "case dep_reversed ?g of
      Inr ks \<Rightarrow> acyclic (edge_rel es) \<and> topological_order ((edge_rel es)\<inverse>) (edge_nodes es) ks
    | Inl e \<Rightarrow> \<not> acyclic (edge_rel es) \<and> (\<exists>g. e = CircularDependency g)"
    using bwd.order[of ?g] bwd.fails[of ?g] bwd.iterates_iff_acyclic[of ?g] exn
    by (auto simp: dep_reversed_iter split: sum.splits)
  ultimately show ?thesis ..
qed

text \<open>Claim C37. The partial graph of a node of acyclic dependencies is found with as many levels of
  recursion as there are nodes: it has exactly the node and those that require it, directly or not,
  and exactly the edges between them; a key that is not a node raises \<open>KeyError\<close>.\<close>

theorem getitem_correct:
  assumes "acyclic (edge_rel es)"
  shows "case dep_getitem (card (edge_nodes es)) (dependencies es) k of
      None \<Rightarrow> False
    | Some (Inl e) \<Rightarrow> k \<notin> edge_nodes es \<and> e = HeatKeyError
    | Some (Inr g) \<Rightarrow> k \<in> edge_nodes es \<and> keys g = {a. (a, k) \<in> (edge_rel es)\<^sup>*} \<and>
        dep_rel g = {(a, b) \<in> edge_rel es. (b, k) \<in> (edge_rel es)\<^sup>*}"
proof (cases "k \<in> edge_nodes es")
  case False
  then show ?thesis by (simp add: dep_getitem_def)
next
  case True
  let ?g = "dependencies es" and ?r = "edge_rel es"
  have stem: "node_stem (node_of ?g k) \<longleftrightarrow> (\<forall>a. (a, k) \<notin> ?r)"
    using dependencies_simps(3)[of es k] by (auto simp: node_stem_def required_by_def)
  show ?thesis
  proof (cases "node_stem (node_of ?g k)")
    case stem_k: True
    then have only: "a = k" if "(a, k) \<in> ?r\<^sup>*" for a
      using that stem by (metis rtranclE)
    then have "{a. (a, k) \<in> ?r\<^sup>*} = {k}" by blast
    moreover have "edge_nodes [(k, None)] = {k}" "edge_rel [(k, None)] = {}"
      by (simp_all add: edge_nodes_def edge_rel_def)
    moreover have "{(a, b) \<in> ?r. (b, k) \<in> ?r\<^sup>*} = {}" using stem stem_k only by auto
    ultimately show ?thesis using True stem_k by (simp add: dep_getitem_def)
  next
    case no_stem: False
    have above: "{a. (a, k) \<in> ?r\<^sup>+} \<subset> edge_nodes es"
    proof
      have "?r \<subseteq> edge_nodes es \<times> edge_nodes es" using fwd.closed[of ?g] by simp
      then show "{a. (a, k) \<in> ?r\<^sup>+} \<subseteq> edge_nodes es"
        using trancl_subset_Sigma[of ?r "edge_nodes es"] by blast
      show "{a. (a, k) \<in> ?r\<^sup>+} \<noteq> edge_nodes es"
        using assms True by (auto simp: acyclic_def)
    qed
    have "finite (edge_nodes es)" using finite_keys[of ?g] by simp
    from psubset_card_mono[OF this above]
    have "get_edges (card (edge_nodes es)) ?g k \<noteq> None"
      using get_edges_enough[of ?g k] assms by simp
    then obtain pes where pes: "get_edges (card (edge_nodes es)) ?g k = Some pes" by blast
    obtain a0 where "(a0, k) \<in> ?r" using no_stem stem by blast
    from partial_graph[OF pes this] show ?thesis using True no_stem pes by (simp add: dep_getitem_def)
  qed
qed

definition demo_edges :: "string edge list" where
  "demo_edges = [(''server'', Some ''port''), (''port'', Some ''net''), (''server'', Some ''volume''),
     (''dns'', None)]"

theorem getitem_correct_witness:
  "\<exists>g. dep_getitem 5 (dependencies demo_edges) ''net'' = Some (Inr g) \<and>
     keys g = {a. (a, ''net'') \<in> (edge_rel demo_edges)\<^sup>*}"
proof -
  have n: "card (edge_nodes demo_edges) = 5"
    by code_simp
  have "(case dep_iter (dependencies demo_edges) of Inr _ \<Rightarrow> True | Inl _ \<Rightarrow> False)" by code_simp
  then have "acyclic (edge_rel demo_edges)"
    using fwd.iterates_iff_acyclic[of "dependencies demo_edges"] by (auto split: sum.splits)
  from getitem_correct[OF this, of "''net''"]
  have "case dep_getitem 5 (dependencies demo_edges) ''net'' of
      None \<Rightarrow> False
    | Some (Inl e) \<Rightarrow> ''net'' \<notin> edge_nodes demo_edges \<and> e = HeatKeyError
    | Some (Inr g) \<Rightarrow> ''net'' \<in> edge_nodes demo_edges \<and> keys g = {a. (a, ''net'') \<in> (edge_rel demo_edges)\<^sup>*} \<and>
        dep_rel g = {(a, b) \<in> edge_rel demo_edges. (b, ''net'') \<in> (edge_rel demo_edges)\<^sup>*}"
    unfolding n .
  moreover have "''net'' \<in> edge_nodes demo_edges" by (simp add: edge_nodes_def demo_edges_def)
  ultimately show ?thesis by (auto split: option.splits sum.splits)
qed

end
