(* ===== verification/Heat_Tasks.thy ===== *)
theory Heat_Tasks
  imports Heat_Dependencies
begin

text \<open>
  Heat's resumable tasks (\<open>heat/engine/scheduler.py\<close>, \<open>Duration\<close> of \<open>heat/common/timeutils.py\<close>):
  coroutines as trees of what a generator does when it is resumed or has an exception thrown into
  it, Python's operations on generators, timeouts, the \<open>TaskRunner\<close> state machine and the
  \<open>wrappertask\<close> decorator. The tasks themselves are arguments. Times are numbers read from a clock
  that is an argument; the calls of \<open>LOG\<close> that name a transition are kept in the log of a runner.
\<close>

section \<open>Coroutines and generators\<close>

datatype exn =
    GeneratorExit
  | TimeoutExc
  | RuntimeErr
  | AssertionErr
  | PyTypeErr
  | PyKeyErr
  | UnboundLocalErr
  | TaskError string
  | ExceptionGroup "exn list"

text \<open>\<open>except Exception\<close> catches what is not a \<open>BaseException\<close> only.\<close>

definition is_exception :: "exn \<Rightarrow> bool" where
  "is_exception e \<longleftrightarrow> e \<notin> {GeneratorExit, TimeoutExc}"

text \<open>What a generator's code does from some point on: it returns, raises, or yields and then
  continues in one way when it is resumed and in another when an exception is thrown into it. These
  are finite trees: a generator yields finitely often on every path, so that a task that polls for
  ever is no value of the type, and every statement about tasks is one about tasks that end.\<close>

datatype co = Return | Raise exn | Yield co "exn \<Rightarrow> co"

text \<open>The state of a generator object.\<close>

datatype gen = Fresh co | Paused co "exn \<Rightarrow> co" | Exhausted

datatype resumed = Yielded | StopIteration | Raised exn

fun gen_run :: "co \<Rightarrow> resumed \<times> gen" where
  "gen_run Return = (StopIteration, Exhausted)"
| "gen_run (Raise e) = (Raised e, Exhausted)"
| "gen_run (Yield c t) = (Yielded, Paused c t)"

fun gen_next :: "gen \<Rightarrow> resumed \<times> gen" where
  "gen_next (Fresh c) = gen_run c"
| "gen_next (Paused c t) = gen_run c"
| "gen_next Exhausted = (StopIteration, Exhausted)"

fun gen_throw :: "exn \<Rightarrow> gen \<Rightarrow> resumed \<times> gen" where
  "gen_throw e (Fresh c) = (Raised e, Exhausted)"
| "gen_throw e (Paused c t) = gen_run (t e)"
| "gen_throw e Exhausted = (Raised e, Exhausted)"

text \<open>\<open>close()\<close>: the exception it raises, if any.\<close>

definition close_outcome :: "resumed \<Rightarrow> exn option" where
  "close_outcome r = (case r of
     Yielded \<Rightarrow> Some RuntimeErr
   | StopIteration \<Rightarrow> None
   | Raised e \<Rightarrow> if e = GeneratorExit then None else Some e)"

fun gen_close :: "gen \<Rightarrow> exn option \<times> gen" where
  "gen_close (Paused c t) = (let (r, g) = gen_run (t GeneratorExit) in (close_outcome r, g))"
| "gen_close _ = (None, Exhausted)"

section \<open>Timeouts\<close>

text \<open>\<open>Timeout\<close> and its subclass \<open>TimedCancel\<close>, with the end time of their \<open>Duration\<close>.\<close>

record timeout =
  to_cancel :: bool
  to_endtime :: int

definition new_timeout :: "int \<Rightarrow> int \<Rightarrow> timeout" where
  "new_timeout now duration = \<lparr>to_cancel = False, to_endtime = now + duration\<rparr>"

definition timed_cancel :: "int \<Rightarrow> int \<Rightarrow> timeout" where
  "timed_cancel now duration = \<lparr>to_cancel = True, to_endtime = now + duration\<rparr>"

definition expired :: "int \<Rightarrow> timeout \<Rightarrow> bool" where
  "expired now t \<longleftrightarrow> now > to_endtime t"

definition timeout_less :: "timeout \<Rightarrow> timeout \<Rightarrow> bool" where
  "timeout_less a b \<longleftrightarrow> to_endtime a < to_endtime b"

text \<open>\<open>trigger\<close>: the exception that leaves it, or its value.\<close>

definition trigger :: "timeout \<Rightarrow> gen \<Rightarrow> (exn, bool) result \<times> gen" where
  "trigger t g =
     (let closed = (\<lambda>g. let (e, g') = gen_close g
                        in (case e of None \<Rightarrow> (Inr False, g') | Some e \<Rightarrow> (Inl e, g')))
      in if to_cancel t then closed g
         else (case gen_throw TimeoutExc g of
                 (StopIteration, g') \<Rightarrow> (Inr True, g')
               | (Raised e, g') \<Rightarrow> (Inl e, g')
               | (Yielded, g') \<Rightarrow> closed g'))"

section \<open>Task runners\<close>

text \<open>What calling the task does: a plain function returns or raises, a generator function returns
  a generator.\<close>

datatype task = Plain "exn option" | Coroutine co

text \<open>\<open>_runner\<close> is \<open>None\<close>, \<open>False\<close> for a task that is not resumable, or a generator.\<close>

datatype runner_state = NotStarted | NotResumable | Resumable gen

datatype run_event = Starting | DoneNotResumable | Running | Complete | TimedOut | Cancelled

record runner =
  rn_task :: task
  rn_runner :: runner_state
  rn_done :: bool
  rn_timeout :: "timeout option"
  rn_log :: "run_event list"

definition new_runner :: "task \<Rightarrow> runner" where
  "new_runner task = \<lparr>rn_task = task, rn_runner = NotStarted, rn_done = False, rn_timeout = None, rn_log = []\<rparr>"

definition log_event :: "run_event \<Rightarrow> runner \<Rightarrow> runner" where
  "log_event ev r = r\<lparr>rn_log := rn_log r @ [ev]\<rparr>"

definition started :: "runner \<Rightarrow> bool" where
  "started r \<longleftrightarrow> (case rn_runner r of NotStarted \<Rightarrow> False | _ \<Rightarrow> True)"

lemma started_iff: "started r \<longleftrightarrow> rn_runner r \<noteq> NotStarted"
  by (simp add: started_def split: runner_state.split)

text \<open>The \<open>try\<close> statement of \<open>step\<close>.\<close>

definition run_on :: "gen \<Rightarrow> runner \<Rightarrow> (exn, bool) result \<times> runner" where
  "run_on g r = (case gen_next g of
     (Yielded, g') \<Rightarrow> (Inr False, r\<lparr>rn_runner := Resumable g'\<rparr>)
   | (StopIteration, g') \<Rightarrow> (Inr True, (log_event Complete r)\<lparr>rn_runner := Resumable g', rn_done := True\<rparr>)
   | (Raised e, g') \<Rightarrow> (Inl e, r\<lparr>rn_runner := Resumable g'\<rparr>))"

definition runner_step :: "int \<Rightarrow> runner \<Rightarrow> (exn, bool) result \<times> runner" where
  "runner_step now r =
     (if rn_done r then (Inr True, r)
      else case rn_runner r of
        NotStarted \<Rightarrow> (Inl AssertionErr, r)
      | NotResumable \<Rightarrow> (Inl PyTypeErr, log_event Running r)
      | Resumable g \<Rightarrow>
          if (case rn_timeout r of None \<Rightarrow> False | Some t \<Rightarrow> expired now t)
          then (let (res, g') = trigger (the (rn_timeout r)) g
                in (map_sum id (\<lambda>_. True) res,
                    (log_event TimedOut r)\<lparr>rn_done := True, rn_runner := Resumable g'\<rparr>))
          else run_on g (log_event Running r))"

text \<open>\<open>start\<close>; \<open>now\<close> is the time of the timeout, \<open>later\<close> that of the first step.\<close>

definition runner_start :: "int \<Rightarrow> int \<Rightarrow> int option \<Rightarrow> runner \<Rightarrow> (exn, unit) result \<times> runner" where
  "runner_start now later timeout r =
     (if started r \<or> rn_done r then (Inl AssertionErr, r)
      else let r1 = log_event Starting r;
               r2 = (case timeout of None \<Rightarrow> r1 | Some d \<Rightarrow> r1\<lparr>rn_timeout := Some (new_timeout now d)\<rparr>)
           in (case rn_task r of
                 Plain (Some e) \<Rightarrow> (Inl e, r2)
               | Plain None \<Rightarrow>
                   (Inr (), log_event DoneNotResumable (r2\<lparr>rn_runner := NotResumable, rn_done := True\<rparr>))
               | Coroutine c \<Rightarrow>
                   (let (res, r3) = runner_step later (r2\<lparr>rn_runner := Resumable (Fresh c)\<rparr>)
                    in (map_sum id (\<lambda>_. ()) res, r3))))"

text \<open>\<open>cancel\<close>; the result is the exception that \<open>close\<close> raises.\<close>

definition runner_cancel :: "int \<Rightarrow> int option \<Rightarrow> runner \<Rightarrow> exn option \<times> runner" where
  "runner_cancel now grace_period r =
     (if rn_done r then (None, r)
      else case (rn_runner r, grace_period) of
        (NotStarted, _) \<Rightarrow> (None, (log_event Cancelled r)\<lparr>rn_done := True\<rparr>)
      | (NotResumable, None) \<Rightarrow> (Some PyTypeErr, (log_event Cancelled r)\<lparr>rn_done := True\<rparr>)
      | (Resumable g, None) \<Rightarrow>
          (let (e, g') = gen_close g
           in (e, (log_event Cancelled r)\<lparr>rn_done := True, rn_runner := Resumable g'\<rparr>))
      | (_, Some period) \<Rightarrow>
          (let timeout = timed_cancel now period
           in (None, if (case rn_timeout r of None \<Rightarrow> True | Some t \<Rightarrow> timeout_less timeout t)
                     then r\<lparr>rn_timeout := Some timeout\<rparr> else r)))"

text \<open>\<open>run_to_completion\<close>, a loop without a bound; \<open>clock i\<close> is the time of the \<open>i\<close>-th step. Whether it
  ends depends on the task, whose yields are finite here.\<close>

partial_function (option) run_to_completion ::
  "(nat \<Rightarrow> int) \<Rightarrow> runner \<Rightarrow> ((exn, unit) result \<times> runner) option" where
  "run_to_completion clock r =
     (case runner_step (clock 0) r of
        (Inl e, r') \<Rightarrow> Some (Inl e, r')
      | (Inr finished, r') \<Rightarrow>
          if finished then Some (Inr (), r') else run_to_completion (\<lambda>i. clock (Suc i)) r')"

text \<open>\<open>__call__\<close>: start and run to completion.\<close>

definition runner_call :: "(nat \<Rightarrow> int) \<Rightarrow> int option \<Rightarrow> runner \<Rightarrow> ((exn, unit) result \<times> runner) option" where
  "runner_call clock timeout r =
     (case runner_start (clock 0) (clock 1) timeout r of
        (Inl e, r') \<Rightarrow> Some (Inl e, r')
      | (Inr _, r') \<Rightarrow> run_to_completion (\<lambda>i. clock (i + 2)) r')"

section \<open>Tasks that drive a subtask\<close>

text \<open>The generator \<open>wrappertask\<close> is applied to: it yields subtasks or \<open>None\<close>.\<close>

datatype parent = PReturn | PRaise exn | PYield "co option" parent "exn \<Rightarrow> parent"

text \<open>What \<open>close()\<close> raises when the code answers \<open>GeneratorExit\<close> in the given way.\<close>

fun co_closed :: "co \<Rightarrow> exn option" where
  "co_closed Return = None"
| "co_closed (Raise e) = (if e = GeneratorExit then None else Some e)"
| "co_closed (Yield c t) = Some RuntimeErr"

fun parent_closed :: "parent \<Rightarrow> exn option" where
  "parent_closed PReturn = None"
| "parent_closed (PRaise e) = (if e = GeneratorExit then None else Some e)"
| "parent_closed (PYield s p t) = Some RuntimeErr"

text \<open>The inner loop of \<open>wrapper\<close>: \<open>k\<close> continues when the subtask is finished, \<open>h\<close> throws into the
  parent, \<open>x\<close> is the handler \<open>parent.close(); raise\<close> of \<open>GeneratorExit\<close>.\<close>

primrec drive :: "co \<Rightarrow> co \<Rightarrow> (exn \<Rightarrow> co) \<Rightarrow> co \<Rightarrow> co" where
  "drive Return k h x = k"
| "drive (Raise e) k h x = (if e = GeneratorExit then x else h e)"
| "drive (Yield c t) k h x = Yield (drive c k h x)
     (\<lambda>e. if e = GeneratorExit
          then (case co_closed (t e) of None \<Rightarrow> x | Some e' \<Rightarrow> h e')
          else drive (t e) k h x)"

primrec wrappertask :: "parent \<Rightarrow> co" where
  "wrappertask PReturn = Return"
| "wrappertask (PRaise e) = Raise e"
| "wrappertask (PYield subtask p t) =
     (let x = Raise (case parent_closed (t GeneratorExit) of None \<Rightarrow> GeneratorExit | Some e \<Rightarrow> e)
      in case subtask of
           None \<Rightarrow> Yield (wrappertask p) (\<lambda>e. if e = GeneratorExit then x else wrappertask (t e))
         | Some c \<Rightarrow> drive c (wrappertask p) (\<lambda>e. wrappertask (t e)) x)"

text \<open>The specification: the \<open>yield from\<close> of PEP 380. Exceptions thrown into the wrapper go to the
  subtask, those that leave the subtask go to the parent, and \<open>GeneratorExit\<close> closes the subtask and
  is then raised in the parent.\<close>

primrec yield_from :: "co \<Rightarrow> co \<Rightarrow> (exn \<Rightarrow> co) \<Rightarrow> co" where
  "yield_from Return k h = k"
| "yield_from (Raise e) k h = h e"
| "yield_from (Yield c t) k h = Yield (yield_from c k h)
     (\<lambda>e. if e = GeneratorExit
          then h (case co_closed (t e) of None \<Rightarrow> GeneratorExit | Some e' \<Rightarrow> e')
          else yield_from (t e) k h)"

primrec delegated :: "parent \<Rightarrow> co" where
  "delegated PReturn = Return"
| "delegated (PRaise e) = Raise e"
| "delegated (PYield subtask p t) =
     (case subtask of
        None \<Rightarrow> Yield (delegated p) (\<lambda>e. delegated (t e))
      | Some c \<Rightarrow> yield_from c (delegated p) (\<lambda>e. delegated (t e)))"

text \<open>A generator that raises \<open>GeneratorExit\<close> only when it is closed, and a parent that ends with an
  exception when it is closed.\<close>

primrec co_polite :: "co \<Rightarrow> bool" where
  "co_polite Return = True"
| "co_polite (Raise e) = (e \<noteq> GeneratorExit)"
| "co_polite (Yield c t) = (co_polite c \<and> (\<forall>e. e = GeneratorExit \<or> co_polite (t e)))"

primrec parent_polite :: "parent \<Rightarrow> bool" where
  "parent_polite PReturn = True"
| "parent_polite (PRaise e) = True"
| "parent_polite (PYield s p t) = (parent_polite p \<and> (\<forall>e. parent_polite (t e)) \<and>
     (case s of None \<Rightarrow> True | Some c \<Rightarrow> co_polite c) \<and> (\<exists>e. t GeneratorExit = PRaise e))"

lemma drive_yield_from:
  "co_polite c \<Longrightarrow> x = h GeneratorExit \<Longrightarrow> drive c k h x = yield_from c k h"
  by (induction c) (auto simp: fun_eq_iff split: option.splits)

section \<open>Steps of a runner\<close>

text \<open>The number of times a generator still yields when nothing is thrown into it.\<close>

primrec co_steps :: "co \<Rightarrow> nat" where
  "co_steps Return = 0"
| "co_steps (Raise e) = 0"
| "co_steps (Yield c t) = Suc (co_steps c)"

fun gen_steps :: "gen \<Rightarrow> nat" where
  "gen_steps (Fresh c) = Suc (co_steps c)"
| "gen_steps (Paused c t) = Suc (co_steps c)"
| "gen_steps Exhausted = 0"

text \<open>The work left in a runner.\<close>

definition work :: "runner \<Rightarrow> nat" where
  "work r = (if rn_done r then 0 else case rn_runner r of
     NotStarted \<Rightarrow> (case rn_task r of Plain _ \<Rightarrow> 1 | Coroutine c \<Rightarrow> Suc (Suc (Suc (co_steps c))))
   | NotResumable \<Rightarrow> 1
   | Resumable g \<Rightarrow> Suc (gen_steps g))"

text \<open>The states a runner can be in.\<close>

definition runner_ok :: "runner \<Rightarrow> bool" where
  "runner_ok r \<longleftrightarrow>
     (started r \<or> Complete \<in> set (rn_log r) \<or> DoneNotResumable \<in> set (rn_log r) \<longrightarrow>
        Starting \<in> set (rn_log r)) \<and>
     (rn_runner r = NotResumable \<longrightarrow> rn_done r) \<and>
     (\<not> rn_done r \<longrightarrow> Complete \<notin> set (rn_log r) \<and> DoneNotResumable \<notin> set (rn_log r)) \<and>
     (\<not> started r \<and> rn_done r \<longrightarrow> Complete \<notin> set (rn_log r) \<and> DoneNotResumable \<notin> set (rn_log r))"

definition succeeded :: "runner \<Rightarrow> bool" where
  "succeeded r \<longleftrightarrow> Complete \<in> set (rn_log r) \<or> DoneNotResumable \<in> set (rn_log r)"

lemma new_runner_ok: "runner_ok (new_runner t)" "\<not> started (new_runner t)" "\<not> rn_done (new_runner t)"
    "\<not> succeeded (new_runner t)"
  by (simp_all add: runner_ok_def new_runner_def started_iff succeeded_def)

lemma gen_run_steps: "gen_run c = (Yielded, g) \<Longrightarrow> gen_steps g < Suc (co_steps c)"
  by (cases c) auto

lemma gen_next_steps:
  "gen_next g = (Yielded, g') \<Longrightarrow> gen_steps g' < gen_steps g"
  "gen_next g = (Raised e, g') \<Longrightarrow> g' = Exhausted \<and> gen_steps g \<noteq> 0"
proof -
  show "gen_next g = (Yielded, g') \<Longrightarrow> gen_steps g' < gen_steps g"
    by (cases g) (auto dest: gen_run_steps)
  have "gen_run c = (Raised e, g') \<Longrightarrow> g' = Exhausted" for c by (cases c) auto
  then show "gen_next g = (Raised e, g') \<Longrightarrow> g' = Exhausted \<and> gen_steps g \<noteq> 0"
    by (cases g) auto
qed

text \<open>One step of a started runner: it is done, or some of its work is.\<close>

lemma run_on_effect:
  assumes "run_on g r = (res, r')" "\<not> rn_done r" "\<not> succeeded r"
  shows "rn_task r' = rn_task r" "rn_timeout r' = rn_timeout r" "\<exists>g'. rn_runner r' = Resumable g'"
    and "set (rn_log r) \<subseteq> set (rn_log r')"
    and "case res of
        Inl e \<Rightarrow> \<not> rn_done r' \<and> \<not> succeeded r' \<and> rn_runner r' = Resumable Exhausted \<and> gen_steps g \<noteq> 0
      | Inr b \<Rightarrow> rn_done r' = b \<and> succeeded r' = b \<and>
          (\<not> b \<longrightarrow> (\<exists>g'. rn_runner r' = Resumable g' \<and> gen_steps g' < gen_steps g))"
proof -
  obtain a g' where n: "gen_next g = (a, g')" by (cases "gen_next g")
  show "rn_task r' = rn_task r" "rn_timeout r' = rn_timeout r" "\<exists>g'. rn_runner r' = Resumable g'"
    "set (rn_log r) \<subseteq> set (rn_log r')"
    using assms(1) n by (auto simp: run_on_def log_event_def split: resumed.splits)
  show "case res of
        Inl e \<Rightarrow> \<not> rn_done r' \<and> \<not> succeeded r' \<and> rn_runner r' = Resumable Exhausted \<and> gen_steps g \<noteq> 0
      | Inr b \<Rightarrow> rn_done r' = b \<and> succeeded r' = b \<and>
          (\<not> b \<longrightarrow> (\<exists>g'. rn_runner r' = Resumable g' \<and> gen_steps g' < gen_steps g))"
    using assms n gen_next_steps[of g] by (cases a) (auto simp: run_on_def log_event_def succeeded_def)
qed

text \<open>One step of a started runner: it is done, or some of its work is.\<close>

lemma runner_step_effect:
  assumes "runner_ok r" "started r" "\<not> rn_done r" "runner_step now r = (res, r')"
  shows "runner_ok r'" "started r'" "rn_task r' = rn_task r" "rn_timeout r' = rn_timeout r" "work r' < work r"
    and "case res of
        Inl e \<Rightarrow> \<not> succeeded r' \<and> (\<not> rn_done r' \<longrightarrow> rn_runner r' = Resumable Exhausted) \<and>
          (rn_timeout r = None \<longrightarrow> \<not> rn_done r')
      | Inr b \<Rightarrow> rn_done r' = b \<and> (succeeded r' \<longrightarrow> b) \<and> (rn_timeout r = None \<longrightarrow> succeeded r' = b)"
proof -
  obtain g where g: "rn_runner r = Resumable g"
    using assms(1-3) by (cases "rn_runner r") (auto simp: runner_ok_def started_iff)
  have fail: "\<not> succeeded r" using assms(1,3) by (simp add: runner_ok_def succeeded_def)
  let ?ex = "case rn_timeout r of None \<Rightarrow> False | Some t \<Rightarrow> expired now t"
  have "runner_ok r' \<and> started r' \<and> rn_task r' = rn_task r \<and> rn_timeout r' = rn_timeout r \<and> work r' < work r \<and>
    (case res of
        Inl e \<Rightarrow> \<not> succeeded r' \<and> (\<not> rn_done r' \<longrightarrow> rn_runner r' = Resumable Exhausted) \<and>
          (rn_timeout r = None \<longrightarrow> \<not> rn_done r')
      | Inr b \<Rightarrow> rn_done r' = b \<and> (succeeded r' \<longrightarrow> b) \<and> (rn_timeout r = None \<longrightarrow> succeeded r' = b))"
  proof (cases ?ex)
    case True
    obtain v g' where v: "trigger (the (rn_timeout r)) g = (v, g')" by (cases "trigger (the (rn_timeout r)) g")
    have t: "rn_timeout r \<noteq> None" using True by (auto split: option.splits)
    have "res = map_sum id (\<lambda>_. True) v" "r' = (log_event TimedOut r)\<lparr>rn_done := True, rn_runner := Resumable g'\<rparr>"
      using assms(3,4) g v True by (simp_all add: runner_step_def)
    then show ?thesis using fail t assms(1-3) g
      by (cases v) (auto simp: runner_ok_def started_iff succeeded_def work_def log_event_def)
  next
    case False
    then have run: "run_on g (log_event Running r) = (res, r')"
      using assms(3,4) g by (simp add: runner_step_def)
    have log: "\<not> rn_done (log_event Running r)" "\<not> succeeded (log_event Running r)"
        "rn_task (log_event Running r) = rn_task r" "rn_timeout (log_event Running r) = rn_timeout r"
      using assms(3) fail by (auto simp: log_event_def succeeded_def)
    note eff = run_on_effect[OF run log(1,2), unfolded log(3,4)]
    have "Starting \<in> set (rn_log r')"
      using eff(4) assms(1,2) by (auto simp: runner_ok_def log_event_def)
    then show ?thesis
      using eff assms(3) g
      by (auto simp: runner_ok_def started_iff work_def succeeded_def split: sum.splits)
  qed
  then show "runner_ok r'" "started r'" "rn_task r' = rn_task r" "rn_timeout r' = rn_timeout r" "work r' < work r"
    "case res of
        Inl e \<Rightarrow> \<not> succeeded r' \<and> (\<not> rn_done r' \<longrightarrow> rn_runner r' = Resumable Exhausted) \<and>
          (rn_timeout r = None \<longrightarrow> \<not> rn_done r')
      | Inr b \<Rightarrow> rn_done r' = b \<and> (succeeded r' \<longrightarrow> b) \<and> (rn_timeout r = None \<longrightarrow> succeeded r' = b)"
    by blast+
qed

lemma runner_start_effect:
  assumes "runner_ok r" "\<not> started r" "\<not> rn_done r" "rn_timeout r = None"
    and "runner_start now later None r = (res, r')"
  shows "runner_ok r' \<and> rn_timeout r' = None \<and> rn_task r' = rn_task r \<and>
    (case res of
       Inl e \<Rightarrow> \<not> rn_done r' \<and> \<not> succeeded r' \<and> work r' \<le> work r \<and>
         (\<not> started r' \<or> rn_runner r' = Resumable Exhausted \<and> work r' < work r)
     | Inr _ \<Rightarrow> started r' \<and> work r' < work r \<and> succeeded r' = rn_done r')"
proof -
  have fail: "\<not> succeeded r" using assms(1,3) by (simp add: runner_ok_def succeeded_def)
  have idle: "rn_runner r = NotStarted" using assms(2) by (simp add: started_iff)
  show ?thesis
  proof (cases "rn_task r")
    case (Plain e)
    then show ?thesis using assms idle fail
      by (cases e) (auto simp: runner_start_def log_event_def runner_ok_def succeeded_def started_iff work_def)
  next
    case (Coroutine c)
    let ?r2 = "(log_event Starting r)\<lparr>rn_runner := Resumable (Fresh c)\<rparr>"
    obtain v r3 where step: "runner_step later ?r2 = (v, r3)" by (cases "runner_step later ?r2")
    have r3: "res = map_sum id (\<lambda>_. ()) v" "r' = r3"
      using assms(2,3,5) Coroutine step by (auto simp: runner_start_def)
    have r2: "runner_ok ?r2" "started ?r2" "\<not> rn_done ?r2" "rn_timeout ?r2 = None" "rn_task ?r2 = rn_task r"
      using assms(3,4) fail by (auto simp: runner_ok_def started_iff log_event_def succeeded_def)
    have work: "work ?r2 < work r" using assms(3) idle Coroutine by (simp add: work_def log_event_def)
    have run: "run_on (Fresh c) (log_event Running ?r2) = (v, r3)"
      using step r2(3,4) by (simp add: runner_step_def)
    have log: "\<not> rn_done (log_event Running ?r2)" "\<not> succeeded (log_event Running ?r2)"
      using assms(3) fail by (auto simp: log_event_def succeeded_def)
    note eff = runner_step_effect[OF r2(1-3) step] run_on_effect(5)[OF run log]
    show ?thesis using eff r2 work by (cases v) (auto simp: r3)
  qed
qed

lemma runner_cancel_effect:
  assumes "runner_ok r" "\<not> rn_done r" "runner_cancel now grace r = (e, r')"
  shows "runner_ok r'" "rn_task r' = rn_task r" "\<not> succeeded r'" "started r' = started r"
    and "grace = None \<or> \<not> started r \<Longrightarrow> rn_done r'"
    and "grace \<noteq> None \<Longrightarrow> e = None" "\<not> started r \<or> rn_runner r = Resumable Exhausted \<Longrightarrow> e = None"
    and "grace \<noteq> None \<Longrightarrow> started r \<Longrightarrow> \<not> rn_done r' \<and> rn_runner r' = rn_runner r \<and> rn_timeout r' \<noteq> None"
    and "work r' \<le> work r"
proof -
  have fail: "\<not> succeeded r" using assms(1,2) by (simp add: runner_ok_def succeeded_def)
  note defs = runner_cancel_def runner_ok_def succeeded_def started_iff log_event_def work_def
  have "runner_ok r' \<and> rn_task r' = rn_task r \<and> \<not> succeeded r' \<and> started r' = started r \<and> work r' \<le> work r \<and>
    (grace = None \<or> \<not> started r \<longrightarrow> rn_done r') \<and>
    (grace \<noteq> None \<longrightarrow> e = None) \<and> (\<not> started r \<or> rn_runner r = Resumable Exhausted \<longrightarrow> e = None) \<and>
    (grace \<noteq> None \<longrightarrow> started r \<longrightarrow> \<not> rn_done r' \<and> rn_runner r' = rn_runner r \<and> rn_timeout r' \<noteq> None)"
  proof (cases "rn_runner r")
    case NotStarted
    then show ?thesis using assms fail by (cases grace) (auto simp: defs)
  next
    case NotResumable
    then show ?thesis using assms by (simp add: runner_ok_def)
  next
    case (Resumable g)
    then show ?thesis using assms fail
      by (cases grace; cases g) (auto simp: defs Let_def split: if_splits option.splits prod.splits)
  qed
  then show "runner_ok r'" "rn_task r' = rn_task r" "\<not> succeeded r'" "started r' = started r"
    "grace = None \<or> \<not> started r \<Longrightarrow> rn_done r'"
    "grace \<noteq> None \<Longrightarrow> e = None" "\<not> started r \<or> rn_runner r = Resumable Exhausted \<Longrightarrow> e = None"
    "grace \<noteq> None \<Longrightarrow> started r \<Longrightarrow> \<not> rn_done r' \<and> rn_runner r' = rn_runner r \<and> rn_timeout r' \<noteq> None"
    "work r' \<le> work r"
    by blast+
qed

lemma starting_log:
  "runner_step now r = (res, r') \<Longrightarrow> Starting \<in> set (rn_log r') \<longleftrightarrow> Starting \<in> set (rn_log r)"
  "runner_cancel now grace r = (e, r') \<Longrightarrow> Starting \<in> set (rn_log r') \<longleftrightarrow> Starting \<in> set (rn_log r)"
proof -
  have run: "run_on g r = (res, r') \<Longrightarrow> Starting \<in> set (rn_log r') \<longleftrightarrow> Starting \<in> set (rn_log r)" for g r
    by (auto simp: run_on_def log_event_def split: prod.splits resumed.splits)
  show "runner_step now r = (res, r') \<Longrightarrow> Starting \<in> set (rn_log r') \<longleftrightarrow> Starting \<in> set (rn_log r)"
    by (auto simp: runner_step_def dest!: run split: if_splits runner_state.splits prod.splits)
      (auto simp: log_event_def)
  show "runner_cancel now grace r = (e, r') \<Longrightarrow> Starting \<in> set (rn_log r') \<longleftrightarrow> Starting \<in> set (rn_log r)"
    by (auto simp: runner_cancel_def log_event_def Let_def
        split: if_splits runner_state.splits prod.splits option.splits)
qed

section \<open>Running a task to its end\<close>

text \<open>What a task that is left alone comes to.\<close>

primrec co_result :: "co \<Rightarrow> (exn, unit) result" where
  "co_result Return = Inr ()"
| "co_result (Raise e) = Inl e"
| "co_result (Yield c t) = co_result c"

fun gen_result :: "gen \<Rightarrow> (exn, unit) result" where
  "gen_result (Fresh c) = co_result c"
| "gen_result (Paused c t) = co_result c"
| "gen_result Exhausted = Inr ()"

definition task_result :: "task \<Rightarrow> (exn, unit) result" where
  "task_result t = (case t of Plain None \<Rightarrow> Inr () | Plain (Some e) \<Rightarrow> Inl e | Coroutine c \<Rightarrow> co_result c)"

lemma runner_ends:
  assumes "runner_ok r" "started r" "\<not> rn_done r"
  shows "\<exists>res r'. run_to_completion clock r = Some (res, r') \<and> (rn_done r' \<or> (\<exists>e. res = Inl e))"
  using assms
proof (induction "work r" arbitrary: r clock rule: less_induct)
  case less
  obtain v r1 where step: "runner_step (clock 0) r = (v, r1)" by (cases "runner_step (clock 0) r")
  note eff = runner_step_effect[OF less.prems step]
  show ?case
  proof (cases v)
    case (Inl e)
    then show ?thesis using step by (subst run_to_completion.simps) simp
  next
    case (Inr b)
    show ?thesis
    proof (cases b)
      case True
      then show ?thesis using step Inr eff(6) by (subst run_to_completion.simps) auto
    next
      case False
      then have "\<not> rn_done r1" using Inr eff(6) by simp
      from less.hyps[OF eff(5,1,2) this] show ?thesis
        using step Inr False by (subst run_to_completion.simps) simp
    qed
  qed
qed

lemma runner_result:
  assumes "runner_ok r" "rn_runner r = Resumable g" "\<not> rn_done r" "rn_timeout r = None"
  shows "\<exists>r'. run_to_completion clock r = Some (gen_result g, r')"
  using assms
proof (induction "work r" arbitrary: r g clock rule: less_induct)
  case less
  obtain v r1 where step: "runner_step (clock 0) r = (v, r1)" by (cases "runner_step (clock 0) r")
  have "started r" using less.prems by (simp add: started_iff)
  note eff = runner_step_effect[OF less.prems(1) this less.prems(3) step]
  obtain a g' where n: "gen_next g = (a, g')" by (cases "gen_next g")
  have v: "(v, r1) = run_on g (log_event Running r)" using step less.prems by (simp add: runner_step_def)
  have run: "gen_run c = (a, g') \<Longrightarrow> (case a of Yielded \<Rightarrow> co_result c = gen_result g'
      | StopIteration \<Rightarrow> co_result c = Inr () | Raised e \<Rightarrow> co_result c = Inl e)" for c
    by (cases c) auto
  have res: "case a of Yielded \<Rightarrow> gen_result g = gen_result g'
      | StopIteration \<Rightarrow> gen_result g = Inr () | Raised e \<Rightarrow> gen_result g = Inl e"
  proof (cases g)
    case (Fresh c)
    then show ?thesis using run[of c] n by (cases a) simp_all
  next
    case (Paused c t)
    then show ?thesis using run[of c] n by (cases a) simp_all
  qed (use n in auto)
  show ?case
  proof (cases a)
    case Yielded
    then have r1: "v = Inr False" "rn_runner r1 = Resumable g'" "\<not> rn_done r1" "rn_timeout r1 = None"
      using v n less.prems by (auto simp: run_on_def log_event_def)
    from less.hyps[OF eff(5,1) r1(2-4)] show ?thesis
      using step r1(1) res Yielded by (subst run_to_completion.simps) simp
  qed (use v n res step in \<open>subst run_to_completion.simps, auto simp: run_on_def\<close>)+
qed

definition started_runner :: "(nat \<Rightarrow> int) \<Rightarrow> int option \<Rightarrow> co \<Rightarrow> runner" where
  "started_runner clock timeout c =
     (log_event Starting (new_runner (Coroutine c)))
       \<lparr>rn_timeout := map_option (new_timeout (clock 0)) timeout, rn_runner := Resumable (Fresh c)\<rparr>"

lemma started_runner_ok:
  "runner_ok (started_runner clock timeout c)" "started (started_runner clock timeout c)"
  "\<not> rn_done (started_runner clock timeout c)" "rn_runner (started_runner clock timeout c) = Resumable (Fresh c)"
  "rn_timeout (started_runner clock timeout c) = map_option (new_timeout (clock 0)) timeout"
  by (simp_all add: started_runner_def runner_ok_def new_runner_def log_event_def started_iff)

lemma call_coroutine:
  "runner_call clock timeout (new_runner (Coroutine c)) =
     run_to_completion (\<lambda>i. clock (Suc i)) (started_runner clock timeout c)"
proof -
  let ?r = "started_runner clock timeout c"
  obtain v r2 where step: "runner_step (clock 1) ?r = (v, r2)" by (cases "runner_step (clock 1) ?r")
  have start: "runner_start (clock 0) (clock 1) timeout (new_runner (Coroutine c)) = (map_sum id (\<lambda>_. ()) v, r2)"
    using step by (cases timeout)
      (simp_all add: runner_start_def started_runner_def new_runner_def started_iff log_event_def)
  note eff = runner_step_effect[OF started_runner_ok(1-3) step]
  show ?thesis
  proof (cases v)
    case (Inl e)
    then show ?thesis using start step by (subst run_to_completion.simps) (simp add: runner_call_def)
  next
    case (Inr b)
    then have "runner_call clock timeout (new_runner (Coroutine c)) = run_to_completion (\<lambda>i. clock (i + 2)) r2"
      using start by (simp add: runner_call_def)
    moreover have "b \<Longrightarrow> run_to_completion (\<lambda>i. clock (i + 2)) r2 = Some (Inr (), r2)"
      using eff(6) Inr by (subst run_to_completion.simps) (simp add: runner_step_def)
    ultimately show ?thesis
      using step Inr by (subst run_to_completion.simps) (cases b; simp)
  qed
qed

section \<open>Properties\<close>

text \<open>Claim C39. Calling a \<open>TaskRunner\<close> on a task that was not started and that yields only finitely
  often, however it is resumed or has exceptions thrown into it, ends: it raises or the task is done.
  Without a timeout it does what the task does when it is left alone; with a timeout that has expired
  before the first step, the task gets \<open>Timeout\<close> at the point where it starts and none of its code
  runs. (A task that yields for ever is not a value of the model; without a timeout the call would
  not return.)\<close>

theorem task_call_ends:
  "\<exists>res r'. runner_call clock timeout (new_runner task) = Some (res, r') \<and>
     (rn_done r' \<or> (\<exists>e. res = Inl e)) \<and>
     (timeout = None \<longrightarrow> res = task_result task) \<and>
     (\<forall>c d. task = Coroutine c \<and> timeout = Some d \<and> clock 0 + d < clock 1 \<longrightarrow>
        res = Inl TimeoutExc \<and> rn_done r' \<and> rn_runner r' = Resumable Exhausted)"
proof (cases task)
  case (Plain e)
  then show ?thesis
    by (cases e; cases timeout) (simp_all add: runner_call_def runner_start_def new_runner_def started_iff
        log_event_def task_result_def run_to_completion.simps runner_step_def)
next
  case (Coroutine c)
  let ?r = "started_runner clock timeout c" and ?clock = "\<lambda>i. clock (Suc i)"
  obtain res r' where run: "run_to_completion ?clock ?r = Some (res, r')" "rn_done r' \<or> (\<exists>e. res = Inl e)"
    using runner_ends[OF started_runner_ok(1-3)] by blast
  have "res = task_result task" if "timeout = None"
    using runner_result[OF started_runner_ok(1,4,3), of clock timeout c ?clock] run(1) that Coroutine
    by (auto simp: started_runner_ok task_result_def)
  moreover have "res = Inl TimeoutExc \<and> rn_done r' \<and> rn_runner r' = Resumable Exhausted"
    if "timeout = Some d" "clock 0 + d < clock 1" for d
    using run(1) that by (subst (asm) run_to_completion.simps)
      (auto simp: runner_step_def started_runner_ok new_timeout_def expired_def trigger_def)
  ultimately show ?thesis using run Coroutine by (auto simp: call_coroutine)
qed

theorem task_call_ends_witness:
  "\<exists>r'. runner_call (\<lambda>i. int i * 5) None (new_runner (Coroutine (Yield (Raise (TaskError ''e'')) Raise))) =
     Some (Inl (TaskError ''e''), r')"
  using task_call_ends[of "\<lambda>i. int i * 5" None "Coroutine (Yield (Raise (TaskError ''e'')) Raise)"]
  by (auto simp: task_result_def)

text \<open>Claim C38. \<open>wrappertask\<close> is the \<open>yield from\<close> of PEP 380: for a parent that ends with an exception
  when it is closed and subtasks that raise \<open>GeneratorExit\<close> only then, the decorated generator yields,
  returns and raises exactly as the parent with \<open>yield from\<close> in place of \<open>yield\<close>, whatever is thrown
  into it.\<close>

theorem wrappertask_is_yield_from: "parent_polite p \<Longrightarrow> wrappertask p = delegated p"
proof (induction p)
  case (PYield s p t)
  obtain e where e: "t GeneratorExit = PRaise e" using PYield.prems by auto
  have ih: "wrappertask p = delegated p" "wrappertask (t e) = delegated (t e)" for e
    using PYield by auto
  show ?case
    using PYield.prems e by (auto simp: Let_def ih drive_yield_from split: option.splits)
qed simp_all

theorem wrappertask_is_yield_from_witness:
  "wrappertask (PYield (Some (Yield Return Raise)) (PYield None PReturn PRaise) PRaise) =
     delegated (PYield (Some (Yield Return Raise)) (PYield None PReturn PRaise) PRaise)"
  by (rule wrappertask_is_yield_from) simp

end
