(* ===== verification/Heat_Task_Group.thy ===== *)
theory Heat_Task_Group
  imports Heat_Tasks "HOL-Library.Multiset"
begin

text \<open>
  \<open>DependencyTaskGroup\<close> of \<open>heat/engine/scheduler.py\<close>: a group of tasks that are started when what
  they require is finished, as a state machine whose steps are the two halves of the loop around its
  \<open>yield\<close>, with its error handling: cancelling everything, at once or after a grace period, or only
  what depends on the failed task.
\<close>

section \<open>State\<close>

text \<open>Where the coroutine is: at the head of its loop, at the \<open>yield\<close>, or ended by returning or by an
  exception.\<close>

datatype group_pc = LoopHead | AtYield | Finished "exn option"

text \<open>\<open>gr_last\<close> is the loop variable \<open>k\<close> (\<open>r\<close> is its runner).\<close>

record 'k group =
  gr_keys :: "'k list"
  gr_runners :: "('k \<times> runner) list"
  gr_graph :: "'k graph"
  gr_error_wait :: "int option"
  gr_aggregate :: bool
  gr_raised :: "exn list"
  gr_last :: "'k option"
  gr_pc :: group_pc

text \<open>\<open>__init__\<close> and the first line of \<open>__call__\<close>; \<open>order\<close> is the iteration order of the dictionary
  of runners.\<close>

definition new_group ::
  "('k list \<Rightarrow> 'k list) \<Rightarrow> 'k graph \<Rightarrow> ('k \<Rightarrow> task) \<Rightarrow> bool \<Rightarrow> int option \<Rightarrow> bool \<Rightarrow> ('k heat_exc, 'k group) result"
where
  "new_group order deps task reverse error_wait_time aggregate_exceptions =
     rbind (dep_iter deps) (\<lambda>ks. Inr
       \<lparr>gr_keys = ks, gr_runners = map (\<lambda>k. (k, new_runner (task k))) (order ks),
        gr_graph = dep_graph deps reverse, gr_error_wait = error_wait_time,
        gr_aggregate = aggregate_exceptions, gr_raised = [], gr_last = None, gr_pc = LoopHead\<rparr>)"

definition runner_of :: "'k group \<Rightarrow> 'k \<Rightarrow> runner option" where
  "runner_of g k = map_of (gr_runners g) k"

definition set_runner :: "'k \<Rightarrow> runner \<Rightarrow> 'k group \<Rightarrow> 'k group" where
  "set_runner k r g = g\<lparr>gr_runners := AList.update k r (gr_runners g)\<rparr>"

definition drop_node :: "'k \<Rightarrow> 'k group \<Rightarrow> 'k group" where
  "drop_node k g = g\<lparr>gr_graph := del_node k (gr_graph g)\<rparr>"

section \<open>The loops\<close>

text \<open>The \<open>for\<close> loop over \<open>_ready()\<close>, whose generator looks at a key after the body has run for the
  keys before it; with the exception that leaves it.\<close>

fun ready_loop :: "('k \<Rightarrow> int) \<Rightarrow> 'k list \<Rightarrow> 'k group \<Rightarrow> 'k group \<times> exn option" where
  "ready_loop now [] g = (g, None)"
| "ready_loop now (k # ks) g =
     (if k \<in> keys (gr_graph g) \<and> \<not> node_bool (node_of (gr_graph g) k)
      then (case runner_of g k of
              None \<Rightarrow> (g, Some PyKeyErr)
            | Some r \<Rightarrow>
                if \<not> rn_done r \<and> \<not> started r
                then (case runner_start (now k) (now k) None r of
                        (Inl e, r') \<Rightarrow> ((set_runner k r' g)\<lparr>gr_last := Some k\<rparr>, Some e)
                      | (Inr _, r') \<Rightarrow>
                          (let g1 = (set_runner k r' g)\<lparr>gr_last := Some k\<rparr>
                           in ready_loop now ks (if rn_done r' then drop_node k g1 else g1)))
                else ready_loop now ks g)
      else ready_loop now ks g)"

text \<open>The \<open>for\<close> loop over \<open>_running()\<close>; the keys are those of the dictionary of runners.\<close>

fun running_loop :: "('k \<Rightarrow> int) \<Rightarrow> 'k list \<Rightarrow> 'k group \<Rightarrow> 'k group \<times> exn option" where
  "running_loop now [] g = (g, None)"
| "running_loop now (k # ks) g =
     (case runner_of g k of
        None \<Rightarrow> running_loop now ks g
      | Some r \<Rightarrow>
          if k \<in> keys (gr_graph g) \<and> started r
          then (case runner_step (now k) r of
                  (Inl e, r') \<Rightarrow> ((set_runner k r' g)\<lparr>gr_last := Some k\<rparr>, Some e)
                | (Inr finished, r') \<Rightarrow>
                    (let g1 = (set_runner k r' g)\<lparr>gr_last := Some k\<rparr>
                     in running_loop now ks (if finished then drop_node k g1 else g1)))
          else running_loop now ks g)"

section \<open>Errors\<close>

fun cancel_all :: "('k \<Rightarrow> int) \<Rightarrow> int option \<Rightarrow> 'k list \<Rightarrow> 'k group \<Rightarrow> 'k group \<times> exn option" where
  "cancel_all later grace [] g = (g, None)"
| "cancel_all later grace (k # ks) g =
     (case runner_of g k of
        None \<Rightarrow> cancel_all later grace ks g
      | Some r \<Rightarrow>
          (case runner_cancel (later k) grace r of
             (Some e, r') \<Rightarrow> (set_runner k r' g, Some e)
           | (None, r') \<Rightarrow> cancel_all later grace ks (set_runner k r' g)))"

fun cancel_each :: "('k \<Rightarrow> 'k group \<Rightarrow> 'k group \<times> exn option) \<Rightarrow> 'k list \<Rightarrow> 'k group \<Rightarrow> 'k group \<times> exn option"
where
  "cancel_each f [] g = (g, None)"
| "cancel_each f (k # ks) g =
     (case f k g of (g', Some e) \<Rightarrow> (g', Some e) | (g', None) \<Rightarrow> cancel_each f ks g')"

text \<open>The recursion goes from a key to those that require it; the bound is the depth of the recursion
  at which the interpreter raises \<open>RuntimeError\<close>.\<close>

fun cancel_recursively :: "nat \<Rightarrow> ('k \<Rightarrow> int) \<Rightarrow> 'k \<Rightarrow> 'k group \<Rightarrow> 'k group \<times> exn option" where
  "cancel_recursively 0 later key g = (g, Some RuntimeErr)"
| "cancel_recursively (Suc n) later key g =
     (case runner_of g key of
        None \<Rightarrow> (g, Some PyKeyErr)
      | Some r \<Rightarrow>
          (case runner_cancel (later key) None r of
             (Some e, r') \<Rightarrow> (set_runner key r' g, Some e)
           | (None, r') \<Rightarrow>
               (let g1 = set_runner key r' g;
                    g2 = g1\<lparr>gr_graph := update_node id key (gr_graph g1)\<rparr>
                in case cancel_each (cancel_recursively n later) (nd_satisfy (node_of (gr_graph g2) key)) g2 of
                     (g3, Some e) \<Rightarrow> (g3, Some e)
                   | (g3, None) \<Rightarrow> (drop_node key g3, None))))"

text \<open>The two \<open>except\<close> clauses; an exception in a clause leaves the coroutine.\<close>

definition handle :: "('k \<Rightarrow> int) \<Rightarrow> exn \<Rightarrow> 'k group \<Rightarrow> 'k group" where
  "handle later e g =
     (if is_exception e
      then (case (if gr_aggregate g
                  then (case gr_last g of
                          None \<Rightarrow> (g, Some UnboundLocalErr)
                        | Some k \<Rightarrow> cancel_recursively (length (gr_keys g)) later k g)
                  else cancel_all later (gr_error_wait g) (map fst (gr_runners g)) g) of
              (g', None) \<Rightarrow> g'\<lparr>gr_raised := gr_raised g @ [e], gr_pc := LoopHead\<rparr>
            | (g', Some e') \<Rightarrow> g'\<lparr>gr_pc := Finished (Some e')\<rparr>)
      else (case cancel_all later None (map fst (gr_runners g)) g of
              (g', None) \<Rightarrow> g'\<lparr>gr_pc := Finished (Some e)\<rparr>
            | (g', Some e') \<Rightarrow> g'\<lparr>gr_pc := Finished (Some e')\<rparr>))"

section \<open>The coroutine\<close>

definition group_result :: "'k group \<Rightarrow> exn option" where
  "group_result g = (case gr_raised g of
     [] \<Rightarrow> None
   | e # es \<Rightarrow> Some (if gr_aggregate g then ExceptionGroup (e # es) else e))"

definition task_group_step :: "('k \<Rightarrow> int) \<Rightarrow> ('k \<Rightarrow> int) \<Rightarrow> 'k group \<Rightarrow> 'k group" where
  "task_group_step now later g =
     (case gr_pc g of
        LoopHead \<Rightarrow>
          if \<exists>(k, r) \<in> set (gr_runners g). \<not> rn_done r
          then (case ready_loop now (gr_keys g) g of
                  (g', None) \<Rightarrow> g'\<lparr>gr_pc := AtYield\<rparr>
                | (g', Some e) \<Rightarrow> handle later e g')
          else g\<lparr>gr_pc := Finished (group_result g)\<rparr>
      | AtYield \<Rightarrow>
          (case running_loop now (map fst (gr_runners g)) g of
             (g', None) \<Rightarrow> g'\<lparr>gr_pc := LoopHead\<rparr>
           | (g', Some e) \<Rightarrow> handle later e g')
      | Finished _ \<Rightarrow> g)"

text \<open>The transitions of a group: a step, or an exception that its user throws into it at the
  \<open>yield\<close> (also \<open>GeneratorExit\<close> when it is closed and \<open>Timeout\<close> when it is too late).\<close>

inductive group_trans :: "'k group \<Rightarrow> 'k group \<Rightarrow> bool" where
  stepped: "group_trans g (task_group_step now later g)"
| thrown: "gr_pc g = AtYield \<Longrightarrow> group_trans g (handle later e g)"

inductive group_reach :: "'k group \<Rightarrow> 'k group \<Rightarrow> bool" where
  here: "group_reach g g"
| further: "group_reach g g' \<Longrightarrow> group_trans g' g'' \<Longrightarrow> group_reach g g''"

inductive_cases group_trans_cases: "group_trans g g'"

text \<open>The group driven by its runner alone; the clock gives the times of each step.\<close>

fun group_run :: "(nat \<Rightarrow> 'k \<Rightarrow> int) \<Rightarrow> nat \<Rightarrow> 'k group \<Rightarrow> 'k group" where
  "group_run clock 0 g = g"
| "group_run clock (Suc n) g = group_run (\<lambda>i. clock (i + 2)) n (task_group_step (clock 0) (clock 1) g)"

section \<open>The invariant\<close>

definition active :: "'k group \<Rightarrow> 'k \<Rightarrow> bool" where
  "active g k \<longleftrightarrow> (\<exists>r. runner_of g k = Some r \<and> \<not> rn_done r)"

definition waiting :: "'k group \<Rightarrow> 'k \<Rightarrow> bool" where
  "waiting g k \<longleftrightarrow> (\<exists>r. runner_of g k = Some r \<and> \<not> rn_done r \<and> \<not> started r)"

definition ok :: "'k group \<Rightarrow> 'k \<Rightarrow> bool" where
  "ok g k \<longleftrightarrow> (\<exists>r. runner_of g k = Some r \<and> succeeded r)"

text \<open>\<open>R\<close> relates a key to the keys that must be finished before it. What holds in every state: a
  task is started only when all it requires has succeeded.\<close>

definition core :: "('k \<times> 'k) set \<Rightarrow> 'k group \<Rightarrow> bool" where
  "core R g \<longleftrightarrow> distinct (map fst (gr_runners g)) \<and> set (map fst (gr_runners g)) = set (gr_keys g) \<and>
     R \<subseteq> set (gr_keys g) \<times> set (gr_keys g) \<and> acyclic R \<and>
     (\<forall>k r. runner_of g k = Some r \<longrightarrow> runner_ok r \<and>
        (Starting \<in> set (rn_log r) \<longrightarrow> (\<forall>j. (k, j) \<in> R \<longrightarrow> ok g j)))"

text \<open>What the graph says of the tasks that are not done, while the coroutine has not ended; \<open>S\<close> holds
  the tasks that are being cancelled and whose dependents may not be cancelled yet.\<close>

definition sound_but :: "('k \<times> 'k) set \<Rightarrow> 'k set \<Rightarrow> 'k group \<Rightarrow> bool" where
  "sound_but R S g \<longleftrightarrow>
     (\<forall>k. waiting g k \<longrightarrow> requires (gr_graph g) k = {j. (k, j) \<in> R \<and> \<not> ok g j} \<and>
        (\<forall>j. (k, j) \<in> R \<longrightarrow> ok g j \<or> active g j \<or> j \<in> S)) \<and>
     (\<forall>k. active g k \<longrightarrow> k \<in> keys (gr_graph g) \<and> required_by (gr_graph g) k = {a. (a, k) \<in> R}) \<and>
     (\<forall>k. required_by (gr_graph g) k \<subseteq> {a. (a, k) \<in> R}) \<and>
     ((\<exists>k. waiting g k) \<longrightarrow> (\<forall>k r. runner_of g k = Some r \<longrightarrow> rn_timeout r = None))"

definition sound :: "('k \<times> 'k) set \<Rightarrow> 'k group \<Rightarrow> bool" where
  "sound R g \<longleftrightarrow> sound_but R {} g"

lemma runner_of_set [simp]: "runner_of (set_runner k r g) j = (if j = k then Some r else runner_of g j)"
  by (simp add: runner_of_def set_runner_def update_conv')

lemma set_runner_simps [simp]:
  "gr_keys (set_runner k r g) = gr_keys g" "gr_graph (set_runner k r g) = gr_graph g"
  "gr_error_wait (set_runner k r g) = gr_error_wait g" "gr_aggregate (set_runner k r g) = gr_aggregate g"
  "gr_raised (set_runner k r g) = gr_raised g" "gr_pc (set_runner k r g) = gr_pc g"
  "gr_last (set_runner k r g) = gr_last g"
  by (simp_all add: set_runner_def)

lemma runner_of_same [simp]:
  "runner_of (g\<lparr>gr_graph := gr\<rparr>) = runner_of g" "runner_of (g\<lparr>gr_last := l\<rparr>) = runner_of g"
  "runner_of (g\<lparr>gr_pc := p\<rparr>) = runner_of g" "runner_of (g\<lparr>gr_raised := es\<rparr>) = runner_of g"
  "runner_of (drop_node k g) = runner_of g"
  by (simp_all add: runner_of_def drop_node_def fun_eq_iff)

lemma runner_of_keys: "core R g \<Longrightarrow> k \<in> set (gr_keys g) \<longleftrightarrow> (\<exists>r. runner_of g k = Some r)"
  unfolding core_def runner_of_def by (metis list.set_map map_of_eq_None_iff not_None_eq)

lemma coreD:
  assumes "core R g" "runner_of g k = Some r"
  shows "runner_ok r" "Starting \<in> set (rn_log r) \<Longrightarrow> (k, j) \<in> R \<Longrightarrow> ok g j"
  using assms by (auto simp: core_def)

lemma map_fst_set_runner:
  "runner_of g k = Some r \<Longrightarrow> map fst (gr_runners (set_runner k r' g)) = map fst (gr_runners g)"
  by (force simp: set_runner_def runner_of_def update_keys dest: map_of_SomeD)

text \<open>A group with the same runners, keys and relation, and another graph.\<close>

lemma state_same:
  assumes "runner_of g' = runner_of g"
  shows "active g' = active g" "waiting g' = waiting g" "ok g' = ok g"
  using assms by (auto simp: active_def waiting_def ok_def fun_eq_iff)

lemma core_same:
  "core R (g\<lparr>gr_graph := gr\<rparr>) = core R g" "core R (g\<lparr>gr_last := l\<rparr>) = core R g"
  "core R (g\<lparr>gr_pc := p\<rparr>) = core R g" "core R (g\<lparr>gr_raised := es\<rparr>) = core R g"
  "core R (drop_node k g) = core R g"
proof -
  have other: "gr_runners (drop_node k g) = gr_runners g" "gr_keys (drop_node k g) = gr_keys g"
    by (simp_all add: drop_node_def)
  show "core R (g\<lparr>gr_graph := gr\<rparr>) = core R g" "core R (g\<lparr>gr_last := l\<rparr>) = core R g"
    "core R (g\<lparr>gr_pc := p\<rparr>) = core R g" "core R (g\<lparr>gr_raised := es\<rparr>) = core R g"
    "core R (drop_node k g) = core R g"
    unfolding core_def ok_def runner_of_same other by simp_all
qed

lemma sound_same:
  "sound R (g\<lparr>gr_last := l\<rparr>) = sound R g" "sound R (g\<lparr>gr_pc := p\<rparr>) = sound R g"
  "sound R (g\<lparr>gr_raised := es\<rparr>) = sound R g"
  unfolding sound_def sound_but_def active_def waiting_def ok_def runner_of_same by simp_all

lemma core_set_runner:
  assumes "core R g" "runner_of g k = Some r" "runner_ok r'" "succeeded r \<Longrightarrow> succeeded r'"
    and "\<And>j. Starting \<in> set (rn_log r') \<Longrightarrow> (k, j) \<in> R \<Longrightarrow> ok g j"
  shows "core R (set_runner k r' g)"
proof -
  have mono: "ok g j \<Longrightarrow> ok (set_runner k r' g) j" for j
    using assms(2,4) by (auto simp: ok_def)
  have fst: "map fst (gr_runners (set_runner k r' g)) = map fst (gr_runners g)"
    by (rule map_fst_set_runner[OF assms(2)])
  show ?thesis
    using assms(1,3,5) mono unfolding core_def fst by simp
qed

lemma no_waiting_sound:
  assumes "\<And>k. \<not> waiting g k"
    and "\<And>k. active g k \<Longrightarrow> k \<in> keys (gr_graph g) \<and> required_by (gr_graph g) k = {a. (a, k) \<in> R}"
    and "\<And>k. required_by (gr_graph g) k \<subseteq> {a. (a, k) \<in> R}"
  shows "sound_but R S g"
  using assms by (auto simp: sound_but_def)

lemma active_not_ok: "core R g \<Longrightarrow> active g k \<Longrightarrow> \<not> ok g k"
  using coreD(1)[of R g k] by (auto simp: active_def ok_def runner_ok_def succeeded_def)

lemma waiting_active: "waiting g k \<Longrightarrow> active g k"
  by (auto simp: waiting_def active_def)

subsection \<open>Changes to one runner\<close>

lemma sound_butD:
  assumes "sound_but R S g"
  shows "waiting g a \<Longrightarrow> requires (gr_graph g) a = {j. (a, j) \<in> R \<and> \<not> ok g j}"
    "waiting g a \<Longrightarrow> (a, j) \<in> R \<Longrightarrow> ok g j \<or> active g j \<or> j \<in> S"
    "active g a \<Longrightarrow> a \<in> keys (gr_graph g)" "active g a \<Longrightarrow> required_by (gr_graph g) a = {b. (b, a) \<in> R}"
    "waiting g a \<Longrightarrow> runner_of g k = Some r \<Longrightarrow> rn_timeout r = None"
    "required_by (gr_graph g) a \<subseteq> {b. (b, a) \<in> R}"
  using assms unfolding sound_but_def by blast+

lemma soundD:
  assumes "sound R g"
  shows "waiting g a \<Longrightarrow> requires (gr_graph g) a = {j. (a, j) \<in> R \<and> \<not> ok g j}"
    "waiting g a \<Longrightarrow> (a, j) \<in> R \<Longrightarrow> ok g j \<or> active g j"
    "active g a \<Longrightarrow> a \<in> keys (gr_graph g)" "active g a \<Longrightarrow> required_by (gr_graph g) a = {b. (b, a) \<in> R}"
    "waiting g a \<Longrightarrow> runner_of g k = Some r \<Longrightarrow> rn_timeout r = None"
    "required_by (gr_graph g) a \<subseteq> {b. (b, a) \<in> R}"
  using sound_butD[OF assms[unfolded sound_def]] by auto

text \<open>Deleting the node of a task that is done.\<close>

lemma drop_sound:
  assumes "\<not> active g k"
    and "\<And>a. waiting g a \<Longrightarrow> requires (gr_graph g) a - {k} = {j. (a, j) \<in> R \<and> \<not> ok g j}"
    and "\<And>a j. waiting g a \<Longrightarrow> (a, j) \<in> R \<Longrightarrow> ok g j \<or> active g j \<or> j \<in> S"
    and "\<And>a. waiting g a \<Longrightarrow> k \<in> requires (gr_graph g) a \<Longrightarrow> a \<in> required_by (gr_graph g) k"
    and "\<And>a. active g a \<Longrightarrow> a \<in> keys (gr_graph g) \<and> required_by (gr_graph g) a = {b. (b, a) \<in> R}"
    and "\<And>a j r. waiting g a \<Longrightarrow> runner_of g j = Some r \<Longrightarrow> rn_timeout r = None"
    and "\<And>a. required_by (gr_graph g) a \<subseteq> {b. (b, a) \<in> R}"
  shows "sound_but R S (drop_node k g)"
proof -
  note same = state_same[of "drop_node k g" g, OF runner_of_same(5)]
  have graph: "gr_graph (drop_node k g) = del_node k (gr_graph g)" by (simp add: drop_node_def)
  have "requires (del_node k (gr_graph g)) a = {j. (a, j) \<in> R \<and> \<not> ok g j}" if "waiting g a" for a
  proof -
    have "a \<noteq> k" using that assms(1) waiting_active[of g a] by auto
    then have "requires (del_node k (gr_graph g)) a = requires (gr_graph g) a - {k}"
      using assms(4)[OF that] by (auto simp: requires_del_node)
    then show ?thesis using assms(2)[OF that] by simp
  qed
  moreover have "a \<in> keys (del_node k (gr_graph g)) \<and> required_by (del_node k (gr_graph g)) a = {b. (b, a) \<in> R}"
    if "active g a" for a
  proof -
    have "a \<noteq> k" using that assms(1) by blast
    then show ?thesis using assms(5)[OF that] by (simp add: keys_del_node required_by_del_node)
  qed
  moreover have "required_by (del_node k (gr_graph g)) a \<subseteq> {b. (b, a) \<in> R}" for a
    using assms(7) by (simp add: required_by_del_node)
  ultimately show ?thesis
    unfolding sound_but_def same graph runner_of_same using assms(3,6) by blast
qed

lemma drop_done_sound_but:
  assumes "sound_but R S g" "\<not> active g k" "\<And>a. waiting g a \<Longrightarrow> (a, k) \<in> R \<Longrightarrow> ok g k"
  shows "sound_but R S (drop_node k g)"
proof (rule drop_sound[OF assms(2)])
  note D = sound_butD[OF assms(1)]
  fix a
  have "k \<notin> requires (gr_graph g) a" if "waiting g a"
    using D(1)[OF that] assms(3)[OF that] by blast
  then show "waiting g a \<Longrightarrow> requires (gr_graph g) a - {k} = {j. (a, j) \<in> R \<and> \<not> ok g j}"
    "waiting g a \<Longrightarrow> k \<in> requires (gr_graph g) a \<Longrightarrow> a \<in> required_by (gr_graph g) k"
    using D(1) by auto
qed (use sound_butD[OF assms(1)] in blast)+

lemma drop_done_sound:
  assumes "sound R g" "\<not> active g k" shows "sound R (drop_node k g)"
  using drop_done_sound_but[of R "{}" g k] assms soundD(2)[OF assms(1), of _ k] by (auto simp: sound_def)

lemma changed_runner:
  assumes "core R g" "active g k"
  shows "waiting (set_runner k r' g) a \<longleftrightarrow> (if a = k then \<not> rn_done r' \<and> \<not> started r' else waiting g a)"
    "active (set_runner k r' g) a \<longleftrightarrow> (if a = k then \<not> rn_done r' else active g a)"
    "ok (set_runner k r' g) a \<longleftrightarrow> ok g a \<or> a = k \<and> succeeded r'"
  using active_not_ok[OF assms] by (auto simp: waiting_def active_def ok_def)

text \<open>A task that was active goes on, finishes, or ends without success.\<close>

lemma progress_sound:
  assumes "core R g" "sound R g" "runner_of g k = Some r" "\<not> rn_done r" "\<not> rn_done r'" "\<not> succeeded r'"
    and "rn_timeout r' = rn_timeout r" "started r' \<or> \<not> started r"
  shows "sound R (set_runner k r' g)"
proof -
  have act: "active g k" using assms(3,4) by (auto simp: active_def)
  note D = soundD[OF assms(2)] and ch = changed_runner[OF assms(1) act, of r']
  have w: "waiting (set_runner k r' g) a \<Longrightarrow> waiting g a" for a
    using assms(3,4,8) by (auto simp: ch split: if_splits) (auto simp: waiting_def)
  have a: "active (set_runner k r' g) = active g" "ok (set_runner k r' g) = ok g"
    using act assms(5,6) by (auto simp: ch fun_eq_iff)
  have t: "runner_of (set_runner k r' g) j = Some s \<Longrightarrow> \<exists>s'. runner_of g j = Some s' \<and> rn_timeout s = rn_timeout s'"
    for j s using assms(3,7) by (auto split: if_splits)
  show ?thesis
    unfolding sound_def sound_but_def a set_runner_simps
  proof (intro conjI allI impI)
    fix x j s
    assume wait: "waiting (set_runner k r' g) x"
    note wx = w[OF wait]
    show "requires (gr_graph g) x = {j. (x, j) \<in> R \<and> \<not> ok g j}" by (rule D(1)[OF wx])
    show "ok g j \<or> active g j \<or> j \<in> {}" if "(x, j) \<in> R" using D(2)[OF wx that] by simp
  next
    fix j s
    assume "\<exists>x. waiting (set_runner k r' g) x" "runner_of (set_runner k r' g) j = Some s"
    then obtain x s' where "waiting g x" "runner_of g j = Some s'" "rn_timeout s = rn_timeout s'"
      using w t by blast
    then show "rn_timeout s = None" using D(5) by simp
  qed (use D(3,4,6) in blast)+
qed

lemma finish_sound:
  assumes "core R g" "sound R g" "runner_of g k = Some r" "\<not> rn_done r" "rn_done r'"
    and "rn_timeout r' = rn_timeout r" "succeeded r' \<or> (\<forall>a. \<not> waiting g a)"
  shows "sound R (drop_node k (set_runner k r' g))"
  unfolding sound_def
proof (rule drop_sound)
  have act: "active g k" using assms(3,4) by (auto simp: active_def)
  note D = soundD[OF assms(2)] and ch = changed_runner[OF assms(1) act, of r']
  have w: "waiting (set_runner k r' g) a \<Longrightarrow> waiting g a \<and> a \<noteq> k \<and> succeeded r'" for a
    using assms(5,7) by (auto simp: ch split: if_splits)
  show "\<not> active (set_runner k r' g) k" using assms(5) by (simp add: ch)
  fix a j s
  show "requires (gr_graph (set_runner k r' g)) a - {k} = {j. (a, j) \<in> R \<and> \<not> ok (set_runner k r' g) j}"
    if "waiting (set_runner k r' g) a"
    using w[OF that] D(1)[of a] by (auto simp: ch)
  show "ok (set_runner k r' g) j \<or> active (set_runner k r' g) j \<or> j \<in> {}"
    if "waiting (set_runner k r' g) a" "(a, j) \<in> R"
    using w[OF that(1)] D(2)[of a j] that(2) by (auto simp: ch)
  show "a \<in> required_by (gr_graph (set_runner k r' g)) k"
    if "waiting (set_runner k r' g) a" "k \<in> requires (gr_graph (set_runner k r' g)) a"
    using w[OF that(1)] D(1)[of a] D(4)[OF act] that(2) by auto
  show "a \<in> keys (gr_graph (set_runner k r' g)) \<and> required_by (gr_graph (set_runner k r' g)) a = {b. (b, a) \<in> R}"
    if "active (set_runner k r' g) a"
    using D(3,4)[of a] that assms(5) by (auto simp: ch split: if_splits)
  show "rn_timeout s = None" if "waiting (set_runner k r' g) a" "runner_of (set_runner k r' g) j = Some s"
    using w[OF that(1)] D(5)[of a j s] D(5)[of a k r] that(2) assms(3,6) by (auto split: if_splits)
  show "required_by (gr_graph (set_runner k r' g)) a \<subseteq> {b. (b, a) \<in> R}" using D(6) by simp
qed

section \<open>The loops keep the invariant\<close>

definition load :: "'k group \<Rightarrow> nat" where
  "load g = sum_list (map (\<lambda>p. work (snd p)) (gr_runners g))"

lemma load_set_runner:
  assumes "core R g" "runner_of g k = Some r"
  shows "load (set_runner k r' g) + work r = load g + work r'"
proof -
  have "distinct (map fst al) \<Longrightarrow> map_of al k = Some r \<Longrightarrow>
      sum_list (map (\<lambda>p. work (snd p)) (AList.update k r' al)) + work r =
      sum_list (map (\<lambda>p. work (snd p)) al) + work r'" for al
    by (induction al) auto
  then show ?thesis using assms by (simp add: core_def runner_of_def load_def set_runner_def)
qed

lemma load_same [simp]:
  "load (g\<lparr>gr_graph := gr\<rparr>) = load g" "load (g\<lparr>gr_last := l\<rparr>) = load g" "load (g\<lparr>gr_pc := p\<rparr>) = load g"
  "load (g\<lparr>gr_raised := es\<rparr>) = load g" "load (drop_node k g) = load g"
  by (simp_all add: load_def drop_node_def)

lemma drop_last: "drop_node k (g\<lparr>gr_last := l\<rparr>) = (drop_node k g)\<lparr>gr_last := l\<rparr>"
  by (simp add: drop_node_def)

lemma work_pos: "\<not> rn_done r \<Longrightarrow> 0 < work r"
  by (auto simp: work_def split: runner_state.splits task.splits)

text \<open>What the loops do not change.\<close>

definition frame :: "'k group \<Rightarrow> 'k group \<Rightarrow> bool" where
  "frame g g' \<longleftrightarrow> gr_keys g' = gr_keys g \<and> gr_error_wait g' = gr_error_wait g \<and>
     gr_aggregate g' = gr_aggregate g \<and> gr_raised g' = gr_raised g \<and> gr_pc g' = gr_pc g \<and>
     map fst (gr_runners g') = map fst (gr_runners g)"

lemma frame_refl [simp]: "frame g g"
  by (simp add: frame_def)

lemma frame_trans: "frame g g' \<Longrightarrow> frame g' g'' \<Longrightarrow> frame g g''"
  by (simp add: frame_def)

lemma frame_set [simp]:
  "runner_of g k = Some r \<Longrightarrow> frame g (set_runner k r' g)"
  "frame g (h\<lparr>gr_last := l\<rparr>) = frame g h" "frame g (drop_node k h) = frame g h"
  "frame g (h\<lparr>gr_graph := gr\<rparr>) = frame g h"
  by (simp_all add: frame_def map_fst_set_runner drop_node_def)

text \<open>No task was cancelled, timed out or failed.\<close>

definition clean :: "'k group \<Rightarrow> bool" where
  "clean g \<longleftrightarrow> (\<forall>k r. runner_of g k = Some r \<longrightarrow> rn_timeout r = None \<and> (rn_done r \<longrightarrow> succeeded r))"

text \<open>A task whose cancellation raises nothing.\<close>

definition ended :: "runner \<Rightarrow> bool" where
  "ended r \<longleftrightarrow> rn_done r \<or> \<not> started r \<or> rn_runner r = Resumable Exhausted"

lemma ready_loop_spec:
  assumes "core R g" "sound R g" "set ks \<subseteq> set (gr_keys g)" "ready_loop now ks g = (g', e)"
  shows "core R g' \<and> sound R g' \<and> frame g g' \<and> load g' \<le> load g \<and>
    (\<forall>k. active g k \<and> \<not> waiting g k \<longrightarrow> runner_of g' k = runner_of g k) \<and>
    (clean g \<and> e = None \<longrightarrow> clean g') \<and>
    (case e of
       None \<Rightarrow> (\<exists>k \<in> set ks. waiting g k \<and> requires (gr_graph g) k = {}) \<longrightarrow> load g' < load g
     | Some e \<Rightarrow> \<exists>k r. gr_last g' = Some k \<and> runner_of g' k = Some r \<and> \<not> rn_done r \<and> ended r \<and> \<not> succeeded r \<and>
         (load g' < load g \<or> \<not> started r))"
  using assms
proof (induction ks arbitrary: g)
  case Nil
  then show ?case by simp
next
  case (Cons k ks)
  obtain r where r: "runner_of g k = Some r" using Cons.prems(1,3) runner_of_keys by fastforce
  note ok = coreD[OF Cons.prems(1) r]
  show ?case
  proof (cases "(k \<in> keys (gr_graph g) \<and> \<not> node_bool (node_of (gr_graph g) k)) \<and> \<not> rn_done r \<and> \<not> started r")
    case False
    then have skip: "ready_loop now (k # ks) g = ready_loop now ks g" by (auto simp: r)
    have "\<not> (waiting g k \<and> requires (gr_graph g) k = {})"
      using False r soundD(3)[OF Cons.prems(2)] waiting_active[of g k]
      by (auto simp: waiting_def requires_def node_bool_def)
    then show ?thesis
      using Cons.IH[of g] Cons.prems unfolding skip by (auto split: option.splits)
  next
    case True
    then have wait: "waiting g k" "active g k" using r by (auto simp: waiting_def active_def)
    have t: "rn_timeout r = None" by (rule soundD(5)[OF Cons.prems(2) wait(1) r])
    have "requires (gr_graph g) k = {}" using True by (simp add: requires_def node_bool_def)
    then have reqs: "ok g j" if "(k, j) \<in> R" for j
      using soundD(1)[OF Cons.prems(2) wait(1)] that by blast
    obtain res r' where start: "runner_start (now k) (now k) None r = (res, r')"
      by (cases "runner_start (now k) (now k) None r")
    have not_succ: "\<not> succeeded r" using ok(1) True by (simp add: runner_ok_def succeeded_def)
    have eff: "runner_ok r'" "rn_timeout r' = rn_timeout r"
        "case res of Inl e \<Rightarrow> \<not> rn_done r' \<and> \<not> succeeded r' \<and> work r' \<le> work r \<and>
           (\<not> started r' \<or> rn_runner r' = Resumable Exhausted \<and> work r' < work r)
         | Inr _ \<Rightarrow> started r' \<and> work r' < work r \<and> succeeded r' = rn_done r'"
      using runner_start_effect[OF ok(1) _ _ t start] True t by auto
    have core1: "core R (set_runner k r' g)"
      by (rule core_set_runner[OF Cons.prems(1) r eff(1)]) (use not_succ reqs in auto)
    have load1: "load (set_runner k r' g) + work r = load g + work r'"
      by (rule load_set_runner[OF Cons.prems(1) r])
    show ?thesis
    proof (cases res)
      case (Inl e1)
      have g': "g' = (set_runner k r' g)\<lparr>gr_last := Some k\<rparr>" "e = Some e1"
        using Cons.prems(4) True r start Inl by auto
      have "sound R (set_runner k r' g)"
        by (rule progress_sound[OF Cons.prems(1,2) r]) (use True Inl eff in auto)
      then show ?thesis
        using core1 eff(3) Inl load1 wait r unfolding g' by (auto simp: core_same sound_same ended_def)
    next
      case (Inr u)
      let ?g1 = "(set_runner k r' g)\<lparr>gr_last := Some k\<rparr>"
      let ?g2 = "if rn_done r' then drop_node k ?g1 else ?g1"
      have run: "ready_loop now ks ?g2 = (g', e)" using Cons.prems(4) True r start Inr by (simp add: Let_def)
      have "sound R (if rn_done r' then drop_node k (set_runner k r' g) else set_runner k r' g)"
        using finish_sound[OF Cons.prems(1,2) r _ _ eff(2)] progress_sound[OF Cons.prems(1,2) r _ _ _ eff(2)]
          True eff(3) Inr by auto
      then have s2: "sound R ?g2"
        by (auto simp: sound_same drop_last)
      have c2: "core R ?g2" using core1 by (simp add: core_same)
      have same: "runner_of ?g2 = (\<lambda>j. if j = k then Some r' else runner_of g j)" "frame g ?g2"
        "load ?g2 < load g"
        using r load1 eff(3) Inr by (auto simp: fun_eq_iff)
      have keys: "set ks \<subseteq> set (gr_keys ?g2)" using Cons.prems(3) by (auto simp: drop_node_def)
      note IH = Cons.IH[OF c2 s2 keys run]
      have "runner_of g' j = runner_of g j" if "active g j" "\<not> waiting g j" for j
      proof -
        have "j \<noteq> k" using wait(1) that(2) by blast
        then have "active ?g2 j \<and> \<not> waiting ?g2 j" using that unfolding active_def waiting_def same(1) by simp
        then show ?thesis using IH \<open>j \<noteq> k\<close> unfolding same(1) by simp
      qed
      moreover have "clean g \<Longrightarrow> clean ?g2"
        using t eff(2,3) Inr unfolding clean_def same(1) by auto
      ultimately show ?thesis
        using IH same(3) frame_trans[OF same(2)] by (auto split: option.splits)
    qed
  qed
qed

lemma running_loop_spec:
  assumes "core R g" "sound R g" "running_loop now ks g = (g', e)"
  shows "core R g' \<and> sound R g' \<and> frame g g' \<and> load g' \<le> load g \<and>
    ((\<exists>k \<in> set ks. active g k \<and> \<not> waiting g k) \<longrightarrow> load g' < load g) \<and>
    (clean g \<and> e = None \<longrightarrow> clean g') \<and>
    (case e of None \<Rightarrow> True
     | Some e \<Rightarrow> load g' < load g \<and>
         (\<exists>k r. gr_last g' = Some k \<and> runner_of g' k = Some r \<and> ended r \<and> \<not> succeeded r))"
  using assms
proof (induction ks arbitrary: g)
  case Nil
  then show ?case by simp
next
  case (Cons k ks)
  show ?case
  proof (cases "\<exists>r. runner_of g k = Some r \<and> k \<in> keys (gr_graph g) \<and> started r")
    case False
    then have skip: "running_loop now (k # ks) g = running_loop now ks g" by (auto split: option.splits)
    have "\<not> (active g k \<and> \<not> waiting g k)"
      using False soundD(3)[OF Cons.prems(2), of k] by (auto simp: active_def waiting_def)
    then show ?thesis
      using Cons.IH[of g] Cons.prems unfolding skip by (auto split: option.splits)
  next
    case True
    then obtain r where r: "runner_of g k = Some r" "k \<in> keys (gr_graph g)" "started r" by blast
    obtain res r' where step: "runner_step (now k) r = (res, r')" by (cases "runner_step (now k) r")
    show ?thesis
    proof (cases "rn_done r")
      case True
      then have same: "res = Inr True" "r' = r" using step by (auto simp: runner_step_def)
      let ?g2 = "drop_node k ((set_runner k r g)\<lparr>gr_last := Some k\<rparr>)"
      have run: "running_loop now ks ?g2 = (g', e)" using Cons.prems(3) r step same by (simp add: Let_def)
      have runners: "runner_of (set_runner k r g) = runner_of g" using r(1) by (simp add: fun_eq_iff)
      have "sound R (set_runner k r g)"
        using Cons.prems(2) unfolding sound_def sound_but_def state_same[OF runners] runners by simp
      moreover have "\<not> active (set_runner k r g) k" using True r(1) by (simp add: active_def)
      ultimately have s2: "sound R ?g2" using drop_done_sound by (simp add: drop_last sound_same)
      have c2: "core R ?g2" using core_set_runner[OF Cons.prems(1) r(1)] coreD[OF Cons.prems(1) r(1)]
        by (simp add: core_same)
      have r2: "runner_of ?g2 = runner_of g" using r(1) by (simp add: fun_eq_iff)
      have f2: "frame g ?g2" "load ?g2 = load g"
        using r(1) load_set_runner[OF Cons.prems(1) r(1), of r] by simp_all
      have "\<not> active g k" using True r(1) by (simp add: active_def)
      then show ?thesis
        using Cons.IH[OF c2 s2 run] frame_trans[OF f2(1)] f2(2)
        unfolding state_same[OF r2] clean_def[of ?g2] r2 clean_def[of g] by (auto split: option.splits)
    next
      case False
      note ok = coreD[OF Cons.prems(1) r(1)]
      note eff = runner_step_effect[OF ok(1) r(3) False step]
      have act: "active g k" using r(1) False by (auto simp: active_def)
      have not_succ: "\<not> succeeded r" using ok(1) False by (simp add: runner_ok_def succeeded_def)
      have core1: "core R (set_runner k r' g)"
        by (rule core_set_runner[OF Cons.prems(1) r(1) eff(1)])
          (use not_succ ok(2) starting_log(1)[OF step] in auto)
      have load1: "load (set_runner k r' g) < load g"
        using load_set_runner[OF Cons.prems(1) r(1), of r'] eff(5) by simp
      have quiet: "succeeded r' \<or> (\<forall>a. \<not> waiting g a)" if "rn_done r'"
        using soundD(5)[OF Cons.prems(2) _ r(1)] eff(6) that by (cases res) auto
      have sound1: "sound R (set_runner k r' g)" if "res = Inl e1" for e1
      proof (cases "rn_done r'")
        case True
        note ch = changed_runner[OF Cons.prems(1) act, of r']
        show ?thesis
          unfolding sound_def by (rule no_waiting_sound)
            (use True quiet eff(6) that soundD(3,4,6)[OF Cons.prems(2)] in \<open>auto simp: ch split: if_splits\<close>)
      next
        case not_done: False
        show ?thesis
          by (rule progress_sound[OF Cons.prems(1,2) r(1) False not_done _ eff(4)])
            (use eff(2,6) that in auto)
      qed
      show ?thesis
      proof (cases res)
        case (Inl e1)
        have g': "g' = (set_runner k r' g)\<lparr>gr_last := Some k\<rparr>" "e = Some e1"
          using Cons.prems(3) r step Inl by auto
        show ?thesis
          using core1 sound1[OF Inl] load1 eff(6) Inl r(1) unfolding g'
          by (auto simp: core_same sound_same ended_def)
      next
        case (Inr b)
        let ?g1 = "(set_runner k r' g)\<lparr>gr_last := Some k\<rparr>"
        let ?g2 = "if b then drop_node k ?g1 else ?g1"
        have run: "running_loop now ks ?g2 = (g', e)" using Cons.prems(3) r step Inr by (simp add: Let_def)
        have "sound R (if b then drop_node k (set_runner k r' g) else set_runner k r' g)"
          using finish_sound[OF Cons.prems(1,2) r(1) False _ eff(4)] quiet eff(6) Inr eff(2)
            progress_sound[OF Cons.prems(1,2) r(1) False _ _ eff(4)] by auto
        then have s2: "sound R ?g2" by (auto simp: sound_same drop_last)
        have c2: "core R ?g2" using core1 by (simp add: core_same)
        have f2: "frame g ?g2" "load ?g2 < load g" using r(1) load1 by simp_all
        have "clean g \<Longrightarrow> clean ?g2"
          using eff(4,6) Inr r(1) unfolding clean_def by auto
        then show ?thesis
          using Cons.IH[OF c2 s2 run] frame_trans[OF f2(1)] f2(2) by (auto split: option.splits)
      qed
    qed
  qed
qed

section \<open>Cancelling keeps the invariant\<close>

lemma core_runner_ended: "core R g \<Longrightarrow> runner_of g k = Some r \<Longrightarrow> (k, j) \<in> R \<Longrightarrow> \<not> ok g j \<Longrightarrow> \<not> started r \<and> \<not> succeeded r"
  using coreD[of R g k r] by (auto simp: runner_ok_def succeeded_def)

text \<open>Cancelling one task.\<close>

lemma cancel_one:
  assumes "core R g" "runner_of g k = Some r" "runner_cancel now grace r = (e, r')"
  shows "core R (set_runner k r' g)" "load (set_runner k r' g) \<le> load g"
    "ok (set_runner k r' g) = ok g"
    "active (set_runner k r' g) a \<Longrightarrow> active g a" "waiting (set_runner k r' g) a \<Longrightarrow> waiting g a"
    "grace = None \<Longrightarrow> \<not> active (set_runner k r' g) k" "\<not> waiting (set_runner k r' g) k"
    "grace \<noteq> None \<Longrightarrow> e = None" "ended r \<Longrightarrow> e = None"
    "active g k \<Longrightarrow> grace = None \<or> waiting g k \<Longrightarrow> load (set_runner k r' g) < load g"
proof -
  note okr = coreD[OF assms(1,2)]
  have "core R (set_runner k r' g) \<and> load (set_runner k r' g) \<le> load g \<and>
    ok (set_runner k r' g) = ok g \<and>
    (\<forall>a. active (set_runner k r' g) a \<longrightarrow> active g a) \<and> (\<forall>a. waiting (set_runner k r' g) a \<longrightarrow> waiting g a) \<and>
    (grace = None \<longrightarrow> \<not> active (set_runner k r' g) k) \<and> \<not> waiting (set_runner k r' g) k \<and>
    (grace \<noteq> None \<longrightarrow> e = None) \<and> (ended r \<longrightarrow> e = None) \<and>
    (active g k \<and> (grace = None \<or> waiting g k) \<longrightarrow> load (set_runner k r' g) < load g)"
  proof (cases "rn_done r")
    case True
    then have same: "e = None" "r' = r" using assms(3) by (auto simp: runner_cancel_def)
    have r: "runner_of (set_runner k r g) = runner_of g" using assms(2) by (simp add: fun_eq_iff)
    have "core R (set_runner k r g)" by (rule core_set_runner[OF assms(1,2) okr(1)]) (use okr(2) in auto)
    then show ?thesis
      using load_set_runner[OF assms(1,2), of r] True assms(2)
      unfolding same state_same[OF r] by (auto simp: active_def waiting_def)
  next
    case False
    then have act: "active g k" using assms(2) by (auto simp: active_def)
    note eff = runner_cancel_effect[OF okr(1) False assms(3)]
    note ch = changed_runner[OF assms(1) act, of r']
    have "core R (set_runner k r' g)"
      by (rule core_set_runner[OF assms(1,2) eff(1)])
        (use okr(1) False okr(2) starting_log(2)[OF assms(3)] in \<open>auto simp: runner_ok_def succeeded_def\<close>)
    moreover have "load (set_runner k r' g) \<le> load g" "rn_done r' \<Longrightarrow> load (set_runner k r' g) < load g"
      using load_set_runner[OF assms(1,2), of r'] eff(9) work_pos[OF False] by (auto simp: work_def)
    moreover have "waiting g k \<longleftrightarrow> \<not> started r" using assms(2) False by (auto simp: waiting_def)
    moreover have "ok (set_runner k r' g) = ok g" using eff(3) by (auto simp: ch fun_eq_iff)
    ultimately show ?thesis
      using act eff(4-8) False by (cases grace) (auto simp: ch ended_def split: if_splits)
  qed
  then show "core R (set_runner k r' g)" "load (set_runner k r' g) \<le> load g" "ok (set_runner k r' g) = ok g"
    "active (set_runner k r' g) a \<Longrightarrow> active g a" "waiting (set_runner k r' g) a \<Longrightarrow> waiting g a"
    "grace = None \<Longrightarrow> \<not> active (set_runner k r' g) k" "\<not> waiting (set_runner k r' g) k"
    "grace \<noteq> None \<Longrightarrow> e = None" "ended r \<Longrightarrow> e = None"
    "active g k \<Longrightarrow> grace = None \<or> waiting g k \<Longrightarrow> load (set_runner k r' g) < load g"
    by blast+
qed

text \<open>What any cancellation of the group may do.\<close>

definition cancels :: "('k \<times> 'k) set \<Rightarrow> 'k group \<Rightarrow> 'k group \<Rightarrow> bool" where
  "cancels R g g' \<longleftrightarrow> core R g' \<and> frame g g' \<and> load g' \<le> load g \<and> ok g' = ok g \<and>
     (\<forall>a. active g' a \<longrightarrow> active g a) \<and> (\<forall>a. waiting g' a \<longrightarrow> waiting g a)"

lemma cancels_refl: "core R g \<Longrightarrow> cancels R g g"
  by (simp add: cancels_def)

lemma cancels_trans: "cancels R g g' \<Longrightarrow> cancels R g' g'' \<Longrightarrow> cancels R g g''"
  unfolding cancels_def using frame_trans by fastforce

lemma cancels_one:
  "core R g \<Longrightarrow> runner_of g k = Some r \<Longrightarrow> runner_cancel now grace r = (e, r') \<Longrightarrow> cancels R g (set_runner k r' g)"
  unfolding cancels_def using cancel_one by (metis frame_set(1))

lemma cancels_graph [simp]:
  "cancels R g (h\<lparr>gr_graph := gr\<rparr>) = cancels R g h" "cancels R g (drop_node k h) = cancels R g h"
  by (simp_all add: cancels_def core_same active_def waiting_def ok_def fun_eq_iff)

lemma cancel_all_spec:
  assumes "core R g" "cancel_all later grace ks g = (g', e)"
  shows "cancels R g g'" "gr_graph g' = gr_graph g"
    "e = None \<Longrightarrow> k \<in> set ks \<Longrightarrow> (grace = None \<longrightarrow> \<not> active g' k) \<and> \<not> waiting g' k"
    "grace \<noteq> None \<Longrightarrow> e = None"
    "e = None \<Longrightarrow> k \<in> set ks \<Longrightarrow> active g k \<Longrightarrow> grace = None \<or> waiting g k \<Longrightarrow> load g' < load g"
proof -
  have "cancels R g g' \<and> gr_graph g' = gr_graph g \<and>
    (e = None \<longrightarrow> (\<forall>k \<in> set ks. (grace = None \<longrightarrow> \<not> active g' k) \<and> \<not> waiting g' k)) \<and>
    (grace \<noteq> None \<longrightarrow> e = None) \<and>
    (e = None \<longrightarrow> (\<forall>k \<in> set ks. active g k \<longrightarrow> grace = None \<or> waiting g k \<longrightarrow> load g' < load g))"
    using assms
  proof (induction ks arbitrary: g)
    case Nil
    then show ?case by (simp add: cancels_refl)
  next
    case (Cons k ks)
    show ?case
    proof (cases "runner_of g k")
      case None
      then have no: "\<not> active g k" "\<not> waiting g k" by (simp_all add: active_def waiting_def)
      have "cancel_all later grace ks g = (g', e)" using None Cons.prems(2) by simp
      from Cons.IH[OF Cons.prems(1) this] show ?thesis using no by (auto simp: cancels_def)
    next
      case (Some r)
      obtain e1 r1 where c: "runner_cancel (later k) grace r = (e1, r1)" by (cases "runner_cancel (later k) grace r")
      note one = cancel_one[OF Cons.prems(1) Some c] and c1 = cancels_one[OF Cons.prems(1) Some c]
      show ?thesis
      proof (cases e1)
        case None
        then have "cancel_all later grace ks (set_runner k r1 g) = (g', e)" using Cons.prems(2) Some c by simp
        note IH = Cons.IH[OF one(1) this]
        have rest: "load g' < load g" if "e = None" "j \<in> set ks" "active g j" "grace = None \<or> waiting g j" for j
        proof (cases "j = k")
          case True
          then show ?thesis using one(10) that IH by (auto simp: cancels_def)
        next
          case False
          then have "active (set_runner k r1 g) j" "waiting (set_runner k r1 g) j = waiting g j"
            using that(3) by (auto simp: active_def waiting_def)
          then show ?thesis using IH that one(2) by fastforce
        qed
        have "load g' < load g" if "active g k" "grace = None \<or> waiting g k"
          using one(10)[OF that] IH by (auto simp: cancels_def)
        moreover have "(grace = None \<longrightarrow> \<not> active g' k) \<and> \<not> waiting g' k"
          using one(6,7) IH by (auto simp: cancels_def)
        moreover have "cancels R g g'" by (rule cancels_trans[OF c1 conjunct1[OF IH]])
        ultimately show ?thesis using IH rest by auto
      next
        case e: (Some x)
        then have "g' = set_runner k r1 g" "e = Some x" using Cons.prems(2) Some c by auto
        moreover have "grace = None" using one(8) e by (cases grace) auto
        ultimately show ?thesis using c1 by simp
      qed
    qed
  qed
  then show "cancels R g g'" "gr_graph g' = gr_graph g"
    "e = None \<Longrightarrow> k \<in> set ks \<Longrightarrow> (grace = None \<longrightarrow> \<not> active g' k) \<and> \<not> waiting g' k"
    "grace \<noteq> None \<Longrightarrow> e = None"
    "e = None \<Longrightarrow> k \<in> set ks \<Longrightarrow> active g k \<Longrightarrow> grace = None \<or> waiting g k \<Longrightarrow> load g' < load g"
    by blast+
qed

subsection \<open>Cancelling what depends on a task\<close>

lemma cancel_keeps_timeout: "runner_cancel now None r = (e, r') \<Longrightarrow> rn_timeout r' = rn_timeout r"
  by (auto simp: runner_cancel_def log_event_def split: if_splits runner_state.splits prod.splits)

lemma each_cancels:
  assumes "\<And>k g g' e. core R g \<Longrightarrow> f k g = (g', e) \<Longrightarrow> cancels R g g'"
    and "core R g" "cancel_each f ks g = (g', e)"
  shows "cancels R g g'"
  using assms(2,3)
proof (induction ks arbitrary: g)
  case Nil
  then show ?case by (simp add: cancels_refl)
next
  case (Cons k ks)
  obtain g1 e1 where f: "f k g = (g1, e1)" by (cases "f k g")
  note c = assms(1)[OF Cons.prems(1) f]
  show ?case
  proof (cases e1)
    case None
    have "core R g1" using c by (simp add: cancels_def)
    from Cons.IH[OF this] have "cancels R g1 g'" using Cons.prems(2) f None by simp
    then show ?thesis by (rule cancels_trans[OF c])
  next
    case (Some x)
    then show ?thesis using Cons.prems(2) f c by simp
  qed
qed

text \<open>The states in one call of \<open>_cancel_recursively\<close>.\<close>

lemma cancel_rec_cases:
  assumes "cancel_recursively (Suc n) later k g = (g', e)" "runner_of g k = Some r"
  obtains (closed) e1 r1 where "runner_cancel (later k) None r = (Some e1, r1)" "g' = set_runner k r1 g" "e = Some e1"
  | (failed) r1 g2 e3 where "runner_cancel (later k) None r = (None, r1)"
      "g2 = (set_runner k r1 g)\<lparr>gr_graph := update_node id k (gr_graph g)\<rparr>"
      "cancel_each (cancel_recursively n later) (nd_satisfy (node_of (gr_graph g) k)) g2 = (g', Some e3)" "e = Some e3"
  | (deleted) r1 g2 g3 where "runner_cancel (later k) None r = (None, r1)"
      "g2 = (set_runner k r1 g)\<lparr>gr_graph := update_node id k (gr_graph g)\<rparr>"
      "cancel_each (cancel_recursively n later) (nd_satisfy (node_of (gr_graph g) k)) g2 = (g3, None)"
      "g' = drop_node k g3" "e = None"
proof -
  obtain e1 r1 where c: "runner_cancel (later k) None r = (e1, r1)" by (cases "runner_cancel (later k) None r")
  let ?g2 = "(set_runner k r1 g)\<lparr>gr_graph := update_node id k (gr_graph g)\<rparr>"
  obtain g3 e3 where each:
    "cancel_each (cancel_recursively n later) (nd_satisfy (node_of (gr_graph g) k)) ?g2 = (g3, e3)"
    by (cases "cancel_each (cancel_recursively n later) (nd_satisfy (node_of (gr_graph g) k)) ?g2")
  have node: "node_of (update_node id k (gr_graph g)) k = node_of (gr_graph g) k"
    by (simp add: node_of_update_node)
  show thesis
  proof (cases e1)
    case None
    show ?thesis
    proof (cases e3)
      case e3: None
      then show ?thesis using assms c None each node by (intro deleted[of r1 ?g2 g3]) (auto simp: Let_def)
    next
      case (Some x)
      then show ?thesis using assms c None each node by (intro failed[of r1 ?g2 x]) (auto simp: Let_def)
    qed
  next
    case (Some x)
    then show ?thesis using assms c by (intro closed[of x r1]) auto
  qed
qed

lemma cancel_rec_cancels:
  "core R g \<Longrightarrow> cancel_recursively n later k g = (g', e) \<Longrightarrow> cancels R g g'"
proof (induction n arbitrary: k g g' e)
  case 0
  then show ?case by (simp add: cancels_refl)
next
  case (Suc n)
  show ?case
  proof (cases "runner_of g k")
    case None
    then show ?thesis using Suc.prems by (simp add: cancels_refl)
  next
    case (Some r)
    from Suc.prems(2) Some show ?thesis
    proof (cases rule: cancel_rec_cases)
      case (closed e1 r1)
      then show ?thesis using cancels_one[OF Suc.prems(1) Some closed(1)] by simp
    next
      case (failed r1 g2 e3)
      have c: "cancels R g g2" using cancels_one[OF Suc.prems(1) Some failed(1)] failed(2) by simp
      then have "core R g2" by (simp add: cancels_def)
      from each_cancels[OF Suc.IH this failed(3)] show ?thesis by (rule cancels_trans[OF c])
    next
      case (deleted r1 g2 g3)
      have c: "cancels R g g2" using cancels_one[OF Suc.prems(1) Some deleted(1)] deleted(2) by simp
      then have "core R g2" by (simp add: cancels_def)
      from each_cancels[OF Suc.IH this deleted(3)] have "cancels R g2 g3" .
      then show ?thesis using cancels_trans[OF c] deleted(4) by simp
    qed
  qed
qed

lemma touched_sound:
  "sound_but R S g \<Longrightarrow> sound_but R S (g\<lparr>gr_graph := update_node id k (gr_graph g)\<rparr>)"
proof -
  have "requires (update_node id k gr) j = requires gr j" "required_by (update_node id k gr) j = required_by gr j"
    for gr :: "'a graph" and j
    by (simp_all add: requires_def required_by_def node_of_update_node)
  then show "sound_but R S g \<Longrightarrow> sound_but R S (g\<lparr>gr_graph := update_node id k (gr_graph g)\<rparr>)"
    unfolding sound_but_def active_def waiting_def ok_def runner_of_same by simp
qed

lemma cancelled_sound_but:
  assumes "core R g" "sound_but R S g" "runner_of g k = Some r" "runner_cancel now None r = (e, r')"
  shows "sound_but R (insert k S) (set_runner k r' g)"
proof -
  note one = cancel_one[OF assms(1,3,4)] and D = sound_butD[OF assms(2)]
  have act: "active (set_runner k r' g) j \<longleftrightarrow> active g j \<and> j \<noteq> k" for j
    using one(6) by (auto simp: active_def split: if_splits)
  have timeout: "runner_of (set_runner k r' g) j = Some s \<Longrightarrow> \<exists>s'. runner_of g j = Some s' \<and> rn_timeout s = rn_timeout s'"
    for j s using assms(3) cancel_keeps_timeout[OF assms(4)] by (auto split: if_splits)
  show ?thesis
    unfolding sound_but_def one(3) act set_runner_simps
  proof (intro conjI allI impI)
    fix a j
    assume "waiting (set_runner k r' g) a"
    note w = one(5)[OF this]
    show "requires (gr_graph g) a = {j. (a, j) \<in> R \<and> \<not> ok g j}" by (rule D(1)[OF w])
    show "ok g j \<or> active g j \<and> j \<noteq> k \<or> j \<in> insert k S" if "(a, j) \<in> R" using D(2)[OF w that] by auto
  next
    fix j s
    assume "\<exists>a. waiting (set_runner k r' g) a" "runner_of (set_runner k r' g) j = Some s"
    then show "rn_timeout s = None" using one(5) timeout D(5) by metis
  qed (use D(3,4,6) in blast)+
qed

lemma each_sound:
  assumes f: "\<And>d g g'. d \<in> set ds \<Longrightarrow> core R g \<Longrightarrow> sound_but R S g \<Longrightarrow> f d g = (g', None) \<Longrightarrow>
      cancels R g g' \<and> sound_but R S g' \<and> \<not> active g' d"
    and "core R g" "sound_but R S g" "cancel_each f ds g = (g', None)"
  shows "cancels R g g' \<and> sound_but R S g' \<and> (\<forall>d \<in> set ds. \<not> active g' d)"
  using assms
proof (induction ds arbitrary: g)
  case Nil
  then show ?case by (simp add: cancels_refl)
next
  case (Cons d ds)
  obtain g1 where g1: "f d g = (g1, None)" "cancel_each f ds g1 = (g', None)"
    using Cons.prems(4) by (auto split: prod.splits option.splits)
  have one: "cancels R g g1 \<and> sound_but R S g1 \<and> \<not> active g1 d"
    using Cons.prems(1)[OF _ Cons.prems(2,3) g1(1)] by simp
  then have "core R g1" by (simp add: cancels_def)
  have rest: "cancels R g1 g' \<and> sound_but R S g' \<and> (\<forall>d \<in> set ds. \<not> active g' d)"
    by (rule Cons.IH[OF _ \<open>core R g1\<close> _ g1(2)]) (use Cons.prems(1) one in auto)
  then have "\<not> active g' d" using one by (auto simp: cancels_def)
  then show ?case using rest one cancels_trans by fastforce
qed

lemma cancel_rec_sound:
  "core R g \<Longrightarrow> sound_but R S g \<Longrightarrow> \<forall>s \<in> S. (k, s) \<in> R\<^sup>+ \<Longrightarrow> cancel_recursively n later k g = (g', None) \<Longrightarrow>
     sound_but R S g' \<and> \<not> active g' k"
proof (induction n arbitrary: k g g' S)
  case 0
  then show ?case by simp
next
  case (Suc n)
  obtain r where r: "runner_of g k = Some r" using Suc.prems(4) by (cases "runner_of g k") auto
  have acyclic: "(k, k) \<notin> R\<^sup>+" using Suc.prems(1) by (simp add: core_def acyclic_def)
  from Suc.prems(4) r show ?case
  proof (cases rule: cancel_rec_cases)
    case (deleted r1 g2 g3)
    let ?ds = "nd_satisfy (node_of (gr_graph g) k)"
    have ds: "set ?ds \<subseteq> {a. (a, k) \<in> R}"
      using sound_butD(6)[OF Suc.prems(2)] by (simp add: required_by_def)
    have c2: "cancels R g g2" using cancels_one[OF Suc.prems(1) r deleted(1)] deleted(2) by simp
    then have core2: "core R g2" by (simp add: cancels_def)
    have s2: "sound_but R (insert k S) g2"
      using touched_sound[OF cancelled_sound_but[OF Suc.prems(1,2) r deleted(1)], of k] deleted(2) by simp
    have no2: "\<not> active g2 k"
      using cancel_one(6)[OF Suc.prems(1) r deleted(1)] deleted(2) by (simp add: active_def)
    have each: "cancels R g2 g3 \<and> sound_but R (insert k S) g3 \<and> (\<forall>d \<in> set ?ds. \<not> active g3 d)"
    proof (rule each_sound[OF _ core2 s2 deleted(3)])
      fix d g g' assume d: "d \<in> set ?ds" "core R g" "sound_but R (insert k S) g"
        "cancel_recursively n later d g = (g', None)"
      have "(d, k) \<in> R" using d(1) ds by blast
      then have "\<forall>s \<in> insert k S. (d, s) \<in> R\<^sup>+" using Suc.prems(3) by (auto intro: trancl_into_trancl2)
      from Suc.IH[OF d(2,3) this d(4)] show "cancels R g g' \<and> sound_but R (insert k S) g' \<and> \<not> active g' d"
        using cancel_rec_cancels[OF d(2,4)] by blast
    qed
    have c3: "cancels R g g3" using cancels_trans[OF c2] each by blast
    have dependents: "ok g3 k" if "waiting g3 a" "(a, k) \<in> R" for a
    proof (cases "active g k")
      case True
      then have "a \<in> set ?ds" using sound_butD(4)[OF Suc.prems(2)] that(2) by (simp add: required_by_def)
      then show ?thesis using each waiting_active[OF that(1)] by blast
    next
      case False
      have "waiting g a" using c3 that(1) by (simp add: cancels_def)
      from sound_butD(2)[OF Suc.prems(2) this that(2)] False have "ok g k"
        using Suc.prems(3) acyclic by blast
      then show ?thesis using c3 by (simp add: cancels_def)
    qed
    have "sound_but R S g3"
      unfolding sound_but_def
    proof (intro conjI allI impI)
      note D = sound_butD[OF conjunct1[OF conjunct2[OF each]]]
      fix a j assume a: "waiting g3 a"
      show "requires (gr_graph g3) a = {j. (a, j) \<in> R \<and> \<not> ok g3 j}" by (rule D(1)[OF a])
      show "ok g3 j \<or> active g3 j \<or> j \<in> S" if "(a, j) \<in> R"
        using D(2)[OF a that] dependents[OF a] that by (cases "j = k") auto
    next
      fix j s assume "\<exists>a. waiting g3 a" "runner_of g3 j = Some s"
      then show "rn_timeout s = None" using each unfolding sound_but_def by blast
    qed (use sound_butD(3,4,6)[OF conjunct1[OF conjunct2[OF each]]] in blast)+
    moreover have "\<not> active g3 k" using each no2 by (auto simp: cancels_def)
    ultimately have "sound_but R S (drop_node k g3) \<and> \<not> active g3 k"
      using drop_done_sound_but[of R S g3 k] dependents by simp
    then show ?thesis using deleted(4) by (simp add: active_def)
  qed simp_all
qed

text \<open>The recursion needs no more depth than there are tasks above the failed one, and closing them
  raises nothing, since they were not started.\<close>

lemma each_no_exception:
  assumes "\<And>d g. d \<in> set ds \<Longrightarrow> P g \<Longrightarrow> \<exists>g'. f d g = (g', None) \<and> P g'" and "P g"
  shows "\<exists>g'. cancel_each f ds g = (g', None) \<and> P g'"
  using assms
proof (induction ds arbitrary: g)
  case (Cons d ds)
  obtain g1 where "f d g = (g1, None)" "P g1" using Cons.prems by (meson list.set_intros(1))
  moreover obtain g' where "cancel_each f ds g1 = (g', None)" "P g'"
    using Cons.IH[of g1] Cons.prems(1) \<open>P g1\<close> by auto
  ultimately show ?case by simp
qed simp

definition graph_within :: "('k \<times> 'k) set \<Rightarrow> 'k group \<Rightarrow> bool" where
  "graph_within R g \<longleftrightarrow> core R g \<and> (\<forall>j. required_by (gr_graph g) j \<subseteq> {a. (a, j) \<in> R})"

lemma cancel_rec_no_exception:
  "graph_within R g \<Longrightarrow> runner_of g k = Some r \<Longrightarrow> ended r \<Longrightarrow> \<not> ok g k \<Longrightarrow> card {a. (a, k) \<in> R\<^sup>+} < n \<Longrightarrow>
     \<exists>g'. cancel_recursively n later k g = (g', None) \<and> graph_within R g' \<and> cancels R g g' \<and>
       (\<forall>a. (a, k) \<notin> R\<^sup>* \<longrightarrow> runner_of g' a = runner_of g a)"
proof (induction n arbitrary: k g r)
  case 0
  then show ?case by simp
next
  case (Suc n)
  have core: "core R g" using Suc.prems(1) by (simp add: graph_within_def)
  then have R: "R \<subseteq> set (gr_keys g) \<times> set (gr_keys g)" "acyclic R" by (auto simp: core_def)
  obtain e1 r1 where c: "runner_cancel (later k) None r = (e1, r1)" by (cases "runner_cancel (later k) None r")
  note one = cancel_one[OF core Suc.prems(2) c]
  let ?ds = "nd_satisfy (node_of (gr_graph g) k)"
  let ?g2 = "(set_runner k r1 g)\<lparr>gr_graph := update_node id k (gr_graph g)\<rparr>"
  have c2: "cancels R g ?g2" using cancels_one[OF core Suc.prems(2) c] by simp
  have ds: "set ?ds \<subseteq> {a. (a, k) \<in> R}" using Suc.prems(1) by (auto simp: graph_within_def required_by_def)
  have within2: "graph_within R ?g2"
    using one(1) Suc.prems(1) by (simp add: graph_within_def core_same required_by_def node_of_update_node)
  let ?same = "\<lambda>h. \<forall>a. (a, k) \<notin> R\<^sup>* \<longrightarrow> runner_of h a = runner_of g a"
  let ?P = "\<lambda>h. (graph_within R h \<and> cancels R ?g2 h) \<and> ?same h"
  have "\<exists>g3. cancel_each (cancel_recursively n later) ?ds ?g2 = (g3, None) \<and> ?P g3"
  proof (rule each_no_exception)
    fix d h assume d: "d \<in> set ?ds" and h: "?P h"
    have dk: "(d, k) \<in> R" using d ds by blast
    have "core R h" using h by (simp add: graph_within_def)
    have "\<not> ok h k" using h c2 Suc.prems(4) by (simp add: cancels_def)
    have "d \<in> set (gr_keys h)" using dk R(1) h c2 by (auto simp: cancels_def frame_def)
    then obtain rd where rd: "runner_of h d = Some rd" using runner_of_keys[OF \<open>core R h\<close>] by blast
    have idle: "ended rd" "\<not> ok h d"
      using core_runner_ended[OF \<open>core R h\<close> rd dk \<open>\<not> ok h k\<close>] rd by (auto simp: ended_def ok_def)
    have "card {a. (a, d) \<in> R\<^sup>+} < card {a. (a, k) \<in> R\<^sup>+}"
    proof (rule psubset_card_mono)
      have "R\<^sup>+ \<subseteq> set (gr_keys g) \<times> set (gr_keys g)" by (rule trancl_subset_Sigma[OF R(1)])
      then have "{a. (a, k) \<in> R\<^sup>+} \<subseteq> set (gr_keys g)" by blast
      then show "finite {a. (a, k) \<in> R\<^sup>+}" by (rule finite_subset) simp
      have "d \<in> {a. (a, k) \<in> R\<^sup>+}" "d \<notin> {a. (a, d) \<in> R\<^sup>+}" using dk R(2) by (auto simp: acyclic_def)
      moreover have "{a. (a, d) \<in> R\<^sup>+} \<subseteq> {a. (a, k) \<in> R\<^sup>+}" using dk by (auto intro: trancl_into_trancl)
      ultimately show "{a. (a, d) \<in> R\<^sup>+} \<subset> {a. (a, k) \<in> R\<^sup>+}" by blast
    qed
    then have "card {a. (a, d) \<in> R\<^sup>+} < n" using Suc.prems(5) by simp
    from Suc.IH[OF _ rd idle this] obtain h' where h':
      "cancel_recursively n later d h = (h', None)" "graph_within R h'" "cancels R h h'"
      "\<forall>a. (a, d) \<notin> R\<^sup>* \<longrightarrow> runner_of h' a = runner_of h a" using h by blast
    have "?same h'" using h h'(4) dk by (metis rtrancl.rtrancl_into_rtrancl)
    then show "\<exists>h'. cancel_recursively n later d h = (h', None) \<and> ?P h'"
      using h h'(1-3) cancels_trans[of R ?g2 h h'] by blast
  next
    have "?same ?g2" by auto
    then show "?P ?g2"
      using within2 cancels_refl[OF conjunct1[OF within2[unfolded graph_within_def]]] by blast
  qed
  then obtain g3 where g3: "cancel_each (cancel_recursively n later) ?ds ?g2 = (g3, None)"
    "graph_within R g3" "cancels R ?g2 g3" "?same g3" by blast
  have run: "cancel_recursively (Suc n) later k g = (drop_node k g3, None)"
    using Suc.prems(2) c one(9)[OF Suc.prems(3)] g3(1) by (simp add: Let_def node_of_update_node)
  have "graph_within R (drop_node k g3)"
    using g3(2) by (simp add: graph_within_def core_same) (simp add: drop_node_def required_by_del_node)
  then show ?case using run cancels_trans[OF c2 g3(3)] g3(4) by auto
qed

text \<open>What depends on a task that is done without success is not active.\<close>

lemma dependents_inactive:
  assumes "core R g" "sound R g" "\<not> active g k" "\<not> ok g k" "(a, k) \<in> R\<^sup>*"
  shows "\<not> active g a \<and> \<not> ok g a"
  using assms(5)
proof (induction rule: converse_rtrancl_induct)
  case base
  then show ?case using assms(3,4) by simp
next
  case (step a b)
  have idle: "runner_of g a = Some r \<Longrightarrow> \<not> started r \<and> \<not> succeeded r" for r
    using core_runner_ended[OF assms(1) _ step.hyps(1)] step.IH by blast
  then have "active g a \<Longrightarrow> waiting g a" by (auto simp: active_def waiting_def)
  then have "\<not> active g a" using soundD(2)[OF assms(2) _ step.hyps(1)] step.IH by blast
  then show ?case using idle by (auto simp: ok_def)
qed

section \<open>The invariant of the coroutine\<close>

definition group_inv :: "('k \<times> 'k) set \<Rightarrow> 'k group \<Rightarrow> bool" where
  "group_inv R g \<longleftrightarrow> core R g \<and>
     ((\<forall>out. gr_pc g \<noteq> Finished out) \<longrightarrow> sound R g) \<and>
     (gr_raised g = [] \<and> (\<forall>e. gr_pc g \<noteq> Finished (Some e)) \<longrightarrow> clean g) \<and>
     (gr_pc g = Finished None \<longrightarrow> gr_raised g = [] \<and> (\<forall>k. \<not> active g k))"

lemma handle_cases:
  obtains (base) g' out where "\<not> is_exception e" "handle later e g = g'\<lparr>gr_pc := Finished (Some out)\<rparr>"
      "\<exists>x. cancel_all later None (map fst (gr_runners g)) g = (g', x)"
  | (unbound) out where "handle later e g = g\<lparr>gr_pc := Finished (Some out)\<rparr>" "gr_last g = None" "gr_aggregate g"
  | (broken) g' out where "is_exception e" "handle later e g = g'\<lparr>gr_pc := Finished (Some out)\<rparr>"
      "(\<exists>k. gr_last g = Some k \<and> cancel_recursively (length (gr_keys g)) later k g = (g', Some out)) \<or>
       cancel_all later (gr_error_wait g) (map fst (gr_runners g)) g = (g', Some out)"
  | (aggregate) g' k where "is_exception e" "gr_aggregate g" "gr_last g = Some k"
      "cancel_recursively (length (gr_keys g)) later k g = (g', None)"
      "handle later e g = g'\<lparr>gr_raised := gr_raised g @ [e], gr_pc := LoopHead\<rparr>"
  | (all) g' where "is_exception e" "\<not> gr_aggregate g"
      "cancel_all later (gr_error_wait g) (map fst (gr_runners g)) g = (g', None)"
      "handle later e g = g'\<lparr>gr_raised := gr_raised g @ [e], gr_pc := LoopHead\<rparr>"
proof (cases "is_exception e")
  case False
  obtain g' x where "cancel_all later None (map fst (gr_runners g)) g = (g', x)"
    by (cases "cancel_all later None (map fst (gr_runners g)) g")
  then show thesis using False by (cases x) (auto intro!: base simp: handle_def)
next
  case True
  show thesis
  proof (cases "gr_aggregate g")
    case False
    obtain g' x where "cancel_all later (gr_error_wait g) (map fst (gr_runners g)) g = (g', x)"
      by (cases "cancel_all later (gr_error_wait g) (map fst (gr_runners g)) g")
    then show thesis using True False by (cases x) (auto intro: all broken simp: handle_def)
  next
    case agg: True
    show thesis
    proof (cases "gr_last g")
      case None
      then show thesis using True agg by (intro unbound[of UnboundLocalErr]) (auto simp: handle_def)
    next
      case (Some k)
      obtain g' x where "cancel_recursively (length (gr_keys g)) later k g = (g', x)"
        by (cases "cancel_recursively (length (gr_keys g)) later k g")
      then show thesis using True agg Some by (cases x) (auto intro: aggregate broken simp: handle_def)
    qed
  qed
qed

lemma not_active_outside: "core R g \<Longrightarrow> active g k \<Longrightarrow> k \<in> set (map fst (gr_runners g))"
  by (force simp: active_def runner_of_def dest: map_of_SomeD)

lemma handle_inv:
  assumes "core R g" "sound R g"
  shows "group_inv R (handle later e g)"
    "gr_pc (handle later e g) = LoopHead \<or> (\<exists>out. gr_pc (handle later e g) = Finished (Some out))"
    "load (handle later e g) \<le> load g"
proof -
  have finished: "group_inv R (g'\<lparr>gr_pc := Finished (Some out)\<rparr>)" if "cancels R g g'" for g' out
    using that by (simp add: group_inv_def cancels_def core_same)
  have loop: "group_inv R (g'\<lparr>gr_raised := gr_raised g @ [e], gr_pc := LoopHead\<rparr>)"
    if "cancels R g g'" "sound R g'" for g'
    using that by (simp add: group_inv_def cancels_def core_same sound_same)
  have "group_inv R (handle later e g) \<and>
    (gr_pc (handle later e g) = LoopHead \<or> (\<exists>out. gr_pc (handle later e g) = Finished (Some out))) \<and>
    load (handle later e g) \<le> load g"
  proof (cases e later g rule: handle_cases)
    case (base g' out)
    then have "cancels R g g'" using cancel_all_spec(1)[OF assms(1)] by blast
    then show ?thesis using finished base(2) by (simp add: cancels_def)
  next
    case (unbound out)
    then show ?thesis using finished[OF cancels_refl[OF assms(1)]] by simp
  next
    case (broken g' out)
    then have "cancels R g g'" using cancel_all_spec(1)[OF assms(1)] cancel_rec_cancels[OF assms(1)] by blast
    then show ?thesis using finished broken(2) by (simp add: cancels_def)
  next
    case (aggregate g' k)
    have c: "cancels R g g'" by (rule cancel_rec_cancels[OF assms(1) aggregate(4)])
    have "sound R g'"
      using cancel_rec_sound[OF assms(1) _ _ aggregate(4), of "{}"] assms(2) by (simp add: sound_def)
    then show ?thesis using loop[OF c] aggregate(5) c by (simp add: cancels_def)
  next
    case (all g')
    note spec = cancel_all_spec[OF assms(1) all(3)]
    have graph: "a \<in> keys (gr_graph g') \<and> required_by (gr_graph g') a = {b. (b, a) \<in> R}" if "active g' a" for a
      using spec(1,2) that soundD(3,4)[OF assms(2)] by (simp add: cancels_def)
    have quiet: "\<not> waiting g' a" for a
    proof
      assume "waiting g' a"
      then have "active g a" using spec(1) waiting_active by (fastforce simp: cancels_def)
      then have "a \<in> set (map fst (gr_runners g))" by (rule not_active_outside[OF assms(1)])
      then show False using spec(3)[of a] \<open>waiting g' a\<close> by simp
    qed
    have "sound R g'"
      unfolding sound_def by (rule no_waiting_sound[OF quiet graph]) (simp_all add: spec(2) soundD(6)[OF assms(2)])
    then show ?thesis using loop[OF spec(1)] all(4) spec(1) by (simp add: cancels_def)
  qed
  then show "group_inv R (handle later e g)"
    "gr_pc (handle later e g) = LoopHead \<or> (\<exists>out. gr_pc (handle later e g) = Finished (Some out))"
    "load (handle later e g) \<le> load g" by blast+
qed

lemma handle_waiting:
  assumes "core R g" "sound R g" "gr_last g = Some k" "waiting g k" "gr_pc (handle later e g) = LoopHead"
  shows "load (handle later e g) < load g"
proof (cases e later g rule: handle_cases)
  case (aggregate g' k')
  then have k: "k' = k" using assms(3) by simp
  have c: "cancels R g g'" by (rule cancel_rec_cancels[OF assms(1) aggregate(4)])
  obtain m where m: "length (gr_keys g) = Suc m" using aggregate(4) by (cases "length (gr_keys g)") auto
  obtain r where r: "runner_of g k = Some r" using assms(4) by (auto simp: waiting_def)
  have "load g' < load g"
    using aggregate(4)[unfolded k m] r
  proof (cases rule: cancel_rec_cases)
    case (deleted r1 g2 g3)
    note one = cancel_one[OF assms(1) r deleted(1)]
    have "load g2 < load g" using one(10) waiting_active[OF assms(4)] deleted(2) by simp
    moreover have "core R g2" using one(1) deleted(2) by (simp add: core_same)
    from each_cancels[OF cancel_rec_cancels this deleted(3)] have "cancels R g2 g3" .
    ultimately show ?thesis using deleted(4) by (simp add: cancels_def)
  qed simp_all
  then show ?thesis using aggregate(5) by simp
next
  case (all g')
  have "k \<in> set (map fst (gr_runners g))"
    by (rule not_active_outside[OF assms(1) waiting_active[OF assms(4)]])
  then show ?thesis
    using cancel_all_spec(5)[OF assms(1) all(3) refl] waiting_active[OF assms(4)] assms(4) all(4) by simp
qed (use assms(5) in simp_all)

lemma task_group_step_inv:
  assumes "group_inv R g" shows "group_inv R (task_group_step now later g)"
proof (cases "gr_pc g")
  case (Finished out)
  then show ?thesis using assms by (simp add: task_group_step_def)
next
  case AtYield
  then have s: "core R g" "sound R g" "gr_raised g = [] \<longrightarrow> clean g" using assms by (simp_all add: group_inv_def)
  obtain g' e where l: "running_loop now (map fst (gr_runners g)) g = (g', e)"
    by (cases "running_loop now (map fst (gr_runners g)) g")
  note spec = running_loop_spec[OF s(1,2) l]
  show ?thesis
  proof (cases e)
    case None
    then have "task_group_step now later g = g'\<lparr>gr_pc := LoopHead\<rparr>" using AtYield l by (simp add: task_group_step_def)
    moreover have "core R g'" "sound R g'" "gr_raised g' = [] \<longrightarrow> clean g'"
      using spec s(3) None by (simp_all add: frame_def)
    ultimately show ?thesis by (simp add: group_inv_def core_same sound_same clean_def)
  next
    case (Some x)
    then show ?thesis using AtYield l handle_inv(1)[of R g' later x] spec by (simp add: task_group_step_def)
  qed
next
  case LoopHead
  then have s: "core R g" "sound R g" "gr_raised g = [] \<longrightarrow> clean g" using assms by (simp_all add: group_inv_def)
  show ?thesis
  proof (cases "\<exists>(k, r) \<in> set (gr_runners g). \<not> rn_done r")
    case False
    have "\<not> active g k" for k using False by (auto simp: active_def runner_of_def dest: map_of_SomeD)
    moreover have "task_group_step now later g = g\<lparr>gr_pc := Finished (group_result g)\<rparr>"
      using False LoopHead by (simp add: task_group_step_def)
    ultimately show ?thesis
      using s by (auto simp: group_inv_def core_same clean_def active_def group_result_def split: list.splits)
  next
    case True
    obtain g' e where l: "ready_loop now (gr_keys g) g = (g', e)" by (cases "ready_loop now (gr_keys g) g")
    note spec = ready_loop_spec[OF s(1,2) subset_refl l]
    show ?thesis
    proof (cases e)
      case None
      then have "task_group_step now later g = g'\<lparr>gr_pc := AtYield\<rparr>"
        using LoopHead True l by (simp add: task_group_step_def)
      moreover have "core R g'" "sound R g'" "gr_raised g' = [] \<longrightarrow> clean g'"
        using spec s(3) None by (simp_all add: frame_def)
      ultimately show ?thesis by (simp add: group_inv_def core_same sound_same clean_def)
    next
      case (Some x)
      then have "task_group_step now later g = handle later x g'"
        using LoopHead True l by (simp add: task_group_step_def)
      then show ?thesis using handle_inv(1)[of R g' later x] spec by simp
    qed
  qed
qed

lemma group_reach_inv: "group_reach g g' \<Longrightarrow> group_inv R g \<Longrightarrow> group_inv R g'"
proof (induction rule: group_reach.induct)
  case (further g g' g'')
  have inv: "group_inv R g'" using further by blast
  have "group_inv R (handle later e g')" if "gr_pc g' = AtYield" for later e
  proof (rule handle_inv(1))
    show "core R g'" "sound R g'" using inv that by (simp_all add: group_inv_def)
  qed
  then show ?case
    using further.hyps(2) task_group_step_inv[OF inv] by (elim group_trans_cases) simp_all
qed

text \<open>The order a group goes through its keys in, and the relation its graph is made of.\<close>

definition task_rel :: "'k graph \<Rightarrow> bool \<Rightarrow> ('k \<times> 'k) set" where
  "task_rel deps reverse = (if reverse then (dep_rel deps)\<inverse> else dep_rel deps)"

definition any_order :: "('k list \<Rightarrow> 'k list) \<Rightarrow> bool" where
  "any_order order \<longleftrightarrow> (\<forall>ks. mset (order ks) = mset ks)"

lemma new_group_inv:
  assumes "wf_graph deps" "any_order order"
    and "new_group order deps task reverse wait_time agg = Inr g"
  shows "group_inv (task_rel deps reverse) g" "gr_pc g = LoopHead" "set (gr_keys g) = keys deps"
    "gr_aggregate g = agg"
proof -
  obtain ks where ks: "dep_iter deps = Inr ks"
    "g = \<lparr>gr_keys = ks, gr_runners = map (\<lambda>k. (k, new_runner (task k))) (order ks),
        gr_graph = dep_graph deps reverse, gr_error_wait = wait_time,
        gr_aggregate = agg, gr_raised = [], gr_last = None, gr_pc = LoopHead\<rparr>"
    using assms(3) by (auto simp: new_group_def rbind_eq_Inr)
  have top: "distinct ks" "set ks = keys deps"
    using fwd.order[OF assms(1) ks(1)] by (auto simp: topological_order_def)
  have "mset (order ks) = mset ks" using assms(2) by (simp add: any_order_def)
  then have order: "distinct (order ks)" "set (order ks) = keys deps"
    using top mset_eq_imp_distinct_iff mset_eq_setD by blast+
  have ac: "acyclic (dep_rel deps)" using fwd.iterates_iff_acyclic[OF assms(1)] ks(1) by blast
  have runner: "runner_of g k = (if k \<in> keys deps then Some (new_runner (task k)) else None)" for k
  proof -
    have "map_of (map (\<lambda>k. (k, new_runner (task k))) xs) k =
        (if k \<in> set xs then Some (new_runner (task k)) else None)" for xs
      by (induction xs) auto
    then show ?thesis by (simp add: runner_of_def ks(2) order(2))
  qed
  have fst: "map fst (gr_runners g) = order ks" by (simp add: ks(2) comp_def)
  have R: "requires (gr_graph g) k = {j. (k, j) \<in> task_rel deps reverse}"
    "required_by (gr_graph g) k = {a. (a, k) \<in> task_rel deps reverse}" "keys (gr_graph g) = keys deps" for k
  proof -
    have rev: "requires (reverse_copy deps) k = required_by deps k" "required_by (reverse_copy deps) k = requires deps k"
      by (simp_all add: requires_def required_by_def node_of_reverse node_reverse_copy_def)
    have sym: "required_by deps k = {a. (a, k) \<in> dep_rel deps}" "requires deps k = {j. (k, j) \<in> dep_rel deps}"
      using wf_graphD(2)[OF assms(1)] by (auto simp: dep_rel_def)
    show "requires (gr_graph g) k = {j. (k, j) \<in> task_rel deps reverse}"
      "required_by (gr_graph g) k = {a. (a, k) \<in> task_rel deps reverse}" "keys (gr_graph g) = keys deps"
      by (simp_all add: ks(2) dep_graph_def task_rel_def rev sym wf_reverse(1))
  qed
  note new = new_runner_ok
  have "task_rel deps reverse \<subseteq> keys deps \<times> keys deps" "acyclic (task_rel deps reverse)"
    using fwd.closed[OF assms(1)] ac by (auto simp: task_rel_def)
  moreover have "Starting \<notin> set (rn_log (new_runner t))" "rn_timeout (new_runner t) = None" for t
    by (simp_all add: new_runner_def)
  ultimately have "core (task_rel deps reverse) g" "sound (task_rel deps reverse) g" "clean g"
    using order top fst runner new R
    unfolding core_def sound_def sound_but_def clean_def active_def waiting_def ok_def
    by (auto simp: ks(2) split: if_splits)
  then show "group_inv (task_rel deps reverse) g" by (simp add: group_inv_def ks(2))
  show "gr_pc g = LoopHead" "set (gr_keys g) = keys deps" "gr_aggregate g = agg"
    using top by (simp_all add: ks(2))
qed

section \<open>The group ends\<close>

text \<open>Before the \<open>yield\<close> a task that can be started is started, and after it one that runs is stepped:
  in one round of the loop the group ends or has less work left.\<close>

lemma round_progress:
  assumes inv: "group_inv R g" and head: "gr_pc g = LoopHead" and active: "active g a"
    and least: "\<And>P. P \<noteq> {} \<Longrightarrow> \<exists>k \<in> P. \<forall>j. (k, j) \<in> R \<longrightarrow> j \<notin> P"
  shows "(\<exists>out. gr_pc (task_group_step now later g) = Finished out) \<or>
    gr_pc (task_group_step now later g) = LoopHead \<and> load (task_group_step now later g) < load g \<or>
    (let g2 = task_group_step now' later' (task_group_step now later g) in
       (\<exists>out. gr_pc g2 = Finished out) \<or> gr_pc g2 = LoopHead \<and> load g2 < load g)"
proof -
  have core: "core R g" and sound: "sound R g" using inv head by (simp_all add: group_inv_def)
  have keys: "active g k \<Longrightarrow> k \<in> set (gr_keys g)" for k
    using runner_of_keys[OF core] by (auto simp: active_def)
  obtain k where k: "active g k" "\<And>j. (k, j) \<in> R \<Longrightarrow> \<not> active g j"
    using least[of "{k. active g k}"] active by blast
  obtain r where "runner_of g k = Some r" "\<not> rn_done r" using k(1) by (auto simp: active_def)
  then have undone: "\<exists>(k, r) \<in> set (gr_runners g). \<not> rn_done r"
    by (auto simp: runner_of_def dest!: map_of_SomeD)
  obtain g1 e where l: "ready_loop now (gr_keys g) g = (g1, e)" by (cases "ready_loop now (gr_keys g) g")
  note spec = ready_loop_spec[OF core sound subset_refl l]
  show ?thesis
  proof (cases e)
    case (Some x)
    then have step: "task_group_step now later g = handle later x g1" using head undone l by (simp add: task_group_step_def)
    obtain k1 r1 where k1: "gr_last g1 = Some k1" "runner_of g1 k1 = Some r1" "\<not> rn_done r1"
        "load g1 < load g \<or> \<not> started r1" using spec Some by auto
    have "load (handle later x g1) < load g" if "gr_pc (handle later x g1) = LoopHead"
    proof (cases "started r1")
      case True
      then show ?thesis using handle_inv(3)[of R g1 later x] spec k1(4) by simp
    next
      case False
      then have "waiting g1 k1" using k1 by (auto simp: waiting_def)
      then show ?thesis using handle_waiting[of R g1 k1 later x] spec k1(1) that by simp
    qed
    then show ?thesis using handle_inv(2)[of R g1 later x] spec unfolding step by blast
  next
    case None
    let ?g1 = "g1\<lparr>gr_pc := AtYield\<rparr>"
    have step: "task_group_step now later g = ?g1" using head undone l None by (simp add: task_group_step_def)
    have c1: "core R ?g1" "sound R ?g1" using spec by (simp_all add: core_same sound_same)
    obtain g2 e2 where l2: "running_loop now' (map fst (gr_runners ?g1)) ?g1 = (g2, e2)"
      by (cases "running_loop now' (map fst (gr_runners ?g1)) ?g1")
    note spec2 = running_loop_spec[OF c1 l2]
    have less: "load g2 < load g"
    proof (cases "waiting g k")
      case True
      then have "ok g j" if "(k, j) \<in> R" for j using soundD(2)[OF sound True that] k(2)[OF that] by blast
      then have "requires (gr_graph g) k = {}" using soundD(1)[OF sound True] by blast
      then have "load g1 < load g" using spec None True keys[OF k(1)] by auto
      then show ?thesis using spec2 by simp
    next
      case False
      then have "runner_of g1 k = runner_of g k" using spec k(1) by blast
      then have "active ?g1 k \<and> \<not> waiting ?g1 k" using k(1) False by (simp add: active_def waiting_def)
      moreover have "k \<in> set (map fst (gr_runners ?g1))"
        using not_active_outside[OF c1(1)] calculation by blast
      ultimately have "load g2 < load ?g1" using spec2 by blast
      then show ?thesis using spec by simp
    qed
    have "(\<exists>out. gr_pc (task_group_step now' later' ?g1) = Finished out) \<or>
        gr_pc (task_group_step now' later' ?g1) = LoopHead \<and> load (task_group_step now' later' ?g1) < load g"
    proof (cases e2)
      case None
      then show ?thesis using l2 less by (simp add: task_group_step_def)
    next
      case (Some x)
      then show ?thesis
        using l2 less handle_inv(2,3)[of R g2 later' x] spec2 by (auto simp: task_group_step_def)
    qed
    then show ?thesis unfolding step Let_def by blast
  qed
qed

lemma group_ends:
  assumes least: "\<And>P. P \<noteq> {} \<Longrightarrow> \<exists>k \<in> P. \<forall>j. (k, j) \<in> R \<longrightarrow> j \<notin> P"
  shows "group_inv R g \<Longrightarrow> gr_pc g = LoopHead \<Longrightarrow> \<exists>n out. gr_pc (group_run clock n g) = Finished out"
proof (induction "load g" arbitrary: g clock rule: less_induct)
  case less
  let ?g1 = "task_group_step (clock 0) (clock 1) g"
  let ?g2 = "task_group_step (clock 2) (clock 3) ?g1"
  have run: "group_run clock (Suc n) g = group_run (\<lambda>i. clock (i + 2)) n ?g1"
    "group_run clock (Suc (Suc n)) g = group_run (\<lambda>i. clock (i + 4)) n ?g2" for n
    by (simp_all add: numeral_eq_Suc)
  have inv1: "group_inv R ?g1" and inv2: "group_inv R ?g2" using task_group_step_inv less.prems(1) by blast+
  show ?case
  proof (cases "\<exists>a. active g a")
    case False
    have "\<not> (\<exists>(k, r) \<in> set (gr_runners g). \<not> rn_done r)"
      using False less.prems(1) by (force simp: active_def runner_of_def group_inv_def core_def)
    then have "gr_pc (group_run clock 1 g) = Finished (group_result g)"
      using less.prems(2) by (simp add: task_group_step_def)
    then show ?thesis by blast
  next
    case True
    then obtain a where "active g a" ..
    from round_progress[OF less.prems this least, of "clock 0" "clock 1" "clock 2" "clock 3"]
    consider "\<exists>out. gr_pc ?g1 = Finished out" | "gr_pc ?g1 = LoopHead" "load ?g1 < load g"
      | "\<exists>out. gr_pc ?g2 = Finished out" | "gr_pc ?g2 = LoopHead" "load ?g2 < load g"
      unfolding Let_def by blast
    then show ?thesis
    proof cases
      case 1
      then show ?thesis using run(1)[of 0] by (intro exI[of _ 1]) simp
    next
      case 2
      from less.hyps[OF 2(2) inv1 2(1)] show ?thesis using run(1) by metis
    next
      case 3
      then show ?thesis using run(2)[of 0] by (intro exI[of _ 2]) (simp add: numeral_eq_Suc)
    next
      case 4
      from less.hyps[OF 4(2) inv2 4(1)] show ?thesis using run(2) by metis
    qed
  qed
qed

lemma least_task:
  assumes "wf_graph deps" "dep_iter deps = Inr ks" "P \<noteq> {}"
  shows "\<exists>k \<in> P. \<forall>j. (k, j) \<in> task_rel deps reverse \<longrightarrow> j \<notin> P"
proof (cases "P \<subseteq> keys deps")
  case True
  show ?thesis
  proof (cases reverse)
    case True
    then show ?thesis using fwd.last_pending[OF assms(1,2) \<open>P \<subseteq> keys deps\<close> assms(3)]
      by (metis converse_iff task_rel_def)
  next
    case False
    then show ?thesis using fwd.first_pending[OF assms(1,2) \<open>P \<subseteq> keys deps\<close> assms(3)]
      by (metis task_rel_def)
  qed
next
  case False
  then obtain k where "k \<in> P" "k \<notin> keys deps" by blast
  then have "(k, j) \<notin> task_rel deps reverse" for j
    using fwd.closed[OF assms(1)] by (auto simp: task_rel_def)
  then show ?thesis using \<open>k \<in> P\<close> by blast
qed

lemma group_run_reach: "group_reach g g' \<Longrightarrow> group_reach g (group_run clock n g')"
proof (induction n arbitrary: g' clock)
  case (Suc n)
  have "group_reach g (task_group_step (clock 0) (clock 1) g')"
    using group_reach.further[OF Suc.prems group_trans.stepped] .
  from Suc.IH[OF this] show ?case by simp
qed simp

text \<open>A group for the witnesses: the volume fails in its second step when \<open>fails\<close> holds.\<close>

definition demo_task :: "bool \<Rightarrow> string \<Rightarrow> task" where
  "demo_task fails k =
     (if k = ''volume'' then Coroutine (Yield (if fails then Raise (TaskError ''full'') else Return) Raise)
      else if k = ''net'' then Plain None else Coroutine (Yield Return Raise))"

definition demo_clock :: "string \<Rightarrow> int" where
  "demo_clock k = 0"

lemma demo_runs:
  obtains g0 r where "new_group rev (dependencies demo_edges) (demo_task False) False None False = Inr g0"
    "runner_of (group_run (\<lambda>_. demo_clock) 5 g0) ''server'' = Some r" "Starting \<in> set (rn_log r)"
proof -
  have "(case new_group rev (dependencies demo_edges) (demo_task False) False None False of
      Inl _ \<Rightarrow> False
    | Inr g0 \<Rightarrow> (case runner_of (group_run (\<lambda>_. demo_clock) 5 g0) ''server'' of
        None \<Rightarrow> False | Some r \<Rightarrow> Starting \<in> set (rn_log r)))"
    by code_simp
  then show thesis using that by (auto split: sum.splits option.splits)
qed

lemma demo_fails:
  obtains g0 g1 where "new_group rev (dependencies demo_edges) (demo_task True) False None True = Inr g0"
    "gr_aggregate (group_run (\<lambda>_. demo_clock) 1 g0)" "gr_pc (group_run (\<lambda>_. demo_clock) 1 g0) = AtYield"
    "running_loop demo_clock (map fst (gr_runners (group_run (\<lambda>_. demo_clock) 1 g0)))
       (group_run (\<lambda>_. demo_clock) 1 g0) = (g1, Some (TaskError ''full''))" "gr_last g1 = Some ''volume''"
proof -
  have "(case new_group rev (dependencies demo_edges) (demo_task True) False None True of
      Inl _ \<Rightarrow> False
    | Inr g0 \<Rightarrow> (let g = group_run (\<lambda>_. demo_clock) 1 g0 in
        gr_aggregate g \<and> (case gr_pc g of AtYield \<Rightarrow> True | _ \<Rightarrow> False) \<and>
        (case running_loop demo_clock (map fst (gr_runners g)) g of
           (g1, Some e) \<Rightarrow> e = TaskError ''full'' \<and> gr_last g1 = Some ''volume''
         | _ \<Rightarrow> False)))"
    by code_simp
  then show thesis
    using that by (auto simp: Let_def split: sum.splits option.splits prod.splits group_pc.splits)
qed

lemma demo_group_wf: "wf_graph (dependencies demo_edges)" "any_order rev"
  by (simp_all add: any_order_def)

section \<open>Properties\<close>

text \<open>Claim C17. In every state a task group can reach, whatever its tasks do, whatever the clock says and
  whatever is thrown into it, a task has been started only if every task it depends on has completed
  without an exception (in reverse order: every task that depends on it), and a group that returns
  has completed all of its tasks.\<close>

theorem group_order:
  assumes "wf_graph deps" and "any_order order"
    and "new_group order deps task reverse wait_time agg = Inr g0" and "group_reach g0 g"
    and "runner_of g k = Some r"
  shows "(Starting \<in> set (rn_log r) \<longrightarrow> (\<forall>j. (k, j) \<in> task_rel deps reverse \<longrightarrow> ok g j)) \<and>
    (gr_pc g = Finished None \<longrightarrow> ok g k)"
proof -
  have inv: "group_inv (task_rel deps reverse) g"
    by (rule group_reach_inv[OF assms(4) new_group_inv(1)[OF assms(1-3)]])
  then have core: "core (task_rel deps reverse) g" by (simp add: group_inv_def)
  have "ok g k" if "gr_pc g = Finished None"
  proof -
    have "clean g" "\<not> active g k" using inv that by (simp_all add: group_inv_def)
    then show ?thesis using assms(5) by (auto simp: clean_def active_def ok_def)
  qed
  then show ?thesis using coreD(2)[OF core assms(5)] by blast
qed

theorem group_order_witness:
  "\<exists>g r. runner_of g ''server'' = Some r \<and> Starting \<in> set (rn_log r) \<and> ok g ''port'' \<and> ok g ''volume''"
proof -
  obtain g0 r where g: "new_group rev (dependencies demo_edges) (demo_task False) False None False = Inr g0"
    "runner_of (group_run (\<lambda>_. demo_clock) 5 g0) ''server'' = Some r" "Starting \<in> set (rn_log r)"
    by (rule demo_runs)
  have "(''server'', ''port'') \<in> task_rel (dependencies demo_edges) False"
    "(''server'', ''volume'') \<in> task_rel (dependencies demo_edges) False"
    by (simp_all add: task_rel_def edge_rel_def demo_edges_def)
  then show ?thesis
    using group_order[OF demo_group_wf g(1) group_run_reach[OF group_reach.here] g(2)] g(2,3) by blast
qed

text \<open>Claim C18. A task group whose tasks each yield finitely often always ends, with any clock, any error
  handling and any order: no cycle, failure or cancellation makes it wait forever.\<close>

theorem group_terminates:
  assumes "wf_graph deps" and "any_order order" and "new_group order deps task reverse wait_time agg = Inr g0"
  shows "\<exists>n out. gr_pc (group_run clock n g0) = Finished out"
proof -
  obtain ks where "dep_iter deps = Inr ks" using assms(3) by (auto simp: new_group_def rbind_eq_Inr)
  from least_task[OF assms(1) this] show ?thesis
    by (rule group_ends[OF _ new_group_inv(1,2)[OF assms]])
qed

theorem group_terminates_witness:
  "\<exists>g0 n out. new_group rev (dependencies demo_edges) (demo_task False) False None False = Inr g0 \<and>
     gr_pc (group_run (\<lambda>_. demo_clock) n g0) = Finished out"
proof -
  obtain g0 where g: "new_group rev (dependencies demo_edges) (demo_task False) False None False = Inr g0"
    by (rule demo_runs)
  show ?thesis using group_terminates[OF demo_group_wf g, of "\<lambda>_. demo_clock"] g by blast
qed

text \<open>Claim C36. With \<open>aggregate_exceptions\<close>, in every reachable state, an exception of a running task
  does not end the group: it is recorded, the failed task and all tasks that depend on it, directly or
  not, are not active any more, and no other task is touched. The recursion never needs more depth
  than there are tasks.\<close>

theorem aggregate_cancels_dependents:
  assumes "wf_graph deps" and "any_order order"
    and "new_group order deps task reverse wait_time agg = Inr g0" and "group_reach g0 g"
    and "gr_aggregate g" and "gr_pc g = AtYield" and "is_exception e"
    and "running_loop now (map fst (gr_runners g)) g = (g1, Some e)"
  shows "\<exists>k. gr_last g1 = Some k \<and> gr_pc (task_group_step now later g) = LoopHead \<and>
    gr_raised (task_group_step now later g) = gr_raised g @ [e] \<and>
    (\<forall>a. (a, k) \<in> (task_rel deps reverse)\<^sup>* \<longrightarrow> \<not> active (task_group_step now later g) a) \<and>
    (\<forall>a. (a, k) \<notin> (task_rel deps reverse)\<^sup>* \<longrightarrow>
       runner_of (task_group_step now later g) a = runner_of g1 a)"
proof -
  let ?R = "task_rel deps reverse"
  have "group_inv ?R g" by (rule group_reach_inv[OF assms(4) new_group_inv(1)[OF assms(1-3)]])
  then have inv: "core ?R g" "sound ?R g" using assms(6) by (simp_all add: group_inv_def)
  note spec = running_loop_spec[OF inv assms(8)]
  obtain k r where k: "gr_last g1 = Some k" "runner_of g1 k = Some r" "ended r" "\<not> succeeded r"
    using spec by auto
  have c1: "core ?R g1" "sound ?R g1" and frame: "frame g g1" using spec by blast+
  have fail: "\<not> ok g1 k" using k(2,4) by (simp add: ok_def)
  have within: "graph_within ?R g1" using c1 soundD(6)[OF c1(2)] by (simp add: graph_within_def)
  have R: "?R\<^sup>+ \<subseteq> set (gr_keys g1) \<times> set (gr_keys g1)" "acyclic ?R"
    using c1(1) trancl_subset_Sigma[of ?R "set (gr_keys g1)"] by (simp_all add: core_def)
  have "k \<in> set (gr_keys g1)" using runner_of_keys[OF c1(1)] k(2) by blast
  then have "{a. (a, k) \<in> ?R\<^sup>+} \<subset> set (gr_keys g1)" using R by (auto simp: acyclic_def)
  then have "card {a. (a, k) \<in> ?R\<^sup>+} < card (set (gr_keys g1))" by (intro psubset_card_mono) simp_all
  then have "card {a. (a, k) \<in> ?R\<^sup>+} < length (gr_keys g1)" using card_length[of "gr_keys g1"] by linarith
  from cancel_rec_no_exception[OF within k(2,3) fail this, of later] obtain g' where g':
    "cancel_recursively (length (gr_keys g1)) later k g1 = (g', None)" "cancels ?R g1 g'"
    "\<forall>a. (a, k) \<notin> ?R\<^sup>* \<longrightarrow> runner_of g' a = runner_of g1 a" by blast
  have s: "sound ?R g'" "\<not> active g' k"
    using cancel_rec_sound[OF c1(1) _ _ g'(1), of "{}"] c1(2) by (simp_all add: sound_def)
  have off: "\<not> active g' a" if "(a, k) \<in> ?R\<^sup>*" for a
    using dependents_inactive[OF _ s _ that] g'(2) fail by (auto simp: cancels_def)
  have "task_group_step now later g = g'\<lparr>gr_raised := gr_raised g1 @ [e], gr_pc := LoopHead\<rparr>"
    using assms(5-8) frame k(1) g'(1) by (simp add: task_group_step_def handle_def frame_def)
  then show ?thesis
    using k(1) off g'(3) frame by (simp add: frame_def active_def)
qed

theorem aggregate_cancels_dependents_witness:
  "\<exists>g. gr_pc g = AtYield \<and> gr_pc (task_group_step demo_clock demo_clock g) = LoopHead \<and>
     gr_raised (task_group_step demo_clock demo_clock g) = gr_raised g @ [TaskError ''full''] \<and>
     \<not> active (task_group_step demo_clock demo_clock g) ''server''"
proof -
  obtain g0 g1 where g: "new_group rev (dependencies demo_edges) (demo_task True) False None True = Inr g0"
    "gr_aggregate (group_run (\<lambda>_. demo_clock) 1 g0)" "gr_pc (group_run (\<lambda>_. demo_clock) 1 g0) = AtYield"
    "running_loop demo_clock (map fst (gr_runners (group_run (\<lambda>_. demo_clock) 1 g0)))
       (group_run (\<lambda>_. demo_clock) 1 g0) = (g1, Some (TaskError ''full''))" "gr_last g1 = Some ''volume''"
    by (rule demo_fails)
  have "(''server'', ''volume'') \<in> task_rel (dependencies demo_edges) False"
    by (simp add: task_rel_def edge_rel_def demo_edges_def)
  then have "(''server'', ''volume'') \<in> (task_rel (dependencies demo_edges) False)\<^sup>*" by blast
  then show ?thesis
    using aggregate_cancels_dependents[OF demo_group_wf g(1) group_run_reach[OF group_reach.here] g(2,3) _ g(4),
        of demo_clock] g(3,5) by (auto simp: is_exception_def)
qed

end
