(* ===== verification/Heat_Sync_Point.thy ===== *)
theory Heat_Sync_Point
  imports Heat_Dependencies
begin

text \<open>
  The sync points of Heat's convergence engine (\<open>heat/engine/sync_point.py\<close> with its rows in
  \<open>heat/db/sqlalchemy/api.py\<close>): the packing of node keys into the JSON that the database stores,
  the operations on the rows, and the loop of \<open>sync\<close> cut at its two accesses to the database, a
  read and a compare-and-swap on the atomic key.
\<close>

section \<open>Values and keys\<close>

text \<open>A node of the graph of a traversal: the id of a resource and whether it is its update (or its
  cleanup). A dictionary key is a string or such a tuple.\<close>

type_synonym node_key = "int \<times> bool"

datatype py_key = KStr string | KTuple node_key

datatype json = JNull | JBool bool | JInt int | JStr string | JList "json list"
  | JDict "(py_key \<times> json) list"

type_synonym pydict = "(py_key \<times> json) list"

text \<open>The exceptions of the convergence engine. A key error is one of the dependency graph, a bad
  literal what \<open>ast.literal_eval\<close> does not read as such a tuple, a JSON error the \<open>TypeError\<close> of
  \<open>json.dumps\<close> on a key that is a tuple.\<close>

datatype convergence_exc = SyncPointNotFound "string \<times> string \<times> bool" | BadLiteral string
  | DuplicateEntry | GraphError "node_key heat_exc" | JsonTypeError

text \<open>A dictionary filled by \<open>d2[k] = v\<close> in the order of the pairs.\<close>

definition dict_of :: "(py_key \<times> 'v) list \<Rightarrow> (py_key \<times> 'v) list" where
  "dict_of kvs = foldl (\<lambda>d (k, v). AList.update k v d) [] kvs"

section \<open>Packing\<close>

definition str_tuple :: "node_key \<Rightarrow> string" where
  "str_tuple t = ''('' @ str_of_int (fst t) @ '', '' @ (if snd t then ''True'' else ''False'') @ '')''"

definition str_pack_tuple :: "node_key \<Rightarrow> string" where
  "str_pack_tuple t = ''tuple:'' @ str_tuple t"

text \<open>\<open>ast.literal_eval\<close> of the tuples of a number and a boolean.\<close>

definition literal_eval :: "string \<Rightarrow> node_key option" where
  "literal_eval s =
     (if s \<noteq> [] \<and> hd s = CHR ''('' \<and> last s = CHR '')'' then
        (case split_once (CHR '','') (butlast (tl s)) of
           [a, b] \<Rightarrow>
             (case int_of_str a of
                None \<Rightarrow> None
              | Some i \<Rightarrow> if strip b = ''True'' then Some (i, True)
                          else if strip b = ''False'' then Some (i, False) else None)
         | _ \<Rightarrow> None)
      else None)"

definition str_unpack_tuple :: "string \<Rightarrow> node_key option" where
  "str_unpack_tuple s = literal_eval (tl (dropWhile (\<lambda>c. c \<noteq> CHR '':'') s))"

definition pack_key :: "py_key \<Rightarrow> py_key" where
  "pack_key k = (case k of KTuple t \<Rightarrow> KStr (str_pack_tuple t) | KStr s \<Rightarrow> KStr s)"

definition packed_prefix :: string where
  "packed_prefix = ''tuple:(''"

definition unpack_key :: "py_key \<Rightarrow> (convergence_exc, py_key) result" where
  "unpack_key k =
     (case k of
        KStr s \<Rightarrow>
          if take (length packed_prefix) s = packed_prefix then
            (case str_unpack_tuple s of None \<Rightarrow> Inl (BadLiteral s) | Some t \<Rightarrow> Inr (KTuple t))
          else Inr (KStr s)
      | KTuple t \<Rightarrow> Inr (KTuple t))"

primrec serialize :: "json \<Rightarrow> json" where
  "serialize JNull = JNull"
| "serialize (JBool b) = JBool b"
| "serialize (JInt i) = JInt i"
| "serialize (JStr s) = JStr s"
| "serialize (JList xs) = JList xs"
| "serialize (JDict d) =
     JDict (dict_of (map (\<lambda>(k, v). (pack_key k, v)) (map (map_prod id serialize) d)))"

primrec deserialize :: "json \<Rightarrow> (convergence_exc, json) result" where
  "deserialize JNull = Inr JNull"
| "deserialize (JBool b) = Inr (JBool b)"
| "deserialize (JInt i) = Inr (JInt i)"
| "deserialize (JStr s) = Inr (JStr s)"
| "deserialize (JList xs) = Inr (JList xs)"
| "deserialize (JDict d) =
     rbind (rmap (\<lambda>(k, rv). rbind (unpack_key k) (\<lambda>k'. rbind rv (\<lambda>v'. Inr (k', v'))))
              (map (map_prod id deserialize) d))
       (\<lambda>kvs. Inr (JDict (dict_of kvs)))"

definition serialize_input_data :: "pydict \<Rightarrow> pydict" where
  "serialize_input_data input_data = [(KStr ''input_data'', serialize (JDict input_data))]"

text \<open>A missing or empty \<open>input_data\<close> is the empty dictionary.\<close>

definition deserialize_input_data :: "pydict \<Rightarrow> (convergence_exc, pydict) result" where
  "deserialize_input_data db =
     (case map_of db (KStr ''input_data'') of
        Some (JDict d) \<Rightarrow>
          rbind (deserialize (JDict d)) (\<lambda>j. Inr (case j of JDict d' \<Rightarrow> d' | _ \<Rightarrow> []))
      | _ \<Rightarrow> Inr [])"

subsection \<open>The column\<close>

text \<open>
  The type \<open>Json\<close> of the column dumps what is written and loads what is read
  (\<open>heat/db/sqlalchemy/types.py\<close>). \<open>json.dumps\<close> raises \<open>TypeError\<close> on a key that is a tuple, at any depth;
  anything else of these values comes back as it was.
\<close>

primrec dumpable :: "json \<Rightarrow> bool" where
  "dumpable JNull = True"
| "dumpable (JBool b) = True"
| "dumpable (JInt i) = True"
| "dumpable (JStr s) = True"
| "dumpable (JList xs) = list_all id (map dumpable xs)"
| "dumpable (JDict d) =
     list_all (\<lambda>(k, b). (case k of KStr _ \<Rightarrow> b | KTuple _ \<Rightarrow> False)) (map (map_prod id dumpable) d)"

definition json_column :: "pydict \<Rightarrow> (convergence_exc, pydict) result" where
  "json_column value = (if dumpable (JDict value) then Inr value else Inl JsonTypeError)"

subsection \<open>The round trip\<close>

text \<open>The values that survive it: no string key looks like a packed tuple, and the keys of a
  dictionary are distinct, at every level that \<open>serialize\<close> enters. It does not enter lists, which
  the column must take as they are.\<close>

fun plain_key :: "py_key \<Rightarrow> bool" where
  "plain_key (KStr s) = (take (length packed_prefix) s \<noteq> packed_prefix)"
| "plain_key (KTuple t) = True"

primrec plain :: "json \<Rightarrow> bool" where
  "plain JNull = True"
| "plain (JBool b) = True"
| "plain (JInt i) = True"
| "plain (JStr s) = True"
| "plain (JList xs) = dumpable (JList xs)"
| "plain (JDict d) =
     (distinct (map fst d) \<and> list_all plain_key (map fst d) \<and> list_all snd (map (map_prod id plain) d))"

text \<open>The two parts of it: the keys, and the lists.\<close>

primrec plain_keys :: "json \<Rightarrow> bool" where
  "plain_keys JNull = True"
| "plain_keys (JBool b) = True"
| "plain_keys (JInt i) = True"
| "plain_keys (JStr s) = True"
| "plain_keys (JList xs) = True"
| "plain_keys (JDict d) =
     (distinct (map fst d) \<and> list_all plain_key (map fst d) \<and> list_all snd (map (map_prod id plain_keys) d))"

primrec dumpable_lists :: "json \<Rightarrow> bool" where
  "dumpable_lists JNull = True"
| "dumpable_lists (JBool b) = True"
| "dumpable_lists (JInt i) = True"
| "dumpable_lists (JStr s) = True"
| "dumpable_lists (JList xs) = dumpable (JList xs)"
| "dumpable_lists (JDict d) = list_all snd (map (map_prod id dumpable_lists) d)"

lemma plain_parts: "plain j \<longleftrightarrow> plain_keys j \<and> dumpable_lists j"
proof (induction j)
  case (JDict d)
  have "plain v \<longleftrightarrow> plain_keys v \<and> dumpable_lists v" if "(k, v) \<in> set d" for k v
    by (rule JDict.IH[OF that]) simp_all
  then have "\<forall>x \<in> set d. plain (snd x) \<longleftrightarrow> plain_keys (snd x) \<and> dumpable_lists (snd x)" by auto
  then show ?case by (simp add: list_all_iff) blast
qed simp_all

lemma str_of_int_chars:
  assumes "c \<in> set (str_of_int i)"
  shows "c \<noteq> CHR '',''"
  using assms dec_digits_char(3)[of c] by (auto simp: str_of_int_def split: if_splits)

lemma literal_eval_str: "literal_eval (str_tuple (i, b)) = Some (i, b)"
proof -
  have comma: "CHR '','' \<notin> set (str_of_int i)" using str_of_int_chars by blast
  define tail where "tail = (if b then ''True'' else ''False'')"
  have s: "str_tuple (i, b) = CHR ''('' # (str_of_int i @ CHR '','' # CHR '' '' # tail) @ '')''"
    by (simp add: str_tuple_def tail_def)
  have "hd (str_tuple (i, b)) = CHR ''(''" "last (str_tuple (i, b)) = CHR '')''" "str_tuple (i, b) \<noteq> []"
    "butlast (tl (str_tuple (i, b))) = str_of_int i @ CHR '','' # CHR '' '' # tail"
    by (simp_all add: s butlast_append)
  moreover have "strip (CHR '' '' # tail) = tail"
    by (auto simp: tail_def strip_def lstrip_def is_space_def)
  ultimately show ?thesis
    by (simp add: literal_eval_def split_once_append[OF comma] int_of_str_str) (simp add: tail_def)
qed

lemma unpack_pack: "str_unpack_tuple (str_pack_tuple t) = Some t"
  by (cases t) (simp add: str_unpack_tuple_def str_pack_tuple_def literal_eval_str)

lemma packed_key: "take (length packed_prefix) (str_pack_tuple t) = packed_prefix"
  by (simp add: packed_prefix_def str_pack_tuple_def str_tuple_def)

lemma unpack_pack_key: "plain_key k \<Longrightarrow> unpack_key (pack_key k) = Inr k"
  by (cases k) (simp_all add: unpack_key_def pack_key_def unpack_pack packed_key)

lemma inj_pack_key: "inj_on pack_key {k. plain_key k}"
  by (rule inj_onI) (metis Inr_inject mem_Collect_eq unpack_pack_key)

lemma dict_of_snoc: "dict_of (kvs @ [(k, v)]) = AList.update k v (dict_of kvs)"
  by (simp add: dict_of_def)

lemma update_new: "k \<notin> fst ` set d \<Longrightarrow> AList.update k v d = d @ [(k, v)]"
  by (induction d) auto

lemma dict_of_distinct: "distinct (map fst kvs) \<Longrightarrow> dict_of kvs = kvs"
proof (induction kvs rule: rev_induct)
  case (snoc kv kvs)
  then show ?case by (cases kv) (auto simp: dict_of_snoc update_new)
qed (simp add: dict_of_def)

lemma serialize_dict:
  assumes "distinct (map fst d)" "list_all plain_key (map fst d)"
  shows "serialize (JDict d) = JDict (map (\<lambda>(k, v). (pack_key k, serialize v)) d)"
proof -
  have fst: "map fst (map (\<lambda>(k, v). (pack_key k, serialize v)) d) = map pack_key (map fst d)"
    by (simp add: case_prod_unfold)
  have "inj_on pack_key (set (map fst d))"
    using assms(2) inj_pack_key by (auto simp: list_all_iff intro: inj_on_subset)
  then have "distinct (map fst (map (\<lambda>(k, v). (pack_key k, serialize v)) d))"
    unfolding fst using assms(1) by (simp only: distinct_map)
  then show ?thesis by (simp add: dict_of_distinct comp_def case_prod_unfold)
qed

lemma deserialize_serialize: "plain j \<Longrightarrow> deserialize (serialize j) = Inr j"
proof (induction j)
  case (JDict d)
  then have d: "distinct (map fst d)" "list_all plain_key (map fst d)"
    and vals: "\<And>k v. (k, v) \<in> set d \<Longrightarrow> plain v" by (auto simp: list_all_iff)
  have step: "rbind (unpack_key (pack_key k)) (\<lambda>k'. rbind (deserialize (serialize v)) (\<lambda>v'. Inr (k', v'))) = Inr (k, v)"
    if "(k, v) \<in> set d" for k v
  proof -
    have "plain_key k" using d(2) that by (force simp: list_all_iff)
    moreover have "deserialize (serialize v) = Inr v"
      by (rule JDict.IH[OF that]) (simp_all add: vals[OF that])
    ultimately show ?thesis by (simp add: unpack_pack_key)
  qed
  have "rmap (\<lambda>(k, rv). rbind (unpack_key k) (\<lambda>k'. rbind rv (\<lambda>v'. Inr (k', v'))))
      (map (map_prod id deserialize) (map (\<lambda>(k, v). (pack_key k, serialize v)) d)) = Inr d"
    unfolding rmap_Inr_iff by (auto simp: list_all2_conv_all_nth case_prod_unfold step)
  then show ?case
    unfolding serialize_dict[OF d] by (simp add: dict_of_distinct[OF d(1)] del: map_map)
qed simp_all

lemma dumpable_serialize: "plain_keys j \<Longrightarrow> dumpable (serialize j) \<longleftrightarrow> dumpable_lists j"
proof (induction j)
  case (JDict d)
  then have d: "distinct (map fst d)" "list_all plain_key (map fst d)" by simp_all
  have "dumpable (serialize v) \<longleftrightarrow> dumpable_lists v" if "(k, v) \<in> set d" for k v
    by (rule JDict.IH[OF that]) (use that JDict.prems in \<open>auto simp: list_all_iff\<close>)
  then have vals: "\<forall>x \<in> set d. dumpable (serialize (snd x)) \<longleftrightarrow> dumpable_lists (snd x)" by auto
  have "pack_key k = KStr (case k of KStr s \<Rightarrow> s | KTuple t \<Rightarrow> str_pack_tuple t)" for k
    by (simp add: pack_key_def split: py_key.split)
  then have "dumpable (serialize (JDict d)) \<longleftrightarrow> (\<forall>x \<in> set d. dumpable (serialize (snd x)))"
    unfolding serialize_dict[OF d] by (simp add: list_all_iff case_prod_unfold)
  with vals show ?case by (simp add: list_all_iff del: serialize.simps)
qed simp_all

lemma json_column_serialize:
  assumes "plain_keys (JDict d)"
  shows "json_column (serialize_input_data d) =
    (if dumpable_lists (JDict d) then Inr (serialize_input_data d) else Inl JsonTypeError)"
proof -
  have "dumpable (JDict (serialize_input_data d)) \<longleftrightarrow> dumpable (serialize (JDict d))"
    by (simp add: serialize_input_data_def del: serialize.simps dumpable.simps(6)) (simp del: serialize.simps)
  then show ?thesis using dumpable_serialize[OF assms] by (simp add: json_column_def del: dumpable.simps dumpable_lists.simps serialize.simps)
qed

lemma plain_column: "plain (JDict d) \<Longrightarrow> json_column (serialize_input_data d) = Inr (serialize_input_data d)"
  using json_column_serialize[of d] plain_parts[of "JDict d"] by simp

lemma deserialize_input_data_inverse:
  assumes "plain (JDict d)"
  shows "deserialize_input_data (serialize_input_data d) = Inr d"
proof -
  obtain d' where d': "serialize (JDict d) = JDict d'" by simp
  have "deserialize (JDict d') = Inr (JDict d)"
    using deserialize_serialize[OF assms] unfolding d' .
  then show ?thesis
    by (simp add: deserialize_input_data_def serialize_input_data_def d' del: serialize.simps deserialize.simps)
qed

section \<open>The rows\<close>

text \<open>The id of a sync point is that of a resource or of the stack; the database stores its text.\<close>

datatype entity = RsrcEntity int | StackEntity string

definition str_entity :: "entity \<Rightarrow> string" where
  "str_entity e = (case e of RsrcEntity i \<Rightarrow> str_of_int i | StackEntity s \<Rightarrow> s)"

record sync_point =
  sp_stack_id :: string
  sp_atomic_key :: int
  sp_input_data :: pydict

type_synonym sp_key = "string \<times> string \<times> bool"
type_synonym sp_store = "sp_key \<Rightarrow> sync_point option"

definition sp_create :: "sp_store \<Rightarrow> entity \<Rightarrow> string \<Rightarrow> bool \<Rightarrow> string
    \<Rightarrow> (convergence_exc, sp_store) result" where
  "sp_create sps e traversal is_update stack_id =
     (let key = (str_entity e, traversal, is_update) in
      if sps key \<noteq> None then Inl DuplicateEntry
      else Inr (sps(key \<mapsto> \<lparr>sp_stack_id = stack_id, sp_atomic_key = 0, sp_input_data = []\<rparr>)))"

definition sp_get :: "sp_store \<Rightarrow> entity \<Rightarrow> string \<Rightarrow> bool \<Rightarrow> (convergence_exc, sync_point) result" where
  "sp_get sps e traversal is_update =
     (let key = (str_entity e, traversal, is_update) in
      case sps key of None \<Rightarrow> Inl (SyncPointNotFound key) | Some sp \<Rightarrow> Inr sp)"

definition sp_delete_all :: "sp_store \<Rightarrow> string \<Rightarrow> string \<Rightarrow> sp_store" where
  "sp_delete_all sps stack_id traversal =
     (\<lambda>(e, t, u). case sps (e, t, u) of None \<Rightarrow> None
        | Some sp \<Rightarrow> if sp_stack_id sp = stack_id \<and> t = traversal then None else Some sp)"

text \<open>The update is filtered by the atomic key that was read. The number is that of the rows.\<close>

definition sp_update_input_data :: "sp_store \<Rightarrow> entity \<Rightarrow> string \<Rightarrow> bool \<Rightarrow> int \<Rightarrow> pydict
    \<Rightarrow> nat \<times> sp_store" where
  "sp_update_input_data sps e traversal is_update atomic_key input_data =
     (let key = (str_entity e, traversal, is_update) in
      case sps key of
        None \<Rightarrow> (0, sps)
      | Some sp \<Rightarrow>
          if sp_atomic_key sp = atomic_key then
            (1, sps(key \<mapsto> sp\<lparr>sp_atomic_key := atomic_key + 1, sp_input_data := input_data\<rparr>))
          else (0, sps))"

section \<open>The loop of \<open>sync\<close>\<close>

text \<open>What a call of \<open>sync\<close> writes, and the two halves of a turn of its loop. The predecessors are a
  set, here a list in no particular order.\<close>

record sync_args =
  sa_entity :: entity
  sa_traversal :: string
  sa_update :: bool
  sa_preds :: "node_key list"
  sa_key :: node_key
  sa_data :: json

definition sync_read :: "sp_store \<Rightarrow> sync_args \<Rightarrow> (convergence_exc, int \<times> pydict) result" where
  "sync_read sps c =
     rbind (sp_get sps (sa_entity c) (sa_traversal c) (sa_update c)) (\<lambda>sp.
       rbind (deserialize_input_data (sp_input_data sp)) (\<lambda>input_data.
         Inr (sp_atomic_key sp, AList.update (KTuple (sa_key c)) (sa_data c) input_data)))"

text \<open>The write fails with an exception when the column cannot take the data.\<close>

definition sync_write :: "sp_store \<Rightarrow> sync_args \<Rightarrow> int \<Rightarrow> pydict \<Rightarrow> (convergence_exc, nat \<times> sp_store) result" where
  "sync_write sps c atomic_key input_data =
     rbind (json_column (serialize_input_data input_data)) (\<lambda>column.
       Inr (sp_update_input_data sps (sa_entity c) (sa_traversal c) (sa_update c) atomic_key column))"

definition sync_waiting :: "sync_args \<Rightarrow> pydict \<Rightarrow> node_key list" where
  "sync_waiting c input_data = filter (\<lambda>p. KTuple p \<notin> fst ` set input_data) (sa_preds c)"


section \<open>Properties\<close>

text \<open>Claim C22. What the engines leave for each other survives the database: input data whose keys
  are node keys or strings that do not look like a packed node key, nested to any depth in
  dictionaries, is written to the JSON column and read back as it was, if no list in it has a
  dictionary with a node key inside. With such a list it is not written at all: the packing does
  not enter lists, and dumping the column raises a TypeError. A string key that looks like a packed
  node key does not survive: it comes back as the node key.\<close>

theorem input_data_round_trip:
  assumes "plain_keys (JDict d)" "plain v"
  shows "rbind (json_column (serialize_input_data d)) deserialize_input_data =
      (if dumpable_lists (JDict d) then Inr d else Inl JsonTypeError) \<and>
    rbind (json_column (serialize_input_data [(KStr (str_pack_tuple t), v)])) deserialize_input_data = Inr [(KTuple t, v)]"
proof -
  have v: "plain (JDict [(KTuple t, v)])" using assms(2) by simp
  have "serialize_input_data [(KStr (str_pack_tuple t), v)] = serialize_input_data [(KTuple t, v)]"
    by (simp add: serialize_input_data_def pack_key_def)
  then have "rbind (json_column (serialize_input_data [(KStr (str_pack_tuple t), v)])) deserialize_input_data = Inr [(KTuple t, v)]"
    using plain_column[OF v] deserialize_input_data_inverse[OF v] by simp
  moreover have "deserialize_input_data (serialize_input_data d) = Inr d" if "dumpable_lists (JDict d)"
    using assms(1) that by (intro deserialize_input_data_inverse) (simp only: plain_parts)
  ultimately show ?thesis by (simp add: json_column_serialize[OF assms(1)] del: dumpable_lists.simps)
qed

theorem input_data_round_trip_witness:
  "rbind (json_column (serialize_input_data
     [(KTuple (3, True), JDict [(KStr ''id'', JInt 3), (KTuple (4, False), JNull)]), (KStr ''x'', JList [JBool True])]))
     deserialize_input_data =
   Inr [(KTuple (3, True), JDict [(KStr ''id'', JInt 3), (KTuple (4, False), JNull)]), (KStr ''x'', JList [JBool True])] \<and>
   rbind (json_column (serialize_input_data [(KStr ''x'', JList [JDict [(KTuple (3, True), JNull)]])])) deserialize_input_data =
     Inl JsonTypeError"
  using input_data_round_trip[where v = JNull, THEN conjunct1, of
      "[(KTuple (3, True), JDict [(KStr ''id'', JInt 3), (KTuple (4, False), JNull)]), (KStr ''x'', JList [JBool True])]"]
    input_data_round_trip[where v = JNull, THEN conjunct1, of "[(KStr ''x'', JList [JDict [(KTuple (3, True), JNull)]])]"]
  by (simp add: packed_prefix_def del: serialize.simps)

end
