(* ===== verification/Heat_Converge.thy ===== *)
theory Heat_Converge
  imports Heat_Sync_Point
begin

text \<open>
  The tables of a stack under convergence (\<open>heat/engine/stack.py\<close>, \<open>heat/engine/resource.py\<close>,
  \<open>heat/db/sqlalchemy/api.py\<close>): the rows of its resources, its own row with the traversal that
  every write is conditional on, and the graph of a traversal, computed from the template and from
  the resources that exist.
\<close>

section \<open>Resources\<close>

datatype rsrc_action = RsrcInit | RsrcCreate | RsrcUpdate | RsrcDelete

record rsrc =
  rs_name :: string
  rs_action :: rsrc_action
  rs_status :: string
  rs_template :: int
  rs_replaces :: "int option"
  rs_replaced_by :: "int option"
  rs_requires :: "int list"
  rs_needed_by :: "int list"

text \<open>The table, in the order of its ids, which the database hands out.\<close>

record rsrc_table =
  rt_rows :: "(int \<times> rsrc) list"
  rt_next :: int

definition rt_get :: "rsrc_table \<Rightarrow> int \<Rightarrow> rsrc option" where
  "rt_get rt i = map_of (rt_rows rt) i"

definition rt_update :: "int \<Rightarrow> (rsrc \<Rightarrow> rsrc) \<Rightarrow> rsrc_table \<Rightarrow> rsrc_table" where
  "rt_update i f rt = rt\<lparr>rt_rows := map (\<lambda>(j, r). (j, if j = i then f r else r)) (rt_rows rt)\<rparr>"

definition rt_insert :: "rsrc \<Rightarrow> rsrc_table \<Rightarrow> int \<times> rsrc_table" where
  "rt_insert r rt =
     (rt_next rt, rt\<lparr>rt_rows := rt_rows rt @ [(rt_next rt, r)], rt_next := rt_next rt + 1\<rparr>)"

definition rt_delete :: "int \<Rightarrow> rsrc_table \<Rightarrow> rsrc_table" where
  "rt_delete i rt = rt\<lparr>rt_rows := AList.delete i (rt_rows rt)\<rparr>"

text \<open>\<open>make_replacement\<close>: the id of the new row.\<close>

definition make_replacement :: "int \<Rightarrow> rsrc \<Rightarrow> int \<Rightarrow> rsrc_table \<Rightarrow> int \<times> rsrc_table" where
  "make_replacement i r new_tmpl_id rt =
     (let (new_id, rt') = rt_insert
            (r\<lparr>rs_action := RsrcInit, rs_status := ''COMPLETE'', rs_template := new_tmpl_id,
               rs_replaces := Some i, rs_replaced_by := None\<rparr>) rt
      in (new_id, rt_update i (\<lambda>r. r\<lparr>rs_status := ''COMPLETE'', rs_replaced_by := Some new_id\<rparr>) rt'))"

text \<open>The ids in the input data of an update, whose values are \<open>None\<close> or dictionaries, and those in
  the input data of a cleanup, whose values are \<open>None\<close> or ids.\<close>

definition required_ids :: "pydict \<Rightarrow> int list" where
  "required_ids data = remdups (concat (map (\<lambda>(k, v).
     case v of JDict d \<Rightarrow> (case map_of d (KStr ''id'') of Some (JInt i) \<Rightarrow> [i] | _ \<Rightarrow> []) | _ \<Rightarrow> []) data))"

definition needed_ids :: "pydict \<Rightarrow> int list" where
  "needed_ids data = remdups (concat (map (\<lambda>(k, v). case v of JInt i \<Rightarrow> [i] | _ \<Rightarrow> []) data))"

text \<open>What a create or an update that succeeds leaves in the row. An update that finds nothing to
  change leaves the action and the status as they were.\<close>

definition updated_row :: "bool \<Rightarrow> int \<Rightarrow> pydict \<Rightarrow> rsrc \<Rightarrow> rsrc" where
  "updated_row changed template_id data r =
     (if changed \<or> rs_action r = RsrcInit
      then r\<lparr>rs_action := (if rs_action r = RsrcInit then RsrcCreate else RsrcUpdate), rs_status := ''COMPLETE''\<rparr>
      else r)\<lparr>rs_template := template_id, rs_requires := required_ids data\<rparr>"

text \<open>
  What \<open>_action_recorder\<close> wrote last before a check ended with an exception: nothing if no action had
  begun, \<open>FAILED\<close> if one failed or was aborted, \<open>COMPLETE\<close> if it ended before. A create that is
  retried deletes in between.
\<close>

type_synonym recorded = "(rsrc_action \<times> string) option"

definition may_record :: "bool \<Rightarrow> rsrc \<Rightarrow> recorded \<Rightarrow> bool" where
  "may_record is_update r rec =
     (case rec of
        None \<Rightarrow> True
      | Some (action, status) \<Rightarrow> status \<in> {''FAILED'', ''COMPLETE''} \<and>
          (if \<not> is_update then action = RsrcDelete
           else if rs_action r = RsrcInit then action \<in> {RsrcCreate, RsrcDelete}
           else action = RsrcUpdate))"

definition record_action :: "recorded \<Rightarrow> rsrc \<Rightarrow> rsrc" where
  "record_action rec r = (case rec of None \<Rightarrow> r | Some (action, status) \<Rightarrow> r\<lparr>rs_action := action, rs_status := status\<rparr>)"

text \<open>The row of a check that fails: that of an update has moved to the new template all the same.\<close>

definition failed_row :: "recorded \<Rightarrow> bool \<Rightarrow> int \<Rightarrow> pydict \<Rightarrow> rsrc \<Rightarrow> rsrc" where
  "failed_row rec is_update template_id data r =
     (if is_update then (record_action rec r)\<lparr>rs_template := template_id, rs_requires := required_ids data\<rparr>
      else (record_action rec r)\<lparr>rs_needed_by := needed_ids data\<rparr>)"

text \<open>The row of a check that times out: an update of a resource that was created does not get to its
  new template, since \<open>update_convergence\<close> catches only failures of the resource.\<close>

definition timed_out_row :: "recorded \<Rightarrow> bool \<Rightarrow> int \<Rightarrow> pydict \<Rightarrow> rsrc \<Rightarrow> rsrc" where
  "timed_out_row rec is_update template_id data r =
     (if is_update \<and> rs_action r \<noteq> RsrcInit then record_action rec r
      else failed_row rec is_update template_id data r)"

text \<open>\<open>_update_replacement_data\<close>, and \<open>delete_convergence\<close> without its lock: a resource of an older
  template is destroyed, one of the current template only learns who needs it.\<close>

definition update_replacement_data :: "rsrc \<Rightarrow> int \<Rightarrow> int list \<Rightarrow> rsrc_table \<Rightarrow> rsrc_table" where
  "update_replacement_data r template_id needed_by rt =
     (case rs_replaced_by r of
        None \<Rightarrow> rt
      | Some j \<Rightarrow> rt_update j (\<lambda>r'. if rs_template r' = template_id
                                    then r'\<lparr>rs_needed_by := needed_by, rs_replaces := None\<rparr> else r') rt)"

definition delete_convergence :: "int \<Rightarrow> rsrc \<Rightarrow> int \<Rightarrow> pydict \<Rightarrow> rsrc_table \<Rightarrow> rsrc_table" where
  "delete_convergence i r template_id data rt =
     (if rs_template r \<noteq> template_id then
        update_replacement_data r template_id (needed_ids data) (rt_delete i rt)
      else rt_update i (\<lambda>r. r\<lparr>rs_needed_by := needed_ids data\<rparr>) rt)"

text \<open>\<open>construct_input_data\<close>: the reference id and the attributes come from the plugin,
  the uuid from the database.\<close>

definition str_rsrc_action :: "rsrc_action \<Rightarrow> string" where
  "str_rsrc_action a = (case a of RsrcInit \<Rightarrow> ''INIT'' | RsrcCreate \<Rightarrow> ''CREATE''
     | RsrcUpdate \<Rightarrow> ''UPDATE'' | RsrcDelete \<Rightarrow> ''DELETE'')"

definition construct_input_data :: "int \<Rightarrow> rsrc \<Rightarrow> json \<Rightarrow> pydict \<Rightarrow> string \<Rightarrow> json" where
  "construct_input_data i r reference_id attrs uuid = JDict
     [(KStr ''id'', JInt i), (KStr ''name'', JStr (rs_name r)), (KStr ''reference_id'', reference_id),
      (KStr ''attrs'', JDict attrs), (KStr ''status'', JStr (rs_status r)),
      (KStr ''action'', JStr (str_rsrc_action (rs_action r))), (KStr ''uuid'', JStr uuid)]"

section \<open>The stack\<close>

datatype stack_action = CREATE | DELETE | UPDATE | ROLLBACK | SUSPEND | RESUME | ADOPT | SNAPSHOT
  | CHECK | RESTORE

datatype stack_status = IN_PROGRESS | FAILED | COMPLETE

text \<open>A row, and what an engine holds of it in memory. The dependencies of the traversal are stored
  as a list of edges.\<close>

record stack_row =
  st_id :: string
  st_traversal :: string
  st_edges :: "node_key edge list"
  st_action :: stack_action
  st_status :: stack_status
  st_template :: int
  st_prev_template :: "int option"
  st_disable_rollback :: bool

definition convergence_dependencies :: "stack_row \<Rightarrow> node_key graph" where
  "convergence_dependencies s = dependencies (st_edges s)"

text \<open>\<open>stack_update\<close> with an expected traversal, and \<open>Stack.store\<close>, which writes what the engine
  holds: whether the row was updated, and the row.\<close>

definition stack_update :: "string \<Rightarrow> (stack_row \<Rightarrow> stack_row) \<Rightarrow> stack_row option
    \<Rightarrow> bool \<times> stack_row option" where
  "stack_update exp_trvsl values row =
     (case row of
        None \<Rightarrow> (False, None)
      | Some r \<Rightarrow> if st_traversal r = exp_trvsl then (True, Some (values r)) else (False, Some r))"

definition stack_store :: "string \<Rightarrow> stack_row \<Rightarrow> stack_row option \<Rightarrow> bool \<times> stack_row option" where
  "stack_store exp_trvsl s row = stack_update exp_trvsl (\<lambda>_. s) row"

text \<open>\<open>state_set\<close>: whether it returns a true value, and the row. Only four actions return whether the
  row was updated; for the others the state is written under a condition, and \<open>None\<close> is returned.\<close>

definition persist_state :: "stack_row \<Rightarrow> stack_row option \<Rightarrow> bool \<times> stack_row option" where
  "persist_state s row =
     stack_update (st_traversal s) (\<lambda>r. r\<lparr>st_action := st_action s, st_status := st_status s\<rparr>) row"

definition state_set :: "stack_row \<Rightarrow> stack_status \<Rightarrow> stack_row option \<Rightarrow> bool \<times> stack_row option" where
  "state_set s status row =
     (let s' = s\<lparr>st_status := status\<rparr> in
      if st_action s \<in> {UPDATE, DELETE, CREATE, ADOPT} then persist_state s' row
      else if status = IN_PROGRESS \<or> st_action s \<in> {UPDATE, DELETE, ROLLBACK} then
        (False, snd (persist_state s' row))
      else (False, row))"

text \<open>The beginning of \<open>converge_stack\<close>, up to its first store.\<close>

definition converge_stack :: "stack_row \<Rightarrow> int \<Rightarrow> stack_action \<Rightarrow> string \<Rightarrow> stack_row" where
  "converge_stack s template action uuid =
     s\<lparr>st_prev_template := (if action \<notin> {CREATE, ADOPT} then Some (st_template s) else st_prev_template s),
       st_template := template, st_action := action, st_status := IN_PROGRESS, st_traversal := uuid\<rparr>"

section \<open>The graph of a traversal\<close>

text \<open>\<open>_get_best_existing_rsrc_db\<close>: the loop stops at a resource of the current template; one of the
  previous template replaces the candidate, any other only fills in for none.\<close>

fun best_existing_loop :: "stack_row \<Rightarrow> string \<Rightarrow> (int \<times> rsrc) option \<Rightarrow> (int \<times> rsrc) list
    \<Rightarrow> (int \<times> rsrc) option" where
  "best_existing_loop s name candidate [] = candidate"
| "best_existing_loop s name candidate (e # es) =
     (if rs_name (snd e) \<noteq> name then best_existing_loop s name candidate es
      else if rs_template (snd e) = st_template s then Some e
      else if Some (rs_template (snd e)) = st_prev_template s then best_existing_loop s name (Some e) es
      else if candidate = None then best_existing_loop s name (Some e) es
      else best_existing_loop s name candidate es)"

definition best_existing :: "stack_row \<Rightarrow> (int \<times> rsrc) list \<Rightarrow> string \<Rightarrow> (int \<times> rsrc) option" where
  "best_existing s existing name = best_existing_loop s name None existing"

text \<open>\<open>_update_or_store_resources\<close>: the resources of the template, requirers first, each with the id
  of its row. The requirers of a resource were met before it.\<close>

definition new_rsrc :: "string \<Rightarrow> int \<Rightarrow> int list \<Rightarrow> rsrc" where
  "new_rsrc name template needed_by =
     \<lparr>rs_name = name, rs_action = RsrcInit, rs_status = ''COMPLETE'', rs_template = template,
      rs_replaces = None, rs_replaced_by = None, rs_requires = [], rs_needed_by = needed_by\<rparr>"

definition store_rsrc :: "stack_row \<Rightarrow> (int \<times> rsrc) list \<Rightarrow> string graph \<Rightarrow> string
    \<Rightarrow> rsrc_table \<times> (string \<times> int) list \<Rightarrow> rsrc_table \<times> (string \<times> int) list" where
  "store_rsrc s existing deps name acc =
     (let (rt, ids) = acc;
          new_requirers = List.map_filter (map_of ids) (nd_satisfy (node_of deps name))
      in case best_existing s existing name of
           None \<Rightarrow> (let (i, rt') = rt_insert (new_rsrc name (st_template s) (remdups new_requirers)) rt
                    in (rt', (name, i) # ids))
         | Some (i, r) \<Rightarrow>
             (rt_update i (\<lambda>r. r\<lparr>rs_needed_by := remdups (rs_needed_by r @ new_requirers)\<rparr>) rt, (name, i) # ids))"

definition update_or_store_resources :: "stack_row \<Rightarrow> string graph \<Rightarrow> rsrc_table
    \<Rightarrow> (string heat_exc, rsrc_table \<times> (string \<times> int) list) result" where
  "update_or_store_resources s deps rt =
     rbind (dep_reversed deps) (\<lambda>names. Inr (fold (store_rsrc s (rt_rows rt) deps) names (rt, [])))"

text \<open>\<open>_compute_convg_dependencies\<close>: the updates of the template's resources, and for each existing
  resource its cleanup, after the cleanups of what needed it and after its own update.\<close>

definition add_cleanup :: "(int \<times> rsrc) list \<Rightarrow> node_key graph \<Rightarrow> int \<times> rsrc \<Rightarrow> node_key graph" where
  "add_cleanup existing dep e =
     (let (i, r) = e;
          dep1 = add_edge dep ((i, False), None);
          dep2 = foldl (\<lambda>dep q. if q \<in> fst ` set existing
                                then add_edge dep ((q, False), Some (i, False)) else dep) dep1 (rs_requires r)
      in case rs_replaces r of
           None \<Rightarrow> dep2
         | Some q \<Rightarrow> if q \<in> fst ` set existing then add_edge dep2 ((q, False), Some (i, False)) else dep2)"

text \<open>\<open>k in dep\<close> runs through the topological order until it meets the key, and raises where the order
  gets stuck in a cycle before.\<close>

definition dep_contains :: "'k graph \<Rightarrow> 'k \<Rightarrow> ('k heat_exc, bool) result" where
  "dep_contains g k =
     (let (ks, e) = toposort (dep_graph g False)
      in if k \<in> set ks then Inr True else case e of None \<Rightarrow> Inr False | Some x \<Rightarrow> Inl x)"

definition add_existing :: "(int \<times> rsrc) list \<Rightarrow> node_key graph \<Rightarrow> int \<times> rsrc
    \<Rightarrow> (node_key heat_exc, node_key graph) result" where
  "add_existing existing dep e =
     (let dep3 = add_cleanup existing dep e
      in rbind (dep_contains dep3 (fst e, True)) (\<lambda>there.
           Inr (if there then add_edge dep3 ((fst e, False), Some (fst e, True)) else dep3)))"

definition compute_convg_dependencies :: "(int \<times> rsrc) list \<Rightarrow> string graph \<Rightarrow> (string \<times> int) list
    \<Rightarrow> (node_key heat_exc, node_key graph) result" where
  "compute_convg_dependencies existing deps ids =
     rfold (add_existing existing) (translate (\<lambda>name. (the (map_of ids name), True)) deps) existing"

text \<open>The graph that comes out when nothing is raised: membership is that of the nodes.\<close>

definition add_existing_node :: "(int \<times> rsrc) list \<Rightarrow> node_key graph \<Rightarrow> int \<times> rsrc \<Rightarrow> node_key graph" where
  "add_existing_node existing dep e =
     (let dep3 = add_cleanup existing dep e
      in if (fst e, True) \<in> keys dep3 then add_edge dep3 ((fst e, False), Some (fst e, True)) else dep3)"

definition convergence_graph :: "(int \<times> rsrc) list \<Rightarrow> string graph \<Rightarrow> (string \<times> int) list \<Rightarrow> node_key graph" where
  "convergence_graph existing deps ids =
     foldl (add_existing_node existing) (translate (\<lambda>name. (the (map_of ids name), True)) deps) existing"

end
