(* ===== verification/Heat_Worker.thy ===== *)
theory Heat_Worker
  imports Heat_Converge "HOL-Library.Multiset"
begin

text \<open>
  The worker of Heat's convergence engine (\<open>heat/engine/worker.py\<close>) and the traversals that
  \<open>heat/engine/stack.py\<close> starts, as a system of concurrent threads. A thread is what is left of a
  request: a list of actions, each one access to the database or to the message queue, so that the
  threads of all engines interleave at these accesses. What the plugin of a resource or the user
  decides is a choice of the step.
\<close>

section \<open>Messages, actions and threads\<close>

text \<open>A \<open>check_resource\<close> message.\<close>

record check_msg =
  m_rsrc :: int
  m_traversal :: string
  m_data :: pydict
  m_update :: bool
  m_adopt :: json

text \<open>What \<open>sync\<close> calls when no predecessor is missing.\<close>

datatype propagate = DoCheck json | MarkStack stack_row

datatype action =
    Check check_msg stack_row rsrc pydict
  | HandleFailure int bool stack_row
  | HandleTimeout stack_row
  | SyncRead sync_args propagate
  | SyncWrite sync_args propagate int pydict
  | Trigger check_msg
  | Recast check_msg
  | MarkComplete stack_row
  | PurgeStore stack_row
  | DeletePoints string string
  | DeleteStack stack_row
  | Rollback stack_row
  | Converge stack_row string
  | ConvergeDeps stack_row
  | CreatePoint entity bool stack_row

text \<open>What a thread does when a sync point is not found: \<open>_initiate_propagate_resource\<close> looks at the
  current traversal, \<open>_retrigger_check_resource\<close> ignores it, nobody else catches it.\<close>

datatype handler = Propagating int bool string | Retriggering | Uncaught

record thread =
  th_handler :: handler
  th_todo :: "action list"

text \<open>The events of a run: a node is triggered, its check is done, one resource replaces another, the
  stack is marked complete. The first field is the traversal.\<close>

datatype event = Triggered string node_key | Checked string node_key | Replaced int int
  | Completed string

record world =
  w_points :: sp_store
  w_rsrcs :: rsrc_table
  w_stack :: "stack_row option"
  w_inbox :: "check_msg multiset"
  w_threads :: "thread multiset"
  w_uuids :: "string list"
  w_log :: "event list"

text \<open>What a step chooses: how the check of a resource ends (with a change or not, and the reference
  id, the attributes and the uuid of the resource; or with what was recorded of its action), whether a lock is stolen from a dead engine, the traversal id and the
  template of a new traversal, the dependencies of a template, a failure to delete credentials.\<close>

datatype choice = CheckOk bool json pydict string | CheckReplace | CheckLocked bool | CheckFails recorded
  | CheckTimesOut recorded | NewTraversal string int | TemplateDeps "string graph" | CredentialsFail | NoChoice

section \<open>Propagation\<close>

text \<open>\<open>req not in graph_key\<close> compares an id with both members of the tuple; a boolean is a number.\<close>

definition in_tuple :: "int \<Rightarrow> node_key \<Rightarrow> bool" where
  "in_tuple i k \<longleftrightarrow> i = fst k \<or> i = (if snd k then 1 else 0)"

definition get_input_data :: "int \<Rightarrow> rsrc \<Rightarrow> node_key \<Rightarrow> json \<Rightarrow> node_key \<Rightarrow> json" where
  "get_input_data i r graph_key data target =
     (if snd target then data
      else if \<not> in_tuple (fst target) graph_key then
        JInt (case rs_replaced_by r of Some j \<Rightarrow> j | None \<Rightarrow> i)
      else JNull)"

text \<open>The call of \<open>sync\<close> that \<open>propagate_check_resource\<close> makes.\<close>

definition propagate_check_resource :: "int \<Rightarrow> string \<Rightarrow> node_key list \<Rightarrow> node_key \<Rightarrow> json \<Rightarrow> bool
    \<Rightarrow> json \<Rightarrow> action" where
  "propagate_check_resource next_res_id traversal predecessors sender_key sender_data is_update adopt =
     SyncRead \<lparr>sa_entity = RsrcEntity next_res_id, sa_traversal = traversal, sa_update = is_update,
       sa_preds = predecessors, sa_key = sender_key, sa_data = sender_data\<rparr> (DoCheck adopt)"

definition check_stack_complete :: "stack_row \<Rightarrow> string \<Rightarrow> int \<Rightarrow> node_key graph \<Rightarrow> bool \<Rightarrow> action list" where
  "check_stack_complete s traversal sender_id deps is_update =
     (if (sender_id, is_update) \<in> set (roots deps) then
        [SyncRead \<lparr>sa_entity = StackEntity (st_id s), sa_traversal = traversal, sa_update = True,
           sa_preds = roots deps, sa_key = (sender_id, is_update), sa_data = JNull\<rparr> (MarkStack s)]
      else [])"

definition graph_key_of :: "node_key graph \<Rightarrow> int \<Rightarrow> bool \<Rightarrow> rsrc \<Rightarrow> node_key" where
  "graph_key_of deps i is_update r =
     (if (i, is_update) \<notin> keys deps then
        (case rs_replaces r of Some j \<Rightarrow> (j, is_update) | None \<Rightarrow> (i, is_update))
      else (i, is_update))"

definition initiate_propagate :: "check_msg \<Rightarrow> stack_row \<Rightarrow> rsrc \<Rightarrow> json
    \<Rightarrow> (convergence_exc, action list) result" where
  "initiate_propagate m s r data =
     (let deps = convergence_dependencies s;
          graph_key = graph_key_of deps (m_rsrc m) (m_update m) r
      in case dep_required_by deps graph_key of
           Inl e \<Rightarrow> Inl (GraphError e)
         | Inr reqs \<Rightarrow> Inr
             (map (\<lambda>(req, fwd).
                propagate_check_resource req (m_traversal m) (nd_require (node_of deps (req, fwd))) graph_key
                  (get_input_data (m_rsrc m) r graph_key data (req, fwd)) fwd (m_adopt m)) reqs
              @ check_stack_complete s (m_traversal m) (m_rsrc m) deps (m_update m)))"

definition retrigger_check_resource :: "bool \<Rightarrow> int \<Rightarrow> stack_row \<Rightarrow> thread" where
  "retrigger_check_resource is_update i s =
     (let deps = convergence_dependencies s;
          key = (if is_update \<and> (i, is_update) \<notin> keys deps then (i, \<not> is_update) else (i, is_update))
      in \<lparr>th_handler = Retriggering,
          th_todo = [propagate_check_resource i (st_traversal s) (nd_require (node_of deps key)) key
                       JNull (snd key) JNull]\<rparr>)"

section \<open>The end of a traversal\<close>

definition purge_db :: "stack_row \<Rightarrow> action list" where
  "purge_db s =
     (if st_prev_template s \<noteq> None \<and> st_status s \<noteq> FAILED then [PurgeStore (s\<lparr>st_prev_template := None\<rparr>)]
      else [])
     @ [DeletePoints (st_id s) (st_traversal s)]
     @ (if st_action s = DELETE \<and> st_status s = COMPLETE then [DeleteStack s] else [])"

definition stop :: thread where
  "stop = \<lparr>th_handler = Uncaught, th_todo = []\<rparr>"

definition continue :: "action list \<Rightarrow> thread" where
  "continue todo = \<lparr>th_handler = Uncaught, th_todo = todo\<rparr>"

text \<open>\<open>_handle_failure\<close>: whether the state was set, the row, and what the thread goes on with.\<close>

definition handle_failure :: "stack_row \<Rightarrow> stack_row option \<Rightarrow> bool \<times> stack_row option \<times> thread" where
  "handle_failure s row =
     (let (updated, row') = state_set s FAILED row; s' = s\<lparr>st_status := FAILED\<rparr> in
      if \<not> updated then (False, row', stop)
      else if \<not> st_disable_rollback s \<and> st_action s \<in> {CREATE, ADOPT, UPDATE} then
        (True, row', continue [Rollback s'])
      else (True, row', continue (purge_db s')))"

section \<open>Actions\<close>

definition replacement_msg :: "check_msg \<Rightarrow> int \<Rightarrow> pydict \<Rightarrow> check_msg" where
  "replacement_msg m i data = m\<lparr>m_rsrc := i, m_data := serialize_input_data data\<rparr>"

text \<open>\<open>_do_check_resource\<close> and what \<open>check_resource\<close> does after it. Only an update of a resource that
  was created can ask for its replacement.\<close>

fun exec_check :: "choice \<Rightarrow> check_msg \<Rightarrow> stack_row \<Rightarrow> rsrc \<Rightarrow> pydict \<Rightarrow> world \<Rightarrow> (world \<times> thread) option" where
  "exec_check (CheckOk changed reference_id attrs uuid) m s r data w =
     (if \<not> plain (JDict attrs) \<or> \<not> plain reference_id then None
      else
        (let i = m_rsrc m; tmpl = st_template s;
             r' = (if m_update m then updated_row changed tmpl data r else r);
             rt = (if m_update m then rt_update i (updated_row changed tmpl data) (w_rsrcs w)
                   else delete_convergence i r tmpl data (w_rsrcs w));
             node = graph_key_of (convergence_dependencies s) i (m_update m) r;
             w' = w\<lparr>w_rsrcs := rt, w_log := Checked (m_traversal m) node # w_log w\<rparr>
         in Some (w', case initiate_propagate m s r' (construct_input_data i r' reference_id attrs uuid) of
                        Inl _ \<Rightarrow> stop
                      | Inr todo \<Rightarrow> \<lparr>th_handler = Propagating i (m_update m) (m_traversal m), th_todo = todo\<rparr>)))"
| "exec_check CheckReplace m s r data w =
     (if m_update m \<and> rs_action r \<noteq> RsrcInit then
        (let (j, rt) = make_replacement (m_rsrc m) r (st_template s) (w_rsrcs w)
         in Some (w\<lparr>w_rsrcs := rt, w_log := Replaced (m_rsrc m) j # w_log w\<rparr>,
                  continue [Recast (replacement_msg m j data)]))
      else None)"
| "exec_check (CheckLocked steal) m s r data w =
     (if steal then
        Some (w\<lparr>w_rsrcs := rt_update (m_rsrc m) (\<lambda>r. r\<lparr>rs_status := ''FAILED''\<rparr>) (w_rsrcs w)\<rparr>,
              continue [Recast (replacement_msg m (m_rsrc m) data)])
      else Some (w, stop))"
| "exec_check (CheckFails rec) m s r data w =
     (if may_record (m_update m) r rec then
        Some (w\<lparr>w_rsrcs := rt_update (m_rsrc m) (failed_row rec (m_update m) (st_template s) data) (w_rsrcs w)\<rparr>,
              continue [HandleFailure (m_rsrc m) (m_update m) s])
      else None)"
| "exec_check (CheckTimesOut rec) m s r data w =
     (if may_record (m_update m) r rec then
        Some (w\<lparr>w_rsrcs := rt_update (m_rsrc m) (timed_out_row rec (m_update m) (st_template s) data) (w_rsrcs w)\<rparr>,
              case w_stack w of
                None \<Rightarrow> stop
              | Some s' \<Rightarrow> if st_traversal s' \<noteq> m_traversal m then stop else continue [HandleTimeout s'])
      else None)"
| "exec_check _ m s r data w = None"

definition not_found :: "handler \<Rightarrow> stack_row option \<Rightarrow> thread" where
  "not_found h row =
     (case h of
        Propagating i is_update traversal \<Rightarrow>
          (case row of
             None \<Rightarrow> stop
           | Some s \<Rightarrow> if st_traversal s = traversal then stop else retrigger_check_resource is_update i s)
      | Retriggering \<Rightarrow> stop
      | Uncaught \<Rightarrow> stop)"

text \<open>What follows the last write of \<open>sync\<close>.\<close>

definition after_sync :: "sync_args \<Rightarrow> propagate \<Rightarrow> pydict \<Rightarrow> action list" where
  "after_sync c p data =
     (if sync_waiting c data \<noteq> [] then []
      else (case p of
              MarkStack s \<Rightarrow> [MarkComplete s]
            | DoCheck adopt \<Rightarrow>
                (case sa_entity c of
                   RsrcEntity i \<Rightarrow> [Trigger \<lparr>m_rsrc = i, m_traversal = sa_traversal c,
                     m_data = serialize_input_data data, m_update = sa_update c, m_adopt = adopt\<rparr>]
                 | StackEntity _ \<Rightarrow> [])))"

definition exec_sync_write :: "sync_args \<Rightarrow> propagate \<Rightarrow> int \<Rightarrow> pydict \<Rightarrow> thread \<Rightarrow> world \<Rightarrow> world \<times> thread" where
  "exec_sync_write c p atomic_key data th w =
     (case sync_write (w_points w) c atomic_key data of
        Inl _ \<Rightarrow> (w, stop)
      | Inr (rows, sps) \<Rightarrow>
          if rows = 0 then (w, th\<lparr>th_todo := SyncRead c p # th_todo th\<rparr>)
          else (w\<lparr>w_points := sps\<rparr>, th\<lparr>th_todo := after_sync c p data @ th_todo th\<rparr>))"

definition exec_sync_read :: "sync_args \<Rightarrow> propagate \<Rightarrow> thread \<Rightarrow> world \<Rightarrow> thread" where
  "exec_sync_read c p th w =
     (case sync_read (w_points w) c of
        Inr (atomic_key, data) \<Rightarrow> th\<lparr>th_todo := SyncWrite c p atomic_key data # th_todo th\<rparr>
      | Inl (SyncPointNotFound _) \<Rightarrow> not_found (th_handler th) (w_stack w)
      | Inl _ \<Rightarrow> stop)"

definition exec_mark_complete :: "stack_row \<Rightarrow> world \<Rightarrow> world \<times> action list" where
  "exec_mark_complete s w =
     (let (updated, row) = state_set s COMPLETE (w_stack w)
      in (w\<lparr>w_stack := row, w_log := Completed (st_traversal s) # w_log w\<rparr>,
          if updated then purge_db (s\<lparr>st_status := COMPLETE\<rparr>) else []))"

text \<open>\<open>_converge_create_or_update\<close>: the sync points are created in the order of the graph, then the
  leaves are triggered. The graph raises where its order gets stuck in a cycle.\<close>

definition exec_converge_deps :: "string graph \<Rightarrow> stack_row \<Rightarrow> world \<Rightarrow> world \<times> thread" where
  "exec_converge_deps tdeps s w =
     (case update_or_store_resources s tdeps (w_rsrcs w) of
        Inl _ \<Rightarrow> (w, stop)
      | Inr (rt, ids) \<Rightarrow>
          (case compute_convg_dependencies (rt_rows (w_rsrcs w)) tdeps ids of
             Inl _ \<Rightarrow> (w\<lparr>w_rsrcs := rt\<rparr>, stop)
           | Inr deps \<Rightarrow>
               (let s' = s\<lparr>st_edges := graph_edges deps\<rparr>;
                    (updated, row) = stack_store (st_traversal s') s' (w_stack w);
                    w' = w\<lparr>w_rsrcs := rt, w_stack := row\<rparr>
                in if \<not> updated then (w', stop)
                   else (let (nodes, e) = toposort (dep_graph deps False) in (w', continue
                             (map (\<lambda>(i, u). CreatePoint (RsrcEntity i) u s') nodes
                              @ (if e \<noteq> None then []
                                 else CreatePoint (StackEntity (st_id s')) True s' #
                                   (if leaves deps = [] then [MarkComplete s']
                                    else map (\<lambda>(i, u). Trigger \<lparr>m_rsrc = i, m_traversal = st_traversal s',
                                           m_data = serialize_input_data [], m_update = u, m_adopt = JNull\<rparr>)
                                         (leaves deps)))))))))"

text \<open>One action of a thread: the world and the thread after it; \<open>None\<close> when the choice is not one of
  this action.\<close>

fun exec :: "choice \<Rightarrow> action \<Rightarrow> thread \<Rightarrow> world \<Rightarrow> (world \<times> thread) option" where
  "exec ch (Check m s r data) th w = exec_check ch m s r data w"
| "exec ch (HandleFailure i is_update s) th w =
     (let (handled, row, th') = handle_failure s (w_stack w)
      in Some (w\<lparr>w_stack := row\<rparr>,
               if handled then th'
               else (case row of
                       None \<Rightarrow> stop
                     | Some latest \<Rightarrow>
                         if st_traversal s \<noteq> st_traversal latest then retrigger_check_resource is_update i latest
                         else stop)))"
| "exec ch (HandleTimeout s) th w =
     (let (handled, row, th') = handle_failure s (w_stack w) in Some (w\<lparr>w_stack := row\<rparr>, th'))"
| "exec ch (SyncRead c p) th w = Some (w, exec_sync_read c p th w)"
| "exec ch (SyncWrite c p atomic_key data) th w = Some (exec_sync_write c p atomic_key data th w)"
| "exec ch (Trigger m) th w =
     Some (w\<lparr>w_inbox := add_mset m (w_inbox w),
             w_log := Triggered (m_traversal m) (m_rsrc m, m_update m) # w_log w\<rparr>, th)"
| "exec ch (Recast m) th w = Some (w\<lparr>w_inbox := add_mset m (w_inbox w)\<rparr>, th)"
| "exec ch (MarkComplete s) th w =
     (let (w', todo) = exec_mark_complete s w in Some (w', th\<lparr>th_todo := todo @ th_todo th\<rparr>))"
| "exec ch (PurgeStore s) th w =
     (let (updated, row) = stack_store (st_traversal s) s (w_stack w)
      in Some (w\<lparr>w_stack := row\<rparr>, if updated then th else stop))"
| "exec ch (DeletePoints stack_id traversal) th w =
     Some (w\<lparr>w_points := sp_delete_all (w_points w) stack_id traversal\<rparr>, th)"
| "exec ch (DeleteStack s) th w =
     (if ch = CredentialsFail then Some (w\<lparr>w_stack := snd (state_set s FAILED (w_stack w))\<rparr>, stop)
      else Some (w\<lparr>w_stack := None\<rparr>, th))"
| "exec ch (Rollback s) th w =
     (case ch of
        NewTraversal uuid tmpl \<Rightarrow>
          if uuid \<in> set (w_uuids w) then None
          else
            (let w' = w\<lparr>w_uuids := uuid # w_uuids w\<rparr> in
             case st_prev_template s of
               None \<Rightarrow> Some (w', continue [Converge (converge_stack s tmpl ROLLBACK uuid) (st_traversal s)])
             | Some prev \<Rightarrow>
                 (let s' = s\<lparr>st_prev_template := None\<rparr>;
                      (updated, row) = stack_store (st_traversal s') s' (w_stack w)
                  in Some (w'\<lparr>w_stack := row\<rparr>,
                           if updated then continue [Converge (converge_stack s' prev ROLLBACK uuid) (st_traversal s)]
                           else stop)))
      | _ \<Rightarrow> None)"
| "exec ch (Converge s previous_traversal) th w =
     (let (updated, row) = stack_store previous_traversal s (w_stack w)
      in Some (w\<lparr>w_stack := row\<rparr>,
               if updated then
                 continue ((if previous_traversal \<noteq> [] then [DeletePoints (st_id s) previous_traversal] else [])
                           @ [ConvergeDeps s])
               else stop))"
| "exec ch (ConvergeDeps s) th w =
     (case ch of TemplateDeps tdeps \<Rightarrow> Some (exec_converge_deps tdeps s w) | _ \<Rightarrow> None)"
| "exec ch (CreatePoint e is_update s) th w =
     Some (case sp_create (w_points w) e (st_traversal s) is_update (st_id s) of
             Inl _ \<Rightarrow> (w, stop)
           | Inr sps \<Rightarrow> (w\<lparr>w_points := sps\<rparr>, th))"

section \<open>Steps\<close>

text \<open>The beginning of \<open>check_resource\<close>, up to the work on the resource.\<close>

definition begin_check :: "bool \<Rightarrow> check_msg \<Rightarrow> world \<Rightarrow> thread" where
  "begin_check timed_out m w =
     (case deserialize_input_data (m_data m) of
        Inl _ \<Rightarrow> stop
      | Inr data \<Rightarrow>
          (case (rt_get (w_rsrcs w) (m_rsrc m), w_stack w) of
             (Some r, Some s) \<Rightarrow>
               if m_traversal m \<noteq> st_traversal s then stop
               else if timed_out then continue [HandleTimeout s]
               else if m_update m \<and> rs_replaced_by r \<noteq> None \<and> rs_template r \<noteq> st_template s then stop
               else continue [Check m s r data]
           | _ \<Rightarrow> stop))"

text \<open>A step of the system: an engine takes a message from the queue, a thread executes its next
  action or ends, an engine dies, a user asks for another traversal.\<close>

inductive step :: "world \<Rightarrow> world \<Rightarrow> bool" where
  deliver: "m \<in># w_inbox w \<Longrightarrow>
     step w (w\<lparr>w_inbox := w_inbox w - {#m#}, w_threads := add_mset (begin_check timed_out m w) (w_threads w)\<rparr>)"
| run: "th \<in># w_threads w \<Longrightarrow> th_todo th = a # rest \<Longrightarrow>
     exec ch a (th\<lparr>th_todo := rest\<rparr>) w = Some (w', th') \<Longrightarrow>
     step w (w'\<lparr>w_threads := add_mset th' (w_threads w - {#th#})\<rparr>)"
| finish: "th \<in># w_threads w \<Longrightarrow> th_todo th = [] \<Longrightarrow>
     step w (w\<lparr>w_threads := w_threads w - {#th#}\<rparr>)"
| crash: "th \<in># w_threads w \<Longrightarrow> step w (w\<lparr>w_threads := w_threads w - {#th#}\<rparr>)"
| request: "w_stack w = Some s \<Longrightarrow> uuid \<notin> set (w_uuids w) \<Longrightarrow>
     step w (w\<lparr>w_uuids := uuid # w_uuids w,
              w_threads := add_mset (continue [Converge (converge_stack s tmpl action uuid) (st_traversal s)])
                             (w_threads w)\<rparr>)"

end
