(* ===== verification/Heat_Traversal_Spec.thy ===== *)
theory Heat_Traversal_Spec
  imports Main
begin

text \<open>
  What a traversal of Heat's convergence engine promises, as an abstract machine over the graph of
  the traversal: how often each node is about to be triggered, was triggered, is in the hands of an
  engine, was checked, and owes a notice to each of its targets, and whose notices arrived. Messages
  and engines may be lost, and the sync points may be deleted. Its invariant holds on every run.
\<close>

section \<open>Targets\<close>

text \<open>The targets of the notices are the sync points: one per node, which waits for what the node
  requires, and one of the stack, which waits for the nodes that nothing requires. \<open>R\<close> relates a
  node to those it requires.\<close>

datatype 'k target = ToNode 'k | ToStack

definition preds :: "'k set \<Rightarrow> ('k \<times> 'k) set \<Rightarrow> 'k target \<Rightarrow> 'k set" where
  "preds N R x = (case x of ToNode p \<Rightarrow> R `` {p} | ToStack \<Rightarrow> {k \<in> N. k \<notin> Range R})"

record 'k tstate =
  ts_pend :: "'k \<Rightarrow> nat"
  ts_trig :: "'k \<Rightarrow> nat"
  ts_tok :: "'k \<Rightarrow> nat"
  ts_done :: "'k \<Rightarrow> nat"
  ts_debt :: "'k \<Rightarrow> 'k target \<Rightarrow> nat"
  ts_arrived :: "'k target \<Rightarrow> 'k set"
  ts_live :: bool
  ts_cpend :: nat
  ts_comp :: nat

definition ts_start :: "'k set \<Rightarrow> ('k \<times> 'k) set \<Rightarrow> 'k tstate" where
  "ts_start N R = \<lparr>ts_pend = (\<lambda>p. if p \<in> N \<and> R `` {p} = {} then 1 else 0), ts_trig = (\<lambda>_. 0),
     ts_tok = (\<lambda>_. 0), ts_done = (\<lambda>_. 0), ts_debt = (\<lambda>_ _. 0), ts_arrived = (\<lambda>_. {}), ts_live = True,
     ts_cpend = (if N = {} then 1 else 0), ts_comp = 0\<rparr>"

text \<open>The arrival of the last notice makes the target pending.\<close>

definition ts_arrive :: "'k set \<Rightarrow> ('k \<times> 'k) set \<Rightarrow> 'k \<Rightarrow> 'k target \<Rightarrow> 'k tstate \<Rightarrow> 'k tstate" where
  "ts_arrive N R k x s =
     (let full = preds N R x \<subseteq> insert k (ts_arrived s x) in
      s\<lparr>ts_debt := (ts_debt s)(k := (ts_debt s k)(x := ts_debt s k x - 1)),
        ts_arrived := (ts_arrived s)(x := insert k (ts_arrived s x)),
        ts_pend := (\<lambda>p. ts_pend s p + (if full \<and> x = ToNode p then 1 else 0)),
        ts_cpend := ts_cpend s + (if full \<and> x = ToStack then 1 else 0)\<rparr>)"

definition ts_trigger :: "'k \<Rightarrow> 'k tstate \<Rightarrow> 'k tstate" where
  "ts_trigger p s = s\<lparr>ts_pend := (ts_pend s)(p := ts_pend s p - 1),
     ts_trig := (ts_trig s)(p := ts_trig s p + 1), ts_tok := (ts_tok s)(p := ts_tok s p + 1)\<rparr>"

definition ts_check :: "'k set \<Rightarrow> ('k \<times> 'k) set \<Rightarrow> 'k \<Rightarrow> 'k tstate \<Rightarrow> 'k tstate" where
  "ts_check N R k s = s\<lparr>ts_tok := (ts_tok s)(k := ts_tok s k - 1), ts_done := (ts_done s)(k := ts_done s k + 1),
     ts_debt := (ts_debt s)(k := (\<lambda>x. ts_debt s k x + (if k \<in> preds N R x then 1 else 0)))\<rparr>"

definition ts_complete :: "'k tstate \<Rightarrow> 'k tstate" where
  "ts_complete s = s\<lparr>ts_cpend := ts_cpend s - 1, ts_comp := ts_comp s + 1\<rparr>"

definition ts_delete :: "'k tstate \<Rightarrow> 'k tstate" where
  "ts_delete s = s\<lparr>ts_arrived := (\<lambda>_. {}), ts_live := False\<rparr>"

text \<open>What is lost is never won back.\<close>

definition ts_lost :: "'k tstate \<Rightarrow> 'k tstate \<Rightarrow> bool" where
  "ts_lost s s' \<longleftrightarrow> (\<forall>p. ts_pend s' p \<le> ts_pend s p) \<and> (\<forall>k. ts_tok s' k \<le> ts_tok s k) \<and>
     (\<forall>k x. ts_debt s' k x \<le> ts_debt s k x) \<and> ts_cpend s' \<le> ts_cpend s \<and> ts_trig s' = ts_trig s \<and>
     ts_done s' = ts_done s \<and> ts_arrived s' = ts_arrived s \<and> ts_live s' = ts_live s \<and> ts_comp s' = ts_comp s"

text \<open>The steps that lose nothing, and all steps.\<close>

inductive ts_exact :: "'k set \<Rightarrow> ('k \<times> 'k) set \<Rightarrow> 'k tstate \<Rightarrow> 'k tstate \<Rightarrow> bool" for N R where
  stutter: "ts_exact N R s s"
| trigger: "p \<in> N \<Longrightarrow> 0 < ts_pend s p \<Longrightarrow> ts_exact N R s (ts_trigger p s)"
| check: "k \<in> N \<Longrightarrow> 0 < ts_tok s k \<Longrightarrow> ts_exact N R s (ts_check N R k s)"
| arrive: "0 < ts_debt s k x \<Longrightarrow> k \<in> preds N R x \<Longrightarrow> ts_live s \<Longrightarrow> ts_exact N R s (ts_arrive N R k x s)"
| complete: "0 < ts_cpend s \<Longrightarrow> ts_exact N R s (ts_complete s)"
| purge: "0 < ts_comp s \<Longrightarrow> ts_exact N R s (ts_delete s)"

inductive ts_step :: "'k set \<Rightarrow> ('k \<times> 'k) set \<Rightarrow> 'k tstate \<Rightarrow> 'k tstate \<Rightarrow> bool" for N R where
  exact: "ts_exact N R s s' \<Longrightarrow> ts_lost s' s'' \<Longrightarrow> ts_step N R s s''"
| delete: "ts_lost (ts_delete s) s' \<Longrightarrow> ts_step N R s s'"

section \<open>The invariant\<close>

definition b2n :: "bool \<Rightarrow> nat" where
  "b2n b = (if b then 1 else 0)"

definition once :: "'k set \<Rightarrow> ('k \<times> 'k) set \<Rightarrow> 'k tstate \<Rightarrow> bool" where
  "once N R s \<longleftrightarrow>
     (\<forall>p \<in> N. ts_pend s p + ts_trig s p \<le> 1) \<and>
     (\<forall>k \<in> N. ts_tok s k + ts_done s k \<le> ts_trig s k) \<and>
     (\<forall>k \<in> N. \<forall>x. ts_debt s k x + b2n (k \<in> ts_arrived s x) \<le> ts_done s k) \<and>
     (\<forall>k \<in> N. \<forall>x. k \<notin> preds N R x \<longrightarrow> ts_debt s k x = 0) \<and>
     ts_cpend s + ts_comp s \<le> 1"

definition causal :: "'k set \<Rightarrow> ('k \<times> 'k) set \<Rightarrow> 'k tstate \<Rightarrow> bool" where
  "causal N R s \<longleftrightarrow>
     (\<forall>p \<in> N. 0 < ts_pend s p + ts_trig s p \<longrightarrow>
        (\<forall>k \<in> R `` {p}. 0 < ts_done s k) \<and> (ts_live s \<longrightarrow> R `` {p} \<subseteq> ts_arrived s (ToNode p))) \<and>
     (0 < ts_cpend s + ts_comp s \<longrightarrow>
        (\<forall>k \<in> N. ts_done s k = 1 \<and> (\<forall>x. ts_debt s k x = 0)) \<and>
        (ts_live s \<longrightarrow> preds N R ToStack \<subseteq> ts_arrived s ToStack))"

definition ts_inv :: "'k set \<Rightarrow> ('k \<times> 'k) set \<Rightarrow> 'k tstate \<Rightarrow> bool" where
  "ts_inv N R s \<longleftrightarrow> once N R s \<and> causal N R s"

definition traversal_graph :: "'k set \<Rightarrow> ('k \<times> 'k) set \<Rightarrow> bool" where
  "traversal_graph N R \<longleftrightarrow> finite N \<and> R \<subseteq> N \<times> N \<and> acyclic R"

lemma b2n_simps [simp]: "b2n True = 1" "b2n False = 0"
  by (simp_all add: b2n_def)

lemma ts_inv_start: "ts_inv N R (ts_start N R)"
  by (auto simp: ts_inv_def once_def causal_def ts_start_def preds_def)

lemma ts_onceD:
  assumes "ts_inv N R s"
  shows "p \<in> N \<Longrightarrow> ts_pend s p + ts_trig s p \<le> 1" "k \<in> N \<Longrightarrow> ts_tok s k + ts_done s k \<le> ts_trig s k"
    "k \<in> N \<Longrightarrow> ts_debt s k x + b2n (k \<in> ts_arrived s x) \<le> ts_done s k" "ts_cpend s + ts_comp s \<le> 1"
    "k \<in> N \<Longrightarrow> k \<notin> preds N R x \<Longrightarrow> ts_debt s k x = 0"
  using assms by (simp_all add: ts_inv_def once_def)

lemma ts_causalD:
  assumes "ts_inv N R s"
  shows "p \<in> N \<Longrightarrow> 0 < ts_pend s p + ts_trig s p \<Longrightarrow> (p, k) \<in> R \<Longrightarrow> 0 < ts_done s k"
    "p \<in> N \<Longrightarrow> 0 < ts_pend s p + ts_trig s p \<Longrightarrow> (p, k) \<in> R \<Longrightarrow> ts_live s \<Longrightarrow> k \<in> ts_arrived s (ToNode p)"
    "0 < ts_cpend s + ts_comp s \<Longrightarrow> k \<in> N \<Longrightarrow> ts_done s k = 1"
    "0 < ts_cpend s + ts_comp s \<Longrightarrow> k \<in> N \<Longrightarrow> ts_debt s k x = 0"
    "0 < ts_cpend s + ts_comp s \<Longrightarrow> ts_live s \<Longrightarrow> k \<in> preds N R ToStack \<Longrightarrow> k \<in> ts_arrived s ToStack"
  using assms by (auto simp: ts_inv_def causal_def)

lemma ts_invI:
  assumes "\<And>p. p \<in> N \<Longrightarrow> ts_pend s p + ts_trig s p \<le> 1" "\<And>k. k \<in> N \<Longrightarrow> ts_tok s k + ts_done s k \<le> ts_trig s k"
    "\<And>k x. k \<in> N \<Longrightarrow> ts_debt s k x + b2n (k \<in> ts_arrived s x) \<le> ts_done s k" "ts_cpend s + ts_comp s \<le> 1"
    "\<And>k x. k \<in> N \<Longrightarrow> k \<notin> preds N R x \<Longrightarrow> ts_debt s k x = 0"
    "\<And>p k. p \<in> N \<Longrightarrow> 0 < ts_pend s p + ts_trig s p \<Longrightarrow> (p, k) \<in> R \<Longrightarrow> 0 < ts_done s k"
    "\<And>p k. p \<in> N \<Longrightarrow> 0 < ts_pend s p + ts_trig s p \<Longrightarrow> (p, k) \<in> R \<Longrightarrow> ts_live s \<Longrightarrow>
       k \<in> ts_arrived s (ToNode p)"
    "\<And>k. 0 < ts_cpend s + ts_comp s \<Longrightarrow> k \<in> N \<Longrightarrow> ts_done s k = 1"
    "\<And>k x. 0 < ts_cpend s + ts_comp s \<Longrightarrow> k \<in> N \<Longrightarrow> ts_debt s k x = 0"
    "\<And>k. 0 < ts_cpend s + ts_comp s \<Longrightarrow> ts_live s \<Longrightarrow> k \<in> preds N R ToStack \<Longrightarrow> k \<in> ts_arrived s ToStack"
  shows "ts_inv N R s"
  using assms by (auto simp: ts_inv_def once_def causal_def)

lemma ts_inv_lost:
  assumes inv: "ts_inv N R s" and lost: "ts_lost s s'"
  shows "ts_inv N R s'"
proof -
  have l: "ts_pend s' p \<le> ts_pend s p" "ts_tok s' k \<le> ts_tok s k" "ts_debt s' k x \<le> ts_debt s k x"
    "ts_cpend s' \<le> ts_cpend s" and eq [simp]: "ts_trig s' = ts_trig s" "ts_done s' = ts_done s"
    "ts_arrived s' = ts_arrived s" "ts_live s' = ts_live s" "ts_comp s' = ts_comp s" for p k x
    using lost by (simp_all add: ts_lost_def)
  note D = ts_onceD[OF inv] and C = ts_causalD[OF inv]
  have pos: "0 < ts_pend s' p + ts_trig s p \<Longrightarrow> 0 < ts_pend s p + ts_trig s p"
    "0 < ts_cpend s' + ts_comp s \<Longrightarrow> 0 < ts_cpend s + ts_comp s" for p
    using l(1)[of p] l(4) by linarith+
  show ?thesis
  proof (rule ts_invI, unfold eq)
    show "p \<in> N \<Longrightarrow> ts_pend s' p + ts_trig s p \<le> 1" for p using D(1)[of p] l(1)[of p] by linarith
    show "k \<in> N \<Longrightarrow> ts_tok s' k + ts_done s k \<le> ts_trig s k" for k using D(2)[of k] l(2)[of k] by linarith
    show "k \<in> N \<Longrightarrow> ts_debt s' k x + b2n (k \<in> ts_arrived s x) \<le> ts_done s k" for k x
      using D(3)[of k x] l(3)[of k x] by linarith
    show "ts_cpend s' + ts_comp s \<le> 1" using D(4) l(4) by linarith
    show "k \<in> N \<Longrightarrow> k \<notin> preds N R x \<Longrightarrow> ts_debt s' k x = 0" for k x using D(5)[of k x] l(3)[of k x] by simp
    show "0 < ts_cpend s' + ts_comp s \<Longrightarrow> k \<in> N \<Longrightarrow> ts_debt s' k x = 0" for k x
      using C(4)[OF pos(2), of k x] l(3)[of k x] by simp
    show "p \<in> N \<Longrightarrow> 0 < ts_pend s' p + ts_trig s p \<Longrightarrow> (p, k) \<in> R \<Longrightarrow> 0 < ts_done s k" for p k
      by (rule C(1)[OF _ pos(1)])
    show "p \<in> N \<Longrightarrow> 0 < ts_pend s' p + ts_trig s p \<Longrightarrow> (p, k) \<in> R \<Longrightarrow> ts_live s \<Longrightarrow>
      k \<in> ts_arrived s (ToNode p)" for p k by (rule C(2)[OF _ pos(1)])
    show "0 < ts_cpend s' + ts_comp s \<Longrightarrow> k \<in> N \<Longrightarrow> ts_done s k = 1" for k by (rule C(3)[OF pos(2)])
    show "0 < ts_cpend s' + ts_comp s \<Longrightarrow> ts_live s \<Longrightarrow> k \<in> preds N R ToStack \<Longrightarrow> k \<in> ts_arrived s ToStack" for k
      by (rule C(5)[OF pos(2)])
  qed
qed

section \<open>Steps\<close>

lemma ts_inv_trigger:
  assumes inv: "ts_inv N R s" and p: "p \<in> N" "0 < ts_pend s p"
  shows "ts_inv N R (ts_trigger p s)"
proof -
  note D = ts_onceD[OF inv] and C = ts_causalD[OF inv]
  have pos: "0 < ts_pend (ts_trigger p s) q + ts_trig (ts_trigger p s) q \<Longrightarrow> 0 < ts_pend s q + ts_trig s q" for q
    using p(2) by (auto simp: ts_trigger_def split: if_splits)
  have fields [simp]: "ts_done (ts_trigger p s) = ts_done s" "ts_debt (ts_trigger p s) = ts_debt s"
    "ts_arrived (ts_trigger p s) = ts_arrived s" "ts_live (ts_trigger p s) = ts_live s"
    "ts_cpend (ts_trigger p s) = ts_cpend s" "ts_comp (ts_trigger p s) = ts_comp s"
    by (simp_all add: ts_trigger_def)
  show ?thesis
  proof (rule ts_invI, unfold fields)
    show "q \<in> N \<Longrightarrow> ts_pend (ts_trigger p s) q + ts_trig (ts_trigger p s) q \<le> 1" for q
      using D(1)[of q] p(2) by (auto simp: ts_trigger_def)
    show "k \<in> N \<Longrightarrow> ts_tok (ts_trigger p s) k + ts_done s k \<le> ts_trig (ts_trigger p s) k" for k
      using D(2)[of k] by (auto simp: ts_trigger_def)
    show "q \<in> N \<Longrightarrow> 0 < ts_pend (ts_trigger p s) q + ts_trig (ts_trigger p s) q \<Longrightarrow> (q, k) \<in> R \<Longrightarrow>
      0 < ts_done s k" for q k by (rule C(1)[OF _ pos])
    show "q \<in> N \<Longrightarrow> 0 < ts_pend (ts_trigger p s) q + ts_trig (ts_trigger p s) q \<Longrightarrow> (q, k) \<in> R \<Longrightarrow>
      ts_live s \<Longrightarrow> k \<in> ts_arrived s (ToNode q)" for q k by (rule C(2)[OF _ pos])
  qed (fact D(3-5) C(3-5))+
qed

lemma ts_inv_check:
  assumes inv: "ts_inv N R s" and k: "k \<in> N" "0 < ts_tok s k"
  shows "ts_inv N R (ts_check N R k s)"
proof -
  note D = ts_onceD[OF inv] and C = ts_causalD[OF inv]
  have fresh: "ts_done s k = 0" using D(1)[OF k(1)] D(2)[OF k(1)] k(2) by linarith
  then have none: "\<not> 0 < ts_cpend s + ts_comp s" using C(3)[OF _ k(1)] by fastforce
  have fields [simp]: "ts_pend (ts_check N R k s) = ts_pend s" "ts_trig (ts_check N R k s) = ts_trig s"
    "ts_arrived (ts_check N R k s) = ts_arrived s" "ts_live (ts_check N R k s) = ts_live s"
    "ts_cpend (ts_check N R k s) = ts_cpend s" "ts_comp (ts_check N R k s) = ts_comp s"
    by (simp_all add: ts_check_def)
  show ?thesis
  proof (rule ts_invI, unfold fields)
    show "j \<in> N \<Longrightarrow> ts_tok (ts_check N R k s) j + ts_done (ts_check N R k s) j \<le> ts_trig s j" for j
      using D(2)[of j] k(2) by (auto simp: ts_check_def)
    show "j \<in> N \<Longrightarrow> ts_debt (ts_check N R k s) j x + b2n (j \<in> ts_arrived s x) \<le> ts_done (ts_check N R k s) j" for j x
      using D(3)[of j x] fresh by (auto simp: ts_check_def)
    show "p \<in> N \<Longrightarrow> 0 < ts_pend s p + ts_trig s p \<Longrightarrow> (p, j) \<in> R \<Longrightarrow> 0 < ts_done (ts_check N R k s) j" for p j
      using C(1)[of p j] by (auto simp: ts_check_def)
    show "j \<in> N \<Longrightarrow> j \<notin> preds N R x \<Longrightarrow> ts_debt (ts_check N R k s) j x = 0" for j x
      using D(5)[of j x] by (auto simp: ts_check_def)
  qed (fact D(1) D(4) C(2) | use none in blast)+
qed

text \<open>When everything that nothing requires is checked, everything is.\<close>

lemma all_checked:
  assumes g: "traversal_graph N R" and k: "k \<in> N"
    and roots: "\<And>k. k \<in> preds N R ToStack \<Longrightarrow> P k"
    and req: "\<And>p k. P p \<Longrightarrow> p \<in> N \<Longrightarrow> (p, k) \<in> R \<Longrightarrow> P k"
  shows "P k"
proof -
  have "finite R" "acyclic R" using g by (auto simp: traversal_graph_def intro: finite_subset)
  then have "wf R" by (rule finite_acyclic_wf)
  from this k show ?thesis
  proof (induction k rule: wf_induct_rule)
    case (less k)
    show ?case
    proof (cases "k \<in> Range R")
      case True
      then obtain p where p: "(p, k) \<in> R" by blast
      then have "p \<in> N" using g by (auto simp: traversal_graph_def)
      with p less.IH req show ?thesis by blast
    next
      case False
      with less.prems roots show ?thesis by (simp add: preds_def)
    qed
  qed
qed

lemma ts_inv_arrive:
  assumes g: "traversal_graph N R" and inv: "ts_inv N R s"
    and k: "0 < ts_debt s k x" "k \<in> preds N R x" and live: "ts_live s"
  shows "ts_inv N R (ts_arrive N R k x s)" (is "ts_inv N R ?s")
proof -
  note D = ts_onceD[OF inv] and C = ts_causalD[OF inv]
  have kN: "k \<in> N" using k(2) g by (auto simp: preds_def traversal_graph_def split: target.splits)
  have d1: "ts_done s j \<le> 1" if "j \<in> N" for j using D(1,2)[OF that] by linarith
  have new: "k \<notin> ts_arrived s x" "ts_debt s k x = 1" "ts_done s k = 1"
    using D(3)[OF kN, of x] d1[OF kN] k(1) by (auto simp: b2n_def split: if_splits)
  have ncomp: "ts_cpend s + ts_comp s = 0" using C(4)[OF _ kN, of x] k(1) by fastforce
  define full where "full \<longleftrightarrow> preds N R x \<subseteq> insert k (ts_arrived s x)"
  have fields [simp]: "ts_trig ?s = ts_trig s" "ts_done ?s = ts_done s" "ts_tok ?s = ts_tok s"
    "ts_live ?s = ts_live s" "ts_comp ?s = ts_comp s"
    and pend [simp]: "ts_pend ?s p = ts_pend s p + (if full \<and> x = ToNode p then 1 else 0)"
    "ts_cpend ?s = ts_cpend s + (if full \<and> x = ToStack then 1 else 0)"
    and arr: "ts_arrived ?s y = (if y = x then insert k (ts_arrived s y) else ts_arrived s y)"
    and debt: "ts_debt ?s j y = (if j = k \<and> y = x then 0 else ts_debt s j y)" for p y j
    using new(2) by (simp_all add: ts_arrive_def Let_def full_def)
  have done_arr: "0 < ts_done s j" if "full" "j \<in> preds N R x" for j
  proof -
    have jN: "j \<in> N" using that(2) g by (auto simp: preds_def traversal_graph_def split: target.splits)
    have "j \<in> insert k (ts_arrived s x)" using that unfolding full_def by (rule subsetD)
    then show ?thesis
    proof
      assume "j \<in> ts_arrived s x" then show ?thesis using D(3)[OF jN, of x] by simp
    qed (simp add: new(3))
  qed
  have untrig: "ts_pend s p + ts_trig s p = 0" if "x = ToNode p" "p \<in> N" for p
  proof (rule ccontr)
    assume "ts_pend s p + ts_trig s p \<noteq> 0"
    then show False using C(2)[OF that(2) _ _ live, of k] k(2) new(1) that(1) by (simp add: preds_def)
  qed
  have all: "0 < ts_done s j" if "full" "x = ToStack" "j \<in> N" for j
  proof (rule all_checked[OF g that(3)])
    show "\<And>k. k \<in> preds N R ToStack \<Longrightarrow> 0 < ts_done s k" using done_arr that(1,2) by simp
    show "0 < ts_done s p \<Longrightarrow> p \<in> N \<Longrightarrow> (p, i) \<in> R \<Longrightarrow> 0 < ts_done s i" for p i
      using D(2)[of p] C(1)[of p i] by simp
  qed
  have paid: "ts_debt ?s j y = 0" if full: "full" "x = ToStack" and j: "j \<in> N" for j y
  proof (cases "j \<in> preds N R y")
    case False
    then show ?thesis using D(5)[OF j] by (simp add: debt)
  next
    case True
    have "j \<in> ts_arrived ?s y"
    proof (cases y)
      case ToStack
      have "j \<in> insert k (ts_arrived s ToStack)" using True full ToStack unfolding full_def by blast
      then show ?thesis unfolding arr ToStack using full(2) by simp
    next
      case (ToNode p)
      then have p: "(p, j) \<in> R" "p \<in> N" using True g by (auto simp: preds_def traversal_graph_def)
      have "0 < ts_done s p" by (rule all[OF full p(2)])
      then have "0 < ts_pend s p + ts_trig s p" using D(2)[OF p(2)] by linarith
      from C(2)[OF p(2) this p(1) live] show ?thesis using ToNode by (auto simp: arr)
    qed
    then show ?thesis using D(3)[OF j, of y] d1[OF j] by (auto simp: debt arr b2n_def split: if_splits)
  qed
  show ?thesis
  proof (rule ts_invI, unfold fields)
    fix p assume p: "p \<in> N"
    show "ts_pend ?s p + ts_trig s p \<le> 1" using D(1)[OF p] untrig[OF _ p] by simp
    assume pos: "0 < ts_pend ?s p + ts_trig s p"
    fix j assume j: "(p, j) \<in> R"
    consider "0 < ts_pend s p + ts_trig s p" | "full" "x = ToNode p" using pos by (auto split: if_splits)
    note cs = this
    show "0 < ts_done s j" using cs C(1)[OF p _ j] done_arr[of j] j by cases (auto simp: preds_def)
    show "j \<in> ts_arrived ?s (ToNode p)"
      using cs
    proof cases
      case 1
      from C(2)[OF p this j live] show ?thesis by (auto simp: arr)
    next
      case 2
      then have "j \<in> insert k (ts_arrived s x)" using j unfolding full_def by (auto simp: preds_def)
      then show ?thesis unfolding arr 2(2)[symmetric] by simp
    qed
  next
    show "j \<in> N \<Longrightarrow> ts_debt ?s j y + b2n (j \<in> ts_arrived ?s y) \<le> ts_done s j" for j y
      using D(3)[of j y] new by (auto simp: debt arr b2n_def)
    show "ts_cpend ?s + ts_comp s \<le> 1" using ncomp by simp
    show "j \<in> N \<Longrightarrow> j \<notin> preds N R y \<Longrightarrow> ts_debt ?s j y = 0" for j y using D(5)[of j y] by (simp add: debt)
  next
    assume "0 < ts_cpend ?s + ts_comp s"
    then have full: "full" "x = ToStack" using ncomp by (auto split: if_splits)
    show "j \<in> N \<Longrightarrow> ts_done s j = 1" for j using all[OF full, of j] d1[of j] by simp
    show "j \<in> N \<Longrightarrow> ts_debt ?s j y = 0" for j y by (rule paid[OF full])
    show "j \<in> preds N R ToStack \<Longrightarrow> j \<in> ts_arrived ?s ToStack" for j
      using full unfolding arr full_def by auto
  qed (fact D(2))
qed

lemma ts_inv_complete:
  assumes inv: "ts_inv N R s" and pend: "0 < ts_cpend s"
  shows "ts_inv N R (ts_complete s)"
proof -
  have eq: "ts_cpend (ts_complete s) + ts_comp (ts_complete s) = ts_cpend s + ts_comp s"
    using pend by (simp add: ts_complete_def)
  have fields: "ts_pend (ts_complete s) = ts_pend s" "ts_trig (ts_complete s) = ts_trig s"
    "ts_tok (ts_complete s) = ts_tok s" "ts_done (ts_complete s) = ts_done s"
    "ts_debt (ts_complete s) = ts_debt s" "ts_arrived (ts_complete s) = ts_arrived s"
    "ts_live (ts_complete s) = ts_live s" by (simp_all add: ts_complete_def)
  show ?thesis using inv unfolding ts_inv_def once_def causal_def eq fields .
qed

lemma ts_inv_delete:
  assumes "ts_inv N R s" shows "ts_inv N R (ts_delete s)"
  using assms unfolding ts_inv_def once_def causal_def
  by (simp add: ts_delete_def) (meson add_leD1)

lemma ts_inv_exact:
  assumes "traversal_graph N R" "ts_exact N R s s'" "ts_inv N R s"
  shows "ts_inv N R s'"
  using assms(2,3) by (cases rule: ts_exact.cases)
    (simp_all add: ts_inv_trigger ts_inv_check ts_inv_arrive assms(1) ts_inv_complete ts_inv_delete)

lemma ts_inv_step:
  assumes "traversal_graph N R" "ts_step N R s s'" "ts_inv N R s"
  shows "ts_inv N R s'"
  using assms(2) by (cases rule: ts_step.cases)
    (use assms(1,3) ts_inv_exact ts_inv_lost ts_inv_delete in metis)+


section \<open>Runs that lose nothing\<close>

text \<open>There every count is what the invariant bounds it by.\<close>

definition balanced :: "'k set \<Rightarrow> ('k \<times> 'k) set \<Rightarrow> 'k tstate \<Rightarrow> bool" where
  "balanced N R s \<longleftrightarrow>
     (\<forall>k \<in> N. ts_tok s k + ts_done s k = ts_trig s k) \<and>
     (ts_live s \<longrightarrow>
        (\<forall>x. \<forall>k \<in> preds N R x. ts_debt s k x + b2n (k \<in> ts_arrived s x) = ts_done s k) \<and>
        (\<forall>p \<in> N. R `` {p} \<subseteq> ts_arrived s (ToNode p) \<longrightarrow> 0 < ts_pend s p + ts_trig s p) \<and>
        (preds N R ToStack \<subseteq> ts_arrived s ToStack \<longrightarrow> 0 < ts_cpend s + ts_comp s)) \<and>
     (\<not> ts_live s \<longrightarrow> 0 < ts_comp s)"

lemma balancedD:
  assumes "balanced N R s"
  shows "k \<in> N \<Longrightarrow> ts_tok s k + ts_done s k = ts_trig s k"
    "ts_live s \<Longrightarrow> k \<in> preds N R x \<Longrightarrow> ts_debt s k x + b2n (k \<in> ts_arrived s x) = ts_done s k"
    "ts_live s \<Longrightarrow> p \<in> N \<Longrightarrow> R `` {p} \<subseteq> ts_arrived s (ToNode p) \<Longrightarrow> 0 < ts_pend s p + ts_trig s p"
    "ts_live s \<Longrightarrow> preds N R ToStack \<subseteq> ts_arrived s ToStack \<Longrightarrow> 0 < ts_cpend s + ts_comp s"
    "\<not> ts_live s \<Longrightarrow> 0 < ts_comp s"
  using assms by (simp_all add: balanced_def)

lemma balancedI:
  assumes "\<And>k. k \<in> N \<Longrightarrow> ts_tok s k + ts_done s k = ts_trig s k"
    "\<And>k x. ts_live s \<Longrightarrow> k \<in> preds N R x \<Longrightarrow> ts_debt s k x + b2n (k \<in> ts_arrived s x) = ts_done s k"
    "\<And>p. ts_live s \<Longrightarrow> p \<in> N \<Longrightarrow> R `` {p} \<subseteq> ts_arrived s (ToNode p) \<Longrightarrow> 0 < ts_pend s p + ts_trig s p"
    "ts_live s \<Longrightarrow> preds N R ToStack \<subseteq> ts_arrived s ToStack \<Longrightarrow> 0 < ts_cpend s + ts_comp s"
    "\<not> ts_live s \<Longrightarrow> 0 < ts_comp s"
  shows "balanced N R s"
  using assms by (simp add: balanced_def)

lemma preds_in: "traversal_graph N R \<Longrightarrow> k \<in> preds N R x \<Longrightarrow> k \<in> N"
  by (auto simp: preds_def traversal_graph_def split: target.splits)

lemma has_root:
  assumes g: "traversal_graph N R" and ne: "N \<noteq> {}"
  shows "preds N R ToStack \<noteq> {}"
proof
  assume "preds N R ToStack = {}"
  then have "False" if "k \<in> N" for k
    using all_checked[OF g that, of "\<lambda>_. False"] by blast
  with ne show False by blast
qed

lemma balanced_start:
  assumes "traversal_graph N R" shows "balanced N R (ts_start N R)"
  using has_root[OF assms] preds_in[OF assms] by (auto simp: balanced_def ts_start_def)

lemma balanced_exact:
  assumes g: "traversal_graph N R" and inv: "ts_inv N R s" and step: "ts_exact N R s s'"
    and bal: "balanced N R s"
  shows "balanced N R s'"
  using step
proof (cases rule: ts_exact.cases)
  case (trigger p)
  then show ?thesis using bal unfolding balanced_def by (auto simp: ts_trigger_def)
next
  case (check k)
  have "ts_done s k = 0" using ts_onceD(1,2)[OF inv check(2)] check(3) by linarith
  then show ?thesis using bal check unfolding balanced_def by (auto simp: ts_check_def)
next
  case (arrive k x)
  have kN: "k \<in> N" using preds_in[OF g arrive(3)] .
  have new: "k \<notin> ts_arrived s x" "ts_debt s k x = 1"
    using ts_onceD(1,2)[OF inv kN] ts_onceD(3)[OF inv kN, of x] arrive(2) by (auto simp: b2n_def split: if_splits)
  note B = balancedD[OF bal]
  define full where "full \<longleftrightarrow> preds N R x \<subseteq> insert k (ts_arrived s x)"
  have fields: "ts_trig s' = ts_trig s" "ts_done s' = ts_done s" "ts_tok s' = ts_tok s"
    "ts_live s' = ts_live s" "ts_comp s' = ts_comp s"
    "ts_pend s' p = ts_pend s p + (if full \<and> x = ToNode p then 1 else 0)"
    "ts_cpend s' = ts_cpend s + (if full \<and> x = ToStack then 1 else 0)"
    "ts_arrived s' y = (if y = x then insert k (ts_arrived s y) else ts_arrived s y)"
    "ts_debt s' j y = (if j = k \<and> y = x then 0 else ts_debt s j y)" for p y j
    using new(2) by (simp_all add: arrive(1) ts_arrive_def Let_def full_def)
  show ?thesis
  proof (rule balancedI, unfold fields)
    show "j \<in> preds N R y \<Longrightarrow> (if j = k \<and> y = x then 0 else ts_debt s j y) +
        b2n (j \<in> (if y = x then insert k (ts_arrived s y) else ts_arrived s y)) = ts_done s j" for j y
      using B(2)[OF arrive(4), of j y] new by (auto simp: b2n_def)
    show "0 < ts_pend s p + (if full \<and> x = ToNode p then 1 else 0) + ts_trig s p"
      if "p \<in> N" "R `` {p} \<subseteq> (if ToNode p = x then insert k (ts_arrived s (ToNode p)) else ts_arrived s (ToNode p))" for p
      using B(3)[OF arrive(4) that(1)] that(2) by (auto simp: full_def preds_def split: if_splits)
    show "0 < ts_cpend s + (if full \<and> x = ToStack then 1 else 0) + ts_comp s"
      if "preds N R ToStack \<subseteq> (if ToStack = x then insert k (ts_arrived s ToStack) else ts_arrived s ToStack)"
      using B(4)[OF arrive(4)] that by (auto simp: full_def split: if_splits)
  qed (use B arrive(4) in blast)+
next
  case complete
  then show ?thesis using bal unfolding balanced_def by (auto simp: ts_complete_def)
next
  case purge
  then show ?thesis using bal unfolding balanced_def by (auto simp: ts_delete_def)
qed (use bal in simp)

text \<open>When such a run is at rest, every node was triggered and checked exactly once, and the stack
  was marked complete exactly once.\<close>

definition ts_at_rest :: "'k set \<Rightarrow> ('k \<times> 'k) set \<Rightarrow> 'k tstate \<Rightarrow> bool" where
  "ts_at_rest N R s \<longleftrightarrow> (\<forall>k \<in> N. ts_pend s k = 0 \<and> ts_tok s k = 0 \<and> (\<forall>x. ts_debt s k x = 0)) \<and> ts_cpend s = 0"

lemma all_triggered:
  assumes g: "traversal_graph N R" and bal: "balanced N R s" and rest: "ts_at_rest N R s" and live: "ts_live s"
    and p: "p \<in> N"
  shows "0 < ts_trig s p"
proof -
  have "wf (R\<inverse>)" using g by (intro finite_acyclic_wf_converse) (auto simp: traversal_graph_def intro: finite_subset)
  from this p show ?thesis
  proof (induction p rule: wf_induct_rule)
    case (less p)
    have "k \<in> ts_arrived s (ToNode p)" if k: "(p, k) \<in> R" for k
    proof -
      have kN: "k \<in> N" using k g by (auto simp: traversal_graph_def)
      have "0 < ts_trig s k" by (rule less.IH[OF _ kN]) (use k in simp)
      then have "0 < ts_done s k" using balancedD(1)[OF bal kN] rest kN by (simp add: ts_at_rest_def)
      moreover have "ts_debt s k (ToNode p) + b2n (k \<in> ts_arrived s (ToNode p)) = ts_done s k"
        using balancedD(2)[OF bal live] k by (simp add: preds_def)
      ultimately show ?thesis using rest kN by (simp add: ts_at_rest_def b2n_def split: if_splits)
    qed
    then have "R `` {p} \<subseteq> ts_arrived s (ToNode p)" by blast
    from balancedD(3)[OF bal live less.prems this] show ?case
      using rest less.prems by (simp add: ts_at_rest_def)
  qed
qed

lemma at_rest_complete:
  assumes g: "traversal_graph N R" and inv: "ts_inv N R s" and bal: "balanced N R s" and rest: "ts_at_rest N R s"
  shows "ts_comp s = 1" "k \<in> N \<Longrightarrow> ts_trig s k = 1 \<and> ts_done s k = 1"
proof -
  have pos: "0 < ts_comp s"
  proof (cases "ts_live s")
    case True
    have "preds N R ToStack \<subseteq> ts_arrived s ToStack"
    proof
      fix k assume k: "k \<in> preds N R ToStack"
      then have kN: "k \<in> N" by (rule preds_in[OF g])
      have "0 < ts_done s k"
        using all_triggered[OF g bal rest True kN] balancedD(1)[OF bal kN] rest kN by (simp add: ts_at_rest_def)
      then show "k \<in> ts_arrived s ToStack"
        using balancedD(2)[OF bal True k] rest kN by (simp add: ts_at_rest_def b2n_def split: if_splits)
    qed
    from balancedD(4)[OF bal True this] show ?thesis using rest by (simp add: ts_at_rest_def)
  qed (use bal in \<open>simp add: balanced_def\<close>)
  then show "ts_comp s = 1" using ts_onceD(4)[OF inv] by linarith
  assume k: "k \<in> N"
  then have d: "ts_done s k = 1" using ts_causalD(3)[OF inv] pos by simp
  moreover have "ts_trig s k \<le> 1" "ts_done s k \<le> ts_trig s k"
    using ts_onceD(1,2)[OF inv k] by linarith+
  ultimately show "ts_trig s k = 1 \<and> ts_done s k = 1" by simp
qed

section \<open>Simulation\<close>

text \<open>What relates a concrete system to an abstract machine: while an invariant holds, which the
  concrete steps keep, each of them is a step of the machine on what the state stands for.\<close>

locale simulation =
  fixes cstep :: "'c \<Rightarrow> 'c \<Rightarrow> bool" and astep :: "'a \<Rightarrow> 'a \<Rightarrow> bool" and ok :: "'c \<Rightarrow> bool" and abst :: "'c \<Rightarrow> 'a"
  assumes keeps_ok: "ok c \<Longrightarrow> cstep c c' \<Longrightarrow> ok c'"
    and simulates: "ok c \<Longrightarrow> cstep c c' \<Longrightarrow> astep (abst c) (abst c')"
begin

lemma sim_run: "cstep\<^sup>*\<^sup>* c c' \<Longrightarrow> ok c \<Longrightarrow> ok c' \<and> astep\<^sup>*\<^sup>* (abst c) (abst c')"
  by (induction rule: rtranclp_induct) (auto intro: keeps_ok simulates rtranclp.rtrancl_into_rtrancl)

lemma sim_invariant:
  assumes "\<And>a a'. astep a a' \<Longrightarrow> good a \<Longrightarrow> good a'" "ok c" "good (abst c)" "cstep\<^sup>*\<^sup>* c c'"
  shows "good (abst c')"
proof -
  have "astep\<^sup>*\<^sup>* a a' \<Longrightarrow> good a \<Longrightarrow> good a'" for a a'
    by (induction rule: rtranclp_induct) (auto intro: assms(1))
  then show ?thesis using sim_run[OF assms(4,2)] assms(3) by blast
qed

end

end
