(* ===== verification/Heat_Engine.thy ===== *)
theory Heat_Engine
  imports Heat_Worker Heat_Traversal_Spec
begin

text \<open>
  What the database, the queue and the threads of the convergence engine hold of one traversal, as
  a state of the abstract machine, and the invariant of the engine that relates them: every step
  keeps it, with crashes, failures and other traversals that start at any time.
\<close>

section \<open>The graph of a traversal\<close>

lemma set_leaves: "wf_graph g \<Longrightarrow> set (leaves g) = {k \<in> keys g. requires g k = {}}"
proof -
  assume wf: "wf_graph g"
  have "(k, n) \<in> set g \<Longrightarrow> n = node_of g k" for k n
    using node_of_in[OF wf_graphD(1)[OF wf]] by metis
  then show ?thesis
    by (force simp: leaves_def keys_def requires_def node_bool_def image_iff dest: in_node_of)
qed

lemma set_roots:
  assumes "wf_graph g" shows "set (roots g) = {k \<in> keys g. required_by g k = {}}"
proof -
  have "requires (reverse_copy g) k = required_by g k" for k
    by (simp add: requires_def required_by_def node_of_reverse node_reverse_copy_def)
  then show ?thesis using set_leaves[OF wf_reverse(3)[OF assms]] by (simp add: roots_def dep_graph_def wf_reverse(1))
qed

lemma distinct_satisfy: "distinct (nd_satisfy (node_of (dependencies es) k))"
proof -
  have step: "distinct (nd_satisfy (node_of g k)) \<Longrightarrow> distinct (nd_satisfy (node_of (add_edge g e) k))"
    for g :: "'a graph" and e
    by (auto simp: add_edge_def node_of_update_node add_requires_def add_required_by_def distinct_insert
        split: prod.splits option.splits)
  have "distinct (nd_satisfy (node_of (foldl add_edge g es) k))" if "distinct (nd_satisfy (node_of g k))" for g
    using that by (induction es arbitrary: g) (simp_all add: step)
  from this[of "[]"] show ?thesis by (simp add: dependencies_def node_of_missing keys_def)
qed

text \<open>A graph is rebuilt from its own edges.\<close>

lemma in_graph_edges:
  assumes "distinct (map fst g)"
  shows "(a, Some b) \<in> set (graph_edges g) \<longleftrightarrow> b \<in> requires g a"
    "(a, None) \<in> set (graph_edges g) \<longleftrightarrow> a \<in> keys g \<and> requires g a = {} \<and> required_by g a = {}"
proof -
  note n = node_of_in[OF assms] in_node_of
  have mem: "e \<in> set (graph_edges g) \<longleftrightarrow> (\<exists>x \<in> set g. e \<in> set (if node_disjoint (snd x) then [(fst x, None)]
      else map (\<lambda>rqd. (fst x, Some rqd)) (nd_require (snd x))))" for e
    unfolding graph_edges_def set_concat set_map UN_iff bex_simps case_prod_unfold by blast
  have "(a, Some b) \<in> set (graph_edges g) \<longleftrightarrow>
      (\<exists>nd. (a, nd) \<in> set g \<and> \<not> node_disjoint nd \<and> b \<in> set (nd_require nd))"
    unfolding mem by (auto split: if_splits intro: rev_bexI)
  also have "\<dots> \<longleftrightarrow> b \<in> requires g a"
    using n(1)[of a] n(2)[of a] requires_keys[of b g a]
    by (auto simp: requires_def node_disjoint_def node_bool_def intro!: exI[of _ "node_of g a"])
  finally show "(a, Some b) \<in> set (graph_edges g) \<longleftrightarrow> b \<in> requires g a" .
  have "(a, None) \<in> set (graph_edges g) \<longleftrightarrow> (\<exists>nd. (a, nd) \<in> set g \<and> node_disjoint nd)"
    unfolding mem by (auto split: if_splits intro: rev_bexI)
  also have "\<dots> \<longleftrightarrow> a \<in> keys g \<and> requires g a = {} \<and> required_by g a = {}"
    using n(1)[of a] n(2)[of a]
    by (auto simp: requires_def required_by_def node_disjoint_def node_bool_def node_stem_def keys_def rev_image_eqI)
  finally show "(a, None) \<in> set (graph_edges g) \<longleftrightarrow> a \<in> keys g \<and> requires g a = {} \<and> required_by g a = {}" .
qed

lemma graph_edges_iff:
  assumes wf: "wf_graph g"
  shows "edge_rel (graph_edges g) = dep_rel g" "edge_nodes (graph_edges g) = keys g"
proof -
  note e = in_graph_edges[OF wf_graphD(1)[OF wf]]
  show rel: "edge_rel (graph_edges g) = dep_rel g" by (auto simp: edge_rel_def dep_rel_def e)
  have "k \<in> edge_nodes (graph_edges g) \<longleftrightarrow>
      (k, None) \<in> set (graph_edges g) \<or> (\<exists>b. (k, Some b) \<in> set (graph_edges g)) \<or> (\<exists>a. (a, Some k) \<in> set (graph_edges g))" for k
  proof
    assume "k \<in> edge_nodes (graph_edges g)"
    then obtain a b where "(a, b) \<in> set (graph_edges g)" "k = a \<or> b = Some k"
      by (auto simp: edge_nodes_def)
    then show "(k, None) \<in> set (graph_edges g) \<or> (\<exists>b. (k, Some b) \<in> set (graph_edges g)) \<or>
        (\<exists>a. (a, Some k) \<in> set (graph_edges g))" by (cases b) auto
  next
    assume "(k, None) \<in> set (graph_edges g) \<or> (\<exists>b. (k, Some b) \<in> set (graph_edges g)) \<or>
        (\<exists>a. (a, Some k) \<in> set (graph_edges g))"
    then show "k \<in> edge_nodes (graph_edges g)" unfolding edge_nodes_def by force
  qed
  then show "edge_nodes (graph_edges g) = keys g"
    unfolding e using wf_graphD[OF wf] requires_keys required_by_keys by blast
qed

section \<open>What belongs to a traversal\<close>

fun origin :: "event list \<Rightarrow> int \<Rightarrow> int option" where
  "origin [] i = None"
| "origin (Replaced j i' # l) i = (if i' = i then Some j else origin l i)"
| "origin (_ # l) i = origin l i"

text \<open>The node a message is about: that of a replacement is the node of what it replaces.\<close>

definition msg_node :: "node_key edge list \<Rightarrow> event list \<Rightarrow> check_msg \<Rightarrow> node_key" where
  "msg_node es hist m =
     (if (m_rsrc m, m_update m) \<in> edge_nodes es then (m_rsrc m, m_update m)
      else (case origin hist (m_rsrc m) of Some j \<Rightarrow> (j, m_update m) | None \<Rightarrow> (m_rsrc m, m_update m)))"

definition target_of :: "sync_args \<Rightarrow> node_key target" where
  "target_of c = (case sa_entity c of RsrcEntity i \<Rightarrow> ToNode (i, sa_update c) | StackEntity _ \<Rightarrow> ToStack)"

definition is_trigger :: "string \<Rightarrow> node_key \<Rightarrow> action \<Rightarrow> bool" where
  "is_trigger t p a = (case a of Trigger m \<Rightarrow> m_traversal m = t \<and> (m_rsrc m, m_update m) = p | _ \<Rightarrow> False)"

definition is_token :: "node_key edge list \<Rightarrow> string \<Rightarrow> event list \<Rightarrow> node_key \<Rightarrow> action \<Rightarrow> bool" where
  "is_token es t hist k a =
     (case a of Check m _ _ _ \<Rightarrow> m_traversal m = t \<and> msg_node es hist m = k
      | Recast m \<Rightarrow> m_traversal m = t \<and> msg_node es hist m = k | _ \<Rightarrow> False)"

definition is_sync :: "string \<Rightarrow> node_key \<Rightarrow> node_key target \<Rightarrow> action \<Rightarrow> bool" where
  "is_sync t k x a =
     (case a of SyncRead c _ \<Rightarrow> sa_traversal c = t \<and> sa_key c = k \<and> target_of c = x
      | SyncWrite c _ _ _ \<Rightarrow> sa_traversal c = t \<and> sa_key c = k \<and> target_of c = x | _ \<Rightarrow> False)"

definition is_complete :: "string \<Rightarrow> action \<Rightarrow> bool" where
  "is_complete t a = (case a of MarkComplete s \<Rightarrow> st_traversal s = t | _ \<Rightarrow> False)"

definition cost :: "(action \<Rightarrow> bool) \<Rightarrow> thread \<Rightarrow> nat" where
  "cost P th = length (filter P (th_todo th))"

definition cnt :: "(action \<Rightarrow> bool) \<Rightarrow> world \<Rightarrow> nat" where
  "cnt P w = sum_mset (image_mset (cost P) (w_threads w))"

definition point_key :: "string \<Rightarrow> string \<Rightarrow> node_key target \<Rightarrow> sp_key" where
  "point_key sid t x = (case x of ToNode (i, u) \<Rightarrow> (str_of_int i, t, u) | ToStack \<Rightarrow> (sid, t, True))"

definition arrived_at :: "sync_point option \<Rightarrow> node_key set" where
  "arrived_at p =
     (case p of
        None \<Rightarrow> {}
      | Some sp \<Rightarrow> (case deserialize_input_data (sp_input_data sp) of
                     Inl _ \<Rightarrow> {} | Inr d \<Rightarrow> {k. KTuple k \<in> fst ` set d}))"

definition targets :: "node_key edge list \<Rightarrow> node_key target set" where
  "targets es = insert ToStack (ToNode ` edge_nodes es)"

definition tok :: "node_key edge list \<Rightarrow> string \<Rightarrow> world \<Rightarrow> node_key \<Rightarrow> nat" where
  "tok es t w k = size {#m \<in># w_inbox w. m_traversal m = t \<and> msg_node es (w_log w) m = k#}
     + cnt (is_token es t (w_log w) k) w"

text \<open>The state of the abstract machine that a world holds of one traversal.\<close>

definition view :: "node_key edge list \<Rightarrow> string \<Rightarrow> string \<Rightarrow> world \<Rightarrow> node_key tstate" where
  "view es sid t w = (let N = edge_nodes es in
     \<lparr>ts_pend = (\<lambda>p. if p \<in> N then cnt (is_trigger t p) w else 0),
      ts_trig = (\<lambda>p. if p \<in> N then count_list (w_log w) (Triggered t p) else 0),
      ts_tok = (\<lambda>k. if k \<in> N then tok es t w k else 0),
      ts_done = (\<lambda>k. if k \<in> N then count_list (w_log w) (Checked t k) else 0),
      ts_debt = (\<lambda>k x. if k \<in> N then cnt (is_sync t k x) w else 0),
      ts_arrived = (\<lambda>x. if x \<in> targets es then arrived_at (w_points w (point_key sid t x)) else {}),
      ts_live = (w_points w (point_key sid t ToStack) \<noteq> None),
      ts_cpend = cnt (is_complete t) w,
      ts_comp = count_list (w_log w) (Completed t)\<rparr>)"


section \<open>The invariant of the engine\<close>

definition cur :: "world \<Rightarrow> string option" where
  "cur w = map_option st_traversal (w_stack w)"

definition stack_ok :: "node_key edge list \<Rightarrow> string \<Rightarrow> string \<Rightarrow> stack_row \<Rightarrow> bool" where
  "stack_ok es t sid s \<longleftrightarrow> (st_traversal s = t \<longrightarrow> st_edges s = es \<and> st_id s = sid)"

text \<open>Rows from \<open>n0\<close> on were created during the traversal.\<close>

definition row_ok :: "int \<Rightarrow> event list \<Rightarrow> int \<Rightarrow> rsrc \<Rightarrow> bool" where
  "row_ok n0 hist i r \<longleftrightarrow> (\<forall>j. rs_replaces r = Some j \<longrightarrow> n0 \<le> i \<longrightarrow> origin hist i = Some j)"

definition rows_ok :: "int \<Rightarrow> event list \<Rightarrow> rsrc_table \<Rightarrow> bool" where
  "rows_ok n0 hist rt \<longleftrightarrow> (\<forall>(i, r) \<in> set (rt_rows rt). i < rt_next rt \<and> row_ok n0 hist i r)"

definition msg_ok :: "node_key edge list \<Rightarrow> int \<Rightarrow> world \<Rightarrow> check_msg \<Rightarrow> bool" where
  "msg_ok es n0 w m \<longleftrightarrow> m_rsrc m < rt_next (w_rsrcs w) \<and>
     (n0 \<le> m_rsrc m \<or> (m_rsrc m, m_update m) \<in> edge_nodes es) \<and>
     (\<exists>d. m_data m = serialize_input_data d \<and> plain (JDict d))"

text \<open>The calls of \<open>sync\<close> that belong to the traversal, and what a pending write knows.\<close>

definition call_ok :: "node_key edge list \<Rightarrow> string \<Rightarrow> string \<Rightarrow> sync_args \<Rightarrow> propagate \<Rightarrow> bool" where
  "call_ok es t sid c p \<longleftrightarrow>
     (sa_traversal c = t \<longrightarrow>
        sa_key c \<in> preds (edge_nodes es) (edge_rel es) (target_of c) \<and>
        set (sa_preds c) = preds (edge_nodes es) (edge_rel es) (target_of c) \<and> plain (sa_data c) \<and>
        (case sa_entity c of
           RsrcEntity i \<Rightarrow> (i, sa_update c) \<in> edge_nodes es \<and> (\<exists>adopt. p = DoCheck adopt)
         | StackEntity s \<Rightarrow> s = sid \<and> sa_update c \<and> (\<exists>s. p = MarkStack s \<and> st_traversal s = t))) \<and>
     (\<forall>s. p = MarkStack s \<longrightarrow> stack_ok es t sid s \<and> st_traversal s = sa_traversal c)"

definition write_ok :: "string \<Rightarrow> string \<Rightarrow> world \<Rightarrow> sync_args \<Rightarrow> int \<Rightarrow> pydict \<Rightarrow> bool" where
  "write_ok t sid w c atomic_key data \<longleftrightarrow>
     (sa_traversal c = t \<longrightarrow> plain (JDict data) \<and>
        (case w_points w (point_key sid t (target_of c)) of
           None \<Rightarrow> True
         | Some sp \<Rightarrow> atomic_key \<le> sp_atomic_key sp \<and>
             (atomic_key = sp_atomic_key sp \<longrightarrow>
                (\<exists>d. deserialize_input_data (sp_input_data sp) = Inr d \<and>
                     data = AList.update (KTuple (sa_key c)) (sa_data c) d))))"

fun action_ok :: "node_key edge list \<Rightarrow> string \<Rightarrow> string \<Rightarrow> int \<Rightarrow> world \<Rightarrow> action \<Rightarrow> bool" where
  "action_ok es t sid n0 w (Check m s r data) \<longleftrightarrow>
     stack_ok es t sid s \<and> st_traversal s = m_traversal m \<and> (cur w = Some t \<longrightarrow> m_traversal m = t) \<and>
     (m_traversal m = t \<longrightarrow> msg_ok es n0 w m \<and> plain (JDict data) \<and> row_ok n0 (w_log w) (m_rsrc m) r)"
| "action_ok es t sid n0 w (HandleFailure i u s) \<longleftrightarrow>
     stack_ok es t sid s \<and> (cur w = Some t \<longrightarrow> st_traversal s = t)"
| "action_ok es t sid n0 w (SyncRead c p) \<longleftrightarrow> call_ok es t sid c p"
| "action_ok es t sid n0 w (SyncWrite c p atomic_key data) \<longleftrightarrow>
     call_ok es t sid c p \<and> write_ok t sid w c atomic_key data"
| "action_ok es t sid n0 w (Trigger m) \<longleftrightarrow>
     (m_traversal m = t \<longrightarrow> (m_rsrc m, m_update m) \<in> edge_nodes es \<and> msg_ok es n0 w m)"
| "action_ok es t sid n0 w (Recast m) \<longleftrightarrow> (m_traversal m = t \<longrightarrow> msg_ok es n0 w m)"
| "action_ok es t sid n0 w (HandleTimeout s) \<longleftrightarrow> stack_ok es t sid s"
| "action_ok es t sid n0 w (MarkComplete s) \<longleftrightarrow> stack_ok es t sid s"
| "action_ok es t sid n0 w (PurgeStore s) \<longleftrightarrow> stack_ok es t sid s"
| "action_ok es t sid n0 w (Rollback s) \<longleftrightarrow> stack_ok es t sid s"
| "action_ok es t sid n0 w (DeletePoints stack_id traversal) \<longleftrightarrow> True"
| "action_ok es t sid n0 w (DeleteStack s) \<longleftrightarrow> True"
| "action_ok es t sid n0 w (Converge s prev) \<longleftrightarrow> st_traversal s \<noteq> t"
| "action_ok es t sid n0 w (ConvergeDeps s) \<longleftrightarrow> st_traversal s \<noteq> t"
| "action_ok es t sid n0 w (CreatePoint e u s) \<longleftrightarrow> st_traversal s \<noteq> t"

definition handler_ok :: "string \<Rightarrow> world \<Rightarrow> handler \<Rightarrow> bool" where
  "handler_ok t w h \<longleftrightarrow>
     (\<forall>i u traversal. h = Propagating i u traversal \<longrightarrow> cur w = Some t \<longrightarrow> traversal = t)"

definition thread_ok :: "node_key edge list \<Rightarrow> string \<Rightarrow> string \<Rightarrow> int \<Rightarrow> world \<Rightarrow> thread \<Rightarrow> bool" where
  "thread_ok es t sid n0 w th \<longleftrightarrow>
     handler_ok t w (th_handler th) \<and> (\<forall>a \<in> set (th_todo th). action_ok es t sid n0 w a)"

definition point_ok :: "string \<Rightarrow> sync_point \<Rightarrow> bool" where
  "point_ok sid sp \<longleftrightarrow> sp_stack_id sp = sid \<and>
     (\<exists>d. deserialize_input_data (sp_input_data sp) = Inr d \<and> plain (JDict d))"

definition points_ok :: "node_key edge list \<Rightarrow> string \<Rightarrow> string \<Rightarrow> sp_store \<Rightarrow> bool" where
  "points_ok es t sid sps \<longleftrightarrow>
     (\<forall>x \<in> targets es. (sps (point_key sid t x) = None \<longleftrightarrow> sps (point_key sid t ToStack) = None) \<and>
        (\<forall>sp. sps (point_key sid t x) = Some sp \<longrightarrow> point_ok sid sp))"

definition env_ok :: "node_key edge list \<Rightarrow> string \<Rightarrow> string \<Rightarrow> int \<Rightarrow> world \<Rightarrow> bool" where
  "env_ok es t sid n0 w \<longleftrightarrow>
     (\<forall>s. w_stack w = Some s \<longrightarrow> stack_ok es t sid s) \<and> t \<in> set (w_uuids w) \<and>
     rows_ok n0 (w_log w) (w_rsrcs w) \<and> n0 \<le> rt_next (w_rsrcs w) \<and> (\<forall>k \<in> edge_nodes es. fst k < n0) \<and>
     (\<forall>j i. Replaced j i \<in> set (w_log w) \<longrightarrow> n0 \<le> i \<and> i < rt_next (w_rsrcs w)) \<and>
     (\<forall>m \<in># w_inbox w. m_traversal m = t \<longrightarrow> msg_ok es n0 w m) \<and>
     points_ok es t sid (w_points w) \<and> int_of_str sid = None"

subsection \<open>Later worlds\<close>

definition point_later :: "sync_point option \<Rightarrow> sync_point option \<Rightarrow> bool" where
  "point_later p p' \<longleftrightarrow>
     (\<forall>sp'. p' = Some sp' \<longrightarrow>
        (\<exists>sp. p = Some sp \<and> sp_atomic_key sp \<le> sp_atomic_key sp' \<and>
              (sp_atomic_key sp = sp_atomic_key sp' \<longrightarrow> sp_input_data sp' = sp_input_data sp)))"

definition later :: "node_key edge list \<Rightarrow> string \<Rightarrow> string \<Rightarrow> world \<Rightarrow> world \<Rightarrow> bool" where
  "later es t sid w w' \<longleftrightarrow>
     (cur w' = Some t \<longrightarrow> cur w = Some t) \<and> rt_next (w_rsrcs w) \<le> rt_next (w_rsrcs w') \<and>
     (\<forall>i < rt_next (w_rsrcs w). origin (w_log w') i = origin (w_log w) i) \<and>
     (\<forall>x \<in> targets es. point_later (w_points w (point_key sid t x)) (w_points w' (point_key sid t x)))"

lemma point_later_refl [simp]: "point_later p p"
  by (simp add: point_later_def)

lemma laterI:
  assumes "cur w' = Some t \<Longrightarrow> cur w = Some t" "rt_next (w_rsrcs w) \<le> rt_next (w_rsrcs w')"
    "\<And>i. i < rt_next (w_rsrcs w) \<Longrightarrow> origin (w_log w') i = origin (w_log w) i"
    "\<And>x. x \<in> targets es \<Longrightarrow> point_later (w_points w (point_key sid t x)) (w_points w' (point_key sid t x))"
  shows "later es t sid w w'"
  using assms by (simp add: later_def)

lemma msg_ok_later: "later es t sid w w' \<Longrightarrow> msg_ok es n0 w m \<Longrightarrow> msg_ok es n0 w' m"
  by (auto simp: later_def msg_ok_def)

lemma row_ok_later:
  "later es t sid w w' \<Longrightarrow> i < rt_next (w_rsrcs w) \<Longrightarrow> row_ok n0 (w_log w) i r \<Longrightarrow> row_ok n0 (w_log w') i r"
  by (simp add: later_def row_ok_def)

lemma preds_target: "k \<in> preds (edge_nodes es) (edge_rel es) x \<Longrightarrow> x \<in> targets es"
  by (cases x) (force simp: preds_def targets_def edge_rel_def edge_nodes_def)+

lemma write_ok_later:
  assumes "later es t sid w w'" "call_ok es t sid c p" "write_ok t sid w c ak d"
  shows "write_ok t sid w' c ak d"
proof (cases "sa_traversal c = t")
  case True
  then have "target_of c \<in> targets es" using assms(2) preds_target unfolding call_ok_def by blast
  then have "point_later (w_points w (point_key sid t (target_of c))) (w_points w' (point_key sid t (target_of c)))"
    using assms(1) by (simp add: later_def)
  then show ?thesis
    using assms(3) by (auto simp: write_ok_def point_later_def split: option.splits)
qed (simp add: write_ok_def)

lemma action_ok_later: "later es t sid w w' \<Longrightarrow> action_ok es t sid n0 w a \<Longrightarrow> action_ok es t sid n0 w' a"
  using msg_ok_later[of es t sid w w'] write_ok_later[of es t sid w w'] row_ok_later[of es t sid w w']
  by (cases a) (auto simp: later_def msg_ok_def)

lemma handler_ok_later: "later es t sid w w' \<Longrightarrow> handler_ok t w h \<Longrightarrow> handler_ok t w' h"
  by (auto simp: handler_ok_def later_def)

lemma thread_ok_later: "later es t sid w w' \<Longrightarrow> thread_ok es t sid n0 w th \<Longrightarrow> thread_ok es t sid n0 w' th"
  unfolding thread_ok_def using action_ok_later handler_ok_later by blast


section \<open>Every step keeps the invariant\<close>

subsection \<open>The tables\<close>

lemma rt_update_next [simp]: "rt_next (rt_update i f rt) = rt_next rt"
  by (simp add: rt_update_def)

lemma rt_delete_next [simp]: "rt_next (rt_delete i rt) = rt_next rt"
  by (simp add: rt_delete_def)

lemma rows_ok_update:
  assumes "rows_ok n0 hist rt" "\<And>r. rs_replaces (f r) = rs_replaces r \<or> rs_replaces (f r) = None"
  shows "rows_ok n0 hist (rt_update i f rt)"
proof -
  have "row_ok n0 hist j (f r)" if "row_ok n0 hist j r" for j r
    using assms(2)[of r] that by (auto simp: row_ok_def)
  then show ?thesis using assms(1) by (force simp: rows_ok_def rt_update_def)
qed

lemma rows_ok_delete: "rows_ok n0 hist rt \<Longrightarrow> rows_ok n0 hist (rt_delete i rt)"
  by (auto simp: rows_ok_def rt_delete_def AList.delete_eq)

lemma rows_ok_insert:
  "rows_ok n0 hist rt \<Longrightarrow> row_ok n0 hist (rt_next rt) r \<Longrightarrow> rows_ok n0 hist (snd (rt_insert r rt))"
  by (force simp: rows_ok_def rt_insert_def)

lemma rt_insert_next [simp]: "rt_next (snd (rt_insert r rt)) = rt_next rt + 1" "fst (rt_insert r rt) = rt_next rt"
  by (simp_all add: rt_insert_def)

lemma updated_row_replaces [simp]:
  "rs_replaces (updated_row ch tmpl d r) = rs_replaces r" "rs_replaces (failed_row rec u tmpl d r) = rs_replaces r"
  "rs_replaces (timed_out_row rec u tmpl d r) = rs_replaces r"
  by (simp_all add: updated_row_def failed_row_def timed_out_row_def record_action_def split: option.splits)

lemma rows_ok_delete_convergence:
  "rows_ok n0 hist rt \<Longrightarrow> rows_ok n0 hist (delete_convergence i r tmpl d rt)"
  "rt_next (delete_convergence i r tmpl d rt) = rt_next rt"
  by (auto simp: delete_convergence_def update_replacement_data_def intro!: rows_ok_update rows_ok_delete
      split: option.splits if_splits)

lemma rows_ok_make_replacement:
  assumes ok: "rows_ok n0 hist rt" and eq: "make_replacement i r tmpl rt = (j, rt')"
  shows "rows_ok n0 (Replaced i j # hist) rt'" "rt_next rt' = rt_next rt + 1" "j = rt_next rt"
proof -
  define new where "new = r\<lparr>rs_action := RsrcInit, rs_status := ''COMPLETE'', rs_template := tmpl,
    rs_replaces := Some i, rs_replaced_by := None\<rparr>"
  have j: "j = rt_next rt" and rt': "rt' = rt_update i
      (\<lambda>r. r\<lparr>rs_status := ''COMPLETE'', rs_replaced_by := Some j\<rparr>) (snd (rt_insert new rt))"
    using eq by (auto simp: make_replacement_def Let_def rt_insert_def new_def)
  show "j = rt_next rt" by (rule j)
  show "rt_next rt' = rt_next rt + 1" by (simp add: rt')
  have "rows_ok n0 (Replaced i j # hist) rt"
    using ok by (auto simp: rows_ok_def row_ok_def j)
  moreover have "row_ok n0 (Replaced i j # hist) (rt_next rt) new" by (simp add: row_ok_def new_def j)
  ultimately show "rows_ok n0 (Replaced i j # hist) rt'"
    unfolding rt' by (intro rows_ok_update rows_ok_insert) auto
qed

lemma rows_ok_store_rsrc:
  assumes "rows_ok n0 hist (fst acc)"
  shows "rows_ok n0 hist (fst (store_rsrc s existing deps name acc))"
    "rt_next (fst acc) \<le> rt_next (fst (store_rsrc s existing deps name acc))"
proof -
  have "row_ok n0 hist i (new_rsrc name tmpl ids)" for i tmpl ids by (simp add: row_ok_def new_rsrc_def)
  then show "rows_ok n0 hist (fst (store_rsrc s existing deps name acc))"
    using assms rows_ok_insert by (auto simp: store_rsrc_def Let_def split: option.splits prod.splits
      intro!: rows_ok_update) (metis snd_conv)
  show "rt_next (fst acc) \<le> rt_next (fst (store_rsrc s existing deps name acc))"
    by (auto simp: store_rsrc_def Let_def rt_insert_def split: option.splits prod.splits)
qed

lemma rows_ok_update_or_store:
  assumes ok: "rows_ok n0 hist rt" and eq: "update_or_store_resources s deps rt = Inr (rt', ids)"
  shows "rows_ok n0 hist rt'" "rt_next rt \<le> rt_next rt'"
proof -
  have fold: "rows_ok n0 hist (fst (fold (store_rsrc s ex deps) names acc)) \<and>
      rt_next (fst acc) \<le> rt_next (fst (fold (store_rsrc s ex deps) names acc))"
    if "rows_ok n0 hist (fst acc)" for ex names acc
    using that
  proof (induction names arbitrary: acc)
    case (Cons name names)
    note step = rows_ok_store_rsrc[OF Cons.prems, of s ex deps name]
    show ?case using Cons.IH[OF step(1)] step(2) by simp
  qed simp
  obtain names where "fold (store_rsrc s (rt_rows rt) deps) names (rt, []) = (rt', ids)"
    using eq by (auto simp: update_or_store_resources_def rbind_eq_Inr)
  with fold[of "(rt, [])" "rt_rows rt" names] ok show "rows_ok n0 hist rt'" "rt_next rt \<le> rt_next rt'" by simp_all
qed

subsection \<open>The stack\<close>

text \<open>The row changes so that the traversal stays current only if it was.\<close>

definition row_change :: "node_key edge list \<Rightarrow> string \<Rightarrow> string \<Rightarrow> stack_row option \<Rightarrow> stack_row option \<Rightarrow> bool" where
  "row_change es t sid row row' \<longleftrightarrow>
     ((\<forall>s. row = Some s \<longrightarrow> stack_ok es t sid s) \<longrightarrow> (\<forall>s. row' = Some s \<longrightarrow> stack_ok es t sid s)) \<and>
     (map_option st_traversal row' = Some t \<longrightarrow> map_option st_traversal row = Some t)"

lemma row_change_refl [simp]: "row_change es t sid row row"
  by (simp add: row_change_def)

lemma row_change_none [simp]: "row_change es t sid row None"
  by (simp add: row_change_def)

lemma state_set_change [intro!]: "row_change es t sid row (snd (state_set s status row))"
  by (auto simp: row_change_def state_set_def persist_state_def stack_update_def Let_def stack_ok_def
      split: option.splits if_splits)

lemma stack_store_change:
  assumes "stack_ok es t sid s" "st_traversal s = t \<longrightarrow> prev = t"
  shows "row_change es t sid row (snd (stack_store prev s row))"
  using assms by (auto simp: row_change_def stack_store_def stack_update_def split: option.splits if_splits)

lemma stack_ok_other: "st_traversal s \<noteq> t \<Longrightarrow> stack_ok es t sid s"
  by (simp add: stack_ok_def)

lemma env_ok_stack:
  assumes "env_ok es t sid n0 w" "row_change es t sid (w_stack w) row"
  shows "env_ok es t sid n0 (w\<lparr>w_stack := row\<rparr>)" "later es t sid w (w\<lparr>w_stack := row\<rparr>)"
  using assms by (auto simp: env_ok_def row_change_def msg_ok_def later_def cur_def)


subsection \<open>The sync points\<close>

definition call_key :: "sync_args \<Rightarrow> sp_key" where
  "call_key c = (str_entity (sa_entity c), sa_traversal c, sa_update c)"

lemma point_key_inj:
  assumes "int_of_str sid = None"
  shows "point_key sid t x = point_key sid t y \<longleftrightarrow> x = y"
proof -
  have ne: "str_of_int i \<noteq> sid" for i using assms int_of_str_str[of i] by auto
  have inj: "str_of_int i = str_of_int j \<longleftrightarrow> i = j" for i j
    using int_of_str_str[of i] int_of_str_str[of j] by (metis option.inject)
  show ?thesis by (auto simp: point_key_def inj ne ne[symmetric] split: target.splits)
qed

lemma point_key_traversal [simp]: "fst (snd (point_key sid t x)) = t"
  by (cases x) (auto simp: point_key_def)

lemma call_key_point:
  "call_ok es t sid c p \<Longrightarrow> sa_traversal c = t \<Longrightarrow> call_key c = point_key sid t (target_of c)"
  by (auto simp: call_ok_def call_key_def point_key_def target_of_def str_entity_def split: entity.splits)

lemma call_key_other: "sa_traversal c \<noteq> t \<Longrightarrow> call_key c \<noteq> point_key sid t x"
  by (metis call_key_def fst_conv point_key_traversal snd_conv)

lemma sync_write_cases:
  assumes "sync_write sps c ak d = Inr (rows, sps')"
  obtains "rows = 0" "sps' = sps"
  | sp where "rows \<noteq> 0" "sps (call_key c) = Some sp" "sp_atomic_key sp = ak"
      "sps' = sps(call_key c \<mapsto> sp\<lparr>sp_atomic_key := ak + 1, sp_input_data := serialize_input_data d\<rparr>)"
  using assms
  by (auto simp: sync_write_def json_column_def sp_update_input_data_def call_key_def Let_def rbind_eq_Inr
      split: option.splits if_splits)

text \<open>Data of the traversal is plain, so the column takes it.\<close>

lemma sync_write_plain: "plain (JDict d) \<Longrightarrow> sync_write sps c ak d \<noteq> Inl e"
  by (simp add: sync_write_def plain_column del: plain.simps)

lemma sync_read_Inr:
  assumes "sync_read sps c = Inr (ak, d)"
  obtains sp d0 where "sps (call_key c) = Some sp" "sp_atomic_key sp = ak"
    "deserialize_input_data (sp_input_data sp) = Inr d0" "d = AList.update (KTuple (sa_key c)) (sa_data c) d0"
  using assms by (auto simp: sync_read_def sp_get_def call_key_def Let_def rbind_eq_Inr split: option.splits)

lemma plain_update:
  assumes "plain (JDict d)" "plain v"
  shows "plain (JDict (AList.update (KTuple k) v d))"
proof -
  have sub: "set (AList.update (KTuple k) v d) \<subseteq> insert (KTuple k, v) (set d)" by (induction d) auto
  have d: "distinct (map fst d)" "\<And>k v. (k, v) \<in> set d \<Longrightarrow> plain_key k \<and> plain v"
    using assms(1) by (force simp: list_all_iff)+
  have "plain_key k' \<and> plain v'" if "(k', v') \<in> set (AList.update (KTuple k) v d)" for k' v'
    using subsetD[OF sub that] assms(2) d(2) by auto
  then show ?thesis using distinct_update[OF d(1)] by (force simp: list_all_iff)
qed

lemma env_ok_points:
  assumes "env_ok es t sid n0 w" "points_ok es t sid sps"
  shows "env_ok es t sid n0 (w\<lparr>w_points := sps\<rparr>)"
  using assms by (auto simp: env_ok_def msg_ok_def)

text \<open>Points of other traversals are another matter.\<close>

lemma points_frame:
  assumes env: "env_ok es t sid n0 w" and same: "\<And>x. sps (point_key sid t x) = w_points w (point_key sid t x)"
  shows "env_ok es t sid n0 (w\<lparr>w_points := sps\<rparr>)" "later es t sid w (w\<lparr>w_points := sps\<rparr>)"
proof -
  have "points_ok es t sid sps" using env unfolding env_ok_def points_ok_def same by blast
  then show "env_ok es t sid n0 (w\<lparr>w_points := sps\<rparr>)" by (rule env_ok_points[OF env])
  show "later es t sid w (w\<lparr>w_points := sps\<rparr>)" by (simp add: later_def cur_def same)
qed

lemma point_ok_written:
  "point_ok sid sp \<Longrightarrow> plain (JDict d) \<Longrightarrow>
     point_ok sid (sp\<lparr>sp_atomic_key := ak, sp_input_data := serialize_input_data d\<rparr>)"
  by (auto simp: point_ok_def deserialize_input_data_inverse simp del: plain.simps)

lemma write_keeps:
  assumes env: "env_ok es t sid n0 w" and call: "call_ok es t sid c p" "write_ok t sid w c ak d"
    and wr: "w_points w (call_key c) = Some sp" "sp_atomic_key sp = ak"
      "sps = (w_points w)(call_key c \<mapsto> sp\<lparr>sp_atomic_key := ak + 1, sp_input_data := serialize_input_data d\<rparr>)"
  shows "env_ok es t sid n0 (w\<lparr>w_points := sps\<rparr>)" "later es t sid w (w\<lparr>w_points := sps\<rparr>)"
proof -
  have "env_ok es t sid n0 (w\<lparr>w_points := sps\<rparr>) \<and> later es t sid w (w\<lparr>w_points := sps\<rparr>)"
  proof (cases "sa_traversal c = t")
    case False
    have "sps (point_key sid t x) = w_points w (point_key sid t x)" for x
      using call_key_other[OF False, of sid x] by (simp add: wr(3))
    then show ?thesis using points_frame[OF env] by blast
  next
    case True
    note key = call_key_point[OF call(1) True]
    have x: "target_of c \<in> targets es" using call(1) True preds_target unfolding call_ok_def by blast
    have pts: "points_ok es t sid (w_points w)" and sid: "int_of_str sid = None"
      using env by (simp_all add: env_ok_def)
    have plain: "plain (JDict d)" using call(2) True unfolding write_ok_def by blast
    have at: "sps (point_key sid t y) = (if y = target_of c
        then Some (sp\<lparr>sp_atomic_key := ak + 1, sp_input_data := serialize_input_data d\<rparr>)
        else w_points w (point_key sid t y))" for y
      unfolding wr(3) key using point_key_inj[OF sid] by auto
    have "point_ok sid sp" using pts x wr(1) unfolding key points_ok_def by blast
    note ok = point_ok_written[OF this plain]
    have "points_ok es t sid sps"
      unfolding points_ok_def
    proof (intro ballI conjI allI impI)
      fix y assume y: "y \<in> targets es"
      have none: "sps (point_key sid t z) = None \<longleftrightarrow> w_points w (point_key sid t z) = None" for z
        unfolding at using wr(1) key by simp
      show "(sps (point_key sid t y) = None) = (sps (point_key sid t ToStack) = None)"
        unfolding none using pts y unfolding points_ok_def by blast
      fix sp' assume "sps (point_key sid t y) = Some sp'"
      then show "point_ok sid sp'"
        using ok pts y unfolding at points_ok_def by (auto split: if_splits)
    qed
    then have "env_ok es t sid n0 (w\<lparr>w_points := sps\<rparr>)" by (rule env_ok_points[OF env])
    moreover have "later es t sid w (w\<lparr>w_points := sps\<rparr>)"
      by (rule laterI) (use wr(1,2) key in \<open>auto simp: cur_def at point_later_def\<close>)
    ultimately show ?thesis ..
  qed
  then show "env_ok es t sid n0 (w\<lparr>w_points := sps\<rparr>)" "later es t sid w (w\<lparr>w_points := sps\<rparr>)" by blast+
qed

lemma delete_keeps:
  assumes env: "env_ok es t sid n0 w"
  shows "env_ok es t sid n0 (w\<lparr>w_points := sp_delete_all (w_points w) sid' trv\<rparr>)"
    "later es t sid w (w\<lparr>w_points := sp_delete_all (w_points w) sid' trv\<rparr>)"
proof -
  have pts: "points_ok es t sid (w_points w)" using env by (simp add: env_ok_def)
  let ?sps = "sp_delete_all (w_points w) sid' trv"
  have at: "?sps (point_key sid t x) = (if sid' = sid \<and> trv = t then None else w_points w (point_key sid t x))"
    if "x \<in> targets es" for x
  proof (cases "w_points w (point_key sid t x)")
    case (Some sp)
    then have "sp_stack_id sp = sid" using pts that by (auto simp: points_ok_def point_ok_def)
    then show ?thesis using Some by (auto simp: sp_delete_all_def point_key_def split: target.splits)
  qed (auto simp: sp_delete_all_def point_key_def split: target.splits)
  have stack: "ToStack \<in> targets es" by (simp add: targets_def)
  have "points_ok es t sid ?sps"
  proof (cases "sid' = sid \<and> trv = t")
    case True
    then have "?sps (point_key sid t x) = None" if "x \<in> targets es" for x using at[OF that] by simp
    then show ?thesis using stack unfolding points_ok_def by simp
  next
    case False
    then have "?sps (point_key sid t x) = w_points w (point_key sid t x)" if "x \<in> targets es" for x
      using at[OF that] by presburger
    then show ?thesis using pts stack unfolding points_ok_def by metis
  qed
  then show "env_ok es t sid n0 (w\<lparr>w_points := ?sps\<rparr>)" by (rule env_ok_points[OF env])
  show "later es t sid w (w\<lparr>w_points := ?sps\<rparr>)"
    by (rule laterI) (auto simp: cur_def at point_later_def)
qed


subsection \<open>Propagation\<close>

lemma plain_construct: "plain (JDict attrs) \<Longrightarrow> plain ref \<Longrightarrow> plain (construct_input_data i r ref attrs uuid)"
  by (simp add: construct_input_data_def packed_prefix_def)

lemma plain_get_input_data: "plain data \<Longrightarrow> plain (get_input_data i r gk data x)"
  by (simp add: get_input_data_def)

lemma roots_preds: "set (roots (dependencies es)) = preds (edge_nodes es) (edge_rel es) ToStack"
  by (auto simp: set_roots preds_def)

lemma requires_preds: "set (nd_require (node_of (dependencies es) p)) = preds (edge_nodes es) (edge_rel es) (ToNode p)"
  using dependencies_simps(2)[of es p] by (auto simp: requires_def preds_def)

lemma satisfy_preds: "q \<in> set (nd_satisfy (node_of (dependencies es) k)) \<longleftrightarrow> k \<in> preds (edge_nodes es) (edge_rel es) (ToNode q)"
  using dependencies_simps(3)[of es k] by (auto simp: required_by_def preds_def)

lemma edge_rel_nodes: "(a, b) \<in> edge_rel es \<Longrightarrow> a \<in> edge_nodes es \<and> b \<in> edge_nodes es"
  by (force simp: edge_rel_def edge_nodes_def)

lemma propagate_ok:
  assumes s: "stack_ok es t sid s" "st_traversal s = m_traversal m" and plain: "plain data"
    and eq: "initiate_propagate m s r data = Inr todo" and a: "a \<in> set todo"
  shows "\<exists>c p. a = SyncRead c p \<and> call_ok es t sid c p"
proof -
  define deps where "deps = convergence_dependencies s"
  define gk where "gk = graph_key_of deps (m_rsrc m) (m_update m) r"
  have gk: "gk \<in> keys deps" and todo: "todo = map (\<lambda>(req, fwd).
      propagate_check_resource req (m_traversal m) (nd_require (node_of deps (req, fwd))) gk
        (get_input_data (m_rsrc m) r gk data (req, fwd)) fwd (m_adopt m)) (nd_satisfy (node_of deps gk))
      @ check_stack_complete s (m_traversal m) (m_rsrc m) deps (m_update m)"
    using eq by (auto simp: initiate_propagate_def dep_required_by_def deps_def gk_def Let_def split: if_splits sum.splits)
  from a[unfolded todo] consider
      (node) req fwd where "(req, fwd) \<in> set (nd_satisfy (node_of deps gk))"
        "a = propagate_check_resource req (m_traversal m) (nd_require (node_of deps (req, fwd))) gk
          (get_input_data (m_rsrc m) r gk data (req, fwd)) fwd (m_adopt m)"
    | (stack) "a \<in> set (check_stack_complete s (m_traversal m) (m_rsrc m) deps (m_update m))" by auto
  then show ?thesis
  proof cases
    case node
    have "deps = dependencies es" if "m_traversal m = t"
      using s that by (simp add: deps_def convergence_dependencies_def stack_ok_def)
    moreover have "(req, fwd) \<in> edge_nodes es" if "gk \<in> preds (edge_nodes es) (edge_rel es) (ToNode (req, fwd))"
      using that edge_rel_nodes[of "(req, fwd)" gk es] by (auto simp: preds_def)
    ultimately show ?thesis using node plain_get_input_data[OF plain]
      by (auto simp: propagate_check_resource_def call_ok_def target_of_def satisfy_preds requires_preds)
  next
    case stack
    have "deps = dependencies es \<and> st_id s = sid" if "m_traversal m = t"
      using s that by (simp add: deps_def convergence_dependencies_def stack_ok_def)
    with stack s show ?thesis
      by (auto simp: check_stack_complete_def call_ok_def target_of_def roots_preds split: if_splits)
  qed
qed


subsection \<open>Actions\<close>

text \<open>An action keeps the invariant when it leaves a good world, later than the one before, and a
  good thread.\<close>

definition engine_keeps :: "node_key edge list \<Rightarrow> string \<Rightarrow> string \<Rightarrow> int \<Rightarrow> world \<Rightarrow> world \<Rightarrow> thread \<Rightarrow> bool" where
  "engine_keeps es t sid n0 w w' th' \<longleftrightarrow>
     env_ok es t sid n0 w' \<and> later es t sid w w' \<and> thread_ok es t sid n0 w' th'"

lemma later_refl [simp]: "later es t sid w w"
  by (simp add: later_def)

lemma point_later_trans: "point_later p q \<Longrightarrow> point_later q r \<Longrightarrow> point_later p r"
  by (fastforce simp: point_later_def)

lemma later_trans: "later es t sid w w' \<Longrightarrow> later es t sid w' w'' \<Longrightarrow> later es t sid w w''"
  unfolding later_def by (auto intro: point_later_trans)

lemma thread_ok_simps [simp]:
  "thread_ok es t sid n0 w stop" "thread_ok es t sid n0 w (continue todo) \<longleftrightarrow> (\<forall>a \<in> set todo. action_ok es t sid n0 w a)"
  by (auto simp: thread_ok_def stop_def continue_def handler_ok_def)

lemma env_ok_tables:
  assumes "env_ok es t sid n0 w" "rows_ok n0 lg rt" "rt_next (w_rsrcs w) \<le> rt_next rt"
    "\<And>i. i < rt_next (w_rsrcs w) \<Longrightarrow> origin lg i = origin (w_log w) i"
    "\<And>j i. Replaced j i \<in> set lg \<Longrightarrow> n0 \<le> i \<and> i < rt_next rt"
  shows "env_ok es t sid n0 (w\<lparr>w_rsrcs := rt, w_log := lg\<rparr>)" "later es t sid w (w\<lparr>w_rsrcs := rt, w_log := lg\<rparr>)"
  using assms unfolding env_ok_def later_def by (auto simp: cur_def msg_ok_def)

lemma env_ok_event:
  assumes env: "env_ok es t sid n0 w" and e: "\<And>j i. e \<noteq> Replaced j i"
  shows "env_ok es t sid n0 (w\<lparr>w_log := e # w_log w\<rparr>)" "later es t sid w (w\<lparr>w_log := e # w_log w\<rparr>)"
    "rows_ok n0 (w_log w) rt \<Longrightarrow> rows_ok n0 (e # w_log w) rt"
proof -
  have o: "origin (e # w_log w) i = origin (w_log w) i" for i using e by (cases e) auto
  then show rows: "rows_ok n0 (w_log w) rt \<Longrightarrow> rows_ok n0 (e # w_log w) rt" for rt
    by (simp add: rows_ok_def row_ok_def)
  have "env_ok es t sid n0 (w\<lparr>w_rsrcs := w_rsrcs w, w_log := e # w_log w\<rparr>) \<and>
      later es t sid w (w\<lparr>w_rsrcs := w_rsrcs w, w_log := e # w_log w\<rparr>)"
    by (intro conjI env_ok_tables) (use env rows o e in \<open>auto simp: env_ok_def\<close>)
  then show "env_ok es t sid n0 (w\<lparr>w_log := e # w_log w\<rparr>)" "later es t sid w (w\<lparr>w_log := e # w_log w\<rparr>)"
    by simp_all
qed

lemma env_ok_inbox:
  assumes "env_ok es t sid n0 w" "m_traversal m = t \<Longrightarrow> msg_ok es n0 w m"
  shows "env_ok es t sid n0 (w\<lparr>w_inbox := add_mset m (w_inbox w)\<rparr>)"
    "later es t sid w (w\<lparr>w_inbox := add_mset m (w_inbox w)\<rparr>)"
  using assms by (auto simp: env_ok_def later_def cur_def msg_ok_def)

lemma stack_row_ok: "env_ok es t sid n0 w \<Longrightarrow> w_stack w = Some s \<Longrightarrow> stack_ok es t sid s"
  by (simp add: env_ok_def)

text \<open>A retriggered check belongs to the latest traversal.\<close>

lemma retrigger_ok: "st_traversal s \<noteq> t \<Longrightarrow> thread_ok es t sid n0 w (retrigger_check_resource u i s)"
  by (auto simp: retrigger_check_resource_def Let_def thread_ok_def handler_ok_def propagate_check_resource_def call_ok_def)

lemma not_found_ok:
  assumes "handler_ok t w h" shows "thread_ok es t sid n0 w (not_found h (w_stack w))"
proof (cases h)
  case (Propagating i u trv)
  show ?thesis
  proof (cases "w_stack w")
    case (Some s)
    show ?thesis
    proof (cases "st_traversal s = trv")
      case False
      have "st_traversal s \<noteq> t"
        using assms False unfolding handler_ok_def Propagating cur_def Some by auto
      then show ?thesis using False by (simp add: not_found_def Propagating Some retrigger_ok)
    qed (simp add: not_found_def Propagating Some)
  qed (simp add: not_found_def Propagating)
qed (simp_all add: not_found_def)

lemma purge_ok: "stack_ok es t sid s \<Longrightarrow> a \<in> set (purge_db s) \<Longrightarrow> action_ok es t sid n0 w a"
  by (auto simp: purge_db_def stack_ok_def split: if_splits)

lemma handle_failure_ok:
  assumes "stack_ok es t sid s" "handle_failure s row = (handled, row', th')"
  shows "row_change es t sid row row'" "thread_ok es t sid n0 w th'"
proof -
  have ok: "stack_ok es t sid (s\<lparr>st_status := FAILED\<rparr>)" using assms(1) by (simp add: stack_ok_def)
  show "row_change es t sid row row'"
    using assms(2) state_set_change[of es t sid row s FAILED]
    by (auto simp: handle_failure_def Let_def split: prod.splits if_splits)
  show "thread_ok es t sid n0 w th'"
    using assms(2) ok purge_ok[OF ok]
    by (auto simp: handle_failure_def Let_def split: prod.splits if_splits)
qed

lemma msg_ok_replacement:
  assumes "msg_ok es n0 w m" "plain (JDict data)" "rt_next (w_rsrcs w) \<le> rt_next (w_rsrcs w')"
    "i = m_rsrc m \<or> n0 \<le> i" "i < rt_next (w_rsrcs w')"
  shows "msg_ok es n0 w' (replacement_msg m i data)"
  using assms by (auto simp: msg_ok_def replacement_msg_def simp del: plain.simps)


lemma engine_keepsI:
  "env_ok es t sid n0 w' \<Longrightarrow> later es t sid w w' \<Longrightarrow> thread_ok es t sid n0 w' th' \<Longrightarrow> engine_keeps es t sid n0 w w' th'"
  by (simp add: engine_keeps_def)

lemma check_ok_keeps:
  assumes env: "env_ok es t sid n0 w" and a: "action_ok es t sid n0 w (Check m s r data)"
    and ex: "exec_check (CheckOk changed reference_id attrs uuid) m s r data w = Some (w', th')"
  shows "engine_keeps es t sid n0 w w' th'"
proof -
  have plain: "plain (JDict attrs)" "plain reference_id" using ex by (auto split: if_splits)
  define tmpl where "tmpl = st_template s"
  define r' where "r' = (if m_update m then updated_row changed tmpl data r else r)"
  define rt where "rt = (if m_update m then rt_update (m_rsrc m) (updated_row changed tmpl data) (w_rsrcs w)
    else delete_convergence (m_rsrc m) r tmpl data (w_rsrcs w))"
  define node where "node = graph_key_of (convergence_dependencies s) (m_rsrc m) (m_update m) r"
  define input where "input = construct_input_data (m_rsrc m) r' reference_id attrs uuid"
  have w': "w' = w\<lparr>w_rsrcs := rt, w_log := Checked (m_traversal m) node # w_log w\<rparr>"
    and th': "th' = (case initiate_propagate m s r' input of
      Inl _ \<Rightarrow> stop | Inr todo \<Rightarrow> \<lparr>th_handler = Propagating (m_rsrc m) (m_update m) (m_traversal m), th_todo = todo\<rparr>)"
    using ex plain by (simp_all add: Let_def tmpl_def r'_def rt_def node_def input_def split: if_splits)
  have rows: "rows_ok n0 (w_log w) (w_rsrcs w)" using env by (simp add: env_ok_def)
  then have "rows_ok n0 (w_log w) rt" "rt_next rt = rt_next (w_rsrcs w)"
    using rows_ok_delete_convergence by (auto simp: rt_def intro!: rows_ok_update)
  then have w: "env_ok es t sid n0 w' \<and> later es t sid w w'"
    unfolding w' by (intro conjI env_ok_tables) (use env env_ok_event(3)[OF env] in \<open>auto simp: env_ok_def\<close>)
  have s: "stack_ok es t sid s" "st_traversal s = m_traversal m" "cur w = Some t \<longrightarrow> m_traversal m = t"
    using a by simp_all
  have "thread_ok es t sid n0 w' th'"
  proof (cases "initiate_propagate m s r' input")
    case (Inr todo)
    have "plain input" using plain by (simp add: input_def plain_construct)
    from propagate_ok[OF s(1,2) this Inr] have "action_ok es t sid n0 w' a" if "a \<in> set todo" for a
      using that by fastforce
    moreover have "cur w' = cur w" by (simp add: w' cur_def)
    ultimately show ?thesis using s(3) by (simp add: th' Inr thread_ok_def handler_ok_def)
  qed (simp add: th')
  with w show ?thesis by (simp add: engine_keeps_def)
qed

lemma check_replace_keeps:
  assumes env: "env_ok es t sid n0 w" and a: "action_ok es t sid n0 w (Check m s r data)"
    and ex: "exec_check CheckReplace m s r data w = Some (w', th')"
  shows "engine_keeps es t sid n0 w w' th'"
proof -
  obtain j rt where mk: "make_replacement (m_rsrc m) r (st_template s) (w_rsrcs w) = (j, rt)" by fastforce
  have w': "w' = w\<lparr>w_rsrcs := rt, w_log := Replaced (m_rsrc m) j # w_log w\<rparr>"
    and th': "th' = continue [Recast (replacement_msg m j data)]"
    using ex mk by (auto split: if_splits)
  have rows: "rows_ok n0 (w_log w) (w_rsrcs w)" and n0: "n0 \<le> rt_next (w_rsrcs w)"
    using env by (simp_all add: env_ok_def)
  note mr = rows_ok_make_replacement[OF rows mk]
  have w: "env_ok es t sid n0 w'" "later es t sid w w'"
    unfolding w' by (rule env_ok_tables; use env mr n0 in \<open>force simp: env_ok_def\<close>)+
  have "m_traversal m = t \<Longrightarrow> msg_ok es n0 w' (replacement_msg m j data)"
    using msg_ok_replacement[of es n0 w m data w' j] a mr(2,3) n0 by (simp add: w' del: plain.simps)
  then have "thread_ok es t sid n0 w' th'" by (simp add: th' replacement_msg_def)
  with w show ?thesis by (simp add: engine_keeps_def)
qed

lemma rsrc_update_keeps:
  assumes env: "env_ok es t sid n0 w" and f: "\<And>r. rs_replaces (f r) = rs_replaces r"
  shows "env_ok es t sid n0 (w\<lparr>w_rsrcs := rt_update i f (w_rsrcs w)\<rparr>)"
    "later es t sid w (w\<lparr>w_rsrcs := rt_update i f (w_rsrcs w)\<rparr>)"
  using env f by (auto simp: env_ok_def later_def cur_def msg_ok_def intro!: rows_ok_update)

lemma exec_check_keeps:
  assumes env: "env_ok es t sid n0 w" and a: "action_ok es t sid n0 w (Check m s r data)"
    and ex: "exec_check ch m s r data w = Some (w', th')"
  shows "engine_keeps es t sid n0 w w' th'"
proof (cases ch)
  case (CheckOk changed reference_id attrs uuid)
  then show ?thesis using check_ok_keeps[OF env a] ex by simp
next
  case CheckReplace
  then show ?thesis using check_replace_keeps[OF env a] ex by simp
next
  case (CheckLocked steal)
  let ?w = "w\<lparr>w_rsrcs := rt_update (m_rsrc m) (\<lambda>r. r\<lparr>rs_status := ''FAILED''\<rparr>) (w_rsrcs w)\<rparr>"
  have w: "env_ok es t sid n0 ?w" "later es t sid w ?w" using rsrc_update_keeps[OF env] by simp_all
  have "m_traversal m = t \<Longrightarrow> msg_ok es n0 ?w (replacement_msg m (m_rsrc m) data)"
    using msg_ok_replacement[of es n0 w m data ?w "m_rsrc m"] a by (simp add: msg_ok_def del: plain.simps)
  then have "thread_ok es t sid n0 ?w (continue [Recast (replacement_msg m (m_rsrc m) data)])"
    by (simp add: replacement_msg_def)
  then show ?thesis using ex w env by (auto simp: CheckLocked engine_keeps_def split: if_splits)
next
  case (CheckFails rec)
  let ?w = "w\<lparr>w_rsrcs := rt_update (m_rsrc m) (failed_row rec (m_update m) (st_template s) data) (w_rsrcs w)\<rparr>"
  have w: "env_ok es t sid n0 ?w" "later es t sid w ?w" using rsrc_update_keeps[OF env] by simp_all
  have "cur ?w = cur w" by (simp add: cur_def)
  then have "thread_ok es t sid n0 ?w (continue [HandleFailure (m_rsrc m) (m_update m) s])" using a by simp
  then show ?thesis using ex w by (auto simp: CheckFails engine_keeps_def split: if_splits)
next
  case (CheckTimesOut rec)
  let ?w = "w\<lparr>w_rsrcs := rt_update (m_rsrc m) (timed_out_row rec (m_update m) (st_template s) data) (w_rsrcs w)\<rparr>"
  have w: "env_ok es t sid n0 ?w" "later es t sid w ?w" using rsrc_update_keeps[OF env] by simp_all
  then show ?thesis using ex stack_row_ok[OF env]
    by (auto simp: CheckTimesOut engine_keeps_def split: option.splits if_splits)
qed (use ex in auto)


lemma read_keeps:
  assumes env: "env_ok es t sid n0 w" and th: "thread_ok es t sid n0 w th" and call: "call_ok es t sid c p"
  shows "engine_keeps es t sid n0 w w (exec_sync_read c p th w)"
proof -
  have "thread_ok es t sid n0 w (exec_sync_read c p th w)"
  proof (cases "sync_read (w_points w) c")
    case (Inl e)
    have "thread_ok es t sid n0 w (not_found (th_handler th) (w_stack w))"
      by (rule not_found_ok) (use th in \<open>simp add: thread_ok_def\<close>)
    then show ?thesis by (cases e) (simp_all add: exec_sync_read_def Inl)
  next
    case (Inr r)
    obtain ak d where r: "r = (ak, d)" by fastforce
    have "write_ok t sid w c ak d"
    proof (cases "sa_traversal c = t")
      case True
      obtain sp d0 where sp: "w_points w (call_key c) = Some sp" "sp_atomic_key sp = ak"
        "deserialize_input_data (sp_input_data sp) = Inr d0" "d = AList.update (KTuple (sa_key c)) (sa_data c) d0"
        using sync_read_Inr Inr r by metis
      have x: "target_of c \<in> targets es" and plain: "plain (sa_data c)"
        using call True preds_target unfolding call_ok_def by blast+
      note key = call_key_point[OF call True]
      have "point_ok sid sp" using env x sp(1) unfolding key env_ok_def points_ok_def by blast
      then have "plain (JDict d0)" using sp(3) by (auto simp: point_ok_def simp del: plain.simps)
      then have "plain (JDict d)" unfolding sp(4) using plain by (rule plain_update)
      then show ?thesis using sp key by (simp add: write_ok_def del: plain.simps)
    qed (simp add: write_ok_def)
    then show ?thesis using th call by (simp add: exec_sync_read_def Inr r thread_ok_def)
  qed
  then show ?thesis using env by (simp add: engine_keeps_def)
qed

lemma after_sync_ok:
  assumes env: "env_ok es t sid n0 w" and call: "call_ok es t sid c p" and plain: "sa_traversal c = t \<longrightarrow> plain (JDict d)"
    and a: "a \<in> set (after_sync c p d)"
  shows "action_ok es t sid n0 w a"
proof (cases p)
  case (MarkStack s)
  then show ?thesis using a call by (auto simp: after_sync_def call_ok_def split: if_splits)
next
  case (DoCheck adopt)
  obtain i where i: "sa_entity c = RsrcEntity i" and a': "a = Trigger \<lparr>m_rsrc = i, m_traversal = sa_traversal c,
      m_data = serialize_input_data d, m_update = sa_update c, m_adopt = adopt\<rparr>"
    using a by (cases "sa_entity c") (auto simp: after_sync_def DoCheck split: if_splits)
  have "(i, sa_update c) \<in> edge_nodes es" if "sa_traversal c = t"
    using call that i by (auto simp: call_ok_def)
  moreover have "i < rt_next (w_rsrcs w)" if "(i, u) \<in> edge_nodes es" for u
    using env that by (force simp: env_ok_def)
  ultimately show ?thesis using plain by (auto simp: a' msg_ok_def simp del: plain.simps)
qed

lemma exec_write_keeps:
  assumes env: "env_ok es t sid n0 w" and th: "thread_ok es t sid n0 w th"
    and call: "call_ok es t sid c p" "write_ok t sid w c ak d" and ex: "exec_sync_write c p ak d th w = (w', th')"
  shows "engine_keeps es t sid n0 w w' th'"
proof -
  show ?thesis
  proof (cases "sync_write (w_points w) c ak d")
    case (Inl e)
    then show ?thesis using ex env by (simp add: exec_sync_write_def engine_keeps_def)
  next
    case (Inr x)
    then obtain rows sps where wr: "sync_write (w_points w) c ak d = Inr (rows, sps)" by (cases x) simp
    then show ?thesis
    proof (cases rule: sync_write_cases)
    case 1
    then show ?thesis using ex wr env th call(1) by (auto simp: exec_sync_write_def engine_keeps_def thread_ok_def)
  next
    case (2 sp)
    have w': "w' = w\<lparr>w_points := sps\<rparr>" and th': "th' = th\<lparr>th_todo := after_sync c p d @ th_todo th\<rparr>"
      using ex wr 2(1) by (simp_all add: exec_sync_write_def)
    note w = write_keeps[OF env call 2(2,3,4), folded w']
    have "thread_ok es t sid n0 w' th" using thread_ok_later[OF w(2) th] .
    moreover have "action_ok es t sid n0 w' a" if "a \<in> set (after_sync c p d)" for a
      by (rule after_sync_ok[OF w(1) call(1) _ that]) (use call(2) in \<open>simp add: write_ok_def del: plain.simps\<close>)
    ultimately have "thread_ok es t sid n0 w' th'" unfolding th' thread_ok_def by auto
    with w show ?thesis by (simp add: engine_keeps_def)
    qed
  qed
qed

lemma stack_change_keeps:
  assumes "env_ok es t sid n0 w" "row_change es t sid (w_stack w) row"
    "\<And>w'. later es t sid w w' \<Longrightarrow> thread_ok es t sid n0 w' th"
  shows "engine_keeps es t sid n0 w (w\<lparr>w_stack := row\<rparr>) th"
  using env_ok_stack[OF assms(1,2)] assms(3) by (simp add: engine_keeps_def)

lemma converge_deps_keeps:
  assumes env: "env_ok es t sid n0 w" and s: "st_traversal s \<noteq> t" and ex: "exec_converge_deps tdeps s w = (w', th')"
  shows "engine_keeps es t sid n0 w w' th'"
proof (cases "update_or_store_resources s tdeps (w_rsrcs w)")
  case (Inl e)
  then show ?thesis using ex env by (simp add: exec_converge_deps_def engine_keeps_def)
next
  case (Inr rti)
  obtain rt ids where rti: "rti = (rt, ids)" by fastforce
  have rows: "rows_ok n0 (w_log w) (w_rsrcs w)" using env by (simp add: env_ok_def)
  note st = rows_ok_update_or_store[OF rows Inr[unfolded rti]]
  let ?w1 = "w\<lparr>w_rsrcs := rt, w_log := w_log w\<rparr>"
  have w1: "env_ok es t sid n0 ?w1" "later es t sid w ?w1"
    by (rule env_ok_tables; use env st in \<open>force simp: env_ok_def\<close>)+
  show ?thesis
  proof (cases "compute_convg_dependencies (rt_rows (w_rsrcs w)) tdeps ids")
    case (Inl e)
    then have "w\<lparr>w_rsrcs := rt\<rparr> = w'" "th' = stop" using ex Inr by (auto simp: exec_converge_deps_def rti)
    moreover have "w\<lparr>w_rsrcs := rt\<rparr> = ?w1" by simp
    ultimately have "w' = ?w1" "th' = stop" by metis+
    then show ?thesis using w1 by (simp add: engine_keeps_def)
  next
    case deps: (Inr deps)
  define s' where "s' = s\<lparr>st_edges := graph_edges deps\<rparr>"
  obtain u row where sr: "stack_store (st_traversal s') s' (w_stack w) = (u, row)" by fastforce
  obtain nodes e where nodes: "toposort (dep_graph deps False) = (nodes, e)" by fastforce
  have s't: "st_traversal s' \<noteq> t" using s by (simp add: s'_def)
  have w': "w' = w\<lparr>w_rsrcs := rt, w_stack := row\<rparr>"
    using ex sr nodes by (auto simp: exec_converge_deps_def Inr rti deps Let_def s'_def split: if_splits)
  have th': "thread_ok es t sid n0 w'' th'" for w''
    using ex sr nodes s't
    by (auto simp: exec_converge_deps_def Inr rti deps Let_def s'_def stack_ok_def split: if_splits)
  have change: "row_change es t sid (w_stack ?w1) row"
    using stack_store_change[OF stack_ok_other[OF s't], of "st_traversal s'" es sid "w_stack w"] sr s't by simp
  have "w' = ?w1\<lparr>w_stack := row\<rparr>" by (simp add: w')
  with env_ok_stack[OF w1(1) change] later_trans[OF w1(2)] th' show ?thesis by (simp add: engine_keeps_def)
  qed
qed

lemma exec_keeps:
  assumes env: "env_ok es t sid n0 w" and th: "thread_ok es t sid n0 w th" and a: "action_ok es t sid n0 w a"
    and ex: "exec ch a th w = Some (w', th')"
  shows "engine_keeps es t sid n0 w w' th'"
proof -
  have th_later: "later es t sid w w' \<Longrightarrow> thread_ok es t sid n0 w' th" for w' using thread_ok_later th by blast
  have row: "row_change es t sid (w_stack w) (snd (state_set s st (w_stack w)))" for s st by blast
  show ?thesis
  proof (cases a)
    case (Check m s r data)
    then show ?thesis using exec_check_keeps[OF env] a ex by simp
  next
    case (HandleFailure i u s)
    then obtain handled row' thf where hf: "handle_failure s (w_stack w) = (handled, row', thf)"
      and w': "w' = w\<lparr>w_stack := row'\<rparr>" and th': "th' = (if handled then thf else (case row' of None \<Rightarrow> stop
        | Some latest \<Rightarrow> if st_traversal s \<noteq> st_traversal latest then retrigger_check_resource u i latest else stop))"
      using ex by (auto split: prod.splits)
    have s: "stack_ok es t sid s" "cur w = Some t \<longrightarrow> st_traversal s = t" using a HandleFailure by simp_all
    note ok = handle_failure_ok[OF s(1) hf]
    have "thread_ok es t sid n0 w'' th'" for w''
    proof (cases row')
      case (Some latest)
      have "st_traversal latest = t \<Longrightarrow> st_traversal s = t"
        using ok(1) s(2) unfolding row_change_def cur_def Some by simp
      then show ?thesis using ok(2) retrigger_ok[of latest t]
        by (cases "st_traversal latest = t") (auto simp: th' Some)
    qed (use ok(2) in \<open>simp add: th'\<close>)
    then show ?thesis unfolding w' by (intro stack_change_keeps[OF env ok(1)])
  next
    case (HandleTimeout s)
    then obtain handled row' where hf: "handle_failure s (w_stack w) = (handled, row', th')" and w': "w' = w\<lparr>w_stack := row'\<rparr>"
      using ex by (auto split: prod.splits)
    have "stack_ok es t sid s" using a HandleTimeout by simp
    note ok = handle_failure_ok[OF this hf]
    show ?thesis unfolding w' by (rule stack_change_keeps[OF env ok(1) ok(2)])
  next
    case (SyncRead c p)
    then show ?thesis using read_keeps[OF env th] a ex by auto
  next
    case (SyncWrite c p ak d)
    then show ?thesis using exec_write_keeps[OF env th] a ex by auto
  next
    case (Trigger m)
    let ?w = "w\<lparr>w_inbox := add_mset m (w_inbox w)\<rparr>"
    let ?e = "Triggered (m_traversal m) (m_rsrc m, m_update m)"
    have 1: "env_ok es t sid n0 ?w" "later es t sid w ?w" using env_ok_inbox[OF env] a Trigger by auto
    have 2: "env_ok es t sid n0 (?w\<lparr>w_log := ?e # w_log ?w\<rparr>)" "later es t sid ?w (?w\<lparr>w_log := ?e # w_log ?w\<rparr>)"
      using env_ok_event[OF 1(1), of ?e] by simp_all
    then show ?thesis using ex th_later later_trans[OF 1(2) 2(2)] by (auto simp: Trigger engine_keeps_def)
  next
    case (Recast m)
    then show ?thesis using env_ok_inbox[OF env] a ex th_later by (auto simp: engine_keeps_def)
  next
    case (MarkComplete s)
    obtain u row' where sr: "state_set s COMPLETE (w_stack w) = (u, row')" by fastforce
    let ?w = "w\<lparr>w_stack := row'\<rparr>"
    have 1: "env_ok es t sid n0 ?w" "later es t sid w ?w" using env_ok_stack[OF env row[of s COMPLETE]] sr by simp_all
    have 2: "env_ok es t sid n0 (?w\<lparr>w_log := Completed (st_traversal s) # w_log ?w\<rparr>)"
      "later es t sid ?w (?w\<lparr>w_log := Completed (st_traversal s) # w_log ?w\<rparr>)"
      using env_ok_event[OF 1(1)] by simp_all
    have w': "w' = ?w\<lparr>w_log := Completed (st_traversal s) # w_log ?w\<rparr>"
      and th': "th' = th\<lparr>th_todo := (if u then purge_db (s\<lparr>st_status := COMPLETE\<rparr>) else []) @ th_todo th\<rparr>"
      using ex sr by (simp_all add: MarkComplete exec_mark_complete_def Let_def)
    have s: "stack_ok es t sid (s\<lparr>st_status := COMPLETE\<rparr>)" using a MarkComplete by (simp add: stack_ok_def)
    have l: "later es t sid w w'" unfolding w' by (rule later_trans[OF 1(2) 2(2)])
    have "thread_ok es t sid n0 w' th'"
      using th_later[OF l] purge_ok[OF s] unfolding th' thread_ok_def by auto
    then show ?thesis using 2 l by (simp add: engine_keeps_def w')
  next
    case (PurgeStore s)
    then have "stack_ok es t sid s" using a by simp
    from stack_store_change[OF this, of "st_traversal s" "w_stack w"] have c: "row_change es t sid (w_stack w)
        (snd (stack_store (st_traversal s) s (w_stack w)))" by simp
    show ?thesis using ex stack_change_keeps[OF env c] th_later by (auto simp: PurgeStore split: prod.splits if_splits)
  next
    case (DeletePoints sid' trv)
    then show ?thesis using ex delete_keeps[OF env] th_later by (auto simp: engine_keeps_def)
  next
    case (DeleteStack s)
    then show ?thesis using ex stack_change_keeps[OF env row] stack_change_keeps[OF env row_change_none] th_later
      by (auto split: if_splits)
  next
    case (Rollback s)
    then obtain uuid tmpl where ch: "ch = NewTraversal uuid tmpl" "uuid \<notin> set (w_uuids w)"
      using ex by (auto split: choice.splits if_splits)
    then have ut: "uuid \<noteq> t" using env by (auto simp: env_ok_def)
    let ?w = "w\<lparr>w_uuids := uuid # w_uuids w\<rparr>"
    have w: "env_ok es t sid n0 ?w" "later es t sid w ?w" using env by (auto simp: env_ok_def later_def cur_def msg_ok_def)
    have "stack_ok es t sid (s\<lparr>st_prev_template := None\<rparr>)" using a Rollback by (simp add: stack_ok_def)
    from stack_store_change[OF this, of "st_traversal s" "w_stack ?w"]
    have c: "row_change es t sid (w_stack ?w) (snd (stack_store (st_traversal s) (s\<lparr>st_prev_template := None\<rparr>) (w_stack w)))"
      by simp
    have "st_traversal (converge_stack s' tm act uuid) \<noteq> t" for s' tm act using ut by (simp add: converge_stack_def)
    then show ?thesis
      using ex ch w env_ok_stack[OF w(1) c] later_trans[OF w(2)]
      by (auto simp: Rollback engine_keeps_def Let_def split: option.splits prod.splits if_splits)
  next
    case (Converge s prev)
    then have s: "st_traversal s \<noteq> t" using a by simp
    have c: "row_change es t sid (w_stack w) (snd (stack_store prev s (w_stack w)))"
      by (rule stack_store_change) (use s in \<open>simp_all add: stack_ok_other\<close>)
    show ?thesis using ex s stack_change_keeps[OF env c] by (auto simp: Converge split: prod.splits if_splits)
  next
    case (ConvergeDeps s)
    then show ?thesis using ex converge_deps_keeps[OF env] a by (auto split: choice.splits)
  next
    case (CreatePoint e u s)
    then have s: "st_traversal s \<noteq> t" using a by simp
    have same: "sps (point_key sid t x) = w_points w (point_key sid t x)"
      if "sp_create (w_points w) e (st_traversal s) u (st_id s) = Inr sps" for sps x
    proof -
      have "(str_entity e, st_traversal s, u) \<noteq> point_key sid t x"
        using s point_key_traversal[of sid t x] by (metis fst_conv snd_conv)
      then show ?thesis using that by (auto simp: sp_create_def Let_def split: if_splits)
    qed
    show ?thesis
    proof (cases "sp_create (w_points w) e (st_traversal s) u (st_id s)")
      case (Inr sps)
      from points_frame[OF env same[OF Inr]] show ?thesis
        using ex th_later by (auto simp: CreatePoint Inr engine_keeps_def)
    qed (use ex env in \<open>auto simp: CreatePoint engine_keeps_def\<close>)
  qed
qed


subsection \<open>Steps\<close>

text \<open>The check of a resource is the only action of its thread.\<close>

definition solo :: "thread \<Rightarrow> bool" where
  "solo th \<longleftrightarrow> (\<forall>m s r d. Check m s r d \<in> set (th_todo th) \<longrightarrow> th_todo th = [Check m s r d])"

fun no_check :: "action \<Rightarrow> bool" where
  "no_check (Check m s r d) = False"
| "no_check _ = True"

lemma solo_no_check: "\<forall>a \<in> set (th_todo th). no_check a \<Longrightarrow> solo th"
  unfolding solo_def by (metis no_check.simps(1))

lemma solo_rest:
  assumes "solo th" "th_todo th = a # rest"
  shows "\<forall>b \<in> set rest. no_check b" "a = Check m s r d \<Longrightarrow> rest = []"
proof -
  have alone: "b \<in> set (th_todo th) \<Longrightarrow> b = Check m s r d \<Longrightarrow> th_todo th = [b]" for b m s r d
    using assms(1) unfolding solo_def by blast
  show "a = Check m s r d \<Longrightarrow> rest = []" using alone[of a m s r d] assms(2) by simp
  show "\<forall>b \<in> set rest. no_check b"
  proof
    fix b assume b: "b \<in> set rest"
    show "no_check b"
    proof (rule ccontr)
      assume "\<not> no_check b"
      then obtain m s r d where c: "b = Check m s r d" by (cases b) auto
      then have "th_todo th = [b]" using alone[of b m s r d] assms(2) b by simp
      then show False using assms(2) b by simp
    qed
  qed
qed

lemma no_check_propagate [simp]: "no_check (propagate_check_resource i trv ps k d u ad)"
  by (simp add: propagate_check_resource_def)

lemma no_check_simps [simp]:
  "\<forall>a \<in> set (check_stack_complete s trv i deps u). no_check a" "\<forall>a \<in> set (purge_db s). no_check a"
  "th_todo stop = []" "th_todo (continue todo) = todo" "\<forall>a \<in> set (th_todo (retrigger_check_resource u i s)). no_check a"
  by (auto simp: check_stack_complete_def purge_db_def stop_def continue_def retrigger_check_resource_def Let_def)

lemma initiate_todo:
  assumes "initiate_propagate m s r data = Inr todo"
    and "deps = convergence_dependencies s" and "gk = graph_key_of deps (m_rsrc m) (m_update m) r"
  shows "gk \<in> keys deps" "todo = map (\<lambda>(req, fwd).
      propagate_check_resource req (m_traversal m) (nd_require (node_of deps (req, fwd))) gk
        (get_input_data (m_rsrc m) r gk data (req, fwd)) fwd (m_adopt m)) (nd_satisfy (node_of deps gk))
      @ check_stack_complete s (m_traversal m) (m_rsrc m) deps (m_update m)"
  using assms(1) by (auto simp: initiate_propagate_def dep_required_by_def assms(2,3) Let_def split: if_splits)

lemma initiate_no_check:
  assumes "initiate_propagate m s r data = Inr todo" shows "\<forall>a \<in> set todo. no_check a"
  unfolding initiate_todo(2)[OF assms refl refl] by auto

lemma no_check_failure:
  "handle_failure s row = (handled, row', th) \<Longrightarrow> \<forall>a \<in> set (th_todo th). no_check a"
  by (auto simp: handle_failure_def Let_def split: prod.splits if_splits)

lemma exec_no_check:
  assumes rest: "\<forall>b \<in> set (th_todo th). no_check b" and ex: "exec ch a th w = Some (w', th')"
  shows "\<forall>b \<in> set (th_todo th'). no_check b"
proof (cases a)
  case (Check m s r data)
  then have ex: "exec_check ch m s r data w = Some (w', th')" using ex by simp
  then show ?thesis
    by (cases ch) (auto simp: Let_def split: if_splits sum.splits option.splits prod.splits
        dest!: initiate_no_check)
next
  case (HandleFailure i u s)
  then show ?thesis using ex no_check_failure[of s "w_stack w"]
    by (auto split: prod.splits option.splits if_splits)
next
  case (HandleTimeout s)
  then show ?thesis using ex no_check_failure[of s "w_stack w"] by (auto split: prod.splits)
next
  case (SyncRead c p)
  then show ?thesis using ex rest
    by (auto simp: exec_sync_read_def not_found_def
        split: sum.splits prod.splits convergence_exc.splits handler.splits option.splits if_splits)
next
  case (SyncWrite c p ak d)
  then show ?thesis using ex rest
    by (auto simp: exec_sync_write_def after_sync_def
        split: prod.splits if_splits propagate.splits entity.splits sum.splits)
next
  case (MarkComplete s)
  then show ?thesis using ex rest
    by (auto simp: exec_mark_complete_def split: prod.splits if_splits)
next
  case (ConvergeDeps s)
  then show ?thesis using ex
    by (auto simp: exec_converge_deps_def Let_def split: choice.splits sum.splits prod.splits if_splits)
qed (use ex rest in \<open>auto simp: Let_def split: prod.splits if_splits choice.splits option.splits sum.splits\<close>)


definition engine_inv :: "node_key edge list \<Rightarrow> string \<Rightarrow> string \<Rightarrow> int \<Rightarrow> world \<Rightarrow> bool" where
  "engine_inv es t sid n0 w \<longleftrightarrow>
     env_ok es t sid n0 w \<and> (\<forall>th \<in># w_threads w. thread_ok es t sid n0 w th \<and> solo th)"

lemma env_ok_frame:
  "env_ok es t sid n0 (w\<lparr>w_threads := ths\<rparr>) = env_ok es t sid n0 w"
  "later es t sid w (w'\<lparr>w_threads := ths\<rparr>) = later es t sid w w'"
  "action_ok es t sid n0 (w\<lparr>w_threads := ths\<rparr>) a = action_ok es t sid n0 w a"
  "thread_ok es t sid n0 (w\<lparr>w_threads := ths\<rparr>) th = thread_ok es t sid n0 w th"
proof -
  show act: "action_ok es t sid n0 (w\<lparr>w_threads := ths\<rparr>) a = action_ok es t sid n0 w a" for a
    by (cases a) (simp_all add: msg_ok_def cur_def write_ok_def)
  show "thread_ok es t sid n0 (w\<lparr>w_threads := ths\<rparr>) th = thread_ok es t sid n0 w th"
    by (simp add: thread_ok_def act handler_ok_def cur_def)
qed (simp_all add: env_ok_def later_def cur_def msg_ok_def)

lemma begin_check_ok:
  assumes env: "env_ok es t sid n0 w" and m: "m_traversal m = t \<Longrightarrow> msg_ok es n0 w m"
  shows "thread_ok es t sid n0 w (begin_check timed_out m w)" "solo (begin_check timed_out m w)"
proof -
  show "solo (begin_check timed_out m w)"
    by (auto simp: begin_check_def solo_def split: sum.splits option.splits)
  have "action_ok es t sid n0 w (Check m s r data)"
    if s: "w_stack w = Some s" "m_traversal m = st_traversal s" and r: "rt_get (w_rsrcs w) (m_rsrc m) = Some r"
      and d: "deserialize_input_data (m_data m) = Inr data" for s r data
  proof -
    have "(m_rsrc m, r) \<in> set (rt_rows (w_rsrcs w))" using r by (simp add: rt_get_def map_of_SomeD)
    then have "row_ok n0 (w_log w) (m_rsrc m) r" using env by (auto simp: env_ok_def rows_ok_def)
    moreover have "plain (JDict data)" if "m_traversal m = t"
      using m[OF that] d deserialize_input_data_inverse by (auto simp: msg_ok_def simp del: plain.simps)
    ultimately show ?thesis using s m stack_row_ok[OF env s(1)] by (auto simp: cur_def simp del: plain.simps)
  qed
  then show "thread_ok es t sid n0 w (begin_check timed_out m w)"
    using stack_row_ok[OF env] by (auto simp: begin_check_def split: sum.splits option.splits)
qed

lemma step_engine_inv:
  assumes "step w w'" and inv: "engine_inv es t sid n0 w"
  shows "engine_inv es t sid n0 w'"
  using assms(1)
proof (cases rule: step.cases)
  case (deliver m timed_out)
  have env: "env_ok es t sid n0 w" using inv by (simp add: engine_inv_def)
  let ?w = "w\<lparr>w_inbox := w_inbox w - {#m#}\<rparr>"
  have env': "env_ok es t sid n0 ?w" using env by (auto simp: env_ok_def msg_ok_def dest: in_diffD)
  have l: "later es t sid w ?w" by (simp add: later_def cur_def)
  have th: "thread_ok es t sid n0 w (begin_check timed_out m w)" "solo (begin_check timed_out m w)"
    using begin_check_ok[OF env] env deliver(2) by (auto simp: env_ok_def)
  have "w' = ?w\<lparr>w_threads := add_mset (begin_check timed_out m w) (w_threads w)\<rparr>" using deliver(1) by simp
  then show ?thesis using env' th inv thread_ok_later[OF l] by (auto simp: engine_inv_def env_ok_frame)
next
  case (run th a rest ch w1 th')
  have env: "env_ok es t sid n0 w" and th: "thread_ok es t sid n0 w th" "solo th"
    using inv run(2) by (simp_all add: engine_inv_def)
  have a: "action_ok es t sid n0 w a" and rest: "thread_ok es t sid n0 w (th\<lparr>th_todo := rest\<rparr>)"
    using th(1) run(3) by (simp_all add: thread_ok_def)
  from exec_keeps[OF env rest a run(4)] have k: "env_ok es t sid n0 w1" "later es t sid w w1" "thread_ok es t sid n0 w1 th'"
    by (simp_all add: engine_keeps_def)
  have "solo th'"
    by (rule solo_no_check, rule exec_no_check[OF _ run(4)]) (use solo_rest[OF th(2) run(3)] in simp)
  then show ?thesis unfolding run(1) engine_inv_def env_ok_frame
    using inv k thread_ok_later[OF k(2)] by (auto simp: engine_inv_def dest: in_diffD)
next
  case (finish th)
  then show ?thesis using inv by (auto simp: engine_inv_def env_ok_frame dest: in_diffD)
next
  case (crash th)
  then show ?thesis using inv by (auto simp: engine_inv_def env_ok_frame dest: in_diffD)
next
  case (request s uuid tmpl action)
  let ?w = "w\<lparr>w_uuids := uuid # w_uuids w\<rparr>"
  have w: "env_ok es t sid n0 ?w" "later es t sid w ?w"
    using inv by (auto simp: engine_inv_def env_ok_def later_def cur_def msg_ok_def)
  have "uuid \<noteq> t" using inv request(3) by (auto simp: engine_inv_def env_ok_def)
  then have "thread_ok es t sid n0 ?w (continue [Converge (converge_stack s tmpl action uuid) (st_traversal s)])"
    by (simp add: converge_stack_def)
  moreover have "solo (continue [Converge (converge_stack s tmpl action uuid) (st_traversal s)])"
    by (simp add: solo_def)
  ultimately have "engine_inv es t sid n0 (?w\<lparr>w_threads :=
      add_mset (continue [Converge (converge_stack s tmpl action uuid) (st_traversal s)]) (w_threads w)\<rparr>)"
    using w inv thread_ok_later[OF w(2)] by (auto simp: engine_inv_def env_ok_frame)
  then show ?thesis by (simp add: request(1))
qed

end
