(* ===== verification/Heat_Traversal.thy ===== *)
theory Heat_Traversal
  imports Heat_Engine
begin

text \<open>
  The convergence engine refines the abstract traversal: every step of the engine, with crashes,
  failures and other traversals that start at any time, is a step of the abstract machine on what
  the engine holds of one traversal. So each node is triggered at most once, after everything it
  requires was checked, and the stack is marked complete at most once, after every node was.
\<close>

section \<open>Counting\<close>

lemma view_simps:
  "ts_pend (view es sid t w) p = (if p \<in> edge_nodes es then cnt (is_trigger t p) w else 0)"
  "ts_trig (view es sid t w) p = (if p \<in> edge_nodes es then count_list (w_log w) (Triggered t p) else 0)"
  "ts_tok (view es sid t w) p = (if p \<in> edge_nodes es then tok es t w p else 0)"
  "ts_done (view es sid t w) p = (if p \<in> edge_nodes es then count_list (w_log w) (Checked t p) else 0)"
  "ts_debt (view es sid t w) p x = (if p \<in> edge_nodes es then cnt (is_sync t p x) w else 0)"
  "ts_arrived (view es sid t w) x = (if x \<in> targets es then arrived_at (w_points w (point_key sid t x)) else {})"
  "ts_live (view es sid t w) = (w_points w (point_key sid t ToStack) \<noteq> None)"
  "ts_cpend (view es sid t w) = cnt (is_complete t) w"
  "ts_comp (view es sid t w) = count_list (w_log w) (Completed t)"
  by (simp_all add: view_def Let_def)

lemma tstate_eqI:
  fixes s s' :: "'k tstate"
  assumes "\<And>p. ts_pend s p = ts_pend s' p" "\<And>p. ts_trig s p = ts_trig s' p" "\<And>p. ts_tok s p = ts_tok s' p"
    "\<And>p. ts_done s p = ts_done s' p" "\<And>p x. ts_debt s p x = ts_debt s' p x" "\<And>x. ts_arrived s x = ts_arrived s' x"
    "ts_live s = ts_live s'" "ts_cpend s = ts_cpend s'" "ts_comp s = ts_comp s'"
  shows "s = s'"
  by (rule tstate.equality) (use assms in \<open>simp_all add: fun_eq_iff\<close>)

text \<open>The count without one thread, and with another in its place.\<close>

definition cnt_rest :: "(action \<Rightarrow> bool) \<Rightarrow> thread \<Rightarrow> world \<Rightarrow> nat" where
  "cnt_rest P th w = sum_mset (image_mset (cost P) (w_threads w - {#th#}))"

lemma cnt_split: "th \<in># w_threads w \<Longrightarrow> cnt P w = cost P th + cnt_rest P th w"
  by (metis cnt_def cnt_rest_def image_mset_add_mset insert_DiffM sum_mset.insert)

lemma cnt_replace: "cnt P (w'\<lparr>w_threads := add_mset th' (w_threads w - {#th#})\<rparr>) = cost P th' + cnt_rest P th w"
  by (simp add: cnt_def cnt_rest_def)

lemma cnt_remove: "cnt P (w'\<lparr>w_threads := w_threads w - {#th#}\<rparr>) = cnt_rest P th w"
  by (simp add: cnt_def cnt_rest_def)

lemma cnt_add: "cnt P (w'\<lparr>w_threads := add_mset th' (w_threads w)\<rparr>) = cost P th' + cnt P w"
  by (simp add: cnt_def)

lemma cost_simps [simp]:
  "cost P (th\<lparr>th_todo := as\<rparr>) = length (filter P as)" "cost P stop = 0" "cost P (continue as) = length (filter P as)"
  "cost P \<lparr>th_handler = h, th_todo = as\<rparr> = length (filter P as)"
  by (simp_all add: cost_def stop_def continue_def)

lemma cost_cons: "th_todo th = a # rest \<Longrightarrow> cost P th = (if P a then 1 else 0) + length (filter P rest)"
  by (simp add: cost_def)

text \<open>What is about the traversal keeps its node in later worlds.\<close>

lemma msg_node_later:
  assumes "later es t sid w w'" "msg_ok es n0 w m"
  shows "msg_node es (w_log w') m = msg_node es (w_log w) m"
  using assms by (simp add: msg_node_def later_def msg_ok_def)

lemma is_token_later:
  assumes "later es t sid w w'" "action_ok es t sid n0 w a"
  shows "is_token es t (w_log w') k a = is_token es t (w_log w) k a"
  using assms msg_node_later[OF assms(1)] by (cases a) (auto simp: is_token_def)

lemma cost_token_later:
  assumes "later es t sid w w'" "thread_ok es t sid n0 w th"
  shows "cost (is_token es t (w_log w') k) th = cost (is_token es t (w_log w) k) th"
proof -
  have "filter (is_token es t (w_log w') k) (th_todo th) = filter (is_token es t (w_log w) k) (th_todo th)"
    by (rule filter_cong[OF refl], rule is_token_later[of es t sid w w' n0, OF assms(1)]) (use assms(2) in \<open>simp add: thread_ok_def\<close>)
  then show ?thesis by (simp add: cost_def)
qed

lemma cnt_rest_token_later:
  assumes inv: "engine_inv es t sid n0 w" and l: "later es t sid w w'"
  shows "cnt_rest (is_token es t (w_log w') k) th w = cnt_rest (is_token es t (w_log w) k) th w"
proof -
  have "image_mset (cost (is_token es t (w_log w') k)) (w_threads w - {#th#}) =
      image_mset (cost (is_token es t (w_log w) k)) (w_threads w - {#th#})"
    by (rule image_mset_cong, rule cost_token_later[of es t sid w w' n0, OF l]) (use inv in \<open>auto simp: engine_inv_def dest: in_diffD\<close>)
  then show ?thesis by (simp add: cnt_rest_def)
qed

definition mail :: "node_key edge list \<Rightarrow> string \<Rightarrow> event list \<Rightarrow> check_msg multiset \<Rightarrow> node_key \<Rightarrow> nat" where
  "mail es t hist ms k = size {#m \<in># ms. m_traversal m = t \<and> msg_node es hist m = k#}"

lemma tok_mail: "tok es t w k = mail es t (w_log w) (w_inbox w) k + cnt (is_token es t (w_log w) k) w"
  by (simp add: tok_def mail_def)

lemma mail_add: "mail es t hist (add_mset m ms) k =
    (if m_traversal m = t \<and> msg_node es hist m = k then 1 else 0) + mail es t hist ms k"
  by (simp add: mail_def)

lemma mail_later:
  assumes "env_ok es t sid n0 w" "later es t sid w w'"
  shows "mail es t (w_log w') (w_inbox w) k = mail es t (w_log w) (w_inbox w) k"
proof -
  have "{#m \<in># w_inbox w. m_traversal m = t \<and> msg_node es (w_log w') m = k#} =
      {#m \<in># w_inbox w. m_traversal m = t \<and> msg_node es (w_log w) m = k#}"
    using assms(1) msg_node_later[OF assms(2)] by (intro filter_mset_cong) (auto simp: env_ok_def)
  then show ?thesis by (simp add: mail_def)
qed

section \<open>A thread's step in numbers\<close>

text \<open>A step of a thread, seen by what it does to the thread, the queue, the history and the points.\<close>

lemma view_run:
  fixes th' :: thread
  assumes inv: "engine_inv es t sid n0 w" and th: "th \<in># w_threads w" and l: "later es t sid w w'"
  defines "w'' \<equiv> w'\<lparr>w_threads := add_mset th' (w_threads w - {#th#})\<rparr>"
  shows "cnt P w'' + cost P th = cnt P w + cost P th'"
    "tok es t w'' k + mail es t (w_log w) (w_inbox w) k + cost (is_token es t (w_log w) k) th =
       tok es t w k + mail es t (w_log w') (w_inbox w') k + cost (is_token es t (w_log w') k) th'"
proof -
  show "cnt P w'' + cost P th = cnt P w + cost P th'"
    unfolding w''_def cnt_replace cnt_split[OF th] by simp
  have "cnt (is_token es t (w_log w'') k) w'' = cost (is_token es t (w_log w') k) th' +
      cnt_rest (is_token es t (w_log w) k) th w"
    unfolding w''_def cnt_replace using cnt_rest_token_later[OF inv l] by simp
  moreover have "w_inbox w'' = w_inbox w'" "w_log w'' = w_log w'" by (simp_all add: w''_def)
  ultimately show "tok es t w'' k + mail es t (w_log w) (w_inbox w) k + cost (is_token es t (w_log w) k) th =
       tok es t w k + mail es t (w_log w') (w_inbox w') k + cost (is_token es t (w_log w') k) th'"
    unfolding tok_mail cnt_split[OF th] by simp
qed


definition quiet :: "string \<Rightarrow> action \<Rightarrow> bool" where
  "quiet t a \<longleftrightarrow> (\<forall>p. \<not> is_trigger t p a) \<and> (\<forall>es hist k. \<not> is_token es t hist k a) \<and> (\<forall>k x. \<not> is_sync t k x a) \<and>
     \<not> is_complete t a"

lemma quiet_simps [simp]:
  "quiet t (Check m s r d) \<longleftrightarrow> m_traversal m \<noteq> t" "quiet t (SyncRead c p) \<longleftrightarrow> sa_traversal c \<noteq> t"
  "quiet t (SyncWrite c p ak d) \<longleftrightarrow> sa_traversal c \<noteq> t" "quiet t (Trigger m) \<longleftrightarrow> m_traversal m \<noteq> t"
  "quiet t (Recast m) \<longleftrightarrow> m_traversal m \<noteq> t" "quiet t (MarkComplete s) \<longleftrightarrow> st_traversal s \<noteq> t"
  "quiet t (HandleFailure i u s)" "quiet t (HandleTimeout s)" "quiet t (PurgeStore s)"
  "quiet t (DeletePoints sid trv)" "quiet t (DeleteStack s)" "quiet t (Rollback s)" "quiet t (Converge s prev)"
  "quiet t (ConvergeDeps s)" "quiet t (CreatePoint e u s)"
  by (auto simp: quiet_def is_trigger_def is_token_def is_sync_def is_complete_def)

lemma quiet_filter:
  assumes "\<forall>a \<in> set as. quiet t a"
  shows "filter (is_trigger t p) as = []" "filter (is_token es t hist k) as = []" "filter (is_sync t k x) as = []"
    "filter (is_complete t) as = []"
  using assms unfolding quiet_def filter_empty_conv by blast+

definition same_log :: "node_key edge list \<Rightarrow> string \<Rightarrow> world \<Rightarrow> world \<Rightarrow> bool" where
  "same_log es t w w' \<longleftrightarrow>
     (\<forall>k \<in> edge_nodes es. count_list (w_log w') (Triggered t k) = count_list (w_log w) (Triggered t k) \<and>
        count_list (w_log w') (Checked t k) = count_list (w_log w) (Checked t k)) \<and>
     count_list (w_log w') (Completed t) = count_list (w_log w) (Completed t)"

definition same_points :: "node_key edge list \<Rightarrow> string \<Rightarrow> string \<Rightarrow> world \<Rightarrow> world \<Rightarrow> bool" where
  "same_points es sid t w w' \<longleftrightarrow>
     (\<forall>x \<in> targets es. w_points w' (point_key sid t x) = w_points w (point_key sid t x))"

lemma stack_target [simp]: "ToStack \<in> targets es"
  by (simp add: targets_def)

lemma run_lost:
  fixes th' :: thread
  assumes inv: "engine_inv es t sid n0 w" and th: "th \<in># w_threads w" and l: "later es t sid w w'"
    and cost: "\<And>p. cost (is_trigger t p) th' \<le> cost (is_trigger t p) th"
      "\<And>k x. cost (is_sync t k x) th' \<le> cost (is_sync t k x) th" "cost (is_complete t) th' \<le> cost (is_complete t) th"
    and tok: "\<And>k. k \<in> edge_nodes es \<Longrightarrow> mail es t (w_log w') (w_inbox w') k + cost (is_token es t (w_log w') k) th' \<le>
      mail es t (w_log w) (w_inbox w) k + cost (is_token es t (w_log w) k) th"
    and same: "same_log es t w w'" "same_points es sid t w w'"
  shows "ts_lost (view es sid t w) (view es sid t (w'\<lparr>w_threads := add_mset th' (w_threads w - {#th#})\<rparr>))"
    (is "ts_lost _ (view es sid t ?w)")
proof -
  note run = view_run[OF inv th l, where th' = th']
  have c: "cost P th' \<le> cost P th \<Longrightarrow> cnt P ?w \<le> cnt P w" for P using run(1)[of P] by linarith
  have "tok es t ?w k \<le> tok es t w k" if "k \<in> edge_nodes es" for k
    using run(2)[of k] tok[OF that] by linarith
  with c cost same show ?thesis
    by (auto simp: ts_lost_def view_simps same_log_def same_points_def fun_eq_iff)
qed

lemma run_same:
  fixes th' :: thread
  assumes inv: "engine_inv es t sid n0 w" and th: "th \<in># w_threads w" and l: "later es t sid w w'"
    and cost: "\<And>p. cost (is_trigger t p) th' = cost (is_trigger t p) th"
      "\<And>k x. cost (is_sync t k x) th' = cost (is_sync t k x) th" "cost (is_complete t) th' = cost (is_complete t) th"
    and tok: "\<And>k. k \<in> edge_nodes es \<Longrightarrow> mail es t (w_log w') (w_inbox w') k + cost (is_token es t (w_log w') k) th' =
      mail es t (w_log w) (w_inbox w) k + cost (is_token es t (w_log w) k) th"
    and same: "same_log es t w w'" "same_points es sid t w w'"
  shows "view es sid t (w'\<lparr>w_threads := add_mset th' (w_threads w - {#th#})\<rparr>) = view es sid t w"
    (is "view es sid t ?w = _")
proof -
  note run = view_run[OF inv th l, where th' = th']
  have c: "cost P th' = cost P th \<Longrightarrow> cnt P ?w = cnt P w" for P using run(1)[of P] by linarith
  have "tok es t ?w k = tok es t w k" if "k \<in> edge_nodes es" for k
    using run(2)[of k] tok[OF that] by linarith
  with c cost same show ?thesis
    by (intro tstate_eqI) (auto simp: view_simps same_log_def same_points_def)
qed

lemma same_log_refl [simp]: "w_log w' = w_log w \<Longrightarrow> same_log es t w w'"
  by (simp add: same_log_def)

lemma same_points_refl [simp]: "w_points w' = w_points w \<Longrightarrow> same_points es sid t w w'"
  by (simp add: same_points_def)

text \<open>A quiet thread after an action that does not touch the queue.\<close>

lemma quiet_lost:
  fixes th' :: thread
  assumes inv: "engine_inv es t sid n0 w" and th: "th \<in># w_threads w" "th_todo th = a # rest" and l: "later es t sid w w'"
    and todo: "\<forall>b \<in> set new. quiet t b" "th_todo th' = new @ rest \<or> th_todo th' = new"
    and inbox: "w_inbox w' = w_inbox w" and same: "same_log es t w w'" "same_points es sid t w w'"
  shows "ts_lost (view es sid t w) (view es sid t (w'\<lparr>w_threads := add_mset th' (w_threads w - {#th#})\<rparr>))"
proof (rule run_lost[OF inv th(1) l _ _ _ _ same])
  obtain r where r: "th_todo th' = new @ r" "r = rest \<or> r = []" using todo(2) by (metis append_Nil2)
  show "cost (is_trigger t p) th' \<le> cost (is_trigger t p) th" "cost (is_sync t k x) th' \<le> cost (is_sync t k x) th"
    "cost (is_complete t) th' \<le> cost (is_complete t) th" for p k x
    using r(2) by (auto simp: cost_def th(2) r(1) quiet_filter[OF todo(1)])
  have env: "env_ok es t sid n0 w" and "thread_ok es t sid n0 w th" using inv th(1) by (simp_all add: engine_inv_def)
  then have "cost (is_token es t (w_log w') k) th = cost (is_token es t (w_log w) k) th" for k
    using cost_token_later[OF l] by blast
  moreover have "cost (is_token es t (w_log w') k) th' \<le> cost (is_token es t (w_log w') k) th" for k
    using r(2) by (auto simp: cost_def th(2) r(1) quiet_filter[OF todo(1)])
  ultimately show "mail es t (w_log w') (w_inbox w') k + cost (is_token es t (w_log w') k) th' \<le>
      mail es t (w_log w) (w_inbox w) k + cost (is_token es t (w_log w) k) th" for k
    using mail_later[OF env l, of k] inbox by (metis add_left_mono)
qed


section \<open>Actions as abstract steps\<close>

lemma retrigger_quiet: "st_traversal s \<noteq> t \<Longrightarrow> \<forall>a \<in> set (th_todo (retrigger_check_resource u i s)). quiet t a"
  by (simp add: retrigger_check_resource_def Let_def propagate_check_resource_def)

lemma purge_quiet: "\<forall>a \<in> set (purge_db s). quiet t a"
  by (auto simp: purge_db_def)

lemma not_found_quiet:
  assumes "handler_ok t w h" shows "\<forall>a \<in> set (th_todo (not_found h (w_stack w))). quiet t a"
proof (cases "\<exists>i u trv s. h = Propagating i u trv \<and> w_stack w = Some s \<and> st_traversal s \<noteq> trv")
  case True
  then obtain i u trv s where h: "h = Propagating i u trv" "w_stack w = Some s" "st_traversal s \<noteq> trv" by blast
  then have "st_traversal s \<noteq> t" using assms unfolding handler_ok_def cur_def by auto
  then show ?thesis using retrigger_quiet h by (simp add: not_found_def)
qed (auto simp: not_found_def split: handler.splits option.splits)

text \<open>Only a replacement changes which node a message is about.\<close>

lemma same_node:
  assumes "\<And>j i. e \<noteq> Replaced j i"
  shows "msg_node es (e # hist) = msg_node es hist" "is_token es t (e # hist) = is_token es t hist"
    "mail es t (e # hist) = mail es t hist"
proof -
  have "origin (e # hist) = origin hist" using assms by (cases e) auto
  then show node: "msg_node es (e # hist) = msg_node es hist" by (simp add: msg_node_def fun_eq_iff)
  show "is_token es t (e # hist) = is_token es t hist" "mail es t (e # hist) = mail es t hist"
    unfolding fun_eq_iff is_token_def mail_def node by simp_all
qed

lemma failure_quiet:
  "handle_failure s row = (handled, row', th) \<Longrightarrow> \<forall>a \<in> set (th_todo th). quiet t a"
  using purge_quiet[of "s\<lparr>st_status := FAILED\<rparr>"]
  by (auto simp: handle_failure_def Let_def split: prod.splits if_splits)

text \<open>The facts about a step of a thread that every case starts from.\<close>

lemma run_facts:
  assumes inv: "engine_inv es t sid n0 w" and th: "th \<in># w_threads w" "th_todo th = a # rest"
    and ex: "exec ch a (th\<lparr>th_todo := rest\<rparr>) w = Some (w', th')"
  shows "env_ok es t sid n0 w" "action_ok es t sid n0 w a" "handler_ok t w (th_handler th)" "later es t sid w w'"
    "thread_ok es t sid n0 w (th\<lparr>th_todo := rest\<rparr>)" "a = Check m s r d \<Longrightarrow> rest = []"
proof -
  show env: "env_ok es t sid n0 w" and a: "action_ok es t sid n0 w a" and "handler_ok t w (th_handler th)"
    and rest: "thread_ok es t sid n0 w (th\<lparr>th_todo := rest\<rparr>)"
    using inv th by (auto simp: engine_inv_def thread_ok_def)
  show "later es t sid w w'" using exec_keeps[OF env rest a ex] by (simp add: engine_keeps_def)
  show "a = Check m s r d \<Longrightarrow> rest = []" using inv th solo_rest(2) by (auto simp: engine_inv_def)
qed

lemma exact_step: "ts_exact N R s s' \<Longrightarrow> ts_step N R s s'"
  by (rule ts_step.exact) (auto simp: ts_lost_def)

lemma lost_step: "ts_lost s s' \<Longrightarrow> ts_step N R s s'"
  by (rule ts_step.exact[OF ts_exact.stutter])

lemma count_cons: "count_list (e # hist) e' = (if e = e' then 1 else 0) + count_list hist e'"
  by simp

text \<open>A trigger of the traversal.\<close>

lemma trigger_exact:
  assumes inv: "engine_inv es t sid n0 w" and th: "th \<in># w_threads w" "th_todo th = Trigger m # rest" and m: "m_traversal m = t"
    and ex: "exec ch (Trigger m) (th\<lparr>th_todo := rest\<rparr>) w = Some (w', th')"
  shows "ts_exact (edge_nodes es) (edge_rel es) (view es sid t w)
    (view es sid t (w'\<lparr>w_threads := add_mset th' (w_threads w - {#th#})\<rparr>))" (is "ts_exact ?N ?R ?s (view es sid t ?w)")
proof -
  define p where "p = (m_rsrc m, m_update m)"
  note f = run_facts[OF inv th ex]
  have p: "p \<in> ?N" using f(2) m by (simp add: p_def)
  have w': "w' = w\<lparr>w_inbox := add_mset m (w_inbox w), w_log := Triggered t p # w_log w\<rparr>"
    and th': "th' = th\<lparr>th_todo := rest\<rparr>" using ex m by (simp_all add: p_def)
  note run = view_run[OF inv th(1) f(4), where th' = th']
  have node: "msg_node es hist m = p" for hist using p by (simp add: msg_node_def p_def)
  have c: "cost P th = (if P (Trigger m) then 1 else 0) + cost P th'" for P by (simp add: th' cost_cons[OF th(2)])
  have ks: "is_trigger t q (Trigger m) \<longleftrightarrow> q = p" "\<not> is_token es t hist k (Trigger m)" "\<not> is_sync t k x (Trigger m)"
    "\<not> is_complete t (Trigger m)" for q k x hist
    by (auto simp: is_trigger_def is_token_def is_sync_def is_complete_def m p_def)
  have pend: "cnt (is_trigger t q) w = cnt (is_trigger t q) ?w + (if q = p then 1 else 0)" for q
    using run(1)[of "is_trigger t q"] c[of "is_trigger t q"] ks(1)[of q] by simp
  have other: "cnt (is_sync t k x) ?w = cnt (is_sync t k x) w" "cnt (is_complete t) ?w = cnt (is_complete t) w" for k x
    using run(1)[of "is_sync t k x"] run(1)[of "is_complete t"] c ks by simp_all
  have hist: "is_token es t (w_log w') = is_token es t (w_log w)" "mail es t (w_log w') = mail es t (w_log w)"
    by (simp_all add: w' same_node)
  have tok: "tok es t ?w k = tok es t w k + (if k = p then 1 else 0)" for k
    using run(2)[of k] c[of "is_token es t (w_log w) k"] ks(2) unfolding hist
    by (simp add: w' mail_add m node)
  have "view es sid t ?w = ts_trigger p ?s"
    by (rule tstate_eqI) (use pend other tok p in \<open>auto simp: view_simps ts_trigger_def w'\<close>)
  moreover have "0 < ts_pend ?s p" using pend[of p] p by (simp add: view_simps)
  ultimately show ?thesis using p ts_exact.trigger by metis
qed


text \<open>The stack is marked complete.\<close>

lemma complete_exact:
  assumes inv: "engine_inv es t sid n0 w" and th: "th \<in># w_threads w" "th_todo th = MarkComplete s # rest"
    and s: "st_traversal s = t" and ex: "exec ch (MarkComplete s) (th\<lparr>th_todo := rest\<rparr>) w = Some (w', th')"
  shows "ts_exact (edge_nodes es) (edge_rel es) (view es sid t w)
    (view es sid t (w'\<lparr>w_threads := add_mset th' (w_threads w - {#th#})\<rparr>))" (is "ts_exact ?N ?R ?s (view es sid t ?w)")
proof -
  note f = run_facts[OF inv th ex]
  obtain new where new: "\<forall>a \<in> set new. quiet t a" "th_todo th' = new @ rest"
    and w': "w_log w' = Completed t # w_log w" "w_inbox w' = w_inbox w" "w_points w' = w_points w"
    using ex s purge_quiet[of "s\<lparr>st_status := COMPLETE\<rparr>" t]
    by (auto simp: exec_mark_complete_def split: prod.splits if_splits)
  note run = view_run[OF inv th(1) f(4), where th' = th'] and q = quiet_filter[OF new(1)]
  have ks: "\<not> is_trigger t p (MarkComplete s)" "\<not> is_token es t hist k (MarkComplete s)" "\<not> is_sync t k x (MarkComplete s)"
    "is_complete t (MarkComplete s)" for p k x hist
    by (auto simp: is_trigger_def is_token_def is_sync_def is_complete_def s)
  have c: "cost P th = (if P (MarkComplete s) then 1 else 0) + length (filter P rest)"
    "cost P th' = length (filter P new) + length (filter P rest)" for P
    by (simp_all add: cost_def th(2) new(2))
  have cnt: "cnt (is_trigger t p) ?w = cnt (is_trigger t p) w" "cnt (is_sync t k x) ?w = cnt (is_sync t k x) w"
    "cnt (is_complete t) w = cnt (is_complete t) ?w + 1" for p k x
    using run(1)[of "is_trigger t p"] run(1)[of "is_sync t k x"] run(1)[of "is_complete t"] by (simp_all add: c ks q)
  have tok: "tok es t ?w k = tok es t w k" for k
    using run(2)[of k] by (simp add: c ks q w' same_node)
  have "view es sid t ?w = ts_complete ?s"
    by (rule tstate_eqI) (use cnt tok in \<open>auto simp: view_simps ts_complete_def w'\<close>)
  moreover have "0 < ts_cpend ?s" using cnt(3) by (simp add: view_simps)
  ultimately show ?thesis using ts_exact.complete by metis
qed

text \<open>A notice arrives: the write of a call of the traversal.\<close>

lemma arrived_written:
  assumes "plain (JDict d)" "d = AList.update (KTuple k) v d0" "deserialize_input_data (sp_input_data sp) = Inr d0"
  shows "arrived_at (Some (sp\<lparr>sp_atomic_key := ak, sp_input_data := serialize_input_data d\<rparr>)) = insert k (arrived_at (Some sp))"
  using assms by (auto simp: arrived_at_def deserialize_input_data_inverse dom_update simp del: plain.simps)

lemma waiting_iff:
  "sync_waiting c d = [] \<longleftrightarrow> set (sa_preds c) \<subseteq> {k. KTuple k \<in> fst ` set d}"
  by (auto simp: sync_waiting_def filter_empty_conv)

lemma write_arrives:
  assumes inv: "engine_inv es t sid n0 w" and th: "th \<in># w_threads w" "th_todo th = SyncWrite c p ak d # rest"
    and c: "sa_traversal c = t" and ex: "exec ch (SyncWrite c p ak d) (th\<lparr>th_todo := rest\<rparr>) w = Some (w', th')"
    and ok: "w_points w' \<noteq> w_points w"
  shows "view es sid t (w'\<lparr>w_threads := add_mset th' (w_threads w - {#th#})\<rparr>) =
      ts_arrive (edge_nodes es) (edge_rel es) (sa_key c) (target_of c) (view es sid t w)" (is "view es sid t ?w = ts_arrive ?N ?R _ _ ?s")
    "0 < ts_debt (view es sid t w) (sa_key c) (target_of c)" "ts_live (view es sid t w)"
    "sa_key c \<in> preds (edge_nodes es) (edge_rel es) (target_of c)"
proof -
  note f = run_facts[OF inv th ex]
  define x where "x = target_of c"
  define k where "k = sa_key c"
  have call: "call_ok es t sid c p" and wok: "write_ok t sid w c ak d" using f(2) by simp_all
  have k: "k \<in> preds ?N ?R x" and preds: "set (sa_preds c) = preds ?N ?R x"
    using call c unfolding call_ok_def x_def k_def by blast+
  then have xt: "x \<in> targets es" using preds_target by blast
  note key = call_key_point[OF call c, folded x_def]
  have pts: "points_ok es t sid (w_points w)" and sid: "int_of_str sid = None" using f(1) by (simp_all add: env_ok_def)
  obtain rows sps where wr: "sync_write (w_points w) c ak d = Inr (rows, sps)"
    using ex ok by (auto simp: exec_sync_write_def split: sum.splits)
  then obtain sp where sp: "w_points w (point_key sid t x) = Some sp" "sp_atomic_key sp = ak" "rows \<noteq> 0"
      "sps = (w_points w)(point_key sid t x \<mapsto> sp\<lparr>sp_atomic_key := ak + 1, sp_input_data := serialize_input_data d\<rparr>)"
    using ex ok wr by (cases rule: sync_write_cases) (auto simp: exec_sync_write_def key)
  have w': "w' = w\<lparr>w_points := sps\<rparr>" and th': "th_todo th' = after_sync c p d @ rest"
    using ex wr sp(3) by (auto simp: exec_sync_write_def)
  obtain d0 where d: "plain (JDict d)" "deserialize_input_data (sp_input_data sp) = Inr d0"
      "d = AList.update (KTuple k) (sa_data c) d0"
    using wok sp(1,2) c unfolding write_ok_def x_def[symmetric] k_def[symmetric] by auto
  have arr: "arrived_at (sps (point_key sid t y)) =
      (if y = x then insert k (arrived_at (w_points w (point_key sid t x))) else arrived_at (w_points w (point_key sid t y)))" for y
    unfolding sp(4) sp(1) using arrived_written[OF d(1,3,2)] point_key_inj[OF sid] by auto
  define full where "full \<longleftrightarrow> preds ?N ?R x \<subseteq> insert k (arrived_at (w_points w (point_key sid t x)))"
  have "{j. KTuple j \<in> fst ` set d} = insert k (arrived_at (w_points w (point_key sid t x)))"
    using d(2) by (auto simp: d(3) sp(1) arrived_at_def dom_update)
  then have waiting: "sync_waiting c d = [] \<longleftrightarrow> full" by (simp add: waiting_iff preds full_def)
  define new where "new = after_sync c p d"
  have new: "length (filter (is_trigger t q) new) = (if full \<and> x = ToNode q then 1 else 0)"
    "filter (is_token es t hist j) new = []" "filter (is_sync t j y) new = []"
    "length (filter (is_complete t) new) = (if full \<and> x = ToStack then 1 else 0)" for q j y hist
    using call c unfolding new_def x_def call_ok_def target_of_def
    by (auto simp: after_sync_def waiting is_trigger_def is_token_def is_sync_def is_complete_def split: entity.splits)
  note run = view_run[OF inv th(1) f(4), where th' = th']
  have ks: "\<not> is_trigger t q (SyncWrite c p ak d)" "\<not> is_token es t hist j (SyncWrite c p ak d)"
    "is_sync t j y (SyncWrite c p ak d) \<longleftrightarrow> j = k \<and> y = x" "\<not> is_complete t (SyncWrite c p ak d)" for q j y hist
    by (auto simp: is_trigger_def is_token_def is_sync_def is_complete_def c x_def k_def)
  have cost: "cost P th = (if P (SyncWrite c p ak d) then 1 else 0) + length (filter P rest)"
    "cost P th' = length (filter P new) + length (filter P rest)" for P
    by (simp_all add: cost_def th(2) th' new_def)
  have cnt: "cnt (is_trigger t q) ?w = cnt (is_trigger t q) w + (if full \<and> x = ToNode q then 1 else 0)"
    "cnt (is_complete t) ?w = cnt (is_complete t) w + (if full \<and> x = ToStack then 1 else 0)"
    "cnt (is_sync t j y) w = cnt (is_sync t j y) ?w + (if j = k \<and> y = x then 1 else 0)" for q j y
    using run(1)[of "is_trigger t q"] run(1)[of "is_complete t"] run(1)[of "is_sync t j y"] by (simp_all add: cost ks new)
  have tok: "tok es t ?w j = tok es t w j" for j
    using run(2)[of j] by (simp add: cost ks new w')
  have live: "w_points w (point_key sid t ToStack) \<noteq> None"
    using pts xt sp(1) unfolding points_ok_def by force
  then have live': "sps (point_key sid t ToStack) \<noteq> None" by (simp add: sp(4))
  have fullx: "x = ToNode q \<Longrightarrow> full \<Longrightarrow> q \<in> ?N" for q using xt by (auto simp: targets_def)
  have fullv: "full \<longleftrightarrow> preds ?N ?R x \<subseteq> insert k (ts_arrived ?s x)" using xt by (simp add: view_simps full_def)
  have kN: "k \<in> ?N" using k edge_rel_nodes[of _ k es] by (auto simp: preds_def split: target.splits)
  show "view es sid t ?w = ts_arrive ?N ?R (sa_key c) (target_of c) ?s"
    unfolding k_def[symmetric] x_def[symmetric] ts_arrive_def Let_def fullv[symmetric]
    by (rule tstate_eqI)
      (use cnt tok live live' arr fullx kN xt in \<open>auto simp: view_simps w'\<close>)
  show "0 < ts_debt ?s (sa_key c) (target_of c)" using cnt(3)[of k x] kN by (simp add: view_simps k_def x_def)
  show "ts_live ?s" using live by (simp add: view_simps)
  show "sa_key c \<in> preds ?N ?R (target_of c)" using k by (simp add: k_def x_def)
qed

lemma write_exact:
  assumes inv: "engine_inv es t sid n0 w" and th: "th \<in># w_threads w" "th_todo th = SyncWrite c p ak d # rest"
    and c: "sa_traversal c = t" and ex: "exec ch (SyncWrite c p ak d) (th\<lparr>th_todo := rest\<rparr>) w = Some (w', th')"
    and ok: "w_points w' \<noteq> w_points w"
  shows "ts_exact (edge_nodes es) (edge_rel es) (view es sid t w)
    (view es sid t (w'\<lparr>w_threads := add_mset th' (w_threads w - {#th#})\<rparr>))"
  unfolding write_arrives(1)[OF assms] by (rule ts_exact.arrive[OF write_arrives(2,4,3)[OF assms]])


text \<open>The check of a resource is done: its node owes a notice to each of its targets.\<close>

lemma graph_key_node:
  assumes row: "row_ok n0 hist (m_rsrc m) r" and m: "msg_ok es n0 w m"
  shows "graph_key_of (dependencies es) (m_rsrc m) (m_update m) r = msg_node es hist m \<or>
    graph_key_of (dependencies es) (m_rsrc m) (m_update m) r \<notin> edge_nodes es"
  using assms by (auto simp: graph_key_of_def msg_node_def row_ok_def msg_ok_def split: option.splits)

lemma debts_of_todo:
  assumes s: "st_edges s = es" "m_traversal m = t" and eq: "initiate_propagate m s r data = Inr todo"
    and gk: "gk = graph_key_of (dependencies es) (m_rsrc m) (m_update m) r"
  shows "gk \<in> edge_nodes es" "length (filter (is_sync t k x) todo) =
      (if k = gk \<and> gk \<in> preds (edge_nodes es) (edge_rel es) x \<and> (x = ToStack \<longrightarrow> (m_rsrc m, m_update m) \<in> edge_nodes es)
       then 1 else 0)"
    "filter (is_trigger t p) todo = []" "filter (is_token es t hist k) todo = []" "filter (is_complete t) todo = []"
proof -
  have deps: "convergence_dependencies s = dependencies es" by (simp add: convergence_dependencies_def s)
  note todo = initiate_todo[OF eq deps[symmetric] gk]
  let ?N = "edge_nodes es" and ?R = "edge_rel es"
  let ?calls = "map (\<lambda>(req, fwd). propagate_check_resource req (m_traversal m) (nd_require (node_of (dependencies es) (req, fwd))) gk
      (get_input_data (m_rsrc m) r gk data (req, fwd)) fwd (m_adopt m)) (nd_satisfy (node_of (dependencies es) gk))"
  let ?stack = "check_stack_complete s (m_traversal m) (m_rsrc m) (dependencies es) (m_update m)"
  show N: "gk \<in> ?N" using todo(1) by simp
  have "length (filter (is_sync t k x) ?calls) = (if k = gk \<and> gk \<in> preds ?N ?R x \<and> x \<noteq> ToStack then 1 else 0)"
  proof (cases x)
    case (ToNode p)
    have "filter (is_sync t k x) ?calls = map (\<lambda>(req, fwd). propagate_check_resource req (m_traversal m)
        (nd_require (node_of (dependencies es) (req, fwd))) gk (get_input_data (m_rsrc m) r gk data (req, fwd)) fwd (m_adopt m))
        (filter (\<lambda>q. k = gk \<and> q = p) (nd_satisfy (node_of (dependencies es) gk)))"
      by (simp add: filter_map comp_def case_prod_unfold is_sync_def propagate_check_resource_def target_of_def s(2) ToNode)
        (metis (no_types, lifting) prod.collapse)
    moreover have "length (filter (\<lambda>q. q = p) qs) = (if p \<in> set qs then 1 else 0)" if "distinct qs" for qs :: "node_key list"
      using that by (induction qs) auto
    from this[OF distinct_satisfy] have "length (filter (\<lambda>q. q = p) (nd_satisfy (node_of (dependencies es) gk))) =
        (if gk \<in> preds ?N ?R (ToNode p) then 1 else 0)"
      by (simp add: satisfy_preds)
    ultimately show ?thesis by (cases "k = gk") (simp_all add: ToNode)
  next
    case ToStack
    then show ?thesis
      by (auto simp: filter_empty_conv is_sync_def propagate_check_resource_def target_of_def)
  qed
  moreover have "length (filter (is_sync t k x) ?stack) =
      (if k = gk \<and> gk \<in> preds ?N ?R x \<and> x = ToStack \<and> (m_rsrc m, m_update m) \<in> ?N then 1 else 0)"
  proof (cases "(m_rsrc m, m_update m) \<in> ?N")
    case True
    then have "gk = (m_rsrc m, m_update m)" by (simp add: gk graph_key_of_def)
    with True show ?thesis
      by (auto simp: check_stack_complete_def roots_preds is_sync_def target_of_def s(2))
  next
    case False
    then have "(m_rsrc m, m_update m) \<notin> preds ?N ?R ToStack" by (simp add: preds_def)
    then show ?thesis using False by (simp add: check_stack_complete_def roots_preds)
  qed
  ultimately show "length (filter (is_sync t k x) todo) =
      (if k = gk \<and> gk \<in> preds ?N ?R x \<and> (x = ToStack \<longrightarrow> (m_rsrc m, m_update m) \<in> ?N) then 1 else 0)"
    unfolding todo(2) by auto
  show "filter (is_trigger t p) todo = []" "filter (is_token es t hist k) todo = []" "filter (is_complete t) todo = []"
    unfolding todo(2) by (auto simp: filter_empty_conv check_stack_complete_def propagate_check_resource_def
      is_trigger_def is_token_def is_complete_def)
qed


lemma check_steps:
  assumes inv: "engine_inv es t sid n0 w" and th: "th \<in># w_threads w" "th_todo th = Check m s r data # rest"
    and m: "m_traversal m = t" and ex: "exec (CheckOk changed reference_id attrs uuid) (Check m s r data) (th\<lparr>th_todo := rest\<rparr>) w = Some (w', th')"
  defines "k \<equiv> msg_node es (w_log w) m" and "w'' \<equiv> w'\<lparr>w_threads := add_mset th' (w_threads w - {#th#})\<rparr>"
  shows "k \<in> edge_nodes es \<Longrightarrow> 0 < ts_tok (view es sid t w) k"
    "graph_key_of (dependencies es) (m_rsrc m) (m_update m) r = k \<Longrightarrow> k \<in> edge_nodes es \<Longrightarrow>
       ts_lost (ts_check (edge_nodes es) (edge_rel es) k (view es sid t w)) (view es sid t w'')"
    "graph_key_of (dependencies es) (m_rsrc m) (m_update m) r = k \<Longrightarrow> k \<in> edge_nodes es \<Longrightarrow>
       (k \<in> preds (edge_nodes es) (edge_rel es) ToStack \<longrightarrow> (m_rsrc m, m_update m) \<in> edge_nodes es) \<Longrightarrow>
       view es sid t w'' = ts_check (edge_nodes es) (edge_rel es) k (view es sid t w)"
    "graph_key_of (dependencies es) (m_rsrc m) (m_update m) r \<notin> edge_nodes es \<Longrightarrow>
       ts_lost (view es sid t w) (view es sid t w'')"
proof -
  let ?N = "edge_nodes es" and ?R = "edge_rel es"
  note f = run_facts[OF inv th ex]
  have s: "st_edges s = es" using f(2) m by (simp add: stack_ok_def)
  have rest: "rest = []" using f(6) by blast
  define gk where "gk = graph_key_of (dependencies es) (m_rsrc m) (m_update m) r"
  define r' where "r' = (if m_update m then updated_row changed (st_template s) data r else r)"
  define input where "input = construct_input_data (m_rsrc m) r' reference_id attrs uuid"
  have gk': "gk = graph_key_of (dependencies es) (m_rsrc m) (m_update m) r'"
    by (simp add: gk_def r'_def graph_key_of_def)
  have deps: "convergence_dependencies s = dependencies es" by (simp add: convergence_dependencies_def s)
  have w': "w_log w' = Checked t gk # w_log w" "w_inbox w' = w_inbox w" "w_points w' = w_points w"
    and th': "th' = (case initiate_propagate m s r' input of Inl _ \<Rightarrow> stop
      | Inr todo \<Rightarrow> \<lparr>th_handler = Propagating (m_rsrc m) (m_update m) (m_traversal m), th_todo = todo\<rparr>)"
    using ex m by (auto simp: Let_def gk_def deps r'_def input_def split: if_splits)
  note run = view_run[OF inv th(1) f(4), where th' = th', folded w''_def]
  have ks: "\<not> is_trigger t q (Check m s r data)" "is_token es t (w_log w) j (Check m s r data) \<longleftrightarrow> j = k"
    "\<not> is_sync t j y (Check m s r data)" "\<not> is_complete t (Check m s r data)" for q j y
    by (auto simp: is_trigger_def is_token_def is_sync_def is_complete_def m k_def)
  have cost: "cost P th = (if P (Check m s r data) then 1 else 0)" for P by (simp add: cost_def th(2) rest)
  show "k \<in> ?N \<Longrightarrow> 0 < ts_tok (view es sid t w) k"
    by (simp add: view_simps tok_mail cnt_split[OF th(1)] cost ks)
  have none: "initiate_propagate m s r' input = Inl e \<Longrightarrow> gk \<notin> ?N" for e
    by (auto simp: initiate_propagate_def deps gk'[symmetric] dep_required_by_def Let_def split: if_splits)
  {
    assume gk: "gk \<notin> ?N"
    have stop: "th' = stop"
      using debts_of_todo(1)[OF s m _ gk'] gk by (auto simp: th' split: sum.splits)
    show "ts_lost (view es sid t w) (view es sid t w'')"
      unfolding w''_def by (rule run_lost[OF inv th(1) f(4)])
        (use gk in \<open>auto simp: stop w' same_node same_log_def same_points_def\<close>)
  }
  assume gkk: "gk = k" and N: "k \<in> ?N"
  obtain todo where todo: "initiate_propagate m s r' input = Inr todo" using none N gkk by (cases "initiate_propagate m s r' input") auto
  note debts = debts_of_todo[OF s m todo gk']
  have th'': "cost P th' = length (filter P todo)" for P by (simp add: th' todo)
  have cnt: "cnt (is_trigger t p) w'' = cnt (is_trigger t p) w" "cnt (is_complete t) w'' = cnt (is_complete t) w"
    "cnt (is_sync t j x) w'' = cnt (is_sync t j x) w +
       (if j = k \<and> k \<in> preds ?N ?R x \<and> (x = ToStack \<longrightarrow> (m_rsrc m, m_update m) \<in> ?N) then 1 else 0)" for p j x
    using run(1)[of "is_trigger t p"] run(1)[of "is_complete t"] run(1)[of "is_sync t j x"] debts(2)[of j x]
    by (simp_all add: cost ks th'' debts gkk)
  have tok: "tok es t w j = tok es t w'' j + (if j = k then 1 else 0)" for j
    using run(2)[of j] by (simp add: cost ks th'' debts w' same_node)
  have fields: "w_log w'' = Checked t k # w_log w" "w_points w'' = w_points w" by (simp_all add: w''_def w' gkk)
  show "ts_lost (ts_check ?N ?R k (view es sid t w)) (view es sid t w'')"
    using cnt tok N by (auto simp: ts_lost_def ts_check_def view_simps fields fun_eq_iff)
  assume "k \<in> preds ?N ?R ToStack \<longrightarrow> (m_rsrc m, m_update m) \<in> ?N"
  then show "view es sid t w'' = ts_check ?N ?R k (view es sid t w)"
    by (intro tstate_eqI) (use cnt tok N in \<open>auto simp: ts_check_def view_simps fields\<close>)
qed


text \<open>A message is handed on: by a thread to the queue, by a check to a message of the same node.\<close>

lemma recast_same:
  assumes inv: "engine_inv es t sid n0 w" and th: "th \<in># w_threads w" "th_todo th = Recast m # rest"
    and ex: "exec ch (Recast m) (th\<lparr>th_todo := rest\<rparr>) w = Some (w', th')"
  shows "view es sid t (w'\<lparr>w_threads := add_mset th' (w_threads w - {#th#})\<rparr>) = view es sid t w"
proof (rule run_same[OF inv th(1) run_facts(4)[OF inv th ex]])
  have w': "w' = w\<lparr>w_inbox := add_mset m (w_inbox w)\<rparr>" "th' = th\<lparr>th_todo := rest\<rparr>" using ex by simp_all
  then show "same_log es t w w'" "same_points es sid t w w'" by simp_all
  show "mail es t (w_log w') (w_inbox w') k + cost (is_token es t (w_log w') k) th' =
      mail es t (w_log w) (w_inbox w) k + cost (is_token es t (w_log w) k) th" for k
    by (simp add: w' cost_def th(2) mail_add is_token_def)
qed (use ex in \<open>auto simp: cost_def th(2) is_trigger_def is_sync_def is_complete_def\<close>)

lemma handed_on:
  assumes inv: "engine_inv es t sid n0 w" and th: "th \<in># w_threads w" "th_todo th = Check m s r data # rest"
    and ex: "exec ch (Check m s r data) (th\<lparr>th_todo := rest\<rparr>) w = Some (w', th')"
    and th': "th' = continue [Recast m']" and w': "w_inbox w' = w_inbox w" "w_points w' = w_points w" "same_log es t w w'"
    and m': "m_traversal m' = m_traversal m"
  shows "(\<And>k. m_traversal m = t \<Longrightarrow> k \<in> edge_nodes es \<Longrightarrow> msg_node es (w_log w') m' = k \<Longrightarrow> msg_node es (w_log w) m = k) \<Longrightarrow>
      ts_lost (view es sid t w) (view es sid t (w'\<lparr>w_threads := add_mset th' (w_threads w - {#th#})\<rparr>))"
    "(m_traversal m = t \<Longrightarrow> msg_node es (w_log w') m' = msg_node es (w_log w) m) \<Longrightarrow>
      view es sid t (w'\<lparr>w_threads := add_mset th' (w_threads w - {#th#})\<rparr>) = view es sid t w"
proof -
  note f = run_facts[OF inv th ex]
  have rest: "rest = []" using f(6) by blast
  have cost: "cost P th = (if P (Check m s r data) then 1 else 0)" "cost P th' = (if P (Recast m') then 1 else 0)" for P
    by (simp_all add: cost_def th(2) rest th' continue_def)
  have ks: "\<not> is_trigger t p (Check m s r data)" "\<not> is_sync t k x (Check m s r data)" "\<not> is_complete t (Check m s r data)"
    "\<not> is_trigger t p (Recast m')" "\<not> is_sync t k x (Recast m')" "\<not> is_complete t (Recast m')"
    "is_token es t hist k (Check m s r data) \<longleftrightarrow> m_traversal m = t \<and> msg_node es hist m = k"
    "is_token es t hist k (Recast m') \<longleftrightarrow> m_traversal m = t \<and> msg_node es hist m' = k" for p k x hist
    by (auto simp: is_trigger_def is_token_def is_sync_def is_complete_def m')
  note mail = mail_later[OF f(1,4)]
  show "ts_lost (view es sid t w) (view es sid t (w'\<lparr>w_threads := add_mset th' (w_threads w - {#th#})\<rparr>))"
    if "\<And>k. m_traversal m = t \<Longrightarrow> k \<in> edge_nodes es \<Longrightarrow> msg_node es (w_log w') m' = k \<Longrightarrow> msg_node es (w_log w) m = k"
    by (rule run_lost[OF inv th(1) f(4)]) (use that w' in \<open>simp_all add: cost ks mail\<close>)
  show "view es sid t (w'\<lparr>w_threads := add_mset th' (w_threads w - {#th#})\<rparr>) = view es sid t w"
    if "m_traversal m = t \<Longrightarrow> msg_node es (w_log w') m' = msg_node es (w_log w) m"
    by (rule run_same[OF inv th(1) f(4)]) (use that w' in \<open>auto simp: cost ks mail\<close>)
qed

lemma replaced_node:
  assumes "make_replacement (m_rsrc m) r tmpl (w_rsrcs w) = (j, rt)" "env_ok es t sid n0 w" "msg_ok es n0 w m"
  shows "msg_node es (Replaced (m_rsrc m) j # hist) (replacement_msg m j d) = (m_rsrc m, m_update m)"
proof -
  have "j = rt_next (w_rsrcs w)" using rows_ok_make_replacement(3)[OF _ assms(1)] assms(2) by (auto simp: env_ok_def)
  then have "n0 \<le> j" using assms(2) by (simp add: env_ok_def)
  then have "(j, u) \<notin> edge_nodes es" for u using assms(2) by (force simp: env_ok_def)
  then show ?thesis by (simp add: msg_node_def replacement_msg_def)
qed

lemma replace_view:
  assumes inv: "engine_inv es t sid n0 w" and th: "th \<in># w_threads w" "th_todo th = Check m s r data # rest"
    and ex: "exec CheckReplace (Check m s r data) (th\<lparr>th_todo := rest\<rparr>) w = Some (w', th')"
  shows "ts_lost (view es sid t w) (view es sid t (w'\<lparr>w_threads := add_mset th' (w_threads w - {#th#})\<rparr>))"
    "(m_traversal m = t \<Longrightarrow> (m_rsrc m, m_update m) \<in> edge_nodes es) \<Longrightarrow>
      view es sid t (w'\<lparr>w_threads := add_mset th' (w_threads w - {#th#})\<rparr>) = view es sid t w"
proof -
  note f = run_facts[OF inv th ex]
  obtain j rt where mk: "make_replacement (m_rsrc m) r (st_template s) (w_rsrcs w) = (j, rt)" by fastforce
  have w': "w_log w' = Replaced (m_rsrc m) j # w_log w" "w_inbox w' = w_inbox w" "w_points w' = w_points w"
    and th': "th' = continue [Recast (replacement_msg m j data)]" using ex mk by (auto split: if_splits)
  have log: "same_log es t w w'" by (simp add: same_log_def w')
  have trv: "m_traversal (replacement_msg m j data) = m_traversal m" by (simp add: replacement_msg_def)
  have node: "m_traversal m = t \<Longrightarrow> msg_node es (w_log w') (replacement_msg m j data) = (m_rsrc m, m_update m)"
    using replaced_node[OF mk f(1)] f(2) by (simp add: w')
  have own: "(m_rsrc m, m_update m) \<in> edge_nodes es \<Longrightarrow> msg_node es (w_log w) m = (m_rsrc m, m_update m)"
    by (simp add: msg_node_def)
  show "ts_lost (view es sid t w) (view es sid t (w'\<lparr>w_threads := add_mset th' (w_threads w - {#th#})\<rparr>))"
    by (rule handed_on(1)[OF inv th ex th' w'(2,3) log trv]) (use node own in auto)
  show "view es sid t (w'\<lparr>w_threads := add_mset th' (w_threads w - {#th#})\<rparr>) = view es sid t w"
    if "m_traversal m = t \<Longrightarrow> (m_rsrc m, m_update m) \<in> edge_nodes es"
    by (rule handed_on(2)[OF inv th ex th' w'(2,3) log trv]) (use node own that in auto)
qed

lemma check_other:
  assumes inv: "engine_inv es t sid n0 w" and th: "th \<in># w_threads w" "th_todo th = Check m s r data # rest"
    and ex: "exec ch (Check m s r data) (th\<lparr>th_todo := rest\<rparr>) w = Some (w', th')"
    and ch: "m_traversal m \<noteq> t \<or> (\<forall>changed ref attrs uuid. ch \<noteq> CheckOk changed ref attrs uuid)"
  shows "ts_lost (view es sid t w) (view es sid t (w'\<lparr>w_threads := add_mset th' (w_threads w - {#th#})\<rparr>))"
proof -
  note f = run_facts[OF inv th ex]
  have ex': "exec_check ch m s r data w = Some (w', th')" using ex by simp
  note quiet = quiet_lost[OF inv th f(4)]
  show ?thesis
  proof (cases ch)
    case (CheckOk changed ref attrs uuid)
    then have m: "m_traversal m \<noteq> t" using ch by blast
    have w': "w_inbox w' = w_inbox w" "w_points w' = w_points w" "same_log es t w w'"
      using ex' m unfolding CheckOk by (auto simp: Let_def same_log_def split: if_splits)
    have "\<forall>a \<in> set (th_todo th'). quiet t a"
    proof -
      have "quiet t a" if "initiate_propagate m s r0 d0 = Inr todo" "a \<in> set todo" for r0 d0 todo a
        using that(2) m unfolding initiate_todo(2)[OF that(1) refl refl]
        by (auto simp: propagate_check_resource_def check_stack_complete_def split: if_splits)
      then show ?thesis using ex' unfolding CheckOk by (auto simp: Let_def split: if_splits sum.splits)
    qed
    then show ?thesis using quiet[of "th_todo th'"] w' by simp
  next
    case CheckReplace
    then show ?thesis using replace_view(1)[OF inv th] ex by simp
  next
    case (CheckLocked steal)
    show ?thesis
    proof (cases steal)
      case True
      have w': "w_inbox w' = w_inbox w" "w_points w' = w_points w" "w_log w' = w_log w"
        and th': "th' = continue [Recast (replacement_msg m (m_rsrc m) data)]"
        using ex' True by (auto simp: CheckLocked)
      have "msg_node es hist (replacement_msg m (m_rsrc m) data) = msg_node es hist m" for hist
        by (simp add: msg_node_def replacement_msg_def split: option.split)
      then show ?thesis
        by (intro handed_on(1)[OF inv th ex th' w'(1,2)]) (simp_all add: w' replacement_msg_def)
    next
      case False
      then show ?thesis using quiet[of "[]"] ex' by (simp add: CheckLocked)
    qed
  next
    case (CheckFails rec)
    then show ?thesis using quiet[of "[HandleFailure (m_rsrc m) (m_update m) s]"] ex' by (auto split: if_splits)
  next
    case (CheckTimesOut rec)
    have "\<forall>a \<in> set (th_todo th'). quiet t a" "w_log w' = w_log w" "w_inbox w' = w_inbox w" "w_points w' = w_points w"
      using ex' by (auto simp: CheckTimesOut split: option.splits if_splits)
    then show ?thesis using quiet[of "th_todo th'"] by simp
  qed (use ex' in simp_all)
qed


text \<open>A write that fails, and one of another traversal.\<close>

lemma write_same:
  assumes inv: "engine_inv es t sid n0 w" and th: "th \<in># w_threads w" "th_todo th = SyncWrite c p ak d # rest"
    and ex: "exec ch (SyncWrite c p ak d) (th\<lparr>th_todo := rest\<rparr>) w = Some (w', th')" and ok: "w_points w' = w_points w"
    and wr: "sync_write (w_points w) c ak d = Inr x"
  shows "w' = w" "th_todo th' = SyncRead c p # rest"
    "view es sid t (w'\<lparr>w_threads := add_mset th' (w_threads w - {#th#})\<rparr>) = view es sid t w"
proof -
  obtain rows sps where wr: "sync_write (w_points w) c ak d = Inr (rows, sps)" using wr by (cases x) simp
  have "rows = 0"
    using wr
  proof (cases rule: sync_write_cases)
    case (2 sp)
    then have "sps (call_key c) \<noteq> w_points w (call_key c)" by (auto dest: arg_cong[where f = sp_atomic_key])
    then show ?thesis using ex wr ok 2(1) by (auto simp: exec_sync_write_def)
  qed
  then show w': "w' = w" and th': "th_todo th' = SyncRead c p # rest" using ex wr by (auto simp: exec_sync_write_def)
  show "view es sid t (w'\<lparr>w_threads := add_mset th' (w_threads w - {#th#})\<rparr>) = view es sid t w"
    by (rule run_same[OF inv th(1) run_facts(4)[OF inv th ex]])
      (auto simp: w' th' cost_def th(2) is_trigger_def is_token_def is_sync_def is_complete_def)
qed

text \<open>One whose data the column does not take, which is not of the traversal.\<close>

lemma write_refused:
  assumes inv: "engine_inv es t sid n0 w" and th: "th \<in># w_threads w" "th_todo th = SyncWrite c p ak d # rest"
    and ex: "exec ch (SyncWrite c p ak d) (th\<lparr>th_todo := rest\<rparr>) w = Some (w', th')"
    and wr: "sync_write (w_points w) c ak d = Inl e"
  shows "sa_traversal c \<noteq> t"
    "ts_lost (view es sid t w) (view es sid t (w'\<lparr>w_threads := add_mset th' (w_threads w - {#th#})\<rparr>))"
proof -
  note f = run_facts[OF inv th ex]
  show "sa_traversal c \<noteq> t" using f(2) wr sync_write_plain by (auto simp: write_ok_def simp del: plain.simps)
  have "w' = w" "th' = stop" using ex wr by (auto simp: exec_sync_write_def)
  then show "ts_lost (view es sid t w) (view es sid t (w'\<lparr>w_threads := add_mset th' (w_threads w - {#th#})\<rparr>))"
    using quiet_lost[OF inv th f(4), of "[]"] by simp
qed

lemma write_other:
  assumes inv: "engine_inv es t sid n0 w" and th: "th \<in># w_threads w" "th_todo th = SyncWrite c p ak d # rest"
    and ex: "exec ch (SyncWrite c p ak d) (th\<lparr>th_todo := rest\<rparr>) w = Some (w', th')"
    and c: "sa_traversal c \<noteq> t" and ok: "w_points w' \<noteq> w_points w"
  shows "ts_lost (view es sid t w) (view es sid t (w'\<lparr>w_threads := add_mset th' (w_threads w - {#th#})\<rparr>))"
proof -
  note f = run_facts[OF inv th ex]
  obtain rows sps where wr: "sync_write (w_points w) c ak d = Inr (rows, sps)"
    using ex ok by (auto simp: exec_sync_write_def split: sum.splits)
  then obtain sp where sp: "rows \<noteq> 0" "sps = (w_points w)(call_key c \<mapsto> sp)"
    using ex ok wr by (cases rule: sync_write_cases) (auto simp: exec_sync_write_def)
  have w': "w' = w\<lparr>w_points := sps\<rparr>" and th': "th_todo th' = after_sync c p d @ rest"
    using ex wr sp(1) by (auto simp: exec_sync_write_def)
  have "same_points es sid t w w'" using call_key_other[OF c, of sid, symmetric] by (auto simp: same_points_def w' sp(2))
  moreover have "\<forall>a \<in> set (after_sync c p d). quiet t a"
    using f(2) c by (auto simp: after_sync_def call_ok_def split: propagate.splits entity.splits)
  ultimately show ?thesis using quiet_lost[OF inv th f(4), of "after_sync c p d"] by (simp add: w' th')
qed

lemma delete_steps:
  assumes inv: "engine_inv es t sid n0 w" and th: "th \<in># w_threads w" "th_todo th = DeletePoints sid' trv # rest"
    and ex: "exec ch (DeletePoints sid' trv) (th\<lparr>th_todo := rest\<rparr>) w = Some (w', th')"
  defines "w'' \<equiv> w'\<lparr>w_threads := add_mset th' (w_threads w - {#th#})\<rparr>"
  shows "sid' = sid \<Longrightarrow> trv = t \<Longrightarrow> view es sid t w'' = ts_delete (view es sid t w)"
    "\<not> (sid' = sid \<and> trv = t) \<Longrightarrow> view es sid t w'' = view es sid t w"
proof -
  note f = run_facts[OF inv th ex]
  have w': "w' = w\<lparr>w_points := sp_delete_all (w_points w) sid' trv\<rparr>" and th': "th' = th\<lparr>th_todo := rest\<rparr>"
    using ex by simp_all
  have pts: "points_ok es t sid (w_points w)" using f(1) by (simp add: env_ok_def)
  have at: "sp_delete_all (w_points w) sid' trv (point_key sid t x) =
      (if sid' = sid \<and> trv = t then None else w_points w (point_key sid t x))" if "x \<in> targets es" for x
  proof (cases "w_points w (point_key sid t x)")
    case (Some sp)
    then have "sp_stack_id sp = sid" using pts that by (auto simp: points_ok_def point_ok_def)
    then show ?thesis using Some by (auto simp: sp_delete_all_def point_key_def split: target.splits)
  qed (auto simp: sp_delete_all_def point_key_def split: target.splits)
  note run = view_run[OF inv th(1) f(4), where th' = th', folded w''_def]
  have cost: "cost P th = (if P (DeletePoints sid' trv) then 1 else 0) + cost P th'" for P by (simp add: cost_def th(2) th')
  have ks: "\<not> is_trigger t q (DeletePoints sid' trv)" "\<not> is_token es t hist j (DeletePoints sid' trv)"
    "\<not> is_sync t j y (DeletePoints sid' trv)" "\<not> is_complete t (DeletePoints sid' trv)" for q j y hist
    by (auto simp: is_trigger_def is_token_def is_sync_def is_complete_def)
  have cnt: "cnt (is_trigger t p) w'' = cnt (is_trigger t p) w" "cnt (is_sync t k x) w'' = cnt (is_sync t k x) w"
    "cnt (is_complete t) w'' = cnt (is_complete t) w" "tok es t w'' k = tok es t w k" for p k x
    using run(1)[of "is_trigger t p"] run(1)[of "is_sync t k x"] run(1)[of "is_complete t"] run(2)[of k]
    by (simp_all add: cost ks w')
  have w'': "w_log w'' = w_log w" by (simp add: w''_def w')
  have at'': "w_points w'' (point_key sid t x) = (if sid' = sid \<and> trv = t then None else w_points w (point_key sid t x))"
    if "x \<in> targets es" for x using at[OF that] by (simp add: w''_def w')
  {
    assume "sid' = sid" "trv = t"
    then have none: "w_points w'' (point_key sid t x) = None" if "x \<in> targets es" for x using at''[OF that] by simp
    show "view es sid t w'' = ts_delete (view es sid t w)"
      by (rule tstate_eqI) (simp_all add: view_simps cnt ts_delete_def w'' none arrived_at_def)
  next
    assume "\<not> (sid' = sid \<and> trv = t)"
    then have same: "w_points w'' (point_key sid t x) = w_points w (point_key sid t x)" if "x \<in> targets es" for x
      using at''[OF that] by presburger
    show "view es sid t w'' = view es sid t w"
      by (rule tstate_eqI) (simp_all add: view_simps cnt w'' same)
  }
qed

lemma exec_view:
  assumes inv: "engine_inv es t sid n0 w" and th: "th \<in># w_threads w" "th_todo th = a # rest"
    and ex: "exec ch a (th\<lparr>th_todo := rest\<rparr>) w = Some (w', th')"
  shows "ts_step (edge_nodes es) (edge_rel es) (view es sid t w)
    (view es sid t (w'\<lparr>w_threads := add_mset th' (w_threads w - {#th#})\<rparr>))" (is "ts_step ?N ?R ?s ?s'")
proof -
  note f = run_facts[OF inv th ex]
  note quiet = lost_step[OF quiet_lost[OF inv th f(4)]]
  show ?thesis
  proof (cases a)
    case (Check m s r data)
    note th' = th[unfolded Check] and ex' = ex[unfolded Check]
    show ?thesis
    proof (cases "\<exists>changed ref attrs uuid. ch = CheckOk changed ref attrs uuid \<and> m_traversal m = t")
      case True
      then obtain changed ref attrs uuid where ch: "ch = CheckOk changed ref attrs uuid" and m: "m_traversal m = t" by blast
      note steps = check_steps[OF inv th' m ex'[unfolded ch]]
      have "row_ok n0 (w_log w) (m_rsrc m) r" "msg_ok es n0 w m" using f(2) m unfolding Check by simp_all
      from graph_key_node[OF this] show ?thesis
      proof (cases "graph_key_of (dependencies es) (m_rsrc m) (m_update m) r \<in> ?N")
        case True
        with \<open>_ \<or> _\<close> have k: "graph_key_of (dependencies es) (m_rsrc m) (m_update m) r = msg_node es (w_log w) m" by blast
        have N: "msg_node es (w_log w) m \<in> ?N" using True k by simp
        show ?thesis by (rule ts_step.exact[OF ts_exact.check[OF N steps(1)[OF N]] steps(2)[OF k N]])
      qed (rule lost_step, rule steps(4))
    next
      case False
      then show ?thesis using lost_step[OF check_other[OF inv th' ex']] by blast
    qed
  next
    case (HandleFailure i u s)
    obtain handled row' thf where hf: "handle_failure s (w_stack w) = (handled, row', thf)" using prod_cases3 by blast
    have w': "w' = w\<lparr>w_stack := row'\<rparr>" and th': "th' = (if handled then thf else (case row' of None \<Rightarrow> stop
        | Some latest \<Rightarrow> if st_traversal s \<noteq> st_traversal latest then retrigger_check_resource u i latest else stop))"
      using ex hf unfolding HandleFailure by auto
    have ch: "row_change es t sid (w_stack w) row'" using handle_failure_ok(1)[OF _ hf] f(2) unfolding HandleFailure by simp
    have "\<forall>b \<in> set (th_todo th'). quiet t b"
    proof (cases "handled \<or> row' = None")
      case True
      then show ?thesis using failure_quiet[OF hf] by (auto simp: th')
    next
      case False
      then obtain latest where row': "row' = Some latest" by blast
      have "st_traversal s = t" if "st_traversal latest = t"
        using ch that f(2) unfolding HandleFailure row' row_change_def by (auto simp: cur_def)
      then show ?thesis using False retrigger_quiet[of latest t] by (cases "st_traversal latest = t") (auto simp: th' row')
    qed
    then show ?thesis using quiet[of "th_todo th'"] w' by simp
  next
    case (HandleTimeout s)
    then show ?thesis using quiet[of "th_todo th'"] ex failure_quiet[of s "w_stack w"] by (auto split: prod.splits)
  next
    case (SyncRead c p)
    show ?thesis
    proof (cases "\<exists>r. sync_read (w_points w) c = Inr r")
      case True
      then obtain ak d where th': "th' = th\<lparr>th_todo := SyncWrite c p ak d # rest\<rparr>" and w': "w' = w"
        using ex unfolding SyncRead by (auto simp: exec_sync_read_def)
      have "view es sid t (w'\<lparr>w_threads := add_mset th' (w_threads w - {#th#})\<rparr>) = ?s"
        by (rule run_same[OF inv th(1) f(4)])
          (auto simp: w' th' cost_def th(2) SyncRead is_trigger_def is_token_def is_sync_def is_complete_def)
      then show ?thesis using exact_step[OF ts_exact.stutter] by metis
    next
      case False
      have "\<forall>b \<in> set (th_todo th'). quiet t b" "w' = w"
        using ex not_found_quiet[OF f(3)] False unfolding SyncRead
        by (auto simp: exec_sync_read_def split: sum.splits convergence_exc.splits)
      then show ?thesis using quiet[of "th_todo th'"] by simp
    qed
  next
    case (SyncWrite c p ak d)
    note th' = th[unfolded SyncWrite] and ex' = ex[unfolded SyncWrite]
    consider x where "w_points w' = w_points w" "sync_write (w_points w) c ak d = Inr x"
      | "w_points w' \<noteq> w_points w" "sa_traversal c = t"
      | "w_points w' \<noteq> w_points w" "sa_traversal c \<noteq> t"
      | e where "sync_write (w_points w) c ak d = Inl e"
      by (cases "sync_write (w_points w) c ak d") blast+
    then show ?thesis
    proof cases
      case 4
      then show ?thesis using lost_step[OF write_refused(2)[OF inv th' ex']] by blast
    next
      case 1
      then show ?thesis using write_same(3)[OF inv th' ex'] exact_step[OF ts_exact.stutter] by metis
    next
      case 2
      then show ?thesis using exact_step[OF write_exact[OF inv th' _ ex']] by blast
    next
      case 3
      then show ?thesis using lost_step[OF write_other[OF inv th' ex']] by blast
    qed
  next
    case (Trigger m)
    show ?thesis
    proof (cases "m_traversal m = t")
      case True
      from exact_step[OF trigger_exact[OF inv th[unfolded Trigger] this ex[unfolded Trigger]]] show ?thesis .
    next
      case False
      have w': "w' = w\<lparr>w_inbox := add_mset m (w_inbox w), w_log := Triggered (m_traversal m) (m_rsrc m, m_update m) # w_log w\<rparr>"
        and th': "th_todo th' = rest" using ex unfolding Trigger by auto
      have "view es sid t (w'\<lparr>w_threads := add_mset th' (w_threads w - {#th#})\<rparr>) = ?s"
        by (rule run_same[OF inv th(1) f(4)])
          (use False in \<open>auto simp: w' th' cost_def th(2) Trigger is_trigger_def is_token_def is_sync_def
            is_complete_def mail_add same_node same_log_def\<close>)
      then show ?thesis using exact_step[OF ts_exact.stutter] by metis
    qed
  next
    case (Recast m)
    then show ?thesis using recast_same[OF inv th[unfolded Recast] ex[unfolded Recast]] exact_step[OF ts_exact.stutter]
      by metis
  next
    case (MarkComplete s)
    show ?thesis
    proof (cases "st_traversal s = t")
      case True
      from exact_step[OF complete_exact[OF inv th[unfolded MarkComplete] this ex[unfolded MarkComplete]]] show ?thesis .
    next
      case False
      obtain new where new: "\<forall>b \<in> set new. quiet t b" "th_todo th' = new @ rest"
        and w': "w_inbox w' = w_inbox w" "w_points w' = w_points w" "same_log es t w w'"
        using ex False purge_quiet[of "s\<lparr>st_status := COMPLETE\<rparr>" t] unfolding MarkComplete
        by (auto simp: exec_mark_complete_def same_log_def split: prod.splits if_splits)
      show ?thesis using quiet[OF new(1)] new(2) w' by simp
    qed
  next
    case (DeletePoints sid' trv)
    note steps = delete_steps[OF inv th[unfolded DeletePoints] ex[unfolded DeletePoints]]
    show ?thesis
    proof (cases "sid' = sid \<and> trv = t")
      case True
      then show ?thesis using steps(1) ts_step.delete[of ?s] by (simp add: ts_lost_def)
    next
      case False
      from steps(2)[OF this] show ?thesis using exact_step[OF ts_exact.stutter] by metis
    qed
  next
    case (PurgeStore s)
    then show ?thesis using quiet[of "[]"] ex by (auto split: prod.splits if_splits)
  next
    case (DeleteStack s)
    then show ?thesis using quiet[of "[]"] ex by (auto split: prod.splits if_splits)
  next
    case (Rollback s)
    then show ?thesis using quiet[of "th_todo th'"] ex
      by (auto simp: Let_def split: prod.splits if_splits choice.splits option.splits)
  next
    case (Converge s prev)
    then show ?thesis using quiet[of "th_todo th'"] ex by (auto split: prod.splits if_splits)
  next
    case (ConvergeDeps s)
    then obtain tdeps where eq: "exec_converge_deps tdeps s w = (w', th')" using ex by (auto split: choice.splits)
    have "st_traversal s \<noteq> t" using f(2) ConvergeDeps by simp
    then have "\<forall>b \<in> set (th_todo th'). quiet t b" "w_log w' = w_log w" "w_inbox w' = w_inbox w" "w_points w' = w_points w"
      using eq by (auto simp: exec_converge_deps_def Let_def split: sum.splits prod.splits if_splits)
    then show ?thesis using quiet[of "th_todo th'"] by simp
  next
    case (CreatePoint e u s)
    then have s: "st_traversal s \<noteq> t" using f(2) by simp
    have "same_points es sid t w w'"
    proof -
      have "point_key sid t x \<noteq> (str_entity e, st_traversal s, u)" for x
        using s point_key_traversal[of sid t x] by (metis fst_conv snd_conv)
      then show ?thesis using ex unfolding CreatePoint
        by (auto simp: sp_create_def Let_def same_points_def split: if_splits)
    qed
    moreover have "w_log w' = w_log w" "w_inbox w' = w_inbox w" "th_todo th' = [] \<or> th_todo th' = rest"
      using ex unfolding CreatePoint by (auto split: sum.splits)
    ultimately show ?thesis using quiet[of "[]"] by auto
  qed
qed

text \<open>Every step of the engine is a step of the abstract machine.\<close>

lemma step_view:
  assumes inv: "engine_inv es t sid n0 w" and "step w w'"
  shows "ts_step (edge_nodes es) (edge_rel es) (view es sid t w) (view es sid t w')"
  using assms(2)
proof (cases rule: step.cases)
  case (deliver m timed_out)
  have env: "env_ok es t sid n0 w" using inv by (simp add: engine_inv_def)
  let ?th = "begin_check timed_out m w"
  have cost: "cost P ?th \<le> (if \<exists>s r d. P (Check m s r d) then 1 else 0)" if "\<And>s. \<not> P (HandleTimeout s)" for P
    using that by (auto simp: begin_check_def split: sum.splits option.splits)
  have ms: "w_inbox w = add_mset m (w_inbox w - {#m#})" using deliver(2) by simp
  have c: "cost (is_trigger t p) ?th = 0" "cost (is_sync t k x) ?th = 0" "cost (is_complete t) ?th = 0" for p k x
    using cost[of "is_trigger t p"] cost[of "is_sync t k x"] cost[of "is_complete t"]
    by (simp_all add: is_trigger_def is_sync_def is_complete_def)
  have "cost (is_token es t hist k) ?th \<le> (if m_traversal m = t \<and> msg_node es hist m = k then 1 else 0)" for k hist
    using cost[of "is_token es t hist k"] by (simp add: is_token_def)
  from this[of "w_log w"] have "tok es t w' k \<le> tok es t w k" for k
    by (subst (2) tok_mail, subst ms) (simp add: tok_mail deliver(1) cnt_add mail_add)
  then have "ts_lost (view es sid t w) (view es sid t w')"
    by (auto simp: ts_lost_def view_simps deliver(1) cnt_add c fun_eq_iff)
  then show ?thesis by (rule lost_step)
next
  case (run th a rest ch w1 th')
  then show ?thesis using exec_view[OF inv run(2,3,4)] by simp
next
  case (finish th)
  then have "ts_lost (view es sid t w) (view es sid t w')"
    by (auto simp: ts_lost_def view_simps tok_mail cnt_remove cnt_split[OF finish(2)] fun_eq_iff)
  then show ?thesis by (rule lost_step)
next
  case (crash th)
  then have "ts_lost (view es sid t w) (view es sid t w')"
    by (auto simp: ts_lost_def view_simps tok_mail cnt_remove cnt_split[OF crash(2)] fun_eq_iff)
  then show ?thesis by (rule lost_step)
next
  case (request s uuid tmpl action)
  have "view es sid t w' = view es sid t w"
    by (rule tstate_eqI) (auto simp: view_simps tok_mail request(1) cnt_add is_trigger_def is_token_def is_sync_def is_complete_def)
  then show ?thesis using exact_step[OF ts_exact.stutter] by metis
qed


text \<open>The engine simulates the abstract machine, whatever the traversal.\<close>

interpretation engine: simulation step "ts_step (edge_nodes es) (edge_rel es)" "engine_inv es t sid n0" "view es sid t"
  for es t sid n0
  by unfold_locales (auto intro: step_engine_inv step_view)

section \<open>A traversal from its start\<close>

text \<open>The world in which the thread that starts a traversal has stored the dependencies, created the
  sync points and is about to trigger the leaves, and nothing else is under way: in particular no worker
  of an earlier traversal, which might still retrigger a resource for this one. What follows is
  any interleaving of steps.\<close>

definition leaf_triggers :: "node_key graph \<Rightarrow> stack_row \<Rightarrow> action list" where
  "leaf_triggers g s =
     (if leaves g = [] then [MarkComplete s]
      else map (\<lambda>(i, u). Trigger \<lparr>m_rsrc = i, m_traversal = st_traversal s,
             m_data = serialize_input_data [], m_update = u, m_adopt = JNull\<rparr>) (leaves g))"

definition traversal_start :: "node_key graph \<Rightarrow> stack_row \<Rightarrow> world \<Rightarrow> bool" where
  "traversal_start g s w \<longleftrightarrow>
     wf_graph g \<and> acyclic (dep_rel g) \<and> st_edges s = graph_edges g \<and> int_of_str (st_id s) = None \<and>
     w_stack w = Some s \<and> w_inbox w = {#} \<and> w_threads w = {#continue (leaf_triggers g s)#} \<and> w_log w = [] \<and>
     (\<forall>x \<in> targets (st_edges s). w_points w (point_key (st_id s) (st_traversal s) x) =
        Some \<lparr>sp_stack_id = st_id s, sp_atomic_key = 0, sp_input_data = []\<rparr>) \<and>
     st_traversal s \<in> set (w_uuids w) \<and> (\<forall>(i, r) \<in> set (rt_rows (w_rsrcs w)). i < rt_next (w_rsrcs w)) \<and>
     (\<forall>k \<in> keys g. fst k < rt_next (w_rsrcs w))"

lemma distinct_leaves: "wf_graph g \<Longrightarrow> distinct (leaves g)"
  unfolding leaves_def by (rule distinct_map_filter[OF wf_graphD(1)])

lemma start_graph:
  assumes "traversal_start g s w"
  shows "edge_nodes (st_edges s) = keys g" "edge_rel (st_edges s) = dep_rel g"
    "traversal_graph (edge_nodes (st_edges s)) (edge_rel (st_edges s))"
proof -
  have g: "wf_graph g" "st_edges s = graph_edges g" "acyclic (dep_rel g)" using assms by (simp_all add: traversal_start_def)
  show *: "edge_nodes (st_edges s) = keys g" "edge_rel (st_edges s) = dep_rel g"
    using graph_edges_iff[OF g(1)] g(2) by simp_all
  show "traversal_graph (edge_nodes (st_edges s)) (edge_rel (st_edges s))"
    unfolding traversal_graph_def * using dep_rel_keys[OF g(1)] g(3) by auto
qed

lemma leaf_iff:
  assumes "wf_graph g"
  shows "k \<in> set (leaves g) \<longleftrightarrow> k \<in> keys g \<and> dep_rel g `` {k} = {}"
  using set_leaves[OF assms] by (auto simp: dep_rel_def)

lemma start_inv:
  assumes start: "traversal_start g s w"
  shows "engine_inv (st_edges s) (st_traversal s) (st_id s) (rt_next (w_rsrcs w)) w"
proof -
  let ?es = "st_edges s" and ?t = "st_traversal s" and ?sid = "st_id s" and ?n0 = "rt_next (w_rsrcs w)"
  note N = start_graph(1)[OF start]
  have ok: "stack_ok ?es ?t ?sid s" by (simp add: stack_ok_def)
  have wf: "wf_graph g" using start by (simp add: traversal_start_def)
  have "point_ok ?sid \<lparr>sp_stack_id = ?sid, sp_atomic_key = 0, sp_input_data = []\<rparr>"
    by (simp add: point_ok_def deserialize_input_data_def)
  then have "points_ok ?es ?t ?sid (w_points w)"
    using start by (simp add: points_ok_def traversal_start_def)
  then have env: "env_ok ?es ?t ?sid ?n0 w"
    using start ok N by (auto simp: env_ok_def traversal_start_def rows_ok_def row_ok_def)
  have plain: "\<exists>d. serialize_input_data [] = serialize_input_data d \<and> plain (JDict d)"
    by (rule exI[of _ "[]"]) simp
  have "action_ok ?es ?t ?sid ?n0 w a" if leaf: "a \<in> set (leaf_triggers g s)" for a
  proof -
    consider "a = MarkComplete s" | i u where "(i, u) \<in> set (leaves g)" "a = Trigger \<lparr>m_rsrc = i, m_traversal = ?t,
        m_data = serialize_input_data [], m_update = u, m_adopt = JNull\<rparr>"
      using leaf by (auto simp: leaf_triggers_def split: if_splits)
    then show ?thesis
    proof cases
      case 2
      then have "(i, u) \<in> keys g" using leaf_iff[OF wf] by blast
      moreover from this have "i < ?n0" using start by (force simp: traversal_start_def)
      ultimately show ?thesis using 2(2) N plain by (simp add: msg_ok_def del: plain.simps)
    qed (use ok in simp)
  qed
  moreover have "solo (continue (leaf_triggers g s))"
    by (rule solo_no_check) (auto simp: leaf_triggers_def)
  ultimately show ?thesis using env start by (simp add: engine_inv_def traversal_start_def)
qed

lemma start_view:
  assumes start: "traversal_start g s w"
  shows "view (st_edges s) (st_id s) (st_traversal s) w = ts_start (edge_nodes (st_edges s)) (edge_rel (st_edges s))"
proof -
  note G = start_graph[OF start]
  have wf: "wf_graph g" using start by (simp add: traversal_start_def)
  let ?t = "st_traversal s"
  have empty: "leaves g = [] \<longleftrightarrow> keys g = {}"
  proof
    assume none: "leaves g = []"
    show "keys g = {}"
    proof (rule ccontr)
      assume "keys g \<noteq> {}"
      then have ne: "g \<noteq> []" by (auto simp: keys_def)
      have "requires g k \<noteq> {}" if "k \<in> keys g" for k
      proof -
        have "k \<notin> set (leaves g)" using none by simp
        then show ?thesis using set_leaves[OF wf] that by blast
      qed
      from no_leaf_cyclic[OF wf ne this] have "\<not> acyclic (dep_rel g)" .
      then show False using start by (simp add: traversal_start_def)
    qed
  qed (simp add: leaves_def keys_def)
  have cnt: "cnt P w = length (filter P (leaf_triggers g s))" for P
    using start by (simp add: cnt_def traversal_start_def)
  have "length (filter (\<lambda>q. q = p) qs) = (if p \<in> set qs then 1 else 0)" if "distinct qs" for p and qs :: "node_key list"
    using that by (induction qs) auto
  note one = this[OF distinct_leaves[OF wf]]
  have trig: "length (filter (is_trigger ?t p) (leaf_triggers g s)) = (if p \<in> set (leaves g) then 1 else 0)" for p
  proof (cases "leaves g = []")
    case False
    have "filter (is_trigger ?t p) (leaf_triggers g s) = map (\<lambda>(i, u). Trigger \<lparr>m_rsrc = i, m_traversal = ?t,
        m_data = serialize_input_data [], m_update = u, m_adopt = JNull\<rparr>) (filter (\<lambda>q. q = p) (leaves g))"
      using False by (simp add: leaf_triggers_def filter_map comp_def case_prod_unfold is_trigger_def)
    then show ?thesis using one[of p] by simp
  qed (simp add: leaf_triggers_def is_trigger_def)
  have other: "filter (is_token es ?t hist k) (leaf_triggers g s) = []" "filter (is_sync ?t k x) (leaf_triggers g s) = []"
    "length (filter (is_complete ?t) (leaf_triggers g s)) = (if leaves g = [] then 1 else 0)" for es hist k x
    by (auto simp: leaf_triggers_def is_token_def is_sync_def is_complete_def filter_empty_conv)
  have points: "w_points w (point_key (st_id s) ?t x) = Some \<lparr>sp_stack_id = st_id s, sp_atomic_key = 0, sp_input_data = []\<rparr>"
    if "x \<in> targets (st_edges s)" for x using start that by (simp add: traversal_start_def)
  have "w_log w = []" "w_inbox w = {#}" using start by (simp_all add: traversal_start_def)
  then show ?thesis
    by (intro tstate_eqI)
      (auto simp: view_simps ts_start_def cnt trig other tok_mail mail_def points arrived_at_def
        deserialize_input_data_def leaf_iff[OF wf] G(1,2) empty)
qed

lemma reachable_view:
  assumes start: "traversal_start g s w" and run: "step\<^sup>*\<^sup>* w w'"
  shows "engine_inv (st_edges s) (st_traversal s) (st_id s) (rt_next (w_rsrcs w)) w'"
    "(ts_step (keys g) (dep_rel g))\<^sup>*\<^sup>* (ts_start (keys g) (dep_rel g)) (view (st_edges s) (st_id s) (st_traversal s) w')"
  using engine.sim_run[OF run start_inv[OF start]] start_graph(1,2)[OF start] start_view[OF start] by simp_all

lemma reachable_ts_inv:
  assumes start: "traversal_start g s w" and run: "step\<^sup>*\<^sup>* w w'"
  shows "ts_inv (keys g) (dep_rel g) (view (st_edges s) (st_id s) (st_traversal s) w')"
proof -
  note G = start_graph[OF start]
  have "ts_inv (edge_nodes (st_edges s)) (edge_rel (st_edges s)) (view (st_edges s) (st_id s) (st_traversal s) w')"
    by (rule engine.sim_invariant[OF _ start_inv[OF start] _ run])
      (simp_all add: start_view[OF start] ts_inv_start ts_inv_step[OF G(3)])
  then show ?thesis by (simp add: G(1,2))
qed

end
