(* ===== verification/Heat_Smooth.thy ===== *)
theory Heat_Smooth
  imports Heat_Traversal
begin

text \<open>
  Liveness of a traversal. In a run in which every check of a resource ends well, with or without a
  replacement, and no engine dies and no other traversal starts, the threads still race for the
  sync points; but every such run ends, and when it has ended every node was triggered and checked
  exactly once and the stack was marked complete exactly once.
\<close>

section \<open>Smooth steps\<close>

fun smooth_choice :: "choice \<Rightarrow> bool" where
  "smooth_choice (CheckOk changed reference_id attrs uuid) = True"
| "smooth_choice CheckReplace = True"
| "smooth_choice NoChoice = True"
| "smooth_choice _ = False"

inductive smooth :: "world \<Rightarrow> world \<Rightarrow> bool" where
  deliver: "m \<in># w_inbox w \<Longrightarrow>
     smooth w (w\<lparr>w_inbox := w_inbox w - {#m#}, w_threads := add_mset (begin_check False m w) (w_threads w)\<rparr>)"
| run: "th \<in># w_threads w \<Longrightarrow> th_todo th = a # rest \<Longrightarrow> smooth_choice ch \<Longrightarrow>
     exec ch a (th\<lparr>th_todo := rest\<rparr>) w = Some (w', th') \<Longrightarrow>
     smooth w (w'\<lparr>w_threads := add_mset th' (w_threads w - {#th#})\<rparr>)"
| finish: "th \<in># w_threads w \<Longrightarrow> th_todo th = [] \<Longrightarrow> smooth w (w\<lparr>w_threads := w_threads w - {#th#}\<rparr>)"

lemma smooth_step: "smooth w w' \<Longrightarrow> step w w'"
  by (induction rule: smooth.induct) (auto intro: step.intros)

lemma smooth_run_step: "smooth\<^sup>*\<^sup>* w w' \<Longrightarrow> step\<^sup>*\<^sup>* w w'"
  by (induction rule: rtranclp_induct) (auto intro: smooth_step rtranclp.rtrancl_into_rtrancl)

section \<open>The invariant of smooth runs\<close>

text \<open>Which resource a node is about: what replaced it, or itself.\<close>

fun replaced :: "event list \<Rightarrow> int \<Rightarrow> int option" where
  "replaced [] i = None"
| "replaced (Replaced i' j # l) i = (if i' = i then Some j else replaced l i)"
| "replaced (_ # l) i = replaced l i"

definition holder :: "event list \<Rightarrow> node_key \<Rightarrow> int" where
  "holder hist k = (if snd k then (case replaced hist (fst k) of Some j \<Rightarrow> j | None \<Rightarrow> fst k) else fst k)"

text \<open>What the row of that resource must say for its check to go on: it is the one of the graph, or
  a replacement that nobody has created yet; it was not superseded; and only a resource with a
  cleanup can have been created before.\<close>

definition row_ready :: "node_key edge list \<Rightarrow> int \<Rightarrow> node_key \<Rightarrow> int \<Rightarrow> rsrc \<Rightarrow> bool" where
  "row_ready es tmpl k i r \<longleftrightarrow>
     (i = fst k \<or> rs_action r = RsrcInit \<and> rs_replaces r = Some (fst k) \<and> ((fst k, False), k) \<in> edge_rel es) \<and>
     (snd k \<longrightarrow> (rs_replaced_by r = None \<or> rs_template r = tmpl) \<and>
        (((fst k, False), k) \<in> edge_rel es \<or> rs_action r = RsrcInit))"

text \<open>Rows and what is held of them know their replacements of this traversal.\<close>

definition links_ok :: "int \<Rightarrow> event list \<Rightarrow> int \<Rightarrow> rsrc \<Rightarrow> bool" where
  "links_ok n0 hist i r \<longleftrightarrow> (\<forall>j. rs_replaced_by r = Some j \<longrightarrow> n0 \<le> j \<longrightarrow> Replaced i j \<in> set hist)"

definition token_ok :: "node_key edge list \<Rightarrow> string \<Rightarrow> event list \<Rightarrow> check_msg \<Rightarrow> bool" where
  "token_ok es t hist m \<longleftrightarrow> m_traversal m = t \<and> msg_node es hist m \<in> edge_nodes es \<and>
     m_rsrc m = holder hist (msg_node es hist m) \<and> m_update m = snd (msg_node es hist m)"

text \<open>The actions of a smooth run. Nothing is purged before the stack is complete.\<close>

fun smooth_action :: "node_key edge list \<Rightarrow> string \<Rightarrow> int \<Rightarrow> stack_row \<Rightarrow> event list \<Rightarrow> action \<Rightarrow> bool" where
  "smooth_action es t n0 s hist (Check m s' r data) \<longleftrightarrow>
     token_ok es t hist m \<and> s' = s \<and> row_ready es (st_template s) (msg_node es hist m) (m_rsrc m) r \<and>
     links_ok n0 hist (m_rsrc m) r"
| "smooth_action es t n0 s hist (SyncRead c p) \<longleftrightarrow> sa_traversal c = t \<and> (\<forall>s'. p = MarkStack s' \<longrightarrow> s' = s)"
| "smooth_action es t n0 s hist (SyncWrite c p ak d) \<longleftrightarrow> sa_traversal c = t \<and> (\<forall>s'. p = MarkStack s' \<longrightarrow> s' = s)"
| "smooth_action es t n0 s hist (Trigger m) \<longleftrightarrow> m_traversal m = t"
| "smooth_action es t n0 s hist (Recast m) \<longleftrightarrow> token_ok es t hist m"
| "smooth_action es t n0 s hist (MarkComplete s') \<longleftrightarrow> s' = s"
| "smooth_action es t n0 s hist (PurgeStore s') \<longleftrightarrow> Completed t \<in> set hist \<and> st_status s' = COMPLETE"
| "smooth_action es t n0 s hist (DeletePoints sid trv) \<longleftrightarrow> Completed t \<in> set hist"
| "smooth_action es t n0 s hist (DeleteStack s') \<longleftrightarrow> Completed t \<in> set hist \<and> st_action s = DELETE"
| "smooth_action es t n0 s hist _ \<longleftrightarrow> False"

definition rows_ready :: "node_key edge list \<Rightarrow> string \<Rightarrow> int \<Rightarrow> event list \<Rightarrow> rsrc_table \<Rightarrow> bool" where
  "rows_ready es t tmpl hist rt \<longleftrightarrow>
     (\<forall>k \<in> edge_nodes es. Checked t k \<notin> set hist \<longrightarrow>
        (\<exists>r. rt_get rt (holder hist k) = Some r \<and> row_ready es tmpl k (holder hist k) r))"

text \<open>The row of a stack whose traversal is complete: it says so, or it is gone because the
  traversal deleted the stack.\<close>

definition traversal_action :: "stack_action \<Rightarrow> bool" where
  "traversal_action a \<longleftrightarrow> a \<in> {CREATE, ADOPT, UPDATE, DELETE, ROLLBACK}"

definition row_complete :: "stack_row \<Rightarrow> stack_row option \<Rightarrow> bool" where
  "row_complete s row \<longleftrightarrow> (traversal_action (st_action s) \<longrightarrow>
     (case row of None \<Rightarrow> st_action s = DELETE | Some r \<Rightarrow> st_status r = COMPLETE))"

definition smooth_inv :: "node_key edge list \<Rightarrow> int \<Rightarrow> stack_row \<Rightarrow> world \<Rightarrow> bool" where
  "smooth_inv es n0 s w \<longleftrightarrow> (let t = st_traversal s in
     (\<forall>th \<in># w_threads w. \<forall>a \<in> set (th_todo th). smooth_action es t n0 s (w_log w) a) \<and>
     (\<forall>m \<in># w_inbox w. token_ok es t (w_log w) m) \<and>
     (Completed t \<notin> set (w_log w) \<longrightarrow> w_stack w = Some s) \<and>
     (Completed t \<in> set (w_log w) \<longrightarrow> row_complete s (w_stack w)) \<and>
     rows_ready es t (st_template s) (w_log w) (w_rsrcs w) \<and>
     (\<forall>(i, r) \<in> set (rt_rows (w_rsrcs w)). links_ok n0 (w_log w) i r) \<and>
     (\<forall>i j. Replaced i j \<in> set (w_log w) \<longrightarrow> origin (w_log w) j = Some i \<and>
        Triggered t (i, True) \<in> set (w_log w)) \<and>
     (\<forall>i. (i, False) \<in> edge_nodes es \<longrightarrow> (i, True) \<in> edge_nodes es \<longrightarrow> ((i, False), (i, True)) \<in> edge_rel es))"

lemma replaced_in: "replaced hist i = Some j \<Longrightarrow> Replaced i j \<in> set hist"
  by (induction hist i rule: replaced.induct) (auto split: if_splits)

lemma replaced_cons: "(\<And>j i. e \<noteq> Replaced j i) \<Longrightarrow> replaced (e # hist) = replaced hist"
  by (cases e) auto

lemma holder_cons: "(\<And>j i. e \<noteq> Replaced j i) \<Longrightarrow> holder (e # hist) = holder hist"
  by (simp add: holder_def fun_eq_iff replaced_cons)

lemma token_ok_cons: "(\<And>j i. e \<noteq> Replaced j i) \<Longrightarrow> token_ok es t (e # hist) = token_ok es t hist"
  by (simp add: token_ok_def fun_eq_iff holder_cons same_node)

lemma links_ok_mono: "set hist \<subseteq> set hist' \<Longrightarrow> links_ok n0 hist i r \<Longrightarrow> links_ok n0 hist' i r"
  by (auto simp: links_ok_def)

lemma smooth_action_cons:
  assumes "\<And>j i. e \<noteq> Replaced j i" "smooth_action es t n0 s hist a"
  shows "smooth_action es t n0 s (e # hist) a"
  using assms links_ok_mono[of hist "e # hist"]
  by (cases a) (auto simp: token_ok_cons same_node subset_insertI)


text \<open>A good world: the invariants of the engine, of the abstract machine, and of smooth runs.\<close>

definition good :: "node_key edge list \<Rightarrow> int \<Rightarrow> stack_row \<Rightarrow> world \<Rightarrow> bool" where
  "good es n0 s w \<longleftrightarrow> engine_inv es (st_traversal s) (st_id s) n0 w \<and>
     traversal_graph (edge_nodes es) (edge_rel es) \<and> st_edges s = es \<and>
     ts_inv (edge_nodes es) (edge_rel es) (view es (st_id s) (st_traversal s) w) \<and>
     balanced (edge_nodes es) (edge_rel es) (view es (st_id s) (st_traversal s) w) \<and> smooth_inv es n0 s w"

lemma count_pos: "e \<in> set hist \<Longrightarrow> 0 < count_list hist e"
  by (metis count_list_0_iff gr0I)

lemma holds_cnt: "th \<in># w_threads w \<Longrightarrow> a \<in> set (th_todo th) \<Longrightarrow> P a \<Longrightarrow> 0 < cnt P w"
  by (auto simp: cnt_split cost_def filter_empty_conv)

lemma goodD:
  assumes "good es n0 s w"
  shows "env_ok es (st_traversal s) (st_id s) n0 w" "engine_inv es (st_traversal s) (st_id s) n0 w"
    "traversal_graph (edge_nodes es) (edge_rel es)" "st_edges s = es" "smooth_inv es n0 s w"
    "ts_inv (edge_nodes es) (edge_rel es) (view es (st_id s) (st_traversal s) w)"
    "balanced (edge_nodes es) (edge_rel es) (view es (st_id s) (st_traversal s) w)"
  using assms by (simp_all add: good_def engine_inv_def)

lemma smooth_invD:
  assumes "smooth_inv es n0 s w"
  shows "th \<in># w_threads w \<Longrightarrow> a \<in> set (th_todo th) \<Longrightarrow> smooth_action es (st_traversal s) n0 s (w_log w) a"
    "m \<in># w_inbox w \<Longrightarrow> token_ok es (st_traversal s) (w_log w) m"
    "Completed (st_traversal s) \<notin> set (w_log w) \<Longrightarrow> w_stack w = Some s"
    "rows_ready es (st_traversal s) (st_template s) (w_log w) (w_rsrcs w)"
    "(i, r) \<in> set (rt_rows (w_rsrcs w)) \<Longrightarrow> links_ok n0 (w_log w) i r"
    "Replaced i j \<in> set (w_log w) \<Longrightarrow> origin (w_log w) j = Some i"
    "Replaced i j \<in> set (w_log w) \<Longrightarrow> Triggered (st_traversal s) (i, True) \<in> set (w_log w)"
    "(i, False) \<in> edge_nodes es \<Longrightarrow> (i, True) \<in> edge_nodes es \<Longrightarrow> ((i, False), (i, True)) \<in> edge_rel es"
    "Completed (st_traversal s) \<in> set (w_log w) \<Longrightarrow> row_complete s (w_stack w)"
  using assms by (auto simp: smooth_inv_def Let_def)

text \<open>A node in the hands of an engine is not checked yet, and the stack is not complete.\<close>

lemma token_fresh:
  assumes good: "good es n0 s w" and k: "k \<in> edge_nodes es" "0 < tok es (st_traversal s) w k"
  shows "Checked (st_traversal s) k \<notin> set (w_log w)" "Completed (st_traversal s) \<notin> set (w_log w)"
proof -
  let ?v = "view es (st_id s) (st_traversal s) w"
  note inv = goodD(6)[OF good]
  have "0 < ts_tok ?v k" using k by (simp add: view_simps)
  then have d: "ts_done ?v k = 0" using ts_onceD(1,2)[OF inv k(1)] by linarith
  then show "Checked (st_traversal s) k \<notin> set (w_log w)" using k(1) by (simp add: view_simps count_list_0_iff)
  have "ts_comp ?v = 0" using ts_causalD(3)[OF inv _ k(1)] d by fastforce
  then show "Completed (st_traversal s) \<notin> set (w_log w)" by (simp add: view_simps count_list_0_iff)
qed

lemma inbox_fresh:
  assumes good: "good es n0 s w" and m: "m \<in># w_inbox w"
  shows "Checked (st_traversal s) (msg_node es (w_log w) m) \<notin> set (w_log w)"
    "Completed (st_traversal s) \<notin> set (w_log w)"
proof -
  have tok: "token_ok es (st_traversal s) (w_log w) m" using smooth_invD(2)[OF goodD(5)[OF good] m] .
  have "m \<in># {#m' \<in># w_inbox w. m_traversal m' = st_traversal s \<and> msg_node es (w_log w) m' = msg_node es (w_log w) m#}"
    using m tok by (simp add: token_ok_def)
  then have "0 < mail es (st_traversal s) (w_log w) (w_inbox w) (msg_node es (w_log w) m)"
    unfolding mail_def by (metis gr0I size_eq_0_iff_empty empty_not_add_mset insert_DiffM)
  then have "0 < tok es (st_traversal s) w (msg_node es (w_log w) m)" by (simp add: tok_mail)
  from token_fresh[OF good _ this] show "Checked (st_traversal s) (msg_node es (w_log w) m) \<notin> set (w_log w)"
    "Completed (st_traversal s) \<notin> set (w_log w)" using tok by (simp_all add: token_ok_def)
qed

lemma check_fresh:
  assumes good: "good es n0 s w" and th: "th \<in># w_threads w" "Check m s' r data \<in> set (th_todo th)"
  shows "Checked (st_traversal s) (msg_node es (w_log w) m) \<notin> set (w_log w)"
    "Completed (st_traversal s) \<notin> set (w_log w)"
proof -
  have tok: "token_ok es (st_traversal s) (w_log w) m" using smooth_invD(1)[OF goodD(5)[OF good] th] by simp
  have "is_token es (st_traversal s) (w_log w) (msg_node es (w_log w) m) (Check m s' r data)"
    using tok by (simp add: is_token_def token_ok_def)
  then have "0 < tok es (st_traversal s) w (msg_node es (w_log w) m)"
    using holds_cnt[OF th] by (simp add: tok_mail)
  from token_fresh[OF good _ this] show "Checked (st_traversal s) (msg_node es (w_log w) m) \<notin> set (w_log w)"
    "Completed (st_traversal s) \<notin> set (w_log w)" using tok by (simp_all add: token_ok_def)
qed

lemma new_id_unknown: "env_ok es t sid n0 w \<Longrightarrow> n0 \<le> i \<Longrightarrow> (i, u) \<notin> edge_nodes es"
  by (force simp: env_ok_def)

lemma holder_new:
  assumes "env_ok es t sid n0 w" "holder (w_log w) k \<noteq> fst k"
  shows "n0 \<le> holder (w_log w) k" "Replaced (fst k) (holder (w_log w) k) \<in> set (w_log w)" "snd k"
proof -
  obtain j where j: "snd k" "replaced (w_log w) (fst k) = Some j" "holder (w_log w) k = j"
    using assms(2) by (auto simp: holder_def split: if_splits option.splits)
  then show "snd k" "Replaced (fst k) (holder (w_log w) k) \<in> set (w_log w)" using replaced_in by simp_all
  then show "n0 \<le> holder (w_log w) k" using assms(1) by (simp add: env_ok_def)
qed

text \<open>Two nodes are about the same resource only if they are its update and its cleanup.\<close>

lemma holder_inj:
  assumes good: "good es n0 s w" and k: "k \<in> edge_nodes es" "k' \<in> edge_nodes es"
    and eq: "holder (w_log w) k = holder (w_log w) k'"
  shows "fst k = fst k'"
proof -
  note env = goodD(1)[OF good] and D = smooth_invD[OF goodD(5)[OF good]]
  have old: "fst k < n0" "fst k' < n0" using env k by (auto simp: env_ok_def)
  show ?thesis
  proof (cases "holder (w_log w) k = fst k")
    case True
    have "holder (w_log w) k' = fst k'"
      by (rule ccontr) (use holder_new(1)[OF env, of k'] True eq old in simp)
    then show ?thesis using True eq by simp
  next
    case False
    have "holder (w_log w) k' \<noteq> fst k'"
      using holder_new(1)[OF env False] eq old by simp
    from holder_new(2)[OF env False] holder_new(2)[OF env this] show ?thesis
      using D(6) eq by (metis option.inject)
  qed
qed


section \<open>The checks keep the resources ready\<close>

lemma rt_get_update: "rt_get (rt_update i f rt) j = (if j = i then map_option f (rt_get rt j) else rt_get rt j)"
proof -
  have "map_of (map (\<lambda>(j, r). (j, if j = i then f r else r)) rows) j =
      (if j = i then map_option f (map_of rows j) else map_of rows j)" for rows
    by (induction rows) auto
  then show ?thesis by (simp add: rt_get_def rt_update_def)
qed

lemma rt_get_delete: "rt_get (rt_delete i rt) j = (if j = i then None else rt_get rt j)"
  by (simp add: rt_get_def rt_delete_def delete_conv')

lemma rt_get_insert:
  assumes "rows_ok n0 hist rt"
  shows "rt_get (snd (rt_insert r rt)) j = (if j = rt_next rt then Some r else rt_get rt j)"
proof -
  have "map_of (rt_rows rt) (rt_next rt) = None"
    using assms by (force simp: rows_ok_def map_of_eq_None_iff)
  then show ?thesis by (auto simp: rt_get_def rt_insert_def map_add_def split: option.split)
qed

lemma links_update:
  assumes "\<And>i r. (i, r) \<in> set (rt_rows rt) \<Longrightarrow> links_ok n0 hist i r" "\<And>r. rs_replaced_by (f r) = rs_replaced_by r"
    "(i, r) \<in> set (rt_rows (rt_update j f rt))"
  shows "links_ok n0 hist i r"
  using assms by (force simp: rt_update_def links_ok_def split: if_splits)

lemma links_delete_convergence:
  assumes "\<And>i r. (i, r) \<in> set (rt_rows rt) \<Longrightarrow> links_ok n0 hist i r"
    "(i, r) \<in> set (rt_rows (delete_convergence j r0 tmpl d rt))"
  shows "links_ok n0 hist i r"
proof -
  have del: "(i, r) \<in> set (rt_rows (rt_delete j rt)) \<Longrightarrow> links_ok n0 hist i r" for i r
    using assms(1) by (auto simp: rt_delete_def AList.delete_eq)
  show ?thesis
  proof (cases "rs_template r0 \<noteq> tmpl")
    case True
    show ?thesis
    proof (cases "rs_replaced_by r0")
      case None
      then show ?thesis using assms(2) True by (simp add: delete_convergence_def update_replacement_data_def del)
    next
      case (Some k)
      have upd: "(i, r) \<in> set (rt_rows (rt_update k (\<lambda>r'. if rs_template r' = tmpl
          then r'\<lparr>rs_needed_by := needed_ids d, rs_replaces := None\<rparr> else r') (rt_delete j rt)))"
        using assms(2) True Some by (simp add: delete_convergence_def update_replacement_data_def)
      show ?thesis by (rule links_update[OF del _ upd]) simp_all
    qed
  next
    case False
    then have upd: "(i, r) \<in> set (rt_rows (rt_update j (\<lambda>r. r\<lparr>rs_needed_by := needed_ids d\<rparr>) rt))"
      using assms(2) by (simp add: delete_convergence_def)
    show ?thesis by (rule links_update[OF assms(1) _ upd]) simp_all
  qed
qed

text \<open>The token that is checked names the graph's node.\<close>

lemma graph_key_smooth:
  assumes env: "env_ok es t sid n0 w" and tok: "token_ok es t (w_log w) m"
    and row: "row_ready es tmpl (msg_node es (w_log w) m) (m_rsrc m) r"
  shows "graph_key_of (dependencies es) (m_rsrc m) (m_update m) r = msg_node es (w_log w) m"
proof -
  define k where "k = msg_node es (w_log w) m"
  have k: "k \<in> edge_nodes es" "m_rsrc m = holder (w_log w) k" "m_update m = snd k" using tok by (simp_all add: token_ok_def k_def)
  show ?thesis
  proof (cases "m_rsrc m = fst k")
    case True
    then show ?thesis using k by (simp add: graph_key_of_def k_def[symmetric])
  next
    case False
    then have "(m_rsrc m, m_update m) \<notin> edge_nodes es"
      using holder_new(1)[OF env] k(2) new_id_unknown[OF env] by metis
    moreover have "rs_replaces r = Some (fst k)" using row False by (simp add: row_ready_def k_def)
    ultimately show ?thesis using k(3) by (simp add: graph_key_of_def k_def[symmetric])
  qed
qed

text \<open>After the check of one node the rows of the others are as ready as before.\<close>

lemma rows_ready_check:
  assumes good: "good es n0 s w" and tok: "token_ok es (st_traversal s) (w_log w) m"
    and earlier: "\<And>k. (msg_node es (w_log w) m, k) \<in> edge_rel es \<Longrightarrow> Checked (st_traversal s) k \<in> set (w_log w)"
    and links: "links_ok n0 (w_log w) (m_rsrc m) r"
    and rt: "rt = (if m_update m then rt_update (m_rsrc m) (updated_row changed (st_template s) data) (w_rsrcs w)
      else delete_convergence (m_rsrc m) r (st_template s) data (w_rsrcs w))"
  shows "rows_ready es (st_traversal s) (st_template s)
    (Checked (st_traversal s) (msg_node es (w_log w) m) # w_log w) rt"
  unfolding rows_ready_def
proof (intro ballI impI)
  let ?t = "st_traversal s" and ?tmpl = "st_template s"
  define k where "k = msg_node es (w_log w) m"
  note D = smooth_invD[OF goodD(5)[OF good]] and env = goodD(1)[OF good]
  have k: "k \<in> edge_nodes es" "m_rsrc m = holder (w_log w) k" "m_update m = snd k" using tok by (simp_all add: token_ok_def k_def)
  fix k' assume k': "k' \<in> edge_nodes es" and "Checked ?t k' \<notin> set (Checked ?t (msg_node es (w_log w) m) # w_log w)"
  then have fresh: "k' \<noteq> k" "Checked ?t k' \<notin> set (w_log w)" by (auto simp: k_def)
  have h: "holder (Checked ?t x # w_log w) = holder (w_log w)" for x by (simp add: holder_cons)
  obtain r' where r': "rt_get (w_rsrcs w) (holder (w_log w) k') = Some r'" "row_ready es ?tmpl k' (holder (w_log w) k') r'"
    using D(4) k' fresh(2) unfolding rows_ready_def by blast
  have same: "fst k' = fst k \<and> snd k' \<noteq> snd k" if "holder (w_log w) k' = m_rsrc m"
    using holder_inj[OF good k' k(1)] that k(2) fresh(1) by (auto simp: prod_eq_iff)
  show "\<exists>r'. rt_get rt (holder (Checked ?t (msg_node es (w_log w) m) # w_log w) k') = Some r' \<and>
      row_ready es ?tmpl k' (holder (Checked ?t (msg_node es (w_log w) m) # w_log w) k') r'"
  proof (cases "snd k")
    case True
    then have rt': "rt = rt_update (m_rsrc m) (updated_row changed ?tmpl data) (w_rsrcs w)" using rt k(3) by simp
    show ?thesis
    proof (cases "holder (w_log w) k' = m_rsrc m")
      case eq: True
      then have "\<not> snd k'" using same True by simp
      then have "row_ready es ?tmpl k' (holder (w_log w) k') (updated_row changed ?tmpl data r')"
        by (simp add: row_ready_def holder_def)
      then show ?thesis using r'(1) eq by (simp add: rt' h rt_get_update)
    next
      case False
      then show ?thesis using r' by (simp add: rt' h rt_get_update)
    qed
  next
    case False
    then have hk: "m_rsrc m = fst k" using k(2) by (simp add: holder_def)
    have kF: "k = (fst k, False)" using False by (simp add: prod_eq_iff)
    have ne: "holder (w_log w) k' \<noteq> m_rsrc m"
    proof
      assume "holder (w_log w) k' = m_rsrc m"
      then have "k' = (fst k, True)" using same False by (simp add: prod_eq_iff)
      then have "(k, k') \<in> edge_rel es" using D(8)[of "fst k"] k(1) k' kF by metis
      then show False using earlier fresh(2) by (simp add: k_def)
    qed
    have rt': "rt = delete_convergence (m_rsrc m) r ?tmpl data (w_rsrcs w)" using rt k(3) False by simp
    show ?thesis
    proof (cases "rs_template r \<noteq> ?tmpl \<and> rs_replaced_by r = Some (holder (w_log w) k')")
      case True
      let ?f = "\<lambda>r'. if rs_template r' = ?tmpl then r'\<lparr>rs_needed_by := needed_ids data, rs_replaces := None\<rparr> else r'"
      have get: "rt_get rt (holder (w_log w) k') = Some (?f r')"
        using True r'(1) ne by (simp add: rt' delete_convergence_def update_replacement_data_def rt_get_update rt_get_delete)
      have "holder (w_log w) k' = fst k'"
      proof (rule ccontr)
        assume new: "holder (w_log w) k' \<noteq> fst k'"
        note hn = holder_new[OF env new]
        have "Replaced (m_rsrc m) (holder (w_log w) k') \<in> set (w_log w)"
          using links True hn(1) by (simp add: links_ok_def)
        then have "fst k' = m_rsrc m" using D(6) hn(2) by (metis option.inject)
        then have "k' = (fst k, True)" using hn(3) hk by (simp add: prod_eq_iff)
        then have "(k, k') \<in> edge_rel es" using D(8)[of "fst k"] k(1) k' kF by metis
        then show False using earlier fresh(2) by (simp add: k_def)
      qed
      then have "row_ready es ?tmpl k' (holder (w_log w) k') (?f r')" using r'(2) by (auto simp: row_ready_def)
      then show ?thesis using get by (simp add: h)
    next
      case False
      then have "rt_get rt (holder (w_log w) k') = rt_get (w_rsrcs w) (holder (w_log w) k')"
        using ne by (auto simp: rt' delete_convergence_def update_replacement_data_def rt_get_update rt_get_delete split: option.splits)
      then show ?thesis using r' by (simp add: h)
    qed
  qed
qed

end
