(* ===== verification/Heat_Smooth_Steps.thy ===== *)
theory Heat_Smooth_Steps
  imports Heat_Smooth
begin

text \<open>
  Every smooth step is an exact step of the abstract machine, nothing is lost, and keeps the
  invariant of smooth runs: messages are taken up, notices find their sync points, replacements keep
  the rows of the other nodes ready, and nothing is purged before the stack is complete.
\<close>

section \<open>Smooth steps keep the invariant\<close>

text \<open>The history gains at most an event that is no replacement.\<close>

definition plain_log :: "event list \<Rightarrow> event list \<Rightarrow> bool" where
  "plain_log hist hist' \<longleftrightarrow> hist' = hist \<or> (\<exists>e. hist' = e # hist \<and> (\<forall>j i. e \<noteq> Replaced j i))"

lemma plain_logD:
  assumes "plain_log hist hist'"
  shows "msg_node es hist' = msg_node es hist" "token_ok es t hist' = token_ok es t hist" "holder hist' = holder hist"
    "origin hist' = origin hist" "set hist \<subseteq> set hist'" "Replaced i j \<in> set hist' \<longleftrightarrow> Replaced i j \<in> set hist"
    "smooth_action es t n0 s hist a \<Longrightarrow> smooth_action es t n0 s hist' a"
proof -
  consider "hist' = hist" | e where "hist' = e # hist" "\<And>j i. e \<noteq> Replaced j i" using assms unfolding plain_log_def by blast
  note cs = this
  have "origin (e # hist) = origin hist" if "\<And>j i. e \<noteq> Replaced j i" for e using that by (cases e) auto
  with cs show "origin hist' = origin hist" by cases simp_all
  show "msg_node es hist' = msg_node es hist" using cs by cases (simp_all add: same_node)
  show "token_ok es t hist' = token_ok es t hist" using cs by cases (simp_all add: token_ok_cons)
  show "holder hist' = holder hist" using cs by cases (simp_all add: holder_cons)
  show "set hist \<subseteq> set hist'" using cs by cases auto
  show "Replaced i j \<in> set hist' \<longleftrightarrow> Replaced i j \<in> set hist" using cs by cases auto
  show "smooth_action es t n0 s hist a \<Longrightarrow> smooth_action es t n0 s hist' a" using cs by cases (simp_all add: smooth_action_cons)
qed

lemma rows_ready_log:
  assumes "plain_log hist hist'" "rows_ready es t tmpl hist rt" shows "rows_ready es t tmpl hist' rt"
  using assms(2) plain_logD(3,5)[OF assms(1)] unfolding rows_ready_def by (metis subsetD)

lemma smooth_frame:
  assumes inv: "smooth_inv es n0 s w" and log: "plain_log (w_log w) (w_log w')"
    and todo: "\<And>a. a \<in> set (th_todo th') \<Longrightarrow> smooth_action es (st_traversal s) n0 s (w_log w') a"
    and inbox: "\<And>m. m \<in># w_inbox w' \<Longrightarrow> m \<in># w_inbox w \<or> token_ok es (st_traversal s) (w_log w) m"
    and stack: "if Completed (st_traversal s) \<in> set (w_log w') then row_complete s (w_stack w') else w_stack w' = w_stack w"
    and rows: "rows_ready es (st_traversal s) (st_template s) (w_log w') (w_rsrcs w')"
    and links: "\<And>i r. (i, r) \<in> set (rt_rows (w_rsrcs w')) \<Longrightarrow> links_ok n0 (w_log w) i r"
    and ths: "set_mset ths \<subseteq> set_mset (w_threads w)"
  shows "smooth_inv es n0 s (w'\<lparr>w_threads := add_mset th' ths\<rparr>)"
proof -
  note L = plain_logD[OF log] and D = smooth_invD[OF inv]
  have trig: "Triggered t k \<in> set (w_log w) \<Longrightarrow> Triggered t k \<in> set (w_log w')" for t k using L(5) by blast
  have comp: "Completed (st_traversal s) \<in> set (w_log w) \<Longrightarrow> Completed (st_traversal s) \<in> set (w_log w')" using L(5) by blast
  have "smooth_action es (st_traversal s) n0 s (w_log w') a" if "th \<in># add_mset th' ths" "a \<in> set (th_todo th)" for th a
  proof (cases "th = th'")
    case False
    then have "th \<in># w_threads w" using that(1) ths by auto
    then show ?thesis using L(7)[OF D(1)[OF _ that(2)]] by blast
  qed (use todo that in simp)
  moreover have "token_ok es (st_traversal s) (w_log w') m" if "m \<in># w_inbox w'" for m
    using inbox[OF that] D(2) by (auto simp: L(2))
  moreover have "links_ok n0 (w_log w') i r" if "(i, r) \<in> set (rt_rows (w_rsrcs w'))" for i r
    using links_ok_mono[OF L(5) links[OF that]] .
  moreover have "Completed (st_traversal s) \<notin> set (w_log w') \<Longrightarrow> w_stack w' = Some s"
    using stack D(3) comp by (auto split: if_splits)
  ultimately show ?thesis
    unfolding smooth_inv_def Let_def
    using stack rows D(6,7,8) trig by (auto simp: L(4,6) split: if_splits)
qed

text \<open>The same with the tables as they are.\<close>

lemma smooth_frame_rows:
  assumes inv: "smooth_inv es n0 s w" and log: "plain_log (w_log w) (w_log w')"
    and todo: "\<And>a. a \<in> set (th_todo th') \<Longrightarrow> smooth_action es (st_traversal s) n0 s (w_log w') a"
    and inbox: "\<And>m. m \<in># w_inbox w' \<Longrightarrow> m \<in># w_inbox w \<or> token_ok es (st_traversal s) (w_log w) m"
    and stack: "if Completed (st_traversal s) \<in> set (w_log w') then row_complete s (w_stack w') else w_stack w' = w_stack w"
    and rows: "w_rsrcs w' = w_rsrcs w" and ths: "set_mset ths \<subseteq> set_mset (w_threads w)"
  shows "smooth_inv es n0 s (w'\<lparr>w_threads := add_mset th' ths\<rparr>)"
  by (rule smooth_frame[OF inv log todo inbox stack _ _ ths])
    (simp_all add: rows rows_ready_log[OF log smooth_invD(4)[OF inv]] smooth_invD(5)[OF inv])


lemma stack_kept:
  assumes "smooth_inv es n0 s w" "w_stack w' = w_stack w"
    "Completed (st_traversal s) \<in> set (w_log w') \<longleftrightarrow> Completed (st_traversal s) \<in> set (w_log w)"
  shows "if Completed (st_traversal s) \<in> set (w_log w') then row_complete s (w_stack w') else w_stack w' = w_stack w"
  using assms smooth_invD(9)[OF assms(1)] by simp

lemma plain_log_refl [simp]: "plain_log hist hist"
  by (simp add: plain_log_def)

lemma plain_log_event: "(\<And>j i. e \<noteq> Replaced j i) \<Longrightarrow> plain_log hist (e # hist)"
  by (simp add: plain_log_def)

subsection \<open>Messages\<close>

lemma deliver_check:
  assumes good: "good es n0 s w" and m: "m \<in># w_inbox w"
  obtains r data where "begin_check False m w = continue [Check m s r data]"
    "row_ready es (st_template s) (msg_node es (w_log w) m) (m_rsrc m) r" "links_ok n0 (w_log w) (m_rsrc m) r"
proof -
  note D = smooth_invD[OF goodD(5)[OF good]] and env = goodD(1)[OF good]
  have tok: "token_ok es (st_traversal s) (w_log w) m" using D(2)[OF m] .
  note fresh = inbox_fresh[OF good m]
  obtain r where r: "rt_get (w_rsrcs w) (m_rsrc m) = Some r"
      "row_ready es (st_template s) (msg_node es (w_log w) m) (m_rsrc m) r"
    using D(4) tok fresh(1) unfolding rows_ready_def token_ok_def by auto
  have "msg_ok es n0 w m" using env m tok by (simp add: env_ok_def token_ok_def)
  then obtain data where data: "deserialize_input_data (m_data m) = Inr data"
    unfolding msg_ok_def using deserialize_input_data_inverse by auto
  have "\<not> (m_update m \<and> rs_replaced_by r \<noteq> None \<and> rs_template r \<noteq> st_template s)"
    using r(2) tok by (auto simp: row_ready_def token_ok_def)
  then have "begin_check False m w = continue [Check m s r data]"
    using r(1) data tok D(3)[OF fresh(2)] by (auto simp: begin_check_def token_ok_def)
  moreover have "(m_rsrc m, r) \<in> set (rt_rows (w_rsrcs w))" using r(1) by (simp add: rt_get_def map_of_SomeD)
  ultimately show ?thesis using that r(2) D(5) by blast
qed

lemma deliver_smooth:
  assumes good: "good es n0 s w" and m: "m \<in># w_inbox w"
  defines "w' \<equiv> w\<lparr>w_inbox := w_inbox w - {#m#}, w_threads := add_mset (begin_check False m w) (w_threads w)\<rparr>"
  shows "view es (st_id s) (st_traversal s) w' = view es (st_id s) (st_traversal s) w" "smooth_inv es n0 s w'"
proof -
  let ?t = "st_traversal s"
  note inv = goodD(5)[OF good]
  have tok: "token_ok es ?t (w_log w) m" using smooth_invD(2)[OF inv m] .
  obtain r data where bg: "begin_check False m w = continue [Check m s r data]"
    "row_ready es (st_template s) (msg_node es (w_log w) m) (m_rsrc m) r" "links_ok n0 (w_log w) (m_rsrc m) r"
    by (rule deliver_check[OF good m])
  have w': "w' = (w\<lparr>w_inbox := w_inbox w - {#m#}\<rparr>)\<lparr>w_threads := add_mset (continue [Check m s r data]) (w_threads w)\<rparr>"
    by (simp add: w'_def bg(1))
  show "smooth_inv es n0 s w'"
    unfolding w'
    by (rule smooth_frame_rows[OF inv])
      (use tok bg stack_kept[OF inv, of w] in \<open>auto simp: continue_def dest: in_diffD\<close>)
  have ms: "w_inbox w = add_mset m (w_inbox w - {#m#})" using m by simp
  have tokn: "tok es ?t w' k = tok es ?t w k" for k
  proof -
    have "mail es ?t (w_log w) (w_inbox w) k = (if m_traversal m = ?t \<and> msg_node es (w_log w) m = k then 1 else 0) +
        mail es ?t (w_log w) (w_inbox w - {#m#}) k"
      by (subst ms) (simp add: mail_add)
    then show ?thesis unfolding tok_mail by (simp add: w' cnt_add is_token_def)
  qed
  show "view es (st_id s) ?t w' = view es (st_id s) ?t w"
    by (rule tstate_eqI) (simp_all add: view_simps tokn, simp_all add: w' cnt_add is_trigger_def is_sync_def is_complete_def)
qed

subsection \<open>Checks\<close>

text \<open>What is required by a node in the hands of an engine is checked.\<close>

lemma token_requires:
  assumes good: "good es n0 s w" and k: "k \<in> edge_nodes es" "0 < tok es (st_traversal s) w k" and e: "(k, k') \<in> edge_rel es"
  shows "Checked (st_traversal s) k' \<in> set (w_log w)"
proof -
  let ?v = "view es (st_id s) (st_traversal s) w"
  have k': "k' \<in> edge_nodes es" using edge_rel_nodes[OF e] by blast
  have "0 < ts_tok ?v k" using k by (simp add: view_simps)
  then have "0 < ts_pend ?v k + ts_trig ?v k" using ts_onceD(2)[OF goodD(6)[OF good] k(1)] by linarith
  from ts_causalD(1)[OF goodD(6)[OF good] k(1) this e] show ?thesis
    using k' by (simp add: view_simps) (metis count_list_0_iff less_numeral_extra(3))
qed

lemma holds_token:
  assumes th: "th \<in># w_threads w" "Check m s' r data \<in> set (th_todo th)" and tok: "token_ok es t (w_log w) m"
  shows "0 < tok es t w (msg_node es (w_log w) m)"
proof -
  have "is_token es t (w_log w) (msg_node es (w_log w) m) (Check m s' r data)" using tok by (simp add: is_token_def token_ok_def)
  then show ?thesis using holds_cnt[OF th] by (simp add: tok_mail)
qed

lemma check_ok_smooth:
  assumes good: "good es n0 s w" and th: "th \<in># w_threads w" "th_todo th = Check m s' r data # rest"
    and ex: "exec (CheckOk changed reference_id attrs uuid) (Check m s' r data) (th\<lparr>th_todo := rest\<rparr>) w = Some (w', th')"
  defines "w'' \<equiv> w'\<lparr>w_threads := add_mset th' (w_threads w - {#th#})\<rparr>"
  shows "ts_exact (edge_nodes es) (edge_rel es) (view es (st_id s) (st_traversal s) w) (view es (st_id s) (st_traversal s) w'')"
    "smooth_inv es n0 s w''" "\<forall>a \<in> set (th_todo th'). \<exists>c p. a = SyncRead c p" "w_inbox w' = w_inbox w"
proof -
  let ?t = "st_traversal s" and ?N = "edge_nodes es" and ?R = "edge_rel es"
  define k where "k = msg_node es (w_log w) m"
  note env = goodD(1)[OF good] and einv = goodD(2)[OF good] and inv = goodD(5)[OF good]
  have a: "smooth_action es ?t n0 s (w_log w) (Check m s' r data)"
    by (rule smooth_invD(1)[OF inv th(1)]) (simp add: th(2))
  then have s': "s' = s" and tok: "token_ok es ?t (w_log w) m"
    and row: "row_ready es (st_template s) k (m_rsrc m) r" and links: "links_ok n0 (w_log w) (m_rsrc m) r"
    by (simp_all add: k_def)
  note ex = ex[unfolded s'] and th = th[unfolded s']
  have m: "m_traversal m = ?t" and kN: "k \<in> ?N" and mk: "m_rsrc m = holder (w_log w) k" "m_update m = snd k"
    using tok by (simp_all add: token_ok_def k_def)
  have gk: "graph_key_of (dependencies es) (m_rsrc m) (m_update m) r = k"
    using graph_key_smooth[OF env tok row[unfolded k_def]] by (simp add: k_def)
  have root: "k \<in> preds ?N ?R ToStack \<longrightarrow> (m_rsrc m, m_update m) \<in> ?N"
  proof
    assume "k \<in> preds ?N ?R ToStack"
    then have "m_rsrc m = fst k" using row by (auto simp: row_ready_def preds_def)
    then show "(m_rsrc m, m_update m) \<in> ?N" using kN mk(2) by simp
  qed
  note steps = check_steps[OF einv th m ex, folded k_def w''_def]
  show "ts_exact ?N ?R (view es (st_id s) ?t w) (view es (st_id s) ?t w'')"
    unfolding steps(3)[OF gk kN root] by (rule ts_exact.check[OF kN steps(1)[OF kN]])
  define r' where "r' = (if m_update m then updated_row changed (st_template s) data r else r)"
  define input where "input = construct_input_data (m_rsrc m) r' reference_id attrs uuid"
  define rt where "rt = (if m_update m then rt_update (m_rsrc m) (updated_row changed (st_template s) data) (w_rsrcs w)
      else delete_convergence (m_rsrc m) r (st_template s) data (w_rsrcs w))"
  have deps: "convergence_dependencies s = dependencies es" by (simp add: convergence_dependencies_def goodD(4)[OF good])
  have w': "w' = w\<lparr>w_rsrcs := rt, w_log := Checked ?t k # w_log w\<rparr>"
    and th': "th' = (case initiate_propagate m s r' input of Inl _ \<Rightarrow> stop
      | Inr todo \<Rightarrow> \<lparr>th_handler = Propagating (m_rsrc m) (m_update m) (m_traversal m), th_todo = todo\<rparr>)"
    using ex m gk by (auto simp: Let_def deps r'_def input_def rt_def split: if_splits)
  show "w_inbox w' = w_inbox w" by (simp add: w')
  have todo: "\<exists>c p. a = SyncRead c p \<and> sa_traversal c = ?t \<and> (\<forall>s'. p = MarkStack s' \<longrightarrow> s' = s)" if "a \<in> set (th_todo th')" for a
  proof -
    obtain todo where eq: "initiate_propagate m s r' input = Inr todo" and a: "a \<in> set todo"
      using \<open>a \<in> set (th_todo th')\<close> unfolding th' by (auto split: sum.splits)
    show ?thesis using a unfolding initiate_todo(2)[OF eq refl refl]
      by (auto simp: propagate_check_resource_def check_stack_complete_def m split: if_splits)
  qed
  then show "\<forall>a \<in> set (th_todo th'). \<exists>c p. a = SyncRead c p" by blast
  have held: "0 < tok es ?t w k" using holds_token[of th w m s r data, OF th(1) _ tok] th(2) by (simp add: k_def)
  have earlier: "(k, k') \<in> ?R \<Longrightarrow> Checked ?t k' \<in> set (w_log w)" for k'
    by (rule token_requires[OF good kN held])
  have ready: "rows_ready es ?t (st_template s) (Checked ?t k # w_log w) rt"
    using rows_ready_check[OF good tok earlier[unfolded k_def] links rt_def] by (simp add: k_def)
  have lk: "links_ok n0 (w_log w) i q" if "(i, q) \<in> set (rt_rows rt)" for i q
  proof (cases "m_update m")
    case True
    show ?thesis by (rule links_update[OF smooth_invD(5)[OF inv], where f = "updated_row changed (st_template s) data"])
      (use that True in \<open>simp_all add: rt_def updated_row_def\<close>)
  next
    case False
    show ?thesis by (rule links_delete_convergence[OF smooth_invD(5)[OF inv]]) (use that False in \<open>simp_all add: rt_def\<close>)
  qed
  show "smooth_inv es n0 s w''"
    unfolding w''_def
  proof (rule smooth_frame[OF inv])
    show "plain_log (w_log w) (w_log w')" by (simp add: w' plain_log_event)
    show "smooth_action es ?t n0 s (w_log w') a" if "a \<in> set (th_todo th')" for a using todo[OF that] by auto
    show "if Completed ?t \<in> set (w_log w') then row_complete s (w_stack w') else w_stack w' = w_stack w"
      by (rule stack_kept[OF inv]) (simp_all add: w')
    show "set_mset (w_threads w - {#th#}) \<subseteq> set_mset (w_threads w)" by (auto dest: in_diffD)
  qed (use ready lk in \<open>simp_all add: w'\<close>)
qed


text \<open>A node is in the hands of one engine at most.\<close>

lemma other_token:
  assumes good: "good es n0 s w" and th: "th \<in># w_threads w" "is_token es (st_traversal s) (w_log w) k a0" "a0 \<in> set (th_todo th)"
    and k: "k \<in> edge_nodes es"
  shows "m' \<in># w_inbox w \<Longrightarrow> m_traversal m' = st_traversal s \<Longrightarrow> msg_node es (w_log w) m' \<noteq> k"
    "th2 \<in># w_threads w - {#th#} \<Longrightarrow> a \<in> set (th_todo th2) \<Longrightarrow> \<not> is_token es (st_traversal s) (w_log w) k a"
proof -
  let ?t = "st_traversal s" and ?P = "is_token es (st_traversal s) (w_log w) k"
  have "ts_tok (view es (st_id s) ?t w) k \<le> 1"
    using ts_onceD(1,2)[OF goodD(6)[OF good] k] by linarith
  then have "mail es ?t (w_log w) (w_inbox w) k + cost ?P th + cnt_rest ?P th w \<le> 1"
    using k by (simp add: view_simps tok_mail cnt_split[OF th(1)])
  moreover have "0 < cost ?P th" using th(2,3) by (auto simp: cost_def filter_empty_conv)
  ultimately have none: "mail es ?t (w_log w) (w_inbox w) k = 0" "cnt_rest ?P th w = 0" by linarith+
  show "m' \<in># w_inbox w \<Longrightarrow> m_traversal m' = ?t \<Longrightarrow> msg_node es (w_log w) m' \<noteq> k"
    using none(1) by (auto simp: mail_def filter_mset_eq_conv)
  show "th2 \<in># w_threads w - {#th#} \<Longrightarrow> a \<in> set (th_todo th2) \<Longrightarrow> \<not> ?P a"
    using none(2) by (auto simp: cnt_rest_def cost_def filter_empty_conv)
qed

lemma holder_replaced: "k' \<noteq> (i, True) \<Longrightarrow> holder (Replaced i j # hist) k' = holder hist k'"
  by (cases k') (auto simp: holder_def)

text \<open>What is held of other nodes does not see a replacement.\<close>

lemma token_replaced:
  assumes later: "later es t sid w w'" and log: "w_log w' = Replaced i j # w_log w" and m: "msg_ok es n0 w m"
    and tok: "token_ok es t (w_log w) m" and other: "msg_node es (w_log w) m \<noteq> (i, True)"
  shows "token_ok es t (w_log w') m" "msg_node es (w_log w') m = msg_node es (w_log w) m"
proof -
  show node: "msg_node es (w_log w') m = msg_node es (w_log w) m" by (rule msg_node_later[OF later m])
  show "token_ok es t (w_log w') m" using tok node by (simp add: token_ok_def log holder_replaced[OF other])
qed

lemma smooth_action_replaced:
  assumes later: "later es t sid w w'" and log: "w_log w' = Replaced i j # w_log w" and ok: "action_ok es t sid n0 w a"
    and a: "smooth_action es t n0 s (w_log w) a" and other: "\<not> is_token es t (w_log w) (i, True) a"
  shows "smooth_action es t n0 s (w_log w') a"
proof -
  note token = token_replaced[OF later log, of n0]
  have sub: "set (w_log w) \<subseteq> set (w_log w')" by (auto simp: log)
  show ?thesis
  proof (cases a)
    case (Check m s' r data)
    then have m: "msg_ok es n0 w m" "token_ok es t (w_log w) m" "msg_node es (w_log w) m \<noteq> (i, True)"
      using a ok other by (auto simp: token_ok_def is_token_def)
    show ?thesis using a token[OF m] links_ok_mono[OF sub] unfolding Check by simp
  next
    case (Recast m)
    then have m: "msg_ok es n0 w m" "token_ok es t (w_log w) m" "msg_node es (w_log w) m \<noteq> (i, True)"
      using a ok other by (auto simp: token_ok_def is_token_def)
    show ?thesis using token[OF m] unfolding Recast by simp
  qed (use a sub in auto)
qed

text \<open>The tables after a replacement.\<close>

lemma replacement_rows:
  assumes good: "good es n0 s w" and r: "rt_get (w_rsrcs w) i = Some r0"
    and mk: "make_replacement i r (st_template s) (w_rsrcs w) = (j, rt)" and e: "((i, False), (i, True)) \<in> edge_rel es"
  shows "rows_ready es (st_traversal s) (st_template s) (Replaced i j # w_log w) rt"
    "(i', q) \<in> set (rt_rows rt) \<Longrightarrow> links_ok n0 (Replaced i j # w_log w) i' q"
proof -
  let ?new = "r\<lparr>rs_action := RsrcInit, rs_status := ''COMPLETE'', rs_template := st_template s, rs_replaces := Some i, rs_replaced_by := None\<rparr>"
  let ?f = "\<lambda>r. r\<lparr>rs_status := ''COMPLETE'', rs_replaced_by := Some j\<rparr>"
  have rows: "rows_ok n0 (w_log w) (w_rsrcs w)" using goodD(1)[OF good] by (simp add: env_ok_def)
  note inv = goodD(5)[OF good]
  have j: "j = rt_next (w_rsrcs w)" by (rule rows_ok_make_replacement(3)[OF rows mk])
  have rt: "rt = rt_update i ?f (snd (rt_insert ?new (w_rsrcs w)))"
    using mk j by (auto simp: make_replacement_def Let_def rt_insert_def)
  have lt: "i' < j" if "rt_get (w_rsrcs w) i' = Some q" for i' q
    using that rows unfolding rt_get_def rows_ok_def j by (auto dest: map_of_SomeD)
  have get: "rt_get rt i' = (if i' = j then Some ?new else if i' = i then map_option ?f (rt_get (w_rsrcs w) i) else rt_get (w_rsrcs w) i')" for i'
    using lt[OF r] by (simp add: rt rt_get_update rt_get_insert[OF rows] j)
  show "rows_ready es (st_traversal s) (st_template s) (Replaced i j # w_log w) rt"
    unfolding rows_ready_def
  proof (intro ballI impI)
    fix k assume k: "k \<in> edge_nodes es" and fresh: "Checked (st_traversal s) k \<notin> set (Replaced i j # w_log w)"
    show "\<exists>q. rt_get rt (holder (Replaced i j # w_log w) k) = Some q \<and> row_ready es (st_template s) k (holder (Replaced i j # w_log w) k) q"
    proof (cases "k = (i, True)")
      case True
      then have "holder (Replaced i j # w_log w) k = j" by (simp add: holder_def)
      then show ?thesis using e True by (simp add: get row_ready_def)
    next
      case False
      obtain q where q: "rt_get (w_rsrcs w) (holder (w_log w) k) = Some q" "row_ready es (st_template s) k (holder (w_log w) k) q"
        using smooth_invD(4)[OF inv] k fresh unfolding rows_ready_def by auto
      have h: "holder (Replaced i j # w_log w) k = holder (w_log w) k" by (rule holder_replaced[OF False])
      show ?thesis
      proof (cases "holder (w_log w) k = i")
        case True
        have "holder (w_log w) (i, False) = i" by (simp add: holder_def)
        then have "fst k = i" using holder_inj[OF good k, of "(i, False)"] True edge_rel_nodes[OF e] by simp
        then have "k = (i, False)" using False by (cases k) auto
        then show ?thesis using lt[OF q(1)] q(1) True h by (simp add: get row_ready_def)
      next
        case False
        then show ?thesis using q lt[OF q(1)] by (simp add: h get)
      qed
    qed
  qed
  assume "(i', q) \<in> set (rt_rows rt)"
  then have "(i', q) = (j, ?new) \<or> (\<exists>q0. (i', q0) \<in> set (rt_rows (w_rsrcs w)) \<and> q = (if i' = i then ?f q0 else q0))"
    using lt[OF r] by (auto simp: rt rt_update_def rt_insert_def j)
  then show "links_ok n0 (Replaced i j # w_log w) i' q"
    using smooth_invD(5)[OF inv] by (auto simp: links_ok_def split: if_splits)
qed


lemma check_replace_smooth:
  assumes good: "good es n0 s w" and th: "th \<in># w_threads w" "th_todo th = Check m s' r data # rest"
    and ex: "exec CheckReplace (Check m s' r data) (th\<lparr>th_todo := rest\<rparr>) w = Some (w', th')"
  defines "w'' \<equiv> w'\<lparr>w_threads := add_mset th' (w_threads w - {#th#})\<rparr>"
  shows "view es (st_id s) (st_traversal s) w'' = view es (st_id s) (st_traversal s) w" "smooth_inv es n0 s w''"
    "m_rsrc m < n0" "\<exists>m'. n0 \<le> m_rsrc m' \<and> th' = continue [Recast m']" "w_inbox w' = w_inbox w"
proof -
  let ?t = "st_traversal s" and ?N = "edge_nodes es" and ?R = "edge_rel es"
  define k where "k = msg_node es (w_log w) m"
  define i where "i = m_rsrc m"
  note env = goodD(1)[OF good] and einv = goodD(2)[OF good] and inv = goodD(5)[OF good]
  have a: "smooth_action es ?t n0 s (w_log w) (Check m s' r data)"
    by (rule smooth_invD(1)[OF inv th(1)]) (simp add: th(2))
  then have s': "s' = s" and tok: "token_ok es ?t (w_log w) m"
    and row: "row_ready es (st_template s) k i r" by (simp_all add: k_def i_def)
  note ex = ex[unfolded s'] and th = th[unfolded s']
  have u: "m_update m" "rs_action r \<noteq> RsrcInit" using ex by (auto split: if_splits)
  have m: "m_traversal m = ?t" and kN: "k \<in> ?N" and mk: "i = holder (w_log w) k" "m_update m = snd k"
    using tok by (simp_all add: token_ok_def k_def i_def)
  have k: "k = (i, True)" using row u mk(2) by (auto simp: row_ready_def prod_eq_iff)
  have e: "((i, False), (i, True)) \<in> ?R" using row u(2) unfolding k by (auto simp: row_ready_def)
  obtain j rt where mr: "make_replacement i r (st_template s) (w_rsrcs w) = (j, rt)" by fastforce
  have w': "w' = w\<lparr>w_rsrcs := rt, w_log := Replaced i j # w_log w\<rparr>"
    and th': "th' = continue [Recast (replacement_msg m j data)]" using ex mr by (auto simp: i_def split: if_splits)
  show "w_inbox w' = w_inbox w" by (simp add: w')
  have "m_update m \<and> (m_rsrc m, m_update m) \<in> ?N" using u(1) kN k by (simp add: i_def)
  then show "view es (st_id s) ?t w'' = view es (st_id s) ?t w"
    unfolding w''_def using replace_view(2)[OF einv th ex] by blast
  note f = run_facts[OF einv th ex]
  have mok: "msg_ok es n0 w m" using f(2) m by simp
  have rows: "rows_ok n0 (w_log w) (w_rsrcs w)" "n0 \<le> rt_next (w_rsrcs w)" "fst k < n0" using env kN by (simp_all add: env_ok_def)
  have j: "j = rt_next (w_rsrcs w)" by (rule rows_ok_make_replacement(3)[OF rows(1) mr])
  show "m_rsrc m < n0" using rows(3) k by (simp add: i_def)
  show "\<exists>m'. n0 \<le> m_rsrc m' \<and> th' = continue [Recast m']" 
    by (rule exI[of _ "replacement_msg m j data"]) (use rows(2) th' in \<open>simp add: replacement_msg_def j\<close>)
  have held: "Check m s r data \<in> set (th_todo th)" "is_token es ?t (w_log w) k (Check m s r data)"
    using th(2) m by (simp_all add: is_token_def k_def)
  note fresh = check_fresh[OF good th(1) held(1)]
  obtain r0 where r0: "rt_get (w_rsrcs w) i = Some r0"
    using smooth_invD(4)[OF inv] kN fresh(1) unfolding rows_ready_def mk(1) k_def by blast
  note tables = replacement_rows[OF good r0 mr e]
  note other = other_token[OF good th(1) held(2,1) kN, unfolded k]
  have acts: "smooth_action es ?t n0 s (w_log w') a" if "th2 \<in># w_threads w - {#th#}" "a \<in> set (th_todo th2)" for th2 a
  proof (rule smooth_action_replaced[OF f(4)])
    have th2: "th2 \<in># w_threads w" using that(1) by (rule in_diffD)
    then show "action_ok es ?t (st_id s) n0 w a" using einv that(2) by (auto simp: engine_inv_def thread_ok_def)
    show "smooth_action es ?t n0 s (w_log w) a" by (rule smooth_invD(1)[OF inv th2 that(2)])
    show "\<not> is_token es ?t (w_log w) (i, True) a" by (rule other(2)[OF that])
  qed (simp add: w')
  have node: "msg_node es (w_log w') (replacement_msg m j data) = (i, True)"
    using replaced_node[OF mr[unfolded i_def] env mok] u(1) by (simp add: w' i_def)
  then have new: "token_ok es ?t (w_log w') (replacement_msg m j data)"
    using kN k m u(1) by (simp add: token_ok_def replacement_msg_def w' holder_def)
  have mail: "token_ok es ?t (w_log w') m'" if "m' \<in># w_inbox w" for m'
  proof (rule token_replaced(1)[OF f(4)])
    show tm: "token_ok es ?t (w_log w) m'" by (rule smooth_invD(2)[OF inv that])
    then have trv: "m_traversal m' = ?t" by (simp add: token_ok_def)
    then show "msg_ok es n0 w m'" using env that by (simp add: env_ok_def)
    show "msg_node es (w_log w) m' \<noteq> (i, True)" by (rule other(1)[OF that trv])
  qed (simp add: w')
  have "0 < tok es ?t w k" using holds_token[OF th(1) held(1) tok] by (simp add: k_def)
  then have "0 < ts_tok (view es (st_id s) ?t w) k" using kN by (simp add: view_simps)
  then have "0 < ts_trig (view es (st_id s) ?t w) k" using ts_onceD(2)[OF goodD(6)[OF good] kN] by linarith
  then have trig: "Triggered ?t (i, True) \<in> set (w_log w)"
    using kN k by (simp add: view_simps) (metis count_list_0_iff less_numeral_extra(3))
  have old: "Replaced i' j' \<in> set (w_log w) \<Longrightarrow> origin (Replaced i j # w_log w) j' = Some i'" for i' j'
    using smooth_invD(6)[OF inv, of i' j'] env by (auto simp: env_ok_def j)
  have comp: "Completed ?t \<in> set (w_log w'') \<longleftrightarrow> Completed ?t \<in> set (w_log w)" by (simp add: w''_def w')
  show "smooth_inv es n0 s w''"
    unfolding smooth_inv_def Let_def comp
  proof (intro conjI ballI allI impI)
    fix th2 a assume "th2 \<in># w_threads w''" "a \<in> set (th_todo th2)"
    then consider "th2 = th'" "a \<in> set (th_todo th')" | "th2 \<in># w_threads w - {#th#}" "a \<in> set (th_todo th2)"
      by (auto simp: w''_def)
    then show "smooth_action es ?t n0 s (w_log w'') a"
    proof cases
      case 1
      then show ?thesis using new by (auto simp: th' continue_def w''_def)
    next
      case 2
      then show ?thesis using acts[OF 2] by (simp add: w''_def)
    qed
  next
    show "m' \<in># w_inbox w'' \<Longrightarrow> token_ok es ?t (w_log w'') m'" for m' using mail by (simp add: w''_def w')
    show "Completed ?t \<notin> set (w_log w) \<Longrightarrow> w_stack w'' = Some s" using smooth_invD(3)[OF inv] by (simp add: w''_def w')
    show "Completed ?t \<in> set (w_log w) \<Longrightarrow> row_complete s (w_stack w'')" using smooth_invD(9)[OF inv] by (simp add: w''_def w')
    show "rows_ready es ?t (st_template s) (w_log w'') (w_rsrcs w'')" using tables(1) by (simp add: w''_def w')
    show "x \<in> set (rt_rows (w_rsrcs w'')) \<Longrightarrow> case x of (i', q) \<Rightarrow> links_ok n0 (w_log w'') i' q" for x
      using tables(2) by (cases x) (simp add: w''_def w')
    show "Replaced i' j' \<in> set (w_log w'') \<Longrightarrow> origin (w_log w'') j' = Some i'" for i' j'
      using old[of i' j'] by (auto simp: w''_def w')
    show "Replaced i' j' \<in> set (w_log w'') \<Longrightarrow> Triggered ?t (i', True) \<in> set (w_log w'')" for i' j'
      using smooth_invD(7)[OF inv] trig by (auto simp: w''_def w')
  qed (rule smooth_invD(8)[OF inv])
qed


subsection \<open>Notices\<close>

text \<open>While a notice is owed, its sync point is there.\<close>

lemma owed_point:
  assumes good: "good es n0 s w" and th: "th \<in># w_threads w" "a \<in> set (th_todo th)"
    and a: "(\<exists>ak d. a = SyncWrite c p ak d) \<or> a = SyncRead c p" and c: "sa_traversal c = st_traversal s"
  shows "\<exists>sp. w_points w (call_key c) = Some sp \<and> point_ok (st_id s) sp" "Completed (st_traversal s) \<notin> set (w_log w)"
proof -
  let ?t = "st_traversal s" and ?N = "edge_nodes es" and ?R = "edge_rel es" and ?x = "target_of c" and ?k = "sa_key c"
  let ?v = "view es (st_id s) ?t w"
  have "action_ok es ?t (st_id s) n0 w a" using goodD(2)[OF good] th by (auto simp: engine_inv_def thread_ok_def)
  then have call: "call_ok es ?t (st_id s) c p" using a by auto
  have k: "?k \<in> preds ?N ?R ?x" using call c unfolding call_ok_def by blast
  then have kN: "?k \<in> ?N" and xt: "?x \<in> targets es"
    using preds_in[OF goodD(3)[OF good]] preds_target by blast+
  have "is_sync ?t ?k ?x a" using a c by (auto simp: is_sync_def)
  then have "0 < cnt (is_sync ?t ?k ?x) w" by (rule holds_cnt[OF th])
  then have debt: "0 < ts_debt ?v ?k ?x" using kN by (simp add: view_simps)
  have comp: "ts_comp ?v = 0" using ts_causalD(4)[OF goodD(6)[OF good] _ kN, of ?x] debt by fastforce
  then show "Completed ?t \<notin> set (w_log w)" by (simp add: view_simps count_list_0_iff)
  have "ts_live ?v" using balancedD(5)[OF goodD(7)[OF good]] comp by linarith
  then have live: "w_points w (point_key (st_id s) ?t ToStack) \<noteq> None" by (simp add: view_simps)
  have pts: "points_ok es ?t (st_id s) (w_points w)" using goodD(1)[OF good] by (simp add: env_ok_def)
  have "w_points w (call_key c) \<noteq> None"
    using pts live xt unfolding points_ok_def call_key_point[OF call c] by metis
  then obtain sp where sp: "w_points w (call_key c) = Some sp" by blast
  then have "point_ok (st_id s) sp" using pts xt unfolding points_ok_def call_key_point[OF call c] by blast
  with sp show "\<exists>sp. w_points w (call_key c) = Some sp \<and> point_ok (st_id s) sp" by blast
qed

lemma stack_kept_log:
  "smooth_inv es n0 s w \<Longrightarrow> w_stack w' = w_stack w \<Longrightarrow> w_log w' = w_log w \<Longrightarrow>
   if Completed (st_traversal s) \<in> set (w_log w') then row_complete s (w_stack w') else w_stack w' = w_stack w"
  by (rule stack_kept) simp_all

lemma read_smooth:
  assumes good: "good es n0 s w" and th: "th \<in># w_threads w" "th_todo th = SyncRead c p # rest"
    and ex: "exec ch (SyncRead c p) (th\<lparr>th_todo := rest\<rparr>) w = Some (w', th')"
  defines "w'' \<equiv> w'\<lparr>w_threads := add_mset th' (w_threads w - {#th#})\<rparr>"
  shows "view es (st_id s) (st_traversal s) w'' = view es (st_id s) (st_traversal s) w" "smooth_inv es n0 s w''" "w' = w"
    "\<exists>ak d. th_todo th' = SyncWrite c p ak d # rest \<and> map_option sp_atomic_key (w_points w (call_key c)) = Some ak"
proof -
  let ?t = "st_traversal s"
  note einv = goodD(2)[OF good] and inv = goodD(5)[OF good]
  have a: "smooth_action es ?t n0 s (w_log w) (SyncRead c p)"
    by (rule smooth_invD(1)[OF inv th(1)]) (simp add: th(2))
  then have c: "sa_traversal c = ?t" by simp
  obtain sp d0 where sp: "w_points w (call_key c) = Some sp" "deserialize_input_data (sp_input_data sp) = Inr d0"
    using owed_point(1)[OF good th(1), of "SyncRead c p" c p] th(2) c by (auto simp: point_ok_def)
  then have "sync_read (w_points w) c = Inr (sp_atomic_key sp, AList.update (KTuple (sa_key c)) (sa_data c) d0)"
    by (simp add: sync_read_def sp_get_def call_key_def)
  then have th': "th' = th\<lparr>th_todo := SyncWrite c p (sp_atomic_key sp) (AList.update (KTuple (sa_key c)) (sa_data c) d0) # rest\<rparr>"
    and w': "w' = w" using ex by (simp_all add: exec_sync_read_def)
  show "w' = w" by (rule w')
  show "\<exists>ak d. th_todo th' = SyncWrite c p ak d # rest \<and> map_option sp_atomic_key (w_points w (call_key c)) = Some ak"
    using sp(1) by (simp add: th')
  show "view es (st_id s) ?t w'' = view es (st_id s) ?t w"
    unfolding w''_def
    by (rule run_same[OF einv th(1) run_facts(4)[OF einv th ex]])
      (auto simp: w' th' cost_def th(2) is_trigger_def is_token_def is_sync_def is_complete_def)
  show "smooth_inv es n0 s w''"
    unfolding w''_def
  proof (rule smooth_frame_rows[OF inv])
    show "if Completed ?t \<in> set (w_log w') then row_complete s (w_stack w') else w_stack w' = w_stack w"
      by (rule stack_kept_log[OF inv]) (simp_all add: w')
    fix b assume "b \<in> set (th_todo th')"
    then show "smooth_action es ?t n0 s (w_log w') b"
      using a smooth_invD(1)[OF inv th(1), of b] by (auto simp: th' th(2) w')
  qed (auto simp: w' dest: in_diffD)
qed

lemma write_smooth:
  assumes good: "good es n0 s w" and th: "th \<in># w_threads w" "th_todo th = SyncWrite c p ak d # rest"
    and ex: "exec ch (SyncWrite c p ak d) (th\<lparr>th_todo := rest\<rparr>) w = Some (w', th')"
  defines "w'' \<equiv> w'\<lparr>w_threads := add_mset th' (w_threads w - {#th#})\<rparr>"
  shows "ts_exact (edge_nodes es) (edge_rel es) (view es (st_id s) (st_traversal s) w) (view es (st_id s) (st_traversal s) w'')"
    "smooth_inv es n0 s w''"
    "w_points w' \<noteq> w_points w \<or> w' = w \<and> th_todo th' = SyncRead c p # rest \<and>
       view es (st_id s) (st_traversal s) w'' = view es (st_id s) (st_traversal s) w \<and>
       map_option sp_atomic_key (w_points w (call_key c)) \<noteq> Some ak"
proof -
  let ?t = "st_traversal s"
  note einv = goodD(2)[OF good] and inv = goodD(5)[OF good]
  have a: "smooth_action es ?t n0 s (w_log w) (SyncWrite c p ak d)"
    by (rule smooth_invD(1)[OF inv th(1)]) (simp add: th(2))
  then have c: "sa_traversal c = ?t" by simp
  obtain x where wr: "sync_write (w_points w) c ak d = Inr x"
    using write_refused(1)[OF einv th ex] c by (cases "sync_write (w_points w) c ak d") blast+
  have w': "w_log w' = w_log w" "w_inbox w' = w_inbox w" "w_stack w' = w_stack w" "w_rsrcs w' = w_rsrcs w"
    using ex by (auto simp: exec_sync_write_def split: prod.splits if_splits sum.splits)
  show "ts_exact (edge_nodes es) (edge_rel es) (view es (st_id s) ?t w) (view es (st_id s) ?t w'')"
  proof (cases "w_points w' = w_points w")
    case True
    show ?thesis unfolding w''_def write_same(3)[OF einv th ex True wr] by (rule ts_exact.stutter)
  next
    case False
    show ?thesis unfolding w''_def by (rule write_exact[OF einv th c ex False])
  qed
  show "w_points w' \<noteq> w_points w \<or> w' = w \<and> th_todo th' = SyncRead c p # rest \<and>
       view es (st_id s) ?t w'' = view es (st_id s) ?t w \<and> map_option sp_atomic_key (w_points w (call_key c)) \<noteq> Some ak"
  proof (cases "w_points w' = w_points w")
    case True
    note same = write_same[OF einv th ex True wr]
    have "map_option sp_atomic_key (w_points w (call_key c)) \<noteq> Some ak"
    proof
      assume "map_option sp_atomic_key (w_points w (call_key c)) = Some ak"
      then obtain sp where sp: "w_points w (call_key c) = Some sp" "sp_atomic_key sp = ak" by blast
      then have "sp_atomic_key (the (w_points w' (call_key c))) = ak + 1"
        using ex wr
        by (auto simp: exec_sync_write_def sync_write_def json_column_def sp_update_input_data_def call_key_def Let_def
            split: if_splits)
      then show False using sp True by simp
    qed
    then show ?thesis using same by (simp add: w''_def)
  qed simp
  have ok: "call_ok es ?t (st_id s) c p" using run_facts(2)[OF einv th ex] by simp
  have "b \<in> set rest \<or> b = SyncRead c p \<or> (\<exists>m. b = Trigger m \<and> m_traversal m = ?t) \<or> b = MarkComplete s"
    if "b \<in> set (th_todo th')" for b
    using that ex a c wr by (auto simp: exec_sync_write_def after_sync_def
        split: prod.splits if_splits propagate.splits entity.splits)
  then have acts: "smooth_action es ?t n0 s (w_log w') b" if "b \<in> set (th_todo th')" for b
    using that smooth_invD(1)[OF inv th(1), of b] a by (force simp: th(2) w')
  show "smooth_inv es n0 s w''"
    unfolding w''_def
  proof (rule smooth_frame_rows[OF inv _ acts])
    show "if Completed ?t \<in> set (w_log w') then row_complete s (w_stack w') else w_stack w' = w_stack w"
      by (rule stack_kept_log[OF inv]) (simp_all add: w')
  qed (auto simp: w' dest: in_diffD)
qed


subsection \<open>Triggers and the end\<close>

lemma pos_count: "0 < count_list hist e \<longleftrightarrow> e \<in> set hist"
  by (metis count_list_0_iff gr0I less_numeral_extra(3))

lemma smooth_rest:
  assumes "smooth_inv es n0 s w" "th \<in># w_threads w" "th_todo th = a # rest"
  shows "smooth_action es (st_traversal s) n0 s (w_log w) a" "b \<in> set rest \<Longrightarrow> smooth_action es (st_traversal s) n0 s (w_log w) b"
  by (rule smooth_invD(1)[OF assms(1,2)], simp add: assms(3))+

lemma trigger_smooth:
  assumes good: "good es n0 s w" and th: "th \<in># w_threads w" "th_todo th = Trigger m # rest"
    and ex: "exec ch (Trigger m) (th\<lparr>th_todo := rest\<rparr>) w = Some (w', th')"
  defines "w'' \<equiv> w'\<lparr>w_threads := add_mset th' (w_threads w - {#th#})\<rparr>"
  shows "ts_exact (edge_nodes es) (edge_rel es) (view es (st_id s) (st_traversal s) w) (view es (st_id s) (st_traversal s) w'')"
    "smooth_inv es n0 s w''"
proof -
  let ?t = "st_traversal s" and ?p = "(m_rsrc m, m_update m)"
  note einv = goodD(2)[OF good] and inv = goodD(5)[OF good]
  have m: "m_traversal m = ?t" using smooth_rest(1)[OF inv th] by simp
  show "ts_exact (edge_nodes es) (edge_rel es) (view es (st_id s) ?t w) (view es (st_id s) ?t w'')"
    unfolding w''_def by (rule trigger_exact[OF einv th m ex])
  have p: "?p \<in> edge_nodes es" using run_facts(2)[OF einv th ex] m by simp
  have w': "w' = w\<lparr>w_inbox := add_mset m (w_inbox w), w_log := Triggered ?t ?p # w_log w\<rparr>"
    and th': "th' = th\<lparr>th_todo := rest\<rparr>" using ex m by simp_all
  have "0 < cnt (is_trigger ?t ?p) w"
    by (rule holds_cnt[OF th(1), of "Trigger m"]) (simp_all add: th(2) is_trigger_def m)
  then have "0 < ts_pend (view es (st_id s) ?t w) ?p" using p by (simp add: view_simps)
  then have "ts_trig (view es (st_id s) ?t w) ?p = 0" using ts_onceD(1)[OF goodD(6)[OF good] p] by linarith
  then have "Triggered ?t ?p \<notin> set (w_log w)" using p by (simp add: view_simps count_list_0_iff)
  then have "m_update m \<Longrightarrow> replaced (w_log w) (m_rsrc m) = None"
    using smooth_invD(7)[OF inv] replaced_in by (metis not_Some_eq)
  then have "holder (w_log w) ?p = m_rsrc m" by (simp add: holder_def)
  then have new: "token_ok es ?t (w_log w) m" using p m by (simp add: token_ok_def msg_node_def)
  have log: "plain_log (w_log w) (w_log w')" by (simp add: w' plain_log_event)
  show "smooth_inv es n0 s w''"
    unfolding w''_def
  proof (rule smooth_frame_rows[OF inv log])
    show "if Completed ?t \<in> set (w_log w') then row_complete s (w_stack w') else w_stack w' = w_stack w"
      by (rule stack_kept[OF inv]) (simp_all add: w')
    show "a \<in> set (th_todo th') \<Longrightarrow> smooth_action es ?t n0 s (w_log w') a" for a
      using plain_logD(7)[OF log] smooth_rest(2)[OF inv th, of a] by (simp add: th')
  qed (use new in \<open>auto simp: w' dest: in_diffD\<close>)
qed

lemma recast_smooth:
  assumes good: "good es n0 s w" and th: "th \<in># w_threads w" "th_todo th = Recast m # rest"
    and ex: "exec ch (Recast m) (th\<lparr>th_todo := rest\<rparr>) w = Some (w', th')"
  defines "w'' \<equiv> w'\<lparr>w_threads := add_mset th' (w_threads w - {#th#})\<rparr>"
  shows "view es (st_id s) (st_traversal s) w'' = view es (st_id s) (st_traversal s) w" "smooth_inv es n0 s w''"
proof -
  let ?t = "st_traversal s"
  note einv = goodD(2)[OF good] and inv = goodD(5)[OF good]
  show "view es (st_id s) ?t w'' = view es (st_id s) ?t w" unfolding w''_def by (rule recast_same[OF einv th ex])
  have w': "w' = w\<lparr>w_inbox := add_mset m (w_inbox w)\<rparr>" and th': "th' = th\<lparr>th_todo := rest\<rparr>" using ex by simp_all
  show "smooth_inv es n0 s w''"
    unfolding w''_def
  proof (rule smooth_frame_rows[OF inv])
    show "if Completed ?t \<in> set (w_log w') then row_complete s (w_stack w') else w_stack w' = w_stack w"
      by (rule stack_kept_log[OF inv]) (simp_all add: w')
  qed (use smooth_rest[OF inv th] in \<open>auto simp: w' th' dest: in_diffD\<close>)
qed

text \<open>The state is written under the traversal, which is the current one.\<close>

lemma state_set_row:
  assumes "traversal_action (st_action s)"
  shows "snd (state_set s COMPLETE (Some s)) = Some (s\<lparr>st_status := COMPLETE\<rparr>)"
  using assms by (auto simp: traversal_action_def state_set_def persist_state_def stack_update_def Let_def)

lemma complete_smooth:
  assumes good: "good es n0 s w" and th: "th \<in># w_threads w" "th_todo th = MarkComplete s' # rest"
    and ex: "exec ch (MarkComplete s') (th\<lparr>th_todo := rest\<rparr>) w = Some (w', th')"
  defines "w'' \<equiv> w'\<lparr>w_threads := add_mset th' (w_threads w - {#th#})\<rparr>"
  shows "ts_exact (edge_nodes es) (edge_rel es) (view es (st_id s) (st_traversal s) w) (view es (st_id s) (st_traversal s) w'')"
    "smooth_inv es n0 s w''" "\<exists>new. th_todo th' = new @ rest \<and> (new = [] \<or> new = purge_db (s\<lparr>st_status := COMPLETE\<rparr>))"
    "w_inbox w' = w_inbox w"
proof -
  let ?t = "st_traversal s"
  note einv = goodD(2)[OF good] and inv = goodD(5)[OF good]
  have s': "s' = s" using smooth_rest(1)[OF inv th] by simp
  note th = th[unfolded s'] and ex = ex[unfolded s']
  show ex': "ts_exact (edge_nodes es) (edge_rel es) (view es (st_id s) ?t w) (view es (st_id s) ?t w'')"
    unfolding w''_def by (rule complete_exact[OF einv th refl ex])
  have "0 < cnt (is_complete ?t) w"
    by (rule holds_cnt[OF th(1), of "MarkComplete s"]) (simp_all add: th(2) is_complete_def)
  then have "count_list (w_log w) (Completed ?t) = 0"
    using ts_onceD(4)[OF goodD(6)[OF good]] by (simp add: view_simps)
  then have row: "w_stack w = Some s" using smooth_invD(3)[OF inv] by (simp add: count_list_0_iff)
  obtain new where new: "new = [] \<or> new = purge_db (s\<lparr>st_status := COMPLETE\<rparr>)" "th_todo th' = new @ rest"
    and w': "w' = w\<lparr>w_stack := snd (state_set s COMPLETE (w_stack w)), w_log := Completed ?t # w_log w\<rparr>"
    using ex by (auto simp: exec_mark_complete_def split: prod.splits if_splits)
  then show "\<exists>new. th_todo th' = new @ rest \<and> (new = [] \<or> new = purge_db (s\<lparr>st_status := COMPLETE\<rparr>))" by blast
  show "w_inbox w' = w_inbox w" by (simp add: w')
  have log: "plain_log (w_log w) (w_log w')" by (simp add: w' plain_log_event)
  have purge: "b \<in> set (purge_db (s\<lparr>st_status := COMPLETE\<rparr>)) \<Longrightarrow> smooth_action es ?t n0 s (w_log w') b" for b
    by (auto simp: purge_db_def w' split: if_splits)
  show "smooth_inv es n0 s w''"
    unfolding w''_def
  proof (rule smooth_frame_rows[OF inv log])
    show "if Completed ?t \<in> set (w_log w') then row_complete s (w_stack w') else w_stack w' = w_stack w"
      using state_set_row[of s] by (simp add: w' row row_complete_def)
    show "a \<in> set (th_todo th') \<Longrightarrow> smooth_action es ?t n0 s (w_log w') a" for a
      using new purge plain_logD(7)[OF log] smooth_rest(2)[OF inv th, of a] by auto
  qed (auto simp: w' dest: in_diffD)
qed

text \<open>When the stack is complete nothing is left to lose.\<close>

lemma complete_quiet:
  assumes good: "good es n0 s w" and comp: "Completed (st_traversal s) \<in> set (w_log w)"
    and lost: "ts_lost (view es (st_id s) (st_traversal s) w) v'"
  shows "v' = view es (st_id s) (st_traversal s) w"
proof -
  let ?v = "view es (st_id s) (st_traversal s) w" and ?N = "edge_nodes es"
  note C = ts_causalD[OF goodD(6)[OF good]] and O = ts_onceD[OF goodD(6)[OF good]]
  have "0 < ts_comp ?v" using comp by (simp add: view_simps pos_count)
  then have pos: "0 < ts_cpend ?v + ts_comp ?v" and "ts_cpend ?v = 0" using O(4) by simp_all
  have zero: "ts_pend ?v k = 0 \<and> ts_tok ?v k = 0 \<and> (\<forall>x. ts_debt ?v k x = 0)" for k
  proof (cases "k \<in> ?N")
    case True
    have "ts_done ?v k = 1" by (rule C(3)[OF pos True])
    then have "ts_pend ?v k = 0" "ts_tok ?v k = 0" using O(1,2)[OF True] by linarith+
    then show ?thesis using C(4)[OF pos True] by blast
  qed (simp add: view_simps)
  have le: "ts_pend v' k \<le> ts_pend ?v k" "ts_tok v' k \<le> ts_tok ?v k" "ts_debt v' k x \<le> ts_debt ?v k x"
    "ts_cpend v' \<le> ts_cpend ?v" and eq: "ts_trig v' = ts_trig ?v" "ts_done v' = ts_done ?v" "ts_arrived v' = ts_arrived ?v"
    "ts_live v' = ts_live ?v" "ts_comp v' = ts_comp ?v" for k x
    using lost unfolding ts_lost_def by blast+
  show ?thesis
    by (rule tstate_eqI) (use le zero \<open>ts_cpend ?v = 0\<close> in \<open>simp_all add: eq\<close>)
qed


fun purging :: "action \<Rightarrow> bool" where
  "purging (PurgeStore s) = True"
| "purging (DeletePoints sid trv) = True"
| "purging (DeleteStack s) = True"
| "purging _ = False"

lemma purge_smooth:
  assumes good: "good es n0 s w" and th: "th \<in># w_threads w" "th_todo th = a # rest" and a: "purging a"
    and ch: "smooth_choice ch" and ex: "exec ch a (th\<lparr>th_todo := rest\<rparr>) w = Some (w', th')"
  defines "w'' \<equiv> w'\<lparr>w_threads := add_mset th' (w_threads w - {#th#})\<rparr>"
  shows "ts_exact (edge_nodes es) (edge_rel es) (view es (st_id s) (st_traversal s) w) (view es (st_id s) (st_traversal s) w'')"
    "smooth_inv es n0 s w''" "th_todo th' = rest \<or> th_todo th' = []" "w_inbox w' = w_inbox w"
proof -
  let ?t = "st_traversal s" and ?N = "edge_nodes es" and ?R = "edge_rel es"
  note einv = goodD(2)[OF good] and inv = goodD(5)[OF good]
  have comp: "Completed ?t \<in> set (w_log w)" using smooth_rest(1)[OF inv th] a by (cases a) auto
  have row: "row_complete s (w_stack w)" by (rule smooth_invD(9)[OF inv comp])
  have w': "w_log w' = w_log w" "w_inbox w' = w_inbox w" "w_rsrcs w' = w_rsrcs w" "row_complete s (w_stack w')"
    and th': "th_todo th' = rest \<or> th_todo th' = []"
    using a ch ex row smooth_rest(1)[OF inv th]
    by (cases a; auto simp: row_complete_def stack_store_def stack_update_def split: prod.splits if_splits option.splits)+
  show "th_todo th' = rest \<or> th_todo th' = []" "w_inbox w' = w_inbox w" by (rule th', rule w'(2))
  show "ts_exact ?N ?R (view es (st_id s) ?t w) (view es (st_id s) ?t w'')"
  proof (cases "\<exists>sid' trv. a = DeletePoints sid' trv")
    case True
    then obtain sid' trv where a: "a = DeletePoints sid' trv" by blast
    have "0 < ts_comp (view es (st_id s) ?t w)" using comp by (simp add: view_simps pos_count)
    then show ?thesis
      using delete_steps[OF einv th[unfolded a] ex[unfolded a], folded w''_def] ts_exact.purge ts_exact.stutter
      by (cases "sid' = st_id s \<and> trv = ?t") auto
  next
    case False
    then have "w_points w' = w_points w"
      using a ex by (cases a) (auto split: prod.splits if_splits)
    then have "ts_lost (view es (st_id s) ?t w) (view es (st_id s) ?t w'')"
      unfolding w''_def using quiet_lost[OF einv th run_facts(4)[OF einv th ex], of "[]"] th' w' by auto
    from complete_quiet[OF good comp this] show ?thesis using ts_exact.stutter by metis
  qed
  show "smooth_inv es n0 s w''"
    unfolding w''_def
  proof (rule smooth_frame_rows[OF inv])
    show "if Completed ?t \<in> set (w_log w') then row_complete s (w_stack w') else w_stack w' = w_stack w"
      using comp w' by simp
    show "b \<in> set (th_todo th') \<Longrightarrow> smooth_action es ?t n0 s (w_log w') b" for b
      using th' smooth_rest(2)[OF inv th, of b] w'(1) by auto
  qed (auto simp: w' dest: in_diffD)
qed

lemma finish_smooth:
  assumes good: "good es n0 s w" and th: "th \<in># w_threads w" "th_todo th = []"
  defines "w' \<equiv> w\<lparr>w_threads := w_threads w - {#th#}\<rparr>"
  shows "view es (st_id s) (st_traversal s) w' = view es (st_id s) (st_traversal s) w" "smooth_inv es n0 s w'"
proof -
  have c: "cost P th = 0" for P by (simp add: cost_def th(2))
  show "view es (st_id s) (st_traversal s) w' = view es (st_id s) (st_traversal s) w"
    by (rule tstate_eqI) (simp_all add: view_simps tok_mail cnt_split[OF th(1)] c w'_def cnt_remove)
  show "smooth_inv es n0 s w'"
    using goodD(5)[OF good] unfolding smooth_inv_def Let_def w'_def by (auto dest: in_diffD)
qed

subsection \<open>Every step\<close>

lemma smooth_exec:
  assumes good: "good es n0 s w" and th: "th \<in># w_threads w" "th_todo th = a # rest" and ch: "smooth_choice ch"
    and ex: "exec ch a (th\<lparr>th_todo := rest\<rparr>) w = Some (w', th')"
  defines "w'' \<equiv> w'\<lparr>w_threads := add_mset th' (w_threads w - {#th#})\<rparr>"
  shows "ts_exact (edge_nodes es) (edge_rel es) (view es (st_id s) (st_traversal s) w) (view es (st_id s) (st_traversal s) w'')"
    "smooth_inv es n0 s w''"
proof -
  have same: "v' = v \<Longrightarrow> ts_exact N R v v'" for N R v v' using ts_exact.stutter by metis
  have "ts_exact (edge_nodes es) (edge_rel es) (view es (st_id s) (st_traversal s) w) (view es (st_id s) (st_traversal s) w'')
      \<and> smooth_inv es n0 s w''"
  proof (cases "purging a")
    case True
    then show ?thesis unfolding w''_def using purge_smooth(1,2)[OF good th True ch ex] by blast
  next
    case False
    have sm: "smooth_action es (st_traversal s) n0 s (w_log w) a" by (rule smooth_rest(1)[OF goodD(5)[OF good] th])
    show ?thesis
    proof (cases a)
      case (Check m s' r data)
      note th' = th[unfolded Check] and ex' = ex[unfolded Check]
      consider changed reference_id attrs uuid where "ch = CheckOk changed reference_id attrs uuid" | "ch = CheckReplace"
        using ch ex' by (cases ch) auto
      then show ?thesis
      proof cases
        case 1
        show ?thesis unfolding w''_def using check_ok_smooth(1,2)[OF good th' ex'[unfolded 1]] by blast
      next
        case 2
        show ?thesis unfolding w''_def using same check_replace_smooth(1,2)[OF good th' ex'[unfolded 2]] by blast
      qed
    next
      case (SyncRead c p)
      show ?thesis unfolding w''_def using same read_smooth(1,2)[OF good th[unfolded SyncRead] ex[unfolded SyncRead]] by blast
    next
      case (SyncWrite c p ak d)
      show ?thesis unfolding w''_def using write_smooth(1,2)[OF good th[unfolded SyncWrite] ex[unfolded SyncWrite]] by blast
    next
      case (Trigger m)
      show ?thesis unfolding w''_def using trigger_smooth[OF good th[unfolded Trigger] ex[unfolded Trigger]] by blast
    next
      case (Recast m)
      show ?thesis unfolding w''_def using same recast_smooth[OF good th[unfolded Recast] ex[unfolded Recast]] by blast
    next
      case (MarkComplete s')
      show ?thesis unfolding w''_def using complete_smooth(1,2)[OF good th[unfolded MarkComplete] ex[unfolded MarkComplete]] by blast
    qed (use sm False in simp_all)
  qed
  then show "ts_exact (edge_nodes es) (edge_rel es) (view es (st_id s) (st_traversal s) w) (view es (st_id s) (st_traversal s) w'')"
    "smooth_inv es n0 s w''" by blast+
qed

lemma smooth_good:
  assumes good: "good es n0 s w" and step: "smooth w w'"
  shows "ts_exact (edge_nodes es) (edge_rel es) (view es (st_id s) (st_traversal s) w) (view es (st_id s) (st_traversal s) w')"
    "good es n0 s w'"
proof -
  have "ts_exact (edge_nodes es) (edge_rel es) (view es (st_id s) (st_traversal s) w) (view es (st_id s) (st_traversal s) w')
      \<and> smooth_inv es n0 s w'"
    using step
  proof (cases rule: smooth.cases)
    case (deliver m)
    show ?thesis unfolding deliver(1) deliver_smooth(1)[OF good deliver(2)]
      using deliver_smooth(2)[OF good deliver(2)] ts_exact.stutter by blast
  next
    case (run th a rest ch w1 th')
    show ?thesis unfolding run(1) using smooth_exec[OF good run(2,3,4,5)] by blast
  next
    case (finish th)
    show ?thesis unfolding finish(1) finish_smooth(1)[OF good finish(2,3)]
      using finish_smooth(2)[OF good finish(2,3)] ts_exact.stutter by blast
  qed
  then show ex: "ts_exact (edge_nodes es) (edge_rel es) (view es (st_id s) (st_traversal s) w) (view es (st_id s) (st_traversal s) w')"
    by (rule conjunct1)
  have "smooth_inv es n0 s w'" using \<open>_ \<and> _\<close> by (rule conjunct2)
  then show "good es n0 s w'"
    using goodD[OF good] step_engine_inv[OF smooth_step[OF step]] ts_inv_exact[OF goodD(3)[OF good] ex] balanced_exact[OF goodD(3)[OF good] goodD(6)[OF good] ex]
    unfolding good_def by blast
qed

end
