(* ===== verification/Heat_Termination.thy ===== *)
theory Heat_Termination
  imports Heat_Smooth_Steps
begin

text \<open>
  Smooth runs end: a rank falls with every step. It counts, in this order, the notices that are still
  to be written, what the messages and the actions may still do, how far each call of \<open>sync\<close> is from
  its end while nobody else writes, and the threads.
\<close>

section \<open>Termination\<close>

text \<open>The notices that are still to be written: those of nodes that are not checked, and those owed.\<close>

definition notices :: "'k set \<Rightarrow> ('k \<times> 'k) set \<Rightarrow> ('k \<times> 'k target) set" where
  "notices N R = {(k, x). k \<in> N \<and> k \<in> preds N R x}"

definition unwritten :: "'k set \<Rightarrow> ('k \<times> 'k) set \<Rightarrow> 'k tstate \<Rightarrow> nat" where
  "unwritten N R v = (\<Sum>(k, x) \<in> notices N R. (1 - ts_done v k) + ts_debt v k x)"

lemma finite_notices:
  assumes "traversal_graph N R" shows "finite (notices N R)"
proof (rule finite_subset)
  show "notices N R \<subseteq> N \<times> insert ToStack (ToNode ` N)"
  proof
    fix y assume y: "y \<in> notices N R"
    obtain k x where kx: "y = (k, x)" by fastforce
    show "y \<in> N \<times> insert ToStack (ToNode ` N)"
      using y assms unfolding kx by (cases x) (auto simp: notices_def preds_def traversal_graph_def)
  qed
  show "finite (N \<times> insert ToStack (ToNode ` N))" using assms by (simp add: traversal_graph_def)
qed

lemma unwritten_mono:
  assumes "\<And>k x. k \<in> N \<Longrightarrow> k \<in> preds N R x \<Longrightarrow> (1 - ts_done v' k) + ts_debt v' k x \<le> (1 - ts_done v k) + ts_debt v k x"
  shows "unwritten N R v' \<le> unwritten N R v"
  unfolding unwritten_def by (rule sum_mono) (use assms in \<open>auto simp: notices_def\<close>)

lemma unwritten_exact:
  assumes g: "traversal_graph N R" and inv: "ts_inv N R v" and step: "ts_exact N R v v'"
  shows "unwritten N R v' \<le> unwritten N R v"
  using step
proof (cases rule: ts_exact.cases)
  case (check k)
  have "ts_done v k = 0" using ts_onceD(1,2)[OF inv check(2)] check(3) by linarith
  then show ?thesis by (intro unwritten_mono) (simp add: check(1) ts_check_def)
next
  case (arrive k x)
  then show ?thesis by (intro unwritten_mono) (simp add: ts_arrive_def Let_def)
qed (auto intro!: unwritten_mono simp: ts_trigger_def ts_complete_def ts_delete_def)

lemma unwritten_arrive:
  assumes g: "traversal_graph N R" and k: "0 < ts_debt v k x" "k \<in> preds N R x"
  shows "unwritten N R (ts_arrive N R k x v) < unwritten N R v"
  unfolding unwritten_def
proof (rule sum_strict_mono_ex1[OF finite_notices[OF g]])
  have "(k, x) \<in> notices N R" using preds_in[OF g k(2)] k(2) by (simp add: notices_def)
  then show "\<exists>a\<in>notices N R. (case a of (j, y) \<Rightarrow> (1 - ts_done (ts_arrive N R k x v) j) + ts_debt (ts_arrive N R k x v) j y)
      < (case a of (j, y) \<Rightarrow> (1 - ts_done v j) + ts_debt v j y)"
    by (rule bexI[rotated]) (use k(1) in \<open>simp add: ts_arrive_def Let_def\<close>)
qed (auto simp: ts_arrive_def Let_def)

text \<open>What the messages and the actions are worth. A check may still ask for a replacement, unless
  it is one of a replacement.\<close>

definition msg_weight :: "int \<Rightarrow> check_msg \<Rightarrow> nat" where
  "msg_weight n0 m = (if m_rsrc m < n0 then 8 else 3)"

fun act_weight :: "int \<Rightarrow> action \<Rightarrow> nat" where
  "act_weight n0 (Check m s r d) = msg_weight n0 m - 1"
| "act_weight n0 (Recast m) = msg_weight n0 m + 1"
| "act_weight n0 (Trigger m) = 10"
| "act_weight n0 (MarkComplete s) = 20"
| "act_weight n0 (PurgeStore s) = 1"
| "act_weight n0 (DeletePoints sid trv) = 1"
| "act_weight n0 (DeleteStack s) = 1"
| "act_weight n0 _ = 0"

text \<open>How far a call of \<open>sync\<close> is from its end while nobody else writes.\<close>

fun sync_weight :: "world \<Rightarrow> action \<Rightarrow> nat" where
  "sync_weight w (SyncRead c p) = 2"
| "sync_weight w (SyncWrite c p ak d) = (if map_option sp_atomic_key (w_points w (call_key c)) = Some ak then 1 else 3)"
| "sync_weight w _ = 0"

definition todo_weight :: "(action \<Rightarrow> nat) \<Rightarrow> thread \<Rightarrow> nat" where
  "todo_weight f th = sum_list (map f (th_todo th))"

definition total_weight :: "(action \<Rightarrow> nat) \<Rightarrow> thread multiset \<Rightarrow> nat" where
  "total_weight f ths = sum_mset (image_mset (todo_weight f) ths)"

definition mail_weight :: "int \<Rightarrow> world \<Rightarrow> nat" where
  "mail_weight n0 w = sum_mset (image_mset (msg_weight n0) (w_inbox w)) + total_weight (act_weight n0) (w_threads w)"

definition rank :: "node_key edge list \<Rightarrow> int \<Rightarrow> stack_row \<Rightarrow> world \<Rightarrow> nat \<times> nat \<times> nat \<times> nat" where
  "rank es n0 s w = (unwritten (edge_nodes es) (edge_rel es) (view es (st_id s) (st_traversal s) w), mail_weight n0 w,
     total_weight (sync_weight w) (w_threads w), size (w_threads w))"

lemma total_split: "th \<in># ths \<Longrightarrow> total_weight f ths = todo_weight f th + total_weight f (ths - {#th#})"
  by (metis image_mset_add_mset insert_DiffM sum_mset.insert total_weight_def)

lemma total_add [simp]: "total_weight f (add_mset th ths) = todo_weight f th + total_weight f ths"
  by (simp add: total_weight_def)


text \<open>A step of a thread in weights.\<close>

lemma total_run: "th \<in># ths \<Longrightarrow> total_weight f (add_mset th' (ths - {#th#})) + todo_weight f th = total_weight f ths + todo_weight f th'"
  by (simp add: total_split)

lemma todo_weight_simps [simp]:
  "todo_weight f (th\<lparr>th_todo := as\<rparr>) = sum_list (map f as)" "todo_weight f (continue as) = sum_list (map f as)"
  "todo_weight f stop = 0"
  by (simp_all add: todo_weight_def continue_def stop_def)

definition rank_less :: "(nat \<times> nat \<times> nat \<times> nat) rel" where
  "rank_less = less_than <*lex*> less_than <*lex*> less_than <*lex*> less_than"

lemma wf_rank_less: "wf rank_less"
  by (simp add: rank_less_def wf_lex_prod)

lemma mail_rank_less:
  assumes "unwritten (edge_nodes es) (edge_rel es) (view es (st_id s) (st_traversal s) w') \<le>
      unwritten (edge_nodes es) (edge_rel es) (view es (st_id s) (st_traversal s) w)" "mail_weight n0 w' < mail_weight n0 w"
  shows "(rank es n0 s w', rank es n0 s w) \<in> rank_less"
  using assms by (auto simp: rank_def rank_less_def)

text \<open>A thread that does not touch the queue.\<close>

lemma run_mail:
  assumes "th \<in># w_threads w" "w_inbox w' = w_inbox w"
  shows "mail_weight n0 (w'\<lparr>w_threads := add_mset th' (w_threads w - {#th#})\<rparr>) + todo_weight (act_weight n0) th =
    mail_weight n0 w + todo_weight (act_weight n0) th'"
  using total_run[OF assms(1), of "act_weight n0" th'] by (simp add: mail_weight_def assms(2))

lemma msg_weight_le: "msg_weight n0 m \<le> 8" "0 < msg_weight n0 m - 1"
  by (simp_all add: msg_weight_def)

lemma purge_weight: "sum_list (map (act_weight n0) (purge_db s)) \<le> 3"
  by (simp add: purge_db_def)

lemma exec_rank:
  assumes good: "good es n0 s w" and th: "th \<in># w_threads w" "th_todo th = a # rest" and ch: "smooth_choice ch"
    and ex: "exec ch a (th\<lparr>th_todo := rest\<rparr>) w = Some (w', th')"
  shows "(rank es n0 s (w'\<lparr>w_threads := add_mset th' (w_threads w - {#th#})\<rparr>), rank es n0 s w) \<in> rank_less"
proof -
  let ?t = "st_traversal s" and ?N = "edge_nodes es" and ?R = "edge_rel es"
  let ?w = "w'\<lparr>w_threads := add_mset th' (w_threads w - {#th#})\<rparr>"
  note g = goodD(3)[OF good] and inv = goodD(6)[OF good]
  have less: "unwritten ?N ?R (view es (st_id s) ?t ?w) \<le> unwritten ?N ?R (view es (st_id s) ?t w)"
    by (rule unwritten_exact[OF g inv smooth_exec(1)[OF good th ch ex]])
  have th_w: "todo_weight f th = f a + sum_list (map f rest)" for f by (simp add: todo_weight_def th(2))
  note mail = mail_rank_less[OF less]
  show ?thesis
  proof (cases "purging a")
    case True
    have "act_weight n0 a = 1" using True by (cases a) auto
    moreover have "todo_weight (act_weight n0) th' \<le> sum_list (map (act_weight n0) rest)"
      using purge_smooth(3)[OF good th True ch ex] by (auto simp: todo_weight_def)
    ultimately show ?thesis
      using run_mail[OF th(1) purge_smooth(4)[OF good th True ch ex], of n0 th'] by (intro mail) (simp add: th_w)
  next
    case False
    have sm: "smooth_action es ?t n0 s (w_log w) a" by (rule smooth_rest(1)[OF goodD(5)[OF good] th])
    show ?thesis
    proof (cases a)
      case (Check m s' r data)
      note th' = th[unfolded Check] and ex' = ex[unfolded Check]
      have rest: "rest = []" using run_facts(6)[OF goodD(2)[OF good] th ex] Check by blast
      consider changed reference_id attrs uuid where "ch = CheckOk changed reference_id attrs uuid" | "ch = CheckReplace"
        using ch ex' by (cases ch) auto
      then show ?thesis
      proof cases
        case 1
        note ok = check_ok_smooth(3,4)[OF good th' ex'[unfolded 1]]
        have "todo_weight (act_weight n0) th' = 0"
          using ok(1) unfolding todo_weight_def sum_list_eq_0_iff by fastforce
        then show ?thesis using run_mail[OF th(1) ok(2), of n0 th'] msg_weight_le(2)[of n0 m]
          by (intro mail) (simp add: th_w Check rest)
      next
        case 2
        note rp = check_replace_smooth(3-5)[OF good th' ex'[unfolded 2]]
        from rp(2) have "todo_weight (act_weight n0) th' = 4" by (auto simp: msg_weight_def)
        then show ?thesis using run_mail[OF th(1) rp(3), of n0 th'] rp(1)
          by (intro mail) (simp add: th_w Check rest msg_weight_def)
      qed
    next
      case (SyncRead c p)
      note rd = read_smooth(1,3,4)[OF good th[unfolded SyncRead] ex[unfolded SyncRead]]
      obtain ak d where todo: "th_todo th' = SyncWrite c p ak d # rest" "map_option sp_atomic_key (w_points w (call_key c)) = Some ak"
        using rd(3) by blast
      have "mail_weight n0 ?w = mail_weight n0 w"
        using run_mail[OF th(1), of w' n0 th'] by (simp add: rd(2) th_w SyncRead todo_weight_def todo(1) th(2))
      moreover have "sync_weight ?w = sync_weight w"
      proof
        show "sync_weight ?w b = sync_weight w b" for b by (cases b) (simp_all add: rd(2))
      qed
      then have "total_weight (sync_weight ?w) (w_threads ?w) < total_weight (sync_weight w) (w_threads w)"
        using total_run[OF th(1), of "sync_weight w" th'] by (simp add: th_w SyncRead todo_weight_def todo th(2))
      ultimately show ?thesis using rd(1) by (simp add: rank_def rank_less_def)
    next
      case (SyncWrite c p ak d)
      note th' = th[unfolded SyncWrite] and ex' = ex[unfolded SyncWrite]
      show ?thesis
      proof (cases "w_points w' = w_points w")
        case True
        then have wr: "w' = w" "th_todo th' = SyncRead c p # rest" "view es (st_id s) ?t ?w = view es (st_id s) ?t w"
          "map_option sp_atomic_key (w_points w (call_key c)) \<noteq> Some ak" using write_smooth(3)[OF good th' ex'] by blast+
        have mail_eq: "mail_weight n0 ?w = mail_weight n0 w"
          using run_mail[OF th(1), of w' n0 th'] by (simp add: wr(1) th_w SyncWrite todo_weight_def wr(2) th(2))
        have "sync_weight ?w = sync_weight w"
        proof
          show "sync_weight ?w b = sync_weight w b" for b by (cases b) (simp_all add: wr(1))
        qed
        moreover have "sync_weight w (SyncWrite c p ak d) = 3" using wr(4) by simp
        ultimately have "total_weight (sync_weight ?w) (w_threads ?w) < total_weight (sync_weight w) (w_threads w)"
          using total_run[OF th(1), of "sync_weight w" th']
          by (simp add: th_w SyncWrite todo_weight_def wr(2) th(2) del: sync_weight.simps(2))
        then show ?thesis using wr(3) mail_eq by (simp add: rank_def rank_less_def)
      next
        case pts: False
        have c: "sa_traversal c = ?t" using sm unfolding SyncWrite by simp
        note arr = write_arrives[OF goodD(2)[OF good] th' c ex' pts]
        have "unwritten ?N ?R (view es (st_id s) ?t ?w) < unwritten ?N ?R (view es (st_id s) ?t w)"
          unfolding arr(1) by (rule unwritten_arrive[OF g arr(2,4)])
        then show ?thesis by (simp add: rank_def rank_less_def)
      qed
    next
      case (Trigger m)
      have w': "w_inbox w' = add_mset m (w_inbox w)" and th': "th' = th\<lparr>th_todo := rest\<rparr>" using ex by (auto simp: Trigger)
      show ?thesis
        using total_run[OF th(1), of "act_weight n0" th'] msg_weight_le(1)[of n0 m]
        by (intro mail) (simp add: mail_weight_def w' th_w th' Trigger)
    next
      case (Recast m)
      have w': "w_inbox w' = add_mset m (w_inbox w)" and th': "th' = th\<lparr>th_todo := rest\<rparr>" using ex by (auto simp: Recast)
      show ?thesis
        using total_run[OF th(1), of "act_weight n0" th'] by (intro mail) (simp add: mail_weight_def w' th_w th' Recast)
    next
      case (MarkComplete s')
      note mk = complete_smooth(3,4)[OF good th[unfolded MarkComplete] ex[unfolded MarkComplete]]
      have "todo_weight (act_weight n0) th' \<le> 3 + sum_list (map (act_weight n0) rest)"
        using mk(1) purge_weight[of n0 "s\<lparr>st_status := COMPLETE\<rparr>"] by (auto simp: todo_weight_def)
      then show ?thesis using run_mail[OF th(1) mk(2), of n0 th'] by (intro mail) (simp add: th_w MarkComplete)
    qed (use sm False in simp_all)
  qed
qed

lemma smooth_rank:
  assumes good: "good es n0 s w" and step: "smooth w w'"
  shows "(rank es n0 s w', rank es n0 s w) \<in> rank_less"
  using step
proof (cases rule: smooth.cases)
  case (deliver m)
  obtain r data where bg: "begin_check False m w = continue [Check m s r data]" using deliver_check[OF good deliver(2)] by metis
  have ms: "w_inbox w = add_mset m (w_inbox w - {#m#})" using deliver(2) by simp
  have "sum_mset (image_mset (msg_weight n0) (w_inbox w)) =
      msg_weight n0 m + sum_mset (image_mset (msg_weight n0) (w_inbox w - {#m#}))"
    by (subst ms) simp
  then have "mail_weight n0 w' < mail_weight n0 w"
    using msg_weight_le(2)[of n0 m] by (simp add: mail_weight_def deliver(1) bg)
  then show ?thesis
    using deliver_smooth(1)[OF good deliver(2)] by (intro mail_rank_less) (simp_all add: deliver(1))
next
  case (run th a rest ch w1 th')
  show ?thesis unfolding run(1) by (rule exec_rank[OF good run(2-5)])
next
  case (finish th)
  have th: "todo_weight f th = 0" for f by (simp add: todo_weight_def finish(3))
  have "sync_weight w' = sync_weight w"
  proof
    show "sync_weight w' b = sync_weight w b" for b by (cases b) (simp_all add: finish(1))
  qed
  then show ?thesis
    using finish_smooth(1)[OF good finish(2,3)] total_split[OF finish(2)] finish(2)
    by (simp add: rank_def rank_less_def finish(1) mail_weight_def th size_Diff1_less)
qed

end
