(* ===== verification/Heat_Setup.thy ===== *)
theory Heat_Setup
  imports Heat_Smooth
begin

text \<open>
  The start of a traversal: from the thread that computes the dependencies to the world in which the
  leaves of the graph are about to be triggered. The graph has the updates of the template's resources
  and the cleanups of all that exist, and every row is as the checks of the traversal expect it.
\<close>

section \<open>The graph\<close>

lemma wf_add_edge: "wf_graph g \<Longrightarrow> wf_graph (add_edge g e)"
  by (auto simp: wf_graph_def add_edge_effect)

text \<open>What a fold over the existing resources keeps: the updates are those there were, a cleanup is of
  a resource that exists, and it waits for the update.\<close>

definition cleanups_ok :: "(int \<times> rsrc) list \<Rightarrow> node_key graph \<Rightarrow> node_key graph \<Rightarrow> bool" where
  "cleanups_ok existing g0 g \<longleftrightarrow>
     wf_graph g \<and> (\<forall>i. (i, True) \<in> keys g \<longleftrightarrow> (i, True) \<in> keys g0) \<and>
     (\<forall>i. (i, False) \<in> keys g \<longrightarrow> i \<in> fst ` set existing)"

lemma cleanups_ok_edge:
  assumes ok: "cleanups_ok existing g0 g" and i: "i \<in> fst ` set existing"
    and x: "x = None \<or> (\<exists>q. x = Some (q, False) \<and> q \<in> fst ` set existing) \<or> (\<exists>q. x = Some (q, True) \<and> (q, True) \<in> keys g)"
  shows "cleanups_ok existing g0 (add_edge g ((i, False), x))"
  using assms wf_add_edge unfolding cleanups_ok_def by (auto simp: add_edge_effect)

lemma requires_add_edge: "requires g k \<subseteq> requires (add_edge g e) k" "keys g \<subseteq> keys (add_edge g e)"
  by (auto simp: add_edge_effect)

text \<open>The edges of one resource.\<close>

lemma foldl_cleanups:
  fixes qs :: "int list"
  assumes "cleanups_ok existing g0 g" "i \<in> fst ` set existing"
  defines "g' \<equiv> foldl (\<lambda>dep q. if q \<in> fst ` set existing then add_edge dep ((q, False), Some (i, False)) else dep) g qs"
  shows "cleanups_ok existing g0 g'" "requires g k \<subseteq> requires g' k" "keys g \<subseteq> keys g'"
proof -
  have "cleanups_ok existing g0 g \<Longrightarrow> cleanups_ok existing g0 g' \<and> requires g k \<subseteq> requires g' k \<and> keys g \<subseteq> keys g'"
    unfolding g'_def
  proof (induction qs arbitrary: g)
    case (Cons q qs)
    define gq where "gq = (if q \<in> fst ` set existing then add_edge g ((q, False), Some (i, False)) else g)"
    have "cleanups_ok existing g0 gq"
      using cleanups_ok_edge[OF Cons.prems, of q "Some (i, False)"] Cons.prems assms(2) by (simp add: gq_def)
    note IH = Cons.IH[OF this]
    have sub: "requires g k \<subseteq> requires gq k" "keys g \<subseteq> keys gq" by (simp_all add: gq_def requires_add_edge)
    have eq: "foldl (\<lambda>dep q. if q \<in> fst ` set existing then add_edge dep ((q, False), Some (i, False)) else dep) g (q # qs) =
        foldl (\<lambda>dep q. if q \<in> fst ` set existing then add_edge dep ((q, False), Some (i, False)) else dep) gq qs"
      by (simp add: gq_def)
    show ?case unfolding eq using IH subset_trans[OF sub(1)] subset_trans[OF sub(2)] by blast
  qed simp
  then show "cleanups_ok existing g0 g'" "requires g k \<subseteq> requires g' k" "keys g \<subseteq> keys g'" using assms(1) by blast+
qed

lemma add_existing_ok:
  assumes ok: "cleanups_ok existing g0 g" and e: "e \<in> set existing"
  shows "cleanups_ok existing g0 (add_existing_node existing g e)" "requires g k \<subseteq> requires (add_existing_node existing g e) k"
    "keys g \<subseteq> keys (add_existing_node existing g e)" "(fst e, False) \<in> keys (add_existing_node existing g e)"
    "(fst e, True) \<in> keys g0 \<Longrightarrow> (fst e, True) \<in> requires (add_existing_node existing g e) (fst e, False)"
    "wf_graph (add_cleanup existing g e)" "requires (add_cleanup existing g e) k \<subseteq> requires (add_existing_node existing g e) k"
proof -
  obtain i r where ir: "e = (i, r)" by fastforce
  have i: "i \<in> fst ` set existing" using e unfolding ir by force
  define g1 where "g1 = add_edge g ((i, False), None)"
  define g2 where "g2 = foldl (\<lambda>dep q. if q \<in> fst ` set existing then add_edge dep ((q, False), Some (i, False)) else dep) g1 (rs_requires r)"
  define g3 where "g3 = (case rs_replaces r of None \<Rightarrow> g2
    | Some q \<Rightarrow> if q \<in> fst ` set existing then add_edge g2 ((q, False), Some (i, False)) else g2)"
  have g3: "add_cleanup existing g e = g3" by (simp only: add_cleanup_def ir Let_def prod.case g3_def g2_def g1_def)
  have def: "add_existing_node existing g e = (if (i, True) \<in> keys g3 then add_edge g3 ((i, False), Some (i, True)) else g3)"
    by (simp add: add_existing_node_def g3 Let_def) (simp add: ir)
  have ok1: "cleanups_ok existing g0 g1" unfolding g1_def by (rule cleanups_ok_edge[OF ok i]) simp
  note f2 = foldl_cleanups[OF ok1 i, where qs = "rs_requires r", folded g2_def]
  have ok3: "cleanups_ok existing g0 g3"
    using cleanups_ok_edge[OF f2(1), of _ "Some (i, False)"] f2(1) i by (auto simp: g3_def split: option.split)
  have sub3: "requires g2 k \<subseteq> requires g3 k" "keys g2 \<subseteq> keys g3" for k
    by (simp_all add: g3_def requires_add_edge split: option.split)
  have ok4: "(i, True) \<in> keys g3 \<Longrightarrow> cleanups_ok existing g0 (add_edge g3 ((i, False), Some (i, True)))"
    by (rule cleanups_ok_edge[OF ok3 i]) simp
  show "cleanups_ok existing g0 (add_existing_node existing g e)" using ok3 ok4 by (simp add: def)
  show "wf_graph (add_cleanup existing g e)" using ok3 by (simp add: g3 cleanups_ok_def)
  show "requires (add_cleanup existing g e) k \<subseteq> requires (add_existing_node existing g e) k"
    unfolding def g3 using requires_add_edge(1)[of g3 k "((i, False), Some (i, True))"] by simp
  have "requires g k \<subseteq> requires g3 k" "keys g1 \<subseteq> keys g3" "keys g \<subseteq> keys g3"
    using requires_add_edge(1)[of g k "((i, False), None)"] requires_add_edge(2)[of g "((i, False), None)"] f2(2)[of k] f2(3) sub3(1)[of k] sub3(2)
    unfolding g1_def[symmetric] by blast+
  then show "requires g k \<subseteq> requires (add_existing_node existing g e) k" "keys g \<subseteq> keys (add_existing_node existing g e)"
    using requires_add_edge(1)[of g3 k "((i, False), Some (i, True))"] requires_add_edge(2)[of g3 "((i, False), Some (i, True))"]
    by (auto simp: def)
  have "(i, False) \<in> keys g3" using \<open>keys g1 \<subseteq> keys g3\<close> by (auto simp: g1_def add_edge_effect)
  then show "(fst e, False) \<in> keys (add_existing_node existing g e)" 
    using requires_add_edge(2)[of g3 "((i, False), Some (i, True))"] unfolding def by (simp add: ir) blast
  show "(fst e, True) \<in> requires (add_existing_node existing g e) (fst e, False)" if "(fst e, True) \<in> keys g0"
    using that ok3 unfolding def by (simp add: ir cleanups_ok_def add_edge_effect)
qed

lemma fold_existing_ok:
  fixes es :: "(int \<times> rsrc) list"
  assumes ok: "cleanups_ok existing g0 g" and sub: "set es \<subseteq> set existing"
  defines "g' \<equiv> foldl (add_existing_node existing) g es"
  shows "cleanups_ok existing g0 g'" "requires g k \<subseteq> requires g' k" "keys g \<subseteq> keys g'"
    "e \<in> set es \<Longrightarrow> (fst e, False) \<in> keys g' \<and> ((fst e, True) \<in> keys g0 \<longrightarrow> (fst e, True) \<in> requires g' (fst e, False))"
proof -
  have "cleanups_ok existing g0 g' \<and> (\<forall>k. requires g k \<subseteq> requires g' k) \<and> keys g \<subseteq> keys g' \<and>
    (\<forall>e \<in> set es. (fst e, False) \<in> keys g' \<and> ((fst e, True) \<in> keys g0 \<longrightarrow> (fst e, True) \<in> requires g' (fst e, False)))"
    using ok sub unfolding g'_def
  proof (induction es arbitrary: g)
    case (Cons e es)
    have e: "e \<in> set existing" using Cons.prems(2) by simp
    note a = add_existing_ok[OF Cons.prems(1) e]
    let ?g = "foldl (add_existing_node existing) (add_existing_node existing g e) es"
    have IH: "cleanups_ok existing g0 ?g \<and> (\<forall>k. requires (add_existing_node existing g e) k \<subseteq> requires ?g k) \<and>
        keys (add_existing_node existing g e) \<subseteq> keys ?g \<and>
        (\<forall>e \<in> set es. (fst e, False) \<in> keys ?g \<and> ((fst e, True) \<in> keys g0 \<longrightarrow> (fst e, True) \<in> requires ?g (fst e, False)))"
      by (rule Cons.IH[OF a(1)]) (use Cons.prems(2) in simp)
    then have "requires g k \<subseteq> requires ?g k" "keys g \<subseteq> keys ?g" for k using a(2)[of k] a(3) by blast+
    moreover have "(fst e, False) \<in> keys ?g" using a(4) IH by blast
    moreover have "(fst e, True) \<in> keys g0 \<Longrightarrow> (fst e, True) \<in> requires ?g (fst e, False)" using a(5) IH by blast
    ultimately show ?case using IH by simp
  qed simp
  then show "cleanups_ok existing g0 g'" "requires g k \<subseteq> requires g' k" "keys g \<subseteq> keys g'"
    "e \<in> set es \<Longrightarrow> (fst e, False) \<in> keys g' \<and> ((fst e, True) \<in> keys g0 \<longrightarrow> (fst e, True) \<in> requires g' (fst e, False))"
    by blast+
qed

text \<open>The graph of a traversal: an update per resource of the template, a cleanup per resource that
  exists, which comes after the update of the same resource.\<close>

lemma template_cleanups_ok:
  fixes ids :: "(string \<times> int) list"
  assumes wf: "wf_graph tdeps"
  defines "g0 \<equiv> translate (\<lambda>name. (the (map_of ids name), True)) tdeps"
  shows "cleanups_ok existing g0 g0"
proof -
  let ?f = "\<lambda>name. (the (map_of ids name), True)"
  define es where "es = map (map_prod ?f (map_option ?f)) (graph_edges tdeps)"
  have g0: "g0 = dependencies es" by (simp add: g0_def translate_def es_def)
  have set: "set es = map_prod ?f (map_option ?f) ` set (graph_edges tdeps)" by (simp add: es_def)
  have "edge_nodes es = ?f ` edge_nodes (graph_edges tdeps)"
    unfolding edge_nodes_def set by (auto simp: image_UN option.set_map)
  then have "keys g0 = ?f ` keys tdeps" using graph_edges_iff(2)[OF wf] by (simp add: g0)
  then show ?thesis by (auto simp: cleanups_ok_def g0)
qed

lemma convg_graph:
  fixes ids :: "(string \<times> int) list" and existing :: "(int \<times> rsrc) list"
  assumes wf: "wf_graph tdeps"
  defines "g \<equiv> convergence_graph existing tdeps ids"
  shows "wf_graph g" "(i, True) \<in> keys g \<longleftrightarrow> (\<exists>name \<in> keys tdeps. i = the (map_of ids name))"
    "(i, False) \<in> keys g \<longleftrightarrow> i \<in> fst ` set existing"
    "(i, True) \<in> keys g \<Longrightarrow> (i, False) \<in> keys g \<Longrightarrow> (i, True) \<in> requires g (i, False)"
    "name \<in> keys tdeps \<Longrightarrow> req \<in> requires tdeps name \<Longrightarrow> (the (map_of ids req), True) \<in> requires g (the (map_of ids name), True)"
proof -
  let ?f = "\<lambda>name. (the (map_of ids name), True)"
  define es where "es = map (map_prod ?f (map_option ?f)) (graph_edges tdeps)"
  define g0 where "g0 = translate ?f tdeps"
  have g0: "g0 = dependencies es" by (simp add: g0_def translate_def es_def)
  have set: "set es = map_prod ?f (map_option ?f) ` set (graph_edges tdeps)" by (simp add: es_def)
  have "edge_nodes es = ?f ` edge_nodes (graph_edges tdeps)"
    unfolding edge_nodes_def set by (auto simp: image_UN option.set_map) 
  then have keys0: "keys g0 = ?f ` keys tdeps" using graph_edges_iff(2)[OF wf] by (simp add: g0)
  have start: "cleanups_ok existing g0 g0" unfolding g0_def by (rule template_cleanups_ok[OF wf])
  have g: "g = foldl (add_existing_node existing) g0 existing" by (simp add: g_def convergence_graph_def g0_def)
  note f = fold_existing_ok[OF start order.refl, folded g]
  show "wf_graph g" using f(1) by (simp add: cleanups_ok_def)
  show upd: "(i, True) \<in> keys g \<longleftrightarrow> (\<exists>name \<in> keys tdeps. i = the (map_of ids name))" for i
    using f(1) keys0 by (auto simp: cleanups_ok_def)
  show "(i, False) \<in> keys g \<longleftrightarrow> i \<in> fst ` set existing" using f(1) f(4) by (auto simp: cleanups_ok_def)
  then show "(i, True) \<in> keys g \<Longrightarrow> (i, False) \<in> keys g \<Longrightarrow> (i, True) \<in> requires g (i, False)"
    using f(1) f(4) by (fastforce simp: cleanups_ok_def)
  assume "name \<in> keys tdeps" "req \<in> requires tdeps name"
  then have "(name, Some req) \<in> set (graph_edges tdeps)"
    using graph_edges_iff(1)[OF wf] by (auto simp: edge_rel_def dep_rel_def)
  then have "(?f name, Some (?f req)) \<in> set es" unfolding set by force
  then have "?f req \<in> requires g0 (?f name)" by (simp add: g0 edge_rel_def)
  then show "(the (map_of ids req), True) \<in> requires g (the (map_of ids name), True)" using f(2) by blast
qed


text \<open>If it has no cycle, then no look up on the way to it got stuck in one.\<close>

lemma dep_contains_acyclic:
  assumes "wf_graph g" "acyclic (dep_rel g)"
  shows "dep_contains g k = Inr (k \<in> keys g)"
proof -
  obtain ks e where t: "toposort (dep_graph g False) = (ks, e)" by fastforce
  have "dep_iter g = (case e of None \<Rightarrow> Inr ks | Some x \<Rightarrow> Inl x)" by (simp add: dep_iter_def py_list_def t split: option.split)
  then have "e = None \<and> dep_iter g = Inr ks" using dep_iter_spec(2)[OF assms(1)] assms(2) by (cases e) auto
  then show ?thesis
    using dep_iter_spec(1)[OF assms(1)] t by (auto simp: dep_contains_def topological_order_def)
qed

lemma dep_rel_mono: "(\<And>k. requires g k \<subseteq> requires g' k) \<Longrightarrow> acyclic (dep_rel g') \<Longrightarrow> acyclic (dep_rel g)"
  by (rule acyclic_subset[of "dep_rel g'"]) (auto simp: dep_rel_def)

lemma compute_acyclic:
  assumes wf: "wf_graph tdeps" and acyclic: "acyclic (dep_rel (convergence_graph existing tdeps ids))"
  shows "compute_convg_dependencies existing tdeps ids = Inr (convergence_graph existing tdeps ids)"
proof -
  let ?f = "\<lambda>name. (the (map_of ids name), True)"
  have "rfold (add_existing existing) g es = Inr (foldl (add_existing_node existing) g es)"
    if "cleanups_ok existing g0 g" "set es \<subseteq> set existing" "acyclic (dep_rel (foldl (add_existing_node existing) g es))" for g0 g es
    using that
  proof (induction es arbitrary: g)
    case (Cons e es)
    have e: "e \<in> set existing" and es: "set es \<subseteq> set existing" using Cons.prems(2) by simp_all
    note a = add_existing_ok[OF Cons.prems(1) e]
    note f = fold_existing_ok[OF a(1) es]
    have "acyclic (dep_rel (add_existing_node existing g e))"
      by (rule dep_rel_mono[OF f(2)]) (use Cons.prems(3) in simp)
    then have "acyclic (dep_rel (add_cleanup existing g e))" by (rule dep_rel_mono[OF a(7)])
    from dep_contains_acyclic[OF a(6) this]
    have "add_existing existing g e = Inr (add_existing_node existing g e)"
      by (simp add: add_existing_def add_existing_node_def Let_def)
    moreover have "rfold (add_existing existing) (add_existing_node existing g e) es =
        Inr (foldl (add_existing_node existing) (add_existing_node existing g e) es)"
      by (rule Cons.IH[OF a(1) es]) (use Cons.prems(3) in simp)
    ultimately show ?case by simp
  qed simp
  from this[OF template_cleanups_ok[OF wf] order.refl] acyclic show ?thesis
    by (simp add: compute_convg_dependencies_def convergence_graph_def)
qed


section \<open>The rows\<close>

definition table_ok :: "rsrc_table \<Rightarrow> bool" where
  "table_ok rt \<longleftrightarrow> distinct (map fst (rt_rows rt)) \<and>
     (\<forall>(i, r) \<in> set (rt_rows rt). i < rt_next rt \<and> (\<forall>j. rs_replaced_by r = Some j \<longrightarrow> j < rt_next rt))"

lemma table_rows_ok: "table_ok rt \<Longrightarrow> rows_ok (rt_next rt) [] rt"
  by (auto simp: table_ok_def rows_ok_def row_ok_def)

lemma table_get: "table_ok rt \<Longrightarrow> (i, r) \<in> set (rt_rows rt) \<longleftrightarrow> rt_get rt i = Some r"
  by (simp add: table_ok_def rt_get_def)

lemma table_update:
  assumes "table_ok rt" "\<And>r. rs_replaced_by (f r) = rs_replaced_by r" shows "table_ok (rt_update i f rt)"
proof -
  have "map fst (rt_rows (rt_update i f rt)) = map fst (rt_rows rt)" by (simp add: rt_update_def case_prod_unfold)
  moreover have "j < rt_next rt \<and> (\<forall>k. rs_replaced_by r = Some k \<longrightarrow> k < rt_next rt)"
    if mem: "(j, r) \<in> set (rt_rows (rt_update i f rt))" for j r
  proof -
    obtain q where "(j, q) \<in> set (rt_rows rt)" and q: "r = (if j = i then f q else q)"
      using mem by (auto simp: rt_update_def)
    moreover have "rs_replaced_by r = rs_replaced_by q" by (simp add: q assms(2))
    ultimately have "(j, q) \<in> set (rt_rows rt)" "rs_replaced_by r = rs_replaced_by q" by blast+
    then show ?thesis using assms(1) by (auto simp: table_ok_def)
  qed
  ultimately show ?thesis using assms(1) unfolding table_ok_def by (auto simp del: map_map)
qed

lemma table_insert:
  assumes "table_ok rt" "rs_replaced_by r = None" shows "table_ok (snd (rt_insert r rt))"
  using assms by (force simp: table_ok_def rt_insert_def)

lemma best_existing_in: "best_existing s ex name = Some e \<Longrightarrow> e \<in> set ex"
proof -
  have "best_existing_loop s name c ex = Some e \<Longrightarrow> e \<in> set ex \<or> c = Some e" for c
    by (induction ex arbitrary: c) (auto split: if_splits)
  then show "best_existing s ex name = Some e \<Longrightarrow> e \<in> set ex" unfolding best_existing_def by blast
qed

text \<open>What the loop over the names of the template keeps: the old rows, up to who needs them, and an id
  for each name, which is that of the best existing resource or of a new row.\<close>

definition stored :: "stack_row \<Rightarrow> rsrc_table \<Rightarrow> rsrc_table \<times> (string \<times> int) list \<Rightarrow> bool" where
  "stored s rt acc \<longleftrightarrow> (let (rt', ids) = acc in
     table_ok rt' \<and> rt_next rt \<le> rt_next rt' \<and>
     (\<forall>i r. rt_get rt i = Some r \<longrightarrow> (\<exists>nb. rt_get rt' i = Some (r\<lparr>rs_needed_by := nb\<rparr>))) \<and>
     (\<forall>(name, i) \<in> set ids. (\<exists>r. best_existing s (rt_rows rt) name = Some (i, r)) \<or>
        rt_next rt \<le> i \<and> (\<exists>nb. rt_get rt' i = Some (new_rsrc name (st_template s) nb))))"

lemma storedI:
  assumes "table_ok rt'" "rt_next rt \<le> rt_next rt'"
    "\<And>i r. rt_get rt i = Some r \<Longrightarrow> \<exists>nb. rt_get rt' i = Some (r\<lparr>rs_needed_by := nb\<rparr>)"
    "\<And>name i. (name, i) \<in> set ids \<Longrightarrow> (\<exists>r. best_existing s (rt_rows rt) name = Some (i, r)) \<or>
       rt_next rt \<le> i \<and> (\<exists>nb. rt_get rt' i = Some (new_rsrc name (st_template s) nb))"
  shows "stored s rt (rt', ids)"
  using assms by (simp add: stored_def) blast

lemma new_rsrc_free [simp]: "rs_replaced_by (new_rsrc name tmpl nb) = None" "rs_action (new_rsrc name tmpl nb) = RsrcInit"
  by (simp_all add: new_rsrc_def)

lemma store_step:
  assumes table: "table_ok rt" and st: "stored s rt (rt1, ids)"
  shows "stored s rt (store_rsrc s (rt_rows rt) deps name (rt1, ids))"
    "fst ` set (snd (store_rsrc s (rt_rows rt) deps name (rt1, ids))) = insert name (fst ` set ids)"
proof -
  define nb where "nb = List.map_filter (map_of ids) (nd_satisfy (node_of deps name))"
  have S: "table_ok rt1" "rt_next rt \<le> rt_next rt1" "\<And>i r. rt_get rt i = Some r \<Longrightarrow> \<exists>nb. rt_get rt1 i = Some (r\<lparr>rs_needed_by := nb\<rparr>)"
    "\<And>nm i. (nm, i) \<in> set ids \<Longrightarrow> (\<exists>r. best_existing s (rt_rows rt) nm = Some (i, r)) \<or>
        rt_next rt \<le> i \<and> (\<exists>nb. rt_get rt1 i = Some (new_rsrc nm (st_template s) nb))"
    using st by (auto simp: stored_def)
  have lt: "rt_get rt1 i = Some r \<Longrightarrow> i < rt_next rt1" for i r
    using S(1) table_get[OF S(1), of i r] by (auto simp: table_ok_def)
  have "stored s rt (store_rsrc s (rt_rows rt) deps name (rt1, ids)) \<and>
    fst ` set (snd (store_rsrc s (rt_rows rt) deps name (rt1, ids))) = insert name (fst ` set ids)"
  proof (cases "best_existing s (rt_rows rt) name")
    case None
    define r where "r = new_rsrc name (st_template s) (remdups nb)"
    define rt2 where "rt2 = snd (rt_insert r rt1)"
    have eq: "store_rsrc s (rt_rows rt) deps name (rt1, ids) = (rt2, (name, rt_next rt1) # ids)"
      by (simp add: store_rsrc_def Let_def None nb_def[symmetric] r_def[symmetric] rt2_def rt_insert_def)
    have get: "rt_get rt2 i = (if i = rt_next rt1 then Some r else rt_get rt1 i)" for i
      unfolding rt2_def by (rule rt_get_insert[OF table_rows_ok[OF S(1)]])
    have "table_ok rt2" unfolding rt2_def by (rule table_insert[OF S(1)]) (simp add: r_def)
    moreover have "rt_next rt \<le> rt_next rt2" using S(2) by (simp add: rt2_def)
    moreover have "\<exists>nb. rt_get rt2 i = Some (q\<lparr>rs_needed_by := nb\<rparr>)" if "rt_get rt i = Some q" for i q
      using S(3)[OF that] lt[of i] by (auto simp: get)
    moreover have "(\<exists>q. best_existing s (rt_rows rt) nm = Some (i, q)) \<or>
        rt_next rt \<le> i \<and> (\<exists>nb. rt_get rt2 i = Some (new_rsrc nm (st_template s) nb))"
      if "(nm, i) \<in> set ((name, rt_next rt1) # ids)" for nm i
    proof (cases "(nm, i) \<in> set ids")
      case True
      then show ?thesis using S(4)[OF True] lt[of i] by (auto simp: get)
    next
      case False
      then show ?thesis using that S(2) by (auto simp: get r_def)
    qed
    ultimately have "stored s rt (rt2, (name, rt_next rt1) # ids)" by (rule storedI)
    then show ?thesis by (simp add: eq)
  next
    case (Some e)
    obtain i0 r0 where e: "e = (i0, r0)" by fastforce
    define f :: "rsrc \<Rightarrow> rsrc" where "f = (\<lambda>r. r\<lparr>rs_needed_by := remdups (rs_needed_by r @ nb)\<rparr>)"
    define rt2 where "rt2 = rt_update i0 f rt1"
    have eq: "store_rsrc s (rt_rows rt) deps name (rt1, ids) = (rt2, (name, i0) # ids)"
      by (simp add: store_rsrc_def Let_def Some e nb_def[symmetric] f_def rt2_def)
    have "(i0, r0) \<in> set (rt_rows rt)" using best_existing_in[OF Some] e by simp
    then have i0: "i0 < rt_next rt" using table by (auto simp: table_ok_def)
    have get: "rt_get rt2 i = (if i = i0 then map_option f (rt_get rt1 i) else rt_get rt1 i)" for i
      unfolding rt2_def by (rule rt_get_update)
    have "table_ok rt2" unfolding rt2_def by (rule table_update[OF S(1)]) (simp add: f_def)
    moreover have "rt_next rt \<le> rt_next rt2" using S(2) by (simp add: rt2_def)
    moreover have "\<exists>nb. rt_get rt2 i = Some (q\<lparr>rs_needed_by := nb\<rparr>)" if "rt_get rt i = Some q" for i q
      using S(3)[OF that] by (auto simp: get f_def)
    moreover have "(\<exists>q. best_existing s (rt_rows rt) nm = Some (i, q)) \<or>
        rt_next rt \<le> i \<and> (\<exists>nb. rt_get rt2 i = Some (new_rsrc nm (st_template s) nb))"
      if "(nm, i) \<in> set ((name, i0) # ids)" for nm i
    proof (cases "(nm, i) \<in> set ids")
      case True
      then show ?thesis using S(4)[OF True] i0 by (auto simp: get)
    next
      case False
      then show ?thesis using that Some e by auto
    qed
    ultimately have "stored s rt (rt2, (name, i0) # ids)" by (rule storedI)
    then show ?thesis by (simp add: eq)
  qed
  then show "stored s rt (store_rsrc s (rt_rows rt) deps name (rt1, ids))"
    "fst ` set (snd (store_rsrc s (rt_rows rt) deps name (rt1, ids))) = insert name (fst ` set ids)" by blast+
qed

lemma update_or_store_ok:
  assumes table: "table_ok rt" and wf: "wf_graph tdeps" and eq: "update_or_store_resources s tdeps rt = Inr (rt', ids)"
  shows "stored s rt (rt', ids)" "fst ` set ids = keys tdeps"
proof -
  obtain names where names: "dep_reversed tdeps = Inr names"
    and fold: "fold (store_rsrc s (rt_rows rt) tdeps) names (rt, []) = (rt', ids)"
    using eq by (auto simp: update_or_store_resources_def rbind_eq_Inr)
  have step: "stored s rt acc \<Longrightarrow> stored s rt (fold (store_rsrc s (rt_rows rt) tdeps) ns acc) \<and>
      fst ` set (snd (fold (store_rsrc s (rt_rows rt) tdeps) ns acc)) = set ns \<union> fst ` set (snd acc)" for ns acc
  proof (induction ns arbitrary: acc)
    case (Cons name ns)
    obtain rt1 ids1 where acc: "acc = (rt1, ids1)" by fastforce
    note st = store_step[OF table Cons.prems[unfolded acc], of tdeps name]
    show ?case using Cons.IH[OF st(1)] st(2) by (simp add: acc)
  qed simp
  have "stored s rt (rt, [])"
  proof (rule storedI)
    show "\<exists>nb. rt_get rt i = Some (r\<lparr>rs_needed_by := nb\<rparr>)" if "rt_get rt i = Some r" for i r
      by (rule exI[of _ "rs_needed_by r"]) (simp add: that)
  qed (use table in simp_all)
  from step[OF this, of names] have "stored s rt (rt', ids)" "fst ` set ids = set names" by (simp_all add: fold)
  moreover have "set names = keys tdeps" using bwd.order[OF wf names] by (simp add: topological_order_def)
  ultimately show "stored s rt (rt', ids)" "fst ` set ids = keys tdeps" by simp_all
qed


text \<open>What the rows must say when the traversal starts: every node has its row, which was not
  superseded; only a resource with a cleanup was created before.\<close>

definition rows_start :: "node_key graph \<Rightarrow> stack_row \<Rightarrow> rsrc_table \<Rightarrow> bool" where
  "rows_start g s rt \<longleftrightarrow>
     (\<forall>(i, u) \<in> keys g. \<exists>r. rt_get rt i = Some r \<and>
        (u \<longrightarrow> (rs_replaced_by r = None \<or> rs_template r = st_template s) \<and> ((i, False) \<in> keys g \<or> rs_action r = RsrcInit))) \<and>
     (\<forall>(i, u) \<in> keys g. u \<longrightarrow> (i, False) \<in> keys g \<longrightarrow> (i, True) \<in> requires g (i, False)) \<and>
     (\<forall>(i, r) \<in> set (rt_rows rt). \<forall>j. rs_replaced_by r = Some j \<longrightarrow> j < rt_next rt)"

text \<open>The candidates that the code picks: none was superseded by a resource of another template.\<close>

definition candidates_current :: "stack_row \<Rightarrow> (int \<times> rsrc) list \<Rightarrow> string set \<Rightarrow> bool" where
  "candidates_current s existing names \<longleftrightarrow>
     (\<forall>name \<in> names. case best_existing s existing name of None \<Rightarrow> True
        | Some (i, r) \<Rightarrow> rs_replaced_by r = None \<or> rs_template r = st_template s)"

lemma converge_rows:
  fixes ids :: "(string \<times> int) list"
  assumes table: "table_ok rt" and wf: "wf_graph tdeps" and eq: "update_or_store_resources s tdeps rt = Inr (rt', ids)"
  defines "g \<equiv> convergence_graph (rt_rows rt) tdeps ids"
  shows "table_ok rt'" "(i, u) \<in> keys g \<Longrightarrow> \<exists>r. rt_get rt' i = Some r"
    "candidates_current s (rt_rows rt) (keys tdeps) \<Longrightarrow> rows_start g s rt'"
proof -
  note st = update_or_store_ok[OF table wf eq]
  have S: "table_ok rt'" "rt_next rt \<le> rt_next rt'" "\<And>i r. rt_get rt i = Some r \<Longrightarrow> \<exists>nb. rt_get rt' i = Some (r\<lparr>rs_needed_by := nb\<rparr>)"
    "\<And>nm i. (nm, i) \<in> set ids \<Longrightarrow> (\<exists>r. best_existing s (rt_rows rt) nm = Some (i, r)) \<or>
        rt_next rt \<le> i \<and> (\<exists>nb. rt_get rt' i = Some (new_rsrc nm (st_template s) nb))"
    using st(1) by (auto simp: stored_def)
  note G = convg_graph[OF wf, where existing = "rt_rows rt" and ids = ids, folded g_def]
  show "table_ok rt'" by (rule S(1))
  have old: "\<exists>r. rt_get rt i = Some r" if "i \<in> fst ` set (rt_rows rt)" for i
    using that table_get[OF table] by auto
  have upd: "(\<exists>r nb. best_existing s (rt_rows rt) name = Some (i, r) \<and> rt_get rt' i = Some (r\<lparr>rs_needed_by := nb\<rparr>) \<and> (i, False) \<in> keys g) \<or>
      (\<exists>nb. rt_get rt' i = Some (new_rsrc name (st_template s) nb))"
    if name: "name \<in> keys tdeps" "i = the (map_of ids name)" for i name
  proof -
    have "map_of ids name \<noteq> None" using st(2) name(1) by (simp add: map_of_eq_None_iff)
    then have mem: "(name, i) \<in> set ids" using name(2) by (auto dest: map_of_SomeD)
    then consider r where "best_existing s (rt_rows rt) name = Some (i, r)" | nb where "rt_get rt' i = Some (new_rsrc name (st_template s) nb)"
      using S(4)[OF mem] by blast
    then show ?thesis
    proof cases
      case 1
      have row: "(i, r) \<in> set (rt_rows rt)" by (rule best_existing_in[OF 1])
      then have "(i, False) \<in> keys g" unfolding G(3) by force
      then show ?thesis using 1 S(3) row table_get[OF table] by blast
    qed blast
  qed
  show "\<exists>r. rt_get rt' i = Some r" if k: "(i, u) \<in> keys g" for i u
  proof (cases u)
    case True
    then obtain name where "name \<in> keys tdeps" "i = the (map_of ids name)" using k G(2) by auto
    from upd[OF this] show ?thesis by blast
  next
    case False
    then have "i \<in> fst ` set (rt_rows rt)" using k G(3) by simp
    from old[OF this] S(3) show ?thesis by blast
  qed
  note some = this
  assume cand: "candidates_current s (rt_rows rt) (keys tdeps)"
  have "\<exists>r. rt_get rt' i = Some r \<and> (u \<longrightarrow> (rs_replaced_by r = None \<or> rs_template r = st_template s) \<and>
      ((i, False) \<in> keys g \<or> rs_action r = RsrcInit))" if k: "(i, u) \<in> keys g" for i u
  proof (cases u)
    case True
    then obtain name where name: "name \<in> keys tdeps" "i = the (map_of ids name)" using k G(2) by auto
    from upd[OF this] show ?thesis
    proof
      assume "\<exists>r nb. best_existing s (rt_rows rt) name = Some (i, r) \<and> rt_get rt' i = Some (r\<lparr>rs_needed_by := nb\<rparr>) \<and> (i, False) \<in> keys g"
      then obtain r nb where r: "best_existing s (rt_rows rt) name = Some (i, r)" "rt_get rt' i = Some (r\<lparr>rs_needed_by := nb\<rparr>)" "(i, False) \<in> keys g"
        by blast
      have "rs_replaced_by r = None \<or> rs_template r = st_template s"
        using cand name(1) r(1) unfolding candidates_current_def by force
      then show ?thesis using r(2,3) by simp
    qed auto
  qed (use some[OF k] in blast)
  then show "rows_start g s rt'"
    unfolding rows_start_def using G(4) S(1) by (auto simp: table_ok_def)
qed

section \<open>The sync points\<close>

lemma create_run:
  assumes "w_threads w = {#continue (map (\<lambda>(e, u). CreatePoint e u s) ps @ rest)#}"
    "distinct (map (\<lambda>(e, u). (str_entity e, u)) ps)"
    "\<And>e u. (e, u) \<in> set ps \<Longrightarrow> w_points w (str_entity e, st_traversal s, u) = None"
  shows "\<exists>sps. step\<^sup>*\<^sup>* w (w\<lparr>w_points := sps, w_threads := {#continue rest#}\<rparr>) \<and>
    (\<forall>(e, u) \<in> set ps. sps (str_entity e, st_traversal s, u) = Some \<lparr>sp_stack_id = st_id s, sp_atomic_key = 0, sp_input_data = []\<rparr>) \<and>
    (\<forall>key. (\<forall>(e, u) \<in> set ps. key \<noteq> (str_entity e, st_traversal s, u)) \<longrightarrow> sps key = w_points w key)"
  using assms
proof (induction ps arbitrary: w)
  case Nil
  then have "w\<lparr>w_points := w_points w, w_threads := {#continue rest#}\<rparr> = w" by simp
  then have "step\<^sup>*\<^sup>* w (w\<lparr>w_points := w_points w, w_threads := {#continue rest#}\<rparr>)" by simp
  then show ?case by (intro exI[of _ "w_points w"]) simp
next
  case (Cons p ps)
  obtain e u where p: "p = (e, u)" by fastforce
  let ?new = "\<lparr>sp_stack_id = st_id s, sp_atomic_key = 0, sp_input_data = []\<rparr>"
  let ?key = "(str_entity e, st_traversal s, u)"
  have "(str_entity e, u) \<notin> (\<lambda>(e, u). (str_entity e, u)) ` set ps" using Cons.prems(2) by (simp add: p)
  moreover have "(str_entity e', u') \<in> (\<lambda>(e, u). (str_entity e, u)) ` set ps" if "(e', u') \<in> set ps" for e' u'
    by (rule image_eqI[OF _ that]) simp
  ultimately have new: "(e', u') \<in> set ps \<Longrightarrow> (str_entity e', u') \<noteq> (str_entity e, u)" for e' u' by metis
  define todo where "todo = map (\<lambda>(e, u). CreatePoint e u s) ps @ rest"
  define w1 where "w1 = w\<lparr>w_points := (w_points w)(?key \<mapsto> ?new), w_threads := {#continue todo#}\<rparr>"
  have th: "w_threads w = {#continue (CreatePoint e u s # todo)#}" using Cons.prems(1) by (simp add: p todo_def)
  have none: "w_points w ?key = None" using Cons.prems(3) by (simp add: p)
  have "exec NoChoice (CreatePoint e u s) ((continue (CreatePoint e u s # todo))\<lparr>th_todo := todo\<rparr>) w =
      Some (w\<lparr>w_points := (w_points w)(?key \<mapsto> ?new)\<rparr>, continue todo)"
    by (simp add: sp_create_def none continue_def)
  from step.run[OF _ _ this] have "step w w1" by (simp add: th w1_def continue_def)
  moreover have "\<exists>sps. step\<^sup>*\<^sup>* w1 (w1\<lparr>w_points := sps, w_threads := {#continue rest#}\<rparr>) \<and>
    (\<forall>(e, u) \<in> set ps. sps (str_entity e, st_traversal s, u) = Some ?new) \<and>
    (\<forall>key. (\<forall>(e, u) \<in> set ps. key \<noteq> (str_entity e, st_traversal s, u)) \<longrightarrow> sps key = w_points w1 key)"
  proof (rule Cons.IH)
    show "w_threads w1 = {#continue (map (\<lambda>(e, u). CreatePoint e u s) ps @ rest)#}" by (simp add: w1_def todo_def)
    show "distinct (map (\<lambda>(e, u). (str_entity e, u)) ps)" using Cons.prems(2) by simp
    show "w_points w1 (str_entity e', st_traversal s, u') = None" if "(e', u') \<in> set ps" for e' u'
      using new[OF that] Cons.prems(3)[of e' u'] that by (simp add: w1_def)
  qed
  then obtain sps where sps: "step\<^sup>*\<^sup>* w1 (w1\<lparr>w_points := sps, w_threads := {#continue rest#}\<rparr>)"
    "\<forall>(e, u) \<in> set ps. sps (str_entity e, st_traversal s, u) = Some ?new"
    "\<forall>key. (\<forall>(e, u) \<in> set ps. key \<noteq> (str_entity e, st_traversal s, u)) \<longrightarrow> sps key = w_points w1 key" by blast
  have ne: "?key \<noteq> (str_entity e', st_traversal s, u')" if "(e', u') \<in> set ps" for e' u' using new[OF that] by simp
  have "\<forall>(e', u') \<in> set ps. ?key \<noteq> (str_entity e', st_traversal s, u')" by (intro ballI, split prod.split, intro allI impI, rule ne) simp
  then have "sps ?key = Some ?new" using sps(3) by (simp add: w1_def)
  moreover have "w1\<lparr>w_points := sps, w_threads := {#continue rest#}\<rparr> = w\<lparr>w_points := sps, w_threads := {#continue rest#}\<rparr>"
    by (simp add: w1_def)
  moreover have "step\<^sup>*\<^sup>* w (w1\<lparr>w_points := sps, w_threads := {#continue rest#}\<rparr>)"
    using \<open>step w w1\<close> sps(1) by (rule converse_rtranclp_into_rtranclp)
  moreover have "sps key = w_points w key" if "\<forall>(e, u) \<in> set (p # ps). key \<noteq> (str_entity e, st_traversal s, u)" for key
  proof -
    have key: "key \<noteq> ?key" "\<forall>(e, u) \<in> set ps. key \<noteq> (str_entity e, st_traversal s, u)" using that by (simp_all add: p)
    from sps(3)[THEN spec, THEN mp, OF key(2)] show ?thesis using key(1) by (simp add: w1_def)
  qed
  ultimately show ?case using sps(2) by (intro exI[of _ sps]) (simp add: p)
qed


section \<open>From the template to the leaves\<close>

text \<open>The world of a thread that is about to compute the dependencies of a new traversal: the row of
  the stack has the traversal, which has no sync points yet, and nothing else is under way.\<close>

definition converge_ready :: "string graph \<Rightarrow> stack_row \<Rightarrow> world \<Rightarrow> bool" where
  "converge_ready tdeps s w \<longleftrightarrow>
     wf_graph tdeps \<and> w_threads w = {#continue [ConvergeDeps s]#} \<and> w_inbox w = {#} \<and> w_log w = [] \<and>
     map_option st_traversal (w_stack w) = Some (st_traversal s) \<and> st_traversal s \<in> set (w_uuids w) \<and>
     (\<forall>e u. w_points w (e, st_traversal s, u) = None) \<and> int_of_str (st_id s) = None \<and> table_ok (w_rsrcs w)"

lemma converge_start:
  fixes ids :: "(string \<times> int) list"
  assumes ready: "converge_ready tdeps s w" and eq: "update_or_store_resources s tdeps (w_rsrcs w) = Inr (rt, ids)"
    and iter: "dep_iter (convergence_graph (rt_rows (w_rsrcs w)) tdeps ids) = Inr nodes"
  defines "g \<equiv> convergence_graph (rt_rows (w_rsrcs w)) tdeps ids"
  shows "compute_convg_dependencies (rt_rows (w_rsrcs w)) tdeps ids = Inr g"
    "\<exists>w'. step\<^sup>*\<^sup>* w w' \<and> traversal_start g (s\<lparr>st_edges := graph_edges g\<rparr>) w' \<and> w_rsrcs w' = rt"
proof -
  let ?t = "st_traversal s" and ?sid = "st_id s"
  define s' where "s' = s\<lparr>st_edges := graph_edges g\<rparr>"
  have R: "wf_graph tdeps" "w_threads w = {#continue [ConvergeDeps s]#}" "table_ok (w_rsrcs w)"
    "\<And>e u. w_points w (e, ?t, u) = None" "int_of_str ?sid = None"
    using ready by (simp_all add: converge_ready_def)
  obtain r where row: "w_stack w = Some r" "st_traversal r = ?t" using ready by (auto simp: converge_ready_def)
  note wf = convg_graph(1)[OF R(1), of "rt_rows (w_rsrcs w)" ids, folded g_def]
  note rows = converge_rows[OF R(3,1) eq, folded g_def]
  note iter = iter[folded g_def]
  note order = fwd.order[OF wf iter]
  have acyclic: "acyclic (dep_rel g)" using fwd.iterates_iff_acyclic[OF wf] iter by blast
  define ps where "ps = map (\<lambda>(i, u). (RsrcEntity i, u)) nodes @ [(StackEntity ?sid, True)]"
  define w1 where "w1 = w\<lparr>w_rsrcs := rt, w_stack := Some s'\<rparr>"
  define todo where "todo = map (\<lambda>(e, u). CreatePoint e u s') ps @ leaf_triggers g s'"
  have s': "st_traversal s' = ?t" "st_id s' = ?sid" "st_edges s' = graph_edges g" by (simp_all add: s'_def)
  have "stack_store ?t s' (w_stack w) = (True, Some s')" by (simp add: stack_store_def stack_update_def row)
  moreover show comp: "compute_convg_dependencies (rt_rows (w_rsrcs w)) tdeps ids = Inr g"
    using compute_acyclic[OF R(1)] acyclic by (simp add: g_def)
  moreover have "toposort (dep_graph g False) = (nodes, None)"
    using iter by (auto simp: dep_iter_def py_list_def split: prod.splits option.splits)
  ultimately have "exec_converge_deps tdeps s w = (w1, continue todo)"
    unfolding exec_converge_deps_def
    by (simp add: eq Let_def s'_def[symmetric] s' w1_def todo_def ps_def leaf_triggers_def
      case_prod_unfold comp_def)
  then have "exec (TemplateDeps tdeps) (ConvergeDeps s) ((continue [ConvergeDeps s])\<lparr>th_todo := []\<rparr>) w = Some (w1, continue todo)"
    by simp
  from step.run[OF _ _ this] have step1: "step w (w1\<lparr>w_threads := {#continue todo#}\<rparr>)"
    by (simp add: R(2) continue_def)
  have str: "str_of_int i = str_of_int j \<longleftrightarrow> i = j" "str_of_int i \<noteq> ?sid" for i j
    using R(5) int_of_str_str[of i] int_of_str_str[of j] by (metis option.inject, metis option.distinct(1))
  have "inj_on (\<lambda>(i, u). (str_of_int i, u)) A" for A :: "node_key set" by (auto simp: inj_on_def str)
  moreover have "distinct nodes" "set nodes = keys g" using order by (simp_all add: topological_order_def)
  ultimately have dist: "distinct (map (\<lambda>(e, u). (str_entity e, u)) ps)"
    by (auto simp: ps_def str_entity_def comp_def case_prod_unfold distinct_map str(2)[symmetric])
  have "\<exists>sps. step\<^sup>*\<^sup>* (w1\<lparr>w_threads := {#continue todo#}\<rparr>)
      ((w1\<lparr>w_threads := {#continue todo#}\<rparr>)\<lparr>w_points := sps, w_threads := {#continue (leaf_triggers g s')#}\<rparr>) \<and>
    (\<forall>(e, u) \<in> set ps. sps (str_entity e, st_traversal s', u) = Some \<lparr>sp_stack_id = st_id s', sp_atomic_key = 0, sp_input_data = []\<rparr>) \<and>
    (\<forall>key. (\<forall>(e, u) \<in> set ps. key \<noteq> (str_entity e, st_traversal s', u)) \<longrightarrow> sps key = w_points (w1\<lparr>w_threads := {#continue todo#}\<rparr>) key)"
    by (rule create_run[OF _ dist]) (simp_all add: todo_def w1_def s' R(4))
  then obtain sps where run: "step\<^sup>*\<^sup>* (w1\<lparr>w_threads := {#continue todo#}\<rparr>) (w1\<lparr>w_points := sps, w_threads := {#continue (leaf_triggers g s')#}\<rparr>)"
    and pts: "\<forall>(e, u) \<in> set ps. sps (str_entity e, ?t, u) = Some \<lparr>sp_stack_id = ?sid, sp_atomic_key = 0, sp_input_data = []\<rparr>"
    by (auto simp: s')
  define w2 where "w2 = w1\<lparr>w_points := sps, w_threads := {#continue (leaf_triggers g s')#}\<rparr>"
  have points: "w_points w2 (point_key ?sid ?t x) = Some \<lparr>sp_stack_id = ?sid, sp_atomic_key = 0, sp_input_data = []\<rparr>"
    if x: "x \<in> targets (graph_edges g)" for x
  proof (cases x)
    case (ToNode k)
    obtain i u where k: "k = (i, u)" by fastforce
    have "k \<in> keys g" using x graph_edges_iff(2)[OF wf] by (auto simp: targets_def ToNode)
    then have "(RsrcEntity i, u) \<in> set ps" using \<open>set nodes = keys g\<close> by (force simp: ps_def k)
    from bspec[OF pts this] show ?thesis by (simp add: w2_def ToNode k point_key_def str_entity_def)
  next
    case ToStack
    have "(StackEntity ?sid, True) \<in> set ps" by (simp add: ps_def)
    from bspec[OF pts this] show ?thesis by (simp add: w2_def ToStack point_key_def str_entity_def)
  qed
  have next_id: "i < rt_next rt" if "(i, q) \<in> set (rt_rows rt)" for i q using rows(1) that by (auto simp: table_ok_def)
  have "fst k < rt_next rt" if k: "k \<in> keys g" for k
  proof -
    obtain q where "rt_get rt (fst k) = Some q" using rows(2)[of "fst k" "snd k"] k by auto
    then show ?thesis using table_get[OF rows(1)] next_id by blast
  qed
  then have "traversal_start g s' w2"
    using wf acyclic ready points next_id
    by (auto simp: traversal_start_def s' w2_def w1_def converge_ready_def)
  moreover have "step\<^sup>*\<^sup>* w w2" using converse_rtranclp_into_rtranclp[of step, OF step1 run] by (simp add: w2_def)
  moreover have "w_rsrcs w2 = rt" by (simp add: w2_def w1_def)
  ultimately show "\<exists>w'. step\<^sup>*\<^sup>* w w' \<and> traversal_start g (s\<lparr>st_edges := graph_edges g\<rparr>) w' \<and> w_rsrcs w' = rt"
    unfolding s'_def by blast
qed

end
