(* ===== verification/Heat_Convergence.thy ===== *)
theory Heat_Convergence
  imports Heat_Termination Heat_Setup
begin

text \<open>
  The traversals of Heat's convergence engine: what they promise in every run, with engines that die,
  checks that fail and traversals that start at any time, and what they reach when all goes well.
\<close>

section \<open>Smooth runs end complete\<close>

lemma rows_startD:
  assumes "rows_start g s rt"
  shows "(i, u) \<in> keys g \<Longrightarrow> \<exists>r. rt_get rt i = Some r \<and>
      (u \<longrightarrow> (rs_replaced_by r = None \<or> rs_template r = st_template s) \<and> ((i, False) \<in> keys g \<or> rs_action r = RsrcInit))"
    "(i, True) \<in> keys g \<Longrightarrow> (i, False) \<in> keys g \<Longrightarrow> (i, True) \<in> requires g (i, False)"
    "(i, r) \<in> set (rt_rows rt) \<Longrightarrow> rs_replaced_by r = Some j \<Longrightarrow> j < rt_next rt"
  using assms unfolding rows_start_def by (fastforce dest: bspec)+

lemma start_good:
  assumes start: "traversal_start g s w" and rows: "rows_start g s (w_rsrcs w)"
  shows "good (st_edges s) (rt_next (w_rsrcs w)) s w"
proof -
  let ?es = "st_edges s" and ?t = "st_traversal s" and ?n0 = "rt_next (w_rsrcs w)"
  note G = start_graph[OF start] and S = rows_startD[OF rows]
  have w: "w_log w = []" "w_inbox w = {#}" "w_stack w = Some s" "w_threads w = {#continue (leaf_triggers g s)#}"
    using start by (simp_all add: traversal_start_def)
  have h: "holder [] k = fst k" for k by (simp add: holder_def)
  have R: "((i, False), (i, True)) \<in> edge_rel ?es" if "(i, False) \<in> keys g" "(i, True) \<in> keys g" for i
    using S(2)[OF that(2,1)] by (simp add: G(2) dep_rel_def)
  have ready: "\<exists>r. rt_get (w_rsrcs w) (fst k) = Some r \<and> row_ready ?es (st_template s) k (fst k) r" if k: "k \<in> keys g" for k
  proof -
    obtain i u where iu: "k = (i, u)" by fastforce
    obtain r where r: "rt_get (w_rsrcs w) i = Some r"
      "u \<longrightarrow> (rs_replaced_by r = None \<or> rs_template r = st_template s) \<and> ((i, False) \<in> keys g \<or> rs_action r = RsrcInit)"
      using S(1)[of i u] k unfolding iu by blast
    then have "row_ready ?es (st_template s) k i r"
      using R[of i] k unfolding iu row_ready_def by (cases u) auto
    then show ?thesis using r(1) by (simp add: iu)
  qed
  have "rows_ready ?es ?t (st_template s) [] (w_rsrcs w)"
    unfolding rows_ready_def h G(1)
    using ready by blast
  moreover have "links_ok ?n0 [] i r" if "(i, r) \<in> set (rt_rows (w_rsrcs w))" for i r
    using S(3)[OF that] by (fastforce simp: links_ok_def)
  moreover have "smooth_action ?es ?t ?n0 s [] a" if "a \<in> set (leaf_triggers g s)" for a
    using that by (auto simp: leaf_triggers_def split: if_splits)
  ultimately have "smooth_inv ?es ?n0 s w"
    using R by (auto simp: smooth_inv_def Let_def w G(1) continue_def)
  then show ?thesis
    using start_inv[OF start] G(3) ts_inv_start balanced_start[OF G(3)]
    unfolding good_def start_view[OF start] by blast
qed

interpretation smoothly: simulation smooth "ts_exact (edge_nodes es) (edge_rel es)" "good es n0 s" "view es (st_id s) (st_traversal s)"
  for es n0 s
  by unfold_locales (auto intro: smooth_good)

text \<open>A smooth run cannot go on for ever.\<close>

lemma no_endless_run:
  assumes good: "good es n0 s (f 0)"
  shows "\<exists>i. \<not> smooth (f i) (f (Suc i))"
proof (rule ccontr)
  assume "\<nexists>i. \<not> smooth (f i) (f (Suc i))"
  then have step: "smooth (f i) (f (Suc i))" for i by blast
  have good: "good es n0 s (f i)" for i by (induction i) (use good smooth_good(2)[OF _ step] in auto)
  have "(rank es n0 s (f (Suc i)), rank es n0 s (f i)) \<in> rank_less" for i using smooth_rank[OF good step] .
  then show False using wf_no_infinite_down_chainE[OF wf_rank_less, of "\<lambda>i. rank es n0 s (f i)"] by blast
qed

text \<open>It can go on while a message or a thread is left.\<close>

lemma smooth_enabled:
  assumes good: "good es n0 s w" and stuck: "\<And>w'. \<not> smooth w w'"
  shows "w_inbox w = {#}" "w_threads w = {#}"
proof -
  show "w_inbox w = {#}" using smooth.deliver stuck by (meson multiset_nonemptyE)
  show "w_threads w = {#}"
  proof (rule ccontr)
    assume "w_threads w \<noteq> {#}"
    then obtain th where th: "th \<in># w_threads w" by blast
    show False
    proof (cases "th_todo th")
      case Nil
      then show False using smooth.finish[OF th] stuck by blast
    next
      case (Cons a rest)
      have sm: "smooth_action es (st_traversal s) n0 s (w_log w) a" by (rule smooth_rest(1)[OF goodD(5)[OF good] th Cons])
      have "\<exists>ch r. smooth_choice ch \<and> exec ch a (th\<lparr>th_todo := rest\<rparr>) w = Some r"
      proof (cases "\<exists>m s' r data. a = Check m s' r data")
        case True
        then obtain m s' r data where a: "a = Check m s' r data" by blast
        have "smooth_choice (CheckOk True JNull [] [])" by simp
        moreover have "\<exists>res. exec (CheckOk True JNull [] []) a (th\<lparr>th_todo := rest\<rparr>) w = Some res" by (simp add: a Let_def)
        ultimately show ?thesis by blast
      next
        case False
        have "\<exists>res. exec NoChoice a (th\<lparr>th_todo := rest\<rparr>) w = Some res"
          using sm False by (cases a) (auto split: prod.splits)
        then show ?thesis using smooth_choice.simps(3) by blast
      qed
      then obtain ch w' th' where "smooth_choice ch" "exec ch a (th\<lparr>th_todo := rest\<rparr>) w = Some (w', th')" by fastforce
      from smooth.run[OF th Cons this] stuck show False by blast
    qed
  qed
qed

lemma stuck_complete:
  assumes good: "good es n0 s w" and stuck: "\<And>w'. \<not> smooth w w'"
  shows "count_list (w_log w) (Completed (st_traversal s)) = 1"
    "k \<in> edge_nodes es \<Longrightarrow> count_list (w_log w) (Triggered (st_traversal s) k) = 1 \<and> count_list (w_log w) (Checked (st_traversal s) k) = 1"
    "row_complete s (w_stack w)"
proof -
  let ?v = "view es (st_id s) (st_traversal s) w"
  note empty = smooth_enabled[OF good stuck]
  have zero: "cnt P w = 0" for P by (simp add: cnt_def empty)
  have rest: "ts_at_rest (edge_nodes es) (edge_rel es) ?v"
    by (simp add: ts_at_rest_def view_simps zero tok_mail mail_def empty)
  note fin = at_rest_complete[OF goodD(3)[OF good] goodD(6)[OF good] goodD(7)[OF good] rest]
  show one: "count_list (w_log w) (Completed (st_traversal s)) = 1" using fin(1) by (simp add: view_simps)
  show "k \<in> edge_nodes es \<Longrightarrow> count_list (w_log w) (Triggered (st_traversal s) k) = 1 \<and> count_list (w_log w) (Checked (st_traversal s) k) = 1"
    using fin(2)[of k] by (simp add: view_simps)
  show "row_complete s (w_stack w)" by (rule smooth_invD(9)[OF goodD(5)[OF good]]) (use one pos_count in force)
qed


section \<open>Rollbacks\<close>

text \<open>The end of a rollback purges nothing: the state is written, but \<open>state_set\<close> does not say so.\<close>

definition unpurged :: "world \<Rightarrow> bool" where
  "unpurged w \<longleftrightarrow> (\<forall>th \<in># w_threads w. \<forall>a \<in> set (th_todo th). \<not> purging a)"

lemma rollback_exec:
  assumes good: "good es n0 s w" and rb: "st_action s = ROLLBACK" and th: "th \<in># w_threads w" "th_todo th = a # rest"
    and ch: "smooth_choice ch" and ex: "exec ch a (th\<lparr>th_todo := rest\<rparr>) w = Some (w', th')" and a: "\<not> purging a"
  shows "b \<in> set (th_todo th') \<Longrightarrow> b \<in> set rest \<or> \<not> purging b"
    "map_option st_prev_template (w_stack w') = map_option st_prev_template (w_stack w)"
    "w_points w' key = None \<longleftrightarrow> w_points w key = None"
proof -
  have sm: "smooth_action es (st_traversal s) n0 s (w_log w) a" by (rule smooth_rest(1)[OF goodD(5)[OF good] th])
  have "(\<forall>b \<in> set (th_todo th'). b \<in> set rest \<or> \<not> purging b) \<and>
    map_option st_prev_template (w_stack w') = map_option st_prev_template (w_stack w) \<and>
    (\<forall>key. w_points w' key = None \<longleftrightarrow> w_points w key = None)"
  proof (cases a)
    case (Check m s' r data)
    consider changed reference_id attrs uuid where "ch = CheckOk changed reference_id attrs uuid" | "ch = CheckReplace"
      using ch ex unfolding Check by (cases ch) auto
    then show ?thesis
    proof cases
      case 1
      have "\<forall>b \<in> set (th_todo th'). \<exists>c p. b = SyncRead c p"
        using check_ok_smooth(3)[OF good th[unfolded Check] ex[unfolded Check 1]] .
      moreover have "w_stack w' = w_stack w" "w_points w' = w_points w"
        using ex unfolding Check 1 by (auto simp: Let_def split: if_splits)
      ultimately show ?thesis by fastforce
    next
      case 2
      then show ?thesis using ex unfolding Check by (auto simp: continue_def split: if_splits prod.splits)
    qed
  next
    case (SyncRead c p)
    show ?thesis using read_smooth(3,4)[OF good th[unfolded SyncRead] ex[unfolded SyncRead]] by auto
  next
    case (SyncWrite c p ak d)
    have c: "sa_traversal c = st_traversal s" using sm by (simp add: SyncWrite)
    obtain rows sps where wr: "sync_write (w_points w) c ak d = Inr (rows, sps)"
      using write_refused(1)[OF goodD(2)[OF good] th[unfolded SyncWrite] ex[unfolded SyncWrite]] c
      by (cases "sync_write (w_points w) c ak d") auto
    have "\<not> purging b" if "b \<in> set (after_sync c p d)" for b
      using that by (auto simp: after_sync_def split: if_splits propagate.splits entity.splits)
    moreover have "sps key = None \<longleftrightarrow> w_points w key = None" if "rows \<noteq> 0" for key
      using wr by (cases rule: sync_write_cases) (use that in auto)
    ultimately show ?thesis using ex wr unfolding SyncWrite by (auto simp: exec_sync_write_def split: if_splits)
  next
    case (MarkComplete s')
    have "s' = s" using sm unfolding MarkComplete by simp
    then have "th_todo th' = rest" "w_points w' = w_points w" and w': "w_stack w' = snd (state_set s COMPLETE (w_stack w))"
      using ex rb unfolding MarkComplete
      by (auto simp: exec_mark_complete_def state_set_def Let_def split: prod.splits if_splits)
    moreover have "map_option st_prev_template (w_stack w') = map_option st_prev_template (w_stack w)"
      unfolding w' using rb by (auto simp: state_set_def persist_state_def stack_update_def Let_def split: option.splits)
    ultimately show ?thesis by auto
  qed (use sm a ex in \<open>auto split: prod.splits\<close>)
  then show "b \<in> set (th_todo th') \<Longrightarrow> b \<in> set rest \<or> \<not> purging b"
    "map_option st_prev_template (w_stack w') = map_option st_prev_template (w_stack w)"
    "w_points w' key = None \<longleftrightarrow> w_points w key = None" by blast+
qed

lemma rollback_step:
  assumes good: "good es n0 s w" and rb: "st_action s = ROLLBACK" and un: "unpurged w" and step: "smooth w w'"
  shows "unpurged w'" "map_option st_prev_template (w_stack w') = map_option st_prev_template (w_stack w)"
    "w_points w' key = None \<longleftrightarrow> w_points w key = None"
proof -
  have "unpurged w' \<and> map_option st_prev_template (w_stack w') = map_option st_prev_template (w_stack w) \<and>
    (w_points w' key = None \<longleftrightarrow> w_points w key = None)"
    using step
  proof (cases rule: smooth.cases)
    case (deliver m)
    obtain r data where "begin_check False m w = continue [Check m s r data]" using deliver_check[OF good deliver(2)] by metis
    then show ?thesis using un by (auto simp: deliver(1) unpurged_def continue_def)
  next
    case (run th a rest ch w1 th')
    have a: "\<not> purging a" "\<And>b. b \<in> set rest \<Longrightarrow> \<not> purging b" using un run(2,3) by (auto simp: unpurged_def)
    note ex = rollback_exec[OF good rb run(2-5) a(1)]
    have "unpurged w'" using un ex(1) a(2) unfolding run(1) unpurged_def by (auto dest: in_diffD)
    then show ?thesis using ex(2,3) by (simp add: run(1))
  next
    case (finish th)
    then show ?thesis using un by (auto simp: unpurged_def dest: in_diffD)
  qed
  then show "unpurged w'" "map_option st_prev_template (w_stack w') = map_option st_prev_template (w_stack w)"
    "w_points w' key = None \<longleftrightarrow> w_points w key = None" by blast+
qed

lemma rollback_run:
  assumes "smooth\<^sup>*\<^sup>* w w'" and good: "good es n0 s w" and rb: "st_action s = ROLLBACK" and un: "unpurged w"
  shows "map_option st_prev_template (w_stack w') = map_option st_prev_template (w_stack w)"
    "w_points w' key = None \<longleftrightarrow> w_points w key = None"
proof -
  have "good es n0 s w' \<and> unpurged w' \<and> map_option st_prev_template (w_stack w') = map_option st_prev_template (w_stack w) \<and>
      (w_points w' key = None \<longleftrightarrow> w_points w key = None)"
    using assms(1)
  proof (induction rule: rtranclp_induct)
    case (step w1 w2)
    note st = rollback_step[OF _ rb _ step.hyps(2), of es n0]
    show ?case using step.IH st(1,2,3) smooth_good(2)[OF _ step.hyps(2)] by auto
  qed (use good un in simp)
  then show "map_option st_prev_template (w_stack w') = map_option st_prev_template (w_stack w)"
    "w_points w' key = None \<longleftrightarrow> w_points w key = None" by blast+
qed

lemma start_unpurged: "traversal_start g s w \<Longrightarrow> unpurged w"
  by (auto simp: traversal_start_def unpurged_def leaf_triggers_def continue_def split: if_splits)

section \<open>A start to look at\<close>

text \<open>The first world of a traversal, with the tables given.\<close>

definition start_world :: "node_key graph \<Rightarrow> stack_row \<Rightarrow> rsrc_table \<Rightarrow> world" where
  "start_world g s rt = \<lparr>w_points = (\<lambda>key. if key \<in> point_key (st_id s) (st_traversal s) ` insert ToStack (ToNode ` keys g)
       then Some \<lparr>sp_stack_id = st_id s, sp_atomic_key = 0, sp_input_data = []\<rparr> else None),
     w_rsrcs = rt, w_stack = Some s, w_inbox = {#}, w_threads = {#continue (leaf_triggers g s)#},
     w_uuids = [st_traversal s], w_log = []\<rparr>"

lemma start_world_start:
  assumes "wf_graph g" "acyclic (dep_rel g)" "st_edges s = graph_edges g" "int_of_str (st_id s) = None"
    "\<And>i r. (i, r) \<in> set (rt_rows rt) \<Longrightarrow> i < rt_next rt" "\<And>k. k \<in> keys g \<Longrightarrow> fst k < rt_next rt"
  shows "traversal_start g s (start_world g s rt)"
  using assms graph_edges_iff(2)[OF assms(1)] by (auto simp: traversal_start_def start_world_def targets_def)

text \<open>An update of a stack: the port exists already, the server is new and requires it.\<close>

definition demo_deps :: "node_key graph" where
  "demo_deps = dependencies [((2, True), Some (1, True)), ((1, False), Some (1, True))]"

definition demo_stack :: "stack_action \<Rightarrow> stack_row" where
  "demo_stack act = \<lparr>st_id = ''stack'', st_traversal = ''t1'', st_edges = graph_edges demo_deps, st_action = act,
     st_status = IN_PROGRESS, st_template = 1, st_prev_template = Some 0, st_disable_rollback = True\<rparr>"

definition demo_port :: rsrc where
  "demo_port = \<lparr>rs_name = ''port'', rs_action = RsrcCreate, rs_status = ''COMPLETE'', rs_template = 0,
     rs_replaces = None, rs_replaced_by = None, rs_requires = [], rs_needed_by = []\<rparr>"

definition demo_rows :: rsrc_table where
  "demo_rows = \<lparr>rt_rows = [(1, demo_port), (2, new_rsrc ''server'' 1 [])], rt_next = 3\<rparr>"

lemma demo_graph:
  "keys demo_deps = {(2, True), (1, True), (1, False)}" "dep_rel demo_deps = {((2, True), (1, True)), ((1, False), (1, True))}"
  "wf_graph demo_deps" "acyclic (dep_rel demo_deps)"
proof -
  show "keys demo_deps = {(2, True), (1, True), (1, False)}" by (auto simp: demo_deps_def edge_nodes_def)
  show "dep_rel demo_deps = {((2, True), (1, True)), ((1, False), (1, True))}" by (auto simp: demo_deps_def edge_rel_def)
  show wf: "wf_graph demo_deps" by (simp add: demo_deps_def)
  have "(case dep_iter demo_deps of Inr _ \<Rightarrow> True | Inl _ \<Rightarrow> False)" by code_simp
  then show "acyclic (dep_rel demo_deps)" using fwd.iterates_iff_acyclic[OF wf] by (auto split: sum.splits)
qed

lemma demo_start: "traversal_start demo_deps (demo_stack act) (start_world demo_deps (demo_stack act) demo_rows)"
proof (rule start_world_start)
  show "int_of_str (st_id (demo_stack act)) = None" unfolding demo_stack_def stack_row.simps by code_simp
  show "acyclic (dep_rel demo_deps)" by (rule demo_graph(4))
qed (auto simp: demo_graph(1,3) demo_stack_def demo_rows_def)

lemma demo_rows_start: "rows_start demo_deps (demo_stack act) demo_rows"
proof -
  have "(1, True) \<in> requires demo_deps (1, False)" using demo_graph(2) by (auto simp: dep_rel_def)
  then show ?thesis
    by (auto simp: rows_start_def demo_graph demo_rows_def rt_get_def demo_stack_def demo_port_def new_rsrc_def)
qed


text \<open>Where no run is endless, some run ends.\<close>

lemma some_run_ends:
  assumes "\<forall>f. f 0 = x \<longrightarrow> (\<exists>i. \<not> r (f i) (f (Suc i)))"
  shows "\<exists>y. r\<^sup>*\<^sup>* x y \<and> (\<forall>z. \<not> r y z)"
proof (rule ccontr)
  assume "\<nexists>y. r\<^sup>*\<^sup>* x y \<and> (\<forall>z. \<not> r y z)"
  then have more: "\<exists>z. r y z" if "r\<^sup>*\<^sup>* x y" for y using that by blast
  define f where "f = rec_nat x (\<lambda>_ y. SOME z. r y z)"
  have f: "f 0 = x" "f (Suc i) = (SOME z. r (f i) z)" for i by (simp_all add: f_def)
  have "r\<^sup>*\<^sup>* x (f i) \<and> r (f i) (f (Suc i))" for i
  proof (induction i)
    case 0
    show ?case using someI_ex[OF more[of x]] by (simp add: f)
  next
    case (Suc i)
    then have "r\<^sup>*\<^sup>* x (f (Suc i))" by (meson rtranclp.rtrancl_into_rtrancl)
    then show ?case using someI_ex[OF more[of "f (Suc i)"]] by (simp add: f(2)[of "Suc i"])
  qed
  then show False using assms f(1) by blast
qed

section \<open>Workers of an earlier traversal\<close>

text \<open>
  A worker of an earlier traversal whose sync points are gone looks at the stack and retriggers its
  resource for the current traversal. The sync point of a leaf waits for nothing, so the leaf is
  triggered, although the thread that started the traversal triggers it as well.
\<close>

lemma stale_worker_triggers_again:
  fixes i :: int and u :: bool
  assumes th: "th \<in># w_threads w" "th_handler th = Propagating i u old" "th_todo th = SyncRead c p # rest"
    and gone: "w_points w (call_key c) = None"
    and s: "w_stack w = Some s" "st_traversal s \<noteq> old" "(i, u) \<in> set (leaves (convergence_dependencies s))"
    and pt: "w_points w (str_of_int i, st_traversal s, u) = Some sp"
      "deserialize_input_data (sp_input_data sp) = Inr d" "plain (JDict d)"
  shows "\<exists>w'. step\<^sup>*\<^sup>* w w' \<and> w_log w' = Triggered (st_traversal s) (i, u) # w_log w"
proof -
  let ?t = "st_traversal s"
  define ws where "ws = w_threads w - {#th#}"
  define c' where "c' = \<lparr>sa_entity = RsrcEntity i, sa_traversal = ?t, sa_update = u, sa_preds = [], sa_key = (i, u), sa_data = JNull\<rparr>"
  define d' where "d' = AList.update (KTuple (i, u)) JNull d"
  define m where "m = \<lparr>m_rsrc = i, m_traversal = ?t, m_data = serialize_input_data d', m_update = u, m_adopt = JNull\<rparr>"
  define thr where "thr todo = \<lparr>th_handler = Retriggering, th_todo = todo\<rparr>" for todo
  have wf: "wf_graph (convergence_dependencies s)" by (simp add: convergence_dependencies_def)
  have leaf: "(i, u) \<in> keys (convergence_dependencies s)" "requires (convergence_dependencies s) (i, u) = {}"
    using s(3) set_leaves[OF wf] by auto
  then have "retrigger_check_resource u i s = thr [SyncRead c' (DoCheck JNull)]"
    by (simp add: retrigger_check_resource_def propagate_check_resource_def c'_def thr_def requires_def Let_def)
  moreover have "sync_read (w_points w) c = Inl (SyncPointNotFound (call_key c))"
    using gone by (simp add: sync_read_def sp_get_def call_key_def)
  ultimately have 1: "exec NoChoice (SyncRead c p) (th\<lparr>th_todo := rest\<rparr>) w = Some (w, thr [SyncRead c' (DoCheck JNull)])"
    using s(1,2) by (simp add: exec_sync_read_def not_found_def th(2))
  define w1 where "w1 = w\<lparr>w_threads := add_mset (thr [SyncRead c' (DoCheck JNull)]) ws\<rparr>"
  have s1: "step w w1" using step.run[OF th(1,3) 1] by (simp add: w1_def ws_def)
  have key: "call_key c' = (str_of_int i, ?t, u)" by (simp add: call_key_def c'_def str_entity_def)
  have "sync_read (w_points w) c' = Inr (sp_atomic_key sp, d')"
    using pt by (simp add: sync_read_def sp_get_def c'_def str_entity_def d'_def)
  then have 2: "exec NoChoice (SyncRead c' (DoCheck JNull)) ((thr [SyncRead c' (DoCheck JNull)])\<lparr>th_todo := []\<rparr>) w1 =
      Some (w1, thr [SyncWrite c' (DoCheck JNull) (sp_atomic_key sp) d'])"
    by (simp add: exec_sync_read_def w1_def thr_def)
  define w2 where "w2 = w\<lparr>w_threads := add_mset (thr [SyncWrite c' (DoCheck JNull) (sp_atomic_key sp) d']) ws\<rparr>"
  have s2: "step w1 w2" using step.run[OF _ _ 2] by (simp add: w1_def w2_def thr_def)
  have "plain (JDict d')" unfolding d'_def by (rule plain_update[OF pt(3)]) simp
  then have "sync_write (w_points w) c' (sp_atomic_key sp) d' = Inr (1, (w_points w)((str_of_int i, ?t, u) \<mapsto>
      sp\<lparr>sp_atomic_key := sp_atomic_key sp + 1, sp_input_data := serialize_input_data d'\<rparr>))"
    using pt(1) by (simp add: sync_write_def plain_column sp_update_input_data_def c'_def str_entity_def del: plain.simps)
  moreover have "after_sync c' (DoCheck JNull) d' = [Trigger m]"
    by (simp add: after_sync_def sync_waiting_def c'_def m_def)
  ultimately have "\<exists>sps. exec NoChoice (SyncWrite c' (DoCheck JNull) (sp_atomic_key sp) d')
      ((thr [SyncWrite c' (DoCheck JNull) (sp_atomic_key sp) d'])\<lparr>th_todo := []\<rparr>) w2 = Some (w2\<lparr>w_points := sps\<rparr>, thr [Trigger m])"
    by (auto simp: exec_sync_write_def w2_def thr_def)
  then obtain sps where 3: "exec NoChoice (SyncWrite c' (DoCheck JNull) (sp_atomic_key sp) d')
      ((thr [SyncWrite c' (DoCheck JNull) (sp_atomic_key sp) d'])\<lparr>th_todo := []\<rparr>) w2 = Some (w2\<lparr>w_points := sps\<rparr>, thr [Trigger m])"
    by blast
  define w3 where "w3 = w\<lparr>w_points := sps, w_threads := add_mset (thr [Trigger m]) ws\<rparr>"
  have s3: "step w2 w3" using step.run[OF _ _ 3] by (simp add: w2_def w3_def thr_def)
  have 4: "exec NoChoice (Trigger m) ((thr [Trigger m])\<lparr>th_todo := []\<rparr>) w3 =
      Some (w3\<lparr>w_inbox := add_mset m (w_inbox w), w_log := Triggered ?t (i, u) # w_log w\<rparr>, thr [])"
    by (simp add: w3_def thr_def m_def)
  have "\<exists>w4. step w3 w4 \<and> w_log w4 = Triggered ?t (i, u) # w_log w"
    using step.run[OF _ _ 4] by (intro exI conjI) (auto simp: w3_def thr_def)
  then show ?thesis
    using s1 s2 s3 by (meson converse_rtranclp_into_rtranclp rtranclp.rtrancl_refl)
qed

section \<open>Properties\<close>

text \<open>Claim C5. A traversal in which every check of a resource ends well, with or without a
  replacement, comes to its end: its threads race for the sync points and repeat the writes that
  fail, yet no run is endless, and when nothing is left to do every node of the graph, update or
  cleanup, was triggered exactly once and checked exactly once, the stack was marked complete exactly
  once, and its row says so (or is gone, when the traversal deleted the stack). The start is the one
  that C12 sets up: no superseded resource was picked for an update, whose message would be dropped,
  and no thread or message of an earlier traversal is left, whose worker might trigger a node again.
  In between no engine dies, no check fails, times out or meets a lock, and no request comes.\<close>

theorem traversal_completes:
  assumes "traversal_start g s w0" "rows_start g s (w_rsrcs w0)"
  shows "(\<forall>f. f 0 = w0 \<longrightarrow> (\<exists>i. \<not> smooth (f i) (f (Suc i)))) \<and>
    (\<forall>w. smooth\<^sup>*\<^sup>* w0 w \<and> (\<forall>w'. \<not> smooth w w') \<longrightarrow>
       count_list (w_log w) (Completed (st_traversal s)) = 1 \<and>
       (\<forall>k \<in> keys g. count_list (w_log w) (Triggered (st_traversal s) k) = 1 \<and>
                     count_list (w_log w) (Checked (st_traversal s) k) = 1) \<and>
       row_complete s (w_stack w))"
proof -
  note good = start_good[OF assms]
  have stuck: "count_list (w_log w) (Completed (st_traversal s)) = 1 \<and>
       (\<forall>k \<in> keys g. count_list (w_log w) (Triggered (st_traversal s) k) = 1 \<and>
                     count_list (w_log w) (Checked (st_traversal s) k) = 1) \<and> row_complete s (w_stack w)"
    if "smooth\<^sup>*\<^sup>* w0 w" "\<forall>w'. \<not> smooth w w'" for w
  proof -
    have "good (st_edges s) (rt_next (w_rsrcs w0)) s w" using smoothly.sim_run[OF that(1) good] by blast
    note end_facts = stuck_complete[OF this, folded start_graph(1)[OF assms(1)]]
    show ?thesis using end_facts that(2) start_graph(1)[OF assms(1)] by blast
  qed
  then show ?thesis using no_endless_run good by blast
qed

theorem traversal_completes_witness:
  "\<exists>w. smooth\<^sup>*\<^sup>* (start_world demo_deps (demo_stack UPDATE) demo_rows) w \<and>
     count_list (w_log w) (Checked ''t1'' (1, True)) = 1 \<and> count_list (w_log w) (Checked ''t1'' (2, True)) = 1 \<and>
     count_list (w_log w) (Checked ''t1'' (1, False)) = 1 \<and> map_option st_status (w_stack w) = Some COMPLETE"
proof -
  let ?w = "start_world demo_deps (demo_stack UPDATE) demo_rows"
  have "rows_start demo_deps (demo_stack UPDATE) (w_rsrcs ?w)"
    by (simp add: start_world_def demo_rows_start)
  note fin = traversal_completes[OF demo_start[of UPDATE] this]
  obtain w where w: "smooth\<^sup>*\<^sup>* ?w w" "\<And>w'. \<not> smooth w w'" using some_run_ends[OF fin[THEN conjunct1]] by blast
  have t: "st_traversal (demo_stack UPDATE) = ''t1''" by (simp add: demo_stack_def)
  have row: "row_complete (demo_stack UPDATE) row \<Longrightarrow> map_option st_status row = Some COMPLETE" for row
    by (cases row) (simp_all add: row_complete_def traversal_action_def demo_stack_def)
  show ?thesis using fin[THEN conjunct2] w row unfolding t demo_graph(1) by blast
qed

text \<open>Claim C6. From the start that C12 sets up, with no thread or message of an earlier traversal left,
  a node is triggered at most once and checked at most once, and triggered only after every node it
  requires was checked; and the stack is marked complete at most once, only after every node was
  checked, the cleanups included. From then on anything may happen: engines die, checks fail, time
  out or find a lock, other traversals start. A thread of an earlier traversal at the start would
  break it, since its worker may trigger a leaf of this one again (lemma stale_worker_triggers_again).
  What the plugins return survives the database in the sense of C22.\<close>

theorem traversal_safe:
  assumes "traversal_start g s w0" "step\<^sup>*\<^sup>* w0 w"
  shows "(\<forall>k \<in> keys g. count_list (w_log w) (Triggered (st_traversal s) k) \<le> 1 \<and>
       count_list (w_log w) (Checked (st_traversal s) k) \<le> count_list (w_log w) (Triggered (st_traversal s) k) \<and>
       (Triggered (st_traversal s) k \<in> set (w_log w) \<longrightarrow> (\<forall>r \<in> requires g k. Checked (st_traversal s) r \<in> set (w_log w)))) \<and>
    count_list (w_log w) (Completed (st_traversal s)) \<le> 1 \<and>
    (Completed (st_traversal s) \<in> set (w_log w) \<longrightarrow>
       (\<forall>k \<in> keys g. count_list (w_log w) (Checked (st_traversal s) k) = 1))"
proof -
  let ?v = "view (st_edges s) (st_id s) (st_traversal s) w" and ?t = "st_traversal s"
  note inv = reachable_ts_inv[OF assms] and G = start_graph[OF assms(1)]
  have v: "ts_trig ?v k = count_list (w_log w) (Triggered ?t k)" "ts_done ?v k = count_list (w_log w) (Checked ?t k)"
    if "k \<in> keys g" for k using that by (simp_all add: view_simps G(1))
  have "count_list (w_log w) (Triggered ?t k) \<le> 1 \<and> count_list (w_log w) (Checked ?t k) \<le> count_list (w_log w) (Triggered ?t k)"
    if k: "k \<in> keys g" for k using ts_onceD(1,2)[OF inv k] v[OF k] by linarith
  moreover have "Checked ?t r \<in> set (w_log w)" if k: "k \<in> keys g" "Triggered ?t k \<in> set (w_log w)" "r \<in> requires g k" for k r
  proof -
    have r: "r \<in> keys g" using dep_rel_keys[of g k r] assms(1) k(3) by (simp add: traversal_start_def dep_rel_def)
    have "0 < ts_pend ?v k + ts_trig ?v k" using k(2) by (simp add: v(1)[OF k(1)] pos_count)
    from ts_causalD(1)[OF inv k(1) this, of r] show ?thesis using k(3) by (simp add: v(2)[OF r] pos_count dep_rel_def)
  qed
  moreover have "count_list (w_log w) (Completed ?t) \<le> 1" using ts_onceD(4)[OF inv] by (simp add: view_simps)
  moreover have "count_list (w_log w) (Checked ?t k) = 1" if "Completed ?t \<in> set (w_log w)" and k: "k \<in> keys g" for k
  proof -
    have "0 < ts_cpend ?v + ts_comp ?v" using that(1) by (simp add: view_simps pos_count)
    from ts_causalD(3)[OF inv this k] show ?thesis by (simp add: v(2)[OF k])
  qed
  ultimately show ?thesis by blast
qed

definition demo_triggered :: world where
  "demo_triggered = (let w = start_world demo_deps (demo_stack UPDATE) demo_rows in
     w\<lparr>w_inbox := {#\<lparr>m_rsrc = 1, m_traversal = ''t1'', m_data = serialize_input_data [], m_update = True, m_adopt = JNull\<rparr>#},
       w_log := [Triggered ''t1'' (1, True)], w_threads := {#stop#}\<rparr>)"

lemma demo_step: "step (start_world demo_deps (demo_stack UPDATE) demo_rows) demo_triggered"
proof -
  let ?w = "start_world demo_deps (demo_stack UPDATE) demo_rows"
  let ?m = "\<lparr>m_rsrc = 1, m_traversal = ''t1'', m_data = serialize_input_data [], m_update = True, m_adopt = JNull\<rparr>"
  have "leaves demo_deps = [(1, True)]" by code_simp
  then have th: "w_threads ?w = {#continue [Trigger ?m]#}" by (simp add: start_world_def leaf_triggers_def demo_stack_def)
  have "exec NoChoice (Trigger ?m) ((continue [Trigger ?m])\<lparr>th_todo := []\<rparr>) ?w =
      Some (?w\<lparr>w_inbox := {#?m#}, w_log := [Triggered ''t1'' (1, True)]\<rparr>, stop)"
    by (simp add: start_world_def continue_def stop_def)
  from step.run[OF _ _ this] show ?thesis by (simp add: th continue_def demo_triggered_def Let_def)
qed

theorem traversal_safe_witness:
  "count_list (w_log demo_triggered) (Triggered ''t1'' (1, True)) = 1 \<and>
   count_list (w_log demo_triggered) (Checked ''t1'' (1, True)) \<le> 1 \<and> Completed ''t1'' \<notin> set (w_log demo_triggered)"
proof -
  have t: "st_traversal (demo_stack UPDATE) = ''t1''" by (simp add: demo_stack_def)
  note safe = traversal_safe[OF demo_start[of UPDATE] r_into_rtranclp[of step, OF demo_step], unfolded t demo_graph(1)]
  have log: "w_log demo_triggered = [Triggered ''t1'' (1, True)]" by (simp add: demo_triggered_def Let_def)
  show ?thesis using safe by (simp add: log)
qed

text \<open>Claim C11. The engine refines the abstract traversal. From the start that C12 sets up, with no
  thread or message of an earlier traversal left, and whatever its threads, queue and tables do after
  it, what they hold of the traversal is a state that the abstract machine over the graph reaches
  from its start, one abstract step for each step of the engine. The worker of an earlier traversal
  could trigger a node of this one again, which is no step of the abstract machine; the workers of
  later traversals cannot. What the plugins return survives the database in the sense of C22.\<close>

theorem engine_refines_traversal:
  assumes "traversal_start g s w0" "step\<^sup>*\<^sup>* w0 w"
  shows "view (st_edges s) (st_id s) (st_traversal s) w0 = ts_start (keys g) (dep_rel g) \<and>
    (ts_step (keys g) (dep_rel g))\<^sup>*\<^sup>* (ts_start (keys g) (dep_rel g)) (view (st_edges s) (st_id s) (st_traversal s) w) \<and>
    (\<forall>w'. step w w' \<longrightarrow> ts_step (keys g) (dep_rel g) (view (st_edges s) (st_id s) (st_traversal s) w)
       (view (st_edges s) (st_id s) (st_traversal s) w'))"
  using start_view[OF assms(1)] reachable_view[OF assms] engine.simulates start_graph(1,2)[OF assms(1)] by metis

theorem engine_refines_traversal_witness:
  "(ts_step {(2, True), (1, True), (1, False)} {((2, True), (1, True)), ((1, False), (1, True))})\<^sup>*\<^sup>*
     (ts_start {(2, True), (1, True), (1, False)} {((2, True), (1, True)), ((1, False), (1, True))})
     (view (graph_edges demo_deps) ''stack'' ''t1'' demo_triggered)"
proof -
  have s: "st_traversal (demo_stack UPDATE) = ''t1''" "st_id (demo_stack UPDATE) = ''stack''"
    "st_edges (demo_stack UPDATE) = graph_edges demo_deps" by (simp_all add: demo_stack_def)
  note ref = engine_refines_traversal[OF demo_start[of UPDATE] r_into_rtranclp[of step, OF demo_step]]
  show ?thesis using ref[unfolded s demo_graph(1,2)] by blast
qed

text \<open>Claim C12. A traversal that begins reaches its start: the thread that computes the dependencies
  of a template and of the resources that exist, when both graphs have no cycle, computes the graph
  without an exception, creates a sync
  point for every node and for the stack and comes to trigger the leaves; the graph has the updates
  of the template's resources, in the order of the template, and the cleanups of those that exist,
  each after the update of the same resource. Unless a resource that is picked for an update was
  superseded, every row is then as a traversal that completes needs it.\<close>

theorem traversal_set_up:
  assumes "converge_ready tdeps s w" "update_or_store_resources s tdeps (w_rsrcs w) = Inr (rt, ids)"
    "dep_iter (convergence_graph (rt_rows (w_rsrcs w)) tdeps ids) = Inr nodes"
  shows "\<exists>g w'. g = convergence_graph (rt_rows (w_rsrcs w)) tdeps ids \<and>
    compute_convg_dependencies (rt_rows (w_rsrcs w)) tdeps ids = Inr g \<and> step\<^sup>*\<^sup>* w w' \<and>
    traversal_start g (s\<lparr>st_edges := graph_edges g\<rparr>) w' \<and> w_rsrcs w' = rt \<and>
    keys g = (\<lambda>name. (the (map_of ids name), True)) ` keys tdeps \<union> (\<lambda>i. (i, False)) ` fst ` set (rt_rows (w_rsrcs w)) \<and>
    (\<forall>name \<in> keys tdeps. \<forall>req \<in> requires tdeps name.
       (the (map_of ids req), True) \<in> requires g (the (map_of ids name), True)) \<and>
    (\<forall>i. (i, True) \<in> keys g \<longrightarrow> (i, False) \<in> keys g \<longrightarrow> (i, True) \<in> requires g (i, False)) \<and>
    (candidates_current s (rt_rows (w_rsrcs w)) (keys tdeps) \<longrightarrow> rows_start g s rt)"
proof -
  let ?g = "convergence_graph (rt_rows (w_rsrcs w)) tdeps ids"
  have wf: "wf_graph tdeps" and table: "table_ok (w_rsrcs w)" using assms(1) by (simp_all add: converge_ready_def)
  note G = convg_graph[OF wf, where existing = "rt_rows (w_rsrcs w)" and ids = ids]
  have "k \<in> keys ?g \<longleftrightarrow> k \<in> (\<lambda>name. (the (map_of ids name), True)) ` keys tdeps \<union> (\<lambda>i. (i, False)) ` fst ` set (rt_rows (w_rsrcs w))" for k
  proof -
    obtain i u where k: "k = (i, u)" by fastforce
    show ?thesis
    proof (cases u)
      case True
      then show ?thesis using G(2)[of i] unfolding k by (simp add: image_iff)
    next
      case False
      then show ?thesis using G(3)[of i] unfolding k by (simp add: image_iff)
    qed
  qed
  then have keys: "keys ?g = (\<lambda>name. (the (map_of ids name), True)) ` keys tdeps \<union> (\<lambda>i. (i, False)) ` fst ` set (rt_rows (w_rsrcs w))"
    by blast
  show ?thesis
    using converge_start(1)[OF assms] converge_start(2)[OF assms] keys G(4,5) converge_rows(3)[OF table wf assms(2)] by blast
qed


text \<open>The same update before the server has a row.\<close>

definition demo_template :: "string graph" where
  "demo_template = dependencies [(''server'', Some ''port'')]"

definition demo_prior :: rsrc_table where
  "demo_prior = \<lparr>rt_rows = [(1, demo_port)], rt_next = 2\<rparr>"

definition demo_idle :: world where
  "demo_idle = \<lparr>w_points = (\<lambda>_. None), w_rsrcs = demo_prior, w_stack = Some (demo_stack UPDATE), w_inbox = {#},
     w_threads = {#continue [ConvergeDeps (demo_stack UPDATE)]#}, w_uuids = [''t1''], w_log = []\<rparr>"

definition demo_stored :: rsrc_table where
  "demo_stored = \<lparr>rt_rows = [(1, demo_port\<lparr>rs_needed_by := [2]\<rparr>), (2, new_rsrc ''server'' 1 [])], rt_next = 3\<rparr>"

theorem traversal_set_up_witness:
  "\<exists>g w'. step\<^sup>*\<^sup>* demo_idle w' \<and> traversal_start g ((demo_stack UPDATE)\<lparr>st_edges := graph_edges g\<rparr>) w' \<and>
     rows_start g (demo_stack UPDATE) demo_stored \<and> keys g = {(1, True), (2, True), (1, False)}"
proof -
  let ?s = "demo_stack UPDATE" and ?ids = "[(''port'', 1), (''server'', 2)]"
  have rows: "w_rsrcs demo_idle = demo_prior" "rt_rows demo_prior = [(1, demo_port)]" by (simp_all add: demo_idle_def demo_prior_def)
  have "int_of_str ''stack'' = None" by code_simp
  then have ready: "converge_ready demo_template ?s demo_idle"
    by (auto simp: converge_ready_def demo_idle_def demo_template_def demo_prior_def table_ok_def demo_stack_def demo_port_def)
  have store: "update_or_store_resources ?s demo_template (w_rsrcs demo_idle) = Inr (demo_stored, ?ids)"
    unfolding rows by code_simp
  have iter: "dep_iter (convergence_graph (rt_rows (w_rsrcs demo_idle)) demo_template ?ids) = Inr [(1, True), (2, True), (1, False)]"
    unfolding rows by code_simp
  have tmpl: "keys demo_template = {''server'', ''port''}" by (auto simp: demo_template_def edge_nodes_def)
  have cand: "candidates_current ?s [(1, demo_port)] {''server'', ''port''}" by code_simp
  have "(\<lambda>name. (the (map_of ?ids name), True)) ` keys demo_template \<union> (\<lambda>i. (i, False)) ` fst ` set [(1, demo_port)] =
      {(1, True), (2, True), (1, False)}" by (auto simp: tmpl)
  then show ?thesis
    using traversal_set_up[OF ready store iter, unfolded rows tmpl] cand by (auto simp: tmpl)
qed

text \<open>Claim C21. A rollback leaves its debris: when the traversal of a rollback has come to its end and
  the stack is marked complete, every sync point of the traversal is still in the database and the
  previous template is still kept, because \<open>state_set\<close> returns nothing for a rollback and
  \<open>mark_complete\<close> takes that for a failed update and purges nothing.\<close>

theorem rollback_never_purged:
  assumes "traversal_start g s w0" "rows_start g s (w_rsrcs w0)" "st_action s = ROLLBACK"
    "smooth\<^sup>*\<^sup>* w0 w" "\<forall>w'. \<not> smooth w w'"
  shows "Completed (st_traversal s) \<in> set (w_log w) \<and> map_option st_status (w_stack w) = Some COMPLETE \<and>
    map_option st_prev_template (w_stack w) = Some (st_prev_template s) \<and>
    (\<forall>x \<in> insert ToStack (ToNode ` keys g). w_points w (point_key (st_id s) (st_traversal s) x) \<noteq> None)"
proof -
  note start = assms(1)
  have good: "good (st_edges s) (rt_next (w_rsrcs w0)) s w0" by (rule start_good[OF assms(1,2)])
  have w0: "w_stack w0 = Some s" using start by (simp add: traversal_start_def)
  have "good (st_edges s) (rt_next (w_rsrcs w0)) s w" using smoothly.sim_run[OF assms(4) good] by blast
  note fin = stuck_complete[OF this] and run = rollback_run[OF assms(4) good assms(3) start_unpurged[OF start]]
  have "row_complete s (w_stack w)" "count_list (w_log w) (Completed (st_traversal s)) = 1" using fin assms(5) by blast+
  moreover have "w_stack w \<noteq> None" using run(1) w0 by (metis option.map_disc_iff option.simps(3))
  moreover have "w_points w (point_key (st_id s) (st_traversal s) x) \<noteq> None" if x: "x \<in> insert ToStack (ToNode ` keys g)" for x
  proof -
    have "x \<in> targets (st_edges s)" using x start_graph(1)[OF start] by (simp add: targets_def)
    then have "w_points w0 (point_key (st_id s) (st_traversal s) x) \<noteq> None" using start by (simp add: traversal_start_def)
    then show ?thesis using run(2)[of "point_key (st_id s) (st_traversal s) x"] by metis
  qed
  ultimately show ?thesis
    using run(1) w0 assms(3) pos_count[of "w_log w" "Completed (st_traversal s)"]
    by (auto simp: row_complete_def traversal_action_def)
qed

text \<open>A graph without resources: the traversal is complete after one step.\<close>

definition demo_rollback :: stack_row where
  "demo_rollback = (demo_stack ROLLBACK)\<lparr>st_edges := []\<rparr>"

definition demo_rolled_back :: world where
  "demo_rolled_back = (start_world [] demo_rollback demo_rows)\<lparr>w_stack := Some (demo_rollback\<lparr>st_status := COMPLETE\<rparr>),
     w_log := [Completed ''t1''], w_threads := {#}\<rparr>"

lemma empty_start: "traversal_start [] demo_rollback (start_world [] demo_rollback demo_rows)"
proof (rule start_world_start)
  show "int_of_str (st_id demo_rollback) = None" unfolding demo_rollback_def demo_stack_def stack_row.simps by code_simp
  show "wf_graph []" "acyclic (dep_rel [])"
    by (simp_all add: wf_graph_def dep_rel_def requires_def required_by_def node_of_missing keys_def acyclic_def)
qed (auto simp: demo_rollback_def graph_edges_def demo_rows_def keys_def)

lemma empty_run: "smooth\<^sup>*\<^sup>* (start_world [] demo_rollback demo_rows) demo_rolled_back"
proof -
  let ?w = "start_world [] demo_rollback demo_rows"
  let ?done = "?w\<lparr>w_stack := Some (demo_rollback\<lparr>st_status := COMPLETE\<rparr>), w_log := [Completed ''t1'']\<rparr>"
  have th: "w_threads ?w = {#continue [MarkComplete demo_rollback]#}"
    by (simp add: start_world_def leaf_triggers_def leaves_def)
  have "exec NoChoice (MarkComplete demo_rollback) ((continue [MarkComplete demo_rollback])\<lparr>th_todo := []\<rparr>) ?w = Some (?done, stop)"
    by (simp add: exec_mark_complete_def start_world_def state_set_def persist_state_def stack_update_def demo_rollback_def
      demo_stack_def continue_def stop_def Let_def)
  from smooth.run[OF _ _ _ this] have one: "smooth ?w (?done\<lparr>w_threads := {#stop#}\<rparr>)" by (simp add: th continue_def)
  have "smooth (?done\<lparr>w_threads := {#stop#}\<rparr>) demo_rolled_back"
    using smooth.finish[of stop "?done\<lparr>w_threads := {#stop#}\<rparr>"] by (simp add: stop_def demo_rolled_back_def)
  with one show ?thesis by (meson r_into_rtranclp rtranclp_trans)
qed

theorem rollback_never_purged_witness:
  "w_points demo_rolled_back (''stack'', ''t1'', True) \<noteq> None \<and>
   map_option st_prev_template (w_stack demo_rolled_back) = Some (Some 0)"
proof -
  have "rows_start [] demo_rollback (w_rsrcs (start_world [] demo_rollback demo_rows))"
    by (auto simp: rows_start_def keys_def start_world_def demo_rows_def demo_port_def)
  moreover have "st_action demo_rollback = ROLLBACK" by (simp add: demo_rollback_def demo_stack_def)
  moreover have "\<forall>w'. \<not> smooth demo_rolled_back w'"
    by (auto simp: demo_rolled_back_def start_world_def elim!: smooth.cases)
  ultimately have "\<forall>x \<in> insert ToStack (ToNode ` keys []). w_points demo_rolled_back (point_key (st_id demo_rollback) (st_traversal demo_rollback) x) \<noteq> None"
    "map_option st_prev_template (w_stack demo_rolled_back) = Some (st_prev_template demo_rollback)"
    using rollback_never_purged[OF empty_start _ _ empty_run] by blast+
  then show ?thesis by (simp add: point_key_def demo_rollback_def demo_stack_def)
qed

text \<open>A resource that was superseded in an update that failed is still there when the next update
  fails, and the one after that, which knows neither its template nor that of its replacement, picks
  it for the name, because it comes first; the message for it is then dropped.\<close>

lemma superseded_candidate_dropped:
  "best_existing (s\<lparr>st_template := 3, st_prev_template := Some 2\<rparr>)
     [(1, r\<lparr>rs_template := 0, rs_replaced_by := Some 2\<rparr>), (2, r\<lparr>rs_template := 1\<rparr>)] (rs_name r) =
   Some (1, r\<lparr>rs_template := 0, rs_replaced_by := Some 2\<rparr>)"
  "rt_get (w_rsrcs w) (m_rsrc m) = Some r' \<Longrightarrow> w_stack w = Some s \<Longrightarrow> m_update m \<Longrightarrow> rs_replaced_by r' \<noteq> None \<Longrightarrow>
     rs_template r' \<noteq> st_template s \<Longrightarrow> begin_check False m w = stop"
  by (auto simp: best_existing_def begin_check_def split: sum.splits)

end
