(* ===== verification/Ironic_Fsm.thy ===== *)
theory Ironic_Fsm
  imports Py_Base "HOL-Library.AList"
begin

text \<open>
  Ironic's provisioning state machine: the finite machines of the \<open>automaton\<close> library that Ironic
  ships with (\<open>machines.py\<close>), Ironic's subclass with stable and target states
  (\<open>ironic/common/fsm.py\<close>), and the machine that \<open>ironic/common/states.py\<close> builds. The callbacks of
  the states only write to the log and there are no reactions, so both are left out. Dictionaries
  are association lists in insertion order.
\<close>

section \<open>Machines\<close>

datatype automaton_exc = InvalidStateA | NotInitialized | FrozenMachine | NotFound | DuplicateA

datatype ironic_exc =
    InvalidState
  | Duplicate
  | InvalidStateRequested
  | InvalidParameterValue
  | MissingParameterValue
  | NodeInMaintenance
  | InstanceDeployFailure
  | NodeCleaningFailure
  | NoFreeConductorWorker
  | HardwareInspectionFailure
  | SwiftOperationError
  | PowerStateFailure
  | UnsupportedDriverExtension
  | NodeLocked
  | DriverError
  | PyKeyErr
  | PyTypeErr
  | PyAttributeErr

text \<open>The exceptions that are subclasses of \<open>IronicException\<close>.\<close>

definition is_ironic_exc :: "ironic_exc \<Rightarrow> bool" where
  "is_ironic_exc e \<longleftrightarrow> e \<notin> {DriverError, PyKeyErr, PyTypeErr, PyAttributeErr}"

record 's state_info =
  si_terminal :: bool
  si_stable :: bool
  si_target :: "'s option"

record ('s, 'e) fsm =
  fm_states :: "('s \<times> 's state_info) list"
  fm_transitions :: "('s \<times> ('e \<times> 's) list) list"
  fm_current :: "'s option"
  fm_target_state :: "'s option"
  fm_frozen :: bool

definition new_fsm :: "('s, 'e) fsm" where
  "new_fsm = \<lparr>fm_states = [], fm_transitions = [], fm_current = None, fm_target_state = None, fm_frozen = False\<rparr>"

text \<open>\<open>FiniteMachine.add_state\<close> and \<open>add_transition\<close>; the tables of a state exist together.\<close>

definition machine_add_state ::
  "'s \<Rightarrow> bool \<Rightarrow> ('s, 'e) fsm \<Rightarrow> (automaton_exc, ('s, 'e) fsm) result" where
  "machine_add_state s terminal m =
     (if fm_frozen m then Inl FrozenMachine
      else if s \<in> fst ` set (fm_states m) then Inl DuplicateA
      else Inr (m\<lparr>fm_states := fm_states m @ [(s, \<lparr>si_terminal = terminal, si_stable = False, si_target = None\<rparr>)],
                  fm_transitions := AList.update s [] (fm_transitions m)\<rparr>))"

definition transitions_of :: "('s, 'e) fsm \<Rightarrow> 's \<Rightarrow> ('e \<times> 's) list" where
  "transitions_of m s = (case map_of (fm_transitions m) s of None \<Rightarrow> [] | Some ts \<Rightarrow> ts)"

definition machine_add_transition ::
  "'s \<Rightarrow> 's \<Rightarrow> 'e \<Rightarrow> bool \<Rightarrow> ('s, 'e) fsm \<Rightarrow> (automaton_exc, ('s, 'e) fsm) result" where
  "machine_add_transition start finish event replace m =
     (if fm_frozen m then Inl FrozenMachine
      else case map_of (fm_states m) start of
        None \<Rightarrow> Inl NotFound
      | Some info \<Rightarrow>
          if finish \<notin> fst ` set (fm_states m) then Inl NotFound
          else if si_terminal info then Inl InvalidStateA
          else let set_it = Inr (m\<lparr>fm_transitions :=
                 AList.update start (AList.update event finish (transitions_of m start)) (fm_transitions m)\<rparr>)
               in case map_of (transitions_of m start) event of
                    Some target \<Rightarrow>
                      if replace then set_it else if target \<noteq> finish then Inl DuplicateA else Inr m
                  | None \<Rightarrow> set_it)"

definition machine_initialize :: "'s \<Rightarrow> ('s, 'e) fsm \<Rightarrow> (automaton_exc, ('s, 'e) fsm) result" where
  "machine_initialize start m =
     (case map_of (fm_states m) start of
        None \<Rightarrow> Inl NotFound
      | Some info \<Rightarrow> if si_terminal info then Inl InvalidStateA else Inr (m\<lparr>fm_current := Some start\<rparr>))"

definition pre_process_event :: "'e \<Rightarrow> ('s, 'e) fsm \<Rightarrow> (automaton_exc, 's) result" where
  "pre_process_event event m =
     (case fm_current m of
        None \<Rightarrow> Inl NotInitialized
      | Some current \<Rightarrow>
          if (case map_of (fm_states m) current of None \<Rightarrow> False | Some info \<Rightarrow> si_terminal info)
          then Inl InvalidStateA
          else (case map_of (transitions_of m current) event of
                  None \<Rightarrow> Inl NotFound
                | Some replacement \<Rightarrow> Inr replacement))"

section \<open>Ironic's machines\<close>

definition translate_excp :: "automaton_exc \<Rightarrow> ironic_exc" where
  "translate_excp e = (case e of DuplicateA \<Rightarrow> Duplicate | _ \<Rightarrow> InvalidState)"

definition translated :: "(automaton_exc, 'a) result \<Rightarrow> (ironic_exc, 'a) result" where
  "translated r = map_sum translate_excp id r"

definition is_stable :: "('s, 'e) fsm \<Rightarrow> 's \<Rightarrow> (ironic_exc, bool) result" where
  "is_stable m s = (case map_of (fm_states m) s of None \<Rightarrow> Inl InvalidState | Some info \<Rightarrow> Inr (si_stable info))"

definition validate_target_state :: "('s, 'e) fsm \<Rightarrow> 's option \<Rightarrow> (ironic_exc, unit) result" where
  "validate_target_state m target =
     (case target of
        None \<Rightarrow> Inr ()
      | Some t \<Rightarrow> rbind (is_stable m t) (\<lambda>b. rguard b InvalidState))"

definition fsm_add_state ::
  "'s \<Rightarrow> 's option \<Rightarrow> bool \<Rightarrow> ('s, 'e) fsm \<Rightarrow> (ironic_exc, ('s, 'e) fsm) result" where
  "fsm_add_state s target stbl m =
     rbind (validate_target_state m target) (\<lambda>_.
     rbind (translated (machine_add_state s False m)) (\<lambda>m.
       Inr (m\<lparr>fm_states := AList.update s \<lparr>si_terminal = False, si_stable = stbl, si_target = target\<rparr> (fm_states m)\<rparr>)))"

definition fsm_add_transition :: "'s \<Rightarrow> 's \<Rightarrow> 'e \<Rightarrow> ('s, 'e) fsm \<Rightarrow> (ironic_exc, ('s, 'e) fsm) result" where
  "fsm_add_transition start finish event m = translated (machine_add_transition start finish event False m)"

definition default_target :: "('s, 'e) fsm \<Rightarrow> 's \<Rightarrow> 's option" where
  "default_target m s = (case map_of (fm_states m) s of None \<Rightarrow> None | Some info \<Rightarrow> si_target info)"

text \<open>\<open>FSM.initialize\<close>: the machine is in the start state already when the target is found not to be valid.\<close>

definition fsm_initialize ::
  "'s \<Rightarrow> 's option \<Rightarrow> ('s, 'e) fsm \<Rightarrow> (ironic_exc, unit) result \<times> ('s, 'e) fsm" where
  "fsm_initialize start target m =
     (case translated (machine_initialize start m) of
        Inl e \<Rightarrow> (Inl e, m)
      | Inr m1 \<Rightarrow>
          (case validate_target_state m1 target of
             Inl e \<Rightarrow> (Inl e, m1)
           | Inr _ \<Rightarrow>
               (Inr (), m1\<lparr>fm_target_state := (case target of None \<Rightarrow> default_target m1 start | Some t \<Rightarrow> Some t)\<rparr>)))"

text \<open>\<open>_post_process_event\<close>, in the state that was just entered.\<close>

definition post_process_event :: "'s \<Rightarrow> ('s, 'e) fsm \<Rightarrow> ('s, 'e) fsm" where
  "post_process_event current m =
     (let m1 = (if fm_target_state m = Some current then m\<lparr>fm_target_state := None\<rparr> else m)
      in case default_target m current of None \<Rightarrow> m1 | Some t \<Rightarrow> m1\<lparr>fm_target_state := Some t\<rparr>)"

text \<open>\<open>FSM.process_event\<close>: the machine has moved when the given target is found not to be valid.\<close>

definition fsm_process_event ::
  "'e \<Rightarrow> 's option \<Rightarrow> ('s, 'e) fsm \<Rightarrow> (ironic_exc, unit) result \<times> ('s, 'e) fsm" where
  "fsm_process_event event target m =
     (case translated (pre_process_event event m) of
        Inl e \<Rightarrow> (Inl e, m)
      | Inr new \<Rightarrow>
          (let m1 = post_process_event new (m\<lparr>fm_current := Some new\<rparr>)
           in case target of
                None \<Rightarrow> (Inr (), m1)
              | Some t \<Rightarrow> (case validate_target_state m1 target of
                  Inl e \<Rightarrow> (Inl e, m1)
                | Inr _ \<Rightarrow> (Inr (), m1\<lparr>fm_target_state := Some t\<rparr>))))"

section \<open>The states of a node\<close>

text \<open>The constants of \<open>states.py\<close>; \<open>NOSTATE\<close> is \<open>None\<close>.\<close>

datatype prov_state =
    ENROLL | VERIFYING | MANAGEABLE | AVAILABLE | ACTIVE
  | DEPLOYWAIT | DEPLOYING | DEPLOYFAIL | DEPLOYDONE
  | DELETING | DELETED | CLEANING | CLEANWAIT | CLEANFAIL
  | ERROR | REBUILD | INSPECTING | INSPECTFAIL

instantiation prov_state :: enum
begin

definition enum_prov_state :: "prov_state list" where
  "enum_prov_state = [ENROLL, VERIFYING, MANAGEABLE, AVAILABLE, ACTIVE, DEPLOYWAIT, DEPLOYING, DEPLOYFAIL,
     DEPLOYDONE, DELETING, DELETED, CLEANING, CLEANWAIT, CLEANFAIL, ERROR, REBUILD, INSPECTING, INSPECTFAIL]"

definition enum_all_prov_state :: "(prov_state \<Rightarrow> bool) \<Rightarrow> bool" where
  "enum_all_prov_state P \<longleftrightarrow> list_all P enum_class.enum"

definition enum_ex_prov_state :: "(prov_state \<Rightarrow> bool) \<Rightarrow> bool" where
  "enum_ex_prov_state P \<longleftrightarrow> list_ex P enum_class.enum"

instance
proof
  have mem: "x \<in> set (enum_class.enum :: prov_state list)" for x
    by (cases x; simp add: enum_prov_state_def)
  show univ: "(UNIV :: prov_state set) = set enum_class.enum"
    using mem by (simp add: set_eq_iff)
  show "distinct (enum_class.enum :: prov_state list)" by (simp add: enum_prov_state_def)
  show "enum_class.enum_all P \<longleftrightarrow> Ball UNIV P" for P :: "prov_state \<Rightarrow> bool"
    unfolding enum_all_prov_state_def list_all_iff univ[symmetric] ..
  show "enum_class.enum_ex P \<longleftrightarrow> Bex UNIV P" for P :: "prov_state \<Rightarrow> bool"
    unfolding enum_ex_prov_state_def list_ex_iff univ[symmetric] ..
qed

end

definition stable_states :: "prov_state list" where
  "stable_states = [ENROLL, MANAGEABLE, AVAILABLE, ACTIVE, ERROR]"

text \<open>The states and transitions in the order in which the module adds them.\<close>

definition added_states :: "(prov_state \<times> prov_state) list" where
  "added_states = [(VERIFYING, MANAGEABLE), (DEPLOYING, ACTIVE), (DEPLOYWAIT, ACTIVE), (DEPLOYFAIL, ACTIVE),
     (CLEANING, AVAILABLE), (CLEANWAIT, AVAILABLE), (CLEANFAIL, AVAILABLE), (DELETING, AVAILABLE)]"

definition inspection_states :: "(prov_state \<times> prov_state) list" where
  "inspection_states = [(INSPECTING, MANAGEABLE), (INSPECTFAIL, MANAGEABLE)]"

definition added_transitions :: "(prov_state \<times> prov_state \<times> string) list" where
  "added_transitions =
    [(DEPLOYING, DEPLOYFAIL, ''fail''), (DEPLOYFAIL, DEPLOYING, ''rebuild''), (DEPLOYFAIL, DEPLOYING, ''deploy''),
     (DEPLOYING, DEPLOYWAIT, ''wait''), (DEPLOYWAIT, DEPLOYING, ''resume''), (DEPLOYWAIT, DEPLOYFAIL, ''fail''),
     (DEPLOYING, ACTIVE, ''done''), (ACTIVE, DEPLOYING, ''rebuild''), (ACTIVE, DELETING, ''delete''),
     (DEPLOYWAIT, DELETING, ''delete''), (DEPLOYFAIL, DELETING, ''delete''), (DELETING, ERROR, ''error''),
     (DELETING, CLEANING, ''clean''), (CLEANING, AVAILABLE, ''done''), (CLEANING, CLEANFAIL, ''fail''),
     (CLEANWAIT, CLEANFAIL, ''fail''), (CLEANWAIT, CLEANFAIL, ''abort''), (CLEANING, CLEANWAIT, ''wait''),
     (CLEANWAIT, CLEANING, ''resume''), (CLEANFAIL, MANAGEABLE, ''manage''), (MANAGEABLE, CLEANING, ''provide''),
     (MANAGEABLE, CLEANING, ''clean''), (CLEANING, MANAGEABLE, ''manage''), (AVAILABLE, MANAGEABLE, ''manage''),
     (ERROR, DEPLOYING, ''rebuild''), (ERROR, DELETING, ''delete''), (MANAGEABLE, INSPECTING, ''inspect''),
     (INSPECTING, MANAGEABLE, ''done''), (INSPECTING, INSPECTFAIL, ''fail''), (INSPECTFAIL, MANAGEABLE, ''manage''),
     (INSPECTFAIL, INSPECTING, ''inspect''), (ENROLL, VERIFYING, ''manage''), (VERIFYING, MANAGEABLE, ''done''),
     (VERIFYING, ENROLL, ''fail'')]"

type_synonym prov_fsm = "(prov_state, string) fsm"

definition build_machine :: "(ironic_exc, prov_fsm) result" where
  "build_machine =
     rbind (rfold (\<lambda>m s. fsm_add_state s None True m) new_fsm stable_states) (\<lambda>m.
     rbind (rfold (\<lambda>m (s, t). fsm_add_state s (Some t) False m) m added_states) (\<lambda>m.
     rbind (fsm_add_transition AVAILABLE DEPLOYING ''deploy'' m) (\<lambda>m.
     rbind (rfold (\<lambda>m (s, t). fsm_add_state s (Some t) False m) m inspection_states) (\<lambda>m.
       rfold (\<lambda>m (s, t, e). fsm_add_transition s t e m) m added_transitions))))"

definition machine :: prov_fsm where
  "machine = (case build_machine of Inr m \<Rightarrow> m | Inl _ \<Rightarrow> new_fsm)"

definition next_state :: "prov_state \<Rightarrow> string \<Rightarrow> prov_state option" where
  "next_state s event = map_of (transitions_of machine s) event"

lemma result_of_test: "(case r of Inr m \<Rightarrow> True | Inl _ \<Rightarrow> False) \<Longrightarrow> r = Inr (case r of Inr m \<Rightarrow> m | Inl _ \<Rightarrow> d)"
  by (cases r) auto

lemma build_machine: "build_machine = Inr machine"
  unfolding machine_def by (rule result_of_test) code_simp

section \<open>Machines are well formed\<close>

text \<open>The states of a machine are distinct, every target is a stable state and every transition ends in a state.\<close>

definition stable_in :: "('s, 'e) fsm \<Rightarrow> 's \<Rightarrow> bool" where
  "stable_in m s = (case map_of (fm_states m) s of None \<Rightarrow> False | Some info \<Rightarrow> si_stable info)"

definition fsm_ok :: "('s, 'e) fsm \<Rightarrow> bool" where
  "fsm_ok m \<longleftrightarrow>
     distinct (map fst (fm_states m)) \<and>
     list_all (\<lambda>(s, info). pred_option (stable_in m) (si_target info)) (fm_states m) \<and>
     list_all (\<lambda>(s, ts). list_all (\<lambda>(e, t). t \<in> fst ` set (fm_states m)) ts) (fm_transitions m) \<and>
     pred_option (\<lambda>c. c \<in> fst ` set (fm_states m)) (fm_current m) \<and>
     pred_option (stable_in m) (fm_target_state m)"

lemma is_stable_True [simp]: "is_stable m s = Inr b \<Longrightarrow> stable_in m s = b"
  by (auto simp: is_stable_def stable_in_def split: option.splits)

lemma validate_target_ok: "validate_target_state m target = Inr u \<Longrightarrow> pred_option (stable_in m) target"
  by (auto simp: validate_target_state_def rbind_eq_Inr split: option.splits)

lemma validate_target_error: "validate_target_state m target = Inl e \<Longrightarrow> e = InvalidState"
  by (auto simp: validate_target_state_def rbind_eq_Inl is_stable_def split: option.splits)

lemma stable_in_cong: "fm_states m' = fm_states m \<Longrightarrow> stable_in m' = stable_in m"
  by (auto simp: stable_in_def fun_eq_iff)

lemma default_target_ok:
  assumes "fsm_ok m"
  shows "pred_option (stable_in m) (default_target m s)"
proof (cases "map_of (fm_states m) s")
  case (Some info)
  have "(s, info) \<in> set (fm_states m)" by (rule map_of_SomeD[OF Some])
  with assms Some show ?thesis by (auto simp: fsm_ok_def list_all_iff default_target_def)
qed (simp add: default_target_def)

lemma transitions_of_ok:
  assumes ok: "fsm_ok m" and et: "(e, t) \<in> set (transitions_of m s)"
  shows "t \<in> fst ` set (fm_states m)"
proof (cases "map_of (fm_transitions m) s")
  case None
  then show ?thesis using et by (simp add: transitions_of_def)
next
  case (Some ts)
  have "(s, ts) \<in> set (fm_transitions m)" by (rule map_of_SomeD[OF Some])
  moreover have "(e, t) \<in> set ts" using et Some by (simp add: transitions_of_def)
  ultimately show ?thesis using ok unfolding fsm_ok_def list_all_iff by fast
qed

lemma transition_ok: "fsm_ok m \<Longrightarrow> map_of (transitions_of m s) e = Some t \<Longrightarrow> t \<in> fst ` set (fm_states m)"
  by (rule transitions_of_ok[OF _ map_of_SomeD])

lemma fsm_ok_move:
  assumes "fsm_ok m" and "t \<in> fst ` set (fm_states m)" and "pred_option (stable_in m) tg"
  shows "fsm_ok (m\<lparr>fm_current := Some t, fm_target_state := tg\<rparr>)"
proof -
  have "stable_in (m\<lparr>fm_current := Some t, fm_target_state := tg\<rparr>) = stable_in m"
    by (rule stable_in_cong) simp
  then show ?thesis using assms by (simp add: fsm_ok_def)
qed

lemma fsm_ok_process_event:
  assumes "fsm_ok m"
  shows "fsm_ok (snd (fsm_process_event ev tg m))"
proof (cases "pre_process_event ev m")
  case (Inl e)
  then show ?thesis using assms by (simp add: fsm_process_event_def translated_def)
next
  case (Inr t)
  have t: "t \<in> fst ` set (fm_states m)"
    using Inr transition_ok[OF assms] by (auto simp: pre_process_event_def split: option.splits if_splits)
  obtain tg1 where tg1: "post_process_event t (m\<lparr>fm_current := Some t\<rparr>) =
      m\<lparr>fm_current := Some t, fm_target_state := tg1\<rparr>" "pred_option (stable_in m) tg1"
  proof -
    have d: "default_target (m\<lparr>fm_current := Some t\<rparr>) t = default_target m t"
      "default_target (m\<lparr>fm_current := Some t, fm_target_state := None\<rparr>) t = default_target m t"
      by (simp_all add: default_target_def)
    define tg1 where "tg1 = (case default_target m t of Some x \<Rightarrow> Some x
        | None \<Rightarrow> if fm_target_state m = Some t then None else fm_target_state m)"
    have "pred_option (stable_in m) tg1"
      using default_target_ok[OF assms, of t] assms by (auto simp: tg1_def fsm_ok_def split: option.splits)
    moreover have "post_process_event t (m\<lparr>fm_current := Some t\<rparr>) = m\<lparr>fm_current := Some t, fm_target_state := tg1\<rparr>"
      by (cases m) (auto simp: post_process_event_def tg1_def d Let_def default_target_def split: option.splits)
    ultimately show thesis by (rule that[rotated])
  qed
  have st: "stable_in (m\<lparr>fm_current := Some t, fm_target_state := x\<rparr>) = stable_in m" for x
    by (rule stable_in_cong) simp
  show ?thesis
    using fsm_ok_move[OF assms t] tg1 st
    by (auto simp: fsm_process_event_def translated_def Inr Let_def dest!: validate_target_ok
        split: option.splits sum.splits)
qed

lemma set_update_subset: "set (AList.update k v xs) \<subseteq> insert (k, v) (set xs)"
  by (induction xs) auto

lemma fsm_ok_new: "fsm_ok new_fsm"
  by (simp add: fsm_ok_def new_fsm_def)

lemma fsm_ok_add_state:
  assumes ok: "fsm_ok m" and add: "fsm_add_state s tg stbl m = Inr m'"
  shows "fsm_ok m'"
proof -
  obtain u m1 where v: "validate_target_state m tg = Inr u" and m1: "machine_add_state s False m = Inr m1"
    and m': "m' = m1\<lparr>fm_states := AList.update s \<lparr>si_terminal = False, si_stable = stbl, si_target = tg\<rparr> (fm_states m1)\<rparr>"
    using add by (auto simp: fsm_add_state_def rbind_eq_Inr translated_def map_sum_def split: sum.splits)
  have new: "s \<notin> fst ` set (fm_states m)"
    and m1_eq: "m1 = m\<lparr>fm_states := fm_states m @ [(s, \<lparr>si_terminal = False, si_stable = False, si_target = None\<rparr>)],
                  fm_transitions := AList.update s [] (fm_transitions m)\<rparr>"
    using m1 by (auto simp: machine_add_state_def split: if_splits)
  have upd: "AList.update k v (xs @ [(k, w)]) = xs @ [(k, v)]" if "k \<notin> fst ` set xs" for k v w and xs :: "('x \<times> 'y) list"
    using that by (induction xs) auto
  have states: "fm_states m' = fm_states m @ [(s, \<lparr>si_terminal = False, si_stable = stbl, si_target = tg\<rparr>)]"
    using m' m1_eq upd[OF new] by simp
  have mono: "stable_in m x \<Longrightarrow> stable_in m' x" for x
    by (auto simp: stable_in_def states map_add_def split: option.splits)
  have tr: "(x, ts) \<in> set (fm_transitions m') \<Longrightarrow> ts = [] \<or> (x, ts) \<in> set (fm_transitions m)" for x ts
    using m' m1_eq set_update_subset[of s "[]" "fm_transitions m"] by auto
  have rest: "fm_current m' = fm_current m" "fm_target_state m' = fm_target_state m"
    using m' m1_eq by simp_all
  have tgt: "pred_option (stable_in m') x" if "pred_option (stable_in m) x" for x
    using that mono by (cases x) auto
  have "distinct (map fst (fm_states m'))"
    using ok new by (auto simp: fsm_ok_def states)
  moreover have "list_all (\<lambda>(s, info). pred_option (stable_in m') (si_target info)) (fm_states m')"
    using ok tgt tgt[OF validate_target_ok[OF v]] by (auto simp: fsm_ok_def states list_all_iff)
  moreover have "list_all (\<lambda>(s, ts). list_all (\<lambda>(e, t). t \<in> fst ` set (fm_states m')) ts) (fm_transitions m')"
    unfolding list_all_iff
  proof (intro ballI, clarify)
    fix x ts e t assume "(x, ts) \<in> set (fm_transitions m')" and et: "(e, t) \<in> set ts"
    then have "(x, ts) \<in> set (fm_transitions m)" using tr by force
    then have "t \<in> fst ` set (fm_states m)"
      using ok et unfolding fsm_ok_def list_all_iff by fast
    then show "t \<in> fst ` set (fm_states m')" unfolding states by auto
  qed
  moreover have "pred_option (\<lambda>c. c \<in> fst ` set (fm_states m')) (fm_current m')"
    using ok by (cases "fm_current m") (auto simp: fsm_ok_def rest states)
  moreover have "pred_option (stable_in m') (fm_target_state m')"
    using ok tgt by (auto simp: fsm_ok_def rest)
  ultimately show ?thesis unfolding fsm_ok_def by blast
qed

lemma fsm_ok_add_transition:
  assumes ok: "fsm_ok m" and add: "fsm_add_transition s t e m = Inr m'"
  shows "fsm_ok m'"
proof -
  have add': "machine_add_transition s t e False m = Inr m'"
    using add by (auto simp: fsm_add_transition_def translated_def map_sum_def split: sum.splits)
  have t: "t \<in> fst ` set (fm_states m)"
    using add' by (auto simp: machine_add_transition_def split: if_splits option.splits)
  define ts where "ts = AList.update s (AList.update e t (transitions_of m s)) (fm_transitions m)"
  have m': "m' = m \<or> m' = m\<lparr>fm_transitions := ts\<rparr>"
    using add' by (auto simp: machine_add_transition_def ts_def Let_def split: if_splits option.splits)
  have old: "(e', t') \<in> set (transitions_of m s) \<Longrightarrow> t' \<in> fst ` set (fm_states m)" for e' t'
    by (rule transitions_of_ok[OF ok])
  have new: "(e', t') \<in> set (AList.update e t (transitions_of m s)) \<Longrightarrow> t' \<in> fst ` set (fm_states m)" for e' t'
    using old t set_update_subset[of e t "transitions_of m s"] by blast
  have "\<forall>(x, us) \<in> set ts. \<forall>(e', t') \<in> set us. t' \<in> fst ` set (fm_states m)"
    using ok new set_update_subset[of s "AList.update e t (transitions_of m s)" "fm_transitions m"]
    unfolding fsm_ok_def list_all_iff ts_def by blast
  moreover have "stable_in (m\<lparr>fm_transitions := ts\<rparr>) = stable_in m"
    by (rule stable_in_cong) simp
  ultimately show ?thesis
    using m' ok by (elim disjE) (simp_all add: fsm_ok_def list_all_iff)
qed

lemma fsm_ok_initialize:
  assumes ok: "fsm_ok m"
  shows "fsm_ok (snd (fsm_initialize s tg m))"
proof (cases "machine_initialize s m")
  case (Inl e)
  then show ?thesis using ok by (simp add: fsm_initialize_def translated_def)
next
  case (Inr m1)
  have s: "s \<in> fst ` set (fm_states m)" and m1: "m1 = m\<lparr>fm_current := Some s\<rparr>"
    using Inr by (auto simp: machine_initialize_def dest!: map_of_SomeD split: option.splits if_splits intro: rev_image_eqI)
  have st: "stable_in m1 = stable_in m" unfolding m1 by (rule stable_in_cong) simp
  have d: "default_target m1 s = default_target m s" by (simp add: m1 default_target_def)
  have stay: "fsm_ok m1"
  proof -
    have "pred_option (stable_in m) (fm_target_state m)" using ok by (simp add: fsm_ok_def)
    then have "fsm_ok (m\<lparr>fm_current := Some s, fm_target_state := fm_target_state m\<rparr>)" by (rule fsm_ok_move[OF ok s])
    then show ?thesis by (simp add: m1)
  qed
  show ?thesis
  proof (cases "validate_target_state m1 tg")
    case (Inl e)
    then show ?thesis using stay Inr by (simp add: fsm_initialize_def translated_def)
  next
    case valid: (Inr u)
    define x where "x = (case tg of None \<Rightarrow> default_target m s | Some t \<Rightarrow> Some t)"
    have "pred_option (stable_in m) x"
      using validate_target_ok[of m1 tg] valid default_target_ok[OF ok, of s] by (cases tg) (simp_all add: x_def st)
    from fsm_ok_move[OF ok s this] show ?thesis
      using valid Inr d by (cases tg) (simp_all add: fsm_initialize_def translated_def x_def m1)
  qed
qed

lemma fsm_process_event_error: "fst (fsm_process_event e tg m) = Inl err \<Longrightarrow> err = InvalidState"
  by (auto simp: fsm_process_event_def translated_def Let_def pre_process_event_def translate_excp_def
      dest: validate_target_error split: option.splits sum.splits if_splits)

lemma fsm_ok_machine: "fsm_ok machine"
proof -
  have steps: "fsm_ok m \<Longrightarrow> rfold (\<lambda>m (s, t). fsm_add_state s (Some t) False m) m xs = Inr m' \<Longrightarrow> fsm_ok m'"
    "fsm_ok m \<Longrightarrow> rfold (\<lambda>m s. fsm_add_state s None True m) m ys = Inr m' \<Longrightarrow> fsm_ok m'"
    "fsm_ok m \<Longrightarrow> rfold (\<lambda>m (s, t, e). fsm_add_transition s t e m) m zs = Inr m' \<Longrightarrow> fsm_ok m'"
    for m m' :: prov_fsm and xs ys zs
    by (erule rfold_invariant; auto intro: fsm_ok_add_state fsm_ok_add_transition)+
  obtain m1 m2 m3 m4 where
    m1: "rfold (\<lambda>m s. fsm_add_state s None True m) new_fsm stable_states = Inr m1" and
    m2: "rfold (\<lambda>m (s, t). fsm_add_state s (Some t) False m) m1 added_states = Inr m2" and
    m3: "fsm_add_transition AVAILABLE DEPLOYING ''deploy'' m2 = Inr m3" and
    m4: "rfold (\<lambda>m (s, t). fsm_add_state s (Some t) False m) m3 inspection_states = Inr m4" and
    m5: "rfold (\<lambda>m (s, t, e). fsm_add_transition s t e m) m4 added_transitions = Inr machine"
    using build_machine unfolding build_machine_def rbind_eq_Inr by blast
  have "fsm_ok m1" by (rule steps(2)[OF fsm_ok_new m1])
  then have "fsm_ok m2" by (rule steps(1)[OF _ m2])
  then have "fsm_ok m3" by (rule fsm_ok_add_transition[OF _ m3])
  then have "fsm_ok m4" by (rule steps(1)[OF _ m4])
  then show ?thesis by (rule steps(3)[OF _ m5])
qed

text \<open>Claim C23. The operations of the machine keep it well formed: states stay distinct, targets
  stable, transitions inside the machine, and the current state and the target state valid, even
  when a start state or an event is refused or comes with a target that is not valid; an event that is refused
  raises \<open>InvalidState\<close>. The machine of \<open>states.py\<close> is well formed.
\<close>

theorem fsm_operations_typed:
  assumes "fsm_ok m"
  shows "(fsm_add_state s tg stbl m = Inr m1 \<longrightarrow> fsm_ok m1) \<and>
    (fsm_add_transition s s' e m = Inr m2 \<longrightarrow> fsm_ok m2) \<and>
    fsm_ok (snd (fsm_initialize s tg m)) \<and>
    fsm_ok (snd (fsm_process_event e tg m)) \<and>
    (\<forall>err. fst (fsm_process_event e tg m) = Inl err \<longrightarrow> err = InvalidState) \<and>
    fsm_ok machine"
proof (intro conjI impI allI)
  show "fsm_add_state s tg stbl m = Inr m1 \<Longrightarrow> fsm_ok m1" by (rule fsm_ok_add_state[OF assms])
  show "fsm_add_transition s s' e m = Inr m2 \<Longrightarrow> fsm_ok m2" by (rule fsm_ok_add_transition[OF assms])
  show "fst (fsm_process_event e tg m) = Inl err \<Longrightarrow> err = InvalidState" for err
    by (rule fsm_process_event_error)
qed (rule fsm_ok_initialize[OF assms] fsm_ok_process_event[OF assms] fsm_ok_machine)+

theorem fsm_operations_typed_witness:
  "fsm_ok (snd (fsm_process_event ''deploy'' (Some DEPLOYING) (machine\<lparr>fm_current := Some AVAILABLE, fm_target_state := None\<rparr>)))"
proof -
  have "AVAILABLE \<in> fst ` set (fm_states machine)" by code_simp
  then have "fsm_ok (machine\<lparr>fm_current := Some AVAILABLE, fm_target_state := None\<rparr>)"
    by (rule fsm_ok_move[OF fsm_ok_machine]) simp
  from fsm_operations_typed[OF this] show ?thesis by blast
qed

section \<open>Walks through the provisioning states\<close>

text \<open>The states that a sequence of events visits, after the state in which it starts.\<close>

fun visited :: "string list \<Rightarrow> prov_fsm \<Rightarrow> (ironic_exc, prov_state list) result" where
  "visited [] m = Inr []"
| "visited (e # es) m =
     (case fsm_process_event e None m of
        (Inl x, _) \<Rightarrow> Inl x
      | (Inr _, m1) \<Rightarrow> rbind (visited es m1) (\<lambda>vs. Inr (case fm_current m1 of None \<Rightarrow> vs | Some s \<Rightarrow> s # vs)))"

text \<open>The states in which a node holds, or may hold, what an instance left on it.\<close>

definition occupied :: "prov_state \<Rightarrow> bool" where
  "occupied s \<longleftrightarrow> s \<in> set [ACTIVE, ERROR, DEPLOYING, DEPLOYWAIT, DEPLOYFAIL, DELETING]"

definition next_states :: "prov_state \<Rightarrow> prov_state list" where
  "next_states s = map snd (transitions_of machine s)"

text \<open>A machine that is a copy of \<open>states.machine\<close> and stands in a state.\<close>

definition copy_at :: "prov_fsm \<Rightarrow> prov_state \<Rightarrow> bool" where
  "copy_at m s \<longleftrightarrow> fm_states m = fm_states machine \<and> fm_transitions m = fm_transitions machine \<and> fm_current m = Some s"

lemma transitions_copy_at: "copy_at m s \<Longrightarrow> transitions_of m x = transitions_of machine x"
  by (auto simp: copy_at_def transitions_of_def)

lemma no_terminal: "(case map_of (fm_states machine) s of None \<Rightarrow> False | Some info \<Rightarrow> si_terminal info) = False"
proof -
  have "list_all (\<lambda>s. \<not> (case map_of (fm_states machine) s of None \<Rightarrow> False | Some info \<Rightarrow> si_terminal info))
     (enum_class.enum :: prov_state list)" by code_simp
  then show ?thesis unfolding list_all_iff enum_UNIV by blast
qed

text \<open>An event that the table has for the state leads to its target, any other is refused.\<close>

lemma copy_at_initialize: "fsm_initialize s tg machine = (Inr u, m) \<Longrightarrow> copy_at m s"
  by (auto simp: fsm_initialize_def translated_def map_sum_def machine_initialize_def copy_at_def
      split: sum.splits option.splits if_splits)

lemma process_event_copy:
  assumes "copy_at m s"
  shows "fsm_process_event e None m =
    (case next_state s e of None \<Rightarrow> (Inl InvalidState, m)
     | Some t \<Rightarrow> (Inr (), post_process_event t (m\<lparr>fm_current := Some t\<rparr>)))"
proof -
  have cur: "fm_current m = Some s" and st: "fm_states m = fm_states machine"
    using assms by (auto simp: copy_at_def)
  have "pre_process_event e m = (case next_state s e of None \<Rightarrow> Inl NotFound | Some t \<Rightarrow> Inr t)"
    unfolding pre_process_event_def cur st option.case no_terminal next_state_def transitions_copy_at[OF assms]
    by (simp split: option.splits)
  then show ?thesis
    by (simp add: fsm_process_event_def translated_def translate_excp_def Let_def split: option.splits)
qed

lemma post_process_copy: "copy_at m s \<Longrightarrow> copy_at (post_process_event t (m\<lparr>fm_current := Some t\<rparr>)) t"
  by (auto simp: copy_at_def post_process_event_def Let_def split: option.splits)

lemma visited_Cons:
  assumes "copy_at m s"
  obtains "next_state s e = None" "visited (e # es) m = Inl InvalidState"
  | t m1 where "next_state s e = Some t" "copy_at m1 t"
      "visited (e # es) m = rbind (visited es m1) (\<lambda>vs. Inr (t # vs))"
proof (cases "next_state s e")
  case None
  then show thesis using that(1) by (simp add: process_event_copy[OF assms])
next
  case (Some t)
  define m1 where "m1 = post_process_event t (m\<lparr>fm_current := Some t\<rparr>)"
  have m1: "copy_at m1 t" unfolding m1_def by (rule post_process_copy[OF assms])
  moreover have "fm_current m1 = Some t" using m1 by (auto simp: copy_at_def)
  ultimately show thesis
    using that(2)[OF Some] Some by (simp add: process_event_copy[OF assms] m1_def[symmetric])
qed

lemma occupied_next: "occupied s \<Longrightarrow> next_state s e = Some t \<Longrightarrow> occupied t \<or> t = CLEANING"
proof -
  have "list_all (\<lambda>s. \<not> occupied s \<or> list_all (\<lambda>t. occupied t \<or> t = CLEANING) (next_states s))
     (enum_class.enum :: prov_state list)" by code_simp
  then have all: "\<not> occupied s \<or> (\<forall>t \<in> set (next_states s). occupied t \<or> t = CLEANING)"
    unfolding list_all_iff enum_UNIV by blast
  assume "occupied s" "next_state s e = Some t"
  moreover have "t \<in> set (next_states s)"
    using \<open>next_state s e = Some t\<close> by (auto simp: next_state_def next_states_def dest!: map_of_SomeD intro: rev_image_eqI)
  ultimately show ?thesis using all by blast
qed

lemma cleaned_next: "next_state s e = Some AVAILABLE \<Longrightarrow> s = CLEANING \<and> e = ''done''"
proof -
  have "list_all (\<lambda>s. list_all (\<lambda>(e, t). t \<noteq> AVAILABLE \<or> s = CLEANING \<and> e = ''done'') (transitions_of machine s))
     (enum_class.enum :: prov_state list)" by code_simp
  then have all: "\<forall>(e, t) \<in> set (transitions_of machine s). t \<noteq> AVAILABLE \<or> s = CLEANING \<and> e = ''done''"
    unfolding list_all_iff enum_UNIV by blast
  assume "next_state s e = Some AVAILABLE"
  then have "(e, AVAILABLE) \<in> set (transitions_of machine s)"
    unfolding next_state_def by (rule map_of_SomeD)
  with all show ?thesis by blast
qed

lemma visited_prefix:
  "copy_at m s \<Longrightarrow> occupied s \<Longrightarrow> visited es m = Inr (us @ ws) \<Longrightarrow> CLEANING \<notin> set us \<Longrightarrow> \<forall>u \<in> set us. occupied u"
proof (induction es arbitrary: m s us)
  case (Cons e es)
  from Cons.prems(1) show ?case
  proof (cases rule: visited_Cons[where e = e and es = es])
    case 1
    then show ?thesis using Cons.prems(3) by simp
  next
    case (2 t m1)
    then obtain xs where xs: "visited es m1 = Inr xs" "us @ ws = t # xs"
      using Cons.prems(3) by (auto simp: rbind_eq_Inr)
    show ?thesis
    proof (cases us)
      case us: (Cons u vs)
      then have eq: "u = t" "visited es m1 = Inr (vs @ ws)" using xs us by auto
      then have "occupied t"
        using occupied_next[OF Cons.prems(2) 2(1)] Cons.prems(4) us by auto
      with Cons.IH[OF 2(2) _ eq(2)] eq us Cons.prems(4) show ?thesis by auto
    qed simp
  qed
qed simp

lemma visited_last:
  "copy_at m s \<Longrightarrow> visited es m = Inr (vs @ [AVAILABLE]) \<Longrightarrow> last (s # vs) = CLEANING"
proof (induction es arbitrary: m s vs)
  case (Cons e es)
  from Cons.prems(1) show ?case
  proof (cases rule: visited_Cons[where e = e and es = es])
    case 1
    then show ?thesis using Cons.prems(2) by simp
  next
    case (2 t m1)
    then obtain ws where ws: "visited es m1 = Inr ws" "vs @ [AVAILABLE] = t # ws"
      using Cons.prems(2) by (auto simp: rbind_eq_Inr)
    show ?thesis
    proof (cases vs)
      case Nil
      then have "next_state s e = Some AVAILABLE" using 2(1) ws(2) by simp
      then show ?thesis using cleaned_next Nil by simp
    next
      case vs: (Cons v us)
      then have "visited es m1 = Inr (us @ [AVAILABLE])" "v = t" using ws by auto
      then show ?thesis using Cons.IH[OF 2(2)] vs by simp
    qed
  qed
qed simp

text \<open>Claim C20. However a node that was given to an instance is driven by events, it comes to the
  state \<open>available\<close>, in which the scheduler may give it to the next instance, only from the state
  \<open>cleaning\<close>, and the first state in which it no longer counts as occupied is \<open>cleaning\<close>.
\<close>

theorem released_only_cleaned:
  assumes "fsm_initialize s None machine = (Inr (), m)" and "occupied s"
    and "visited es m = Inr (vs @ [AVAILABLE])"
  shows "\<exists>us ws. vs = us @ CLEANING # ws \<and> list_all occupied us \<and> last vs = CLEANING"
proof -
  have m: "copy_at m s" using assms(1) by (rule copy_at_initialize)
  have last: "last (s # vs) = CLEANING" by (rule visited_last[OF m assms(3)])
  then have "vs \<noteq> []" using assms(2) by (auto simp: occupied_def)
  with last have last: "last vs = CLEANING" by simp
  with \<open>vs \<noteq> []\<close> have "CLEANING \<in> set vs" by (metis last_in_set)
  then obtain us ws where split: "vs = us @ CLEANING # ws" "CLEANING \<notin> set us"
    by (meson split_list_first)
  have "\<forall>v \<in> set us. occupied v"
    using visited_prefix[OF m assms(2), of es us] assms(3) split by simp
  with split last show ?thesis by (auto simp: list_all_iff)
qed

theorem released_only_cleaned_witness:
  "visited [''delete'', ''clean'', ''wait'', ''resume'', ''done'']
     (snd (fsm_initialize ACTIVE None machine))
   = Inr ([DELETING, CLEANING, CLEANWAIT, CLEANING] @ [AVAILABLE]) \<and>
   (\<exists>us ws. [DELETING, CLEANING, CLEANWAIT, CLEANING] = us @ CLEANING # ws \<and> list_all occupied us)"
proof -
  define m where "m = snd (fsm_initialize ACTIVE None machine)"
  have "fst (fsm_initialize ACTIVE None machine) = Inr ()" by code_simp
  then have init: "fsm_initialize ACTIVE None machine = (Inr (), m)"
    by (simp add: m_def prod_eq_iff)
  have run: "visited [''delete'', ''clean'', ''wait'', ''resume'', ''done'']
     (snd (fsm_initialize ACTIVE None machine))
     = Inr ([DELETING, CLEANING, CLEANWAIT, CLEANING] @ [AVAILABLE])" by code_simp
  have "occupied ACTIVE" by code_simp
  from released_only_cleaned[OF init this run[folded m_def]] run show ?thesis by blast
qed

end
