(* ===== verification/Ironic_Node.thy ===== *)
theory Ironic_Node
  imports Ironic_Fsm
begin

text \<open>
  A bare metal node and the task that works on it (\<open>ironic/conductor/task_manager.py\<close>,
  \<open>ironic/objects/node.py\<close>): the node object, its row in the database, the state machine of the
  task, the worker to spawn and the hook to call if that fails. The operations of the conductor are
  state passing functions on the task that may raise. The text of error messages is a value that
  says which message it is and what it quotes. Methods of drivers are functions on the node object
  and its row (a driver may call \<open>node.save()\<close>); they are recorded in the order in which they are called.
\<close>

section \<open>Nodes\<close>

datatype pstate = PowerOn | PowerOff | Reboot | PowerError

datatype iface = IfPower | IfManagement | IfDeploy | IfRaid

fun iface_name :: "iface \<Rightarrow> string" where
  "iface_name IfPower = ''power''"
| "iface_name IfManagement = ''management''"
| "iface_name IfDeploy = ''deploy''"
| "iface_name IfRaid = ''raid''"

text \<open>A clean step: those of the driver have a priority, those of a user may have arguments.\<close>

record clean_step =
  st_interface :: iface
  st_step :: string
  st_priority :: "int option"
  st_abortable :: bool
  st_abort_after :: bool
  st_args :: "(string \<times> string) list"
  st_argsinfo :: "(string \<times> bool) list"

datatype message =
    NoFreeWorkers
  | FailedPower pstate ironic_exc
  | DeployTimedOut
  | CleanUpFailed ironic_exc
  | CleanUpUnhandled
  | TearDownFailed ironic_exc
  | UploadFailed ironic_exc
  | PrepareFailed ironic_exc
  | DeployFailed ironic_exc
  | CleanValidateFailed ironic_exc
  | CleanPrepareFailed ironic_exc
  | CannotClean ironic_exc
  | StepFailed "clean_step option" ironic_exc
  | StepInvalid clean_step prov_state
  | InvalidLastStep clean_step
  | CleanTearDownFailed
  | AbortTearDownFailed
  | AbortedByRequest "string option"
  | VerifyFailed ironic_exc
  | VerifyPowerFailed ironic_exc
  | InspectFailed ironic_exc
  | InspectUnexpected "prov_state option"
  | SyncRetries "pstate option" "pstate option" "ironic_exc option"
  | AsyncFailed ironic_exc
  | CleanTimedOut
  | InspectTimedOut

text \<open>
  \<open>driver_internal_info\<close>: the keys the conductor uses, and the rest. A key that is missing is
  \<open>None\<close>; \<open>clean_steps\<close> and \<open>clean_step_index\<close> may also be there with the value \<open>None\<close>.
\<close>

record internal_info =
  in_clean_steps :: "clean_step list option option"
  in_clean_step_index :: "nat option option"
  in_skip_current :: "bool option"
  in_whole_disk :: "bool option"
  in_instance :: "string option"
  in_rest :: "(string \<times> string) list"

record instance_info =
  ii_image_source :: "string option"
  ii_kernel :: "string option"
  ii_ramdisk :: "string option"
  ii_configdrive :: "string option"
  ii_rest :: "(string \<times> string) list"

definition empty_instance_info :: instance_info where
  "empty_instance_info = \<lparr>ii_image_source = None, ii_kernel = None, ii_ramdisk = None, ii_configdrive = None, ii_rest = []\<rparr>"

text \<open>The field \<open>clean_step\<close> holds \<open>{}\<close> when it is set to \<open>None\<close>; both are \<open>None\<close> here.\<close>

record node =
  nd_provision_state :: "prov_state option"
  nd_target_provision_state :: "prov_state option"
  nd_power_state :: "pstate option"
  nd_target_power_state :: "pstate option"
  nd_last_error :: "message option"
  nd_maintenance :: bool
  nd_maintenance_reason :: "message option"
  nd_clean_step :: "clean_step option"
  nd_info :: internal_info
  nd_instance_info :: instance_info
  nd_instance_uuid :: "string option"
  nd_conductor_affinity :: "nat option"
  nd_reservation :: "string option"

section \<open>Tasks\<close>

datatype worker =
    W_deploy "string option"
  | W_tear_down
  | W_node_clean "clean_step list option"
  | W_next_clean_step "nat option"
  | W_clean_abort "string option"
  | W_verify
  | W_inspect
  | W_power pstate
  | W_cleanup_timeout

datatype spawn_hook =
    H_provisioning "prov_state option" "prov_state option"
  | H_cleaning
  | H_power "pstate option"

datatype call =
    C_power_validate
  | C_get_power_state
  | C_set_power_state pstate
  | C_reboot
  | C_deploy_validate
  | C_prepare
  | C_deploy
  | C_clean_up
  | C_tear_down
  | C_prepare_cleaning
  | C_tear_down_cleaning
  | C_get_clean_steps iface
  | C_execute iface clean_step
  | C_inspect_validate
  | C_inspect

record task =
  t_node :: node
  t_row :: node
  t_fsm :: prov_fsm
  t_spawn :: "worker option"
  t_hook :: "spawn_hook option"
  t_calls :: "call list"

type_synonym 'a act = "task \<Rightarrow> (ironic_exc, 'a) result \<times> task"
type_synonym 'a driver_op = "node \<times> node \<Rightarrow> (ironic_exc, 'a) result \<times> (node \<times> node)"

definition ret :: "'a \<Rightarrow> 'a act" where
  "ret x = (\<lambda>t. (Inr x, t))"

definition raising :: "ironic_exc \<Rightarrow> 'a act" where
  "raising e = (\<lambda>t. (Inl e, t))"

definition bnd :: "'a act \<Rightarrow> ('a \<Rightarrow> 'b act) \<Rightarrow> 'b act" where
  "bnd m k = (\<lambda>t. case m t of (Inl e, t1) \<Rightarrow> (Inl e, t1) | (Inr x, t1) \<Rightarrow> k x t1)"

definition and_then :: "'a act \<Rightarrow> 'b act \<Rightarrow> 'b act" where
  "and_then m n = bnd m (\<lambda>_. n)"

text \<open>\<open>try\<close>: what the block raised becomes a value.\<close>

definition attempt :: "'a act \<Rightarrow> (ironic_exc, 'a) result act" where
  "attempt m = (\<lambda>t. case m t of (r, t1) \<Rightarrow> (Inr r, t1))"

text \<open>Reading the node, assigning to its fields, saving it, and calling the driver.\<close>

definition with_node :: "(node \<Rightarrow> 'a act) \<Rightarrow> 'a act" where
  "with_node k = (\<lambda>t. k (t_node t) t)"

definition assign :: "(node \<Rightarrow> node) \<Rightarrow> unit act" where
  "assign f = (\<lambda>t. (Inr (), t\<lparr>t_node := f (t_node t)\<rparr>))"

definition save :: "unit act" where
  "save = (\<lambda>t. (Inr (), t\<lparr>t_row := t_node t\<rparr>))"

definition set_task :: "(task \<Rightarrow> task) \<Rightarrow> unit act" where
  "set_task f = (\<lambda>t. (Inr (), f t))"

definition asks :: "call \<Rightarrow> (node \<Rightarrow> (ironic_exc, 'a) result) \<Rightarrow> 'a act" where
  "asks c f = (\<lambda>t. (f (t_node t), t\<lparr>t_calls := t_calls t @ [c]\<rparr>))"

definition drives :: "call \<Rightarrow> 'a driver_op \<Rightarrow> 'a act" where
  "drives c f = (\<lambda>t. case f (t_node t, t_row t) of
     (r, (n, row)) \<Rightarrow> (r, t\<lparr>t_node := n, t_row := row, t_calls := t_calls t @ [c]\<rparr>))"

text \<open>A block whose \<open>InvalidState\<close> (or subclass of it) becomes \<open>InvalidStateRequested\<close>.\<close>

definition requested :: "'a act \<Rightarrow> 'a act" where
  "requested m = bnd (attempt m) (\<lambda>r. case r of
      Inl e \<Rightarrow> raising (if e = InvalidState \<or> e = PowerStateFailure then InvalidStateRequested else e)
    | Inr x \<Rightarrow> ret x)"

section \<open>The task manager\<close>

text \<open>
  \<open>TaskManager.__init__\<close> with an exclusive lock. The row is read when it is reserved; that the
  reservation is tried again for a while does not change its outcome here.
\<close>

definition reserve :: "string \<Rightarrow> node \<Rightarrow> (ironic_exc, node) result" where
  "reserve host row =
     (if nd_reservation row = None then Inr (row\<lparr>nd_reservation := Some host\<rparr>) else Inl NodeLocked)"

definition release :: "node \<Rightarrow> node" where
  "release row = row\<lparr>nd_reservation := None\<rparr>"

definition acquire :: "string \<Rightarrow> node \<Rightarrow> (ironic_exc, task) result \<times> node" where
  "acquire host row =
     (case reserve host row of
        Inl e \<Rightarrow> (Inl e, row)
      | Inr n \<Rightarrow>
          (let n1 = (if nd_provision_state n = None then n\<lparr>nd_provision_state := Some AVAILABLE\<rparr> else n);
               s = (case nd_provision_state n1 of None \<Rightarrow> AVAILABLE | Some s \<Rightarrow> s)
           in case fsm_initialize s (nd_target_provision_state n1) machine of
                (Inl e, _) \<Rightarrow> (Inl e, release n1)
              | (Inr _, m) \<Rightarrow>
                  (Inr \<lparr>t_node = n1, t_row = n1, t_fsm = m, t_spawn = None, t_hook = None, t_calls = []\<rparr>, n1)))"

text \<open>\<open>TaskManager.process_event\<close>: the callback is the worker, if any, to spawn when the task is left.\<close>

definition fsm_event :: "string \<Rightarrow> prov_state option \<Rightarrow> unit act" where
  "fsm_event e target =
     (\<lambda>t. case fsm_process_event e target (t_fsm t) of (r, m) \<Rightarrow> (r, t\<lparr>t_fsm := m\<rparr>))"

definition stable_now :: "task \<Rightarrow> bool" where
  "stable_now t =
     (case nd_provision_state (t_node t) of
        None \<Rightarrow> False
      | Some s \<Rightarrow> (case is_stable (t_fsm t) s of Inr b \<Rightarrow> b | Inl _ \<Rightarrow> False))"

definition enter_state :: "worker option \<Rightarrow> bool \<Rightarrow> task \<Rightarrow> task" where
  "enter_state callback hook t =
     (let n = t_node t;
          t1 = (if hook \<and> callback \<noteq> None
                then t\<lparr>t_hook := Some (H_provisioning (nd_provision_state n) (nd_target_provision_state n))\<rparr> else t);
          t2 = t1\<lparr>t_node := n\<lparr>nd_provision_state := fm_current (t_fsm t)\<rparr>\<rparr>;
          target = (if callback = None \<and> stable_now t2 then None else fm_target_state (t_fsm t));
          t3 = t2\<lparr>t_node := (t_node t2)\<lparr>nd_target_provision_state := target\<rparr>\<rparr>
      in (case callback of
            None \<Rightarrow> t3
          | Some w \<Rightarrow> t3\<lparr>t_node := (t_node t3)\<lparr>nd_last_error := None\<rparr>, t_spawn := Some w\<rparr>))"

definition process_event :: "string \<Rightarrow> worker option \<Rightarrow> bool \<Rightarrow> prov_state option \<Rightarrow> unit act" where
  "process_event e callback hook target =
     and_then (fsm_event e target) (and_then (set_task (enter_state callback hook)) save)"

text \<open>\<open>process_event(event)\<close> of a handler that only moves the state.\<close>

definition move :: "string \<Rightarrow> unit act" where
  "move e = process_event e None False None"

definition spawn_after :: "worker \<Rightarrow> unit act" where
  "spawn_after w = set_task (\<lambda>t. t\<lparr>t_spawn := Some w\<rparr>)"

definition set_spawn_error_hook :: "spawn_hook \<Rightarrow> unit act" where
  "set_spawn_error_hook h = set_task (\<lambda>t. t\<lparr>t_hook := Some h\<rparr>)"

text \<open>\<open>_write_exception\<close>, when the worker has ended.\<close>

definition write_exception :: "(ironic_exc, unit) result \<Rightarrow> task \<Rightarrow> task" where
  "write_exception r t =
     (case r of
        Inr _ \<Rightarrow> t
      | Inl e \<Rightarrow>
          if nd_last_error (t_node t) = None
          then let n = (t_node t)\<lparr>nd_last_error := Some (AsyncFailed e)\<rparr> in t\<lparr>t_node := n, t_row := n\<rparr>
          else t)"

end
