(* ===== verification/Ironic_Cleaning.thy ===== *)
theory Ironic_Cleaning
  imports Ironic_Node
begin

text \<open>
  Cleaning a node: the helpers of \<open>ironic/conductor/utils.py\<close> and the operations of
  \<open>ironic/conductor/manager.py\<close> that prepare, run, continue and abort automated and manual
  cleaning. The driver is a record of the methods the conductor calls.
\<close>

section \<open>Drivers\<close>

record driver =
  dv_power_validate :: "node \<Rightarrow> (ironic_exc, unit) result"
  dv_get_power_state :: "node \<Rightarrow> (ironic_exc, pstate option) result"
  dv_set_power_state :: "pstate \<Rightarrow> unit driver_op"
  dv_reboot :: "unit driver_op"
  dv_deploy_validate :: "node \<Rightarrow> (ironic_exc, unit) result"
  dv_prepare :: "unit driver_op"
  dv_deploy :: "prov_state option driver_op"
  dv_clean_up :: "unit driver_op"
  dv_tear_down :: "prov_state option driver_op"
  dv_prepare_cleaning :: "prov_state option driver_op"
  dv_tear_down_cleaning :: "unit driver_op"
  dv_interfaces :: "iface list"
  dv_get_clean_steps :: "iface \<Rightarrow> node \<Rightarrow> (ironic_exc, clean_step list) result"
  dv_execute_clean_step :: "iface \<Rightarrow> clean_step \<Rightarrow> prov_state option driver_op"
  dv_inspect_validate :: "node \<Rightarrow> (ironic_exc, unit) result"
  dv_inspect :: "(prov_state option driver_op) option"

text \<open>The options of the conductor, and the services its operations ask.\<close>

record conf =
  cf_automated_clean :: bool
  cf_configdrive_use_swift :: bool
  cf_upload_configdrive :: "string \<Rightarrow> (ironic_exc, string) result"
  cf_is_uuid_like :: "string \<Rightarrow> bool"
  cf_image_properties :: "string \<Rightarrow> (ironic_exc, string option \<times> string option) result"
  cf_power_sync_retries :: nat
  cf_force_power_state :: bool
  cf_conductor_id :: nat
  cf_interface_order :: "iface list"

definition parameter_error :: "ironic_exc \<Rightarrow> bool" where
  "parameter_error e \<longleftrightarrow> e = InvalidParameterValue \<or> e = MissingParameterValue"

section \<open>Errors while cleaning\<close>

text \<open>\<open>target_state = states.MANAGEABLE if manual_clean else None\<close>.\<close>

definition manual_clean :: "node \<Rightarrow> bool" where
  "manual_clean n \<longleftrightarrow> nd_target_provision_state n = Some MANAGEABLE"

definition clean_target :: "bool \<Rightarrow> prov_state option" where
  "clean_target manual = (if manual then Some MANAGEABLE else None)"

definition clear_failed_step :: "message \<Rightarrow> node \<Rightarrow> node" where
  "clear_failed_step msg n =
     (let n1 = (if nd_provision_state n = Some CLEANING \<or> nd_provision_state n = Some CLEANWAIT
                then n\<lparr>nd_clean_step := None, nd_info := (nd_info n)\<lparr>in_clean_step_index := None\<rparr>\<rparr> else n)
      in n1\<lparr>nd_last_error := Some msg, nd_maintenance := True, nd_maintenance_reason := Some msg\<rparr>)"

definition tear_down_cleaning :: "driver \<Rightarrow> unit act" where
  "tear_down_cleaning d = drives C_tear_down_cleaning (dv_tear_down_cleaning d)"

definition cleaning_error_handler :: "driver \<Rightarrow> message \<Rightarrow> bool \<Rightarrow> bool \<Rightarrow> unit act" where
  "cleaning_error_handler d msg tear_down set_fail_state =
     with_node (\<lambda>n.
       and_then (assign (clear_failed_step msg)) (and_then save (
       and_then (if tear_down then and_then (attempt (tear_down_cleaning d)) (ret ()) else ret ())
         (if set_fail_state then process_event ''fail'' None False (clean_target (manual_clean n)) else ret ()))))"

section \<open>The steps of a driver\<close>

text \<open>
  \<open>CLEANING_INTERFACE_PRIORITY\<close> and the key by which steps are sorted. The steps of a driver always
  have a priority (\<open>ironic/drivers/base.py\<close> sets it); only they are sorted.
\<close>

fun interface_priority :: "iface \<Rightarrow> int" where
  "interface_priority IfPower = 4"
| "interface_priority IfManagement = 3"
| "interface_priority IfDeploy = 2"
| "interface_priority IfRaid = 1"

definition step_priority :: "clean_step \<Rightarrow> int" where
  "step_priority s = (case st_priority s of None \<Rightarrow> 0 | Some p \<Rightarrow> p)"

definition step_key :: "clean_step \<Rightarrow> int \<times> int" where
  "step_key s = (step_priority s, interface_priority (st_interface s))"

definition key_less :: "int \<times> int \<Rightarrow> int \<times> int \<Rightarrow> bool" where
  "key_less a b \<longleftrightarrow> fst a < fst b \<or> fst a = fst b \<and> snd a < snd b"

text \<open>\<open>sorted(steps, key=_step_key, reverse=True)\<close>: descending, and equal keys keep their order.\<close>

fun insert_step :: "clean_step \<Rightarrow> clean_step list \<Rightarrow> clean_step list" where
  "insert_step s [] = [s]"
| "insert_step s (x # xs) =
     (if key_less (step_key s) (step_key x) then x # insert_step s xs else s # x # xs)"

definition sort_steps :: "clean_step list \<Rightarrow> clean_step list" where
  "sort_steps xs = foldr insert_step xs []"

definition enabled_step :: "clean_step \<Rightarrow> bool" where
  "enabled_step s \<longleftrightarrow> 0 < step_priority s"

fun collect_steps :: "driver \<Rightarrow> bool \<Rightarrow> iface list \<Rightarrow> clean_step list act" where
  "collect_steps d enabled [] = ret []"
| "collect_steps d enabled (i # is) =
     (if i \<in> set (dv_interfaces d)
      then bnd (asks (C_get_clean_steps i) (dv_get_clean_steps d i)) (\<lambda>xs.
           bnd (collect_steps d enabled is) (\<lambda>ys. ret ([x \<leftarrow> xs. \<not> enabled \<or> enabled_step x] @ ys)))
      else collect_steps d enabled is)"

definition get_cleaning_steps :: "driver \<Rightarrow> conf \<Rightarrow> bool \<Rightarrow> bool \<Rightarrow> clean_step list act" where
  "get_cleaning_steps d c enabled sort_them =
     bnd (collect_steps d enabled (cf_interface_order c)) (\<lambda>xs. ret (if sort_them then sort_steps xs else xs))"

section \<open>The steps of a user\<close>

definition step_id :: "clean_step \<Rightarrow> string" where
  "step_id s = st_step s @ ''.'' @ iface_name (st_interface s)"

text \<open>The step of the driver with an identifier: a later step replaces an earlier one.\<close>

definition driver_step :: "clean_step list \<Rightarrow> string \<Rightarrow> clean_step option" where
  "driver_step xs k = map_of (rev (map (\<lambda>s. (step_id s, s)) xs)) k"

definition step_errors :: "clean_step list \<Rightarrow> clean_step \<Rightarrow> nat" where
  "step_errors xs user =
     (case driver_step xs (step_id user) of
        None \<Rightarrow> 1
      | Some s \<Rightarrow>
          (if \<exists>a \<in> fst ` set (st_args user). a \<notin> fst ` set (st_argsinfo s) then 1 else 0) +
          (if \<exists>(a, required) \<in> set (st_argsinfo s). required \<and> a \<notin> fst ` set (st_args user) then 1 else 0))"

definition validate_user_clean_steps :: "driver \<Rightarrow> conf \<Rightarrow> clean_step list \<Rightarrow> unit act" where
  "validate_user_clean_steps d c user =
     bnd (get_cleaning_steps d c False False) (\<lambda>xs.
       if sum_list (map (step_errors xs) user) = 0 then ret () else raising InvalidParameterValue)"

definition set_node_cleaning_steps :: "driver \<Rightarrow> conf \<Rightarrow> unit act" where
  "set_node_cleaning_steps d c =
     with_node (\<lambda>n.
       let finish = (\<lambda>steps.
             and_then (assign (\<lambda>n1. n1\<lparr>nd_clean_step := None,
               nd_info := (nd_info n)\<lparr>in_clean_steps := steps, in_clean_step_index := Some None\<rparr>\<rparr>)) save)
       in if \<not> manual_clean n
          then bnd (get_cleaning_steps d c True True) (\<lambda>xs. finish (Some (Some xs)))
          else (case in_clean_steps (nd_info n) of
                  None \<Rightarrow> raising PyKeyErr
                | Some None \<Rightarrow> and_then (get_cleaning_steps d c False False) (raising PyTypeErr)
                | Some (Some xs) \<Rightarrow> and_then (validate_user_clean_steps d c xs) (finish (Some (Some xs)))))"

section \<open>Running the steps\<close>

text \<open>One clean step: the message of its failure, or whether it waits for a call back.\<close>

definition run_step :: "driver \<Rightarrow> clean_step \<Rightarrow> (message + bool) act" where
  "run_step d s =
     (if st_interface s \<notin> set (dv_interfaces d) then ret (Inl (StepFailed (Some s) PyAttributeErr))
      else bnd (attempt (drives (C_execute (st_interface s) s) (dv_execute_clean_step d (st_interface s) s))) (\<lambda>r.
        case r of
          Inl e \<Rightarrow> with_node (\<lambda>n. ret (Inl (StepFailed (nd_clean_step n) e)))
        | Inr None \<Rightarrow> ret (Inr False)
        | Inr (Some v) \<Rightarrow> if v = CLEANING \<or> v = CLEANWAIT then ret (Inr True) else ret (Inl (StepInvalid s v))))"

text \<open>
  The loop of \<open>_do_next_clean_step\<close>. \<open>info\<close> is the handler's own \<open>driver_internal_info\<close>: assigning it
  to the node stores a copy, so what a step stores there is overwritten when the next one starts.
  The loop ends early (\<open>True\<close>) when a step waits or fails.
\<close>

definition start_step :: "internal_info \<Rightarrow> nat \<Rightarrow> clean_step \<Rightarrow> node \<Rightarrow> node" where
  "start_step info i s n = n\<lparr>nd_clean_step := Some s, nd_info := info\<lparr>in_clean_step_index := Some (Some i)\<rparr>\<rparr>"

fun run_steps :: "driver \<Rightarrow> internal_info \<Rightarrow> bool \<Rightarrow> nat \<Rightarrow> clean_step list \<Rightarrow> bool act" where
  "run_steps d info manual i [] = ret False"
| "run_steps d info manual i (s # ss) =
     and_then (assign (start_step info i s)) (and_then save (
       bnd (run_step d s) (\<lambda>r. case r of
           Inl msg \<Rightarrow> and_then (cleaning_error_handler d msg True True) (ret True)
         | Inr True \<Rightarrow> and_then (process_event ''wait'' None False (clean_target manual)) (ret True)
         | Inr False \<Rightarrow> run_steps d info manual (Suc i) ss)))"

definition finish_cleaning :: "driver \<Rightarrow> internal_info \<Rightarrow> bool \<Rightarrow> unit act" where
  "finish_cleaning d info manual =
     and_then (assign (\<lambda>n. n\<lparr>nd_clean_step := None,
         nd_info := info\<lparr>in_clean_steps := Some None, in_clean_step_index := None\<rparr>\<rparr>)) (and_then save (
       bnd (attempt (tear_down_cleaning d)) (\<lambda>r. case r of
           Inl e \<Rightarrow> cleaning_error_handler d CleanTearDownFailed False True
         | Inr _ \<Rightarrow> move (if manual then ''manage'' else ''done''))))"

definition do_next_clean_step :: "driver \<Rightarrow> nat option \<Rightarrow> unit act" where
  "do_next_clean_step d idx =
     with_node (\<lambda>n.
       let info = nd_info n; manual = manual_clean n;
           go = (\<lambda>i ss. bnd (run_steps d info manual i ss) (\<lambda>ended.
                   if ended then ret () else finish_cleaning d info manual))
       in case idx of
            None \<Rightarrow> go 0 []
          | Some i \<Rightarrow>
              (case in_clean_steps info of
                 None \<Rightarrow> raising PyKeyErr
               | Some None \<Rightarrow> raising PyTypeErr
               | Some (Some xs) \<Rightarrow> go i (drop i xs)))"

section \<open>Starting, continuing and aborting\<close>

fun index_of :: "'a \<Rightarrow> 'a list \<Rightarrow> nat option" where
  "index_of x [] = None"
| "index_of x (y # ys) = (if x = y then Some 0 else map_option Suc (index_of x ys))"

text \<open>\<open>_get_node_next_clean_steps\<close>: the index is looked up if it is not stored.\<close>

definition next_index :: "bool \<Rightarrow> internal_info \<Rightarrow> nat option \<Rightarrow> nat option act" where
  "next_index skip info ind =
     (case ind of
        None \<Rightarrow> ret None
      | Some i \<Rightarrow>
          (let j = (if skip then Suc i else i)
           in case in_clean_steps info of
                None \<Rightarrow> raising PyKeyErr
              | Some None \<Rightarrow> raising PyTypeErr
              | Some (Some xs) \<Rightarrow> ret (if length xs \<le> j then None else Some j)))"

definition get_next_clean_steps :: "driver \<Rightarrow> bool \<Rightarrow> nat option act" where
  "get_next_clean_steps d skip =
     with_node (\<lambda>n.
       case nd_clean_step n of
         None \<Rightarrow> ret (Some 0)
       | Some current \<Rightarrow>
           (let info = nd_info n;
                lost = and_then (cleaning_error_handler d (InvalidLastStep current) True True) (raising NodeCleaningFailure)
            in case in_clean_step_index info of
                 Some ind \<Rightarrow> next_index skip info ind
               | None \<Rightarrow>
                   (case in_clean_steps info of
                      None \<Rightarrow> lost
                    | Some None \<Rightarrow> raising PyAttributeErr
                    | Some (Some xs) \<Rightarrow>
                        (case index_of current xs of None \<Rightarrow> lost | Some i \<Rightarrow> next_index skip info (Some i)))))"

text \<open>The worker that starts cleaning; \<open>clean_steps\<close> are the steps of manual cleaning.\<close>

definition power_validate :: "driver \<Rightarrow> unit act" where
  "power_validate d = asks C_power_validate (dv_power_validate d)"

definition prepare_and_clean :: "driver \<Rightarrow> conf \<Rightarrow> bool \<Rightarrow> unit act" where
  "prepare_and_clean d c manual =
     bnd (attempt (drives C_prepare_cleaning (dv_prepare_cleaning d))) (\<lambda>r. case r of
         Inl e \<Rightarrow> cleaning_error_handler d (CleanPrepareFailed e) True True
       | Inr v \<Rightarrow>
           if v = Some CLEANING \<or> v = Some CLEANWAIT then process_event ''wait'' None False (clean_target manual)
           else bnd (attempt (set_node_cleaning_steps d c)) (\<lambda>q. case q of
               Inl e \<Rightarrow>
                 if e = InvalidParameterValue \<or> e = NodeCleaningFailure
                 then cleaning_error_handler d (CannotClean e) True True else raising e
             | Inr _ \<Rightarrow> with_node (\<lambda>n.
                 do_next_clean_step d (case in_clean_steps (nd_info n) of
                   Some (Some (x # xs)) \<Rightarrow> Some 0 | _ \<Rightarrow> None))))"

definition do_node_clean :: "driver \<Rightarrow> conf \<Rightarrow> clean_step list option \<Rightarrow> unit act" where
  "do_node_clean d c steps =
     (if steps = None \<and> \<not> cf_automated_clean c
      then and_then (assign (\<lambda>n. n\<lparr>nd_clean_step := None\<rparr>)) (and_then save (move ''done''))
      else bnd (attempt (power_validate d)) (\<lambda>r. case r of
          Inl e \<Rightarrow>
            if parameter_error e then cleaning_error_handler d (CleanValidateFailed e) True True else raising e
        | Inr _ \<Rightarrow>
            and_then (case steps of
                None \<Rightarrow> ret ()
              | Some xs \<Rightarrow> and_then (assign (\<lambda>n. n\<lparr>nd_info := (nd_info n)\<lparr>in_clean_steps := Some (Some xs)\<rparr>\<rparr>)) save)
              (prepare_and_clean d c (steps \<noteq> None))))"

text \<open>The worker that aborts cleaning.\<close>

definition do_node_clean_abort :: "driver \<Rightarrow> string option \<Rightarrow> unit act" where
  "do_node_clean_abort d step_name =
     bnd (attempt (tear_down_cleaning d)) (\<lambda>r. case r of
         Inl e \<Rightarrow> cleaning_error_handler d AbortTearDownFailed False False
       | Inr _ \<Rightarrow> and_then (assign (\<lambda>n. n\<lparr>nd_last_error := Some (AbortedByRequest step_name), nd_clean_step := None\<rparr>)) save)"

text \<open>The RPC methods \<open>do_node_clean\<close> (manual cleaning) and \<open>continue_node_clean\<close>, inside the task.\<close>

definition rpc_node_clean :: "driver \<Rightarrow> clean_step list \<Rightarrow> unit act" where
  "rpc_node_clean d steps =
     with_node (\<lambda>n.
       if nd_maintenance n then raising NodeInMaintenance
       else and_then (power_validate d)
              (requested (process_event ''clean'' (Some (W_node_clean (Some steps))) True (Some MANAGEABLE))))"

definition pop_skip_current :: "bool act" where
  "pop_skip_current =
     with_node (\<lambda>n. case in_skip_current (nd_info n) of
         None \<Rightarrow> ret True
       | Some b \<Rightarrow> and_then (assign (\<lambda>n. n\<lparr>nd_info := (nd_info n)\<lparr>in_skip_current := None\<rparr>\<rparr>)) (and_then save (ret b)))"

definition abort_after :: "node \<Rightarrow> string option" where
  "abort_after n = (case nd_clean_step n of
     None \<Rightarrow> None | Some s \<Rightarrow> if st_abort_after s then Some (st_step s) else None)"

definition rpc_continue_clean :: "driver \<Rightarrow> unit act" where
  "rpc_continue_clean d =
     with_node (\<lambda>n.
       let target = clean_target (manual_clean n)
       in if nd_provision_state n \<noteq> Some CLEANWAIT \<and> nd_provision_state n \<noteq> Some CLEANING
          then raising InvalidStateRequested
          else bnd pop_skip_current (\<lambda>skip.
               bnd (get_next_clean_steps d skip) (\<lambda>idx.
               with_node (\<lambda>n1.
                 if abort_after n1 \<noteq> None \<and> idx \<noteq> None
                 then process_event ''abort'' (Some (W_clean_abort (abort_after n1))) True target
                 else and_then (if nd_provision_state n1 = Some CLEANWAIT
                                then process_event ''resume'' None False target else ret ())
                      (and_then (set_spawn_error_hook H_cleaning) (spawn_after (W_next_clean_step idx)))))))"

end
