(* ===== verification/Ironic_Conductor.thy ===== *)
theory Ironic_Conductor
  imports Ironic_Cleaning
begin

text \<open>
  The provisioning operations of Ironic's conductor (\<open>ironic/conductor/manager.py\<close>,
  \<open>base_manager.py\<close>, \<open>utils.py\<close>): deploying, tearing down, verifying and inspecting a node, changing
  and synchronising its power state, failing it after a timeout, the actions of the API, and the
  life of a request: take the lock, run the handler, spawn the worker, release the lock.
\<close>

section \<open>Power\<close>

definition power_target :: "pstate \<Rightarrow> pstate" where
  "power_target new = (if new = Reboot then PowerOn else new)"

text \<open>The second half of \<open>node_power_action\<close>, after the current state was asked.\<close>

definition take_power_action :: "driver \<Rightarrow> pstate \<Rightarrow> unit act" where
  "take_power_action d new =
     and_then (with_node (\<lambda>n.
         if nd_target_power_state n \<noteq> Some (power_target new)
         then and_then (assign (\<lambda>n. n\<lparr>nd_target_power_state := Some (power_target new), nd_last_error := None\<rparr>)) save
         else ret ()))
       (bnd (attempt (if new \<noteq> Reboot then drives (C_set_power_state new) (dv_set_power_state d new)
                      else drives C_reboot (dv_reboot d))) (\<lambda>r.
         and_then (assign (\<lambda>n. case r of
             Inl e \<Rightarrow> n\<lparr>nd_last_error := Some (FailedPower (power_target new) e)\<rparr>
           | Inr _ \<Rightarrow> n\<lparr>nd_power_state := Some (power_target new)\<rparr>))
         (and_then (assign (\<lambda>n. n\<lparr>nd_target_power_state := None\<rparr>)) (and_then save
           (case r of Inl e \<Rightarrow> raising e | Inr _ \<Rightarrow> ret ())))))"

definition node_power_action :: "driver \<Rightarrow> pstate \<Rightarrow> unit act" where
  "node_power_action d new =
     (if new = Reboot then take_power_action d new
      else bnd (attempt (asks C_get_power_state (dv_get_power_state d))) (\<lambda>r. case r of
          Inl e \<Rightarrow>
            and_then (assign (\<lambda>n. n\<lparr>nd_last_error := Some (FailedPower new e), nd_target_power_state := None\<rparr>))
              (and_then save (raising e))
        | Inr current \<Rightarrow>
            if current = Some new
            then and_then (assign (\<lambda>n. n\<lparr>nd_last_error := None, nd_power_state := Some new,
                   nd_target_power_state := None\<rparr>)) save
            else take_power_action d new))"

definition rpc_change_power :: "driver \<Rightarrow> pstate \<Rightarrow> unit act" where
  "rpc_change_power d new =
     and_then (power_validate d) (
     and_then (assign (\<lambda>n. n\<lparr>nd_target_power_state := Some (power_target new), nd_last_error := None\<rparr>)) (
     and_then save (with_node (\<lambda>n.
       and_then (set_spawn_error_hook (H_power (nd_power_state n))) (spawn_after (W_power new))))))"

section \<open>Deploying\<close>

definition falsy :: "string option \<Rightarrow> bool" where
  "falsy x \<longleftrightarrow> x = None \<or> x = Some []"

definition is_glance_image :: "conf \<Rightarrow> string option \<Rightarrow> bool" where
  "is_glance_image c href =
     (case href of None \<Rightarrow> False | Some h \<Rightarrow> take 9 h = ''glance://'' \<or> cf_is_uuid_like c h)"

definition is_whole_disk_image :: "conf \<Rightarrow> instance_info \<Rightarrow> bool option" where
  "is_whole_disk_image c i =
     (if falsy (ii_image_source i) then None
      else if is_glance_image c (ii_image_source i)
      then (case cf_image_properties c (the (ii_image_source i)) of
              Inl _ \<Rightarrow> None
            | Inr (k, r) \<Rightarrow> Some (falsy k \<and> falsy r))
      else Some (falsy (ii_kernel i) \<and> falsy (ii_ramdisk i)))"

definition store_configdrive :: "conf \<Rightarrow> string \<Rightarrow> unit act" where
  "store_configdrive c drive =
     (case (if cf_configdrive_use_swift c then cf_upload_configdrive c drive else Inr drive) of
        Inl e \<Rightarrow> raising e
      | Inr v \<Rightarrow> assign (\<lambda>n. n\<lparr>nd_instance_info := (nd_instance_info n)\<lparr>ii_configdrive := Some v\<rparr>\<rparr>))"

text \<open>\<open>handle_failure\<close> of the deploying worker; if the event is refused, its error is raised instead.\<close>

definition deploy_failure :: "message \<Rightarrow> ironic_exc \<Rightarrow> 'a act" where
  "deploy_failure msg e =
     and_then (move ''fail'') (and_then (assign (\<lambda>n. n\<lparr>nd_last_error := Some msg\<rparr>)) (raising e))"

text \<open>\<open>try ... finally: node.save()\<close>.\<close>

definition finally_save :: "unit act \<Rightarrow> unit act" where
  "finally_save m = bnd (attempt m) (\<lambda>r. and_then save (case r of Inl e \<Rightarrow> raising e | Inr _ \<Rightarrow> ret ()))"

definition or_fail :: "'a act \<Rightarrow> (ironic_exc \<Rightarrow> bool) \<Rightarrow> (ironic_exc \<Rightarrow> message) \<Rightarrow> 'a act" where
  "or_fail m catches msg =
     bnd (attempt m) (\<lambda>r. case r of
         Inl e \<Rightarrow> if catches e then deploy_failure (msg e) e else raising e
       | Inr x \<Rightarrow> ret x)"

definition do_node_deploy :: "driver \<Rightarrow> conf \<Rightarrow> string option \<Rightarrow> unit act" where
  "do_node_deploy d c configdrive =
     finally_save (
       and_then (or_fail (if falsy configdrive then ret () else store_configdrive c (the configdrive))
          (\<lambda>e. e = SwiftOperationError) UploadFailed) (
       and_then (or_fail (drives C_prepare (dv_prepare d)) (\<lambda>_. True) PrepareFailed) (
       bnd (or_fail (drives C_deploy (dv_deploy d)) (\<lambda>_. True) DeployFailed) (\<lambda>new_state.
       and_then (assign (\<lambda>n. n\<lparr>nd_conductor_affinity := Some (cf_conductor_id c)\<rparr>))
         (if new_state = Some DEPLOYDONE then move ''done''
          else if new_state = Some DEPLOYWAIT then move ''wait'' else ret ())))))"

definition clear_images :: "conf \<Rightarrow> node \<Rightarrow> node" where
  "clear_images c n =
     (if is_glance_image c (ii_image_source (nd_instance_info n))
      then n\<lparr>nd_instance_info := (nd_instance_info n)\<lparr>ii_kernel := None, ii_ramdisk := None\<rparr>\<rparr> else n)"

text \<open>A check of the driver whose parameter errors are reported as another exception.\<close>

definition checked :: "ironic_exc \<Rightarrow> unit act \<Rightarrow> unit act" where
  "checked other m = bnd (attempt m) (\<lambda>r. case r of
      Inl e \<Rightarrow> raising (if parameter_error e then other else e) | Inr _ \<Rightarrow> ret ())"

definition rpc_node_deploy :: "driver \<Rightarrow> conf \<Rightarrow> bool \<Rightarrow> string option \<Rightarrow> unit act" where
  "rpc_node_deploy d c rebuild configdrive =
     with_node (\<lambda>n.
       if nd_maintenance n then raising NodeInMaintenance
       else and_then (if rebuild then assign (clear_images c) else ret ()) (
            and_then (assign (\<lambda>n. n\<lparr>nd_info := (nd_info n)\<lparr>in_whole_disk := is_whole_disk_image c (nd_instance_info n)\<rparr>\<rparr>)) (
            and_then save (
            and_then (checked InstanceDeployFailure
                (and_then (power_validate d) (asks C_deploy_validate (dv_deploy_validate d))))
              (requested (process_event (if rebuild then ''rebuild'' else ''deploy'')
                 (Some (W_deploy configdrive)) True None))))))"

section \<open>Tearing down\<close>

definition rpc_node_tear_down :: "driver \<Rightarrow> unit act" where
  "rpc_node_tear_down d =
     and_then (checked InstanceDeployFailure (power_validate d))
       (requested (process_event ''delete'' (Some W_tear_down) True None))"

definition forget_instance :: "node \<Rightarrow> node" where
  "forget_instance n = n\<lparr>nd_instance_info := empty_instance_info, nd_instance_uuid := None,
     nd_info := (nd_info n)\<lparr>in_instance := None\<rparr>\<rparr>"

definition do_node_tear_down :: "driver \<Rightarrow> conf \<Rightarrow> unit act" where
  "do_node_tear_down d c =
     bnd (attempt (
         bnd (attempt (and_then (drives C_clean_up (dv_clean_up d)) (drives C_tear_down (dv_tear_down d)))) (\<lambda>r. case r of
             Inl e \<Rightarrow> and_then (assign (\<lambda>n. n\<lparr>nd_last_error := Some (TearDownFailed e)\<rparr>))
                       (and_then (move ''error'') (raising e))
           | Inr _ \<Rightarrow> ret ()))) (\<lambda>r.
       and_then (assign forget_instance) (and_then save (case r of
           Inl e \<Rightarrow> raising e
         | Inr _ \<Rightarrow> and_then (requested (move ''clean'')) (do_node_clean d c None))))"

section \<open>Verifying and inspecting\<close>

definition do_node_verify :: "driver \<Rightarrow> unit act" where
  "do_node_verify d =
     bnd (attempt (power_validate d)) (\<lambda>r.
     bnd (case r of
            Inl e \<Rightarrow> ret (Inl (VerifyFailed e))
          | Inr _ \<Rightarrow> bnd (attempt (asks C_get_power_state (dv_get_power_state d))) (\<lambda>q. case q of
                Inl e \<Rightarrow> ret (Inl (VerifyPowerFailed e)) | Inr p \<Rightarrow> ret (Inr p))) (\<lambda>q. case q of
         Inr p \<Rightarrow> and_then (assign (\<lambda>n. n\<lparr>nd_power_state := p\<rparr>)) (move ''done'')
       | Inl msg \<Rightarrow>
           and_then (assign (\<lambda>n. n\<lparr>nd_last_error := Some msg\<rparr>)) (
           and_then (move ''fail'') (
           and_then (assign (\<lambda>n. n\<lparr>nd_target_provision_state := None\<rparr>)) save))))"

definition inspect_failure :: "message \<Rightarrow> ironic_exc \<Rightarrow> unit act" where
  "inspect_failure msg e =
     and_then (assign (\<lambda>n. n\<lparr>nd_last_error := Some msg\<rparr>)) (and_then (move ''fail'') (raising e))"

definition do_inspect_hardware :: "driver \<Rightarrow> unit act" where
  "do_inspect_hardware d =
     (case dv_inspect d of
        None \<Rightarrow> inspect_failure (InspectFailed PyAttributeErr) PyAttributeErr
      | Some f \<Rightarrow> bnd (attempt (drives C_inspect f)) (\<lambda>r. case r of
            Inl e \<Rightarrow> inspect_failure (InspectFailed e) e
          | Inr v \<Rightarrow>
              if v = Some MANAGEABLE then move ''done''
              else if v \<noteq> Some INSPECTING then inspect_failure (InspectUnexpected v) HardwareInspectionFailure
              else ret ()))"

definition rpc_inspect_hardware :: "driver \<Rightarrow> unit act" where
  "rpc_inspect_hardware d =
     (if dv_inspect d = None then raising UnsupportedDriverExtension
      else and_then (checked HardwareInspectionFailure
               (and_then (power_validate d) (asks C_inspect_validate (dv_inspect_validate d))))
             (requested (process_event ''inspect'' (Some W_inspect) True None)))"

section \<open>Synchronising the power state\<close>

text \<open>The lock becomes exclusive and the node is read again: the row, unless it is locked or gone.\<close>

definition upgrade_lock :: "(ironic_exc, node) result \<Rightarrow> unit act" where
  "upgrade_lock latest =
     (case latest of Inl e \<Rightarrow> raising e | Inr n \<Rightarrow> set_task (\<lambda>t. t\<lparr>t_node := n, t_row := n\<rparr>))"

definition max_retries_exceeded :: "pstate option \<Rightarrow> ironic_exc option \<Rightarrow> unit act" where
  "max_retries_exceeded actual e =
     and_then (assign (\<lambda>n. let msg = SyncRetries actual (nd_power_state n) e in
       n\<lparr>nd_power_state := actual, nd_last_error := Some msg, nd_maintenance := True, nd_maintenance_reason := Some msg\<rparr>)) save"

definition sync_excluded :: "prov_state option \<Rightarrow> bool" where
  "sync_excluded s \<longleftrightarrow> s \<in> {Some DEPLOYWAIT, Some CLEANWAIT, Some ENROLL}"

definition sync_unvalidated :: "driver \<Rightarrow> bool act" where
  "sync_unvalidated d =
     with_node (\<lambda>n.
       if nd_power_state n = None
       then bnd (attempt (power_validate d)) (\<lambda>r. case r of
           Inl e \<Rightarrow> if parameter_error e then ret True else raising e
         | Inr _ \<Rightarrow> ret False)
       else ret False)"

definition sync_read_power :: "driver \<Rightarrow> (pstate option \<times> ironic_exc option) act" where
  "sync_read_power d =
     bnd (attempt (asks C_get_power_state (dv_get_power_state d))) (\<lambda>r. ret (case r of
         Inl e \<Rightarrow> (None, Some e)
       | Inr p \<Rightarrow> (p, if p = Some PowerError then Some PowerStateFailure else None)))"

definition sync_difference :: "driver \<Rightarrow> conf \<Rightarrow> nat \<Rightarrow> pstate option \<Rightarrow> nat act" where
  "sync_difference d c count actual =
     with_node (\<lambda>n.
       if nd_power_state n \<noteq> None \<and> nd_power_state n = actual then ret 0
       else if sync_excluded (nd_provision_state n) \<or> nd_maintenance n then ret 0
       else (case nd_power_state n of
           None \<Rightarrow> and_then (assign (\<lambda>n. n\<lparr>nd_power_state := actual\<rparr>)) (and_then save (ret 0))
         | Some wanted \<Rightarrow>
             if cf_power_sync_retries c < count then and_then (max_retries_exceeded actual None) (ret count)
             else if cf_force_power_state c then and_then (attempt (node_power_action d wanted)) (ret count)
             else and_then (assign (\<lambda>n. n\<lparr>nd_power_state := actual\<rparr>)) (and_then save (ret count))))"

definition do_sync_power_state :: "driver \<Rightarrow> conf \<Rightarrow> (ironic_exc, node) result \<Rightarrow> nat \<Rightarrow> nat act" where
  "do_sync_power_state d c latest failures =
     (let count = Suc failures in
      bnd (sync_unvalidated d) (\<lambda>unvalidated.
        if unvalidated then ret 0
        else bnd (sync_read_power d) (\<lambda>(actual, error). case error of
            Some e \<Rightarrow>
              if cf_power_sync_retries c < count
              then and_then (upgrade_lock latest) (and_then (max_retries_exceeded actual (Some e)) (ret count))
              else ret count
          | None \<Rightarrow> with_node (\<lambda>n.
              if nd_power_state n \<noteq> None \<and> nd_power_state n = actual then ret 0
              else and_then (upgrade_lock latest) (sync_difference d c count actual)))))"

section \<open>Timeouts and the actions of the API\<close>

definition cleanup_after_timeout :: "driver \<Rightarrow> unit act" where
  "cleanup_after_timeout d =
     and_then (assign (\<lambda>n. n\<lparr>nd_last_error := Some DeployTimedOut\<rparr>)) (and_then save (
     bnd (attempt (drives C_clean_up (dv_clean_up d))) (\<lambda>r. case r of
         Inr _ \<Rightarrow> ret ()
       | Inl e \<Rightarrow>
           and_then (assign (\<lambda>n. n\<lparr>nd_last_error := Some (if is_ironic_exc e then CleanUpFailed e else CleanUpUnhandled)\<rparr>)) save)))"

definition fail_if_in_state :: "prov_state \<Rightarrow> worker option \<Rightarrow> message \<Rightarrow> bool \<Rightarrow> unit act" where
  "fail_if_in_state s callback last_error keep_target_state =
     with_node (\<lambda>n.
       if nd_maintenance n \<or> nd_provision_state n \<noteq> Some s then ret ()
       else let target = (if keep_target_state then nd_target_provision_state n else None)
            in case callback of
                 Some w \<Rightarrow> process_event ''fail'' (Some w) True target
               | None \<Rightarrow>
                   and_then (assign (\<lambda>n. n\<lparr>nd_last_error := Some last_error\<rparr>))
                     (process_event ''fail'' None False target))"

text \<open>The periodic checks, on a node that their query selects.\<close>

definition check_deploy_timeouts :: "unit act" where
  "check_deploy_timeouts = fail_if_in_state DEPLOYWAIT (Some W_cleanup_timeout) DeployTimedOut False"

definition check_deploying_status :: "unit act" where
  "check_deploying_status = fail_if_in_state DEPLOYING (Some W_cleanup_timeout) DeployTimedOut False"

definition check_cleanwait_timeouts :: "unit act" where
  "check_cleanwait_timeouts = fail_if_in_state CLEANWAIT None CleanTimedOut True"

definition check_inspect_timeouts :: "unit act" where
  "check_inspect_timeouts = fail_if_in_state INSPECTING None InspectTimedOut False"

definition abort_clean_step :: "node \<Rightarrow> unit act" where
  "abort_clean_step n =
     (let abort = process_event ''abort'' (Some (W_clean_abort None)) True (clean_target (manual_clean n))
      in case nd_clean_step n of
           None \<Rightarrow> abort
         | Some s \<Rightarrow>
             if st_abortable s then abort
             else if st_abort_after s then ret ()
             else and_then (assign (\<lambda>n. n\<lparr>nd_clean_step := Some (s\<lparr>st_abort_after := True\<rparr>)\<rparr>)) save)"

definition rpc_provisioning_action :: "string \<Rightarrow> unit act" where
  "rpc_provisioning_action action =
     with_node (\<lambda>n.
       if action = ''provide'' \<and> nd_provision_state n = Some MANAGEABLE
       then process_event ''provide'' (Some (W_node_clean None)) True None
       else if action = ''manage'' \<and> nd_provision_state n = Some ENROLL
       then process_event ''manage'' (Some W_verify) True None
       else if action = ''abort'' \<and> nd_provision_state n = Some CLEANWAIT
       then abort_clean_step n
       else requested (move action))"

section \<open>The life of a request\<close>

datatype request =
    Q_deploy bool "string option"
  | Q_tear_down
  | Q_clean "clean_step list"
  | Q_continue_clean
  | Q_action string
  | Q_inspect
  | Q_power pstate
  | Q_deploy_timeout
  | Q_deploying_lost
  | Q_clean_timeout
  | Q_inspect_timeout

definition handler :: "driver \<Rightarrow> conf \<Rightarrow> request \<Rightarrow> unit act" where
  "handler d c q =
     (case q of
        Q_deploy rebuild drive \<Rightarrow> rpc_node_deploy d c rebuild drive
      | Q_tear_down \<Rightarrow> rpc_node_tear_down d
      | Q_clean steps \<Rightarrow> rpc_node_clean d steps
      | Q_continue_clean \<Rightarrow> rpc_continue_clean d
      | Q_action a \<Rightarrow> rpc_provisioning_action a
      | Q_inspect \<Rightarrow> rpc_inspect_hardware d
      | Q_power p \<Rightarrow> rpc_change_power d p
      | Q_deploy_timeout \<Rightarrow> check_deploy_timeouts
      | Q_deploying_lost \<Rightarrow> check_deploying_status
      | Q_clean_timeout \<Rightarrow> check_cleanwait_timeouts
      | Q_inspect_timeout \<Rightarrow> check_inspect_timeouts)"

lemmas handler_defs = handler_def check_deploy_timeouts_def check_deploying_status_def
  check_cleanwait_timeouts_def check_inspect_timeouts_def

definition run_worker :: "driver \<Rightarrow> conf \<Rightarrow> worker \<Rightarrow> unit act" where
  "run_worker d c w =
     (case w of
        W_deploy drive \<Rightarrow> do_node_deploy d c drive
      | W_tear_down \<Rightarrow> do_node_tear_down d c
      | W_node_clean steps \<Rightarrow> do_node_clean d c steps
      | W_next_clean_step idx \<Rightarrow> do_next_clean_step d idx
      | W_clean_abort name \<Rightarrow> do_node_clean_abort d name
      | W_verify \<Rightarrow> do_node_verify d
      | W_inspect \<Rightarrow> do_inspect_hardware d
      | W_power p \<Rightarrow> node_power_action d p
      | W_cleanup_timeout \<Rightarrow> cleanup_after_timeout d)"

text \<open>The hooks, which act when there is no free worker.\<close>

definition provisioning_error_handler :: "prov_state option \<Rightarrow> prov_state option \<Rightarrow> node \<Rightarrow> node" where
  "provisioning_error_handler s target n =
     n\<lparr>nd_provision_state := s, nd_target_provision_state := target, nd_last_error := Some NoFreeWorkers\<rparr>"

definition power_state_error_handler :: "pstate option \<Rightarrow> node \<Rightarrow> node" where
  "power_state_error_handler p n =
     n\<lparr>nd_power_state := p, nd_target_power_state := None, nd_last_error := Some NoFreeWorkers\<rparr>"

definition spawn_failed :: "task \<Rightarrow> task" where
  "spawn_failed t =
     (let n = t_node t;
          write = (\<lambda>n. t\<lparr>t_node := n, t_row := n\<rparr>)
      in case t_hook t of
           None \<Rightarrow> t
         | Some (H_provisioning s target) \<Rightarrow> write (provisioning_error_handler s target n)
         | Some (H_power p) \<Rightarrow> write (power_state_error_handler p n)
         | Some H_cleaning \<Rightarrow> write (n\<lparr>nd_last_error := Some NoFreeWorkers\<rparr>))"

text \<open>
  \<open>__exit__\<close>: with what the body returned or raised, and whether the pool has a free worker. The
  worker runs while the node stays locked, and the lock is released when it ends.
\<close>

definition leave :: "driver \<Rightarrow> conf \<Rightarrow> bool \<Rightarrow> (ironic_exc, unit) result \<times> task \<Rightarrow>
    (ironic_exc, unit) result \<times> task" where
  "leave d c free rt =
     (case rt of (r, t) \<Rightarrow>
        (case r of
           Inl e \<Rightarrow> (Inl e, t)
         | Inr _ \<Rightarrow>
             (case t_spawn t of
                None \<Rightarrow> (Inr (), t)
              | Some w \<Rightarrow>
                  if free then (case run_worker d c w t of (q, t1) \<Rightarrow> (Inr (), write_exception q t1))
                  else (Inl NoFreeConductorWorker, spawn_failed t))))"

text \<open>
  \<open>_check_deploying_status\<close> breaks the lock of a conductor that is gone before it fails the node.
\<close>

definition break_lock :: "request \<Rightarrow> node \<Rightarrow> node" where
  "break_lock q row =
     (case q of
        Q_deploying_lost \<Rightarrow>
          if nd_provision_state row = Some DEPLOYING \<and> \<not> nd_maintenance row then release row else row
      | _ \<Rightarrow> row)"

text \<open>A request to the conductor: its answer, the row it leaves, and the calls of the driver.\<close>

definition serve :: "string \<Rightarrow> driver \<Rightarrow> conf \<Rightarrow> bool \<Rightarrow> request \<Rightarrow> node \<Rightarrow>
    (ironic_exc, unit) result \<times> node \<times> call list" where
  "serve host d c free q row =
     (case acquire host (break_lock q row) of
        (Inl e, row1) \<Rightarrow> (Inl e, row1, [])
      | (Inr t, _) \<Rightarrow>
          (case leave d c free (handler d c q t) of (r, t1) \<Rightarrow> (r, release (t_row t1), t_calls t1)))"

text \<open>Any number of requests, each with the driver's behaviour at that time and a full or a free pool.\<close>

fun serve_all :: "string \<Rightarrow> conf \<Rightarrow> (driver \<times> bool \<times> request) list \<Rightarrow> node \<Rightarrow> node" where
  "serve_all host c [] row = row"
| "serve_all host c ((d, free, q) # qs) row =
     (case serve host d c free q row of (_, row1, _) \<Rightarrow> serve_all host c qs row1)"

end
