(* ===== verification/Ironic_Provisioning.thy ===== *)
theory Ironic_Provisioning
  imports Ironic_Conductor
begin

text \<open>
  What the conductor promises about the provisioning state of a node: a calculus of assertions that
  operations keep, the contract of the drivers (interpreted on the fake driver of
  \<open>ironic/drivers/modules/fake.py\<close>), the invariant of every request, and what the hooks restore.
\<close>

section \<open>Assertions that operations keep\<close>

named_theorems keeps_intros \<open>operations keep an assertion\<close>

definition keeps :: "(task \<Rightarrow> bool) \<Rightarrow> 'a act \<Rightarrow> bool" where
  "keeps P m \<longleftrightarrow> (\<forall>t. P t \<longrightarrow> P (snd (m t)))"

lemma keepsI: "(\<And>t. P t \<Longrightarrow> P (snd (m t))) \<Longrightarrow> keeps P m"
  by (simp add: keeps_def)

lemma keepsD: "keeps P m \<Longrightarrow> P t \<Longrightarrow> P (snd (m t))"
  by (simp add: keeps_def)

lemma keeps_ret [keeps_intros]: "keeps P (ret x)"
  by (simp add: keeps_def ret_def)

lemma keeps_raising [keeps_intros]: "keeps P (raising e)"
  by (simp add: keeps_def raising_def)

lemma keeps_bnd [keeps_intros]: "keeps P m \<Longrightarrow> (\<And>x. keeps P (k x)) \<Longrightarrow> keeps P (bnd m k)"
  unfolding keeps_def bnd_def by (fastforce split: prod.splits sum.splits)

lemma keeps_and_then [keeps_intros]: "keeps P m \<Longrightarrow> keeps P n \<Longrightarrow> keeps P (and_then m n)"
  unfolding and_then_def by (rule keeps_bnd)

lemma keeps_attempt [keeps_intros]: "keeps P m \<Longrightarrow> keeps P (attempt m)"
  by (auto simp: keeps_def attempt_def case_prod_beta)

lemma keeps_with_node [keeps_intros]: "(\<And>n. keeps P (k n)) \<Longrightarrow> keeps P (with_node k)"
  by (simp add: keeps_def with_node_def)

lemma keeps_if [keeps_intros]:
  "(b \<Longrightarrow> keeps P m) \<Longrightarrow> (\<not> b \<Longrightarrow> keeps P n) \<Longrightarrow> keeps P (if b then m else n)"
  by simp

lemma keeps_case_sum [keeps_intros]:
  "(\<And>e. keeps P (f e)) \<Longrightarrow> (\<And>x. keeps P (g x)) \<Longrightarrow> keeps P (case r of Inl e \<Rightarrow> f e | Inr x \<Rightarrow> g x)"
  by (cases r) simp_all

lemma keeps_case_option [keeps_intros]:
  "keeps P m \<Longrightarrow> (\<And>x. keeps P (g x)) \<Longrightarrow> keeps P (case r of None \<Rightarrow> m | Some x \<Rightarrow> g x)"
  by (cases r) simp_all

lemma keeps_case_bool [keeps_intros]:
  "keeps P m \<Longrightarrow> keeps P n \<Longrightarrow> keeps P (case b of True \<Rightarrow> m | False \<Rightarrow> n)"
  by (cases b) simp_all

lemma keeps_case_prod [keeps_intros]: "(\<And>x y. keeps P (f x y)) \<Longrightarrow> keeps P (case p of (x, y) \<Rightarrow> f x y)"
  by (cases p) simp

lemma keeps_Let [keeps_intros]: "(\<And>x. keeps P (f x)) \<Longrightarrow> keeps P (Let a f)"
  by (simp add: Let_def)

lemma keeps_requested [keeps_intros]: "keeps P m \<Longrightarrow> keeps P (requested m)"
  unfolding requested_def by (intro keeps_intros)

lemma keeps_checked [keeps_intros]: "keeps P m \<Longrightarrow> keeps P (checked e m)"
  unfolding checked_def by (intro keeps_intros)

section \<open>The contract of drivers\<close>

text \<open>The provisioning state and its target are the conductor's: the methods of a driver leave them.\<close>

definition same_provisioning :: "node \<Rightarrow> node \<Rightarrow> bool" where
  "same_provisioning n n1 \<longleftrightarrow>
     nd_provision_state n1 = nd_provision_state n \<and> nd_target_provision_state n1 = nd_target_provision_state n"

definition leaves_op :: "'a driver_op \<Rightarrow> bool" where
  "leaves_op f \<longleftrightarrow>
     (\<forall>n row. case f (n, row) of (r, (n1, row1)) \<Rightarrow>
        same_provisioning n n1 \<and> (same_provisioning row row1 \<or> same_provisioning n row1))"

definition leaves_provisioning :: "driver \<Rightarrow> bool" where
  "leaves_provisioning d \<longleftrightarrow>
     (\<forall>p. leaves_op (dv_set_power_state d p)) \<and> leaves_op (dv_reboot d) \<and> leaves_op (dv_prepare d) \<and>
     leaves_op (dv_deploy d) \<and> leaves_op (dv_clean_up d) \<and> leaves_op (dv_tear_down d) \<and>
     leaves_op (dv_prepare_cleaning d) \<and> leaves_op (dv_tear_down_cleaning d) \<and>
     (\<forall>i s. leaves_op (dv_execute_clean_step d i s)) \<and> pred_option leaves_op (dv_inspect d)"

section \<open>The fake driver\<close>

definition fake_set_power_state :: "pstate \<Rightarrow> unit driver_op" where
  "fake_set_power_state p = (\<lambda>(n, row).
     if p \<noteq> PowerOn \<and> p \<noteq> PowerOff then (Inl InvalidParameterValue, (n, row))
     else (Inr (), (n\<lparr>nd_power_state := Some p\<rparr>, row)))"

definition returning :: "'a \<Rightarrow> 'a driver_op" where
  "returning x = (\<lambda>s. (Inr x, s))"

definition fake_driver :: driver where
  "fake_driver = \<lparr>
     dv_power_validate = (\<lambda>n. Inr ()),
     dv_get_power_state = (\<lambda>n. Inr (nd_power_state n)),
     dv_set_power_state = fake_set_power_state,
     dv_reboot = returning (),
     dv_deploy_validate = (\<lambda>n. Inr ()),
     dv_prepare = returning (),
     dv_deploy = returning (Some DEPLOYDONE),
     dv_clean_up = returning (),
     dv_tear_down = returning (Some DELETED),
     dv_prepare_cleaning = returning None,
     dv_tear_down_cleaning = returning (),
     dv_interfaces = [IfPower, IfManagement, IfDeploy, IfRaid],
     dv_get_clean_steps = (\<lambda>i n. Inr []),
     dv_execute_clean_step = (\<lambda>i s. (\<lambda>p. (Inl PyAttributeErr, p))),
     dv_inspect_validate = (\<lambda>n. Inr ()),
     dv_inspect = Some (returning (Some MANAGEABLE))\<rparr>"

lemma leaves_returning: "leaves_op (returning x)"
  by (simp add: leaves_op_def returning_def same_provisioning_def)

lemma fake_leaves_provisioning: "leaves_provisioning fake_driver"
  by (simp add: leaves_provisioning_def fake_driver_def leaves_returning)
    (simp add: leaves_op_def fake_set_power_state_def same_provisioning_def)

section \<open>Nodes and tasks in order\<close>

text \<open>
  A node in a state that waits for a request has no target, a node on its way has a stable target.
  The state that has not been set stands for \<open>available\<close>.
\<close>

definition provisioning_ok :: "prov_state option \<Rightarrow> prov_state option \<Rightarrow> bool" where
  "provisioning_ok s target =
     (case s of
        None \<Rightarrow> target = None
      | Some s \<Rightarrow> s \<in> fst ` set (fm_states machine) \<and>
          (case target of
             None \<Rightarrow> stable_in machine s
           | Some g \<Rightarrow> \<not> stable_in machine s \<and> stable_in machine g))"

definition node_ok :: "node \<Rightarrow> bool" where
  "node_ok n \<longleftrightarrow> provisioning_ok (nd_provision_state n) (nd_target_provision_state n)"

definition hook_ok :: "spawn_hook option \<Rightarrow> bool" where
  "hook_ok h = (case h of Some (H_provisioning s target) \<Rightarrow> provisioning_ok s target | _ \<Rightarrow> True)"

definition task_ok :: "task \<Rightarrow> bool" where
  "task_ok t \<longleftrightarrow>
     (\<exists>s. nd_provision_state (t_node t) = Some s \<and> copy_at (t_fsm t) s) \<and>
     fsm_ok (t_fsm t) \<and> node_ok (t_node t) \<and> node_ok (t_row t) \<and> hook_ok (t_hook t)"

lemma node_ok_same: "same_provisioning n n1 \<Longrightarrow> node_ok n \<Longrightarrow> node_ok n1"
  by (simp add: node_ok_def same_provisioning_def)

lemma keeps_assign: "(\<And>n. same_provisioning n (f n)) \<Longrightarrow> keeps task_ok (assign f)"
proof (rule keepsI)
  fix t assume same: "\<And>n. same_provisioning n (f n)" and "task_ok t"
  moreover have "node_ok (t_node t) \<Longrightarrow> node_ok (f (t_node t))" by (rule node_ok_same[OF same])
  moreover have "nd_provision_state (f (t_node t)) = nd_provision_state (t_node t)"
    using same[of "t_node t"] by (simp add: same_provisioning_def)
  ultimately show "task_ok (snd (assign f t))" by (simp add: assign_def task_ok_def)
qed

lemma keeps_save [keeps_intros]: "keeps task_ok save"
  by (auto simp: keeps_def save_def task_ok_def)

lemma keeps_asks [keeps_intros]: "keeps task_ok (asks c f)"
  by (auto simp: keeps_def asks_def task_ok_def)

lemma keeps_drives: "leaves_op f \<Longrightarrow> keeps task_ok (drives c f)"
proof (rule keepsI)
  fix t assume f: "leaves_op f" and ok: "task_ok t"
  obtain r n1 row1 where eq: "f (t_node t, t_row t) = (r, (n1, row1))" by (metis prod.collapse)
  with f have s: "same_provisioning (t_node t) n1"
    "same_provisioning (t_row t) row1 \<or> same_provisioning (t_node t) row1"
    unfolding leaves_op_def by (metis (mono_tags, lifting) case_prod_conv)+
  then have "node_ok n1" "node_ok row1" using ok node_ok_same by (auto simp: task_ok_def)
  moreover have "nd_provision_state n1 = nd_provision_state (t_node t)"
    using s(1) by (simp add: same_provisioning_def)
  ultimately show "task_ok (snd (drives c f t))" using ok by (simp add: drives_def eq task_ok_def)
qed

section \<open>Events\<close>

lemma machine_unstable_target: "\<not> stable_in machine s \<Longrightarrow> s \<in> fst ` set (fm_states machine) \<Longrightarrow> default_target machine s \<noteq> None"
proof -
  have "list_all (\<lambda>s. stable_in machine s \<or> s \<notin> fst ` set (fm_states machine) \<or> default_target machine s \<noteq> None)
     (enum_class.enum :: prov_state list)" by code_simp
  then show "\<not> stable_in machine s \<Longrightarrow> s \<in> fst ` set (fm_states machine) \<Longrightarrow> default_target machine s \<noteq> None"
    unfolding list_all_iff enum_UNIV by blast
qed

lemma copy_at_stable: "copy_at m s \<Longrightarrow> stable_in m = stable_in machine"
  by (rule stable_in_cong) (simp add: copy_at_def)

lemma process_event_cases:
  assumes m: "copy_at m s" "fsm_ok m" and target: "pred_option (stable_in machine) target"
  obtains "next_state s e = None" "fsm_process_event e target m = (Inl InvalidState, m)"
  | s1 m1 where "next_state s e = Some s1" "fsm_process_event e target m = (Inr (), m1)"
      "copy_at m1 s1" "fsm_ok m1" "s1 \<in> fst ` set (fm_states machine)"
      "stable_in machine s1 \<or> fm_target_state m1 \<noteq> None" "pred_option (stable_in machine) (fm_target_state m1)"
proof (cases "next_state s e")
  case None
  have "translated (pre_process_event e m) = Inl InvalidState"
    using process_event_copy[OF m(1), of e] None
    by (auto simp: fsm_process_event_def Let_def split: sum.splits)
  then show thesis using that(1)[OF None] by (simp add: fsm_process_event_def)
next
  case (Some s1)
  define m0 where "m0 = post_process_event s1 (m\<lparr>fm_current := Some s1\<rparr>)"
  have pre: "translated (pre_process_event e m) = Inr s1"
    using process_event_copy[OF m(1), of e] Some copy_at_def post_process_copy[OF m(1)]
    by (auto simp: fsm_process_event_def Let_def copy_at_def split: sum.splits) (metis option.inject)
  have m0: "copy_at m0 s1" unfolding m0_def by (rule post_process_copy[OF m(1)])
  have ok: "fsm_ok (snd (fsm_process_event e target m))" by (rule fsm_ok_process_event[OF m(2)])
  define m1 where "m1 = (case target of None \<Rightarrow> m0 | Some t \<Rightarrow> m0\<lparr>fm_target_state := Some t\<rparr>)"
  have valid: "validate_target_state m0 target = Inr ()"
    using target copy_at_stable[OF m0]
    by (auto simp: validate_target_state_def is_stable_def stable_in_def fun_eq_iff split: option.splits) (metis option.case)+
  then have step: "fsm_process_event e target m = (Inr (), m1)"
    by (cases target) (simp_all add: fsm_process_event_def pre Let_def m0_def[symmetric] m1_def)
  have m1: "copy_at m1 s1" using m0 by (simp add: m1_def copy_at_def split: option.splits)
  have ok1: "fsm_ok m1" using ok step by simp
  have s1: "s1 \<in> fst ` set (fm_states machine)"
    using ok1 m1 by (simp add: fsm_ok_def copy_at_def)
  have "stable_in machine s1 \<or> fm_target_state m1 \<noteq> None"
  proof (cases "stable_in machine s1")
    case False
    then obtain g where "default_target machine s1 = Some g" using machine_unstable_target[OF _ s1] by blast
    then show ?thesis using m(1)
      by (auto simp: m1_def m0_def post_process_event_def Let_def default_target_def copy_at_def split: option.splits)
  qed simp
  moreover have "pred_option (stable_in machine) (fm_target_state m1)"
    using ok1 copy_at_stable[OF m1] by (simp add: fsm_ok_def)
  ultimately show thesis using that(2)[OF Some step m1 ok1 s1] by blast
qed

text \<open>The events that a handler sends with work to do lead to a state that does not rest.\<close>

definition lands_unstable :: "prov_state \<Rightarrow> string \<Rightarrow> bool" where
  "lands_unstable s e \<longleftrightarrow> (\<forall>s1. next_state s e = Some s1 \<longrightarrow> \<not> stable_in machine s1)"

definition working_events :: "string list" where
  "working_events = [''deploy'', ''rebuild'', ''delete'', ''provide'', ''clean'', ''abort'', ''inspect'']"

lemma working_lands_unstable: "e \<in> set working_events \<Longrightarrow> lands_unstable s e"
proof -
  have "list_all (\<lambda>s. list_all (\<lambda>e. case next_state s e of None \<Rightarrow> True | Some s1 \<Rightarrow> \<not> stable_in machine s1) working_events)
     (enum_class.enum :: prov_state list)" by code_simp
  then have "\<forall>s. \<forall>e \<in> set working_events. case next_state s e of None \<Rightarrow> True | Some s1 \<Rightarrow> \<not> stable_in machine s1"
    unfolding list_all_iff enum_UNIV by blast
  then show "e \<in> set working_events \<Longrightarrow> lands_unstable s e"
    unfolding lands_unstable_def by (metis option.case(2))
qed

lemma stable_now_iff:
  "copy_at (t_fsm t) s \<Longrightarrow> nd_provision_state (t_node t) = Some x \<Longrightarrow> x \<in> fst ` set (fm_states machine) \<Longrightarrow>
   stable_now t = stable_in machine x"
  by (auto simp: stable_now_def stable_in_def is_stable_def copy_at_def split: option.splits)

lemma process_event_task_ok:
  assumes t: "task_ok t" and s: "nd_provision_state (t_node t) = Some s"
    and target: "pred_option (stable_in machine) target"
    and cb: "callback \<noteq> None \<Longrightarrow> lands_unstable s e"
  shows "task_ok (snd (process_event e callback hook target t))"
    and "fst (process_event e callback hook target t) = Inr () \<Longrightarrow>
      \<exists>s1. next_state s e = Some s1 \<and>
        nd_provision_state (t_node (snd (process_event e callback hook target t))) = Some s1 \<and>
        (callback \<noteq> None \<longrightarrow> t_spawn (snd (process_event e callback hook target t)) = callback) \<and>
        (callback = None \<longrightarrow> t_spawn (snd (process_event e callback hook target t)) = t_spawn t)"
proof -
  have m: "copy_at (t_fsm t) s" "fsm_ok (t_fsm t)" using t s by (auto simp: task_ok_def)
  have both: "task_ok (snd (process_event e callback hook target t)) \<and>
    (fst (process_event e callback hook target t) = Inr () \<longrightarrow> (\<exists>s1. next_state s e = Some s1 \<and>
        nd_provision_state (t_node (snd (process_event e callback hook target t))) = Some s1 \<and>
        (callback \<noteq> None \<longrightarrow> t_spawn (snd (process_event e callback hook target t)) = callback) \<and>
        (callback = None \<longrightarrow> t_spawn (snd (process_event e callback hook target t)) = t_spawn t)))"
    using m target
  proof (cases rule: process_event_cases[where e = e])
    case 1
    then have "process_event e callback hook target t = (Inl InvalidState, t\<lparr>t_fsm := t_fsm t\<rparr>)"
      by (simp add: process_event_def and_then_def bnd_def fsm_event_def)
    then show ?thesis using t by simp
  next
    case (2 s1 m1)
    define t1 where "t1 = t\<lparr>t_fsm := m1\<rparr>"
    define t2 where "t2 = enter_state callback hook t1"
    have pe: "process_event e callback hook target t = (Inr (), t2\<lparr>t_row := t_node t2\<rparr>)"
      by (simp add: process_event_def and_then_def bnd_def fsm_event_def 2 set_task_def save_def t2_def t1_def)
    have cur: "fm_current m1 = Some s1" using 2 by (simp add: copy_at_def)
    have st: "stable_now (t1\<lparr>t_hook := h, t_node := (t_node t1)\<lparr>nd_provision_state := Some s1\<rparr>\<rparr>) = stable_in machine s1" for h
      by (rule stable_now_iff) (use 2 in \<open>simp_all add: t1_def\<close>)
    have st': "stable_now (t1\<lparr>t_node := (t_node t1)\<lparr>nd_provision_state := Some s1\<rparr>\<rparr>) = stable_in machine s1"
      by (rule stable_now_iff) (use 2 in \<open>simp_all add: t1_def\<close>)
    have un: "callback \<noteq> None \<Longrightarrow> \<not> stable_in machine s1" using cb 2 by (simp add: lands_unstable_def)
    have tgt: "nd_target_provision_state (t_node t2) =
        (if callback = None \<and> stable_in machine s1 then None else fm_target_state m1)"
      by (auto simp: t2_def enter_state_def Let_def cur t1_def st[unfolded t1_def, simplified]
          st'[unfolded t1_def, simplified] split: option.splits)
    have prov: "nd_provision_state (t_node t2) = Some s1" "t_fsm t2 = m1"
      by (auto simp: t2_def enter_state_def Let_def cur t1_def split: option.splits)
    have hook: "hook_ok (t_hook t2)"
      using t by (auto simp: t2_def enter_state_def Let_def t1_def task_ok_def hook_ok_def node_ok_def split: option.splits)
    have "node_ok (t_node t2)"
      unfolding node_ok_def provisioning_ok_def tgt prov using un 2
      by (cases callback) (auto split: option.splits)
    then have ok: "task_ok (t2\<lparr>t_row := t_node t2\<rparr>)" using prov hook 2 by (simp add: task_ok_def)
    have "callback \<noteq> None \<Longrightarrow> t_spawn t2 = callback" "callback = None \<Longrightarrow> t_spawn t2 = t_spawn t"
      by (auto simp: t2_def enter_state_def Let_def t1_def)
    with ok prov 2 show ?thesis unfolding pe by simp
  qed
  then show "task_ok (snd (process_event e callback hook target t))"
    and "fst (process_event e callback hook target t) = Inr () \<Longrightarrow>
      \<exists>s1. next_state s e = Some s1 \<and>
        nd_provision_state (t_node (snd (process_event e callback hook target t))) = Some s1 \<and>
        (callback \<noteq> None \<longrightarrow> t_spawn (snd (process_event e callback hook target t)) = callback) \<and>
        (callback = None \<longrightarrow> t_spawn (snd (process_event e callback hook target t)) = t_spawn t)"
    by blast+
qed

lemma keeps_process_event:
  "pred_option (stable_in machine) target \<Longrightarrow> callback = None \<or> e \<in> set working_events \<Longrightarrow>
   keeps task_ok (process_event e callback hook target)"
  by (rule keepsI) (metis process_event_task_ok(1) task_ok_def working_lands_unstable)

lemma stable_MANAGEABLE: "stable_in machine MANAGEABLE"
  by code_simp

lemma keeps_clean_event [keeps_intros]:
  "callback = None \<or> e \<in> set working_events \<Longrightarrow> keeps task_ok (process_event e callback hook (clean_target b))"
  by (rule keeps_process_event) (simp_all add: clean_target_def stable_MANAGEABLE)

lemma keeps_default_event [keeps_intros]:
  "callback = None \<or> e \<in> set working_events \<Longrightarrow> keeps task_ok (process_event e callback hook None)"
  by (rule keeps_process_event) simp_all

lemma keeps_manual_event [keeps_intros]:
  "callback = None \<or> e \<in> set working_events \<Longrightarrow> keeps task_ok (process_event e callback hook (Some MANAGEABLE))"
  by (rule keeps_process_event) (simp_all add: stable_MANAGEABLE)

lemma keeps_move [keeps_intros]: "keeps task_ok (move e)"
  unfolding move_def by (rule keeps_default_event) simp

lemma keeps_spawn_after [keeps_intros]: "keeps task_ok (spawn_after w)"
  by (auto simp: keeps_def spawn_after_def set_task_def task_ok_def)

lemma keeps_error_hook: "hook_ok (Some h) \<Longrightarrow> keeps task_ok (set_spawn_error_hook h)"
  by (auto simp: keeps_def set_spawn_error_hook_def set_task_def task_ok_def)

text \<open>Assignments to the other fields of a node.\<close>

lemma keeps_assign_fields [keeps_intros]:
  "keeps task_ok (assign (nd_power_state_update f1))"
  "keeps task_ok (assign (nd_target_power_state_update f2))"
  "keeps task_ok (assign (nd_last_error_update f3))"
  "keeps task_ok (assign (nd_clean_step_update f4))"
  by (rule keeps_assign; simp add: same_provisioning_def)+

lemma keeps_power_validate [keeps_intros]: "keeps task_ok (power_validate d)"
  unfolding power_validate_def by (intro keeps_intros)

locale provisioning_driver =
  fixes d :: driver
  assumes leaves: "leaves_provisioning d"
begin

lemma ops [keeps_intros]:
  "keeps task_ok (drives c (dv_set_power_state d p))" "keeps task_ok (drives c (dv_reboot d))"
  "keeps task_ok (drives c (dv_prepare d))" "keeps task_ok (drives c (dv_deploy d))"
  "keeps task_ok (drives c (dv_clean_up d))" "keeps task_ok (drives c (dv_tear_down d))"
  "keeps task_ok (drives c (dv_prepare_cleaning d))" "keeps task_ok (drives c (dv_tear_down_cleaning d))"
  "keeps task_ok (drives c (dv_execute_clean_step d i s))"
  by (rule keeps_drives; use leaves in \<open>simp add: leaves_provisioning_def\<close>)+

lemma cleaning_error_handler [keeps_intros]: "keeps task_ok (cleaning_error_handler d msg b1 b2)"
  unfolding cleaning_error_handler_def tear_down_cleaning_def
  by (intro keeps_intros keeps_assign) (simp_all add: clear_failed_step_def same_provisioning_def Let_def)

lemma get_cleaning_steps [keeps_intros]: "keeps task_ok (get_cleaning_steps d c b1 b2)"
proof -
  have "keeps task_ok (collect_steps d b1 is)" for "is"
    by (induction "is") (auto intro!: keeps_intros)
  then show ?thesis unfolding get_cleaning_steps_def by (intro keeps_intros)
qed

lemma set_node_cleaning_steps [keeps_intros]: "keeps task_ok (set_node_cleaning_steps d c)"
  unfolding set_node_cleaning_steps_def validate_user_clean_steps_def Let_def
  by (intro keeps_intros keeps_assign) (simp_all add: same_provisioning_def)

lemma run_step [keeps_intros]: "keeps task_ok (run_step d s)"
  unfolding run_step_def by (intro keeps_intros)

lemma run_steps [keeps_intros]: "keeps task_ok (run_steps d info manual i ss)"
proof (induction ss arbitrary: i)
  case (Cons s ss)
  show ?case unfolding run_steps.simps
    by (intro keeps_intros keeps_assign Cons.IH) (auto simp: start_step_def same_provisioning_def)
qed (simp add: keeps_ret)

lemma do_next_clean_step [keeps_intros]: "keeps task_ok (do_next_clean_step d idx)"
  unfolding do_next_clean_step_def finish_cleaning_def tear_down_cleaning_def Let_def
  by (intro keeps_intros keeps_assign) (simp_all add: same_provisioning_def)

lemma do_node_clean [keeps_intros]: "keeps task_ok (do_node_clean d c steps)"
  unfolding do_node_clean_def prepare_and_clean_def
  by (intro keeps_intros keeps_assign) (simp_all add: same_provisioning_def)

lemma power_actions [keeps_intros]: "keeps task_ok (node_power_action d p)" "keeps task_ok (rpc_change_power d p)"
proof -
  have take: "keeps task_ok (take_power_action d p)"
    unfolding take_power_action_def
    by (intro keeps_intros keeps_assign) (simp_all add: same_provisioning_def split: sum.splits)
  show "keeps task_ok (node_power_action d p)"
    unfolding node_power_action_def
    by (intro keeps_intros keeps_assign take) (simp_all add: same_provisioning_def)
  show "keeps task_ok (rpc_change_power d p)"
    unfolding rpc_change_power_def
    by (intro keeps_intros keeps_assign keeps_error_hook) (simp_all add: same_provisioning_def hook_ok_def)
qed

lemma do_node_deploy [keeps_intros]: "keeps task_ok (do_node_deploy d c drive)"
proof -
  have "keeps task_ok m \<Longrightarrow> keeps task_ok (or_fail m p msg)" for m :: "'a act" and p msg
    unfolding or_fail_def deploy_failure_def
    by (intro keeps_intros keeps_assign) (simp_all add: same_provisioning_def)
  note or_fail = this
  have "keeps task_ok (store_configdrive c x)" for x
    unfolding store_configdrive_def
    by (intro keeps_intros keeps_assign) (simp_all add: same_provisioning_def)
  then show ?thesis
    unfolding do_node_deploy_def finally_save_def
    by (intro keeps_intros or_fail keeps_assign) (simp_all add: same_provisioning_def)
qed

lemma rpc_node_deploy [keeps_intros]: "keeps task_ok (rpc_node_deploy d c rebuild drive)"
  unfolding rpc_node_deploy_def
  by (intro keeps_intros keeps_assign)
    (simp_all add: same_provisioning_def clear_images_def working_events_def)

lemma tear_down [keeps_intros]: "keeps task_ok (rpc_node_tear_down d)" "keeps task_ok (do_node_tear_down d c)"
  unfolding rpc_node_tear_down_def do_node_tear_down_def
  by (intro keeps_intros keeps_assign;
      simp add: same_provisioning_def forget_instance_def working_events_def)+

lemma cleaning_requests [keeps_intros]:
  "keeps task_ok (rpc_node_clean d steps)" "keeps task_ok (rpc_continue_clean d)"
proof -
  show "keeps task_ok (rpc_node_clean d steps)"
    unfolding rpc_node_clean_def by (intro keeps_intros) (simp_all add: working_events_def)
  have "keeps task_ok pop_skip_current"
    unfolding pop_skip_current_def
    by (intro keeps_intros keeps_assign) (simp_all add: same_provisioning_def)
  moreover have "keeps task_ok (next_index b info ind)" for b info ind
    unfolding next_index_def Let_def by (intro keeps_intros)
  then have "keeps task_ok (get_next_clean_steps d b)" for b
    unfolding get_next_clean_steps_def Let_def by (intro keeps_intros)
  ultimately show "keeps task_ok (rpc_continue_clean d)"
    unfolding rpc_continue_clean_def Let_def
    by (intro keeps_intros keeps_error_hook) (simp_all add: working_events_def hook_ok_def)
qed

lemma other_workers [keeps_intros]:
  "keeps task_ok (do_node_clean_abort d name)" "keeps task_ok (cleanup_after_timeout d)"
  "keeps task_ok (do_inspect_hardware d)" "keeps task_ok (rpc_inspect_hardware d)"
proof -
  show "keeps task_ok (do_node_clean_abort d name)" "keeps task_ok (cleanup_after_timeout d)"
    unfolding do_node_clean_abort_def tear_down_cleaning_def cleanup_after_timeout_def
    by (intro keeps_intros keeps_assign; simp add: same_provisioning_def)+
  show "keeps task_ok (rpc_inspect_hardware d)"
    unfolding rpc_inspect_hardware_def by (intro keeps_intros) (simp_all add: working_events_def)
  have "leaves_op f" if "dv_inspect d = Some f" for f
    using leaves that by (simp add: leaves_provisioning_def)
  then show "keeps task_ok (do_inspect_hardware d)"
    unfolding do_inspect_hardware_def inspect_failure_def
    by (cases "dv_inspect d") (simp_all, (intro keeps_intros keeps_assign keeps_drives; simp add: same_provisioning_def)+)
qed

end

text \<open>Verifying starts in the state \<open>verifying\<close>, from which a failure leads to one that rests.\<close>

definition in_state :: "prov_state \<Rightarrow> task \<Rightarrow> bool" where
  "in_state s t \<longleftrightarrow> task_ok t \<and> nd_provision_state (t_node t) = Some s"

lemma in_state_task_ok: "in_state s t \<Longrightarrow> task_ok t"
  by (simp add: in_state_def)

lemma keeps_in_state_asks [keeps_intros]: "keeps (in_state s) (asks c f)"
  by (auto simp: keeps_def asks_def in_state_def task_ok_def)

lemma keeps_in_state_assign:
  assumes "\<And>n. same_provisioning n (f n)"
  shows "keeps (in_state s) (assign f)"
proof (rule keepsI)
  fix t assume t: "in_state s t"
  have "task_ok (snd (assign f t))"
    by (rule keepsD[OF keeps_assign[OF assms] in_state_task_ok[OF t]])
  then show "in_state s (snd (assign f t))"
    using t assms[of "t_node t"] by (simp add: in_state_def assign_def same_provisioning_def)
qed

lemma snd_and_then: "snd (and_then m k t) = (case fst (m t) of Inl e \<Rightarrow> snd (m t) | Inr x \<Rightarrow> snd (k (snd (m t))))"
  by (simp add: and_then_def bnd_def case_prod_beta split: sum.splits prod.splits)

lemma assign_then: "and_then (assign f) k t = k (snd (assign f t))"
  by (simp add: and_then_def bnd_def assign_def)

lemma rest_no_target: "in_state s t \<Longrightarrow> stable_in machine s \<Longrightarrow> nd_target_provision_state (t_node t) = None"
  by (auto simp: in_state_def task_ok_def node_ok_def provisioning_ok_def split: option.splits)

lemma verify_failure:
  assumes "in_state VERIFYING t"
  shows "task_ok (snd (and_then (move ''fail'')
      (and_then (assign (\<lambda>n. n\<lparr>nd_target_provision_state := None\<rparr>)) save) t))"
proof (cases "fst (move ''fail'' t)")
  case (Inl e)
  then show ?thesis
    using keepsD[OF keeps_move in_state_task_ok[OF assms]] by (simp add: snd_and_then)
next
  case (Inr u)
  define t1 where "t1 = snd (move ''fail'' t)"
  have prov: "nd_provision_state (t_node t) = Some VERIFYING" using assms by (simp add: in_state_def)
  have t1: "task_ok t1"
    unfolding t1_def by (rule keepsD[OF keeps_move in_state_task_ok[OF assms]])
  obtain s1 where s1: "next_state VERIFYING ''fail'' = Some s1" "nd_provision_state (t_node t1) = Some s1"
    using process_event_task_ok(2)[OF in_state_task_ok[OF assms] prov, where e = "''fail''" and callback = None and hook = False and target = None]
      Inr by (auto simp: move_def t1_def)
  have "next_state VERIFYING ''fail'' = Some ENROLL" "stable_in machine ENROLL" by code_simp+
  then have "in_state ENROLL t1" "stable_in machine ENROLL" using s1 t1 by (simp_all add: in_state_def)
  then have "nd_target_provision_state (t_node t1) = None" by (rule rest_no_target)
  then have same: "(t_node t1)\<lparr>nd_target_provision_state := None\<rparr> = t_node t1" by (cases "t_node t1") simp
  have "task_ok (t1\<lparr>t_row := t_node t1\<rparr>)" using t1 by (auto simp: task_ok_def)
  then show ?thesis
    using Inr same by (simp add: snd_and_then t1_def[symmetric] assign_def save_def)
qed

lemma do_node_verify_ok:
  assumes "in_state VERIFYING t"
  shows "task_ok (snd (do_node_verify d t))"
proof -
  define ask where "ask = (\<lambda>r. case r of
            Inl e \<Rightarrow> ret (Inl (VerifyFailed e))
          | Inr (u :: unit) \<Rightarrow> bnd (attempt (asks C_get_power_state (dv_get_power_state d))) (\<lambda>q. case q of
                Inl e \<Rightarrow> ret (Inl (VerifyPowerFailed e)) | Inr p \<Rightarrow> ret (Inr p)))"
  define m where "m = bnd (attempt (power_validate d)) ask"
  have "keeps (in_state VERIFYING) m"
    unfolding m_def ask_def power_validate_def by (intro keeps_intros)
  then have t1: "in_state VERIFYING (snd (m t))" using assms by (rule keepsD)
  have assoc: "bnd (bnd a k) h = bnd a (\<lambda>x. bnd (k x) h)" for a :: "'a act" and k :: "'a \<Rightarrow> 'b act" and h :: "'b \<Rightarrow> 'c act"
    by (simp add: bnd_def fun_eq_iff split: prod.splits sum.splits)
  have "task_ok (snd ((case q of
         Inr p \<Rightarrow> and_then (assign (\<lambda>n. n\<lparr>nd_power_state := p\<rparr>)) (move ''done'')
       | Inl msg \<Rightarrow>
           and_then (assign (\<lambda>n. n\<lparr>nd_last_error := Some msg\<rparr>)) (
           and_then (move ''fail'') (
           and_then (assign (\<lambda>n. n\<lparr>nd_target_provision_state := None\<rparr>)) save))) t2))"
    if t2: "in_state VERIFYING t2" for q t2
  proof (cases q)
    case (Inr p)
    then show ?thesis
      using keepsD[OF keeps_and_then[OF keeps_assign keeps_move] in_state_task_ok[OF t2]]
      by (simp add: same_provisioning_def)
  next
    case (Inl msg)
    have "in_state VERIFYING (snd (assign (\<lambda>n. n\<lparr>nd_last_error := Some msg\<rparr>) t2))"
      by (rule keepsD[OF keeps_in_state_assign t2]) (simp add: same_provisioning_def)
    from verify_failure[OF this] show ?thesis
      using Inl by (simp add: assign_then)
  qed
  note rest = this
  show ?thesis
    unfolding do_node_verify_def ask_def[symmetric] assoc[symmetric] m_def[symmetric]
    unfolding bnd_def[of m] case_prod_beta
    using rest[OF t1] in_state_task_ok[OF t1] by (simp split: sum.splits)
qed

section \<open>The life of a request\<close>

lemma next_ENROLL: "next_state ENROLL ''manage'' = Some VERIFYING" "\<not> stable_in machine VERIFYING"
  by code_simp+

lemma manage_lands: "lands_unstable ENROLL ''manage''"
  unfolding lands_unstable_def next_ENROLL(1) using next_ENROLL(2) by simp

lemma fail_if_in_state_ok:
  assumes t: "task_ok t" and s: "callback \<noteq> None \<Longrightarrow> lands_unstable s ''fail''"
    and keep: "keep \<Longrightarrow> \<not> stable_in machine s"
  shows "task_ok (snd (fail_if_in_state s callback msg keep t))"
proof (cases "nd_maintenance (t_node t) \<or> nd_provision_state (t_node t) \<noteq> Some s")
  case True
  then show ?thesis using t by (auto simp: fail_if_in_state_def with_node_def ret_def)
next
  case False
  define tg where "tg = (if keep then nd_target_provision_state (t_node t) else None)"
  have tg: "pred_option (stable_in machine) tg"
    using t False by (auto simp: tg_def task_ok_def node_ok_def provisioning_ok_def split: option.splits)
  define f where "f = (\<lambda>n :: node. n\<lparr>nd_last_error := Some msg\<rparr>)"
  have t1: "task_ok (snd (assign f t))"
    by (rule keepsD[OF keeps_assign t]) (simp add: f_def same_provisioning_def)
  have s1: "nd_provision_state (t_node (snd (assign f t))) = Some s" using False by (simp add: assign_def f_def)
  show ?thesis
  proof (cases callback)
    case None
    then show ?thesis using False process_event_task_ok(1)[OF t1 s1 tg, of None "''fail''" False]
      by (simp add: fail_if_in_state_def with_node_def assign_then f_def[symmetric] tg_def[symmetric])
  next
    case (Some w)
    then show ?thesis using False process_event_task_ok(1)[OF t _ tg, of s "Some w"] s
      by (simp add: fail_if_in_state_def with_node_def tg_def[symmetric])
  qed
qed

lemma rpc_provisioning_action_ok:
  assumes t: "task_ok t"
  shows "task_ok (snd (rpc_provisioning_action a t))"
proof -
  have abort: "keeps task_ok (abort_clean_step n)" for n
    unfolding abort_clean_step_def Let_def
    by (intro keeps_intros keeps_assign) (simp_all add: same_provisioning_def working_events_def)
  have manage: "nd_provision_state (t_node t) = Some ENROLL \<Longrightarrow>
      task_ok (snd (process_event ''manage'' (Some W_verify) True None t))"
    by (rule process_event_task_ok(1)[OF t]) (simp, simp, rule manage_lands)
  show ?thesis
    using manage keepsD[OF abort t] keepsD[OF keeps_requested[OF keeps_move] t]
      keepsD[OF keeps_default_event t, of "Some (W_node_clean None)" "''provide''"]
    by (auto simp: rpc_provisioning_action_def with_node_def working_events_def)
qed

text \<open>The worker that verifies is spawned in the state \<open>verifying\<close> only.\<close>

definition no_verify :: "task \<Rightarrow> bool" where
  "no_verify t \<longleftrightarrow> t_spawn t \<noteq> Some W_verify"

lemma no_verify_intros:
  "keeps no_verify (assign f)" "keeps no_verify save" "keeps no_verify (asks c g)" "keeps no_verify (drives c h)"
  "callback \<noteq> Some W_verify \<Longrightarrow> keeps no_verify (process_event e callback hook target)"
  "keeps no_verify (move e)" "w \<noteq> W_verify \<Longrightarrow> keeps no_verify (spawn_after w)"
  "keeps no_verify (set_spawn_error_hook hk)"
proof -
  have "keeps no_verify (fsm_event e target)" "callback \<noteq> Some W_verify \<Longrightarrow> keeps no_verify (set_task (enter_state callback hook))"
    "keeps no_verify save" for e target callback hook
    by (auto simp: keeps_def fsm_event_def set_task_def enter_state_def no_verify_def save_def Let_def
        split: option.splits prod.splits)
  then show pe: "callback \<noteq> Some W_verify \<Longrightarrow> keeps no_verify (process_event e callback hook target)"
    for e callback hook target
    unfolding process_event_def by (intro keeps_and_then)
  show "keeps no_verify (move e)" unfolding move_def by (rule pe) simp
qed (auto simp: keeps_def assign_def save_def asks_def drives_def spawn_after_def set_spawn_error_hook_def
      set_task_def no_verify_def split: prod.splits)

lemma spawned_verify:
  assumes t: "task_ok t" and new: "t_spawn t = None"
    and spawned: "t_spawn (snd (handler d c q t)) = Some W_verify"
    and ended: "fst (handler d c q t) = Inr u"
  shows "in_state VERIFYING (snd (handler d c q t))"
proof -
  have nv: "no_verify t" using new by (simp add: no_verify_def)
  have clean: "keeps no_verify (rpc_continue_clean d)"
    unfolding rpc_continue_clean_def pop_skip_current_def get_next_clean_steps_def next_index_def
      cleaning_error_handler_def tear_down_cleaning_def Let_def
    by (intro keeps_intros no_verify_intros) simp_all
  have timeout: "keeps no_verify (fail_if_in_state s w msg k)" if "w \<noteq> Some W_verify" for s w msg k
  proof (cases w)
    case None
    show ?thesis unfolding fail_if_in_state_def Let_def None option.case
      by (intro keeps_intros no_verify_intros) simp_all
  next
    case (Some v)
    show ?thesis unfolding fail_if_in_state_def Let_def Some option.case
      by (intro keeps_intros no_verify_intros) (use that Some in simp_all)
  qed
  have rpcs: "keeps no_verify (rpc_node_deploy d c b x)" "keeps no_verify (rpc_node_tear_down d)"
    "keeps no_verify (rpc_node_clean d ss)" "keeps no_verify (rpc_inspect_hardware d)" "keeps no_verify (rpc_change_power d p)"
    for b x ss p
    unfolding rpc_node_deploy_def rpc_node_tear_down_def rpc_node_clean_def rpc_inspect_hardware_def
      rpc_change_power_def power_validate_def
    by (intro keeps_intros no_verify_intros; simp)+
  have other: "keeps no_verify (handler d c q)" if "\<And>a. q \<noteq> Q_action a"
    using that by (cases q) (simp_all add: handler_defs clean timeout rpcs, blast)
  obtain a where q: "q = Q_action a"
    using keepsD[OF other nv] spawned by (auto simp: no_verify_def)
  define n where "n = t_node t"
  have abort: "keeps no_verify (abort_clean_step n)"
    unfolding abort_clean_step_def Let_def by (intro keeps_intros no_verify_intros) simp_all
  have manage: "a = ''manage'' \<and> nd_provision_state n = Some ENROLL \<and>
      \<not> (a = ''provide'' \<and> nd_provision_state n = Some MANAGEABLE)"
  proof (rule ccontr)
    assume no: "\<not> ?thesis"
    have "no_verify (snd (handler d c q t))"
      using no keepsD[OF abort nv] keepsD[OF keeps_requested[OF no_verify_intros(6)] nv, of a]
        keepsD[OF no_verify_intros(5) nv, of "Some (W_node_clean None)" "''provide''"]
      by (auto simp: q handler_def rpc_provisioning_action_def with_node_def n_def)
    then show False using spawned by (simp add: no_verify_def)
  qed
  then have h: "handler d c q t = process_event ''manage'' (Some W_verify) True None t"
    by (simp add: q handler_def rpc_provisioning_action_def with_node_def n_def)
  have s: "nd_provision_state (t_node t) = Some ENROLL" using manage by (simp add: n_def)
  have "pred_option (stable_in machine) None" by simp
  note pe = process_event_task_ok[OF t s this, of "Some W_verify" "''manage''" True]
  have "task_ok (snd (handler d c q t))" unfolding h by (rule pe(1)) (rule manage_lands)
  moreover have "nd_provision_state (t_node (snd (handler d c q t))) = Some VERIFYING"
    using pe(2)[OF manage_lands] ended next_ENROLL(1) by (auto simp: h)
  ultimately show ?thesis by (simp add: in_state_def)
qed

lemma acquire_ok:
  assumes "node_ok row" and "acquire host row = (r, n)"
  shows "case r of Inl e \<Rightarrow> node_ok n | Inr t \<Rightarrow> task_ok t \<and> t_spawn t = None"
proof (cases "reserve host row")
  case (Inl e)
  then show ?thesis using assms by (auto simp: acquire_def)
next
  case (Inr n0)
  define n1 where "n1 = (if nd_provision_state n0 = None then n0\<lparr>nd_provision_state := Some AVAILABLE\<rparr> else n0)"
  define s where "s = (case nd_provision_state n1 of None \<Rightarrow> AVAILABLE | Some s \<Rightarrow> s)"
  have n0: "node_ok n0" using Inr assms(1) by (auto simp: reserve_def node_ok_def split: if_splits)
  have "AVAILABLE \<in> fst ` set (fm_states machine)" "stable_in machine AVAILABLE" by code_simp+
  then have n1: "node_ok n1" "nd_provision_state n1 = Some s"
    using n0 by (auto simp: n1_def s_def node_ok_def provisioning_ok_def split: option.splits)
  show ?thesis
  proof (cases "fst (fsm_initialize s (nd_target_provision_state n1) machine)")
    case (Inl e)
    then obtain m where "fsm_initialize s (nd_target_provision_state n1) machine = (Inl e, m)" by (metis prod.collapse)
    then show ?thesis using assms(2) n1
      by (auto simp: acquire_def Inr Let_def n1_def[symmetric] s_def[symmetric] release_def node_ok_def)
  next
    case started: (Inr u)
    then obtain m where init: "fsm_initialize s (nd_target_provision_state n1) machine = (Inr u, m)" by (metis prod.collapse)
    have "copy_at m s" "fsm_ok m"
      using copy_at_initialize[OF init] fsm_ok_initialize[OF fsm_ok_machine, of s "nd_target_provision_state n1"] init by simp_all
    then show ?thesis using assms(2) n1 Inr init
      by (auto simp: acquire_def Let_def n1_def[symmetric] s_def[symmetric] task_ok_def hook_ok_def)
  qed
qed

context provisioning_driver
begin

lemma handler_ok: "task_ok t \<Longrightarrow> task_ok (snd (handler d c q t))"
proof -
  assume t: "task_ok t"
  have lands: "lands_unstable DEPLOYWAIT ''fail''" "lands_unstable DEPLOYING ''fail''"
    and unstable: "\<not> stable_in machine CLEANWAIT"
  proof -
    have "next_state DEPLOYWAIT ''fail'' = Some DEPLOYFAIL" "next_state DEPLOYING ''fail'' = Some DEPLOYFAIL"
      "\<not> stable_in machine DEPLOYFAIL" by code_simp+
    then show "lands_unstable DEPLOYWAIT ''fail''" "lands_unstable DEPLOYING ''fail''"
      unfolding lands_unstable_def by simp_all
    show "\<not> stable_in machine CLEANWAIT" by code_simp
  qed
  note timeouts = fail_if_in_state_ok[OF t, of "Some W_cleanup_timeout" DEPLOYWAIT False]
    fail_if_in_state_ok[OF t, of "Some W_cleanup_timeout" DEPLOYING False]
    fail_if_in_state_ok[OF t, of None CLEANWAIT True] fail_if_in_state_ok[OF t, of None INSPECTING False]
  note rules = rpc_node_deploy tear_down(1) cleaning_requests other_workers(4) power_actions(2)
  show ?thesis
    using timeouts lands unstable rpc_provisioning_action_ok[OF t] rules[THEN keepsD, OF t]
    by (cases q) (simp_all add: handler_defs)
qed

lemma run_worker_ok:
  assumes "task_ok t" and "w = W_verify \<Longrightarrow> in_state VERIFYING t"
  shows "task_ok (snd (run_worker d c w t))"
proof -
  note rules = do_node_deploy tear_down(2) do_node_clean do_next_clean_step other_workers(1,2,3) power_actions(1)
  show ?thesis
    using rules[THEN keepsD, OF assms(1)] do_node_verify_ok assms(2)
    by (cases w) (simp_all add: run_worker_def)
qed

lemma leave_ok:
  assumes t: "task_ok t" and new: "t_spawn t = None"
  shows "node_ok (t_row (snd (leave d c free (handler d c q t))))"
proof -
  obtain r t1 where h: "handler d c q t = (r, t1)" by (cases "handler d c q t")
  have t1: "task_ok t1" using handler_ok[OF t, of c q] h by simp
  have row: "task_ok t2 \<Longrightarrow> node_ok (t_row t2)" for t2 by (simp add: task_ok_def)
  show ?thesis
  proof (cases r)
    case (Inl e)
    then show ?thesis using row[OF t1] by (simp add: leave_def h)
  next
    case (Inr u)
    show ?thesis
    proof (cases "t_spawn t1")
      case None
      then show ?thesis using row[OF t1] Inr by (simp add: leave_def h)
    next
      case (Some w)
      have verify: "w = W_verify \<Longrightarrow> in_state VERIFYING t1"
        using spawned_verify[OF t new, of d c q] h Some Inr by simp
      obtain q1 t2 where w: "run_worker d c w t1 = (q1, t2)" by (cases "run_worker d c w t1")
      have t2: "task_ok t2" using run_worker_ok[OF t1 verify] w by (metis snd_conv)
      then have "node_ok ((t_node t2)\<lparr>nd_last_error := m\<rparr>)" for m
        by (simp add: task_ok_def node_ok_def)
      then have worked: "node_ok (t_row (write_exception q1 t2))"
        using row[OF t2] by (auto simp: write_exception_def Let_def split: sum.splits)
      have failed: "node_ok (t_row (spawn_failed t1))"
        using t1 by (auto simp: spawn_failed_def task_ok_def hook_ok_def node_ok_def Let_def
            provisioning_error_handler_def power_state_error_handler_def split: option.splits spawn_hook.splits)
      show ?thesis using worked failed Inr Some by (simp add: leave_def h w)
    qed
  qed
qed

lemma serve_ok:
  assumes "node_ok row"
  shows "node_ok (fst (snd (serve host d c free q row)))"
proof -
  define row1 where "row1 = break_lock q row"
  have row1: "node_ok row1"
    using assms by (cases q) (auto simp: row1_def break_lock_def release_def node_ok_def)
  show ?thesis
  proof (cases "acquire host row1")
    case (Pair r n)
    note acq = acquire_ok[OF row1 Pair]
    show ?thesis
    proof (cases r)
      case (Inl e)
      then show ?thesis using acq by (simp add: serve_def row1_def[symmetric] Pair)
    next
      case (Inr t)
      have "node_ok (t_row (snd (leave d c free (handler d c q t))))"
        by (rule leave_ok) (use acq Inr in simp_all)
      then show ?thesis
        by (simp add: serve_def row1_def[symmetric] Pair Inr case_prod_beta release_def node_ok_def)
    qed
  qed
qed

end

interpretation fake: provisioning_driver fake_driver
  by unfold_locales (rule fake_leaves_provisioning)

lemma serve_unlocked: "nd_reservation row = None \<Longrightarrow> nd_reservation (fst (snd (serve host d c free q row))) = None"
proof -
  assume "nd_reservation row = None"
  then have r: "nd_reservation (break_lock q row) = None"
    by (cases q) (simp_all add: break_lock_def release_def)
  show ?thesis
  proof (cases "acquire host (break_lock q row)")
    case (Pair x n)
    then show ?thesis using r
      by (cases x) (auto simp: serve_def case_prod_beta release_def acquire_def reserve_def Let_def split: sum.splits)
  qed
qed

text \<open>Claim C8. After any requests, timeouts and call backs, whatever the drivers answer and raise and
  whether or not there is a free worker, a node is unlocked again and its provisioning is in order:
  in a state that waits for a request it has no target, in any other state its target is a stable
  state. The drivers must leave the provisioning state and its target to the conductor.
\<close>

theorem requests_keep_nodes_ok:
  assumes "node_ok row" and "nd_reservation row = None"
    and "\<forall>(d, free, q) \<in> set qs. leaves_provisioning d"
  shows "node_ok (serve_all host c qs row) \<and> nd_reservation (serve_all host c qs row) = None"
  using assms
proof (induction qs arbitrary: row)
  case (Cons x qs)
  obtain d free q where x: "x = (d, free, q)" by (cases x)
  then have d: "provisioning_driver d" using Cons.prems(3) by (simp add: provisioning_driver_def)
  define row1 where "row1 = fst (snd (serve host d c free q row))"
  have "node_ok row1" "nd_reservation row1 = None"
    using provisioning_driver.serve_ok[OF d Cons.prems(1)] serve_unlocked[OF Cons.prems(2)] by (simp_all add: row1_def)
  then have "node_ok (serve_all host c qs row1) \<and> nd_reservation (serve_all host c qs row1) = None"
    using Cons.prems(3) by (intro Cons.IH) auto
  then show ?case by (simp add: x row1_def case_prod_beta)
qed simp

definition demo_node :: node where
  "demo_node = \<lparr>nd_provision_state = Some MANAGEABLE, nd_target_provision_state = None, nd_power_state = Some PowerOn,
     nd_target_power_state = None, nd_last_error = None, nd_maintenance = False, nd_maintenance_reason = None,
     nd_clean_step = None, nd_info = \<lparr>in_clean_steps = None, in_clean_step_index = None, in_skip_current = None,
       in_whole_disk = None, in_instance = None, in_rest = []\<rparr>, nd_instance_info = empty_instance_info,
     nd_instance_uuid = None, nd_conductor_affinity = None, nd_reservation = None\<rparr>"

definition demo_conf :: conf where
  "demo_conf = \<lparr>cf_automated_clean = True, cf_configdrive_use_swift = False, cf_upload_configdrive = Inr,
     cf_is_uuid_like = (\<lambda>_. False), cf_image_properties = (\<lambda>_. Inr (None, None)), cf_power_sync_retries = 3,
     cf_force_power_state = True, cf_conductor_id = 7, cf_interface_order = [IfPower, IfManagement, IfDeploy, IfRaid]\<rparr>"

definition demo_requests :: "(driver \<times> bool \<times> request) list" where
  "demo_requests = [(fake_driver, True, Q_action ''provide''), (fake_driver, True, Q_deploy False None),
     (fake_driver, False, Q_tear_down)]"

theorem requests_keep_nodes_ok_witness:
  "node_ok (serve_all ''host'' demo_conf demo_requests demo_node) \<and>
   nd_provision_state (serve_all ''host'' demo_conf demo_requests demo_node) = Some ACTIVE \<and>
   nd_last_error (serve_all ''host'' demo_conf demo_requests demo_node) = Some NoFreeWorkers"
proof -
  have "node_ok demo_node" by code_simp
  moreover have "nd_reservation demo_node = None" by (simp add: demo_node_def)
  moreover have "\<forall>(d, free, q) \<in> set demo_requests. leaves_provisioning d"
    by (simp add: demo_requests_def fake_leaves_provisioning)
  ultimately have "node_ok (serve_all ''host'' demo_conf demo_requests demo_node)"
    using requests_keep_nodes_ok by blast
  moreover have "nd_provision_state (serve_all ''host'' demo_conf demo_requests demo_node) = Some ACTIVE"
    "nd_last_error (serve_all ''host'' demo_conf demo_requests demo_node) = Some NoFreeWorkers" by code_simp+
  ultimately show ?thesis by blast
qed

end
