(* ===== verification/Ironic_Clean_Run.thy ===== *)
theory Ironic_Clean_Run
  imports Ironic_Provisioning "HOL-Library.Multiset"
begin

text \<open>
  What a refused request leaves behind, and a whole cleaning: from the request that starts it,
  through every suspension and call back, to the node that is available again.
\<close>

section \<open>Requests that are answered with an exception\<close>

definition same_as :: "node \<Rightarrow> task \<Rightarrow> bool" where
  "same_as n t \<longleftrightarrow> same_provisioning n (t_node t) \<and> same_provisioning n (t_row t) \<and>
     set (t_calls t) \<subseteq> {C_power_validate, C_deploy_validate, C_inspect_validate}"

definition untouched :: "node \<Rightarrow> task \<Rightarrow> bool" where
  "untouched n t \<longleftrightarrow> same_as n t \<and> t_spawn t = None"

text \<open>A body that returned: the hook of the worker to spawn would restore the node.\<close>

definition revocable :: "node \<Rightarrow> task \<Rightarrow> bool" where
  "revocable n t \<longleftrightarrow>
     (t_spawn t = None \<or>
      (case t_hook t of
         Some (H_provisioning s g) \<Rightarrow> s = nd_provision_state n \<and> g = nd_target_provision_state n \<and>
           set (t_calls t) \<subseteq> {C_power_validate, C_deploy_validate, C_inspect_validate}
       | Some (H_power p) \<Rightarrow> same_as n t
       | _ \<Rightarrow> False))"

definition outcome :: "(task \<Rightarrow> bool) \<Rightarrow> 'a act \<Rightarrow> (task \<Rightarrow> bool) \<Rightarrow> (task \<Rightarrow> bool) \<Rightarrow> bool" where
  "outcome P m Q R \<longleftrightarrow> (\<forall>t. P t \<longrightarrow> (case m t of (Inl e, t1) \<Rightarrow> R t1 | (Inr x, t1) \<Rightarrow> Q t1))"

lemma outcome_bnd:
  "keeps P m \<Longrightarrow> (\<And>t. P t \<Longrightarrow> R t) \<Longrightarrow> (\<And>x. outcome P (k x) Q R) \<Longrightarrow> outcome P (bnd m k) Q R"
proof -
  assume m: "keeps P m" and PR: "\<And>t. P t \<Longrightarrow> R t" and k: "\<And>x. outcome P (k x) Q R"
  have "case bnd m k t of (Inl e, t1) \<Rightarrow> R t1 | (Inr x, t1) \<Rightarrow> Q t1" if t: "P t" for t
  proof (cases "m t")
    case (Pair r t1)
    then have t1: "P t1" using keepsD[OF m t] by simp
    show ?thesis
      using k t1 PR[OF t1] by (cases r) (simp_all add: bnd_def Pair outcome_def)
  qed
  then show ?thesis by (simp add: outcome_def)
qed

lemma outcome_and_then:
  "keeps P m \<Longrightarrow> (\<And>t. P t \<Longrightarrow> R t) \<Longrightarrow> outcome P k Q R \<Longrightarrow> outcome P (and_then m k) Q R"
  unfolding and_then_def by (rule outcome_bnd)

lemma outcome_with_node: "(\<And>n. outcome P (k n) Q R) \<Longrightarrow> outcome P (with_node k) Q R"
  by (simp add: outcome_def with_node_def)

lemma outcome_requested: "outcome P m Q R \<Longrightarrow> outcome P (requested m) Q R"
  unfolding outcome_def requested_def bnd_def attempt_def raising_def ret_def
  by (auto split: sum.splits prod.splits)

lemma outcome_raising: "(\<And>t. P t \<Longrightarrow> R t) \<Longrightarrow> outcome P (raising e) Q R"
  by (simp add: outcome_def raising_def)

lemma outcome_ret: "(\<And>t. P t \<Longrightarrow> Q t) \<Longrightarrow> outcome P (ret x) Q R"
  by (simp add: outcome_def ret_def)

lemma outcome_keeps: "keeps P m \<Longrightarrow> (\<And>t. P t \<Longrightarrow> Q t) \<Longrightarrow> (\<And>t. P t \<Longrightarrow> R t) \<Longrightarrow> outcome P m Q R"
  unfolding outcome_def keeps_def by (auto split: sum.splits prod.splits)

lemma untouched_intros:
  "(\<And>n. same_provisioning n (f n)) \<Longrightarrow> keeps (untouched n) (assign f)"
  "keeps (untouched n) save"
  "c \<in> {C_power_validate, C_deploy_validate, C_inspect_validate} \<Longrightarrow> keeps (untouched n) (asks c g)"
  "keeps (untouched n) (set_spawn_error_hook h)"
  by (auto simp: keeps_def untouched_def same_as_def assign_def save_def asks_def set_spawn_error_hook_def
      set_task_def same_provisioning_def)

lemma outcome_process_event:
  assumes "hook"
  shows "outcome (untouched n) (process_event e callback hook target) (revocable n) (same_as n)"
proof -
  have "case process_event e callback hook target t of (Inl x, t1) \<Rightarrow> same_as n t1 | (Inr x, t1) \<Rightarrow> revocable n t1"
    if t: "untouched n t" for t
  proof (cases "fsm_process_event e target (t_fsm t)")
    case (Pair r m)
    show ?thesis
    proof (cases r)
      case (Inl x)
      then show ?thesis using t
        by (simp add: process_event_def and_then_def bnd_def fsm_event_def Pair untouched_def same_as_def)
    next
      case (Inr u)
      then show ?thesis using t assms
        by (cases callback)
          (auto simp: process_event_def and_then_def bnd_def fsm_event_def Pair set_task_def save_def
            enter_state_def Let_def revocable_def untouched_def same_as_def same_provisioning_def)
    qed
  qed
  then show ?thesis by (simp add: outcome_def)
qed

lemma outcome_move: "outcome (untouched n) (move e) (revocable n) (same_as n)"
proof -
  have "case move e t of (Inl x, t1) \<Rightarrow> same_as n t1 | (Inr x, t1) \<Rightarrow> revocable n t1" if t: "untouched n t" for t
  proof (cases "fsm_process_event e None (t_fsm t)")
    case (Pair r m)
    then show ?thesis using t
      by (cases r) (auto simp: move_def process_event_def and_then_def bnd_def fsm_event_def set_task_def save_def
            enter_state_def Let_def revocable_def untouched_def same_as_def)
  qed
  then show ?thesis by (simp add: outcome_def)
qed

lemma outcome_if: "(b \<Longrightarrow> outcome P m Q R) \<Longrightarrow> (\<not> b \<Longrightarrow> outcome P k Q R) \<Longrightarrow> outcome P (if b then m else k) Q R"
  by simp

lemma untouched_imp: "untouched n t \<Longrightarrow> same_as n t" "untouched n t \<Longrightarrow> revocable n t"
  by (simp_all add: untouched_def revocable_def)

lemma untouched_checks:
  "keeps (untouched n) (power_validate d)"
  "keeps (untouched n) (checked e (power_validate d))"
  "keeps (untouched n) (checked e (and_then (power_validate d) (asks C_deploy_validate f)))"
  "keeps (untouched n) (checked e (and_then (power_validate d) (asks C_inspect_validate f)))"
  unfolding power_validate_def by (intro keeps_intros untouched_intros; simp)+

lemmas outcome_intros = outcome_with_node outcome_and_then outcome_requested outcome_raising outcome_if
  outcome_move outcome_process_event

lemma handler_outcome:
  assumes "q \<noteq> Q_continue_clean"
  shows "outcome (untouched n) (handler d c q) (revocable n) (same_as n)"
proof -
  have deploy: "outcome (untouched n) (rpc_node_deploy d c b x) (revocable n) (same_as n)" for b x
    unfolding rpc_node_deploy_def
    by (intro outcome_intros untouched_checks untouched_intros keeps_if keeps_ret)
      (simp_all add: untouched_imp same_provisioning_def clear_images_def)
  have down: "outcome (untouched n) (rpc_node_tear_down d) (revocable n) (same_as n)"
    and inspect: "outcome (untouched n) (rpc_inspect_hardware d) (revocable n) (same_as n)"
    and clean: "outcome (untouched n) (rpc_node_clean d ss) (revocable n) (same_as n)" for ss
    unfolding rpc_node_tear_down_def rpc_inspect_hardware_def rpc_node_clean_def
    by (intro outcome_intros untouched_checks; simp add: untouched_imp)+
  have abort: "outcome (untouched n) (abort_clean_step n1) (revocable n) (same_as n)" for n1
  proof (cases "nd_clean_step n1")
    case (Some s)
    have "keeps (untouched n) (and_then (assign (\<lambda>n. n\<lparr>nd_clean_step := Some (s\<lparr>st_abort_after := True\<rparr>)\<rparr>)) save)"
      by (intro keeps_intros untouched_intros) (simp add: same_provisioning_def)
    from outcome_keeps[OF this untouched_imp(2) untouched_imp(1)] show ?thesis
      using Some by (simp add: abort_clean_step_def Let_def outcome_process_event outcome_ret untouched_imp)
  qed (simp add: abort_clean_step_def outcome_process_event)
  have action: "outcome (untouched n) (rpc_provisioning_action a) (revocable n) (same_as n)" for a
    unfolding rpc_provisioning_action_def by (intro outcome_intros abort) simp_all
  have power: "outcome (untouched n) (rpc_change_power d p) (revocable n) (same_as n)" for p
  proof -
    have last: "outcome (untouched n) (and_then (set_spawn_error_hook (H_power x)) (spawn_after (W_power p)))
        (revocable n) (same_as n)" for x
      by (simp add: outcome_def and_then_def bnd_def set_spawn_error_hook_def spawn_after_def set_task_def
          untouched_def revocable_def same_as_def)
    show ?thesis
      unfolding rpc_change_power_def
      by (intro outcome_intros untouched_checks untouched_intros last) (simp_all add: untouched_imp same_provisioning_def)
  qed
  have last_event: "outcome (untouched n) (process_event e None False g) (revocable n) (same_as n)" for e g
  proof -
    have "case process_event e None False g t of (Inl x, t1) \<Rightarrow> same_as n t1 | (Inr x, t1) \<Rightarrow> revocable n t1"
      if t: "untouched n t" for t
    proof (cases "fsm_process_event e g (t_fsm t)")
      case (Pair r m)
      then show ?thesis using t
        by (cases r) (auto simp: process_event_def and_then_def bnd_def fsm_event_def set_task_def save_def
              enter_state_def Let_def revocable_def untouched_def same_as_def)
    qed
    then show ?thesis by (simp add: outcome_def)
  qed
  have timeout: "outcome (untouched n) (fail_if_in_state s w msg k) (revocable n) (same_as n)" for s w msg k
  proof (cases w)
    case None
    show ?thesis unfolding fail_if_in_state_def Let_def None option.case
      by (intro outcome_intros last_event untouched_intros) (simp_all add: untouched_imp outcome_ret same_provisioning_def)
  next
    case (Some v)
    show ?thesis unfolding fail_if_in_state_def Let_def Some option.case
      by (intro outcome_intros) (simp_all add: untouched_imp outcome_ret)
  qed
  show ?thesis
    using assms by (cases q) (simp_all add: handler_defs deploy down inspect clean action power timeout)
qed

text \<open>Claim C19. A request that is answered with an exception (the node is locked, a check fails, the
  event is not allowed, there is no free worker) leaves the provisioning state and the target of
  the node as they were, and no method of the driver was called except its checks. There are two
  exceptions. The call back that continues cleaning is left out. A node without a provisioning
  state, as old releases left it, may come out \<open>available\<close>, with its target as it was: the task
  manager saves that state as soon as it has the lock, before the request is looked at.
\<close>

theorem refused_request_reverts:
  assumes "serve host d c free q row = (Inl e, row1, calls)" and "q \<noteq> Q_continue_clean"
  shows "(same_provisioning row row1 \<or>
      nd_provision_state row = None \<and> same_provisioning (row\<lparr>nd_provision_state := Some AVAILABLE\<rparr>) row1) \<and>
    set calls \<subseteq> {C_power_validate, C_deploy_validate, C_inspect_validate}"
proof -
  define row0 where "row0 = (if nd_provision_state row = None then (break_lock q row)\<lparr>nd_provision_state := Some AVAILABLE\<rparr> else break_lock q row)"
  have row0: "nd_provision_state row0 \<noteq> None" "nd_provision_state row \<noteq> None \<Longrightarrow> same_provisioning row row0"
    "nd_provision_state row = None \<Longrightarrow> same_provisioning (row\<lparr>nd_provision_state := Some AVAILABLE\<rparr>) row0"
    by (cases q; auto simp: row0_def break_lock_def release_def same_provisioning_def)+
  have broken: "same_provisioning row (break_lock q row)" "nd_reservation (break_lock q row) = nd_reservation row0"
    by (cases q; auto simp: row0_def break_lock_def release_def same_provisioning_def)+
  have trans: "same_provisioning row row1 \<or>
      nd_provision_state row = None \<and> same_provisioning (row\<lparr>nd_provision_state := Some AVAILABLE\<rparr>) row1"
    if "same_provisioning row0 row1"
    using that row0(2,3) by (cases "nd_provision_state row = None") (auto simp: same_provisioning_def)
  have rel: "same_provisioning n m \<Longrightarrow> same_provisioning n (release m)" for n m
    by (simp add: same_provisioning_def release_def)
  obtain r n where acq: "acquire host (break_lock q row) = (r, n)" by (cases "acquire host (break_lock q row)")
  show ?thesis
  proof (cases r)
    case (Inl x)
    then have "row1 = n" "calls = []" using assms(1) by (simp_all add: serve_def acq)
    moreover have "same_provisioning row n \<or> same_provisioning row0 n"
      using acq Inl broken(1)
      by (auto simp: acquire_def reserve_def Let_def same_provisioning_def release_def row0_def split: sum.splits if_splits prod.splits)
    ultimately show ?thesis using trans by auto
  next
    case (Inr t)
    have "untouched row0 t"
      using acq Inr broken(1)
      by (auto simp: acquire_def reserve_def Let_def untouched_def same_as_def same_provisioning_def row0_def
          split: sum.splits if_splits prod.splits)
    moreover obtain x t1 where h: "handler d c q t = (x, t1)" by (cases "handler d c q t")
    ultimately have out: "case x of Inl e \<Rightarrow> same_as row0 t1 | Inr u \<Rightarrow> revocable row0 t1"
      using handler_outcome[OF assms(2), of row0 d c] by (auto simp: outcome_def split: sum.splits prod.splits)
    obtain y t2 where l: "leave d c free (x, t1) = (y, t2)" by (cases "leave d c free (x, t1)")
    have res: "y = Inl e" "row1 = release (t_row t2)" "calls = t_calls t2"
      using assms(1) by (simp_all add: serve_def acq Inr h l)
    have "same_provisioning row0 (t_row t2) \<and> set (t_calls t2) \<subseteq> {C_power_validate, C_deploy_validate, C_inspect_validate}"
    proof (cases x)
      case (Inl z)
      then show ?thesis using out l by (simp add: leave_def same_as_def)
    next
      case (Inr z)
      then obtain w where w: "t_spawn t1 = Some w" "\<not> free" "t2 = spawn_failed t1"
        using l res(1) by (auto simp: leave_def split: option.splits if_splits prod.splits)
      show ?thesis
        using out Inr w
        by (auto simp: revocable_def spawn_failed_def Let_def provisioning_error_handler_def power_state_error_handler_def
            same_as_def same_provisioning_def split: option.splits spawn_hook.splits)
    qed
    then show ?thesis using res trans rel by blast
  qed
qed

theorem refused_request_reverts_witness:
  "same_provisioning demo_node (fst (snd (serve ''host'' fake_driver demo_conf False (Q_action ''provide'') demo_node))) \<and>
   fst (serve ''host'' fake_driver demo_conf False (Q_action ''provide'') demo_node) = Inl NoFreeConductorWorker"
proof -
  define z where "z = serve ''host'' fake_driver demo_conf False (Q_action ''provide'') demo_node"
  have "fst z = Inl NoFreeConductorWorker" unfolding z_def by code_simp
  then have z: "serve ''host'' fake_driver demo_conf False (Q_action ''provide'') demo_node
      = (Inl NoFreeConductorWorker, fst (snd z), snd (snd z))"
    unfolding z_def[symmetric] by (metis prod.collapse)
  have "nd_provision_state demo_node \<noteq> None" by (simp add: demo_node_def)
  with refused_request_reverts[OF z] \<open>fst z = _\<close> show ?thesis by (simp add: z_def)
qed

section \<open>Cleaning from the request to the end\<close>

text \<open>What an event does to a task that is in order, when the state it leads to has a target of its own or rests.\<close>

lemma event_exact:
  assumes t: "in_state s t" and e: "next_state s e = Some s1"
    and tg: "stable_in machine s1 \<and> callback = None \<or> default_target machine s1 = Some g"
  shows "\<exists>m. process_event e callback hook None t =
      (Inr (), t\<lparr>t_fsm := m,
         t_node := (case callback of None \<Rightarrow> id | Some w \<Rightarrow> nd_last_error_update (\<lambda>_. None))
           ((t_node t)\<lparr>nd_provision_state := Some s1,
             nd_target_provision_state := (if callback = None \<and> stable_in machine s1 then None else Some g)\<rparr>),
         t_row := (case callback of None \<Rightarrow> id | Some w \<Rightarrow> nd_last_error_update (\<lambda>_. None))
           ((t_node t)\<lparr>nd_provision_state := Some s1,
             nd_target_provision_state := (if callback = None \<and> stable_in machine s1 then None else Some g)\<rparr>),
         t_spawn := (case callback of None \<Rightarrow> t_spawn t | Some w \<Rightarrow> Some w),
         t_hook := (if hook \<and> callback \<noteq> None
           then Some (H_provisioning (Some s) (nd_target_provision_state (t_node t))) else t_hook t)\<rparr>)"
proof -
  have m: "copy_at (t_fsm t) s" and prov: "nd_provision_state (t_node t) = Some s"
    using t by (auto simp: in_state_def task_ok_def)
  define m1 where "m1 = post_process_event s1 ((t_fsm t)\<lparr>fm_current := Some s1\<rparr>)"
  have step: "fsm_process_event e None (t_fsm t) = (Inr (), m1)"
    using process_event_copy[OF m, of e] e by (simp add: m1_def)
  have m1: "copy_at m1 s1" unfolding m1_def by (rule post_process_copy[OF m])
  then have cur: "fm_current m1 = Some s1" by (simp add: copy_at_def)
  have s1: "s1 \<in> fst ` set (fm_states machine)"
    using transition_ok[OF fsm_ok_machine] e by (simp add: next_state_def)
  have dt: "default_target machine s1 = Some g \<Longrightarrow> fm_target_state m1 = Some g"
    using m by (auto simp: m1_def post_process_event_def Let_def default_target_def copy_at_def)
  have st: "stable_now (t1\<lparr>t_node := n1\<rparr>) = stable_in machine s1"
    if "t_fsm t1 = m1" "nd_provision_state n1 = Some s1" for t1 n1
    by (rule stable_now_iff) (use that m1 s1 in simp_all)
  have "process_event e callback hook None t = (Inr (), (enter_state callback hook (t\<lparr>t_fsm := m1\<rparr>))
      \<lparr>t_row := t_node (enter_state callback hook (t\<lparr>t_fsm := m1\<rparr>))\<rparr>)"
    by (simp add: process_event_def and_then_def bnd_def fsm_event_def step set_task_def save_def)
  moreover have "enter_state callback hook (t\<lparr>t_fsm := m1\<rparr>) =
      t\<lparr>t_fsm := m1,
         t_node := (case callback of None \<Rightarrow> id | Some w \<Rightarrow> nd_last_error_update (\<lambda>_. None))
           ((t_node t)\<lparr>nd_provision_state := Some s1,
             nd_target_provision_state := (if callback = None \<and> stable_in machine s1 then None else Some g)\<rparr>),
         t_spawn := (case callback of None \<Rightarrow> t_spawn t | Some w \<Rightarrow> Some w),
         t_hook := (if hook \<and> callback \<noteq> None
           then Some (H_provisioning (Some s) (nd_target_provision_state (t_node t))) else t_hook t)\<rparr>"
    using tg dt by (cases callback) (auto simp: enter_state_def Let_def cur st prov)
  ultimately show ?thesis by (intro exI[of _ m1]) (cases callback; simp)
qed

text \<open>The steps that were executed, in the order of the calls.\<close>

fun executed :: "call list \<Rightarrow> clean_step list" where
  "executed [] = []"
| "executed (C_execute i s # cs) = s # executed cs"
| "executed (_ # cs) = executed cs"

lemma executed_append [simp]: "executed (a @ b) = executed a @ executed b"
  by (induction a rule: executed.induct) simp_all

text \<open>What cleaning stores on the node. A driver whose steps succeed leaves it alone.\<close>

definition same_cleaning :: "node \<Rightarrow> node \<Rightarrow> bool" where
  "same_cleaning n n1 \<longleftrightarrow>
     nd_clean_step n1 = nd_clean_step n \<and> in_clean_steps (nd_info n1) = in_clean_steps (nd_info n) \<and>
     in_clean_step_index (nd_info n1) = in_clean_step_index (nd_info n) \<and>
     in_skip_current (nd_info n1) = in_skip_current (nd_info n)"

definition succeeds :: "(prov_state option \<Rightarrow> bool) \<Rightarrow> prov_state option driver_op \<Rightarrow> bool" where
  "succeeds allowed f \<longleftrightarrow> (\<forall>n row. case f (n, row) of (r, (n1, row1)) \<Rightarrow>
     (case r of Inl e \<Rightarrow> False | Inr v \<Rightarrow> allowed v \<and> same_cleaning n n1))"

lemma succeedsD:
  assumes "succeeds P f" and "f (n, row) = (r, (n1, row1))"
  shows "\<exists>v. r = Inr v \<and> P v \<and> same_cleaning n n1"
proof -
  have "case f (n, row) of (r, (n1, row1)) \<Rightarrow> (case r of Inl e \<Rightarrow> False | Inr v \<Rightarrow> P v \<and> same_cleaning n n1)"
    using assms(1) unfolding succeeds_def by (elim allE)
  then show ?thesis using assms(2) by (cases r) simp_all
qed

text \<open>
  A driver whose cleaning goes well without an agent: \<open>prepare_cleaning\<close> returns \<open>None\<close>, so that the
  steps are fetched at once. With \<open>CLEANWAIT\<close>, \<open>_do_node_clean\<close> stops, and the driver starts the
  steps when its agent reports.
\<close>

definition cleans_well :: "driver \<Rightarrow> (iface \<Rightarrow> clean_step list) \<Rightarrow> bool" where
  "cleans_well d steps \<longleftrightarrow>
     leaves_provisioning d \<and> (\<forall>n. dv_power_validate d n = Inr ()) \<and>
     (\<forall>i n. dv_get_clean_steps d i n = Inr (steps i)) \<and>
     (\<forall>i. \<forall>s \<in> set (steps i). st_interface s \<in> set (dv_interfaces d) \<and> \<not> st_abort_after s \<and>
        succeeds (\<lambda>v. v = None \<or> v = Some CLEANWAIT) (dv_execute_clean_step d (st_interface s) s)) \<and>
     succeeds (\<lambda>v. v = None) (dv_prepare_cleaning d) \<and>
     (\<forall>n row. case dv_tear_down_cleaning d (n, row) of (r, (n1, row1)) \<Rightarrow> r = Inr () \<and> same_cleaning n n1)"

text \<open>The steps of automated cleaning, in the order in which they are to be executed.\<close>

definition automated_steps :: "driver \<Rightarrow> conf \<Rightarrow> (iface \<Rightarrow> clean_step list) \<Rightarrow> clean_step list" where
  "automated_steps d c steps =
     sort_steps [s \<leftarrow> concat (map steps [i \<leftarrow> cf_interface_order c. i \<in> set (dv_interfaces d)]). enabled_step s]"

definition precedes :: "clean_step \<Rightarrow> clean_step \<Rightarrow> bool" where
  "precedes a b \<longleftrightarrow> \<not> key_less (step_key a) (step_key b)"

lemma mset_insert_step: "mset (insert_step s xs) = add_mset s (mset xs)"
  by (induction xs) auto

lemma mset_sort_steps: "mset (sort_steps xs) = mset xs"
  by (induction xs) (simp_all add: sort_steps_def mset_insert_step)

lemma set_sort_steps: "set (sort_steps xs) = set xs"
  by (metis mset_sort_steps set_mset_mset)

lemma precedes_trans: "precedes a b \<Longrightarrow> precedes b c \<Longrightarrow> precedes a c"
  by (auto simp: precedes_def key_less_def)

lemma precedes_total: "key_less (step_key a) (step_key b) \<Longrightarrow> precedes b a"
  by (auto simp: precedes_def key_less_def)

lemma sorted_insert_step: "sorted_wrt precedes xs \<Longrightarrow> sorted_wrt precedes (insert_step s xs)"
proof (induction xs)
  case (Cons x xs)
  have set: "set (insert_step s xs) = insert s (set xs)" by (metis mset_insert_step set_mset_add_mset_insert set_mset_mset)
  show ?case
  proof (cases "key_less (step_key s) (step_key x)")
    case True
    then show ?thesis using Cons precedes_total[OF True] set by simp
  next
    case False
    then have "precedes s x" by (simp add: precedes_def)
    then show ?thesis using Cons.prems False precedes_trans by auto
  qed
qed simp

lemma sorted_sort_steps: "sorted_wrt precedes (sort_steps xs)"
  by (induction xs) (simp_all add: sort_steps_def sorted_insert_step)

text \<open>Call backs to the conductor for as long as the node waits for one, at most so many.\<close>

fun call_backs :: "string \<Rightarrow> driver \<Rightarrow> conf \<Rightarrow> nat \<Rightarrow> node \<Rightarrow> node \<times> call list" where
  "call_backs host d c 0 row = (row, [])"
| "call_backs host d c (Suc k) row =
     (if nd_provision_state row = Some CLEANWAIT
      then case serve host d c True Q_continue_clean row of (_, row1, calls) \<Rightarrow>
             (case call_backs host d c k row1 of (row2, later) \<Rightarrow> (row2, calls @ later))
      else (row, []))"

definition runs_well :: "driver \<Rightarrow> clean_step \<Rightarrow> bool" where
  "runs_well d s \<longleftrightarrow> st_interface s \<in> set (dv_interfaces d) \<and> \<not> st_abort_after s \<and>
     succeeds (\<lambda>v. v = None \<or> v = Some CLEANWAIT) (dv_execute_clean_step d (st_interface s) s)"

text \<open>A task in the middle of automated cleaning, a row that waits in step \<open>k\<close>, and a row that was cleaned.\<close>

definition cleaning :: "task \<Rightarrow> bool" where
  "cleaning t \<longleftrightarrow> in_state CLEANING t \<and> nd_target_provision_state (t_node t) = Some AVAILABLE"

definition waiting :: "clean_step list \<Rightarrow> nat \<Rightarrow> node \<Rightarrow> bool" where
  "waiting xs k n \<longleftrightarrow>
     nd_provision_state n = Some CLEANWAIT \<and> nd_target_provision_state n = Some AVAILABLE \<and>
     k < length xs \<and> nd_clean_step n = Some (xs ! k) \<and> in_clean_steps (nd_info n) = Some (Some xs) \<and>
     in_clean_step_index (nd_info n) = Some (Some k) \<and> in_skip_current (nd_info n) = None"

definition cleaned :: "node \<Rightarrow> bool" where
  "cleaned n \<longleftrightarrow>
     nd_provision_state n = Some AVAILABLE \<and> nd_target_provision_state n = None \<and> nd_clean_step n = None \<and>
     in_clean_steps (nd_info n) = Some None \<and> in_clean_step_index (nd_info n) = None"

text \<open>What was executed from step \<open>j\<close> on, and where that left the node.\<close>

definition progress :: "clean_step list \<Rightarrow> nat \<Rightarrow> node \<Rightarrow> clean_step list \<Rightarrow> bool" where
  "progress xs j n done_steps \<longleftrightarrow>
     cleaned n \<and> done_steps = drop j xs \<or>
     (\<exists>k. j \<le> k \<and> waiting xs k n \<and> done_steps = drop j (take (Suc k) xs))"

lemma cleaning_events: "next_state CLEANING ''wait'' = Some CLEANWAIT" "next_state CLEANING ''done'' = Some AVAILABLE"
  "next_state CLEANWAIT ''resume'' = Some CLEANING" "next_state MANAGEABLE ''provide'' = Some CLEANING"
  "default_target machine CLEANWAIT = Some AVAILABLE" "default_target machine CLEANING = Some AVAILABLE"
  "stable_in machine AVAILABLE" "\<not> stable_in machine CLEANING" "\<not> stable_in machine CLEANWAIT"
  by code_simp+

lemma cleaning_not_manual: "nd_target_provision_state n = Some AVAILABLE \<Longrightarrow> \<not> manual_clean n"
  by (simp add: manual_clean_def)

lemma cleaning_wait:
  assumes "cleaning t"
  obtains t1 where "process_event ''wait'' None False None t = (Inr (), t1)"
    "t_row t1 = (t_node t)\<lparr>nd_provision_state := Some CLEANWAIT, nd_target_provision_state := Some AVAILABLE\<rparr>"
    "t_calls t1 = t_calls t"
proof -
  have "in_state CLEANING t" using assms by (simp add: cleaning_def)
  from event_exact[OF this cleaning_events(1), of None AVAILABLE False] that show thesis
    by (auto simp: cleaning_events)
qed

lemma cleaning_done:
  assumes "cleaning t"
  obtains t1 where "move ''done'' t = (Inr (), t1)"
    "t_row t1 = (t_node t)\<lparr>nd_provision_state := Some AVAILABLE, nd_target_provision_state := None\<rparr>"
    "t_calls t1 = t_calls t"
proof -
  have "in_state CLEANING t" using assms by (simp add: cleaning_def)
  from event_exact[OF this cleaning_events(2), of None AVAILABLE False] that show thesis
    by (auto simp: cleaning_events move_def)
qed

declare run_steps.simps(2) [simp del]

text \<open>The loop ended in the step after \<open>pre\<close>, which waits.\<close>

definition waited :: "internal_info \<Rightarrow> nat \<Rightarrow> clean_step list \<Rightarrow> task \<Rightarrow> task \<Rightarrow> bool" where
  "waited info i ss t t1 \<longleftrightarrow>
     (\<exists>pre s post. ss = pre @ s # post \<and> executed (t_calls t1) = executed (t_calls t) @ pre @ [s] \<and>
        nd_provision_state (t_row t1) = Some CLEANWAIT \<and> nd_target_provision_state (t_row t1) = Some AVAILABLE \<and>
        same_cleaning (start_step info (i + length pre) s (t_node t)) (t_row t1))"

lemma acquire_exact:
  assumes row: "node_ok row" "nd_reservation row = None" and s: "nd_provision_state row = Some s"
  obtains t where "acquire host row = (Inr t, row\<lparr>nd_reservation := Some host\<rparr>)"
    "t_node t = row\<lparr>nd_reservation := Some host\<rparr>" "t_spawn t = None" "t_calls t = []" "in_state s t"
proof -
  define n where "n = row\<lparr>nd_reservation := Some host\<rparr>"
  have s_in: "s \<in> fst ` set (fm_states machine)"
    and tg: "pred_option (stable_in machine) (nd_target_provision_state row)"
    using row s by (auto simp: node_ok_def provisioning_ok_def split: option.splits)
  have st: "stable_in (machine\<lparr>fm_current := Some s\<rparr>) = stable_in machine"
    by (rule stable_in_cong) simp
  obtain info where "map_of (fm_states machine) s = Some info" using s_in by (metis map_of_eq_None_iff not_None_eq)
  then have "machine_initialize s machine = Inr (machine\<lparr>fm_current := Some s\<rparr>)"
    using no_terminal[of s] by (simp add: machine_initialize_def)
  moreover have "validate_target_state (machine\<lparr>fm_current := Some s\<rparr>) (nd_target_provision_state row) = Inr ()"
    using tg st by (auto simp: validate_target_state_def is_stable_def stable_in_def split: option.splits)
  ultimately obtain m where m: "fsm_initialize s (nd_target_provision_state row) machine = (Inr (), m)"
    by (simp add: fsm_initialize_def translated_def)
  define t where "t = \<lparr>t_node = n, t_row = n, t_fsm = m, t_spawn = None, t_hook = None, t_calls = []\<rparr>"
  have acq: "acquire host row = (Inr t, n)"
    using s row(2) m by (simp add: acquire_def reserve_def n_def t_def Let_def)
  have "in_state s t" using acquire_ok[OF row(1) acq] s by (simp add: in_state_def t_def n_def)
  then show thesis using that acq by (simp add: t_def n_def)
qed

locale cleaning_driver = provisioning_driver +
  fixes steps :: "iface \<Rightarrow> clean_step list"
  assumes well: "cleans_well d steps"
begin

lemma start_cleaning:
  assumes "cleaning t"
  shows "cleaning (t\<lparr>t_node := start_step info i s (t_node t), t_row := start_step info i s (t_node t)\<rparr>)"
  using assms by (auto simp: cleaning_def in_state_def task_ok_def node_ok_def start_step_def)

lemma execute:
  assumes t: "cleaning t" and s: "runs_well d s"
  obtains w t1 where "run_step d s t = (Inr (Inr w), t1)" "cleaning t1"
    "t_calls t1 = t_calls t @ [C_execute (st_interface s) s]" "same_cleaning (t_node t) (t_node t1)"
proof -
  define f where "f = dv_execute_clean_step d (st_interface s) s"
  obtain r n1 row1 where f: "f (t_node t, t_row t) = (r, (n1, row1))" by (metis prod.collapse)
  have ok: "task_ok (snd (drives (C_execute (st_interface s) s) f t))"
    unfolding f_def by (rule keepsD[OF ops(9)]) (use t in \<open>simp add: cleaning_def in_state_def\<close>)
  have "leaves_op f" using leaves by (simp add: f_def leaves_provisioning_def)
  then have same: "same_provisioning (t_node t) n1"
    using f unfolding leaves_op_def by (metis (mono_tags, lifting) case_prod_conv)
  have "succeeds (\<lambda>v. v = None \<or> v = Some CLEANWAIT) f" using s by (simp add: runs_well_def f_def)
  then obtain v where v: "r = Inr v" "v = None \<or> v = Some CLEANWAIT" "same_cleaning (t_node t) n1"
    using succeedsD[of _ f "t_node t" "t_row t" r n1 row1] f by blast
  define t1 where "t1 = t\<lparr>t_node := n1, t_row := row1, t_calls := t_calls t @ [C_execute (st_interface s) s]\<rparr>"
  have drv: "drives (C_execute (st_interface s) s) f t = (r, t1)" by (simp add: drives_def f t1_def)
  have "cleaning t1"
    using ok drv same t by (simp add: cleaning_def in_state_def same_provisioning_def t1_def)
  moreover have "run_step d s t = (Inr (Inr (v \<noteq> None)), t1)"
    using s v drv by (auto simp: run_step_def runs_well_def bnd_def attempt_def f_def[symmetric] ret_def)
  ultimately show thesis using that[of "v \<noteq> None" t1] v by (simp add: t1_def)
qed

lemma run_steps_progress:
  assumes "cleaning t" and "\<forall>s \<in> set ss. runs_well d s"
  shows "\<exists>b t1. run_steps d info False i ss t = (Inr b, t1) \<and>
    (b \<longrightarrow> waited info i ss t t1) \<and>
    (\<not> b \<longrightarrow> cleaning t1 \<and> executed (t_calls t1) = executed (t_calls t) @ ss)"
  using assms
proof (induction ss arbitrary: i t)
  case Nil
  then show ?case by (intro exI[of _ False] exI[of _ t]) (simp add: ret_def)
next
  case (Cons s ss)
  define t0 where "t0 = t\<lparr>t_node := start_step info i s (t_node t), t_row := start_step info i s (t_node t)\<rparr>"
  have t0: "cleaning t0" unfolding t0_def by (rule start_cleaning[OF Cons.prems(1)])
  have "runs_well d s" using Cons.prems(2) by simp
  with t0 obtain w t1 where w: "run_step d s t0 = (Inr (Inr w), t1)" and t1: "cleaning t1"
    and calls: "t_calls t1 = t_calls t @ [C_execute (st_interface s) s]"
    and same: "same_cleaning (start_step info i s (t_node t)) (t_node t1)"
    by (rule execute) (simp add: t0_def)
  have eq: "run_steps d info False i (s # ss) t =
      (if w then and_then (process_event ''wait'' None False None) (ret True) t1 else run_steps d info False (Suc i) ss t1)"
  proof -
    have "and_then (assign (start_step info i s)) (and_then save k) t = k t0" for k :: "bool act"
      by (simp add: and_then_def bnd_def assign_def save_def t0_def)
    then show ?thesis by (cases w) (simp_all add: run_steps.simps(2) bnd_def w clean_target_def)
  qed
  show ?case
  proof (cases w)
    case True
    obtain t2 where t2: "process_event ''wait'' None False None t1 = (Inr (), t2)"
      "t_row t2 = (t_node t1)\<lparr>nd_provision_state := Some CLEANWAIT, nd_target_provision_state := Some AVAILABLE\<rparr>"
      "t_calls t2 = t_calls t1"
      by (rule cleaning_wait[OF t1])
    have "run_steps d info False i (s # ss) t = (Inr True, t2)"
      unfolding eq by (simp add: True and_then_def bnd_def t2(1) ret_def)
    moreover have "same_cleaning (start_step info (i + length []) s (t_node t)) (t_row t2)"
      using same by (simp add: t2(2) same_cleaning_def)
    moreover have "executed (t_calls t2) = executed (t_calls t) @ [] @ [s]"
      by (simp add: t2(3) calls)
    ultimately show ?thesis
      unfolding waited_def using t2(2)
      by (intro exI[of _ True] exI[of _ t2]) (auto intro!: exI[of _ "[]"])
  next
    case False
    from Cons.IH[OF t1, of "Suc i"] Cons.prems(2)
    obtain b t2 where b: "run_steps d info False (Suc i) ss t1 = (Inr b, t2)"
      and rest: "b \<longrightarrow> waited info (Suc i) ss t1 t2"
        "\<not> b \<longrightarrow> cleaning t2 \<and> executed (t_calls t2) = executed (t_calls t1) @ ss"
      by auto
    have run: "run_steps d info False i (s # ss) t = (Inr b, t2)" using b unfolding eq by (simp add: False)
    show ?thesis
    proof (cases b)
      case False
      then show ?thesis using run rest calls by auto
    next
      case True
      then obtain pre x post where x: "ss = pre @ x # post" "executed (t_calls t2) = executed (t_calls t1) @ pre @ [x]"
        "nd_provision_state (t_row t2) = Some CLEANWAIT" "nd_target_provision_state (t_row t2) = Some AVAILABLE"
        "same_cleaning (start_step info (Suc i + length pre) x (t_node t1)) (t_row t2)"
        using rest(1) unfolding waited_def by blast
      have "same_cleaning (start_step info (i + length (s # pre)) x (t_node t)) (t_row t2)"
        using x(5) by (simp add: same_cleaning_def start_step_def)
      then have "waited info i (s # ss) t t2"
        unfolding waited_def using x calls by (intro exI[of _ "s # pre"] exI[of _ x] exI[of _ post]) simp
      then show ?thesis using run True by blast
    qed
  qed
qed

lemma tear_down:
  assumes "cleaning t"
  obtains t1 where "attempt (tear_down_cleaning d) t = (Inr (Inr ()), t1)" "cleaning t1"
    "t_calls t1 = t_calls t @ [C_tear_down_cleaning]" "same_cleaning (t_node t) (t_node t1)"
proof -
  define f where "f = dv_tear_down_cleaning d"
  obtain r n1 row1 where f: "f (t_node t, t_row t) = (r, (n1, row1))" by (metis prod.collapse)
  have "case f (t_node t, t_row t) of (r, (n1, row1)) \<Rightarrow> r = Inr () \<and> same_cleaning (t_node t) n1"
    using well by (simp add: cleans_well_def f_def)
  then have r: "r = Inr ()" "same_cleaning (t_node t) n1" using f by simp_all
  have "leaves_op f" using leaves by (simp add: f_def leaves_provisioning_def)
  then have same: "same_provisioning (t_node t) n1"
    using f unfolding leaves_op_def by (metis (mono_tags, lifting) case_prod_conv)
  define t1 where "t1 = t\<lparr>t_node := n1, t_row := row1, t_calls := t_calls t @ [C_tear_down_cleaning]\<rparr>"
  have drv: "drives C_tear_down_cleaning f t = (Inr (), t1)" by (simp add: drives_def f t1_def r)
  have "task_ok (snd (drives C_tear_down_cleaning f t))"
    unfolding f_def by (rule keepsD[OF ops(8)]) (use assms in \<open>simp add: cleaning_def in_state_def\<close>)
  then have "cleaning t1"
    using drv same assms by (simp add: cleaning_def in_state_def same_provisioning_def t1_def)
  then show thesis
    using that drv r by (simp add: attempt_def tear_down_cleaning_def f_def t1_def)
qed

lemma finish:
  assumes t: "cleaning t"
  obtains t1 where "finish_cleaning d info False t = (Inr (), t1)" "cleaned (t_row t1)"
    "executed (t_calls t1) = executed (t_calls t)"
proof -
  define n where "n = (t_node t)\<lparr>nd_clean_step := None,
         nd_info := info\<lparr>in_clean_steps := Some None, in_clean_step_index := None\<rparr>\<rparr>"
  define t0 where "t0 = t\<lparr>t_node := n, t_row := n\<rparr>"
  have "cleaning t0" using t by (auto simp: t0_def n_def cleaning_def in_state_def task_ok_def node_ok_def)
  then obtain t1 where t1: "attempt (tear_down_cleaning d) t0 = (Inr (Inr ()), t1)" "cleaning t1"
    "t_calls t1 = t_calls t0 @ [C_tear_down_cleaning]" "same_cleaning (t_node t0) (t_node t1)"
    by (rule tear_down)
  obtain t2 where t2: "move ''done'' t1 = (Inr (), t2)"
    "t_row t2 = (t_node t1)\<lparr>nd_provision_state := Some AVAILABLE, nd_target_provision_state := None\<rparr>"
    "t_calls t2 = t_calls t1"
    by (rule cleaning_done[OF t1(2)])
  have "finish_cleaning d info False t = move ''done'' t1"
    unfolding finish_cleaning_def and_then_def bnd_def assign_def save_def
    using t1(1) by (simp add: t0_def n_def)
  moreover have "cleaned (t_row t2)" using t1(4) by (simp add: cleaned_def t2(2) same_cleaning_def t0_def n_def)
  ultimately show thesis using that t2 t1(3) by (simp add: t0_def)
qed

text \<open>The worker that runs the steps from the \<open>j\<close>-th on.\<close>

lemma next_step:
  assumes t: "cleaning t" and xs: "in_clean_steps (nd_info (t_node t)) = Some (Some xs)"
    and skip: "in_skip_current (nd_info (t_node t)) = None"
    and ok: "\<forall>s \<in> set xs. runs_well d s" and j: "j \<le> length xs"
  shows "\<exists>t1 did. do_next_clean_step d (if j < length xs then Some j else None) t = (Inr (), t1) \<and>
    executed (t_calls t1) = executed (t_calls t) @ did \<and> progress xs j (t_row t1) did"
proof -
  define info where "info = nd_info (t_node t)"
  define i where "i = (if j < length xs then j else 0)"
  define ss where "ss = drop j xs"
  have manual: "manual_clean (t_node t) = False" using t by (simp add: cleaning_def cleaning_not_manual)
  have eq: "do_next_clean_step d (if j < length xs then Some j else None) t =
      bnd (run_steps d info False i ss) (\<lambda>ended. if ended then ret () else finish_cleaning d info False) t"
    unfolding do_next_clean_step_def with_node_def Let_def manual info_def[symmetric]
    using xs j by (simp add: info_def i_def ss_def)
  have "\<forall>s \<in> set ss. runs_well d s" using ok set_drop_subset[of j xs] by (auto simp: ss_def)
  from run_steps_progress[OF t this, of info i] obtain b t1
    where run: "run_steps d info False i ss t = (Inr b, t1)"
      and res: "b \<longrightarrow> waited info i ss t t1"
        "\<not> b \<longrightarrow> cleaning t1 \<and> executed (t_calls t1) = executed (t_calls t) @ ss"
    by blast
  show ?thesis
  proof (cases b)
    case False
    then have "cleaning t1" using res by simp
    then obtain t2 where t2: "finish_cleaning d info False t1 = (Inr (), t2)" "cleaned (t_row t2)"
      "executed (t_calls t2) = executed (t_calls t1)"
      by (rule finish)
    have "do_next_clean_step d (if j < length xs then Some j else None) t = (Inr (), t2)"
      unfolding eq using False by (simp add: bnd_def run t2)
    then show ?thesis using t2 res False by (auto simp: progress_def ss_def)
  next
    case True
    then obtain pre s post where s: "ss = pre @ s # post" "executed (t_calls t1) = executed (t_calls t) @ pre @ [s]"
        "nd_provision_state (t_row t1) = Some CLEANWAIT" "nd_target_provision_state (t_row t1) = Some AVAILABLE"
        "same_cleaning (start_step info (i + length pre) s (t_node t)) (t_row t1)"
      using res(1) unfolding waited_def by blast
    define k where "k = j + length pre"
    have jl: "j < length xs" using s(1) by (auto simp: ss_def) (metis drop_all list.distinct(1) not_le append_is_Nil_conv)
    have split: "xs = take j xs @ pre @ s # post" using s(1) by (metis append_take_drop_id ss_def)
    have k: "k < length xs" "xs ! k = s" "drop j (take (Suc k) xs) = pre @ [s]"
    proof -
      have lj: "length (take j xs) = j" using jl by simp
      have "length xs = j + length pre + Suc (length post)" using arg_cong[OF split, of length] lj by simp
      then show "k < length xs" by (simp add: k_def)
      show "xs ! k = s" by (subst split) (use jl in \<open>simp add: nth_append k_def\<close>)
      show "drop j (take (Suc k) xs) = pre @ [s]" by (subst split) (use jl in \<open>simp add: k_def\<close>)
    qed
    have "waiting xs k (t_row t1)"
      using s(3,4,5) k(1,2) xs skip jl by (simp add: waiting_def same_cleaning_def start_step_def info_def i_def k_def)
    then have "progress xs j (t_row t1) (pre @ [s])"
      using k(3) by (auto simp: progress_def k_def intro!: exI[of _ k])
    moreover have "do_next_clean_step d (if j < length xs then Some j else None) t = (Inr (), t1)"
      unfolding eq using True by (simp add: bnd_def run ret_def)
    ultimately show ?thesis using s(2) by auto
  qed
qed

lemma worker_progress:
  assumes h: "handler d c q t = (Inr (), t1)" and w: "t_spawn t1 = Some (W_next_clean_step (if j < length xs then Some j else None))"
    and t1: "cleaning t1" "in_clean_steps (nd_info (t_node t1)) = Some (Some xs)"
      "in_skip_current (nd_info (t_node t1)) = None"
    and ok: "\<forall>s \<in> set xs. runs_well d s" "j \<le> length xs"
  shows "\<exists>t2 did. leave d c True (handler d c q t) = (Inr (), t2) \<and>
    executed (t_calls t2) = executed (t_calls t1) @ did \<and> progress xs j (t_row t2) did"
proof -
  obtain t2 did where "do_next_clean_step d (if j < length xs then Some j else None) t1 = (Inr (), t2)"
    "executed (t_calls t2) = executed (t_calls t1) @ did" "progress xs j (t_row t2) did"
    using next_step[OF t1 ok] by blast
  then show ?thesis
    by (intro exI[of _ t2] exI[of _ did]) (simp add: leave_def h w run_worker_def write_exception_def)
qed

lemma progress_release [simp]: "progress xs j (release n) did = progress xs j n did"
  by (simp add: progress_def cleaned_def waiting_def release_def)

lemma continue:
  assumes row: "waiting xs k row" "node_ok row" "nd_reservation row = None"
    and ok: "\<forall>s \<in> set xs. runs_well d s"
  shows "\<exists>row1 calls. serve host d c True Q_continue_clean row = (Inr (), row1, calls) \<and>
    progress xs (Suc k) row1 (executed calls) \<and> node_ok row1 \<and> nd_reservation row1 = None"
proof -
  have r: "nd_provision_state row = Some CLEANWAIT" "nd_target_provision_state row = Some AVAILABLE" "k < length xs"
    "nd_clean_step row = Some (xs ! k)" "in_clean_steps (nd_info row) = Some (Some xs)"
    "in_clean_step_index (nd_info row) = Some (Some k)" "in_skip_current (nd_info row) = None"
    using row(1) by (auto simp: waiting_def)
  obtain t where t: "acquire host row = (Inr t, row\<lparr>nd_reservation := Some host\<rparr>)"
    "t_node t = row\<lparr>nd_reservation := Some host\<rparr>" "t_spawn t = None" "t_calls t = []" "in_state CLEANWAIT t"
    by (rule acquire_exact[OF row(2,3) r(1)])
  define idx where "idx = (if Suc k < length xs then Some (Suc k) else None)"
  have next_idx: "get_next_clean_steps d True t = (Inr idx, t)"
    using r by (auto simp: get_next_clean_steps_def with_node_def t(2) next_index_def Let_def ret_def idx_def)
  have no_abort: "abort_after (t_node t) = None"
    using ok r(3,4) by (auto simp: abort_after_def t(2) runs_well_def)
  obtain m where m: "process_event ''resume'' None False None t = (Inr (), t\<lparr>t_fsm := m,
       t_node := (t_node t)\<lparr>nd_provision_state := Some CLEANING, nd_target_provision_state := Some AVAILABLE\<rparr>,
       t_row := (t_node t)\<lparr>nd_provision_state := Some CLEANING, nd_target_provision_state := Some AVAILABLE\<rparr>\<rparr>)"
    using event_exact[OF t(5) cleaning_events(3), of None AVAILABLE False] by (auto simp: cleaning_events)
  define t1 where "t1 = t\<lparr>t_fsm := m,
       t_node := (t_node t)\<lparr>nd_provision_state := Some CLEANING, nd_target_provision_state := Some AVAILABLE\<rparr>,
       t_row := (t_node t)\<lparr>nd_provision_state := Some CLEANING, nd_target_provision_state := Some AVAILABLE\<rparr>\<rparr>"
  define t2 where "t2 = t1\<lparr>t_hook := Some H_cleaning, t_spawn := Some (W_next_clean_step idx)\<rparr>"
  have "rpc_continue_clean d t = and_then (process_event ''resume'' None False None)
      (and_then (set_spawn_error_hook H_cleaning) (spawn_after (W_next_clean_step idx))) t"
    using r no_abort next_idx
    by (simp add: rpc_continue_clean_def with_node_def Let_def t(2) manual_clean_def clean_target_def
        pop_skip_current_def bnd_def ret_def)
  also have "\<dots> = (Inr (), t2)"
    by (simp add: and_then_def bnd_def m t1_def[symmetric] set_spawn_error_hook_def spawn_after_def set_task_def t2_def)
  finally have h: "handler d c Q_continue_clean t = (Inr (), t2)" by (simp add: handler_def)
  have "task_ok t1"
    using keepsD[OF keeps_default_event in_state_task_ok[OF t(5)], of None "''resume''" False] by (simp add: m t1_def)
  then have t2: "cleaning t2" "in_clean_steps (nd_info (t_node t2)) = Some (Some xs)"
    "in_skip_current (nd_info (t_node t2)) = None" "t_spawn t2 = Some (W_next_clean_step idx)" "t_calls t2 = []"
    using r t by (auto simp: t2_def cleaning_def in_state_def task_ok_def t1_def hook_ok_def)
  obtain t3 did where t3: "leave d c True (handler d c Q_continue_clean t) = (Inr (), t3)"
    "executed (t_calls t3) = executed (t_calls t2) @ did" "progress xs (Suc k) (t_row t3) did"
    using worker_progress[OF h t2(4)[unfolded idx_def] t2(1,2,3) ok] r(3) by auto
  have sv: "serve host d c True Q_continue_clean row = (Inr (), release (t_row t3), t_calls t3)"
    by (simp add: serve_def break_lock_def t(1) t3)
  have "node_ok (release (t_row t3))" "nd_reservation (release (t_row t3)) = None"
    using serve_ok[OF row(2), of host c True Q_continue_clean] by (simp_all add: sv release_def)
  then show ?thesis using sv t3 t2(5) by simp
qed

lemma call_backs_finish:
  assumes "waiting xs k row" "node_ok row" "nd_reservation row = None"
    and ok: "\<forall>s \<in> set xs. runs_well d s" and "length xs - k \<le> m"
  shows "\<exists>row1 calls. call_backs host d c m row = (row1, calls) \<and> cleaned row1 \<and>
    executed calls = drop (Suc k) xs \<and> nd_reservation row1 = None"
  using assms
proof (induction m arbitrary: k row)
  case 0
  then show ?case by (simp add: waiting_def)
next
  case (Suc m)
  obtain row1 calls where sv: "serve host d c True Q_continue_clean row = (Inr (), row1, calls)"
    "progress xs (Suc k) row1 (executed calls)" "node_ok row1" "nd_reservation row1 = None"
    using continue[OF Suc.prems(1,2,3,4)] by blast
  have cw: "nd_provision_state row = Some CLEANWAIT" using Suc.prems(1) by (simp add: waiting_def)
  from sv(2) show ?case
    unfolding progress_def
  proof (elim disjE conjE exE)
    assume done1: "cleaned row1" "executed calls = drop (Suc k) xs"
    have "call_backs host d c m row1 = (row1, [])"
      using done1(1) by (cases m) (simp_all add: cleaned_def)
    then show ?thesis using done1 cw sv by simp
  next
    fix k1 assume k1: "Suc k \<le> k1" "waiting xs k1 row1" "executed calls = drop (Suc k) (take (Suc k1) xs)"
    obtain row2 later where r2: "call_backs host d c m row1 = (row2, later)" "cleaned row2"
      "executed later = drop (Suc k1) xs" "nd_reservation row2 = None"
    proof -
      have "length xs - k1 \<le> m" using Suc.prems(5) k1(1) by linarith
      from Suc.IH[OF k1(2) sv(3,4) ok this] that show thesis by blast
    qed
    have "drop (Suc k) (take (Suc k1) xs) @ drop (Suc k1) xs = drop (Suc k) xs"
      using k1(1) by (metis append_take_drop_id drop_take le_SucI le_add_diff_inverse drop_drop add.commute take_add)
    then show ?thesis using cw sv k1(3) r2 by simp
  qed
qed

lemma collect_steps_exact:
  "\<exists>cs. collect_steps d True is t = (Inr [s \<leftarrow> concat (map steps [i \<leftarrow> is. i \<in> set (dv_interfaces d)]). enabled_step s],
     t\<lparr>t_calls := t_calls t @ cs\<rparr>) \<and> executed cs = []"
proof (induction "is" arbitrary: t)
  case Nil
  then show ?case by (intro exI[of _ "[]"]) (simp add: ret_def)
next
  case (Cons i "is")
  show ?case
  proof (cases "i \<in> set (dv_interfaces d)")
    case True
    define t1 where "t1 = t\<lparr>t_calls := t_calls t @ [C_get_clean_steps i]\<rparr>"
    have a: "asks (C_get_clean_steps i) (dv_get_clean_steps d i) t = (Inr (steps i), t1)"
      using well by (simp add: asks_def t1_def cleans_well_def)
    obtain cs where "collect_steps d True is t1 = (Inr [s \<leftarrow> concat (map steps [i \<leftarrow> is. i \<in> set (dv_interfaces d)]). enabled_step s],
       t1\<lparr>t_calls := t_calls t1 @ cs\<rparr>)" "executed cs = []"
      using Cons.IH by blast
    then show ?thesis using True
      by (intro exI[of _ "C_get_clean_steps i # cs"]) (simp add: bnd_def a ret_def t1_def)
  next
    case False
    then show ?thesis using Cons.IH[of t] by simp
  qed
qed

lemma get_cleaning_steps_exact:
  "\<exists>cs. get_cleaning_steps d c True True t = (Inr (automated_steps d c steps), t\<lparr>t_calls := t_calls t @ cs\<rparr>) \<and> executed cs = []"
  using collect_steps_exact[of "cf_interface_order c" t]
  by (auto simp: get_cleaning_steps_def bnd_def ret_def automated_steps_def)

lemma prepare:
  assumes "cleaning t"
  obtains t1 where "attempt (drives C_prepare_cleaning (dv_prepare_cleaning d)) t = (Inr (Inr None), t1)" "cleaning t1"
    "t_calls t1 = t_calls t @ [C_prepare_cleaning]" "same_cleaning (t_node t) (t_node t1)"
proof -
  define f where "f = dv_prepare_cleaning d"
  obtain r n1 row1 where f: "f (t_node t, t_row t) = (r, (n1, row1))" by (metis prod.collapse)
  have "succeeds (\<lambda>v. v = None) f" using well by (simp add: cleans_well_def f_def)
  then have r: "r = Inr None" "same_cleaning (t_node t) n1"
    using succeedsD[of _ f "t_node t" "t_row t" r n1 row1] f by blast+
  have "leaves_op f" using leaves by (simp add: f_def leaves_provisioning_def)
  then have same: "same_provisioning (t_node t) n1"
    using f unfolding leaves_op_def by (metis (mono_tags, lifting) case_prod_conv)
  define t1 where "t1 = t\<lparr>t_node := n1, t_row := row1, t_calls := t_calls t @ [C_prepare_cleaning]\<rparr>"
  have drv: "drives C_prepare_cleaning f t = (Inr None, t1)" by (simp add: drives_def f t1_def r)
  have "task_ok (snd (drives C_prepare_cleaning f t))"
    unfolding f_def by (rule keepsD[OF ops(7)]) (use assms in \<open>simp add: cleaning_def in_state_def\<close>)
  then have "cleaning t1"
    using drv same assms by (simp add: cleaning_def in_state_def same_provisioning_def t1_def)
  then show thesis using that drv r by (simp add: attempt_def f_def t1_def)
qed

lemma steps_run_well: "\<forall>s \<in> set (automated_steps d c steps). runs_well d s"
  using well by (auto simp: automated_steps_def set_sort_steps cleans_well_def runs_well_def)

lemma start:
  assumes t: "cleaning t" "in_skip_current (nd_info (t_node t)) = None" and auto: "cf_automated_clean c"
  shows "\<exists>t1 did. do_node_clean d c None t = (Inr (), t1) \<and>
    executed (t_calls t1) = executed (t_calls t) @ did \<and> progress (automated_steps d c steps) 0 (t_row t1) did"
proof -
  define xs where "xs = automated_steps d c steps"
  define t0 where "t0 = t\<lparr>t_calls := t_calls t @ [C_power_validate]\<rparr>"
  have pv: "attempt (power_validate d) t = (Inr (Inr ()), t0)"
    using well by (simp add: attempt_def power_validate_def asks_def t0_def cleans_well_def)
  have "cleaning t0" using t(1) by (auto simp: t0_def cleaning_def in_state_def task_ok_def)
  then obtain t1 where t1: "attempt (drives C_prepare_cleaning (dv_prepare_cleaning d)) t0 = (Inr (Inr None), t1)"
    "cleaning t1" "t_calls t1 = t_calls t0 @ [C_prepare_cleaning]" "same_cleaning (t_node t0) (t_node t1)"
    by (rule prepare)
  obtain cs where cs: "get_cleaning_steps d c True True t1 = (Inr xs, t1\<lparr>t_calls := t_calls t1 @ cs\<rparr>)" "executed cs = []"
    using get_cleaning_steps_exact[of c t1] by (auto simp: xs_def)
  define n where "n = (t_node t1)\<lparr>nd_clean_step := None,
      nd_info := (nd_info (t_node t1))\<lparr>in_clean_steps := Some (Some xs), in_clean_step_index := Some None\<rparr>\<rparr>"
  define t2 where "t2 = t1\<lparr>t_calls := t_calls t1 @ cs, t_node := n, t_row := n\<rparr>"
  have manual: "manual_clean (t_node t1) = False" using t1(2) by (simp add: cleaning_def manual_clean_def)
  have prep: "attempt (set_node_cleaning_steps d c) t1 = (Inr (Inr ()), t2)"
    unfolding attempt_def set_node_cleaning_steps_def with_node_def manual Let_def
    by (simp add: bnd_def cs(1) and_then_def assign_def save_def t2_def n_def)
  have t2: "cleaning t2" "in_clean_steps (nd_info (t_node t2)) = Some (Some xs)" "in_skip_current (nd_info (t_node t2)) = None"
    using t1 t(2) by (auto simp: t2_def n_def cleaning_def in_state_def task_ok_def node_ok_def same_cleaning_def t0_def)
  have "do_node_clean d c None t = do_next_clean_step d (if 0 < length xs then Some 0 else None) t2"
    using auto by (cases xs) (simp_all add: do_node_clean_def prepare_and_clean_def and_then_def bnd_def pv ret_def t1(1) prep
        with_node_def t2(2))
  moreover obtain t3 did where "do_next_clean_step d (if 0 < length xs then Some 0 else None) t2 = (Inr (), t3)"
    "executed (t_calls t3) = executed (t_calls t2) @ did" "progress xs 0 (t_row t3) did"
    using next_step[OF t2, of 0] steps_run_well[of c] by (auto simp: xs_def)
  moreover have "executed (t_calls t2) = executed (t_calls t)" by (simp add: t2_def t1(3) t0_def cs(2))
  ultimately show ?thesis by (auto simp: xs_def)
qed

lemma provide:
  assumes row: "node_ok row" "nd_reservation row = None" "nd_provision_state row = Some MANAGEABLE"
    and skip: "in_skip_current (nd_info row) = None" and auto: "cf_automated_clean c"
  shows "\<exists>row1 calls. serve host d c True (Q_action ''provide'') row = (Inr (), row1, calls) \<and>
    progress (automated_steps d c steps) 0 row1 (executed calls) \<and> node_ok row1 \<and> nd_reservation row1 = None"
proof -
  obtain t where t: "acquire host row = (Inr t, row\<lparr>nd_reservation := Some host\<rparr>)"
    "t_node t = row\<lparr>nd_reservation := Some host\<rparr>" "t_spawn t = None" "t_calls t = []" "in_state MANAGEABLE t"
    by (rule acquire_exact[OF row])
  obtain t1 where t1: "process_event ''provide'' (Some (W_node_clean None)) True None t = (Inr (), t1)"
    "t_calls t1 = []" "t_spawn t1 = Some (W_node_clean None)"
    "nd_provision_state (t_node t1) = Some CLEANING" "nd_target_provision_state (t_node t1) = Some AVAILABLE"
    "nd_info (t_node t1) = nd_info row"
    using event_exact[OF t(5) cleaning_events(4), of "Some (W_node_clean None)" AVAILABLE True] t(2,4)
    by (auto simp: cleaning_events)
  have h: "handler d c (Q_action ''provide'') t = (Inr (), t1)"
    using t1(1) row(3) by (simp add: handler_def rpc_provisioning_action_def with_node_def t(2))
  have "task_ok t1" using handler_ok[OF in_state_task_ok[OF t(5)], of c "Q_action ''provide''"] h by simp
  then have "cleaning t1" using t1 by (simp add: cleaning_def in_state_def)
  then obtain t2 did where t2: "do_node_clean d c None t1 = (Inr (), t2)"
    "executed (t_calls t2) = executed (t_calls t1) @ did" "progress (automated_steps d c steps) 0 (t_row t2) did"
    using start[OF _ _ auto, of t1] t1(6) skip by auto
  have "leave d c True (handler d c (Q_action ''provide'') t) = (Inr (), t2)"
    by (simp add: leave_def h t1(3) run_worker_def t2(1) write_exception_def)
  then have sv: "serve host d c True (Q_action ''provide'') row = (Inr (), release (t_row t2), t_calls t2)"
    by (simp add: serve_def break_lock_def t(1))
  have "node_ok (release (t_row t2))" "nd_reservation (release (t_row t2)) = None"
    using serve_ok[OF row(1), of host c True "Q_action ''provide''"] by (simp_all add: sv release_def)
  then show ?thesis using sv t2 t1(2) by simp
qed

end

interpretation fake_clean: cleaning_driver fake_driver "\<lambda>_. []"
  by unfold_locales (simp add: cleans_well_def fake_leaves_provisioning succeeds_def,
      simp add: fake_driver_def returning_def same_cleaning_def)

text \<open>Claim C7. Automated cleaning executes every enabled step of the driver exactly once and in the
  order of the priorities, however the steps suspend it: from the request that provides a node,
  through as many call backs as there are steps, to the node that is available, unlocked and has no
  step left. The node is manageable, in order (C8), unlocked and has no flag to skip the current step; automated
  cleaning is on; the request and every call back find a free worker (without one the node stays in
  \<open>cleaning\<close>); the steps and the other methods of the driver succeed, no step aborts after it ends, and they
  leave what the conductor stores on the node alone. \<open>prepare_cleaning\<close> returns nothing: where it
  returns \<open>CLEANWAIT\<close>, as for the drivers with an agent, the steps are fetched and run only after the
  heartbeat of the agent, and the claim does not speak of it.
\<close>

theorem cleaning_runs_every_step_once:
  assumes "node_ok row" and "nd_reservation row = None" and "nd_provision_state row = Some MANAGEABLE"
    and "in_skip_current (nd_info row) = None" and "cf_automated_clean c" and "cleans_well d steps"
    and "serve host d c True (Q_action ''provide'') row = (r, row1, calls)"
    and "call_backs host d c (length (automated_steps d c steps)) row1 = (row2, later)"
  shows "r = Inr () \<and> cleaned row2 \<and> nd_reservation row2 = None \<and>
    executed (calls @ later) = automated_steps d c steps \<and>
    sorted_wrt precedes (automated_steps d c steps)"
proof -
  define xs where "xs = automated_steps d c steps"
  have drv: "cleaning_driver d steps"
    using assms(6) by (simp add: cleaning_driver_def provisioning_driver_def cleaning_driver_axioms_def cleans_well_def)
  have first: "r = Inr ()" "progress xs 0 row1 (executed calls)" "node_ok row1" "nd_reservation row1 = None"
    using cleaning_driver.provide[OF drv assms(1-5), of host] assms(7) by (auto simp: xs_def)
  have well: "\<forall>s \<in> set xs. runs_well d s"
    unfolding xs_def by (rule cleaning_driver.steps_run_well[OF drv])
  from first(2) have "cleaned row2 \<and> nd_reservation row2 = None \<and> executed (calls @ later) = xs"
    unfolding progress_def
  proof (elim disjE conjE exE)
    assume ended: "cleaned row1" "executed calls = drop 0 xs"
    have "call_backs host d c m row1 = (row1, [])" for m
      using ended(1) by (cases m) (simp_all add: cleaned_def)
    then show ?thesis using assms(8) ended first(4) by simp
  next
    fix k assume k: "waiting xs k row1" "executed calls = drop 0 (take (Suc k) xs)"
    show ?thesis
      using cleaning_driver.call_backs_finish[OF drv k(1) first(3,4) well, of "length xs" host c] k(2) assms(8)
      by (auto simp: xs_def)
  qed
  then show ?thesis using first(1) by (simp add: xs_def[symmetric]) (simp add: xs_def automated_steps_def sorted_sort_steps)
qed

text \<open>A driver with steps of three interfaces, one of which waits for a call back and one is disabled.\<close>

definition demo_step :: "iface \<Rightarrow> string \<Rightarrow> int \<Rightarrow> clean_step" where
  "demo_step i name p = \<lparr>st_interface = i, st_step = name, st_priority = Some p, st_abortable = False,
     st_abort_after = False, st_args = [], st_argsinfo = []\<rparr>"

definition demo_steps :: "iface \<Rightarrow> clean_step list" where
  "demo_steps i = (case i of
     IfPower \<Rightarrow> [demo_step IfPower ''reset'' 10]
   | IfDeploy \<Rightarrow> [demo_step IfDeploy ''erase_devices'' 20, demo_step IfDeploy ''audit'' 0, demo_step IfDeploy ''wipe'' 10]
   | _ \<Rightarrow> [])"

definition demo_driver :: driver where
  "demo_driver = fake_driver\<lparr>
     dv_get_clean_steps := (\<lambda>i n. Inr (demo_steps i)),
     dv_execute_clean_step := (\<lambda>i s. returning (if st_step s = ''erase_devices'' then Some CLEANWAIT else None))\<rparr>"

lemma demo_driver_well: "cleans_well demo_driver demo_steps"
proof -
  have ret: "succeeds P (returning v)" if "P v" for P v
    using that by (simp add: succeeds_def returning_def same_cleaning_def)
  have "leaves_provisioning demo_driver"
    using fake_leaves_provisioning by (simp add: leaves_provisioning_def demo_driver_def leaves_returning)
  then show ?thesis
    by (auto simp: cleans_well_def demo_driver_def fake_driver_def demo_steps_def demo_step_def ret
        returning_def[of "()"] same_cleaning_def split: iface.splits)
qed

theorem cleaning_runs_every_step_once_witness:
  "cleaned (fst (call_backs ''host'' demo_driver demo_conf 3
     (fst (snd (serve ''host'' demo_driver demo_conf True (Q_action ''provide'') demo_node))))) \<and>
   executed (snd (snd (serve ''host'' demo_driver demo_conf True (Q_action ''provide'') demo_node)) @
     snd (call_backs ''host'' demo_driver demo_conf 3
       (fst (snd (serve ''host'' demo_driver demo_conf True (Q_action ''provide'') demo_node))))) =
   [demo_step IfDeploy ''erase_devices'' 20, demo_step IfPower ''reset'' 10, demo_step IfDeploy ''wipe'' 10]"
proof -
  have steps: "automated_steps demo_driver demo_conf demo_steps =
    [demo_step IfDeploy ''erase_devices'' 20, demo_step IfPower ''reset'' 10, demo_step IfDeploy ''wipe'' 10]"
    by code_simp
  have len: "length (automated_steps demo_driver demo_conf demo_steps) = 3" by (simp add: steps)
  have row: "node_ok demo_node" "cf_automated_clean demo_conf" by code_simp+
  have fields: "nd_reservation demo_node = None" "nd_provision_state demo_node = Some MANAGEABLE"
    "in_skip_current (nd_info demo_node) = None" by (simp_all add: demo_node_def)
  have split: "z = (fst z, fst (snd z), snd (snd z))" for z :: "'a \<times> 'b \<times> 'c" by simp
  have split2: "z = (fst z, snd z)" for z :: "'a \<times> 'b" by simp
  from cleaning_runs_every_step_once[OF row(1) fields row(2) demo_driver_well split split2]
  show ?thesis unfolding steps[symmetric] len by blast
qed

end
