(* ===== verification/Hash_Ring.thy ===== *)
theory Hash_Ring
  imports Py_Base "HOL-Library.AList"
begin

text \<open>
  The hash ring that maps nodes to conductors (\<open>ironic/ironic/common/hash_ring.py\<close>): its
  construction, the look up of the hosts of an item, and the manager that caches the rings of the
  drivers. The digest of \<open>hashlib.md5\<close>, read as a number, is a parameter; updating a hash object
  with more data gives the digest of the concatenation. Hosts are strings.
\<close>

section \<open>Construction\<close>

datatype ring_exc = InvalidRing | RingIndexError | DriverNotFound

record hash_ring =
  hr_hosts :: "string list"
  hr_replicas :: int
  hr_host_hashes :: "(nat \<times> string) list"
  hr_partitions :: "nat list"

text \<open>The entries of a host: its key is hashed once more for every partition.\<close>

definition host_hash :: "(string \<Rightarrow> nat) \<Rightarrow> string \<Rightarrow> nat \<Rightarrow> nat" where
  "host_hash md5 host p = md5 (concat (replicate (p + 2) host))"

definition add_host :: "(string \<Rightarrow> nat) \<Rightarrow> nat \<Rightarrow> (nat \<times> string) list \<Rightarrow> string \<Rightarrow> (nat \<times> string) list" where
  "add_host md5 ex hashes host =
     foldl (\<lambda>hs p. AList.update (host_hash md5 host p) host hs) hashes [0..<2 ^ ex]"

definition hash_ring :: "(string \<Rightarrow> nat) \<Rightarrow> nat \<Rightarrow> string list \<Rightarrow> int \<Rightarrow> hash_ring" where
  "hash_ring md5 ex hosts replicas =
     (let hashes = foldl (add_host md5 ex) [] hosts
      in \<lparr>hr_hosts = remdups hosts,
          hr_replicas = (if replicas \<le> int (length hosts) then replicas else int (length hosts)),
          hr_host_hashes = hashes,
          hr_partitions = sort (map fst hashes)\<rparr>)"

section \<open>Look up\<close>

text \<open>\<open>bisect.bisect\<close> on a sorted list: the position after the values that are not greater.\<close>

definition bisect :: "nat list \<Rightarrow> nat \<Rightarrow> nat" where
  "bisect xs x = length (takeWhile (\<lambda>y. y \<le> x) xs)"

definition get_partition :: "(string \<Rightarrow> nat) \<Rightarrow> hash_ring \<Rightarrow> string option \<Rightarrow> (ring_exc, nat) result" where
  "get_partition md5 r data =
     (case data of
        None \<Rightarrow> Inl InvalidRing
      | Some s \<Rightarrow>
          (let position = bisect (hr_partitions r) (md5 s)
           in Inr (if position < length (hr_partitions r) then position else 0)))"

definition get_host :: "hash_ring \<Rightarrow> nat \<Rightarrow> (ring_exc, string) result" where
  "get_host r p =
     (if p < length (hr_partitions r)
      then (case map_of (hr_host_hashes r) (hr_partitions r ! p) of None \<Rightarrow> Inl RingIndexError | Some h \<Rightarrow> Inr h)
      else Inl RingIndexError)"

definition next_partition :: "hash_ring \<Rightarrow> nat \<Rightarrow> nat" where
  "next_partition r p = (if Suc p \<ge> length (hr_partitions r) then 0 else Suc p)"

text \<open>The \<open>while\<close> loop; \<open>None\<close> if it does not end.\<close>

partial_function (option) probe :: "hash_ring \<Rightarrow> string list \<Rightarrow> nat \<Rightarrow> (ring_exc, nat \<times> string) result option" where
  "probe r taken p =
     (if get_host r p = Inl RingIndexError then Some (Inl RingIndexError)
      else let h = (case get_host r p of Inr h \<Rightarrow> h | Inl _ \<Rightarrow> [])
           in if h \<in> set taken then probe r taken (next_partition r p) else Some (Inr (p, h)))"

text \<open>The \<open>for\<close> loop over the replicas.\<close>

fun hosts_loop :: "hash_ring \<Rightarrow> string list \<Rightarrow> nat \<Rightarrow> nat \<Rightarrow> string list \<Rightarrow> (ring_exc, string list) result option" where
  "hosts_loop r ignore 0 p hosts = Some (Inr hosts)"
| "hosts_loop r ignore (Suc n) p hosts =
     (if length hosts + length ignore = length (hr_hosts r) then Some (Inr hosts)
      else case probe r (hosts @ ignore) p of
             None \<Rightarrow> None
           | Some (Inl e) \<Rightarrow> Some (Inl e)
           | Some (Inr (q, h)) \<Rightarrow> hosts_loop r ignore n q (hosts @ [h]))"

definition get_hosts :: "(string \<Rightarrow> nat) \<Rightarrow> hash_ring \<Rightarrow> string option \<Rightarrow> string list option \<Rightarrow>
    (ring_exc, string list) result option" where
  "get_hosts md5 r data ignore_hosts =
     (let ignore = (case ignore_hosts of None \<Rightarrow> [] | Some xs \<Rightarrow> [h \<leftarrow> remdups xs. h \<in> set (hr_hosts r)])
      in case get_partition md5 r data of
           Inl e \<Rightarrow> Some (Inl e)
         | Inr p \<Rightarrow> hosts_loop r ignore (nat (hr_replicas r)) p [])"

section \<open>The manager\<close>

text \<open>The cached rings, of all drivers, and the time of the last update.\<close>

record ring_manager =
  rm_rings :: "(string \<times> hash_ring) list option"
  rm_updated_at :: int

definition load_hash_rings :: "(string \<Rightarrow> nat) \<Rightarrow> nat \<Rightarrow> int \<Rightarrow> (string \<times> string list) list \<Rightarrow> (string \<times> hash_ring) list" where
  "load_hash_rings md5 ex replicas drivers = map (\<lambda>(d, hosts). (d, hash_ring md5 ex hosts replicas)) drivers"

definition manager_rings :: "(unit \<Rightarrow> (string \<times> hash_ring) list) \<Rightarrow> int \<Rightarrow> int \<Rightarrow> ring_manager \<Rightarrow>
    (string \<times> hash_ring) list \<times> ring_manager" where
  "manager_rings load interval now m =
     (case rm_rings m of
        Some rings \<Rightarrow>
          if rm_updated_at m \<ge> now - interval then (rings, m)
          else (load (), m\<lparr>rm_rings := Some (load ()), rm_updated_at := now\<rparr>)
      | None \<Rightarrow> (load (), m\<lparr>rm_rings := Some (load ()), rm_updated_at := now\<rparr>))"

definition manager_reset :: "ring_manager \<Rightarrow> ring_manager" where
  "manager_reset m = m\<lparr>rm_rings := None\<rparr>"

definition manager_getitem :: "(unit \<Rightarrow> (string \<times> hash_ring) list) \<Rightarrow> int \<Rightarrow> int \<Rightarrow> string \<Rightarrow> ring_manager \<Rightarrow>
    (ring_exc, hash_ring) result \<times> ring_manager" where
  "manager_getitem load interval now driver m =
     (case manager_rings load interval now m of
        (rings, m1) \<Rightarrow> ((case map_of rings driver of None \<Rightarrow> Inl DriverNotFound | Some r \<Rightarrow> Inr r), m1))"

section \<open>The ring in order\<close>

text \<open>The hosts of the partitions in the order of the ring.\<close>

definition ring_order :: "hash_ring \<Rightarrow> string list" where
  "ring_order r = map (\<lambda>k. the (map_of (hr_host_hashes r) k)) (hr_partitions r)"

definition first_occurrences :: "'a list \<Rightarrow> 'a list" where
  "first_occurrences xs = rev (remdups (rev xs))"

lemma first_occurrences_Nil [simp]: "first_occurrences [] = []"
  by (simp add: first_occurrences_def)

lemma first_occurrences_snoc:
  "first_occurrences (xs @ [y]) = (if y \<in> set xs then first_occurrences xs else first_occurrences xs @ [y])"
  by (simp add: first_occurrences_def)

lemma set_first_occurrences [simp]: "set (first_occurrences xs) = set xs"
  by (simp add: first_occurrences_def)

lemma distinct_first_occurrences [simp]: "distinct (first_occurrences xs)"
  by (simp add: first_occurrences_def)

lemma first_occurrences_append: "\<exists>zs. first_occurrences (xs @ ys) = first_occurrences xs @ zs"
proof (induction ys rule: rev_induct)
  case (snoc y ys)
  then show ?case using first_occurrences_snoc[of "xs @ ys" y] by auto
qed simp

lemma first_occurrences_known: "set ys \<subseteq> set xs \<Longrightarrow> first_occurrences (xs @ ys) = first_occurrences xs"
proof (induction ys rule: rev_induct)
  case (snoc y ys)
  then show ?case using first_occurrences_snoc[of "xs @ ys" y] by auto
qed simp

lemma first_occurrences_prefix: "take (length (first_occurrences xs)) (first_occurrences (xs @ ys)) = first_occurrences xs"
  using first_occurrences_append[of xs ys] by auto

text \<open>A ring in order: every partition has a host, the hosts of the ring are distinct, and each has a partition.\<close>

locale host_ring =
  fixes r :: hash_ring
  assumes known: "set (hr_partitions r) \<subseteq> dom (map_of (hr_host_hashes r))"
    and distinct_hosts: "distinct (hr_hosts r)"
    and all_hosts: "set (ring_order r) = set (hr_hosts r)"
begin

abbreviation "ps \<equiv> ring_order r"

lemma length_ps: "length (hr_partitions r) = length ps"
  by (simp add: ring_order_def)

lemma get_host: "p < length ps \<Longrightarrow> get_host r p = Inr (ps ! p)"
proof -
  assume p: "p < length ps"
  then have "hr_partitions r ! p \<in> set (hr_partitions r)" by (intro nth_mem) (simp add: length_ps)
  then have "hr_partitions r ! p \<in> dom (map_of (hr_host_hashes r))" using known by blast
  then show ?thesis using p by (auto simp: get_host_def ring_order_def)
qed

lemma next_partition: "p < length ps \<Longrightarrow> next_partition r p = Suc p mod length ps"
  by (cases "Suc p = length ps") (auto simp: next_partition_def length_ps)

lemma probe_finds:
  assumes "p < length ps" and "\<And>i. i < k \<Longrightarrow> ps ! ((p + i) mod length ps) \<in> set taken"
    and "ps ! ((p + k) mod length ps) \<notin> set taken"
  shows "probe r taken p = Some (Inr ((p + k) mod length ps, ps ! ((p + k) mod length ps)))"
  using assms
proof (induction k arbitrary: p)
  case 0
  then show ?case by (subst probe.simps) (simp add: get_host)
next
  case (Suc k)
  have p: "Suc p mod length ps < length ps" using Suc.prems(1) by (intro mod_less_divisor) linarith
  have eq: "(Suc p mod length ps + i) mod length ps = (p + Suc i) mod length ps" for i
    by (simp add: mod_add_left_eq)
  have "ps ! p \<in> set taken" using Suc.prems(1) Suc.prems(2)[of 0] by simp
  then have "probe r taken p = probe r taken (Suc p mod length ps)"
    using Suc.prems(1) by (subst probe.simps) (simp add: get_host next_partition)
  also have "\<dots> = Some (Inr ((Suc p mod length ps + k) mod length ps, ps ! ((Suc p mod length ps + k) mod length ps)))"
  proof (rule Suc.IH[OF p])
    show "ps ! ((Suc p mod length ps + i) mod length ps) \<in> set taken" if "i < k" for i
      unfolding eq using Suc.prems(2)[of "Suc i"] that by simp
    show "ps ! ((Suc p mod length ps + k) mod length ps) \<notin> set taken"
      unfolding eq by (rule Suc.prems(3))
  qed
  finally show ?case unfolding eq .
qed

lemma hosts_loop_takes:
  assumes p0: "p0 < length ps" and ign: "distinct ignore" "set ignore \<subseteq> set (hr_hosts r)"
    and R: "R = rotate p0 ps" and F: "F = (\<lambda>xs. first_occurrences [h \<leftarrow> xs. h \<notin> set ignore])"
    and j: "j < length ps" "j \<le> m" "m \<le> Suc j" and hosts: "hosts = F (take m R)"
  shows "hosts_loop r ignore c ((p0 + j) mod length ps) hosts = Some (Inr (take (length hosts + c) (F R)))"
  using j hosts
proof (induction c arbitrary: j m hosts)
  case 0
  have "F R = first_occurrences ([h \<leftarrow> take m R. h \<notin> set ignore] @ [h \<leftarrow> drop m R. h \<notin> set ignore])"
    unfolding F by (metis append_take_drop_id filter_append)
  then have "take (length hosts) (F R) = hosts"
    using first_occurrences_prefix by (simp add: 0(4) F)
  then show ?case by simp
next
  case (Suc c)
  have lenR: "length R = length ps" and setR: "set R = set (hr_hosts r)"
    using all_hosts by (simp_all add: R)
  have nthR: "i < length ps \<Longrightarrow> R ! i = ps ! ((p0 + i) mod length ps)" for i
    by (simp add: R nth_rotate)
  have split: "F R = first_occurrences ([h \<leftarrow> take k R. h \<notin> set ignore] @ [h \<leftarrow> drop k R. h \<notin> set ignore])" for k
    unfolding F by (metis append_take_drop_id filter_append)
  have sets: "set hosts \<subseteq> set (hr_hosts r) - set ignore" "distinct hosts"
    using setR set_take_subset[of m R] by (auto simp: Suc.prems(4) F)
  show ?case
  proof (cases "length hosts + length ignore = length (hr_hosts r)")
    case True
    have "card (set hosts \<union> set ignore) = card (set (hr_hosts r))"
      using True sets ign distinct_hosts by (subst card_Un_disjoint) (auto simp: distinct_card)
    then have "set hosts \<union> set ignore = set (hr_hosts r)"
      using sets(1) ign(2) by (intro card_subset_eq) auto
    then have "set [h \<leftarrow> drop m R. h \<notin> set ignore] \<subseteq> set [h \<leftarrow> take m R. h \<notin> set ignore]"
      using setR set_drop_subset[of m R] by (auto simp: Suc.prems(4) F)
    then have "F R = hosts"
      unfolding split[of m] by (simp add: first_occurrences_known Suc.prems(4) F)
    then show ?thesis using True by simp
  next
    case False
    have "\<exists>x \<in> set R. x \<notin> set (hosts @ ignore)"
    proof (rule ccontr)
      assume "\<not> ?thesis"
      then have "set (hr_hosts r) = set hosts \<union> set ignore" using setR sets(1) ign(2) by auto
      then have "card (set (hr_hosts r)) = card (set hosts) + card (set ignore)"
        using sets(1) by (metis List.finite_set card_Un_disjoint Diff_disjoint Int_commute Int_absorb2 disjoint_iff subsetD DiffE)
      then show False using False sets(2) ign(1) distinct_hosts by (simp add: distinct_card)
    qed
    then obtain k0 where "k0 < length ps" "R ! k0 \<notin> set (hosts @ ignore)"
      by (metis in_set_conv_nth lenR)
    define k where "k = (LEAST k. R ! k \<notin> set (hosts @ ignore))"
    have k: "R ! k \<notin> set (hosts @ ignore)" "k \<le> k0"
      unfolding k_def using \<open>R ! k0 \<notin> _\<close> by (rule LeastI, rule Least_le)
    have least: "R ! i \<in> set (hosts @ ignore)" if "i < k" for i
      using that not_less_Least unfolding k_def by blast
    have kn: "k < length ps" using k(2) \<open>k0 < length ps\<close> by simp
    have mk: "m \<le> k"
    proof (rule ccontr)
      assume "\<not> m \<le> k"
      then have "R ! k \<in> set (take m R)" using kn lenR by (metis in_set_conv_nth length_take min_less_iff_conj not_le nth_take)
      then show False using k(1) by (auto simp: Suc.prems(4) F)
    qed
    have probe: "probe r (hosts @ ignore) ((p0 + j) mod length ps) = Some (Inr ((p0 + k) mod length ps, R ! k))"
    proof -
      have eq: "((p0 + j) mod length ps + i) mod length ps = (p0 + (j + i)) mod length ps" for i
        by (simp add: mod_add_left_eq add.assoc)
      have "probe r (hosts @ ignore) ((p0 + j) mod length ps) =
          Some (Inr (((p0 + j) mod length ps + (k - j)) mod length ps, ps ! (((p0 + j) mod length ps + (k - j)) mod length ps)))"
      proof (rule probe_finds)
        show "(p0 + j) mod length ps < length ps" using kn by (intro mod_less_divisor) linarith
        show "ps ! (((p0 + j) mod length ps + i) mod length ps) \<in> set (hosts @ ignore)" if "i < k - j" for i
          unfolding eq using least[of "j + i"] nthR[of "j + i"] that kn by simp
        show "ps ! (((p0 + j) mod length ps + (k - j)) mod length ps) \<notin> set (hosts @ ignore)"
          unfolding eq using k(1) nthR[OF kn] mk Suc.prems(2) by simp
      qed
      then show ?thesis unfolding eq using mk Suc.prems(2) nthR[OF kn] by simp
    qed
    have "take (Suc k) R = take m R @ drop m (take k R) @ [R ! k]"
      using kn lenR mk by (simp add: take_Suc_conv_app_nth) (metis append_take_drop_id min.absorb1 take_take)
    moreover have "set [h \<leftarrow> drop m (take k R). h \<notin> set ignore] \<subseteq> set [h \<leftarrow> take m R. h \<notin> set ignore]"
    proof
      fix x assume "x \<in> set [h \<leftarrow> drop m (take k R). h \<notin> set ignore]"
      then have "x \<in> set (take k R)" "x \<notin> set ignore" using in_set_dropD by fastforce+
      then obtain i where "i < k" "x = R ! i" by (auto simp: in_set_conv_nth)
      then have "x \<in> set hosts" using least[of i] \<open>x \<notin> set ignore\<close> by auto
      then show "x \<in> set [h \<leftarrow> take m R. h \<notin> set ignore]" by (simp add: Suc.prems(4) F)
    qed
    moreover have "R ! k \<notin> set (take m R)" "R ! k \<notin> set ignore" using k(1) by (auto simp: Suc.prems(4) F)
    ultimately have new: "hosts @ [R ! k] = F (take (Suc k) R)"
      using first_occurrences_snoc[of "[h \<leftarrow> take m R. h \<notin> set ignore] @ [h \<leftarrow> drop m (take k R). h \<notin> set ignore]" "R ! k"]
      by (auto simp: F Suc.prems(4) first_occurrences_known)
    have "hosts_loop r ignore (Suc c) ((p0 + j) mod length ps) hosts =
        hosts_loop r ignore c ((p0 + k) mod length ps) (hosts @ [R ! k])"
      using False probe by simp
    also have "\<dots> = Some (Inr (take (length (hosts @ [R ! k]) + c) (F R)))"
      by (rule Suc.IH[OF kn _ _ new]) simp_all
    finally show ?thesis by simp
  qed
qed

text \<open>The hosts of an item: the first distinct ones that are not ignored, from the item's partition on.\<close>

lemma get_hosts_exact:
  assumes "ps \<noteq> []"
  obtains p where "p < length ps" "get_partition md5 r (Some data) = Inr p"
    "get_hosts md5 r (Some data) ig = Some (Inr (take (nat (hr_replicas r))
       (first_occurrences [h \<leftarrow> rotate p ps. h \<notin> set (case ig of None \<Rightarrow> [] | Some xs \<Rightarrow> xs)])))"
proof -
  define p where "p = (if bisect (hr_partitions r) (md5 data) < length ps then bisect (hr_partitions r) (md5 data) else 0)"
  have p: "p < length ps" "get_partition md5 r (Some data) = Inr p"
    using assms by (auto simp: p_def get_partition_def length_ps Let_def)
  define ignore where "ignore = (case ig of None \<Rightarrow> [] | Some xs \<Rightarrow> [h \<leftarrow> remdups xs. h \<in> set (hr_hosts r)])"
  have ign: "distinct ignore" "set ignore \<subseteq> set (hr_hosts r)" by (auto simp: ignore_def split: option.splits)
  have same: "[h \<leftarrow> rotate p ps. h \<notin> set ignore] = [h \<leftarrow> rotate p ps. h \<notin> set (case ig of None \<Rightarrow> [] | Some xs \<Rightarrow> xs)]"
    using all_hosts by (intro filter_cong) (auto simp: ignore_def split: option.splits)
  have "hosts_loop r ignore (nat (hr_replicas r)) ((p + 0) mod length ps) [] =
      Some (Inr (take (length ([] :: string list) + nat (hr_replicas r)) (first_occurrences [h \<leftarrow> rotate p ps. h \<notin> set ignore])))"
    by (rule hosts_loop_takes[OF p(1) ign refl, of "\<lambda>xs. first_occurrences [h \<leftarrow> xs. h \<notin> set ignore]" 0 0])
      (use p(1) in auto)
  then have "get_hosts md5 r (Some data) ig = Some (Inr (take (nat (hr_replicas r))
      (first_occurrences [h \<leftarrow> rotate p ps. h \<notin> set (case ig of None \<Rightarrow> [] | Some xs \<Rightarrow> xs)])))"
    using p same by (simp add: get_hosts_def ignore_def Let_def)
  then show thesis using that p by blast
qed

end

section \<open>Constructed rings\<close>

text \<open>No host lost all its partitions to other hosts with the same digests.\<close>

definition all_placed :: "hash_ring \<Rightarrow> bool" where
  "all_placed r \<longleftrightarrow> (\<forall>h \<in> set (hr_hosts r). h \<in> snd ` set (hr_host_hashes r))"

lemma add_host_keys:
  assumes "distinct (map fst hashes)"
  shows "distinct (map fst (add_host md5 ex hashes host))"
    and "snd ` set (add_host md5 ex hashes host) \<subseteq> insert host (snd ` set hashes)"
    and "add_host md5 ex hashes host \<noteq> []"
proof -
  define f where "f = (\<lambda>hs p. AList.update (host_hash md5 host p) host hs)"
  have step: "distinct (map fst hs) \<Longrightarrow> distinct (map fst (f hs p))" for hs p
    unfolding f_def by (rule distinct_update)
  have vals: "snd ` set (f hs p) \<subseteq> insert host (snd ` set hs)" for hs p
    unfolding f_def by (induction hs) auto
  have "distinct (map fst (foldl f hs xs)) \<and> snd ` set (foldl f hs xs) \<subseteq> insert host (snd ` set hs)"
    if "distinct (map fst hs)" for hs xs
    using that
  proof (induction xs arbitrary: hs)
    case (Cons x xs)
    have "distinct (map fst (foldl f (f hs x) xs)) \<and> snd ` set (foldl f (f hs x) xs) \<subseteq> insert host (snd ` set (f hs x))"
      by (rule Cons.IH[OF step[OF Cons.prems]])
    then show ?case unfolding foldl.simps using vals[of hs x] by blast
  qed auto
  from this[OF assms] show "distinct (map fst (add_host md5 ex hashes host))"
    "snd ` set (add_host md5 ex hashes host) \<subseteq> insert host (snd ` set hashes)"
    by (simp_all add: add_host_def f_def[symmetric])
  have ne: "AList.update k v hs \<noteq> []" for k v and hs :: "(nat \<times> string) list"
    by (cases hs) auto
  have "foldl f hs (xs @ [x]) \<noteq> []" for hs xs x by (simp add: f_def ne)
  moreover have "[0..<2 ^ ex] = [0..<2 ^ ex - 1] @ [2 ^ ex - 1 :: nat]"
    using upt_Suc_append[of 0 "2 ^ ex - 1 :: nat"] by simp
  ultimately show "add_host md5 ex hashes host \<noteq> []"
    unfolding add_host_def f_def[symmetric] by metis
qed

lemma host_hashes:
  assumes "distinct (map fst hashes)"
  shows "distinct (map fst (foldl (add_host md5 ex) hashes hosts)) \<and>
    snd ` set (foldl (add_host md5 ex) hashes hosts) \<subseteq> set hosts \<union> snd ` set hashes"
  using assms
proof (induction hosts arbitrary: hashes)
  case (Cons h hs)
  from Cons.IH[OF add_host_keys(1)[OF Cons.prems, of md5 ex h]] add_host_keys(2)[OF Cons.prems, of md5 ex h]
  show ?case unfolding foldl.simps list.set by blast
qed simp

lemma hash_ring_ring:
  assumes "all_placed (hash_ring md5 ex hosts replicas)"
  shows "host_ring (hash_ring md5 ex hosts replicas)"
proof -
  define hashes where "hashes = foldl (add_host md5 ex) [] hosts"
  have h: "distinct (map fst hashes)" "snd ` set hashes \<subseteq> set hosts"
    using host_hashes[of "[]" md5 ex hosts] by (simp_all add: hashes_def)
  have fields: "hr_host_hashes (hash_ring md5 ex hosts replicas) = hashes"
    "hr_partitions (hash_ring md5 ex hosts replicas) = sort (map fst hashes)"
    "hr_hosts (hash_ring md5 ex hosts replicas) = remdups hosts"
    by (simp_all add: hash_ring_def Let_def hashes_def)
  have "(\<lambda>k. the (map_of hashes k)) ` fst ` set hashes = snd ` set hashes"
    using h(1) by (force simp: image_image map_of_eq_Some_iff intro!: image_cong)
  then have order: "set (ring_order (hash_ring md5 ex hosts replicas)) = snd ` set hashes"
    by (simp add: ring_order_def fields)
  show ?thesis
  proof
    show "set (hr_partitions (hash_ring md5 ex hosts replicas)) \<subseteq> dom (map_of (hr_host_hashes (hash_ring md5 ex hosts replicas)))"
      by (simp add: fields dom_map_of_conv_image_fst)
    show "distinct (hr_hosts (hash_ring md5 ex hosts replicas))" by (simp add: fields)
    show "set (ring_order (hash_ring md5 ex hosts replicas)) = set (hr_hosts (hash_ring md5 ex hosts replicas))"
      using assms h(2) unfolding order by (auto simp: all_placed_def fields)
  qed
qed

text \<open>Claim C26. A look up in the ring always ends, and gives the hosts in the order of the ring from
  the partition of the item on: the first ones that differ and are not ignored. It gives as many as
  there are replicas, or all the hosts that are left if they are fewer, each once, and none that is
  to be ignored. For an empty ring it gives none. Every host must have kept a partition.
\<close>

theorem get_hosts_bounds:
  assumes "all_placed (hash_ring md5 ex hosts replicas)"
  shows "\<exists>p hs. get_hosts md5 (hash_ring md5 ex hosts replicas) (Some item) ig = Some (Inr hs) \<and>
    hs = take (nat replicas) (first_occurrences
      [h \<leftarrow> rotate p (ring_order (hash_ring md5 ex hosts replicas)). h \<notin> set (case ig of None \<Rightarrow> [] | Some xs \<Rightarrow> xs)]) \<and>
    get_partition md5 (hash_ring md5 ex hosts replicas) (Some item) = Inr p \<and>
    distinct hs \<and> set hs \<subseteq> set hosts - set (case ig of None \<Rightarrow> [] | Some xs \<Rightarrow> xs) \<and>
    length hs = min (nat replicas) (card (set hosts - set (case ig of None \<Rightarrow> [] | Some xs \<Rightarrow> xs)))"
proof -
  define r where "r = hash_ring md5 ex hosts replicas"
  define out where "out = set (case ig of None \<Rightarrow> [] | Some xs \<Rightarrow> xs)"
  have ring: "host_ring r" unfolding r_def by (rule hash_ring_ring[OF assms])
  have reps: "hr_replicas r = min replicas (int (length hosts))" "set (hr_hosts r) = set hosts"
    by (simp_all add: r_def hash_ring_def Let_def)
  have order: "set (ring_order r) = set hosts" using host_ring.all_hosts[OF ring] reps by simp
  show ?thesis
  proof (cases "hosts = []")
    case True
    then have "ring_order r = []" using order by simp
    then have p: "get_partition md5 r (Some item) = Inr 0"
      using host_ring.length_ps[OF ring] by (simp add: get_partition_def bisect_def)
    have "nat (hr_replicas r) = 0" using True reps by simp
    then have "get_hosts md5 r (Some item) ig = Some (Inr [])" using p by (simp add: get_hosts_def Let_def)
    then show ?thesis
      unfolding r_def[symmetric]
      using p True \<open>ring_order r = []\<close> by (intro exI[of _ 0] exI[of _ "[]"]) simp
  next
    case False
    then have "ring_order r \<noteq> []" using order by auto
    then obtain p where p: "get_partition md5 r (Some item) = Inr p"
      "get_hosts md5 r (Some item) ig = Some (Inr (take (nat (hr_replicas r))
         (first_occurrences [h \<leftarrow> rotate p (ring_order r). h \<notin> out])))"
      using host_ring.get_hosts_exact[OF ring, of md5 item ig] unfolding out_def by metis
    define fo where "fo = first_occurrences [h \<leftarrow> rotate p (ring_order r). h \<notin> out]"
    have set: "set fo = set hosts - out" using order by (auto simp: fo_def)
    have len: "length fo = card (set hosts - out)"
      using set distinct_card[of fo] by (simp add: fo_def)
    also have "\<dots> \<le> length hosts" by (metis Diff_subset List.finite_set card_length card_mono le_trans)
    finally have "take (nat (hr_replicas r)) fo = take (nat replicas) fo"
      using reps by (cases "replicas \<le> int (length hosts)") simp_all
    moreover have "distinct (take (nat replicas) fo)" by (simp add: fo_def)
    moreover have "set (take (nat replicas) fo) \<subseteq> set hosts - out" using set set_take_subset by metis
    ultimately show ?thesis
      using p len unfolding out_def[symmetric] r_def[symmetric]
      by (intro exI[of _ p] exI[of _ "take (nat replicas) fo"]) (simp add: fo_def[symmetric] min.commute)
  qed
qed

text \<open>A digest that looks at the length only, and a ring of three hosts, with collisions.\<close>

definition demo_md5 :: "string \<Rightarrow> nat" where
  "demo_md5 s = length s mod 17"

definition demo_ring :: hash_ring where
  "demo_ring = hash_ring demo_md5 2 [''ab'', ''rest'', ''outer''] 2"

lemma demo_ring_placed: "all_placed demo_ring"
  by code_simp

interpretation demo: host_ring demo_ring
  unfolding demo_ring_def by (rule hash_ring_ring) (rule demo_ring_placed[unfolded demo_ring_def])

theorem get_hosts_bounds_witness:
  "\<exists>hs. get_hosts demo_md5 demo_ring (Some ''node'') (Some [''rest'', ''west'']) = Some (Inr hs) \<and>
     distinct hs \<and> set hs \<subseteq> {''ab'', ''outer''} \<and> length hs = 2"
proof -
  have card: "card (set [''ab'', ''rest'', ''outer''] - set [''rest'', ''west'']) = 2" by code_simp
  have sub: "set [''ab'', ''rest'', ''outer''] - set [''rest'', ''west''] \<subseteq> {''ab'', ''outer''}" by auto
  from get_hosts_bounds[OF demo_ring_placed[unfolded demo_ring_def], of "''node''" "Some [''rest'', ''west'']"]
  show ?thesis unfolding demo_ring_def option.case card using sub by fastforce
qed

end
