(* ===== verification/Revoke_Tree.thy ===== *)
theory Revoke_Tree
  imports Py_Base "HOL-Library.AList"
begin

text \<open>
  Token revocation in Keystone (\<open>keystone/keystone/models/revoke_model.py\<close>,
  \<open>keystone/keystone/revoke/core.py\<close> and \<open>backends/sql.py\<close>): revocation events, the tree that
  indexes them, the values of a token, and the manager with its cached tree. A time is an integer
  of microseconds; where the code prints a datetime into a key the model prints the number, which
  is injective like the original.
\<close>

section \<open>Events\<close>

datatype attr =
    Trust_id | Consumer_id | Access_token_id | Audit_id | Audit_chain_id | Expires_at
  | Domain_id | Project_id | User_id | Role_id | Domain_scope_id

text \<open>\<open>_EVENT_NAMES\<close>.\<close>

definition event_names :: "attr list" where
  "event_names = [Trust_id, Consumer_id, Access_token_id, Audit_id, Audit_chain_id, Expires_at,
     Domain_id, Project_id, User_id, Role_id, Domain_scope_id]"

fun attr_name :: "attr \<Rightarrow> string" where
  "attr_name Trust_id = ''trust_id''"
| "attr_name Consumer_id = ''consumer_id''"
| "attr_name Access_token_id = ''access_token_id''"
| "attr_name Audit_id = ''audit_id''"
| "attr_name Audit_chain_id = ''audit_chain_id''"
| "attr_name Expires_at = ''expires_at''"
| "attr_name Domain_id = ''domain_id''"
| "attr_name Project_id = ''project_id''"
| "attr_name User_id = ''user_id''"
| "attr_name Role_id = ''role_id''"
| "attr_name Domain_scope_id = ''domain_scope_id''"

text \<open>The keyword arguments \<open>REVOKE_KEYS\<close> of an event, which are also the columns of its row.\<close>

record event_args =
  ea_trust_id :: "string option"
  ea_consumer_id :: "string option"
  ea_access_token_id :: "string option"
  ea_audit_id :: "string option"
  ea_audit_chain_id :: "string option"
  ea_expires_at :: "int option"
  ea_domain_id :: "string option"
  ea_project_id :: "string option"
  ea_user_id :: "string option"
  ea_role_id :: "string option"
  ea_issued_before :: "int option"
  ea_revoked_at :: "int option"

definition no_args :: event_args where
  "no_args = \<lparr>ea_trust_id = None, ea_consumer_id = None, ea_access_token_id = None, ea_audit_id = None,
     ea_audit_chain_id = None, ea_expires_at = None, ea_domain_id = None, ea_project_id = None, ea_user_id = None,
     ea_role_id = None, ea_issued_before = None, ea_revoked_at = None\<rparr>"

record revoke_event =
  ev_trust_id :: "string option"
  ev_consumer_id :: "string option"
  ev_access_token_id :: "string option"
  ev_audit_id :: "string option"
  ev_audit_chain_id :: "string option"
  ev_expires_at :: "int option"
  ev_domain_id :: "string option"
  ev_project_id :: "string option"
  ev_user_id :: "string option"
  ev_role_id :: "string option"
  ev_domain_scope_id :: "string option"
  ev_issued_before :: int
  ev_revoked_at :: int

definition trim_micros :: "int \<Rightarrow> int" where
  "trim_micros t = t - t mod 1000000"

definition truthy :: "string option \<Rightarrow> bool" where
  "truthy x \<longleftrightarrow> x \<noteq> None \<and> x \<noteq> Some []"

text \<open>\<open>RevokeEvent.__init__\<close> at the time \<open>now\<close>.\<close>

definition revoke_event :: "int \<Rightarrow> event_args \<Rightarrow> revoke_event" where
  "revoke_event now a =
     (let scoped = truthy (ea_domain_id a) \<and> ea_expires_at a \<noteq> None;
          revoked = (case ea_revoked_at a of None \<Rightarrow> trim_micros now | Some t \<Rightarrow> t)
      in \<lparr>ev_trust_id = ea_trust_id a, ev_consumer_id = ea_consumer_id a, ev_access_token_id = ea_access_token_id a,
          ev_audit_id = ea_audit_id a, ev_audit_chain_id = ea_audit_chain_id a,
          ev_expires_at = map_option trim_micros (ea_expires_at a),
          ev_domain_id = (if scoped then None else ea_domain_id a),
          ev_project_id = ea_project_id a, ev_user_id = ea_user_id a, ev_role_id = ea_role_id a,
          ev_domain_scope_id = (if scoped then ea_domain_id a else None),
          ev_issued_before = (case ea_issued_before a of None \<Rightarrow> revoked | Some t \<Rightarrow> t),
          ev_revoked_at = revoked\<rparr>)"

definition time_str :: "int \<Rightarrow> string" where
  "time_str t = str_of_int t"

text \<open>\<open>getattr(event, name)\<close>, as it is printed.\<close>

fun event_attr :: "revoke_event \<Rightarrow> attr \<Rightarrow> string option" where
  "event_attr e Trust_id = ev_trust_id e"
| "event_attr e Consumer_id = ev_consumer_id e"
| "event_attr e Access_token_id = ev_access_token_id e"
| "event_attr e Audit_id = ev_audit_id e"
| "event_attr e Audit_chain_id = ev_audit_chain_id e"
| "event_attr e Expires_at = map_option time_str (ev_expires_at e)"
| "event_attr e Domain_id = ev_domain_id e"
| "event_attr e Project_id = ev_project_id e"
| "event_attr e User_id = ev_user_id e"
| "event_attr e Role_id = ev_role_id e"
| "event_attr e Domain_scope_id = ev_domain_scope_id e"

definition tree_key :: "attr \<Rightarrow> string \<Rightarrow> string" where
  "tree_key a v = attr_name a @ ''='' @ v"

definition key_for_name :: "revoke_event \<Rightarrow> attr \<Rightarrow> string" where
  "key_for_name e a = tree_key a (if truthy (event_attr e a) then the (event_attr e a) else ''*'')"

definition attr_keys :: "revoke_event \<Rightarrow> string list" where
  "attr_keys e = map (key_for_name e) event_names"

section \<open>The tree\<close>

text \<open>A dictionary of the tree: its \<open>issued_before\<close>, if it has one, and the dictionaries under its other keys.\<close>

datatype rtree = RTree "int option" "(string \<times> rtree) list"

definition empty_tree :: rtree where
  "empty_tree = RTree None []"

fun is_empty_tree :: "rtree \<Rightarrow> bool" where
  "is_empty_tree (RTree ib subs) \<longleftrightarrow> ib = None \<and> subs = []"

fun add_path :: "string list \<Rightarrow> int \<Rightarrow> rtree \<Rightarrow> rtree" where
  "add_path [] t (RTree ib subs) = RTree (Some (max t (case ib of None \<Rightarrow> t | Some u \<Rightarrow> u))) subs"
| "add_path (k # ks) t (RTree ib subs) =
     RTree ib (AList.update k (add_path ks t (case map_of subs k of None \<Rightarrow> empty_tree | Some s \<Rightarrow> s)) subs)"

definition add_event :: "revoke_event \<Rightarrow> rtree \<Rightarrow> rtree" where
  "add_event e t = add_path (attr_keys e) (ev_issued_before e) t"

definition add_events :: "revoke_event list \<Rightarrow> rtree \<Rightarrow> rtree" where
  "add_events es t = foldl (\<lambda>t e. add_event e t) t es"

text \<open>The way down, and the way back up that deletes the dictionaries that are empty; \<open>KeyError\<close> at the leaf.\<close>

datatype revoke_exc = RevokeKeyError | RevokeIndexError | TokenNotFound | UnexpectedError | UnsupportedTokenVersion | Unauthorized

fun remove_path :: "string list \<Rightarrow> int \<Rightarrow> rtree \<Rightarrow> (revoke_exc, rtree) result" where
  "remove_path [] t (RTree ib subs) =
     (case ib of None \<Rightarrow> Inl RevokeKeyError | Some u \<Rightarrow> Inr (RTree (if t = u then None else ib) subs))"
| "remove_path (k # ks) t (RTree ib subs) =
     (case map_of subs k of
        None \<Rightarrow> Inr (RTree ib subs)
      | Some s \<Rightarrow> rbind (remove_path ks t s) (\<lambda>s1.
          Inr (RTree ib (if is_empty_tree s1 then AList.delete k subs else AList.update k s1 subs))))"

definition remove_event :: "revoke_event \<Rightarrow> rtree \<Rightarrow> (revoke_exc, rtree) result" where
  "remove_event e t = remove_path (attr_keys e) (ev_issued_before e) t"

section \<open>Tokens\<close>

record token_values =
  tv_trust_id :: "string option"
  tv_consumer_id :: "string option"
  tv_access_token_id :: "string option"
  tv_audit_id :: "string option"
  tv_audit_chain_id :: "string option"
  tv_expires_at :: "int option"
  tv_project_id :: "string option"
  tv_user_id :: "string option"
  tv_identity_domain_id :: "string option"
  tv_assignment_domain_id :: "string option"
  tv_trustor_id :: "string option"
  tv_trustee_id :: "string option"
  tv_roles :: "string list"
  tv_issued_at :: int

text \<open>The values of a token for an attribute, with the \<open>ALTERNATIVES\<close>; roles are a list.\<close>

fun token_alternatives :: "token_values \<Rightarrow> attr \<Rightarrow> string option list" where
  "token_alternatives k Trust_id = [tv_trust_id k]"
| "token_alternatives k Consumer_id = [tv_consumer_id k]"
| "token_alternatives k Access_token_id = [tv_access_token_id k]"
| "token_alternatives k Audit_id = [tv_audit_id k]"
| "token_alternatives k Audit_chain_id = [tv_audit_chain_id k]"
| "token_alternatives k Expires_at = [map_option time_str (tv_expires_at k)]"
| "token_alternatives k Domain_id = [tv_identity_domain_id k, tv_assignment_domain_id k]"
| "token_alternatives k Project_id = [tv_project_id k]"
| "token_alternatives k User_id = [tv_user_id k, tv_trustor_id k, tv_trustee_id k]"
| "token_alternatives k Role_id = map Some (tv_roles k)"
| "token_alternatives k Domain_scope_id = [tv_assignment_domain_id k]"

text \<open>\<open>'%s' % value\<close>.\<close>

definition printed :: "string option \<Rightarrow> string" where
  "printed v = (case v of None \<Rightarrow> ''None'' | Some s \<Rightarrow> s)"

definition next_level_keys :: "attr \<Rightarrow> token_values \<Rightarrow> string list" where
  "next_level_keys a k = ''*'' # map printed (token_alternatives k a)"

fun search :: "rtree \<Rightarrow> attr list \<Rightarrow> token_values \<Rightarrow> bool" where
  "search (RTree ib subs) [] k = (case ib of None \<Rightarrow> False | Some t \<Rightarrow> t \<ge> tv_issued_at k)"
| "search (RTree ib subs) (a # as) k =
     list_ex (\<lambda>v. case map_of subs (tree_key a v) of
         None \<Rightarrow> False | Some s \<Rightarrow> \<not> is_empty_tree s \<and> search s as k) (next_level_keys a k)"

definition is_revoked :: "rtree \<Rightarrow> token_values \<Rightarrow> bool" where
  "is_revoked t k = search t event_names k"

section \<open>The tree as a map from paths\<close>

fun lookup :: "rtree \<Rightarrow> string list \<Rightarrow> int option" where
  "lookup (RTree ib subs) [] = ib"
| "lookup (RTree ib subs) (k # ks) = (case map_of subs k of None \<Rightarrow> None | Some s \<Rightarrow> lookup s ks)"

text \<open>A tree of depth \<open>n\<close>: only the leaves have a time, and no dictionary below the root is empty.\<close>

primrec rt_inv :: "nat \<Rightarrow> rtree \<Rightarrow> bool" where
  "rt_inv 0 t \<longleftrightarrow> (case t of RTree ib subs \<Rightarrow> subs = [])"
| "rt_inv (Suc n) t \<longleftrightarrow> (case t of RTree ib subs \<Rightarrow>
     ib = None \<and> distinct (map fst subs) \<and> list_all (\<lambda>(k, s). \<not> is_empty_tree s \<and> rt_inv n s) subs)"

lemma rt_inv_empty [simp]: "rt_inv n empty_tree"
  by (cases n) (simp_all add: empty_tree_def)

lemma lookup_empty [simp]: "lookup empty_tree ks = None"
  by (cases ks) (simp_all add: empty_tree_def)

lemma rt_inv_sub:
  assumes "rt_inv (Suc n) (RTree ib subs)" and "map_of subs k = Some s"
  shows "\<not> is_empty_tree s" and "rt_inv n s"
proof -
  have "\<forall>x \<in> set subs. case x of (k, s) \<Rightarrow> \<not> is_empty_tree s \<and> rt_inv n s"
    using assms(1) by (simp add: list_all_iff)
  from bspec[OF this map_of_SomeD[OF assms(2)]] show "\<not> is_empty_tree s" and "rt_inv n s" by simp_all
qed

lemma list_all_update:
  "list_all P xs \<Longrightarrow> P (k, v) \<Longrightarrow> list_all P (AList.update k v xs)"
  by (induction xs) auto

lemma list_all_delete: "list_all P xs \<Longrightarrow> list_all P (AList.delete k xs)"
  by (induction xs) auto

lemma add_path_inv: "length ks = n \<Longrightarrow> rt_inv n t \<Longrightarrow> rt_inv n (add_path ks u t) \<and> \<not> is_empty_tree (add_path ks u t)"
proof (induction ks u t arbitrary: n rule: add_path.induct)
  case (2 k ks u ib subs)
  obtain m where m: "n = Suc m" "length ks = m" using 2(2) by auto
  have "rt_inv m (case map_of subs k of None \<Rightarrow> empty_tree | Some s \<Rightarrow> s)"
    using rt_inv_sub(2) 2(3) by (auto simp: m(1) split: option.split)
  from 2(1)[OF m(2) this] have new: "\<not> is_empty_tree s" "rt_inv m s"
    if "s = add_path ks u (case map_of subs k of None \<Rightarrow> empty_tree | Some s \<Rightarrow> s)" for s
    using that by simp_all
  have top: "ib = None" "distinct (map fst subs)" "list_all (\<lambda>(k, s). \<not> is_empty_tree s \<and> rt_inv m s) subs"
    using 2(3) by (simp_all add: m(1))
  have ne: "AList.update k v subs \<noteq> []" for v by (cases subs) auto
  show ?case
    using top(1) ne distinct_update[OF top(2)] list_all_update[OF top(3)] new[OF refl] by (simp add: m(1))
qed (cases n; simp)

lemma lookup_add_path:
  "length ks = length js \<Longrightarrow> lookup (add_path ks u t) js =
     (if js = ks then Some (max u (case lookup t ks of None \<Rightarrow> u | Some v \<Rightarrow> v)) else lookup t js)"
proof (induction ks u t arbitrary: js rule: add_path.induct)
  case (2 k ks u ib subs)
  obtain j js' where js: "js = j # js'" "length ks = length js'" using 2(2) by (cases js) auto
  show ?case using 2(1)[OF js(2)] by (auto simp: js(1) update_conv' split: option.splits)
qed simp

lemma remove_path_ok:
  "length ks = n \<Longrightarrow> rt_inv n t \<Longrightarrow> ks \<noteq> [] \<or> \<not> is_empty_tree t \<Longrightarrow>
   \<exists>s. remove_path ks u t = Inr s \<and> rt_inv n s \<and>
     (\<forall>js. length js = n \<longrightarrow> lookup s js = (if js = ks \<and> lookup t ks = Some u then None else lookup t js))"
proof (induction ks u t arbitrary: n rule: remove_path.induct)
  case (1 u ib subs)
  then show ?case by (cases ib) auto
next
  case (2 k ks u ib subs)
  obtain m where m: "n = Suc m" "length ks = m" using 2(2) by auto
  show ?case
  proof (cases "map_of subs k")
    case None
    then show ?thesis using 2(3) by auto
  next
    case (Some s)
    note sub = rt_inv_sub[OF 2(3)[unfolded m(1)] Some]
    obtain s1 where s1: "remove_path ks u s = Inr s1" "rt_inv m s1"
      "\<And>js. length js = m \<Longrightarrow> lookup s1 js = (if js = ks \<and> lookup s ks = Some u then None else lookup s js)"
      using 2(1)[OF Some m(2) sub(2)] sub(1) by blast
    have top: "ib = None" "distinct (map fst subs)" "list_all (\<lambda>(k, s). \<not> is_empty_tree s \<and> rt_inv m s) subs"
      using 2(3) by (simp_all add: m(1))
    define subs1 where "subs1 = (if is_empty_tree s1 then AList.delete k subs else AList.update k s1 subs)"
    have res: "remove_path (k # ks) u (RTree ib subs) = Inr (RTree ib subs1)"
      by (simp add: Some s1(1) subs1_def)
    have inv: "rt_inv n (RTree ib subs1)"
      using top s1(2) by (auto simp: m(1) subs1_def distinct_update distinct_delete list_all_update list_all_delete)
    have empty: "is_empty_tree s1 \<Longrightarrow> lookup s1 js = None" for js
      by (cases s1; cases js) auto
    have "lookup (RTree ib subs1) js = (if js = k # ks \<and> lookup (RTree ib subs) (k # ks) = Some u then None else lookup (RTree ib subs) js)"
      if len: "length js = n" for js
    proof -
      obtain j js' where js: "js = j # js'" "length js' = m" using len by (cases js) (auto simp: m(1))
      show ?thesis
        using s1(3)[OF js(2)] empty[of js'] Some
        by (auto simp: js(1) subs1_def update_conv' delete_conv' split: option.splits if_splits)
    qed
    then show ?thesis using res inv by blast
  qed
qed

lemma search_lookup:
  "rt_inv (length as) t \<Longrightarrow> search t as k \<longleftrightarrow>
     (\<exists>vs u. list_all2 (\<lambda>a v. v \<in> set (next_level_keys a k)) as vs \<and>
        lookup t (map2 tree_key as vs) = Some u \<and> u \<ge> tv_issued_at k)"
proof (induction t as k rule: search.induct)
  case (1 ib subs k)
  then show ?case by (auto split: option.split)
next
  case (2 ib subs a as k)
  have inv: "rt_inv (Suc (length as)) (RTree ib subs)" using 2(2) by simp
  have sub: "\<not> is_empty_tree s \<and> rt_inv (length as) s" if "map_of subs j = Some s" for j s
    using rt_inv_sub[OF inv that] by blast
  have step: "(case map_of subs (tree_key a v) of None \<Rightarrow> False | Some s \<Rightarrow> \<not> is_empty_tree s \<and> search s as k) \<longleftrightarrow>
      (\<exists>vs u. list_all2 (\<lambda>a v. v \<in> set (next_level_keys a k)) as vs \<and>
        lookup (RTree ib subs) (tree_key a v # map2 tree_key as vs) = Some u \<and> u \<ge> tv_issued_at k)"
    if "v \<in> set (next_level_keys a k)" for v
    using 2(1)[OF that] sub by (cases "map_of subs (tree_key a v)") auto
  show ?case (is "?l \<longleftrightarrow> ?r")
  proof
    assume ?l
    then obtain v where v: "v \<in> set (next_level_keys a k)"
      "case map_of subs (tree_key a v) of None \<Rightarrow> False | Some s \<Rightarrow> \<not> is_empty_tree s \<and> search s as k"
      by (auto simp: list_ex_iff)
    from v(2)[unfolded step[OF v(1)]] obtain vs u where
      "list_all2 (\<lambda>a v. v \<in> set (next_level_keys a k)) as vs"
      "lookup (RTree ib subs) (tree_key a v # map2 tree_key as vs) = Some u" "u \<ge> tv_issued_at k"
      by blast
    then show ?r using v(1) by (intro exI[of _ "v # vs"] exI[of _ u]) auto
  next
    assume ?r
    then obtain v vs u where "v \<in> set (next_level_keys a k)"
      "list_all2 (\<lambda>a v. v \<in> set (next_level_keys a k)) as vs"
      "lookup (RTree ib subs) (tree_key a v # map2 tree_key as vs) = Some u" "u \<ge> tv_issued_at k"
      by (auto simp: list_all2_Cons1)
    then show ?l using step[of v] unfolding search.simps list_ex_iff by blast
  qed
qed

section \<open>An index of events\<close>

datatype 'e index_op = Index_add 'e | Index_remove 'e

fun op_event :: "'e index_op \<Rightarrow> 'e" where
  "op_event (Index_add e) = e"
| "op_event (Index_remove e) = e"

fun run_index :: "('e \<Rightarrow> 't \<Rightarrow> 't) \<Rightarrow> ('e \<Rightarrow> 't \<Rightarrow> (revoke_exc, 't) result) \<Rightarrow> 'e index_op list \<Rightarrow> 't \<Rightarrow>
    (revoke_exc, 't) result" where
  "run_index add remove [] t = Inr t"
| "run_index add remove (Index_add e # ops) t = run_index add remove ops (add e t)"
| "run_index add remove (Index_remove e # ops) t = rbind (remove e t) (run_index add remove ops)"

definition latest :: "('e \<Rightarrow> int) \<Rightarrow> 'e list \<Rightarrow> int option" where
  "latest time es = (if es = [] then None else Some (Max (set (map time es))))"

text \<open>What an index stands for: a list of events; removing takes all events with the key, if the latest has the same time.\<close>

fun live_step :: "('e \<Rightarrow> 'k) \<Rightarrow> ('e \<Rightarrow> int) \<Rightarrow> 'e list \<Rightarrow> 'e index_op \<Rightarrow> 'e list" where
  "live_step key time es (Index_add e) = es @ [e]"
| "live_step key time es (Index_remove e) =
     (if latest time [f \<leftarrow> es. key f = key e] = Some (time e) then [f \<leftarrow> es. key f \<noteq> key e] else es)"

definition live :: "('e \<Rightarrow> 'k) \<Rightarrow> ('e \<Rightarrow> int) \<Rightarrow> 'e index_op list \<Rightarrow> 'e list" where
  "live key time ops = foldl (live_step key time) [] ops"

lemma latest_snoc: "latest time (es @ [e]) = Some (case latest time es of None \<Rightarrow> time e | Some v \<Rightarrow> max (time e) v)"
proof (cases "es = []")
  case False
  then have "Max (insert (time e) (time ` set es)) = max (time e) (Max (time ` set es))"
    by (intro Max_insert) auto
  then show ?thesis using False by (simp add: latest_def)
qed (simp add: latest_def)

lemma latest_ge: "(\<exists>u. latest time es = Some u \<and> i \<le> u) \<longleftrightarrow> (\<exists>e \<in> set es. i \<le> time e)"
  by (cases "es = []") (auto simp: latest_def Max_ge_iff)

locale revocation_index =
  fixes inv :: "'t \<Rightarrow> bool" and leaf :: "'t \<Rightarrow> 'k \<Rightarrow> int option" and empty :: 't
    and add :: "'e \<Rightarrow> 't \<Rightarrow> 't" and remove :: "'e \<Rightarrow> 't \<Rightarrow> (revoke_exc, 't) result"
    and key :: "'e \<Rightarrow> 'k" and time :: "'e \<Rightarrow> int"
  assumes empty_inv: "inv empty" and empty_leaf: "leaf empty k = None"
    and add_inv: "inv t \<Longrightarrow> inv (add e t)"
    and add_leaf: "inv t \<Longrightarrow> leaf (add e t) k =
      (if k = key e then Some (case leaf t k of None \<Rightarrow> time e | Some v \<Rightarrow> max (time e) v) else leaf t k)"
    and remove_law: "inv t \<Longrightarrow> \<exists>s. remove e t = Inr s \<and> inv s \<and>
      (\<forall>k. leaf s k = (if k = key e \<and> leaf t k = Some (time e) then None else leaf t k))"
begin

definition stands_for :: "'t \<Rightarrow> 'e list \<Rightarrow> bool" where
  "stands_for t es \<longleftrightarrow> inv t \<and> (\<forall>k. leaf t k = latest time [f \<leftarrow> es. key f = k])"

lemma stands_for_empty: "stands_for empty []"
  by (simp add: stands_for_def empty_inv empty_leaf latest_def)

lemma stands_for_add: "stands_for t es \<Longrightarrow> stands_for (add e t) (es @ [e])"
  by (auto simp: stands_for_def add_inv add_leaf latest_snoc)

lemma stands_for_remove:
  assumes "stands_for t es"
  obtains s where "remove e t = Inr s" "stands_for s (live_step key time es (Index_remove e))"
proof -
  have t: "inv t" "\<And>k. leaf t k = latest time [f \<leftarrow> es. key f = k]"
    using assms by (simp_all add: stands_for_def)
  obtain s where s: "remove e t = Inr s" "inv s"
    "\<And>k. leaf s k = (if k = key e \<and> leaf t k = Some (time e) then None else leaf t k)"
    using remove_law[OF t(1)] by blast
  have "leaf s k = latest time [f \<leftarrow> live_step key time es (Index_remove e). key f = k]" for k
  proof (cases "leaf t (key e) = Some (time e)")
    case True
    have "[f \<leftarrow> [f \<leftarrow> es. key f \<noteq> key e]. key f = k] = (if k = key e then [] else [f \<leftarrow> es. key f = k])"
      by (auto intro: filter_cong)
    moreover have "live_step key time es (Index_remove e) = [f \<leftarrow> es. key f \<noteq> key e]"
      using True t(2) by simp
    ultimately show ?thesis using True t(2)[of k] by (auto simp: s(3) latest_def)
  next
    case False
    then show ?thesis using t(2) by (auto simp: s(3))
  qed
  then show thesis using that s(1,2) by (simp add: stands_for_def)
qed

lemma run_stands_for:
  "stands_for t es \<Longrightarrow> \<exists>s. run_index add remove ops t = Inr s \<and> stands_for s (foldl (live_step key time) es ops)"
proof (induction ops arbitrary: t es)
  case (Cons x ops)
  show ?case
  proof (cases x)
    case (Index_add e)
    then show ?thesis using Cons.IH[OF stands_for_add[OF Cons.prems]] by simp
  next
    case (Index_remove e)
    obtain s where "remove e t = Inr s" "stands_for s (live_step key time es (Index_remove e))"
      using stands_for_remove[OF Cons.prems] .
    then show ?thesis using Cons.IH[of s] by (simp add: Index_remove)
  qed
qed auto

lemma run_index_exact:
  obtains s where "run_index add remove ops empty = Inr s" "inv s"
    "\<And>k. leaf s k = latest time [f \<leftarrow> live key time ops. key f = k]"
  using run_stands_for[OF stands_for_empty, of ops] by (auto simp: stands_for_def live_def)

end

text \<open>The tree of revocation events is such an index.\<close>

definition leaf_time :: "rtree \<Rightarrow> string list \<Rightarrow> int option" where
  "leaf_time t ks = (if length ks = length event_names then lookup t ks else None)"

lemma length_attr_keys [simp]: "length (attr_keys e) = length event_names"
  by (simp add: attr_keys_def)

interpretation tree: revocation_index "rt_inv (length event_names)" leaf_time empty_tree add_event remove_event attr_keys ev_issued_before
proof
  show "rt_inv (length event_names) (add_event e t)" if "rt_inv (length event_names) t" for e t
    unfolding add_event_def using add_path_inv[OF length_attr_keys that] by simp
  show "leaf_time (add_event e t) k = (if k = attr_keys e
      then Some (case leaf_time t k of None \<Rightarrow> ev_issued_before e | Some v \<Rightarrow> max (ev_issued_before e) v) else leaf_time t k)"
    if "rt_inv (length event_names) t" for e t k
    by (auto simp: leaf_time_def add_event_def lookup_add_path split: option.split)
  show "\<exists>s. remove_event e t = Inr s \<and> rt_inv (length event_names) s \<and>
      (\<forall>k. leaf_time s k = (if k = attr_keys e \<and> leaf_time t k = Some (ev_issued_before e) then None else leaf_time t k))"
    if t: "rt_inv (length event_names) t" for e t
  proof -
    have "attr_keys e \<noteq> []" by (simp add: attr_keys_def event_names_def)
    then obtain s where "remove_path (attr_keys e) (ev_issued_before e) t = Inr s" "rt_inv (length event_names) s"
      "\<And>js. length js = length event_names \<Longrightarrow>
        lookup s js = (if js = attr_keys e \<and> lookup t (attr_keys e) = Some (ev_issued_before e) then None else lookup t js)"
      using remove_path_ok[OF length_attr_keys t, of e "ev_issued_before e"] by blast
    then show ?thesis by (intro exI[of _ s]) (auto simp: remove_event_def leaf_time_def)
  qed
qed (simp_all add: leaf_time_def)

section \<open>Matching events with tokens\<close>

text \<open>The check without the tree, event by event (the reference of \<open>keystone/keystone/tests/unit/test_revoke.py\<close>).\<close>

definition agrees :: "'a option \<Rightarrow> 'a option list \<Rightarrow> bool" where
  "agrees v ws \<longleftrightarrow> v = None \<or> v \<in> set ws"

definition matches :: "revoke_event \<Rightarrow> token_values \<Rightarrow> bool" where
  "matches e k \<longleftrightarrow>
     agrees (ev_user_id e) [tv_user_id k, tv_trustor_id k, tv_trustee_id k] \<and>
     agrees (ev_domain_id e) [tv_identity_domain_id k, tv_assignment_domain_id k] \<and>
     agrees (ev_domain_scope_id e) [tv_assignment_domain_id k] \<and>
     agrees (ev_project_id e) [tv_project_id k] \<and> agrees (ev_expires_at e) [tv_expires_at k] \<and>
     agrees (ev_trust_id e) [tv_trust_id k] \<and> agrees (ev_consumer_id e) [tv_consumer_id k] \<and>
     agrees (ev_access_token_id e) [tv_access_token_id k] \<and> agrees (ev_audit_id e) [tv_audit_id k] \<and>
     agrees (ev_audit_chain_id e) [tv_audit_chain_id k] \<and> agrees (ev_role_id e) (map Some (tv_roles k)) \<and>
     tv_issued_at k \<le> ev_issued_before e"

text \<open>Identifiers that the tree cannot confuse with its wildcard or with a value that is missing.\<close>

definition plain_event :: "revoke_event \<Rightarrow> bool" where
  "plain_event e \<longleftrightarrow> list_all (\<lambda>a. event_attr e a \<notin> {Some [], Some ''*'', Some ''None''}) event_names"

definition event_scope :: "revoke_event \<Rightarrow> string option list" where
  "event_scope e = map (event_attr e) event_names"

definition key_value :: "revoke_event \<Rightarrow> attr \<Rightarrow> string" where
  "key_value e a = (if truthy (event_attr e a) then the (event_attr e a) else ''*'')"

lemma tree_key_inject [simp]: "tree_key a v = tree_key a w \<longleftrightarrow> v = w"
  by (simp add: tree_key_def)

lemma attr_keys_values: "attr_keys e = map2 tree_key event_names (map (key_value e) event_names)"
  by (simp add: attr_keys_def key_for_name_def key_value_def[symmetric] zip_map2 zip_same_conv_map)

lemma map2_tree_key: "length vs = length as \<Longrightarrow> length ws = length as \<Longrightarrow>
    map2 tree_key as vs = map2 tree_key as ws \<longleftrightarrow> vs = ws"
proof (induction as arbitrary: vs ws)
  case (Cons a as)
  then show ?case by (cases vs; cases ws) auto
qed auto

lemma plain_value:
  assumes "plain_event e" and "a \<in> set event_names"
  shows "key_value e a = (case event_attr e a of None \<Rightarrow> ''*'' | Some v \<Rightarrow> v)"
    and "event_attr e a = Some v \<Longrightarrow> v \<noteq> ''*'' \<and> v \<noteq> ''None''"
  using assms by (auto simp: plain_event_def list_all_iff key_value_def truthy_def split: option.split)

lemma plain_scope:
  assumes "plain_event e" and "plain_event f"
  shows "attr_keys e = attr_keys f \<longleftrightarrow> event_scope e = event_scope f"
proof -
  have "attr_keys e = attr_keys f \<longleftrightarrow> (\<forall>a \<in> set event_names. key_value e a = key_value f a)"
    unfolding attr_keys_values by (subst map2_tree_key) auto
  also have "\<dots> \<longleftrightarrow> (\<forall>a \<in> set event_names. event_attr e a = event_attr f a)"
  proof (rule ball_cong[OF refl])
    fix a assume a: "a \<in> set event_names"
    show "key_value e a = key_value f a \<longleftrightarrow> event_attr e a = event_attr f a"
      using plain_value[OF assms(1) a] plain_value[OF assms(2) a] by (auto split: option.splits)
  qed
  finally show ?thesis by (simp add: event_scope_def)
qed

lemma plain_next_level:
  assumes "plain_event e" and "a \<in> set event_names"
  shows "key_value e a \<in> set (next_level_keys a k) \<longleftrightarrow> agrees (event_attr e a) (token_alternatives k a)"
proof (cases "event_attr e a")
  case None
  then show ?thesis by (simp add: plain_value(1)[OF assms] next_level_keys_def agrees_def)
next
  case (Some v)
  note v = plain_value(2)[OF assms Some]
  have "v = printed w \<longleftrightarrow> w = Some v" for w using v by (cases w) (auto simp: printed_def)
  then have "v \<in> printed ` set (token_alternatives k a) \<longleftrightarrow> Some v \<in> set (token_alternatives k a)"
    unfolding image_iff by metis
  then show ?thesis using v by (simp add: plain_value(1)[OF assms] Some next_level_keys_def agrees_def)
qed

lemma time_str_inject [simp]: "time_str t = time_str u \<longleftrightarrow> t = u"
  unfolding time_str_def by (metis int_of_str_str option.inject)

lemma matches_attributes:
  "matches e k \<longleftrightarrow> (\<forall>a \<in> set event_names. agrees (event_attr e a) (token_alternatives k a)) \<and> tv_issued_at k \<le> ev_issued_before e"
proof -
  have time: "agrees (map_option time_str (ev_expires_at e)) [map_option time_str (tv_expires_at k)] \<longleftrightarrow>
      agrees (ev_expires_at e) [tv_expires_at k]"
    by (cases "ev_expires_at e"; cases "tv_expires_at k") (auto simp: agrees_def)
  show ?thesis by (auto simp: event_names_def matches_def time)
qed

text \<open>What the keys of an event ask of a token.\<close>

definition covers :: "revoke_event \<Rightarrow> token_values \<Rightarrow> bool" where
  "covers e k \<longleftrightarrow> list_all (\<lambda>a. key_value e a \<in> set (next_level_keys a k)) event_names \<and>
     tv_issued_at k \<le> ev_issued_before e"

lemma plain_covers: "plain_event e \<Longrightarrow> covers e k \<longleftrightarrow> matches e k"
  unfolding matches_attributes by (simp add: covers_def list_all_iff plain_next_level del: event_attr.simps)

lemma matches_covers:
  assumes "matches e k"
  shows "covers e k"
proof -
  have "key_value e a \<in> set (next_level_keys a k)" if "a \<in> set event_names" for a
  proof -
    have "agrees (event_attr e a) (token_alternatives k a)" using assms that by (simp add: matches_attributes)
    then show ?thesis
      by (cases "event_attr e a") (force simp: agrees_def key_value_def truthy_def next_level_keys_def printed_def)+
  qed
  then show ?thesis using assms by (simp add: covers_def list_all_iff matches_attributes)
qed

lemma is_revoked_covers:
  assumes "rt_inv (length event_names) t"
    and "\<And>ks. leaf_time t ks = latest ev_issued_before [f \<leftarrow> es. attr_keys f = ks]"
  shows "is_revoked t k \<longleftrightarrow> (\<exists>e \<in> set es. covers e k)"
proof -
  define ok where "ok = (\<lambda>vs. list_all2 (\<lambda>a v. v \<in> set (next_level_keys a k)) event_names vs)"
  have path: "(\<exists>u. lookup t (map2 tree_key event_names vs) = Some u \<and> tv_issued_at k \<le> u) \<longleftrightarrow>
      (\<exists>e \<in> set es. vs = map (key_value e) event_names \<and> tv_issued_at k \<le> ev_issued_before e)" if "ok vs" for vs
  proof -
    have len: "length vs = length event_names" using that by (simp add: ok_def list_all2_lengthD)
    then have "lookup t (map2 tree_key event_names vs) = leaf_time t (map2 tree_key event_names vs)"
      by (simp add: leaf_time_def)
    moreover have "attr_keys f = map2 tree_key event_names vs \<longleftrightarrow> vs = map (key_value f) event_names" for f
      unfolding attr_keys_values using map2_tree_key[of "map (key_value f) event_names" event_names vs] len by auto
    ultimately show ?thesis by (simp add: assms(2) latest_ge) blast
  qed
  have "is_revoked t k \<longleftrightarrow> (\<exists>vs u. ok vs \<and> lookup t (map2 tree_key event_names vs) = Some u \<and> tv_issued_at k \<le> u)"
    unfolding is_revoked_def ok_def by (rule search_lookup[OF assms(1)])
  also have "\<dots> \<longleftrightarrow> (\<exists>e \<in> set es. ok (map (key_value e) event_names) \<and> tv_issued_at k \<le> ev_issued_before e)"
    using path by blast
  also have "\<dots> \<longleftrightarrow> (\<exists>e \<in> set es. covers e k)"
    by (simp add: ok_def covers_def list_all2_map2 list_all2_same list_all_iff)
  finally show ?thesis .
qed

lemma live_snoc: "live key time (ops @ [x]) = live_step key time (live key time ops) x"
  by (simp add: live_def)

lemma live_cong:
  assumes "\<forall>e \<in> op_event ` set ops. \<forall>f \<in> op_event ` set ops. key e = key f \<longleftrightarrow> key2 e = key2 f"
  shows "live key time ops = live key2 time ops \<and> set (live key time ops) \<subseteq> op_event ` set ops"
  using assms
proof (induction ops rule: rev_induct)
  case (snoc x ops)
  then have ih: "live key2 time ops = live key time ops" "set (live key time ops) \<subseteq> op_event ` set ops" by auto
  have same: "key f = key (op_event x) \<longleftrightarrow> key2 f = key2 (op_event x)" if "f \<in> set (live key time ops)" for f
    using snoc.prems ih(2) that by auto
  show ?case
  proof (cases x)
    case (Index_add e)
    then show ?thesis using ih by (auto simp: live_snoc)
  next
    case (Index_remove e)
    have "[f \<leftarrow> live key time ops. key f = key e] = [f \<leftarrow> live key time ops. key2 f = key2 e]"
      "[f \<leftarrow> live key time ops. key f \<noteq> key e] = [f \<leftarrow> live key time ops. key2 f \<noteq> key2 e]"
      using same by (auto simp: Index_remove intro: filter_cong)
    then show ?thesis using ih unfolding Index_remove by (auto simp: live_snoc)
  qed
qed (simp add: live_def)

text \<open>Claim C10. The tree refines a list of events: after any additions and removals no operation has
  failed, and a token is revoked exactly if one of the events that are left matches it attribute by
  attribute and is not older than the token. A removal takes away all events of the same scope if
  its time is the latest of theirs, and nothing otherwise. The identifiers of events are not empty,
  \<open>*\<close> or \<open>None\<close>.
\<close>

theorem revoke_tree_refines:
  assumes "list_all (\<lambda>x. plain_event (op_event x)) ops"
  shows "\<exists>t. run_index add_event remove_event ops empty_tree = Inr t \<and>
    (\<forall>k. is_revoked t k \<longleftrightarrow> list_ex (\<lambda>e. matches e k) (live event_scope ev_issued_before ops))"
proof -
  obtain t where t: "run_index add_event remove_event ops empty_tree = Inr t" "rt_inv (length event_names) t"
    "\<And>k. leaf_time t k = latest ev_issued_before [f \<leftarrow> live attr_keys ev_issued_before ops. attr_keys f = k]"
    using tree.run_index_exact[of ops] by metis
  have plain: "\<forall>e \<in> op_event ` set ops. plain_event e" using assms by (simp add: list_all_iff)
  then have eq: "live attr_keys ev_issued_before ops = live event_scope ev_issued_before ops"
    "set (live attr_keys ev_issued_before ops) \<subseteq> op_event ` set ops"
    using live_cong[of ops attr_keys event_scope ev_issued_before] plain_scope by blast+
  then have "list_all plain_event (live attr_keys ev_issued_before ops)"
    using plain by (auto simp: list_all_iff)
  then have "is_revoked t k \<longleftrightarrow> list_ex (\<lambda>e. matches e k) (live event_scope ev_issued_before ops)" for k
    using is_revoked_covers[OF t(2,3), of k] plain_covers unfolding eq(1) list_ex_iff list_all_iff by blast
  then show ?thesis using t(1) by blast
qed

definition demo_event :: "string option \<Rightarrow> string option \<Rightarrow> int \<Rightarrow> revoke_event" where
  "demo_event user project time = revoke_event time
     (no_args\<lparr>ea_user_id := user, ea_project_id := project, ea_issued_before := Some time\<rparr>)"

definition demo_ops :: "revoke_event index_op list" where
  "demo_ops = [Index_add (demo_event (Some ''ann'') None 5), Index_add (demo_event (Some ''bob'') (Some ''web'') 9),
     Index_add (demo_event (Some ''ann'') None 7), Index_remove (demo_event (Some ''ann'') None 5),
     Index_remove (demo_event (Some ''bob'') (Some ''web'') 9)]"

definition demo_token :: "string \<Rightarrow> int \<Rightarrow> token_values" where
  "demo_token user time = \<lparr>tv_trust_id = None, tv_consumer_id = None, tv_access_token_id = None, tv_audit_id = Some ''a1'',
     tv_audit_chain_id = Some ''a1'', tv_expires_at = Some 100, tv_project_id = Some ''web'', tv_user_id = Some user,
     tv_identity_domain_id = Some ''default'', tv_assignment_domain_id = Some ''default'', tv_trustor_id = None,
     tv_trustee_id = None, tv_roles = [''member''], tv_issued_at = time\<rparr>"

theorem revoke_tree_refines_witness:
  "\<exists>t. run_index add_event remove_event demo_ops empty_tree = Inr t \<and>
     is_revoked t (demo_token ''ann'' 6) \<and> \<not> is_revoked t (demo_token ''ann'' 8) \<and> \<not> is_revoked t (demo_token ''bob'' 6)"
proof -
  have plain: "list_all (\<lambda>x. plain_event (op_event x)) demo_ops" by code_simp
  have answers: "list_ex (\<lambda>e. matches e (demo_token ''ann'' 6)) (live event_scope ev_issued_before demo_ops)"
    "\<not> list_ex (\<lambda>e. matches e (demo_token ''ann'' 8)) (live event_scope ev_issued_before demo_ops)"
    "\<not> list_ex (\<lambda>e. matches e (demo_token ''bob'' 6)) (live event_scope ev_issued_before demo_ops)"
    by code_simp+
  show ?thesis using revoke_tree_refines[OF plain] answers by blast
qed

end
