(* ===== verification/Revoke_Manager.thy ===== *)
theory Revoke_Manager
  imports Revoke_Tree
begin

text \<open>
  The use of revocation events in Keystone: the calls and notifications that record them
  (\<open>keystone/keystone/revoke/core.py\<close>), the SQL driver that stores them
  (\<open>keystone/keystone/revoke/backends/sql.py\<close>), the cached tree, and the checks and revocations of
  tokens (\<open>keystone/keystone/token/provider.py\<close>, \<open>models/token_model.py\<close>). The clock is an argument of
  each operation. A key of a token is absent or has a value that is not null.
\<close>

section \<open>Recording events\<close>

datatype revoke_call =
    By_user string
  | By_expiration string int "string option" "string option"
  | By_audit_id "string option"
  | By_audit_chain_id "string option" "string option" "string option"
  | By_grant string "string option" "string option" "string option"
  | By_user_and_project string string
  | By_project_role string string
  | By_domain_role string string

definition assert_not_domain_and_project_scoped :: "string option \<Rightarrow> string option \<Rightarrow> (revoke_exc, unit) result" where
  "assert_not_domain_and_project_scoped domain project =
     (if domain \<noteq> None \<and> project \<noteq> None then Inl UnexpectedError else Inr ())"

text \<open>The arguments of the event of a call; domain before project.\<close>

fun call_event :: "revoke_call \<Rightarrow> (revoke_exc, event_args) result" where
  "call_event (By_user u) = Inr (no_args\<lparr>ea_user_id := Some u\<rparr>)"
| "call_event (By_expiration u t d p) = rbind (assert_not_domain_and_project_scoped d p) (\<lambda>_.
     Inr (no_args\<lparr>ea_user_id := Some u, ea_expires_at := Some t, ea_domain_id := d, ea_project_id := p\<rparr>))"
| "call_event (By_audit_id a) = Inr (no_args\<lparr>ea_audit_id := a\<rparr>)"
| "call_event (By_audit_chain_id a d p) = rbind (assert_not_domain_and_project_scoped d p) (\<lambda>_.
     Inr (no_args\<lparr>ea_audit_chain_id := a, ea_domain_id := d, ea_project_id := p\<rparr>))"
| "call_event (By_grant r u d p) =
     Inr (no_args\<lparr>ea_user_id := u, ea_role_id := Some r, ea_domain_id := d, ea_project_id := p\<rparr>)"
| "call_event (By_user_and_project u p) = Inr (no_args\<lparr>ea_project_id := Some p, ea_user_id := Some u\<rparr>)"
| "call_event (By_project_role p r) = Inr (no_args\<lparr>ea_project_id := Some p, ea_role_id := Some r\<rparr>)"
| "call_event (By_domain_role d r) = Inr (no_args\<lparr>ea_domain_id := Some d, ea_role_id := Some r\<rparr>)"

text \<open>Notifications of other components, and the call backs that listen to them.\<close>

datatype action = Deleted | Disabled | Internal

datatype resource_info = Resource string | Assignment string string "string option" "string option"

datatype callback = User_cb | Role_cb | Project_cb | Domain_cb | Trust_cb | Consumer_cb | Access_token_cb | Role_assignment_cb

definition listeners :: "(action \<times> string \<times> callback) list" where
  "listeners =
    [(Deleted, ''OS-TRUST:trust'', Trust_cb), (Deleted, ''OS-OAUTH1:consumer'', Consumer_cb),
     (Deleted, ''OS-OAUTH1:access_token'', Access_token_cb), (Deleted, ''role'', Role_cb), (Deleted, ''user'', User_cb),
     (Deleted, ''project'', Project_cb), (Deleted, ''role_assignment'', Role_assignment_cb),
     (Disabled, ''user'', User_cb), (Disabled, ''project'', Project_cb), (Disabled, ''domain'', Domain_cb),
     (Internal, ''invalidate_user_tokens'', User_cb)]"

text \<open>The event of a call back. Only role assignments come with a dictionary; other payloads are not sent.\<close>

fun callback_event :: "callback \<Rightarrow> resource_info \<Rightarrow> event_args option" where
  "callback_event User_cb (Resource i) = Some (no_args\<lparr>ea_user_id := Some i\<rparr>)"
| "callback_event Role_cb (Resource i) = Some (no_args\<lparr>ea_role_id := Some i\<rparr>)"
| "callback_event Project_cb (Resource i) = Some (no_args\<lparr>ea_project_id := Some i\<rparr>)"
| "callback_event Domain_cb (Resource i) = Some (no_args\<lparr>ea_domain_id := Some i\<rparr>)"
| "callback_event Trust_cb (Resource i) = Some (no_args\<lparr>ea_trust_id := Some i\<rparr>)"
| "callback_event Consumer_cb (Resource i) = Some (no_args\<lparr>ea_consumer_id := Some i\<rparr>)"
| "callback_event Access_token_cb (Resource i) = Some (no_args\<lparr>ea_access_token_id := Some i\<rparr>)"
| "callback_event Role_assignment_cb (Assignment r u d p) =
     Some (no_args\<lparr>ea_user_id := Some u, ea_role_id := Some r, ea_domain_id := d, ea_project_id := p\<rparr>)"
| "callback_event _ _ = None"

section \<open>The SQL driver\<close>

record revoke_config =
  rc_token_expiration :: int
  rc_expiration_buffer :: int
  rc_caching :: bool

definition microseconds :: "int \<Rightarrow> int" where
  "microseconds s = s * 1000000"

definition revoked_before_cutoff_time :: "revoke_config \<Rightarrow> int \<Rightarrow> int" where
  "revoked_before_cutoff_time cfg now = now - microseconds (rc_token_expiration cfg + rc_expiration_buffer cfg)"

text \<open>The row has the columns \<open>REVOKE_KEYS\<close>, whose two times are never null.\<close>

definition event_row :: "revoke_event \<Rightarrow> event_args" where
  "event_row e = \<lparr>ea_trust_id = ev_trust_id e, ea_consumer_id = ev_consumer_id e, ea_access_token_id = ev_access_token_id e,
     ea_audit_id = ev_audit_id e, ea_audit_chain_id = ev_audit_chain_id e, ea_expires_at = ev_expires_at e,
     ea_domain_id = ev_domain_id e, ea_project_id = ev_project_id e, ea_user_id = ev_user_id e, ea_role_id = ev_role_id e,
     ea_issued_before = Some (ev_issued_before e), ea_revoked_at = Some (ev_revoked_at e)\<rparr>"

definition row_revoked_at :: "event_args \<Rightarrow> int" where
  "row_revoked_at r = (case ea_revoked_at r of None \<Rightarrow> 0 | Some t \<Rightarrow> t)"

definition prune_expired_events :: "revoke_config \<Rightarrow> int \<Rightarrow> event_args list \<Rightarrow> event_args list" where
  "prune_expired_events cfg now rows = [r \<leftarrow> rows. \<not> row_revoked_at r < revoked_before_cutoff_time cfg now]"

definition sql_revoke :: "revoke_config \<Rightarrow> int \<Rightarrow> revoke_event \<Rightarrow> event_args list \<Rightarrow> event_args list" where
  "sql_revoke cfg now e rows = prune_expired_events cfg now (rows @ [event_row e])"

definition list_events :: "int \<Rightarrow> int option \<Rightarrow> event_args list \<Rightarrow> revoke_event list" where
  "list_events now last_fetch rows =
     map (revoke_event now) [r \<leftarrow> sort_key row_revoked_at rows. case last_fetch of None \<Rightarrow> True | Some t \<Rightarrow> row_revoked_at r > t]"

section \<open>The manager\<close>

record revoke_state =
  rs_rows :: "event_args list"
  rs_cache :: "rtree option"

definition new_revoke_state :: revoke_state where
  "new_revoke_state = \<lparr>rs_rows = [], rs_cache = None\<rparr>"

text \<open>\<open>_get_revoke_tree\<close> is memoised, if caching is enabled.\<close>

definition get_revoke_tree :: "revoke_config \<Rightarrow> int \<Rightarrow> revoke_state \<Rightarrow> rtree \<times> revoke_state" where
  "get_revoke_tree cfg now st =
     (case rs_cache st of
        Some t \<Rightarrow> (t, st)
      | None \<Rightarrow>
          (let t = add_events (list_events now None (rs_rows st)) empty_tree
           in (t, if rc_caching cfg then st\<lparr>rs_cache := Some t\<rparr> else st)))"

definition check_token :: "revoke_config \<Rightarrow> int \<Rightarrow> token_values \<Rightarrow> revoke_state \<Rightarrow> (revoke_exc, unit) result \<times> revoke_state" where
  "check_token cfg now k st =
     (case get_revoke_tree cfg now st of (t, st1) \<Rightarrow> (if is_revoked t k then Inl TokenNotFound else Inr (), st1))"

definition manager_revoke :: "revoke_config \<Rightarrow> int \<Rightarrow> event_args \<Rightarrow> revoke_state \<Rightarrow> revoke_state" where
  "manager_revoke cfg now a st = st\<lparr>rs_rows := sql_revoke cfg now (revoke_event now a) (rs_rows st), rs_cache := None\<rparr>"

definition revoke_by :: "revoke_config \<Rightarrow> int \<Rightarrow> revoke_call \<Rightarrow> revoke_state \<Rightarrow> (revoke_exc, unit) result \<times> revoke_state" where
  "revoke_by cfg now c st =
     (case call_event c of Inl e \<Rightarrow> (Inl e, st) | Inr a \<Rightarrow> (Inr (), manager_revoke cfg now a st))"

definition notify :: "revoke_config \<Rightarrow> int \<Rightarrow> action \<Rightarrow> string \<Rightarrow> resource_info \<Rightarrow> revoke_state \<Rightarrow> revoke_state" where
  "notify cfg now act kind info st =
     foldl (\<lambda>st (a, t, cb). if a = act \<and> t = kind
         then (case callback_event cb info of None \<Rightarrow> st | Some e \<Rightarrow> manager_revoke cfg now e st) else st) st listeners"

section \<open>Tokens\<close>

record v3_user =
  vu_id :: string
  vu_domain :: "string option"

record v3_project =
  vp_id :: string
  vp_domain :: "string option"

record v3_trust =
  vt_id :: string
  vt_trustor :: string
  vt_trustee :: string

record v3_token =
  v3_methods :: "string list option"
  v3_expires_at :: int
  v3_issued_at :: int
  v3_audit_ids :: "string list option"
  v3_user :: "v3_user option"
  v3_project :: "v3_project option"
  v3_tenant :: "v3_project option"
  v3_domain :: "string option"
  v3_roles :: "string list option"
  v3_trust :: "v3_trust option"
  v3_oauth1 :: "(string \<times> string) option"

record v2_token =
  v2_expires :: int
  v2_issued_at :: int
  v2_audit_ids :: "string list option"
  v2_user :: "string option"
  v2_tenant :: "string option"
  v2_trust :: "v3_trust option"
  v2_roles :: "string list option"

datatype token_data = V2_access v2_token | V3_token v3_token

text \<open>\<open>get('audit_ids', [None])\<close>, first and last.\<close>

definition audit_first :: "string list option \<Rightarrow> (revoke_exc, string option) result" where
  "audit_first ids = (case ids of None \<Rightarrow> Inr None | Some [] \<Rightarrow> Inl RevokeIndexError | Some (a # _) \<Rightarrow> Inr (Some a))"

definition audit_last :: "string list option \<Rightarrow> (revoke_exc, string option) result" where
  "audit_last ids = (case ids of None \<Rightarrow> Inr None | Some [] \<Rightarrow> Inl RevokeIndexError | Some xs \<Rightarrow> Inr (Some (last xs)))"

definition build_token_values_v2 :: "v2_token \<Rightarrow> string \<Rightarrow> (revoke_exc, token_values) result" where
  "build_token_values_v2 k default_domain_id =
     rbind (audit_first (v2_audit_ids k)) (\<lambda>audit_id. rbind (audit_last (v2_audit_ids k)) (\<lambda>audit_chain_id.
       Inr \<lparr>tv_trust_id = map_option vt_id (v2_trust k), tv_consumer_id = None, tv_access_token_id = None,
         tv_audit_id = audit_id, tv_audit_chain_id = audit_chain_id,
         tv_expires_at = Some (trim_micros (v2_expires k)),
         tv_project_id = v2_tenant k, tv_user_id = v2_user k,
         tv_identity_domain_id = Some default_domain_id, tv_assignment_domain_id = Some default_domain_id,
         tv_trustor_id = map_option vt_trustor (v2_trust k), tv_trustee_id = map_option vt_trustee (v2_trust k),
         tv_roles = (case v2_roles k of None \<Rightarrow> [] | Some rs \<Rightarrow> rs), tv_issued_at = v2_issued_at k\<rparr>))"

definition build_token_values :: "v3_token \<Rightarrow> (revoke_exc, token_values) result" where
  "build_token_values k =
     rbind (audit_first (v3_audit_ids k)) (\<lambda>audit_id. rbind (audit_last (v3_audit_ids k)) (\<lambda>audit_chain_id.
       let project = (case v3_project k of None \<Rightarrow> v3_tenant k | Some p \<Rightarrow> Some p)
       in Inr \<lparr>tv_trust_id = map_option vt_id (v3_trust k),
         tv_consumer_id = map_option fst (v3_oauth1 k), tv_access_token_id = map_option snd (v3_oauth1 k),
         tv_audit_id = audit_id, tv_audit_chain_id = audit_chain_id,
         tv_expires_at = Some (trim_micros (v3_expires_at k)),
         tv_project_id = map_option vp_id project, tv_user_id = map_option vu_id (v3_user k),
         tv_identity_domain_id = (case v3_user k of None \<Rightarrow> None | Some u \<Rightarrow> vu_domain u),
         tv_assignment_domain_id = (case project of None \<Rightarrow> v3_domain k | Some p \<Rightarrow> vp_domain p),
         tv_trustor_id = map_option vt_trustor (v3_trust k), tv_trustee_id = map_option vt_trustee (v3_trust k),
         tv_roles = (case v3_roles k of None \<Rightarrow> [] | Some rs \<Rightarrow> rs), tv_issued_at = v3_issued_at k\<rparr>))"

section \<open>The provider\<close>

definition get_token_version_ok :: "token_data \<Rightarrow> bool" where
  "get_token_version_ok d = (case d of V2_access _ \<Rightarrow> True | V3_token k \<Rightarrow> v3_methods k \<noteq> None)"

definition token_values :: "string \<Rightarrow> token_data \<Rightarrow> (revoke_exc, token_values) result" where
  "token_values default_domain d =
     (case d of V2_access k \<Rightarrow> build_token_values_v2 k default_domain | V3_token k \<Rightarrow> build_token_values k)"

definition check_revocation :: "revoke_config \<Rightarrow> string \<Rightarrow> int \<Rightarrow> token_data \<Rightarrow> revoke_state \<Rightarrow> (revoke_exc, unit) result \<times> revoke_state" where
  "check_revocation cfg dd now d st =
     (if \<not> get_token_version_ok d then (Inl UnsupportedTokenVersion, st)
      else case token_values dd d of Inl e \<Rightarrow> (Inl e, st) | Inr k \<Rightarrow> check_token cfg now k st)"

definition token_expiry :: "token_data \<Rightarrow> int" where
  "token_expiry d = (case d of V2_access k \<Rightarrow> v2_expires k | V3_token k \<Rightarrow> v3_expires_at k)"

definition is_valid_token :: "revoke_config \<Rightarrow> string \<Rightarrow> int \<Rightarrow> token_data \<Rightarrow> revoke_state \<Rightarrow> (revoke_exc, unit) result \<times> revoke_state" where
  "is_valid_token cfg dd now d st =
     (if now < token_expiry d then check_revocation cfg dd now d st else (Inl TokenNotFound, st))"

definition token_belongs_to :: "token_data \<Rightarrow> string option \<Rightarrow> (revoke_exc, unit) result" where
  "token_belongs_to d belongs_to =
     (if \<not> truthy belongs_to then Inr ()
      else case d of
        V3_token _ \<Rightarrow> Inl RevokeKeyError
      | V2_access k \<Rightarrow> if v2_tenant k = None \<or> v2_tenant k \<noteq> belongs_to then Inl Unauthorized else Inr ())"

text \<open>
  What the driver and the persistence know of a token id is a parameter. \<open>_validate_token\<close> asks the
  driver for a persistent V2 token outside its \<open>try\<close>, and passes on what that raises; every other
  \<open>Unauthorized\<close> becomes \<open>TokenNotFound\<close>. \<open>validate_v3_token\<close> has all of it inside the \<open>try\<close>.
\<close>

datatype source_exc = In_try revoke_exc | From_v2_driver revoke_exc

type_synonym token_source = "string \<Rightarrow> (source_exc, token_data) result"

definition hide_unauthorized :: "revoke_exc \<Rightarrow> revoke_exc" where
  "hide_unauthorized e = (if e = Unauthorized then TokenNotFound else e)"

definition fetch_token :: "token_source \<Rightarrow> string \<Rightarrow> (revoke_exc, token_data) result" where
  "fetch_token tokens i =
     (if i = [] then Inl TokenNotFound
      else case tokens i of
        Inl (In_try e) \<Rightarrow> Inl (hide_unauthorized e)
      | Inl (From_v2_driver e) \<Rightarrow> Inl e
      | Inr d \<Rightarrow> Inr d)"

definition validate_token :: "revoke_config \<Rightarrow> string \<Rightarrow> token_source \<Rightarrow> int \<Rightarrow> string \<Rightarrow> string option \<Rightarrow> revoke_state \<Rightarrow>
    (revoke_exc, token_data) result \<times> revoke_state" where
  "validate_token cfg dd tokens now i belongs_to st =
     (case fetch_token tokens i of
        Inl e \<Rightarrow> (Inl e, st)
      | Inr d \<Rightarrow>
          (case token_belongs_to d belongs_to of
             Inl e \<Rightarrow> (Inl e, st)
           | Inr _ \<Rightarrow>
               (case is_valid_token cfg dd now d st of (Inl e, st1) \<Rightarrow> (Inl e, st1) | (Inr _, st1) \<Rightarrow> (Inr d, st1))))"

definition validate_v3_token :: "revoke_config \<Rightarrow> string \<Rightarrow> token_source \<Rightarrow> int \<Rightarrow> string \<Rightarrow> revoke_state \<Rightarrow>
    (revoke_exc, token_data) result \<times> revoke_state" where
  "validate_v3_token cfg dd tokens now i st =
     (case fetch_token tokens i of
        Inl e \<Rightarrow> (Inl (hide_unauthorized e), st)
      | Inr d \<Rightarrow>
          (case is_valid_token cfg dd now d st of (Inl e, st1) \<Rightarrow> (Inl (hide_unauthorized e), st1) | (Inr _, st1) \<Rightarrow> (Inr d, st1)))"

text \<open>\<open>KeystoneToken\<close>: the properties that a revocation reads.\<close>

record keystone_token =
  kt_user_id :: string
  kt_expires :: int
  kt_audit_id :: "string option"
  kt_audit_chain_id :: "string option"
  kt_project_id :: "string option"
  kt_domain_id :: "string option"

definition keystone_token :: "token_data \<Rightarrow> (revoke_exc, keystone_token) result" where
  "keystone_token d =
     (case d of
        V3_token k \<Rightarrow>
          (if v3_methods k = None then Inl UnsupportedTokenVersion
           else if v3_project k \<noteq> None \<and> v3_domain k \<noteq> None then Inl UnexpectedError
           else case v3_user k of
             None \<Rightarrow> Inl RevokeKeyError
           | Some u \<Rightarrow> rbind (audit_first (v3_audit_ids k)) (\<lambda>a. rbind (audit_last (v3_audit_ids k)) (\<lambda>c.
               Inr \<lparr>kt_user_id = vu_id u, kt_expires = v3_expires_at k, kt_audit_id = a, kt_audit_chain_id = c,
                 kt_project_id = map_option vp_id (v3_project k), kt_domain_id = v3_domain k\<rparr>)))
      | V2_access k \<Rightarrow>
          (case v2_user k of
             None \<Rightarrow> Inl RevokeKeyError
           | Some u \<Rightarrow> rbind (audit_first (v2_audit_ids k)) (\<lambda>a. rbind (audit_last (v2_audit_ids k)) (\<lambda>c.
               Inr \<lparr>kt_user_id = u, kt_expires = v2_expires k, kt_audit_id = a, kt_audit_chain_id = c,
                 kt_project_id = v2_tenant k, kt_domain_id = None\<rparr>))))"

definition revocation_call :: "keystone_token \<Rightarrow> bool \<Rightarrow> revoke_call" where
  "revocation_call k revoke_chain =
     (if kt_audit_id k = None \<and> \<not> revoke_chain \<or> kt_audit_chain_id k = None \<and> revoke_chain
      then By_expiration (kt_user_id k) (kt_expires k) (kt_domain_id k) (kt_project_id k)
      else if revoke_chain then By_audit_chain_id (kt_audit_chain_id k) (kt_domain_id k) (kt_project_id k)
      else By_audit_id (kt_audit_id k))"

text \<open>Without the deletion of the persisted token that \<open>revoke_by_id\<close> adds.\<close>

definition revoke_token :: "revoke_config \<Rightarrow> string \<Rightarrow> token_source \<Rightarrow> int \<Rightarrow> string \<Rightarrow> bool \<Rightarrow> revoke_state \<Rightarrow>
    (revoke_exc, unit) result \<times> revoke_state" where
  "revoke_token cfg dd tokens now i revoke_chain st =
     (case validate_token cfg dd tokens now i None st of
        (Inl e, st1) \<Rightarrow> (Inl e, st1)
      | (Inr d, st1) \<Rightarrow>
          (case keystone_token d of
             Inl e \<Rightarrow> (Inl e, st1)
           | Inr k \<Rightarrow> revoke_by cfg now (revocation_call k revoke_chain) st1))"

section \<open>Sequences of operations\<close>

text \<open>What happens to the manager: calls, notifications, checks, and the cache forgetting the tree.\<close>

datatype manager_op =
    M_call int revoke_call
  | M_notify int action string resource_info
  | M_check int token_values
  | M_forget int

fun op_time :: "manager_op \<Rightarrow> int" where
  "op_time (M_call t _) = t"
| "op_time (M_notify t _ _ _) = t"
| "op_time (M_check t _) = t"
| "op_time (M_forget t) = t"

fun manager_step :: "revoke_config \<Rightarrow> revoke_state \<Rightarrow> manager_op \<Rightarrow> revoke_state" where
  "manager_step cfg st (M_call t c) = snd (revoke_by cfg t c st)"
| "manager_step cfg st (M_notify t a kind info) = notify cfg t a kind info st"
| "manager_step cfg st (M_check t k) = snd (check_token cfg t k st)"
| "manager_step cfg st (M_forget t) = st\<lparr>rs_cache := None\<rparr>"

definition run_manager :: "revoke_config \<Rightarrow> manager_op list \<Rightarrow> revoke_state \<Rightarrow> revoke_state" where
  "run_manager cfg ops st = foldl (manager_step cfg) st ops"

section \<open>The cached tree\<close>

definition stored_event :: "event_args \<Rightarrow> revoke_event" where
  "stored_event r = revoke_event 0 r"

definition row_ok :: "event_args \<Rightarrow> bool" where
  "row_ok r \<longleftrightarrow> ea_issued_before r \<noteq> None \<and> ea_revoked_at r \<noteq> None"

lemma row_ok_event [simp]: "row_ok (event_row e)"
  by (simp add: row_ok_def event_row_def)

lemma row_event_now: "row_ok r \<Longrightarrow> revoke_event now r = stored_event r"
  by (auto simp: row_ok_def stored_event_def revoke_event_def)

lemma list_events_stored: "\<forall>r \<in> set rows. row_ok r \<Longrightarrow> list_events now None rows = map stored_event (sort_key row_revoked_at rows)"
  by (simp add: list_events_def row_event_now)

lemma run_index_adds: "run_index add remove (map Index_add es) t = Inr (foldl (\<lambda>t e. add e t) t es)"
  by (induction es arbitrary: t) auto

lemma live_adds: "foldl (live_step key time) xs (map Index_add es) = xs @ es"
  by (induction es arbitrary: xs) auto

lemma add_events_revoked: "is_revoked (add_events es empty_tree) k \<longleftrightarrow> (\<exists>e \<in> set es. covers e k)"
proof -
  obtain t where t: "run_index add_event remove_event (map Index_add es) empty_tree = Inr t" "rt_inv (length event_names) t"
    "\<And>ks. leaf_time t ks = latest ev_issued_before [f \<leftarrow> live attr_keys ev_issued_before (map Index_add es). attr_keys f = ks]"
    using tree.run_index_exact[of "map Index_add es"] by metis
  have "t = add_events es empty_tree" using t(1) by (simp add: run_index_adds add_events_def)
  moreover have "live attr_keys ev_issued_before (map Index_add es) = es" by (simp add: live_def live_adds)
  ultimately show ?thesis using is_revoked_covers[OF t(2), of es k] t(3) by simp
qed

definition coherent :: "revoke_state \<Rightarrow> bool" where
  "coherent st \<longleftrightarrow> (\<forall>r \<in> set (rs_rows st). row_ok r) \<and>
     (\<forall>t. rs_cache st = Some t \<longrightarrow> t = add_events (map stored_event (sort_key row_revoked_at (rs_rows st))) empty_tree)"

lemma coherent_new [simp]: "coherent new_revoke_state"
  by (simp add: coherent_def new_revoke_state_def)

lemma get_revoke_tree_coherent:
  assumes "coherent st"
  shows "fst (get_revoke_tree cfg now st) = add_events (map stored_event (sort_key row_revoked_at (rs_rows st))) empty_tree"
    and "coherent (snd (get_revoke_tree cfg now st))" and "rs_rows (snd (get_revoke_tree cfg now st)) = rs_rows st"
  using assms by (auto simp: get_revoke_tree_def coherent_def list_events_stored Let_def split: option.splits)

lemma check_token_exact:
  assumes "coherent st"
  shows "fst (check_token cfg now k st) = (if \<exists>r \<in> set (rs_rows st). covers (stored_event r) k then Inl TokenNotFound else Inr ())"
    and "coherent (snd (check_token cfg now k st))" and "rs_rows (snd (check_token cfg now k st)) = rs_rows st"
  using get_revoke_tree_coherent[OF assms, of cfg now]
  by (auto simp: check_token_def add_events_revoked split: prod.split)

lemma manager_revoke_coherent: "coherent st \<Longrightarrow> coherent (manager_revoke cfg now a st)"
  by (auto simp: coherent_def manager_revoke_def sql_revoke_def prune_expired_events_def)

text \<open>A row stays until the cut off passes it.\<close>

definition kept :: "revoke_config \<Rightarrow> int \<Rightarrow> event_args \<Rightarrow> bool" where
  "kept cfg now r \<longleftrightarrow> revoked_before_cutoff_time cfg now \<le> row_revoked_at r"

lemma manager_revoke_keeps: "r \<in> set (rs_rows st) \<Longrightarrow> kept cfg now r \<Longrightarrow> r \<in> set (rs_rows (manager_revoke cfg now a st))"
  by (simp add: manager_revoke_def sql_revoke_def prune_expired_events_def kept_def)

lemma revoke_by_keeps:
  "coherent st \<Longrightarrow> coherent (snd (revoke_by cfg now c st))"
  "r \<in> set (rs_rows st) \<Longrightarrow> kept cfg now r \<Longrightarrow> r \<in> set (rs_rows (snd (revoke_by cfg now c st)))"
  by (auto simp: revoke_by_def manager_revoke_coherent manager_revoke_keeps split: sum.split)

lemma notify_invariant:
  assumes "P st" and "\<And>a st. P st \<Longrightarrow> P (manager_revoke cfg now a st)"
  shows "P (notify cfg now act kind info st)"
proof -
  have "P (foldl (\<lambda>st (a, t, cb). if a = act \<and> t = kind
         then (case callback_event cb info of None \<Rightarrow> st | Some e \<Rightarrow> manager_revoke cfg now e st) else st) st ls)" for ls
    using assms(1)
  proof (induction ls arbitrary: st)
    case (Cons l ls)
    then show ?case using assms(2) by (cases l) (auto split: option.split)
  qed simp
  then show ?thesis by (simp add: notify_def)
qed

lemma manager_step_coherent: "coherent st \<Longrightarrow> coherent (manager_step cfg st x)"
proof (cases x)
  case (M_notify t a kind info)
  assume "coherent st"
  then show ?thesis unfolding M_notify manager_step.simps by (rule notify_invariant) (rule manager_revoke_coherent)
next
  case (M_forget t)
  assume "coherent st"
  then show ?thesis by (simp add: M_forget coherent_def)
qed (simp_all add: revoke_by_keeps check_token_exact)

lemma manager_step_keeps:
  assumes "coherent st" and "r \<in> set (rs_rows st)" and "kept cfg (op_time x) r"
  shows "r \<in> set (rs_rows (manager_step cfg st x))"
proof (cases x)
  case (M_notify t a kind info)
  show ?thesis unfolding M_notify manager_step.simps
    by (rule notify_invariant[where P = "\<lambda>st. r \<in> set (rs_rows st)"]) (use assms M_notify in \<open>auto intro: manager_revoke_keeps\<close>)
qed (use assms in \<open>simp_all add: revoke_by_keeps check_token_exact\<close>)

lemma run_manager_keeps:
  assumes "coherent st"
  shows "coherent (run_manager cfg ops st)"
    and "r \<in> set (rs_rows st) \<Longrightarrow> list_all (\<lambda>x. kept cfg (op_time x) r) ops \<Longrightarrow> r \<in> set (rs_rows (run_manager cfg ops st))"
proof -
  have "coherent (run_manager cfg ops st) \<and>
      (r \<in> set (rs_rows st) \<longrightarrow> list_all (\<lambda>x. kept cfg (op_time x) r) ops \<longrightarrow> r \<in> set (rs_rows (run_manager cfg ops st)))"
    using assms
  proof (induction ops arbitrary: st)
    case (Cons x ops)
    from Cons.IH[OF manager_step_coherent[OF Cons.prems]] show ?case
      using manager_step_keeps[OF Cons.prems, of r cfg x] by (auto simp: run_manager_def)
  qed (simp add: run_manager_def)
  then show "coherent (run_manager cfg ops st)"
    and "r \<in> set (rs_rows st) \<Longrightarrow> list_all (\<lambda>x. kept cfg (op_time x) r) ops \<Longrightarrow> r \<in> set (rs_rows (run_manager cfg ops st))"
    by blast+
qed

section \<open>Revoked tokens\<close>

lemma trim_micros_alt: "trim_micros t = 1000000 * (t div 1000000)"
  unfolding trim_micros_def by (rule minus_mod_eq_mult_div)

lemma trim_micros_twice [simp]: "trim_micros (trim_micros t) = trim_micros t"
  by (simp add: trim_micros_alt)

lemma trim_micros_mono:
  assumes "t mod 1000000 = 0" and "t \<le> now"
  shows "t \<le> trim_micros now"
proof -
  have "t = trim_micros t" using assms(1) by (simp add: trim_micros_def)
  also have "\<dots> \<le> trim_micros now" using zdiv_mono1[OF assms(2), of 1000000] by (simp add: trim_micros_alt)
  finally show ?thesis .
qed

definition token_issued :: "token_data \<Rightarrow> int" where
  "token_issued d = (case d of V2_access k \<Rightarrow> v2_issued_at k | V3_token k \<Rightarrow> v3_issued_at k)"

definition one_scope_key :: "token_data \<Rightarrow> bool" where
  "one_scope_key d = (case d of V2_access k \<Rightarrow> True | V3_token k \<Rightarrow> v3_tenant k = None)"

text \<open>A token as the providers issue it: at a whole second that is over, for at most the configured lifetime.\<close>

definition issued_token :: "revoke_config \<Rightarrow> int \<Rightarrow> token_data \<Rightarrow> bool" where
  "issued_token cfg now d \<longleftrightarrow> token_issued d mod 1000000 = 0 \<and> token_issued d \<le> now \<and>
     token_expiry d \<le> token_issued d + microseconds (rc_token_expiration cfg) \<and> one_scope_key d"

lemma keystone_token_values:
  assumes "keystone_token d = Inr kt" and "token_values dd d = Inr k" and "one_scope_key d"
  shows "tv_user_id k = Some (kt_user_id kt)" and "tv_expires_at k = Some (trim_micros (kt_expires kt))"
    and "tv_audit_id k = kt_audit_id kt" and "tv_audit_chain_id k = kt_audit_chain_id kt"
    and "kt_project_id kt = Some p \<Longrightarrow> tv_project_id k = Some p"
    and "kt_domain_id kt = Some q \<Longrightarrow> tv_assignment_domain_id k = Some q \<and> kt_project_id kt = None"
    and "tv_issued_at k = token_issued d"
proof -
  show "tv_user_id k = Some (kt_user_id kt)" "tv_expires_at k = Some (trim_micros (kt_expires kt))"
    "tv_audit_id k = kt_audit_id kt" "tv_audit_chain_id k = kt_audit_chain_id kt" "tv_issued_at k = token_issued d"
    using assms by (auto simp: keystone_token_def token_values_def build_token_values_v2_def build_token_values_def token_issued_def
        Let_def rbind_eq_Inr split: token_data.splits option.splits if_splits)
  show "kt_project_id kt = Some p \<Longrightarrow> tv_project_id k = Some p"
    using assms by (auto simp: keystone_token_def token_values_def build_token_values_v2_def build_token_values_def
        Let_def rbind_eq_Inr split: token_data.splits option.splits if_splits)
  show "kt_domain_id kt = Some q \<Longrightarrow> tv_assignment_domain_id k = Some q \<and> kt_project_id kt = None"
    using assms by (auto simp: keystone_token_def token_values_def build_token_values_def one_scope_key_def
        Let_def rbind_eq_Inr split: token_data.splits option.splits if_splits)
qed

lemma agrees_None [simp]: "agrees None ws"
  by (simp add: agrees_def)

lemma agrees_member: "(\<And>x. v = Some x \<Longrightarrow> Some x \<in> set ws) \<Longrightarrow> agrees v ws"
  by (cases v) (simp_all add: agrees_def)

lemma revocation_matches:
  assumes "keystone_token d = Inr kt" and "token_values dd d = Inr k" and "one_scope_key d"
    and "call_event (revocation_call kt chain) = Inr a" and "token_issued d \<le> trim_micros now"
  shows "matches (stored_event (event_row (revoke_event now a))) k"
proof -
  note kt = keystone_token_values[OF assms(1-3)]
  note defs = matches_def stored_event_def event_row_def revoke_event_def no_args_def Let_def
  have issued: "tv_issued_at k \<le> trim_micros now" using assms(5) kt(7) by simp
  have project: "agrees (kt_project_id kt) [tv_project_id k]" using kt(5) by (intro agrees_member) simp
  have domain: "agrees (kt_domain_id kt) [tv_identity_domain_id k, tv_assignment_domain_id k]"
    using kt(6) by (intro agrees_member) simp
  have mem: "agrees (tv_audit_id k) [tv_audit_id k]" "agrees (tv_audit_chain_id k) [tv_audit_chain_id k]"
    by (simp_all add: agrees_def)
  have user: "agrees (Some (kt_user_id kt)) [tv_user_id k, tv_trustor_id k, tv_trustee_id k]"
    "agrees (Some (trim_micros (kt_expires kt))) [tv_expires_at k]"
    by (simp_all add: agrees_def kt(1,2))
  consider (expiry) "a = no_args\<lparr>ea_user_id := Some (kt_user_id kt), ea_expires_at := Some (kt_expires kt),
        ea_domain_id := kt_domain_id kt, ea_project_id := kt_project_id kt\<rparr>"
    | (chain) "a = no_args\<lparr>ea_audit_chain_id := kt_audit_chain_id kt, ea_domain_id := kt_domain_id kt, ea_project_id := kt_project_id kt\<rparr>"
    | (single) "a = no_args\<lparr>ea_audit_id := kt_audit_id kt\<rparr>"
    using assms(4) by (auto simp: revocation_call_def rbind_eq_Inr split: if_splits)
  then show ?thesis
  proof cases
    case expiry
    then show ?thesis
      using issued project domain user by (cases "kt_domain_id kt = None \<or> kt_domain_id kt = Some []") (auto simp: defs truthy_def)
  next
    case chain
    then show ?thesis using issued project domain mem by (simp add: defs kt(4)[symmetric])
  next
    case single
    then show ?thesis using issued mem by (simp add: defs kt(3)[symmetric])
  qed
qed

lemma call_event_revoked_at: "call_event c = Inr a \<Longrightarrow> ea_revoked_at a = None \<and> ea_issued_before a = None"
  by (cases c) (auto simp: no_args_def assert_not_domain_and_project_scoped_def split: if_splits)

lemma row_revoked_at_event: "ea_revoked_at a = None \<Longrightarrow> row_revoked_at (event_row (revoke_event now a)) = trim_micros now"
  by (simp add: row_revoked_at_def event_row_def revoke_event_def Let_def)

lemma is_valid_token_coherent:
  assumes "coherent st"
  shows "coherent (snd (is_valid_token cfg dd now d st))" and "rs_rows (snd (is_valid_token cfg dd now d st)) = rs_rows st"
    and "fst (is_valid_token cfg dd now d st) = Inr () \<Longrightarrow>
      now < token_expiry d \<and> get_token_version_ok d \<and> (\<exists>k. token_values dd d = Inr k)"
  by (auto simp: is_valid_token_def check_revocation_def assms check_token_exact split: sum.splits if_splits)

text \<open>A token that a row in the table matches is refused.\<close>

lemma is_valid_token_refused:
  assumes "coherent st" and "token_values dd d = Inr k" and "get_token_version_ok d"
    and "now < token_expiry d \<Longrightarrow> \<exists>r \<in> set (rs_rows st). matches (stored_event r) k"
  shows "fst (is_valid_token cfg dd now d st) = Inl TokenNotFound"
  using assms(4) matches_covers check_token_exact(1)[OF assms(1), of cfg now k]
  by (auto simp: is_valid_token_def check_revocation_def assms(2,3))

text \<open>What a revocation that succeeds has done.\<close>

lemma revoke_token_recorded:
  assumes "revoke_token cfg dd tokens now i chain st = (Inr (), st1)" and "coherent st"
    and "tokens i = Inr d" and "issued_token cfg now d" and "0 \<le> rc_expiration_buffer cfg"
  obtains r k where "r \<in> set (rs_rows st1)" "coherent st1" "token_values dd d = Inr k" "get_token_version_ok d" "i \<noteq> []"
    "matches (stored_event r) k" "\<And>t. t < token_expiry d \<Longrightarrow> kept cfg t r"
proof -
  have ne: "i \<noteq> []" using assms(1) by (auto simp: revoke_token_def validate_token_def fetch_token_def)
  then have fetch: "fetch_token tokens i = Inr d" by (simp add: fetch_token_def assms(3))
  obtain st0 where st0: "is_valid_token cfg dd now d st = (Inr (), st0)"
    using assms(1) by (auto simp: revoke_token_def validate_token_def fetch token_belongs_to_def truthy_def split: prod.splits sum.splits)
  obtain kt where kt: "keystone_token d = Inr kt" "revoke_by cfg now (revocation_call kt chain) st0 = (Inr (), st1)"
    using assms(1) by (auto simp: revoke_token_def validate_token_def fetch token_belongs_to_def truthy_def st0 split: sum.splits)
  obtain a where a: "call_event (revocation_call kt chain) = Inr a" "st1 = manager_revoke cfg now a st0"
    using kt(2) by (auto simp: revoke_by_def split: sum.splits)
  have valid: "now < token_expiry d" "get_token_version_ok d" "\<exists>k. token_values dd d = Inr k" "coherent st0"
    using is_valid_token_coherent[OF assms(2), of cfg dd now d] by (simp_all add: st0)
  then obtain k where k: "token_values dd d = Inr k" by blast
  have issued: "token_issued d \<le> trim_micros now" "one_scope_key d"
    "token_expiry d \<le> token_issued d + microseconds (rc_token_expiration cfg)"
    using assms(4) trim_micros_mono by (auto simp: issued_token_def)
  define r where "r = event_row (revoke_event now a)"
  have kept: "kept cfg t r" if "t < token_expiry d" for t
  proof -
    have "row_revoked_at r = trim_micros now"
      unfolding r_def using call_event_revoked_at[OF a(1)] by (simp add: row_revoked_at_event)
    then show ?thesis using that issued assms(5)
      by (simp add: kept_def revoked_before_cutoff_time_def microseconds_def)
  qed
  have "r \<in> set (rs_rows st1)"
    using kept[OF valid(1)] unfolding a(2) by (simp add: manager_revoke_def sql_revoke_def prune_expired_events_def kept_def r_def)
  moreover have "coherent st1" unfolding a(2) by (rule manager_revoke_coherent[OF valid(4)])
  moreover have "matches (stored_event r) k"
    unfolding r_def by (rule revocation_matches[OF kt(1) k issued(2) a(1) issued(1)])
  ultimately show thesis using that k valid(2) ne kept by blast
qed

text \<open>Claim C9. A revoked token never validates again: once \<open>revoke_token\<close> has succeeded for a token,
  with its whole chain or alone, with an audit id or by its expiry, validating it raises
  TokenNotFound at every later time, whatever events are recorded in between, whether or not the
  tree is cached and however often the cache forgets it. Either the token has expired, or its event
  is still in the table, because events outlive the tokens they revoke. The token was issued at a
  whole second, for no longer than the configured lifetime.
\<close>

theorem revoked_token_never_validates:
  assumes "tokens i = Inr d" and "issued_token cfg now d" and "0 \<le> rc_expiration_buffer cfg"
    and "revoke_token cfg dd tokens now i chain (run_manager cfg before new_revoke_state) = (Inr (), st)"
    and "list_all (\<lambda>x. op_time x \<le> later) after"
  shows "fst (validate_token cfg dd tokens later i None (run_manager cfg after st)) = Inl TokenNotFound \<and>
    fst (validate_v3_token cfg dd tokens later i (run_manager cfg after st)) = Inl TokenNotFound"
proof -
  obtain r k where r: "r \<in> set (rs_rows st)" "coherent st" "token_values dd d = Inr k" "get_token_version_ok d" "i \<noteq> []"
    "matches (stored_event r) k" "\<And>t. t < token_expiry d \<Longrightarrow> kept cfg t r"
    by (rule revoke_token_recorded[OF assms(4) run_manager_keeps(1)[OF coherent_new] assms(1-3)]) blast
  have "\<exists>r \<in> set (rs_rows (run_manager cfg after st)). matches (stored_event r) k" if "later < token_expiry d"
  proof -
    have "list_all (\<lambda>x. kept cfg (op_time x) r) after"
      using assms(5) r(7) that by (auto simp: list_all_iff)
    then show ?thesis using run_manager_keeps(2)[OF r(2,1)] r(6) by blast
  qed
  then have refused: "fst (is_valid_token cfg dd later d (run_manager cfg after st)) = Inl TokenNotFound"
    by (intro is_valid_token_refused[OF run_manager_keeps(1)[OF r(2)] r(3,4)]) blast
  then show ?thesis
    using r(5) assms(1)
    by (auto simp: validate_token_def validate_v3_token_def fetch_token_def token_belongs_to_def truthy_def hide_unauthorized_def
        split: prod.splits)
qed

definition demo_config :: revoke_config where
  "demo_config = \<lparr>rc_token_expiration = 3600, rc_expiration_buffer = 1800, rc_caching = True\<rparr>"

text \<open>A token of a domain without audit ids.\<close>

definition demo_data :: token_data where
  "demo_data = V3_token \<lparr>v3_methods = Some [''password''], v3_expires_at = microseconds 3605, v3_issued_at = microseconds 5,
     v3_audit_ids = None, v3_user = Some \<lparr>vu_id = ''ann'', vu_domain = Some ''default''\<rparr>, v3_project = None, v3_tenant = None,
     v3_domain = Some ''lab'', v3_roles = Some [''admin''], v3_trust = None, v3_oauth1 = None\<rparr>"

definition demo_source :: token_source where
  "demo_source i = (if i = ''t1'' then Inr demo_data else Inl (In_try Unauthorized))"

definition demo_before :: "manager_op list" where
  "demo_before = [M_call (microseconds 7) (By_user ''bob''), M_check (microseconds 8) (demo_token ''bob'' 5)]"

definition demo_after :: "manager_op list" where
  "demo_after = [M_check (microseconds 20) (demo_token ''bob'' 5), M_forget (microseconds 3000),
     M_notify (microseconds 3600) Deleted ''user'' (Resource ''eve'')]"

lemma demo_token_valid: "fst (is_valid_token demo_config ''default'' (microseconds 9) demo_data (run_manager demo_config demo_before new_revoke_state)) = Inr ()"
proof -
  define st where "st = run_manager demo_config demo_before new_revoke_state"
  define r where "r = event_row (revoke_event (microseconds 7) (no_args\<lparr>ea_user_id := Some ''bob''\<rparr>))"
  have co: "coherent (snd (revoke_by demo_config (microseconds 7) (By_user ''bob'') new_revoke_state))"
    by (rule revoke_by_keeps(1)[OF coherent_new])
  have rows: "rs_rows (snd (revoke_by demo_config (microseconds 7) (By_user ''bob'') new_revoke_state)) = [r]"
    by (simp add: revoke_by_def manager_revoke_def sql_revoke_def prune_expired_events_def row_revoked_at_def r_def event_row_def
        revoke_event_def no_args_def revoked_before_cutoff_time_def demo_config_def microseconds_def new_revoke_state_def trim_micros_def)
  have st: "coherent st" "rs_rows st = [r]"
    using check_token_exact(2,3)[OF co] rows by (simp_all add: st_def run_manager_def demo_before_def)
  obtain k where k: "token_values ''default'' demo_data = Inr k" "tv_user_id k = Some ''ann''" "tv_trustor_id k = None" "tv_trustee_id k = None"
    by (simp add: token_values_def demo_data_def build_token_values_def audit_first_def audit_last_def)
  have "key_value (stored_event r) User_id = ''bob''"
    by (simp add: r_def stored_event_def event_row_def revoke_event_def no_args_def key_value_def truthy_def Let_def)
  then have "\<not> covers (stored_event r) k"
    by (simp add: covers_def event_names_def next_level_keys_def k(2-4) printed_def)
  moreover have live: "microseconds 9 < token_expiry demo_data" "get_token_version_ok demo_data"
    by (simp_all add: get_token_version_ok_def token_expiry_def demo_data_def microseconds_def)
  ultimately show ?thesis unfolding st_def[symmetric]
    using check_token_exact(1)[OF st(1), of demo_config "microseconds 9" k] st(2)
    by (simp add: is_valid_token_def check_revocation_def k(1) live)
qed

definition demo_revoked :: "(revoke_exc, unit) result \<times> revoke_state" where
  "demo_revoked = revoke_token demo_config ''default'' demo_source (microseconds 9) ''t1'' False
     (run_manager demo_config demo_before new_revoke_state)"

theorem revoked_token_never_validates_witness:
  "fst demo_revoked = Inr () \<and>
   fst (validate_v3_token demo_config ''default'' demo_source (microseconds 3604) ''t1''
     (run_manager demo_config demo_after (snd demo_revoked))) = Inl TokenNotFound"
proof -
  have "keystone_token demo_data = Inr \<lparr>kt_user_id = ''ann'', kt_expires = microseconds 3605, kt_audit_id = None,
      kt_audit_chain_id = None, kt_project_id = None, kt_domain_id = Some ''lab''\<rparr>"
    by (simp add: keystone_token_def demo_data_def audit_first_def audit_last_def)
  then have revoked: "fst demo_revoked = Inr ()"
    using demo_token_valid
    by (auto simp: demo_revoked_def revoke_token_def validate_token_def fetch_token_def demo_source_def token_belongs_to_def
        truthy_def revocation_call_def revoke_by_def assert_not_domain_and_project_scoped_def split: prod.split)
  then have eq: "revoke_token demo_config ''default'' demo_source (microseconds 9) ''t1'' False
     (run_manager demo_config demo_before new_revoke_state) = (Inr (), snd demo_revoked)"
    by (simp add: demo_revoked_def prod_eq_iff)
  have "issued_token demo_config (microseconds 9) demo_data" "0 \<le> rc_expiration_buffer demo_config"
    "list_all (\<lambda>x. op_time x \<le> microseconds 3604) demo_after" "demo_source ''t1'' = Inr demo_data"
    by (simp_all add: issued_token_def demo_config_def demo_data_def demo_after_def demo_source_def token_issued_def
        token_expiry_def one_scope_key_def microseconds_def)
  from revoked_token_never_validates[OF this(4,1,2) eq this(3)] revoked show ?thesis by blast
qed

section \<open>Domain scope\<close>

text \<open>
  The table has no column for \<open>domain_scope_id\<close>, and the constructor has already moved the domain
  there: what comes back from the table revokes the tokens of the user with that expiry in every
  scope, while the event itself spares all scopes but the domain.
\<close>

lemma expiry_loses_domain_scope:
  assumes "tv_user_id k = Some u" and "tv_expires_at k = Some (trim_micros t)" and "tv_issued_at k \<le> trim_micros now"
    and "tv_assignment_domain_id k \<noteq> Some q" and "q \<noteq> []" and "0 \<le> rc_token_expiration cfg + rc_expiration_buffer cfg"
    and "now mod 1000000 = 0"
  shows "fst (check_token cfg now k (snd (revoke_by cfg now (By_expiration u t (Some q) None) new_revoke_state))) = Inl TokenNotFound"
    and "\<exists>a. call_event (By_expiration u t (Some q) None) = Inr a \<and> \<not> matches (revoke_event now a) k"
proof -
  note defs = matches_def stored_event_def event_row_def revoke_event_def no_args_def Let_def agrees_def truthy_def
  define a where "a = no_args\<lparr>ea_user_id := Some u, ea_expires_at := Some t, ea_domain_id := Some q\<rparr>"
  have call: "call_event (By_expiration u t (Some q) None) = Inr a"
    by (simp add: a_def assert_not_domain_and_project_scoped_def no_args_def)
  have row: "row_revoked_at (event_row (revoke_event now a)) = now"
    using assms(7) by (subst row_revoked_at_event) (simp_all add: a_def no_args_def trim_micros_def)
  define st where "st = snd (revoke_by cfg now (By_expiration u t (Some q) None) new_revoke_state)"
  have "coherent st" unfolding st_def by (rule revoke_by_keeps(1)[OF coherent_new])
  moreover have "event_row (revoke_event now a) \<in> set (rs_rows st)"
    using row assms(6) unfolding st_def revoke_by_def call by (simp add: manager_revoke_def sql_revoke_def prune_expired_events_def
        revoked_before_cutoff_time_def microseconds_def)
  moreover have "matches (stored_event (event_row (revoke_event now a))) k"
    using assms(1-5) by (simp add: a_def defs)
  ultimately show "fst (check_token cfg now k st) = Inl TokenNotFound"
    using check_token_exact(1) matches_covers by metis
  show "\<exists>a. call_event (By_expiration u t (Some q) None) = Inr a \<and> \<not> matches (revoke_event now a) k"
    using assms(4,5) by (intro exI[of _ a] conjI call) (simp add: a_def defs)
qed

end
