(* ===== verification/Resource_Tracker.thy ===== *)
theory Resource_Tracker
  imports Filter_Scheduler "HOL-Library.AList"
begin

text \<open>
  The resource tracker of a compute host (\<open>nova/nova/compute/resource_tracker.py\<close>), the claims by
  which builds and moves reserve resources (\<open>nova/nova/compute/claims.py\<close>), and the statistics of the
  host (\<open>nova/nova/compute/stats.py\<close>). The host has no PCI passthrough devices, so there is no PCI
  tracker, and no extensible resources are configured, which is the default. The semaphore makes
  each operation atomic. A raised exception leaves what was assigned before, so operations return a
  result and the tracker. The virt driver's overhead is a function of memory and virtual CPUs.
\<close>

section \<open>Instances and migrations\<close>

record sized_flavor = flavor +
  fl_root_gb :: int
  fl_ephemeral_gb :: int

record migration_context =
  mc_migration_id :: int
  mc_old_numa_topology :: "inst_topology option"
  mc_new_numa_topology :: "inst_topology option"

record vm_instance =
  vi_uuid :: string
  vi_memory_mb :: int
  vi_vcpus :: int
  vi_root_gb :: int
  vi_ephemeral_gb :: int
  vi_vm_state :: string
  vi_task_state :: "string option"
  vi_os_type :: "string option"
  vi_project_id :: "string option"
  vi_numa_topology :: "inst_topology option"
  vi_host :: "string option"
  vi_node :: "string option"
  vi_launched_on :: "string option"
  vi_instance_type_id :: int
  vi_flavor :: sized_flavor
  vi_old_flavor :: "sized_flavor option"
  vi_new_flavor :: "sized_flavor option"
  vi_migration_context :: "migration_context option"

record migration =
  mg_id :: int
  mg_instance_uuid :: string
  mg_source_compute :: "string option"
  mg_source_node :: "string option"
  mg_dest_compute :: "string option"
  mg_dest_node :: "string option"
  mg_migration_type :: string
  mg_old_instance_type_id :: int
  mg_new_instance_type_id :: int
  mg_status :: string
  mg_updated_at :: "int option"

definition allow_resource_removal :: "string list" where
  "allow_resource_removal = [''deleted'', ''shelved_offloaded'']"

definition instance_in_resize_state :: "vm_instance \<Rightarrow> bool" where
  "instance_in_resize_state i \<longleftrightarrow>
     vi_vm_state i = ''resized'' \<or>
     vi_vm_state i \<in> {''active'', ''stopped''} \<and>
     vi_task_state i \<in> {Some ''resize_prep'', Some ''resize_migrating'', Some ''resize_migrated'',
       Some ''resize_finish'', Some ''rebuilding''}"

text \<open>The usage dictionary; a missing key is \<open>None\<close>.\<close>

record usage =
  ug_memory_mb :: int
  ug_root_gb :: "int option"
  ug_ephemeral_gb :: "int option"
  ug_vcpus :: "int option"
  ug_numa_topology :: "inst_topology option"

definition usage_of_instance :: "vm_instance \<Rightarrow> usage" where
  "usage_of_instance i = \<lparr>ug_memory_mb = vi_memory_mb i, ug_root_gb = Some (vi_root_gb i),
     ug_ephemeral_gb = Some (vi_ephemeral_gb i), ug_vcpus = Some (vi_vcpus i), ug_numa_topology = vi_numa_topology i\<rparr>"

definition usage_of_flavor :: "sized_flavor \<Rightarrow> inst_topology option \<Rightarrow> usage" where
  "usage_of_flavor f numa = \<lparr>ug_memory_mb = fl_memory_mb f, ug_root_gb = Some (fl_root_gb f),
     ug_ephemeral_gb = Some (fl_ephemeral_gb f), ug_vcpus = Some (fl_vcpus f), ug_numa_topology = numa\<rparr>"

section \<open>Statistics\<close>

record instance_stats =
  is_vm_state :: string
  is_task_state :: "string option"
  is_os_type :: "string option"
  is_project_id :: "string option"

record compute_stats =
  st_counts :: "(string \<times> int) list"
  st_states :: "(string \<times> instance_stats) list"

definition stats_get :: "compute_stats \<Rightarrow> string \<Rightarrow> int" where
  "stats_get s k = (case map_of (st_counts s) k of None \<Rightarrow> 0 | Some n \<Rightarrow> n)"

definition stats_add :: "int \<Rightarrow> string \<Rightarrow> compute_stats \<Rightarrow> compute_stats" where
  "stats_add d k s = s\<lparr>st_counts := AList.update k (stats_get s k + d) (st_counts s)\<rparr>"

text \<open>\<open>'%s' % value\<close>.\<close>

definition shown :: "string option \<Rightarrow> string" where
  "shown v = (case v of None \<Rightarrow> ''None'' | Some s \<Rightarrow> s)"

definition stats_keys :: "instance_stats \<Rightarrow> string list" where
  "stats_keys x = [''num_vm_'' @ is_vm_state x, ''num_task_'' @ shown (is_task_state x),
     ''num_os_type_'' @ shown (is_os_type x), ''num_proj_'' @ shown (is_project_id x)]"

definition io_workload :: "compute_stats \<Rightarrow> int" where
  "io_workload s = stats_get s ''num_vm_building'' + stats_get s ''num_task_rebuilding'' +
     stats_get s ''num_task_resize_prep'' + stats_get s ''num_task_resize_migrating'' +
     stats_get s ''num_task_image_snapshot'' + stats_get s ''num_task_image_backup'' +
     stats_get s ''num_task_rescuing'' + stats_get s ''num_task_unshelving''"

definition calculate_workload :: "compute_stats \<Rightarrow> int" where
  "calculate_workload s = sum_list [n. (k, n) \<leftarrow> st_counts s,
     take 8 k = ''num_task'' \<and> drop (length k - 4) k \<noteq> ''None'']"

definition stats_num_instances :: "compute_stats \<Rightarrow> int" where
  "stats_num_instances s = stats_get s ''num_instances''"

definition clear_stats :: compute_stats where
  "clear_stats = \<lparr>st_counts = [], st_states = []\<rparr>"

definition digest_stats :: "(string \<times> int) list option \<Rightarrow> compute_stats \<Rightarrow> compute_stats" where
  "digest_stats new s = (case new of None \<Rightarrow> s | Some d \<Rightarrow> s\<lparr>st_counts := foldl (\<lambda>c (k, n). AList.update k n c) (st_counts s) d\<rparr>)"

definition instance_state :: "vm_instance \<Rightarrow> instance_stats" where
  "instance_state i = \<lparr>is_vm_state = vi_vm_state i, is_task_state = vi_task_state i, is_os_type = vi_os_type i,
     is_project_id = vi_project_id i\<rparr>"

definition update_stats_for_instance :: "vm_instance \<Rightarrow> bool \<Rightarrow> compute_stats \<Rightarrow> compute_stats" where
  "update_stats_for_instance i is_removed s =
     (let s1 = (case map_of (st_states s) (vi_uuid i) of
                  Some old \<Rightarrow> fold (stats_add (-1)) (stats_keys old) s
                | None \<Rightarrow> stats_add 1 ''num_instances'' s);
          s2 = (if is_removed \<or> vi_vm_state i \<in> set allow_resource_removal
                then (stats_add (-1) ''num_instances'' s1)\<lparr>st_states := AList.delete (vi_uuid i) (st_states s)\<rparr>
                else (fold (stats_add 1) (stats_keys (instance_state i)) s1)
                       \<lparr>st_states := AList.update (vi_uuid i) (instance_state i) (st_states s)\<rparr>)
      in s2\<lparr>st_counts := AList.update ''io_workload'' (io_workload s2) (st_counts s2)\<rparr>)"

section \<open>The tracker\<close>

datatype claim_reason = No_memory | No_disk | No_vcpus | No_numa

datatype claim_exc = ClaimNova nova_exc | ComputeResourcesUnavailable "claim_reason list"

record tracker_config =
  tc_reserved_host_disk_mb :: int
  tc_reserved_host_memory_mb :: int
  tc_ram_allocation_ratio :: rat
  tc_cpu_allocation_ratio :: rat
  tc_disk_allocation_ratio :: rat
  tc_overhead :: "int \<Rightarrow> int option \<Rightarrow> int"
  tc_set_order :: "int set \<Rightarrow> int list"

text \<open>The compute node as the tracker has it; the scheduler reads the fields of \<open>compute_node\<close>.\<close>

record tracked_node = compute_node +
  tn_memory_mb_used :: int
  tn_running_vms :: int
  tn_current_workload :: int
  tn_stats :: "(string \<times> int) list"

record tracker =
  tr_host :: string
  tr_nodename :: string
  tr_node :: "tracked_node option"
  tr_stats :: compute_stats
  tr_instances :: "(string \<times> vm_instance) list"
  tr_migrations :: "(string \<times> migration \<times> sized_flavor) list"
  tr_published :: "tracked_node option"

definition new_tracker :: "string \<Rightarrow> string \<Rightarrow> tracker" where
  "new_tracker host node = \<lparr>tr_host = host, tr_nodename = node, tr_node = None, tr_stats = clear_stats,
     tr_instances = [], tr_migrations = [], tr_published = None\<rparr>"

definition tr_disabled :: "tracker \<Rightarrow> bool" where
  "tr_disabled t \<longleftrightarrow> tr_node t = None"

text \<open>\<open>_update\<close>: the statistics go into the node, and the scheduler gets the node if it has changed.\<close>

definition publish :: "tracker \<Rightarrow> tracker" where
  "publish t =
     (case tr_node t of
        None \<Rightarrow> t
      | Some n \<Rightarrow>
          (let n1 = n\<lparr>tn_stats := st_counts (tr_stats t), cn_num_instances := stats_num_instances (tr_stats t),
                      cn_io_workload := stats_get (tr_stats t) ''io_workload''\<rparr>
           in t\<lparr>tr_node := Some n1, tr_published := (if tr_published t = Some n1 then tr_published t else Some n1)\<rparr>))"

definition update_free :: "tracked_node \<Rightarrow> tracked_node" where
  "update_free n = n\<lparr>cn_free_ram_mb := cn_memory_mb n - tn_memory_mb_used n, cn_free_disk_gb := cn_local_gb n - cn_local_gb_used n\<rparr>"

text \<open>\<open>_update_usage\<close>.\<close>

definition apply_usage :: "tracker_config \<Rightarrow> usage \<Rightarrow> int \<Rightarrow> tracker \<Rightarrow> (claim_exc, unit) result \<times> tracker" where
  "apply_usage cf u sign t =
     (case tr_node t of
        None \<Rightarrow> (Inl (ClaimNova PyAttributeError), t)
      | Some n \<Rightarrow>
          (let n1 = (update_free (n\<lparr>tn_memory_mb_used := tn_memory_mb_used n + sign * (ug_memory_mb u + tc_overhead cf (ug_memory_mb u) (ug_vcpus u)),
                        cn_local_gb_used := cn_local_gb_used n + sign * opt_or (ug_root_gb u) 0 + sign * opt_or (ug_ephemeral_gb u) 0,
                        cn_vcpus_used := cn_vcpus_used n + sign * opt_or (ug_vcpus u) 0\<rparr>))
                      \<lparr>tn_running_vms := stats_num_instances (tr_stats t)\<rparr>
           in case host_numa_usage (cn_numa_topology n1) (ug_numa_topology u) (sign = -1) of
                Inl e \<Rightarrow> (Inl (ClaimNova e), t\<lparr>tr_node := Some n1\<rparr>)
              | Inr topo \<Rightarrow> (Inr (), t\<lparr>tr_node := Some (n1\<lparr>cn_numa_topology := topo\<rparr>)\<rparr>)))"

definition map_node :: "(tracked_node \<Rightarrow> tracked_node) \<Rightarrow> tracker \<Rightarrow> tracker" where
  "map_node f t = t\<lparr>tr_node := map_option f (tr_node t)\<rparr>"

text \<open>\<open>_update_usage_from_instance\<close>.\<close>

definition update_from_instance :: "tracker_config \<Rightarrow> vm_instance \<Rightarrow> bool \<Rightarrow> tracker \<Rightarrow> (claim_exc, unit) result \<times> tracker" where
  "update_from_instance cf i is_removed t =
     (let uuid = vi_uuid i;
          is_new = (map_of (tr_instances t) uuid = None);
          removed = (\<not> is_new \<and> (is_removed \<or> vi_vm_state i \<in> set allow_resource_removal));
          t1 = (if is_new then t\<lparr>tr_instances := AList.update uuid i (tr_instances t)\<rparr>
                else if removed then t\<lparr>tr_instances := AList.delete uuid (tr_instances t)\<rparr> else t);
          t2 = t1\<lparr>tr_stats := update_stats_for_instance i removed (tr_stats t1)\<rparr>;
          (r, t3) = (if is_new \<or> removed then apply_usage cf (usage_of_instance i) (if removed then -1 else 1) t2
                     else (Inr (), t2))
      in case r of
           Inl e \<Rightarrow> (Inl e, t3)
         | Inr _ \<Rightarrow> (Inr (), map_node (\<lambda>n. n\<lparr>tn_current_workload := calculate_workload (tr_stats t3),
                                             cn_pci_device_pools := Some []\<rparr>) t3))"

section \<open>Claims\<close>

text \<open>\<open>_test\<close>: whether a resource is exhausted.\<close>

definition claim_exhausted :: "rat option \<Rightarrow> int \<Rightarrow> int \<Rightarrow> bool" where
  "claim_exhausted limit taken requested = (case limit of None \<Rightarrow> False | Some l \<Rightarrow> of_int requested > l - of_int taken)"

text \<open>\<open>_test_numa_topology\<close>: the cells of the requested topology afterwards, whether the test failed, and what is claimed.\<close>

definition claim_numa :: "tracker_config \<Rightarrow> tracked_node \<Rightarrow> inst_topology option \<Rightarrow> numa_limits option \<Rightarrow>
    inst_topology option \<times> (bool \<times> inst_topology option) nova" where
  "claim_numa cf n requested limit =
     (case cn_numa_topology n of
        None \<Rightarrow> (requested, Inr (False, None))
      | Some cells \<Rightarrow>
          (case numa_fit_instance_to_host (tc_set_order cf) cells (opt_or requested []) limit [] None of
             (after, Inl e) \<Rightarrow> (map_option (\<lambda>_. after) requested, Inl e)
           | (after, Inr fit) \<Rightarrow>
               (map_option (\<lambda>_. after) requested,
                Inr (opt_or requested [] \<noteq> [] \<and> opt_or fit [] = [], if opt_or fit [] = [] then None else fit))))"

text \<open>\<open>_claim_test\<close> for memory, disk and virtual CPUs that are asked for.\<close>

definition claim_test :: "tracker_config \<Rightarrow> tracked_node \<Rightarrow> usage \<Rightarrow> int \<Rightarrow> host_limits \<Rightarrow>
    inst_topology option \<times> (claim_exc, inst_topology option) result" where
  "claim_test cf n u oh limits =
     (case claim_numa cf n (ug_numa_topology u) (lim_numa_topology limits) of
        (after, Inl e) \<Rightarrow> (after, Inl (ClaimNova e))
      | (after, Inr (no_fit, claimed)) \<Rightarrow>
          (let reasons =
             (if claim_exhausted (lim_memory_mb limits) (tn_memory_mb_used n) (ug_memory_mb u + oh) then [No_memory] else []) @
             (if claim_exhausted (lim_disk_gb limits) (cn_local_gb_used n) (opt_or (ug_root_gb u) 0 + opt_or (ug_ephemeral_gb u) 0)
              then [No_disk] else []) @
             (if claim_exhausted (lim_vcpu limits) (cn_vcpus_used n) (opt_or (ug_vcpus u) 0) then [No_vcpus] else []) @
             (if no_fit then [No_numa] else [])
           in (after, if reasons = [] then Inr claimed else Inl (ComputeResourcesUnavailable reasons))))"

text \<open>A claim that was granted: the clone of the instance, with its cells as the search left them; \<open>None\<close> is a \<open>NopClaim\<close>.\<close>

record claim =
  cm_instance :: vm_instance
  cm_flavor :: "sized_flavor option"
  cm_numa_topology :: "inst_topology option"
  cm_migration :: "migration option"

definition set_instance_host_and_node :: "tracker \<Rightarrow> vm_instance \<Rightarrow> vm_instance" where
  "set_instance_host_and_node t i =
     i\<lparr>vi_host := Some (tr_host t), vi_launched_on := Some (tr_host t), vi_node := Some (tr_nodename t)\<rparr>"

definition unset_instance_host_and_node :: "vm_instance \<Rightarrow> vm_instance" where
  "unset_instance_host_and_node i = i\<lparr>vi_host := None, vi_node := None\<rparr>"

definition instance_claim :: "tracker_config \<Rightarrow> vm_instance \<Rightarrow> host_limits option \<Rightarrow> tracker \<Rightarrow>
    (claim_exc, claim option) result \<times> vm_instance \<times> tracker" where
  "instance_claim cf i limits t =
     (case tr_node t of
        None \<Rightarrow> (Inr None, set_instance_host_and_node t i, t)
      | Some n \<Rightarrow>
          (case claim_test cf n (usage_of_instance i) (tc_overhead cf (vi_memory_mb i) (Some (vi_vcpus i))) (opt_or limits no_limits) of
             (_, Inl e) \<Rightarrow> (Inl e, i, t)
           | (after, Inr claimed) \<Rightarrow>
               (let i1 = set_instance_host_and_node t (i\<lparr>vi_numa_topology := claimed\<rparr>)
                in case update_from_instance cf i1 False t of
                     (Inl e, t1) \<Rightarrow> (Inl e, i1, t1)
                   | (Inr _, t1) \<Rightarrow>
                       (Inr (Some \<lparr>cm_instance = i\<lparr>vi_numa_topology := after\<rparr>, cm_flavor = None,
                                   cm_numa_topology = claimed, cm_migration = None\<rparr>), i1, publish t1))))"

definition abort_instance_claim :: "tracker_config \<Rightarrow> vm_instance \<Rightarrow> tracker \<Rightarrow> (claim_exc, unit) result \<times> vm_instance \<times> tracker" where
  "abort_instance_claim cf i t =
     (case update_from_instance cf i True t of
        (Inl e, t1) \<Rightarrow> (Inl e, i, t1)
      | (Inr _, t1) \<Rightarrow>
          (Inr (), unset_instance_host_and_node (i\<lparr>vi_numa_topology := map_option it_clear_host_pinning (vi_numa_topology i)\<rparr>),
           publish t1))"

text \<open>\<open>update_usage\<close>.\<close>

definition tracker_update_usage :: "tracker_config \<Rightarrow> vm_instance \<Rightarrow> tracker \<Rightarrow> (claim_exc, unit) result \<times> tracker" where
  "tracker_update_usage cf i t =
     (if tr_disabled t \<or> map_of (tr_instances t) (vi_uuid i) = None then (Inr (), t)
      else case update_from_instance cf i False t of
             (Inl e, t1) \<Rightarrow> (Inl e, t1)
           | (Inr _, t1) \<Rightarrow> (Inr (), publish t1))"

section \<open>Migrations\<close>

definition is_trackable_migration :: "migration \<Rightarrow> bool" where
  "is_trackable_migration m \<longleftrightarrow> mg_migration_type m \<in> {''resize'', ''migration'', ''evacuation''}"

text \<open>A prefix is \<open>True\<close> for the new flavor and topology, \<open>False\<close> for the old ones.\<close>

definition get_instance_type :: "vm_instance \<Rightarrow> bool \<Rightarrow> migration \<Rightarrow> sized_flavor option" where
  "get_instance_type i new m =
     (if mg_migration_type m = ''resize'' then (if new then vi_new_flavor i else vi_old_flavor i) else Some (vi_flavor i))"

definition migration_context_numa :: "vm_instance \<Rightarrow> bool \<Rightarrow> inst_topology option" where
  "migration_context_numa i new =
     (case vi_migration_context i of
        None \<Rightarrow> None
      | Some c \<Rightarrow> if new then mc_new_numa_topology c else mc_old_numa_topology c)"

text \<open>The flavor and topology a migration holds on this node.\<close>

definition migration_usage :: "tracker \<Rightarrow> vm_instance \<Rightarrow> migration \<Rightarrow> sized_flavor option \<times> inst_topology option" where
  "migration_usage t i m =
     (let incoming = (mg_dest_compute m = Some (tr_host t) \<and> mg_dest_node m = Some (tr_nodename t));
          outbound = (mg_source_compute m = Some (tr_host t) \<and> mg_source_node m = Some (tr_nodename t));
          record_known = (map_of (tr_instances t) (mg_instance_uuid m) \<noteq> None);
          held = (\<lambda>new. (get_instance_type i new m, migration_context_numa i new))
      in if incoming \<and> outbound then held (vi_instance_type_id i = mg_old_instance_type_id m)
         else if incoming \<and> \<not> record_known then held True
         else if outbound \<and> \<not> record_known then held False
         else (None, None))"

text \<open>\<open>_update_usage_from_migration\<close>.\<close>

definition update_from_migration :: "tracker_config \<Rightarrow> vm_instance \<Rightarrow> migration \<Rightarrow> tracker \<Rightarrow> (claim_exc, unit) result \<times> tracker" where
  "update_from_migration cf i m t =
     (if \<not> is_trackable_migration m then (Inr (), t)
      else case migration_usage t i m of
             (None, _) \<Rightarrow> (Inr (), t)
           | (Some f, numa) \<Rightarrow>
               (case apply_usage cf (usage_of_flavor f numa) 1 t of
                  (Inl e, t1) \<Rightarrow> (Inl e, t1)
                | (Inr _, t1) \<Rightarrow>
                    (Inr (), (map_node (\<lambda>n. n\<lparr>cn_pci_device_pools := Some []\<rparr>) t1)
                               \<lparr>tr_migrations := AList.update (mg_instance_uuid m) (m, f) (tr_migrations t1)\<rparr>)))"

text \<open>\<open>_create_migration\<close> and \<open>_claim_existing_migration\<close>; the database gives the id.\<close>

definition create_migration :: "tracker \<Rightarrow> vm_instance \<Rightarrow> sized_flavor \<Rightarrow> string option \<Rightarrow> int \<Rightarrow> migration" where
  "create_migration t i f move_type new_id =
     \<lparr>mg_id = new_id, mg_instance_uuid = vi_uuid i, mg_source_compute = vi_host i, mg_source_node = vi_node i,
      mg_dest_compute = Some (tr_host t), mg_dest_node = Some (tr_nodename t),
      mg_migration_type = (if move_type \<noteq> None \<and> move_type \<noteq> Some [] then the move_type
                           else if fl_id (vi_flavor i) \<noteq> fl_id f then ''resize'' else ''migration''),
      mg_old_instance_type_id = fl_id (vi_flavor i), mg_new_instance_type_id = fl_id f,
      mg_status = ''pre-migrating'', mg_updated_at = None\<rparr>"

definition claim_existing_migration :: "tracker \<Rightarrow> migration \<Rightarrow> migration" where
  "claim_existing_migration t m =
     m\<lparr>mg_dest_compute := Some (tr_host t), mg_dest_node := Some (tr_nodename t), mg_status := ''pre-migrating''\<rparr>"

text \<open>
  \<open>_move_claim\<close>. The property \<open>numa_topology\<close> of a \<open>MoveClaim\<close> is computed from the flavor and the
  image at each use, so the cells that the search assigns to are its own.
\<close>

definition move_claim :: "tracker_config \<Rightarrow> vm_instance \<Rightarrow> sized_flavor \<Rightarrow> image_props \<Rightarrow> string option \<Rightarrow> host_limits option \<Rightarrow>
    migration option \<Rightarrow> int \<Rightarrow> tracker \<Rightarrow> (claim_exc, claim option) result \<times> vm_instance \<times> tracker" where
  "move_claim cf i f props move_type limits mig new_id t =
     (let m = (case mig of Some m \<Rightarrow> claim_existing_migration t m | None \<Rightarrow> create_migration t i f move_type new_id)
      in case tr_node t of
           None \<Rightarrow> (Inr None, i, t)
         | Some n \<Rightarrow>
             (case numa_get_constraints (tc_set_order cf) (flavor.truncate f) props of
                Inl e \<Rightarrow> (Inl (ClaimNova e), i, t)
              | Inr numa \<Rightarrow>
                  (case claim_test cf n (usage_of_flavor f numa) (tc_overhead cf (fl_memory_mb f) (Some (fl_vcpus f))) (opt_or limits no_limits) of
                     (_, Inl e) \<Rightarrow> (Inl e, i, t)
                   | (_, Inr claimed) \<Rightarrow>
                       (let i1 = i\<lparr>vi_migration_context := Some \<lparr>mc_migration_id = mg_id m,
                                    mc_old_numa_topology = vi_numa_topology i, mc_new_numa_topology = claimed\<rparr>\<rparr>
                        in case update_from_migration cf i1 m t of
                             (Inl e, t1) \<Rightarrow> (Inl e, i1, t1)
                           | (Inr _, t1) \<Rightarrow>
                               (Inr (Some \<lparr>cm_instance = i, cm_flavor = Some f, cm_numa_topology = claimed,
                                           cm_migration = Some m\<rparr>), i1, publish t1)))))"

definition resize_claim where
  "resize_claim cf i f props limits new_id t = move_claim cf i f props None limits None new_id t"

definition rebuild_claim where
  "rebuild_claim cf i props limits mig new_id t = move_claim cf i (vi_flavor i) props (Some ''evacuation'') limits mig new_id t"

text \<open>\<open>drop_move_claim\<close>; \<open>flavor\<close> is the optional argument.\<close>

definition drop_move_claim :: "tracker_config \<Rightarrow> vm_instance \<Rightarrow> sized_flavor option \<Rightarrow> bool \<Rightarrow> tracker \<Rightarrow>
    (claim_exc, unit) result \<times> vm_instance \<times> tracker" where
  "drop_move_claim cf i flavor new t =
     (case map_of (tr_migrations t) (vi_uuid i) of
        None \<Rightarrow> (Inr (), i, t)
      | Some (m, held) \<Rightarrow>
          (let t1 = t\<lparr>tr_migrations := AList.delete (vi_uuid i) (tr_migrations t)\<rparr>;
               asked = (case flavor of Some f \<Rightarrow> Some f | None \<Rightarrow> get_instance_type i new m);
               i1 = i\<lparr>vi_migration_context := None\<rparr>
           in if asked \<noteq> None \<and> fl_id (the asked) = fl_id held
              then (case apply_usage cf (usage_of_flavor held (migration_context_numa i new)) (-1) t1 of
                      (Inl e, t2) \<Rightarrow> (Inl e, i, t2)
                    | (Inr _, t2) \<Rightarrow> (Inr (), i1, publish t2))
              else (Inr (), i1, t1)))"

text \<open>\<open>abort\<close> of a claim; a \<open>NopClaim\<close> does nothing.\<close>

definition abort_claim :: "tracker_config \<Rightarrow> claim option \<Rightarrow> tracker \<Rightarrow> (claim_exc, unit) result \<times> tracker" where
  "abort_claim cf c t =
     (case c of
        None \<Rightarrow> (Inr (), t)
      | Some c \<Rightarrow>
          (case cm_flavor c of
             None \<Rightarrow> (case abort_instance_claim cf (cm_instance c) t of (r, _, t1) \<Rightarrow> (r, t1))
           | Some f \<Rightarrow> (case drop_move_claim cf (cm_instance c) (Some f) True t of (r, _, t1) \<Rightarrow> (r, t1))))"

section \<open>The audit\<close>

text \<open>What the virt driver reports.\<close>

record virt_resources =
  vr_vcpus :: int
  vr_memory_mb :: int
  vr_local_gb :: int
  vr_disk_available_least :: "int option"
  vr_numa_topology :: "numa_topology option"
  vr_stats :: "(string \<times> int) list option"

definition copy_resources :: "tracker_config \<Rightarrow> virt_resources \<Rightarrow> tracked_node \<Rightarrow> tracker \<Rightarrow> tracker" where
  "copy_resources cf v n t =
     t\<lparr>tr_stats := digest_stats (vr_stats v) clear_stats,
       tr_node := Some (n\<lparr>cn_ram_allocation_ratio := tc_ram_allocation_ratio cf,
          cn_cpu_allocation_ratio := tc_cpu_allocation_ratio cf, cn_disk_allocation_ratio := tc_disk_allocation_ratio cf,
          cn_vcpus := vr_vcpus v, cn_memory_mb := vr_memory_mb v, cn_local_gb := vr_local_gb v,
          cn_disk_available_least := vr_disk_available_least v, cn_numa_topology := vr_numa_topology v\<rparr>)\<rparr>"

definition blank_node :: tracked_node where
  "blank_node = \<lparr>cn_memory_mb = 0, cn_free_disk_gb = 0, cn_disk_available_least = None, cn_local_gb_used = 0,
     cn_free_ram_mb = 0, cn_local_gb = 0, cn_vcpus = 0, cn_vcpus_used = 0, cn_updated_at = None, cn_numa_topology = None,
     cn_pci_device_pools = None, cn_num_instances = 0, cn_io_workload = 0, cn_cpu_allocation_ratio = 0,
     cn_ram_allocation_ratio = 0, cn_disk_allocation_ratio = 0, tn_memory_mb_used = 0, tn_running_vms = 0,
     tn_current_workload = 0, tn_stats = []\<rparr>"

text \<open>\<open>_init_compute_node\<close>; the database may know the node, \<open>stored\<close>.\<close>

definition init_compute_node :: "tracker_config \<Rightarrow> virt_resources \<Rightarrow> tracked_node option \<Rightarrow> tracker \<Rightarrow> tracker" where
  "init_compute_node cf v stored t =
     (case tr_node t of
        Some n \<Rightarrow> copy_resources cf v n t
      | None \<Rightarrow> (case stored of Some n \<Rightarrow> copy_resources cf v n t | None \<Rightarrow> copy_resources cf v blank_node t))"

text \<open>Operations over a list that stop at the first exception.\<close>

fun each_op :: "('a \<Rightarrow> tracker \<Rightarrow> (claim_exc, unit) result \<times> tracker) \<Rightarrow> 'a list \<Rightarrow> tracker \<Rightarrow> (claim_exc, unit) result \<times> tracker" where
  "each_op f [] t = (Inr (), t)"
| "each_op f (x # xs) t = (case f x t of (Inl e, t1) \<Rightarrow> (Inl e, t1) | (Inr _, t1) \<Rightarrow> each_op f xs t1)"

text \<open>\<open>_update_usage_from_instances\<close>.\<close>

definition reset_usage :: "tracker_config \<Rightarrow> tracked_node \<Rightarrow> tracked_node" where
  "reset_usage cf n =
     (update_free (n\<lparr>cn_local_gb_used := tc_reserved_host_disk_mb cf div 1024,
        tn_memory_mb_used := tc_reserved_host_memory_mb cf, cn_vcpus_used := 0\<rparr>))
       \<lparr>tn_current_workload := 0, tn_running_vms := 0\<rparr>"

definition update_from_instances :: "tracker_config \<Rightarrow> vm_instance list \<Rightarrow> tracker \<Rightarrow> (claim_exc, unit) result \<times> tracker" where
  "update_from_instances cf instances t =
     (let t1 = map_node (reset_usage cf) (t\<lparr>tr_instances := []\<rparr>)
      in case each_op (\<lambda>i. update_from_instance cf i False)
                [i \<leftarrow> instances. vi_vm_state i \<notin> set allow_resource_removal] t1 of
           (Inl e, t2) \<Rightarrow> (Inl e, t2)
         | (Inr _, t2) \<Rightarrow>
             (Inr (), map_node (\<lambda>n. n\<lparr>cn_free_ram_mb := max 0 (cn_free_ram_mb n), cn_free_disk_gb := max 0 (cn_free_disk_gb n)\<rparr>) t2))"

text \<open>
  \<open>_update_usage_from_migrations\<close>: a migration comes with its instance, or \<open>None\<close> if the instance is
  gone. The most recently updated migration of an instance counts. The dictionaries list their
  values in the order in which the keys came.
\<close>

definition filter_migration :: "(string \<times> migration \<times> vm_instance) list \<Rightarrow> migration \<times> vm_instance option \<Rightarrow>
    (string \<times> migration \<times> vm_instance) list" where
  "filter_migration d x =
     (case x of
        (m, None) \<Rightarrow> d
      | (m, Some i) \<Rightarrow>
          (if \<not> instance_in_resize_state i then d
           else case map_of d (mg_instance_uuid m) of
                  None \<Rightarrow> AList.update (mg_instance_uuid m) (m, i) d
                | Some (other, j) \<Rightarrow>
                    (case (mg_updated_at m, mg_updated_at other) of
                       (Some a, Some b) \<Rightarrow> if a \<ge> b then AList.update (mg_instance_uuid m) (m, j) d else d
                     | _ \<Rightarrow> d)))"

definition update_from_migrations :: "tracker_config \<Rightarrow> (migration \<times> vm_instance option) list \<Rightarrow> tracker \<Rightarrow> (claim_exc, unit) result \<times> tracker" where
  "update_from_migrations cf migrations t =
     each_op (\<lambda>(u, m, i). update_from_migration cf i m) (foldl filter_migration [] migrations) (t\<lparr>tr_migrations := []\<rparr>)"

text \<open>\<open>_find_orphaned_instances\<close> in the usage by uuid that the driver reports, and \<open>_update_usage_from_orphans\<close>.\<close>

definition find_orphaned_instances :: "(string \<times> int) list \<Rightarrow> tracker \<Rightarrow> (string \<times> int) list" where
  "find_orphaned_instances reported t =
     [(u, mem) \<leftarrow> reported. map_of (tr_instances t) u = None \<and> map_of (tr_migrations t) u = None]"

definition usage_of_orphan :: "int \<Rightarrow> usage" where
  "usage_of_orphan mem = \<lparr>ug_memory_mb = mem, ug_root_gb = None, ug_ephemeral_gb = None, ug_vcpus = None, ug_numa_topology = None\<rparr>"

definition update_from_orphans :: "tracker_config \<Rightarrow> (string \<times> int) list \<Rightarrow> tracker \<Rightarrow> (claim_exc, unit) result \<times> tracker" where
  "update_from_orphans cf found t = each_op (\<lambda>(u, mem). apply_usage cf (usage_of_orphan mem) 1) found t"

text \<open>
  \<open>update_available_resource\<close>: \<open>None\<close> resources disable the tracker. The instances and migrations
  come from the database.
\<close>

record audit_data =
  ad_resources :: "virt_resources option"
  ad_stored :: "tracked_node option"
  ad_instances :: "vm_instance list"
  ad_migrations :: "(migration \<times> vm_instance option) list"
  ad_reported :: "(string \<times> int) list"

definition update_available_resource :: "tracker_config \<Rightarrow> audit_data \<Rightarrow> tracker \<Rightarrow> (claim_exc, unit) result \<times> tracker" where
  "update_available_resource cf a t =
     (case ad_resources a of
        None \<Rightarrow> (Inr (), t\<lparr>tr_node := None\<rparr>)
      | Some v \<Rightarrow>
          (case update_from_instances cf (ad_instances a) (init_compute_node cf v (ad_stored a) t) of
             (Inl e, t1) \<Rightarrow> (Inl e, t1)
           | (Inr _, t1) \<Rightarrow>
               (case update_from_migrations cf (ad_migrations a) t1 of
                  (Inl e, t2) \<Rightarrow> (Inl e, t2)
                | (Inr _, t2) \<Rightarrow>
                    (case update_from_orphans cf (find_orphaned_instances (ad_reported a) t2) t2 of
                       (Inl e, t3) \<Rightarrow> (Inl e, t3)
                     | (Inr _, t3) \<Rightarrow>
                         (Inr (), publish (map_node (\<lambda>n. n\<lparr>cn_pci_device_pools := Some []\<rparr>) t3))))))"

end
