(* ===== verification/Tracker_Accounting.thy ===== *)
theory Tracker_Accounting
  imports Resource_Tracker
begin

text \<open>
  What the resource tracker promises: its books. The three resources are treated alike, as what a
  usage costs and what a node has used.
\<close>

section \<open>Costs\<close>

datatype tracked_resource = Memory | Disk | Vcpus

fun usage_cost :: "tracker_config \<Rightarrow> usage \<Rightarrow> tracked_resource \<Rightarrow> int" where
  "usage_cost cf u Memory = ug_memory_mb u + tc_overhead cf (ug_memory_mb u) (ug_vcpus u)"
| "usage_cost cf u Disk = opt_or (ug_root_gb u) 0 + opt_or (ug_ephemeral_gb u) 0"
| "usage_cost cf u Vcpus = opt_or (ug_vcpus u) 0"

fun node_used :: "tracked_node \<Rightarrow> tracked_resource \<Rightarrow> int" where
  "node_used n Memory = tn_memory_mb_used n"
| "node_used n Disk = cn_local_gb_used n"
| "node_used n Vcpus = cn_vcpus_used n"

fun resource_limit :: "host_limits \<Rightarrow> tracked_resource \<Rightarrow> rat option" where
  "resource_limit l Memory = lim_memory_mb l"
| "resource_limit l Disk = lim_disk_gb l"
| "resource_limit l Vcpus = lim_vcpu l"

definition instance_cost :: "tracker_config \<Rightarrow> vm_instance \<Rightarrow> tracked_resource \<Rightarrow> int" where
  "instance_cost cf i = usage_cost cf (usage_of_instance i)"

definition flavor_cost :: "tracker_config \<Rightarrow> sized_flavor \<Rightarrow> tracked_resource \<Rightarrow> int" where
  "flavor_cost cf f = usage_cost cf (usage_of_flavor f None)"

definition orphan_cost :: "tracker_config \<Rightarrow> int \<Rightarrow> tracked_resource \<Rightarrow> int" where
  "orphan_cost cf mem = usage_cost cf (usage_of_orphan mem)"

fun reserved :: "tracker_config \<Rightarrow> tracked_resource \<Rightarrow> int" where
  "reserved cf Memory = tc_reserved_host_memory_mb cf"
| "reserved cf Disk = tc_reserved_host_disk_mb cf div 1024"
| "reserved cf Vcpus = 0"

text \<open>What the tracker has booked: the instances and migrations it tracks.\<close>

definition booked :: "tracker_config \<Rightarrow> tracker \<Rightarrow> tracked_resource \<Rightarrow> int" where
  "booked cf t r = (\<Sum>(u, i) \<leftarrow> tr_instances t. instance_cost cf i r) + (\<Sum>(u, m, f) \<leftarrow> tr_migrations t. flavor_cost cf f r)"

definition used_of :: "tracker \<Rightarrow> tracked_resource \<Rightarrow> int" where
  "used_of t r = (case tr_node t of None \<Rightarrow> 0 | Some n \<Rightarrow> node_used n r)"

text \<open>What no instance or migration accounts for.\<close>

definition unbooked :: "tracker_config \<Rightarrow> tracker \<Rightarrow> tracked_resource \<Rightarrow> int" where
  "unbooked cf t r = used_of t r - booked cf t r"

definition keyed :: "tracker \<Rightarrow> bool" where
  "keyed t \<longleftrightarrow> distinct (map fst (tr_instances t)) \<and> distinct (map fst (tr_migrations t)) \<and>
     (\<forall>(u, i) \<in> set (tr_instances t). vi_uuid i = u)"

lemma usage_cost_flavor [simp]: "usage_cost cf (usage_of_flavor f numa) r = flavor_cost cf f r"
  by (cases r) (simp_all add: flavor_cost_def usage_of_flavor_def)

lemma usage_cost_instance [simp]: "usage_cost cf (usage_of_instance i) r = instance_cost cf i r"
  by (simp add: instance_cost_def)

lemma instance_cost_cong [simp]:
  "instance_cost cf (i\<lparr>vi_numa_topology := x\<rparr>) r = instance_cost cf i r"
  "instance_cost cf (set_instance_host_and_node t i) r = instance_cost cf i r"
  by (cases r; simp add: instance_cost_def usage_of_instance_def set_instance_host_and_node_def)+

section \<open>Sums over dictionaries\<close>

lemma sum_update_new:
  fixes f :: "'v \<Rightarrow> int"
  assumes "map_of d k = None"
  shows "(\<Sum>(u, x) \<leftarrow> AList.update k v d. f x) = f v + (\<Sum>(u, x) \<leftarrow> d. f x)"
  using assms by (induction d) (auto split: if_splits)

lemma sum_delete:
  fixes f :: "'v \<Rightarrow> int"
  assumes "distinct (map fst d)" and "map_of d k = Some v"
  shows "(\<Sum>(u, x) \<leftarrow> AList.delete k d. f x) = (\<Sum>(u, x) \<leftarrow> d. f x) - f v"
  using assms
proof (induction d)
  case (Cons p d)
  obtain u x where p: "p = (u, x)" by (cases p)
  show ?case
  proof (cases "u = k")
    case True
    then have "k \<notin> fst ` set d" using Cons.prems(1) p by auto
    then have "AList.delete k d = d" by (metis delete_id)
    then show ?thesis using True Cons.prems(2) p by simp
  next
    case False
    then show ?thesis using Cons p by simp
  qed
qed simp

lemma sum_update_old:
  fixes f :: "'v \<Rightarrow> int"
  assumes "distinct (map fst d)" and "map_of d k = Some w"
  shows "(\<Sum>(u, x) \<leftarrow> AList.update k v d. f x) = (\<Sum>(u, x) \<leftarrow> d. f x) - f w + f v"
  using assms by (induction d) auto

section \<open>One operation\<close>

lemma used_apply_usage:
  assumes "apply_usage cf u sign t = (res, t')" and "tr_node t \<noteq> None"
  shows "used_of t' r = used_of t r + sign * usage_cost cf u r" and "tr_node t' \<noteq> None"
    and "tr_instances t' = tr_instances t" and "tr_migrations t' = tr_migrations t"
    and "tr_host t' = tr_host t" "tr_nodename t' = tr_nodename t" "tr_stats t' = tr_stats t"
  using assms
  by (cases r; auto simp: apply_usage_def used_of_def Let_def update_free_def algebra_simps split: option.splits sum.splits)+

lemma map_node_simps [simp]:
  "tr_instances (map_node f t) = tr_instances t" "tr_migrations (map_node f t) = tr_migrations t"
  "tr_node (map_node f t) = map_option f (tr_node t)" "tr_host (map_node f t) = tr_host t"
  "tr_nodename (map_node f t) = tr_nodename t" "tr_stats (map_node f t) = tr_stats t"
  by (simp_all add: map_node_def)

lemma publish_simps [simp]:
  "tr_instances (publish t) = tr_instances t" "tr_migrations (publish t) = tr_migrations t"
  "tr_node (publish t) = None \<longleftrightarrow> tr_node t = None" "tr_host (publish t) = tr_host t" "tr_nodename (publish t) = tr_nodename t"
  "used_of (publish t) r = used_of t r"
  by (auto simp: publish_def used_of_def Let_def split: option.split) (cases r; simp)+

lemma booked_cong: "tr_instances t' = tr_instances t \<Longrightarrow> tr_migrations t' = tr_migrations t \<Longrightarrow> booked cf t' r = booked cf t r"
  by (simp add: booked_def)

lemma unbooked_publish [simp]: "unbooked cf (publish t) r = unbooked cf t r" "keyed (publish t) = keyed t"
  by (simp_all add: unbooked_def booked_def keyed_def)

definition same_size :: "tracker_config \<Rightarrow> tracker \<Rightarrow> vm_instance \<Rightarrow> bool" where
  "same_size cf t i \<longleftrightarrow> (case map_of (tr_instances t) (vi_uuid i) of
     None \<Rightarrow> True | Some j \<Rightarrow> list_all (\<lambda>r. instance_cost cf j r = instance_cost cf i r) [Memory, Disk, Vcpus])"

lemma all_resources: "list_all P [Memory, Disk, Vcpus] \<longleftrightarrow> (\<forall>r. P r)"
  by (auto intro: tracked_resource.induct)

definition note_workload :: "tracker \<Rightarrow> tracked_node \<Rightarrow> tracked_node" where
  "note_workload t n = n\<lparr>tn_current_workload := calculate_workload (tr_stats t), cn_pci_device_pools := Some []\<rparr>"

lemma update_from_instance_parts:
  assumes "update_from_instance cf i rm t = (res, t')"
  defines "new \<equiv> map_of (tr_instances t) (vi_uuid i) = None"
    and "gone \<equiv> rm \<or> vi_vm_state i \<in> set allow_resource_removal"
  obtains t1 r0 t3 where
    "t1 = (if new then t\<lparr>tr_instances := AList.update (vi_uuid i) i (tr_instances t)\<rparr>
      else if gone then t\<lparr>tr_instances := AList.delete (vi_uuid i) (tr_instances t)\<rparr> else t)
      \<lparr>tr_stats := update_stats_for_instance i (\<not> new \<and> gone) (tr_stats t)\<rparr>"
    "(if new \<or> gone then apply_usage cf (usage_of_instance i) (if \<not> new \<and> gone then -1 else 1) t1 else (Inr (), t1)) = (r0, t3)"
    "t' = (case r0 of Inl e \<Rightarrow> t3 | Inr _ \<Rightarrow> map_node (note_workload t3) t3)"
proof -
  define t1 where "t1 = (if new then t\<lparr>tr_instances := AList.update (vi_uuid i) i (tr_instances t)\<rparr>
    else if gone then t\<lparr>tr_instances := AList.delete (vi_uuid i) (tr_instances t)\<rparr> else t)
    \<lparr>tr_stats := update_stats_for_instance i (\<not> new \<and> gone) (tr_stats t)\<rparr>"
  obtain r0 t3 where mid: "(if new \<or> gone then apply_usage cf (usage_of_instance i) (if \<not> new \<and> gone then -1 else 1) t1 else (Inr (), t1)) = (r0, t3)"
    by (metis surj_pair)
  have "update_from_instance cf i rm t = (case r0 of Inl e \<Rightarrow> (Inl e, t3) | Inr _ \<Rightarrow> (Inr (), map_node (note_workload t3) t3))"
    using mid unfolding update_from_instance_def t1_def new_def gone_def note_workload_def by (auto simp: Let_def split: if_splits)
  then show thesis using that[OF t1_def mid] assms(1) by (auto split: sum.splits)
qed

lemma update_from_instance_used:
  assumes "update_from_instance cf i rm t = (res, t')" and "tr_node t \<noteq> None"
  defines "new \<equiv> map_of (tr_instances t) (vi_uuid i) = None"
    and "gone \<equiv> rm \<or> vi_vm_state i \<in> set allow_resource_removal"
  shows "tr_node t' \<noteq> None" "tr_migrations t' = tr_migrations t" "tr_host t' = tr_host t" "tr_nodename t' = tr_nodename t"
    and "tr_instances t' = (if new then AList.update (vi_uuid i) i (tr_instances t)
           else if gone then AList.delete (vi_uuid i) (tr_instances t) else tr_instances t)"
    and "used_of t' r = used_of t r + (if new then instance_cost cf i r else if gone then - instance_cost cf i r else 0)"
proof -
  obtain t1 r0 t3 where t1_def: "t1 = (if new then t\<lparr>tr_instances := AList.update (vi_uuid i) i (tr_instances t)\<rparr>
      else if gone then t\<lparr>tr_instances := AList.delete (vi_uuid i) (tr_instances t)\<rparr> else t)
      \<lparr>tr_stats := update_stats_for_instance i (\<not> new \<and> gone) (tr_stats t)\<rparr>"
    and mid: "(if new \<or> gone then apply_usage cf (usage_of_instance i) (if \<not> new \<and> gone then -1 else 1) t1 else (Inr (), t1)) = (r0, t3)"
    and eq: "t' = (case r0 of Inl e \<Rightarrow> t3 | Inr _ \<Rightarrow> map_node (note_workload t3) t3)"
    using update_from_instance_parts[OF assms(1)] unfolding new_def gone_def by blast
  have t1: "tr_node t1 = tr_node t" "tr_migrations t1 = tr_migrations t" "tr_host t1 = tr_host t" "tr_nodename t1 = tr_nodename t"
    "used_of t1 r = used_of t r" for r
    by (simp_all add: t1_def used_of_def)
  have t3: "tr_node t3 \<noteq> None" "tr_migrations t3 = tr_migrations t" "tr_host t3 = tr_host t" "tr_nodename t3 = tr_nodename t"
    "tr_instances t3 = tr_instances t1"
    "used_of t3 r = used_of t r + (if new then instance_cost cf i r else if gone then - instance_cost cf i r else 0)" for r
  proof -
    have ap: "apply_usage cf (usage_of_instance i) (if \<not> new \<and> gone then -1 else 1) t1 = (r0, t3)" if "new \<or> gone"
      using mid that by simp
    have t1n: "tr_node t1 \<noteq> None" using assms(2) t1(1) by simp
    have same: "t3 = t1" if "\<not> (new \<or> gone)" using mid that by simp
    note eff = used_apply_usage[OF ap t1n]
    show "tr_node t3 \<noteq> None" by (cases "new \<or> gone") (use eff(2) same t1n in simp_all)
    show "tr_migrations t3 = tr_migrations t" by (cases "new \<or> gone") (use eff(4) same t1 in simp_all)
    show "tr_host t3 = tr_host t" by (cases "new \<or> gone") (use eff(5) same t1 in simp_all)
    show "tr_nodename t3 = tr_nodename t" by (cases "new \<or> gone") (use eff(6) same t1 in simp_all)
    show "tr_instances t3 = tr_instances t1" by (cases "new \<or> gone") (use eff(3) same in simp_all)
    show "used_of t3 r = used_of t r + (if new then instance_cost cf i r else if gone then - instance_cost cf i r else 0)" for r
      by (cases "new \<or> gone") (use eff(1)[of r] same t1 in auto)
  qed
  have t': "tr_node t' \<noteq> None" "tr_migrations t' = tr_migrations t3" "tr_host t' = tr_host t3" "tr_nodename t' = tr_nodename t3"
    "tr_instances t' = tr_instances t3" "used_of t' r = used_of t3 r" for r
    using t3(1) unfolding eq by (cases r; auto simp: used_of_def note_workload_def split: sum.splits)+
  show "tr_node t' \<noteq> None" "tr_migrations t' = tr_migrations t" "tr_host t' = tr_host t" "tr_nodename t' = tr_nodename t"
    using t' t3 by simp_all
  show inst: "tr_instances t' = (if new then AList.update (vi_uuid i) i (tr_instances t)
      else if gone then AList.delete (vi_uuid i) (tr_instances t) else tr_instances t)"
    using t'(5) t3(5) by (simp add: t1_def)
  show used: "used_of t' r = used_of t r + (if new then instance_cost cf i r else if gone then - instance_cost cf i r else 0)" for r
    using t'(6) t3(6) by simp
qed

lemma update_from_instance_effect:
  assumes "update_from_instance cf i rm t = (res, t')" and "tr_node t \<noteq> None" and "keyed t" and "same_size cf t i"
  shows "unbooked cf t' r = unbooked cf t r" and "keyed t'"
proof -
  define new where "new \<longleftrightarrow> map_of (tr_instances t) (vi_uuid i) = None"
  define gone where "gone \<longleftrightarrow> rm \<or> vi_vm_state i \<in> set allow_resource_removal"
  note eff = update_from_instance_used[OF assms(1,2), folded new_def gone_def]
  have dist: "distinct (map fst (tr_instances t))" using assms(3) by (simp add: keyed_def)
  have "booked cf t' r = booked cf t r + (if new then instance_cost cf i r else if gone then - instance_cost cf i r else 0)" for r
  proof (cases "map_of (tr_instances t) (vi_uuid i)")
    case None
    then show ?thesis using eff(2) by (simp add: booked_def eff(5) new_def sum_update_new[where f = "\<lambda>i. instance_cost cf i r"])
  next
    case (Some j)
    then have "instance_cost cf j r = instance_cost cf i r" using assms(4) by (cases r) (simp_all add: same_size_def)
    then show ?thesis
      using Some eff(2) by (simp add: booked_def eff(5) new_def sum_delete[OF dist Some, where f = "\<lambda>i. instance_cost cf i r"])
  qed
  then show "unbooked cf t' r = unbooked cf t r" using eff(6) by (simp add: unbooked_def)
  show "keyed t'"
  proof -
    have "set (AList.update k v d) \<subseteq> insert (k, v) (set d)" "set (AList.delete k d) \<subseteq> set d"
      for k v and d :: "(string \<times> vm_instance) list"
      by (induction d) auto
    then show ?thesis
      using assms(3) eff(2) unfolding keyed_def eff(5) by (auto simp: distinct_update distinct_delete) blast+
  qed
qed

lemma update_from_migration_effect:
  assumes "update_from_migration cf i m t = (Inr (), t')" and "tr_node t \<noteq> None" and "keyed t"
    and "map_of (tr_migrations t) (mg_instance_uuid m) = None"
  defines "held \<equiv> (if is_trackable_migration m then fst (migration_usage t i m) else None)"
  shows "tr_node t' \<noteq> None" "tr_instances t' = tr_instances t" "tr_host t' = tr_host t" "tr_nodename t' = tr_nodename t"
    and "tr_migrations t' = (case held of None \<Rightarrow> tr_migrations t | Some f \<Rightarrow> AList.update (mg_instance_uuid m) (m, f) (tr_migrations t))"
    and "used_of t' r = used_of t r + (case held of None \<Rightarrow> 0 | Some f \<Rightarrow> flavor_cost cf f r)"
    and "unbooked cf t' r = unbooked cf t r" and "keyed t'"
proof -
  have *: "tr_node t' \<noteq> None \<and> tr_instances t' = tr_instances t \<and> tr_host t' = tr_host t \<and> tr_nodename t' = tr_nodename t \<and>
      tr_migrations t' = (case held of None \<Rightarrow> tr_migrations t | Some f \<Rightarrow> AList.update (mg_instance_uuid m) (m, f) (tr_migrations t)) \<and>
      (\<forall>r. used_of t' r = used_of t r + (case held of None \<Rightarrow> 0 | Some f \<Rightarrow> flavor_cost cf f r))"
  proof (cases held)
    case None
    then have "t' = t" using assms(1) by (auto simp: update_from_migration_def held_def split: if_splits option.splits prod.splits)
    then show ?thesis using None assms(2) by simp
  next
    case (Some f)
    then obtain numa where f: "is_trackable_migration m" "migration_usage t i m = (Some f, numa)"
      by (cases "migration_usage t i m") (auto simp: held_def split: if_splits)
    obtain t1 where t1: "apply_usage cf (usage_of_flavor f numa) 1 t = (Inr (), t1)"
      "t' = (map_node (\<lambda>n. n\<lparr>cn_pci_device_pools := Some []\<rparr>) t1)\<lparr>tr_migrations := AList.update (mg_instance_uuid m) (m, f) (tr_migrations t1)\<rparr>"
      using assms(1) by (auto simp: update_from_migration_def f split: prod.splits sum.splits)
    note eff = used_apply_usage[OF t1(1) assms(2)]
    have "used_of t' r = used_of t1 r" for r using eff(2) by (cases r) (auto simp: t1(2) used_of_def)
    then show ?thesis using eff by (auto simp: t1(2) Some)
  qed
  show "tr_node t' \<noteq> None" "tr_instances t' = tr_instances t" "tr_host t' = tr_host t" "tr_nodename t' = tr_nodename t"
    "tr_migrations t' = (case held of None \<Rightarrow> tr_migrations t | Some f \<Rightarrow> AList.update (mg_instance_uuid m) (m, f) (tr_migrations t))"
    using * by blast+
  show used: "used_of t' r = used_of t r + (case held of None \<Rightarrow> 0 | Some f \<Rightarrow> flavor_cost cf f r)" for r
    using * by blast
  have "booked cf t' r = booked cf t r + (case held of None \<Rightarrow> 0 | Some f \<Rightarrow> flavor_cost cf f r)"
  proof (cases held)
    case (Some f)
    then have "tr_migrations t' = AList.update (mg_instance_uuid m) (m, f) (tr_migrations t)" "tr_instances t' = tr_instances t"
      using * by simp_all
    then show ?thesis
      using sum_update_new[OF assms(4), of "\<lambda>(m, f). flavor_cost cf f r" "(m, f)"] Some by (simp add: booked_def)
  qed (use * in \<open>simp add: booked_def\<close>)
  then show "unbooked cf t' r = unbooked cf t r" using used by (simp add: unbooked_def)
  show "keyed t'" using assms(3) * by (cases held) (auto simp: keyed_def distinct_update)
qed

text \<open>What a migration adds to the usage, also when it raises on the way.\<close>

lemma update_from_migration_used:
  assumes "update_from_migration cf i m t = (res, t')" and "tr_node t \<noteq> None"
  shows "tr_node t' \<noteq> None" and "used_of t' r = used_of t r \<or>
    (\<exists>f. fst (migration_usage t i m) = Some f \<and> used_of t' r = used_of t r + flavor_cost cf f r)"
proof -
  have "tr_node t' \<noteq> None \<and> (used_of t' r = used_of t r \<or>
    (\<exists>f. fst (migration_usage t i m) = Some f \<and> used_of t' r = used_of t r + flavor_cost cf f r))"
  proof (cases "is_trackable_migration m \<and> (\<exists>f numa. migration_usage t i m = (Some f, numa))")
    case False
    then have "t' = t" using assms(1) by (auto simp: update_from_migration_def split: if_splits option.splits prod.splits)
    then show ?thesis using assms(2) by simp
  next
    case True
    then obtain f numa where f: "is_trackable_migration m" "migration_usage t i m = (Some f, numa)" by blast
    obtain r1 t1 where t1: "apply_usage cf (usage_of_flavor f numa) 1 t = (r1, t1)" by (metis surj_pair)
    note eff = used_apply_usage[OF t1 assms(2)]
    have "t' = (case r1 of Inl _ \<Rightarrow> t1 | Inr _ \<Rightarrow> (map_node (\<lambda>n. n\<lparr>cn_pci_device_pools := Some []\<rparr>) t1)
        \<lparr>tr_migrations := AList.update (mg_instance_uuid m) (m, f) (tr_migrations t1)\<rparr>)"
      using assms(1) by (auto simp: update_from_migration_def f t1 split: sum.splits)
    then have "tr_node t' \<noteq> None" "used_of t' r = used_of t1 r"
      using eff(2) by (cases r; auto simp: used_of_def split: sum.splits)+
    then show ?thesis using eff(1)[of r] f(2) by simp
  qed
  then show "tr_node t' \<noteq> None" "used_of t' r = used_of t r \<or>
    (\<exists>f. fst (migration_usage t i m) = Some f \<and> used_of t' r = used_of t r + flavor_cost cf f r)" by blast+
qed

text \<open>A claim that is granted leaves the node within the limits.\<close>

lemma claim_test_within:
  assumes "claim_test cf n u (tc_overhead cf (ug_memory_mb u) (ug_vcpus u)) l = (after, Inr claimed)"
    and "resource_limit l r = Some bound"
  shows "of_int (node_used n r + usage_cost cf u r) \<le> bound"
  using assms by (cases r) (auto simp: claim_test_def claim_exhausted_def Let_def split: prod.splits sum.splits if_splits option.splits)

section \<open>Histories of a tracker\<close>

text \<open>The operations of the compute manager, each claim with the limits that came with its request,
  and the periodic audit.\<close>

datatype tracker_op =
    Op_claim vm_instance "host_limits option"
  | Op_abort claim
  | Op_update vm_instance
  | Op_move vm_instance sized_flavor image_props "string option" "host_limits option" "migration option" int
  | Op_drop vm_instance "sized_flavor option" bool
  | Op_audit audit_data

fun tracker_step :: "tracker_config \<Rightarrow> tracker_op \<Rightarrow> tracker \<Rightarrow> tracker" where
  "tracker_step cf (Op_claim i limits) t = snd (snd (instance_claim cf i limits t))"
| "tracker_step cf (Op_abort c) t = snd (abort_claim cf (Some c) t)"
| "tracker_step cf (Op_update i) t = snd (tracker_update_usage cf i t)"
| "tracker_step cf (Op_move i f props ty limits mig k) t = snd (snd (move_claim cf i f props ty limits mig k t))"
| "tracker_step cf (Op_drop i f new) t = snd (snd (drop_move_claim cf i f new t))"
| "tracker_step cf (Op_audit a) t = snd (update_available_resource cf a t)"

text \<open>A history in which each operation meets a condition in the state it starts from. The exceptions
  of the operations are part of the steps: an operation that raises leaves what it did before.\<close>

inductive tracker_run :: "tracker_config \<Rightarrow> (tracker_op \<Rightarrow> tracker \<Rightarrow> bool) \<Rightarrow> tracker \<Rightarrow> tracker \<Rightarrow> bool" for cf ok where
  run_start: "tracker_run cf ok t t"
| run_step: "tracker_run cf ok s t \<Longrightarrow> ok x t \<Longrightarrow> tracker_run cf ok s (tracker_step cf x t)"

text \<open>Any operation, at any time.\<close>

definition anything :: "tracker_op \<Rightarrow> tracker \<Rightarrow> bool" where
  "anything x t \<longleftrightarrow> True"

definition moved :: "tracker \<Rightarrow> vm_instance \<Rightarrow> sized_flavor \<Rightarrow> string option \<Rightarrow> migration option \<Rightarrow> int \<Rightarrow> migration" where
  "moved t i f ty mig k = (case mig of Some m \<Rightarrow> claim_existing_migration t m | None \<Rightarrow> create_migration t i f ty k)"

text \<open>The flavor that a dropped migration has booked.\<close>

definition held_flavor :: "tracker \<Rightarrow> vm_instance \<Rightarrow> sized_flavor option" where
  "held_flavor t i = map_option snd (map_of (tr_migrations t) (vi_uuid i))"

lemma move_claim_unfold:
  fixes i :: vm_instance and f :: sized_flavor and ty :: "string option" and mig :: "migration option" and k :: int
  assumes "tr_node t = Some n"
  defines "m \<equiv> moved t i f ty mig k"
  shows "move_claim cf i f props ty limits mig k t =
      (case numa_get_constraints (tc_set_order cf) (flavor.truncate f) props of
         Inl e \<Rightarrow> (Inl (ClaimNova e), i, t)
       | Inr numa \<Rightarrow>
           (case claim_test cf n (usage_of_flavor f numa) (tc_overhead cf (fl_memory_mb f) (Some (fl_vcpus f))) (opt_or limits no_limits) of
              (_, Inl e) \<Rightarrow> (Inl e, i, t)
            | (_, Inr claimed) \<Rightarrow>
                (let i1 = i\<lparr>vi_migration_context := Some \<lparr>mc_migration_id = mg_id m,
                             mc_old_numa_topology = vi_numa_topology i, mc_new_numa_topology = claimed\<rparr>\<rparr>
                 in case update_from_migration cf i1 m t of
                      (Inl e, t1) \<Rightarrow> (Inl e, i1, t1)
                    | (Inr _, t1) \<Rightarrow>
                        (Inr (Some \<lparr>cm_instance = i, cm_flavor = Some f, cm_numa_topology = claimed, cm_migration = Some m\<rparr>),
                         i1, publish t1))))"
  unfolding move_claim_def Let_def assms(1) moved_def[symmetric] m_def option.case by (rule refl)

lemma migration_usage_context [simp]:
  "fst (migration_usage t (i\<lparr>vi_migration_context := x\<rparr>) m) = fst (migration_usage t i m)"
  by (auto simp: migration_usage_def get_instance_type_def Let_def)

section \<open>The limits\<close>

text \<open>What a history must not contain for the limit of one resource to hold: a claim without a limit
  or with a higher one; an amount below 0; an aborted instance claim whose instance the tracker does
  not have (the code then adds its usage); a move that books a flavor larger than the one it was
  tested for; an audit, which finds what there is.\<close>

definition limited :: "tracked_resource \<Rightarrow> rat \<Rightarrow> host_limits option \<Rightarrow> bool" where
  "limited r bound limits \<longleftrightarrow> (case resource_limit (opt_or limits no_limits) r of None \<Rightarrow> False | Some b \<Rightarrow> b \<le> bound)"

fun within_limit :: "tracker_config \<Rightarrow> tracked_resource \<Rightarrow> rat \<Rightarrow> tracker_op \<Rightarrow> tracker \<Rightarrow> bool" where
  "within_limit cf r bound (Op_claim i limits) t \<longleftrightarrow> limited r bound limits \<and> 0 \<le> instance_cost cf i r"
| "within_limit cf r bound (Op_abort c) t \<longleftrightarrow>
     (case cm_flavor c of
        None \<Rightarrow> map_of (tr_instances t) (vi_uuid (cm_instance c)) \<noteq> None \<and> 0 \<le> instance_cost cf (cm_instance c) r
      | Some f \<Rightarrow> (case held_flavor t (cm_instance c) of None \<Rightarrow> True | Some h \<Rightarrow> 0 \<le> flavor_cost cf h r))"
| "within_limit cf r bound (Op_update i) t \<longleftrightarrow> 0 \<le> instance_cost cf i r"
| "within_limit cf r bound (Op_move i f props ty limits mig k) t \<longleftrightarrow> limited r bound limits \<and>
     (case fst (migration_usage t i (moved t i f ty mig k)) of None \<Rightarrow> True | Some g \<Rightarrow> flavor_cost cf g r \<le> flavor_cost cf f r)"
| "within_limit cf r bound (Op_drop i f new) t \<longleftrightarrow> (case held_flavor t i of None \<Rightarrow> True | Some h \<Rightarrow> 0 \<le> flavor_cost cf h r)"
| "within_limit cf r bound (Op_audit a) t \<longleftrightarrow> False"

definition kept_within :: "tracked_resource \<Rightarrow> rat \<Rightarrow> tracker \<Rightarrow> tracker \<Rightarrow> bool" where
  "kept_within r bound t t' \<longleftrightarrow> (tr_node t = None \<longleftrightarrow> tr_node t' = None) \<and> (of_int (used_of t' r) \<le> bound \<or> used_of t' r \<le> used_of t r)"

lemma kept_within_refl [simp]: "kept_within r bound t t"
  by (simp add: kept_within_def)

lemma kept_within_publish [simp]: "kept_within r bound t (publish t') = kept_within r bound t t'"
  by (simp add: kept_within_def)

lemma update_instance_within:
  assumes "update_from_instance cf i rm t = (res, t')" and "0 \<le> instance_cost cf i r"
    and "map_of (tr_instances t) (vi_uuid i) = None \<Longrightarrow> tr_node t \<noteq> None \<Longrightarrow> of_int (used_of t r + instance_cost cf i r) \<le> bound"
  shows "kept_within r bound t t'"
proof (cases "tr_node t = None")
  case False
  note eff = update_from_instance_used[OF assms(1) False]
  show ?thesis using eff(1) eff(6)[of r] assms(2,3) False by (auto simp: kept_within_def split: if_splits)
next
  case True
  from assms(1) have "tr_node t' = None"
    using True by (auto simp: update_from_instance_def apply_usage_def Let_def map_node_def split: if_splits prod.splits sum.splits)
  then show ?thesis using True by (simp add: kept_within_def used_of_def)
qed

lemma limited_test:
  assumes "claim_test cf n u (tc_overhead cf (ug_memory_mb u) (ug_vcpus u)) (opt_or limits no_limits) = (after, Inr claimed)"
    and "limited r bound limits"
  shows "of_int (node_used n r + usage_cost cf u r) \<le> bound"
  using claim_test_within[OF assms(1)] assms(2) by (force simp: limited_def split: option.splits)

lemma claim_within:
  assumes "limited r bound limits" and "0 \<le> instance_cost cf i r"
  shows "kept_within r bound t (snd (snd (instance_claim cf i limits t)))"
proof (cases "tr_node t")
  case (Some n)
  obtain after res where test: "claim_test cf n (usage_of_instance i) (tc_overhead cf (vi_memory_mb i) (Some (vi_vcpus i))) (opt_or limits no_limits) = (after, res)"
    by (metis surj_pair)
  show ?thesis
  proof (cases res)
    case (Inl e)
    then show ?thesis by (simp add: instance_claim_def Some test)
  next
    case (Inr claimed)
    define i1 where "i1 = set_instance_host_and_node t (i\<lparr>vi_numa_topology := claimed\<rparr>)"
    obtain r1 t1 where up: "update_from_instance cf i1 False t = (r1, t1)" by (metis surj_pair)
    have eq: "snd (snd (instance_claim cf i limits t)) = (case r1 of Inl e \<Rightarrow> t1 | Inr _ \<Rightarrow> publish t1)"
      by (simp add: instance_claim_def Some test Inr Let_def i1_def[symmetric] up split: sum.splits)
    have i1: "instance_cost cf i1 r = instance_cost cf i r" by (simp add: i1_def)
    have "claim_test cf n (usage_of_instance i) (tc_overhead cf (ug_memory_mb (usage_of_instance i)) (ug_vcpus (usage_of_instance i))) (opt_or limits no_limits) = (after, Inr claimed)"
      using test Inr by (simp add: usage_of_instance_def)
    from limited_test[OF this assms(1)] have "of_int (used_of t r + instance_cost cf i r) \<le> bound"
      by (simp add: used_of_def Some)
    then have "kept_within r bound t t1" using assms(2) by (intro update_instance_within[OF up]) (simp_all add: i1)
    then show ?thesis unfolding eq by (simp split: sum.split)
  qed
qed (simp add: instance_claim_def)

lemma drop_within:
  assumes "case held_flavor t i of None \<Rightarrow> True | Some h \<Rightarrow> 0 \<le> flavor_cost cf h r"
  shows "kept_within r bound t (snd (snd (drop_move_claim cf i f new t)))"
proof (cases "map_of (tr_migrations t) (vi_uuid i)")
  case (Some x)
  obtain m held where x: "x = (m, held)" by (cases x)
  define t1 where "t1 = t\<lparr>tr_migrations := AList.delete (vi_uuid i) (tr_migrations t)\<rparr>"
  obtain r2 t2 where t2: "apply_usage cf (usage_of_flavor held (migration_context_numa i new)) (-1) t1 = (r2, t2)"
    by (metis surj_pair)
  have t1: "tr_node t1 = tr_node t" "used_of t1 r = used_of t r" by (simp_all add: t1_def used_of_def)
  have "kept_within r bound t t1" using t1 by (simp add: kept_within_def)
  moreover have "kept_within r bound t t2"
  proof (cases "tr_node t = None")
    case True
    then have "tr_node t2 = None" using t2 t1(1) by (simp add: apply_usage_def)
    then show ?thesis using True by (simp add: kept_within_def used_of_def)
  next
    case False
    then have "tr_node t1 \<noteq> None" using t1(1) by simp
    note eff = used_apply_usage[OF t2 this]
    have "used_of t2 r \<le> used_of t r" using eff(1)[of r] assms t1(2) by (simp add: held_flavor_def Some x)
    then show ?thesis using eff(2) False by (auto simp: kept_within_def)
  qed
  moreover have "snd (snd (drop_move_claim cf i f new t)) \<in> {t1, t2, publish t2}"
    by (auto simp: drop_move_claim_def Some x Let_def t1_def[symmetric] t2 split: sum.splits)
  ultimately show ?thesis by auto
qed (simp add: drop_move_claim_def)

lemma move_within:
  assumes "limited r bound limits"
    and "case fst (migration_usage t i (moved t i f ty mig k)) of None \<Rightarrow> True | Some g \<Rightarrow> flavor_cost cf g r \<le> flavor_cost cf f r"
  shows "kept_within r bound t (snd (snd (move_claim cf i f props ty limits mig k t)))"
proof (cases "tr_node t")
  case (Some n)
  define m where "m = moved t i f ty mig k"
  note unf = move_claim_unfold[OF Some, of cf i f props ty limits mig k, folded m_def]
  show ?thesis
  proof (cases "numa_get_constraints (tc_set_order cf) (flavor.truncate f) props")
    case (Inl e)
    then show ?thesis by (simp add: unf)
  next
    case numa: (Inr numa)
    obtain after res where test: "claim_test cf n (usage_of_flavor f numa) (tc_overhead cf (fl_memory_mb f) (Some (fl_vcpus f))) (opt_or limits no_limits) = (after, res)"
      by (metis surj_pair)
    show ?thesis
    proof (cases res)
      case (Inl e)
      then show ?thesis by (simp add: unf numa test)
    next
      case (Inr claimed)
      define i1 where "i1 = i\<lparr>vi_migration_context := Some \<lparr>mc_migration_id = mg_id m,
          mc_old_numa_topology = vi_numa_topology i, mc_new_numa_topology = claimed\<rparr>\<rparr>"
      obtain r1 t1 where up: "update_from_migration cf i1 m t = (r1, t1)" by (metis surj_pair)
      have eq: "snd (snd (move_claim cf i f props ty limits mig k t)) \<in> {t1, publish t1}"
        by (simp add: unf numa test Inr Let_def i1_def[symmetric] up split: sum.splits)
      have "claim_test cf n (usage_of_flavor f numa) (tc_overhead cf (ug_memory_mb (usage_of_flavor f numa)) (ug_vcpus (usage_of_flavor f numa))) (opt_or limits no_limits) = (after, Inr claimed)"
        using test Inr by (simp add: usage_of_flavor_def)
      from limited_test[OF this assms(1)] have fits: "of_int (used_of t r + flavor_cost cf f r) \<le> bound"
        by (simp add: used_of_def Some)
      have "tr_node t \<noteq> None" using Some by simp
      note eff = update_from_migration_used[OF up this]
      have "of_int (used_of t1 r) \<le> bound \<or> used_of t1 r \<le> used_of t r"
        using eff(2)[of r]
      proof
        assume "\<exists>g. fst (migration_usage t i1 m) = Some g \<and> used_of t1 r = used_of t r + flavor_cost cf g r"
        then obtain g where g: "fst (migration_usage t i m) = Some g" "used_of t1 r = used_of t r + flavor_cost cf g r"
          by (auto simp: i1_def)
        then have "used_of t1 r \<le> used_of t r + flavor_cost cf f r" using assms(2) by (simp add: m_def)
        then have "of_int (used_of t1 r) \<le> (of_int (used_of t r + flavor_cost cf f r) :: rat)" by (simp only: of_int_le_iff)
        then show ?thesis using fits by linarith
      qed simp
      then have "kept_within r bound t t1" using eff(1) Some by (simp add: kept_within_def)
      then show ?thesis using eq by auto
    qed
  qed
qed (simp add: move_claim_def Let_def)

lemma tracker_step_within:
  assumes "within_limit cf r bound x t"
  shows "kept_within r bound t (tracker_step cf x t)"
proof (cases x)
  case (Op_claim i limits)
  then show ?thesis using assms by (simp add: claim_within)
next
  case (Op_abort c)
  show ?thesis
  proof (cases "cm_flavor c")
    case None
    obtain r1 t1 where up: "update_from_instance cf (cm_instance c) True t = (r1, t1)" by (metis surj_pair)
    have "kept_within r bound t t1"
      using assms by (intro update_instance_within[OF up]) (auto simp: Op_abort None)
    then show ?thesis by (simp add: Op_abort abort_claim_def None abort_instance_claim_def up split: sum.split)
  next
    case (Some f)
    have "kept_within r bound t (snd (snd (drop_move_claim cf (cm_instance c) (Some f) True t)))"
      using assms by (intro drop_within) (simp add: Op_abort Some)
    then show ?thesis
      by (cases "drop_move_claim cf (cm_instance c) (Some f) True t") (simp add: Op_abort abort_claim_def Some)
  qed
next
  case (Op_update i)
  obtain r1 t1 where up: "update_from_instance cf i False t = (r1, t1)" by (metis surj_pair)
  have "tracker_step cf x t \<in> {t, t1, publish t1}" "map_of (tr_instances t) (vi_uuid i) = None \<Longrightarrow> tracker_step cf x t = t"
    by (simp_all add: Op_update tracker_update_usage_def up split: sum.split)
  moreover have "kept_within r bound t t1" if "map_of (tr_instances t) (vi_uuid i) \<noteq> None"
    using assms that by (intro update_instance_within[OF up]) (auto simp: Op_update)
  ultimately show ?thesis by fastforce
next
  case (Op_move i f props ty limits mig k)
  then show ?thesis using assms move_within by simp
next
  case (Op_drop i f new)
  then show ?thesis using assms by (simp add: drop_within)
next
  case (Op_audit a)
  then show ?thesis using assms by simp
qed

lemma tracker_run_within:
  assumes "tracker_run cf (within_limit cf r bound) s t"
  shows "of_int (used_of t r) \<le> max bound (of_int (used_of s r))"
  using assms
proof (induction rule: tracker_run.induct)
  case (run_step s t x)
  have "of_int (used_of (tracker_step cf x t) r) \<le> bound \<or> used_of (tracker_step cf x t) r \<le> used_of t r"
    using tracker_step_within[OF run_step.hyps(2)] by (simp add: kept_within_def)
  then show ?case
  proof
    assume "used_of (tracker_step cf x t) r \<le> used_of t r"
    then have "of_int (used_of (tracker_step cf x t) r) \<le> (of_int (used_of t r) :: rat)" by simp
    then show ?thesis using run_step.IH by (rule order_trans)
  qed simp
qed simp

section \<open>The books\<close>

text \<open>What a history must not contain for the books to balance: an instance whose size has changed
  since it was tracked; a second move of an instance; a move that raises after it has booked its
  usage; a drop of a migration with another flavor than was booked, or without one; an audit, which
  opens new books.\<close>

definition drop_ok :: "vm_instance \<Rightarrow> sized_flavor option \<Rightarrow> bool \<Rightarrow> tracker \<Rightarrow> bool" where
  "drop_ok i f new t =
     (case map_of (tr_migrations t) (vi_uuid i) of
        None \<Rightarrow> True
      | Some (m, held) \<Rightarrow>
          (case (case f of Some f \<Rightarrow> Some f | None \<Rightarrow> get_instance_type i new m) of
             None \<Rightarrow> False | Some g \<Rightarrow> fl_id g = fl_id held))"

fun accountable_op :: "tracker_config \<Rightarrow> tracker_op \<Rightarrow> tracker \<Rightarrow> bool" where
  "accountable_op cf (Op_claim i limits) t \<longleftrightarrow> same_size cf t i"
| "accountable_op cf (Op_abort c) t \<longleftrightarrow>
     (case cm_flavor c of None \<Rightarrow> same_size cf t (cm_instance c) | Some f \<Rightarrow> drop_ok (cm_instance c) (Some f) True t)"
| "accountable_op cf (Op_update i) t \<longleftrightarrow> same_size cf t i"
| "accountable_op cf (Op_move i f props ty limits mig k) t \<longleftrightarrow>
     map_of (tr_migrations t) (mg_instance_uuid (moved t i f ty mig k)) = None \<and>
     (case move_claim cf i f props ty limits mig k t of (Inl e, _, t') \<Rightarrow> t' = t | _ \<Rightarrow> True)"
| "accountable_op cf (Op_drop i f new) t \<longleftrightarrow> drop_ok i f new t"
| "accountable_op cf (Op_audit a) t \<longleftrightarrow> False"

text \<open>What one operation promises.\<close>

definition keeps_books :: "tracker_config \<Rightarrow> tracker \<Rightarrow> tracker \<Rightarrow> bool" where
  "keeps_books cf t t' \<longleftrightarrow> tr_node t' \<noteq> None \<and> keyed t' \<and> (\<forall>r. unbooked cf t' r = unbooked cf t r)"

lemma keeps_books_refl: "tr_node t \<noteq> None \<Longrightarrow> keyed t \<Longrightarrow> keeps_books cf t t"
  by (simp add: keeps_books_def)

lemma keeps_books_trans: "keeps_books cf s t \<Longrightarrow> keeps_books cf t u \<Longrightarrow> keeps_books cf s u"
  by (simp add: keeps_books_def)

lemma keeps_books_publish [simp]: "keeps_books cf t (publish t') = keeps_books cf t t'"
  by (simp add: keeps_books_def)

lemma update_instance_books:
  assumes "tr_node t \<noteq> None" and "keyed t" and "same_size cf t i" and "update_from_instance cf i rm t = (res, t')"
  shows "keeps_books cf t t'"
  using update_from_instance_used(1)[OF assms(4,1)] update_from_instance_effect[OF assms(4,1,2,3)] by (simp add: keeps_books_def)

lemma instance_claim_books:
  assumes "tr_node t \<noteq> None" and "keyed t" and "same_size cf t i"
  shows "keeps_books cf t (snd (snd (instance_claim cf i limits t)))"
proof -
  obtain n where n: "tr_node t = Some n" using assms(1) by auto
  obtain after res where test: "claim_test cf n (usage_of_instance i) (tc_overhead cf (vi_memory_mb i) (Some (vi_vcpus i))) (opt_or limits no_limits) = (after, res)"
    by (metis surj_pair)
  show ?thesis
  proof (cases res)
    case (Inl e)
    then show ?thesis using assms(1,2) by (simp add: instance_claim_def n test keeps_books_refl)
  next
    case (Inr claimed)
    define i1 where "i1 = set_instance_host_and_node t (i\<lparr>vi_numa_topology := claimed\<rparr>)"
    obtain r1 t1 where up: "update_from_instance cf i1 False t = (r1, t1)" by (metis surj_pair)
    have eq: "snd (snd (instance_claim cf i limits t)) = (case r1 of Inl e \<Rightarrow> t1 | Inr _ \<Rightarrow> publish t1)"
      by (simp add: instance_claim_def n test Inr Let_def i1_def[symmetric] up split: sum.splits)
    have "vi_uuid i1 = vi_uuid i" "instance_cost cf i1 r = instance_cost cf i r" for r
      by (simp add: i1_def set_instance_host_and_node_def) (simp add: i1_def)
    then have "same_size cf t i1" using assms(3) by (simp add: same_size_def split: option.splits)
    from update_instance_books[OF assms(1,2) this up] show ?thesis unfolding eq by (simp split: sum.split)
  qed
qed

lemma drop_books:
  assumes "tr_node t \<noteq> None" and "keyed t" and "drop_ok i f new t"
  shows "keeps_books cf t (snd (snd (drop_move_claim cf i f new t)))"
proof (cases "map_of (tr_migrations t) (vi_uuid i)")
  case None
  then show ?thesis using assms(1,2) by (simp add: drop_move_claim_def keeps_books_refl)
next
  case (Some x)
  obtain m held where x: "x = (m, held)" by (cases x)
  define t1 where "t1 = t\<lparr>tr_migrations := AList.delete (vi_uuid i) (tr_migrations t)\<rparr>"
  obtain g where g: "(case f of Some f \<Rightarrow> Some f | None \<Rightarrow> get_instance_type i new m) = Some g" "fl_id g = fl_id held"
    using assms(3) by (auto simp: drop_ok_def Some x split: option.splits)
  obtain r2 t2 where t2: "apply_usage cf (usage_of_flavor held (migration_context_numa i new)) (-1) t1 = (r2, t2)"
    by (metis surj_pair)
  have eq: "snd (snd (drop_move_claim cf i f new t)) = (case r2 of Inl _ \<Rightarrow> t2 | Inr _ \<Rightarrow> publish t2)"
    using g(1,2) by (simp add: drop_move_claim_def Some x Let_def t1_def[symmetric] t2 split: sum.splits)
  have n1: "tr_node t1 \<noteq> None" using assms(1) by (simp add: t1_def)
  note eff = used_apply_usage[OF t2 n1]
  have dist: "distinct (map fst (tr_migrations t))" using assms(2) by (simp add: keyed_def)
  have "keyed t2" using assms(2) eff(3,4) by (simp add: keyed_def t1_def distinct_delete)
  moreover have "booked cf t2 r = booked cf t r - flavor_cost cf held r" for r
    using eff(3,4) sum_delete[OF dist Some, of "\<lambda>(m, f). flavor_cost cf f r"] by (simp add: booked_def t1_def x)
  moreover have "used_of t2 r = used_of t r - flavor_cost cf held r" for r
    using eff(1)[of r] by (simp add: t1_def used_of_def)
  ultimately have "keeps_books cf t t2" using eff(2) by (simp add: keeps_books_def unbooked_def)
  then show ?thesis unfolding eq by (simp split: sum.split)
qed

lemma move_books:
  assumes "tr_node t \<noteq> None" and "keyed t" and "accountable_op cf (Op_move i f props ty limits mig k) t"
  shows "keeps_books cf t (snd (snd (move_claim cf i f props ty limits mig k t)))"
proof -
  obtain n where n: "tr_node t = Some n" using assms(1) by auto
  define m where "m = moved t i f ty mig k"
  note unf = move_claim_unfold[OF n, of cf i f props ty limits mig k, folded m_def]
  obtain res i' t' where mv: "move_claim cf i f props ty limits mig k t = (res, i', t')" by (metis prod_cases3)
  show ?thesis
  proof (cases res)
    case (Inl e)
    then have "t' = t" using assms(3) by (simp add: mv)
    then show ?thesis using assms(1,2) by (simp add: mv keeps_books_refl)
  next
    case (Inr c)
    then obtain numa after claimed t1 where up: "update_from_migration cf (i\<lparr>vi_migration_context := Some \<lparr>mc_migration_id = mg_id m,
          mc_old_numa_topology = vi_numa_topology i, mc_new_numa_topology = claimed\<rparr>\<rparr>) m t = (Inr (), t1)" "t' = publish t1"
      using mv by (auto simp: unf Let_def split: sum.splits prod.splits)
    have "map_of (tr_migrations t) (mg_instance_uuid m) = None" using assms(3) by (simp add: m_def)
    note eff = update_from_migration_effect[OF up(1) assms(1,2) this]
    show ?thesis using eff(1,7,8) by (simp add: mv up(2)) (simp add: keeps_books_def)
  qed
qed

lemma tracker_step_books:
  assumes "tr_node t \<noteq> None" and "keyed t" and "accountable_op cf x t"
  shows "keeps_books cf t (tracker_step cf x t)"
proof (cases x)
  case (Op_claim i limits)
  then show ?thesis using assms by (simp add: instance_claim_books)
next
  case (Op_abort c)
  show ?thesis
  proof (cases "cm_flavor c")
    case None
    obtain r1 t1 where up: "update_from_instance cf (cm_instance c) True t = (r1, t1)" by (metis surj_pair)
    have "keeps_books cf t t1" using assms by (intro update_instance_books[OF _ _ _ up]) (auto simp: Op_abort None)
    then show ?thesis by (simp add: Op_abort abort_claim_def None abort_instance_claim_def up split: sum.split)
  next
    case (Some f)
    have "keeps_books cf t (snd (snd (drop_move_claim cf (cm_instance c) (Some f) True t)))"
      using assms by (intro drop_books) (simp_all add: Op_abort Some)
    then show ?thesis
      by (cases "drop_move_claim cf (cm_instance c) (Some f) True t") (simp add: Op_abort abort_claim_def Some)
  qed
next
  case (Op_update i)
  obtain r1 t1 where up: "update_from_instance cf i False t = (r1, t1)" by (metis surj_pair)
  have "keeps_books cf t t1" using assms by (intro update_instance_books[OF _ _ _ up]) (auto simp: Op_update)
  moreover have "tracker_step cf x t \<in> {t, t1, publish t1}"
    by (simp add: Op_update tracker_update_usage_def up split: sum.split)
  ultimately show ?thesis using assms(1,2) keeps_books_refl by auto
next
  case (Op_move i f props ty limits mig k)
  then show ?thesis using assms move_books by simp
next
  case (Op_drop i f new)
  then show ?thesis using assms by (simp add: drop_books)
next
  case (Op_audit a)
  then show ?thesis using assms by simp
qed

lemma tracker_run_books:
  assumes "tracker_run cf (accountable_op cf) s t" and "tr_node s \<noteq> None" and "keyed s"
  shows "keeps_books cf s t"
  using assms
proof (induction rule: tracker_run.induct)
  case (run_step s t x)
  then have "keeps_books cf s t" by simp
  moreover from this have "keeps_books cf t (tracker_step cf x t)"
    using run_step.hyps(2) by (intro tracker_step_books) (simp_all add: keeps_books_def)
  ultimately show ?case by (rule keeps_books_trans)
qed (rule keeps_books_refl)

text \<open>What happens in the cases that are left out: an aborted claim of an instance that the tracker
  no longer has adds the usage that it should remove.\<close>

lemma abort_untracked_adds:
  assumes "tr_node t \<noteq> None" and "map_of (tr_instances t) (vi_uuid (cm_instance c)) = None" and "cm_flavor c = None"
  shows "used_of (tracker_step cf (Op_abort c) t) r = used_of t r + instance_cost cf (cm_instance c) r"
proof -
  obtain r1 t1 where up: "update_from_instance cf (cm_instance c) True t = (r1, t1)" by (metis surj_pair)
  from update_from_instance_used(6)[OF up assms(1), of r] show ?thesis
    using assms(2) by (simp add: abort_claim_def assms(3) abort_instance_claim_def up split: sum.split)
qed

text \<open>A second move of an instance overwrites the booking of the first, whose usage stays.\<close>

lemma second_move_leaks:
  assumes "update_from_migration cf i m t = (Inr (), t')" and "tr_node t \<noteq> None" and "keyed t"
    and "map_of (tr_migrations t) (mg_instance_uuid m) = Some (m0, held)"
    and "is_trackable_migration m" and "fst (migration_usage t i m) = Some f"
  shows "unbooked cf t' r = unbooked cf t r + flavor_cost cf held r"
proof -
  obtain numa where f: "migration_usage t i m = (Some f, numa)" using assms(6) by (cases "migration_usage t i m") auto
  obtain t1 where t1: "apply_usage cf (usage_of_flavor f numa) 1 t = (Inr (), t1)"
    "t' = (map_node (\<lambda>n. n\<lparr>cn_pci_device_pools := Some []\<rparr>) t1)\<lparr>tr_migrations := AList.update (mg_instance_uuid m) (m, f) (tr_migrations t1)\<rparr>"
    using assms(1) by (auto simp: update_from_migration_def assms(5) f split: prod.splits sum.splits)
  note eff = used_apply_usage[OF t1(1) assms(2)]
  have used: "used_of t' r = used_of t r + flavor_cost cf f r"
  proof -
    have "used_of t' r = used_of t1 r" using eff(2) by (cases r) (auto simp: t1(2) used_of_def)
    then show ?thesis using eff(1)[of r] by simp
  qed
  have "distinct (map fst (tr_migrations t))" using assms(3) by (simp add: keyed_def)
  then have "(\<Sum>(u, m, f) \<leftarrow> AList.update (mg_instance_uuid m) (m, f) (tr_migrations t). flavor_cost cf f r) =
      (\<Sum>(u, m, f) \<leftarrow> tr_migrations t. flavor_cost cf f r) - flavor_cost cf held r + flavor_cost cf f r"
    using sum_update_old[OF _ assms(4), of "\<lambda>(m, f). flavor_cost cf f r" "(m, f)"] by simp
  then show ?thesis using used eff(3,4) by (simp add: unbooked_def booked_def t1(2))
qed

section \<open>The audit\<close>

definition accountable :: "audit_data \<Rightarrow> vm_instance list" where
  "accountable a = [i \<leftarrow> ad_instances a. vi_vm_state i \<notin> set allow_resource_removal]"

lemma update_new_append: "map_of d k = None \<Longrightarrow> AList.update k v d = d @ [(k, v)]"
  by (induction d) (auto split: if_splits)

lemma each_instance:
  assumes "each_op (\<lambda>i. update_from_instance cf i False) is t = (Inr u, t')" and "tr_node t \<noteq> None" and "keyed t"
    and "distinct (map vi_uuid is)" and "\<forall>i \<in> set is. map_of (tr_instances t) (vi_uuid i) = None"
  shows "tr_node t' \<noteq> None \<and> keyed t' \<and> tr_migrations t' = tr_migrations t \<and>
    tr_instances t' = tr_instances t @ map (\<lambda>i. (vi_uuid i, i)) is \<and> (\<forall>r. unbooked cf t' r = unbooked cf t r)"
  using assms
proof (induction "is" arbitrary: t)
  case (Cons i "is")
  obtain r1 t1 where up: "update_from_instance cf i False t = (r1, t1)" by (metis surj_pair)
  have rest: "each_op (\<lambda>i. update_from_instance cf i False) is t1 = (Inr u, t')"
    using Cons.prems(1) by (cases r1) (simp_all add: up)
  have new: "map_of (tr_instances t) (vi_uuid i) = None" using Cons.prems(5) by simp
  then have "same_size cf t i" by (simp add: same_size_def)
  note eff = update_from_instance_used[OF up Cons.prems(2)] and books = update_from_instance_effect[OF up Cons.prems(2,3) this]
  have inst: "tr_instances t1 = tr_instances t @ [(vi_uuid i, i)]" using eff(5) new by (simp add: update_new_append)
  have "\<forall>j \<in> set is. map_of (tr_instances t1) (vi_uuid j) = None"
  proof
    fix j assume "j \<in> set is"
    moreover from this have "vi_uuid j \<noteq> vi_uuid i" using Cons.prems(4) by (metis distinct.simps(2) image_eqI list.set_map list.simps(9))
    ultimately show "map_of (tr_instances t1) (vi_uuid j) = None"
      using Cons.prems(5) by (simp add: inst map_add_def)
  qed
  from Cons.IH[OF rest eff(1) books(2) _ this] Cons.prems(4) show ?case
    using eff(2) books(1) inst by simp
qed simp

lemma each_migration:
  assumes "each_op (\<lambda>(u, m, i). update_from_migration cf i m) ms t = (Inr x, t')" and "tr_node t \<noteq> None" and "keyed t"
    and "distinct (map fst ms)" and "\<forall>(u, m, i) \<in> set ms. u = mg_instance_uuid m \<and> map_of (tr_migrations t) u = None"
  shows "tr_node t' \<noteq> None \<and> keyed t' \<and> tr_instances t' = tr_instances t \<and> (\<forall>r. unbooked cf t' r = unbooked cf t r)"
  using assms
proof (induction ms arbitrary: t)
  case (Cons y ms)
  obtain u m i where y: "y = (u, m, i)" by (cases y)
  obtain r1 t1 where up: "update_from_migration cf i m t = (r1, t1)" by (metis surj_pair)
  have rest: "each_op (\<lambda>(u, m, i). update_from_migration cf i m) ms t1 = (Inr x, t')" and r1: "r1 = Inr ()"
    using Cons.prems(1) by (cases r1; simp add: y up)+
  have new: "map_of (tr_migrations t) (mg_instance_uuid m) = None" "u = mg_instance_uuid m" using Cons.prems(5) by (auto simp: y)
  note eff = update_from_migration_effect[OF up[unfolded r1] Cons.prems(2,3) new(1)]
  have "\<forall>(v, n, j) \<in> set ms. v = mg_instance_uuid n \<and> map_of (tr_migrations t1) v = None"
  proof clarify
    fix v n j assume mem: "(v, n, j) \<in> set ms"
    then have "v \<noteq> u" using Cons.prems(4) by (force simp: y)
    then have "map_of (tr_migrations t1) v = map_of (tr_migrations t) v"
      using new(2) by (auto simp: eff(5) update_conv' split: option.split)
    then show "v = mg_instance_uuid n \<and> map_of (tr_migrations t1) v = None" using Cons.prems(5) mem by auto
  qed
  from Cons.IH[OF rest eff(1) eff(8) _ this] Cons.prems(4) show ?case
    using eff(2,7) by (simp add: y)
qed simp

lemma each_orphan:
  assumes "each_op (\<lambda>(u, mem). apply_usage cf (usage_of_orphan mem) 1) os t = (Inr x, t')" and "tr_node t \<noteq> None"
  shows "tr_node t' \<noteq> None \<and> tr_instances t' = tr_instances t \<and> tr_migrations t' = tr_migrations t \<and>
    used_of t' r = used_of t r + (\<Sum>(u, mem) \<leftarrow> os. orphan_cost cf mem r)"
  using assms
proof (induction os arbitrary: t)
  case (Cons y os)
  obtain u mem where y: "y = (u, mem)" by (cases y)
  obtain r1 t1 where up: "apply_usage cf (usage_of_orphan mem) 1 t = (r1, t1)" by (metis surj_pair)
  have rest: "each_op (\<lambda>(u, mem). apply_usage cf (usage_of_orphan mem) 1) os t1 = (Inr x, t')"
    using Cons.prems(1) by (cases r1) (simp_all add: y up)
  note eff = used_apply_usage[OF up Cons.prems(2)]
  show ?case using Cons.IH[OF rest eff(2)] eff(1)[of r] eff(3,4) by (simp add: y orphan_cost_def)
qed simp

lemma filter_migration_keys:
  "distinct (map fst d) \<and> (\<forall>(u, m, i) \<in> set d. u = mg_instance_uuid m) \<Longrightarrow>
   distinct (map fst (foldl filter_migration d xs)) \<and> (\<forall>(u, m, i) \<in> set (foldl filter_migration d xs). u = mg_instance_uuid m)"
proof (induction xs arbitrary: d)
  case (Cons x xs)
  have up: "set (AList.update k v d) \<subseteq> insert (k, v) (set d)" for k v by (induction d) auto
  have step: "filter_migration d x = d \<or> (\<exists>m i. filter_migration d x = AList.update (mg_instance_uuid m) (m, i) d)"
    by (cases x; cases "snd x") (auto simp: filter_migration_def split: option.split if_split)
  have "distinct (map fst (filter_migration d x)) \<and> (\<forall>(u, m, i) \<in> set (filter_migration d x). u = mg_instance_uuid m)"
    using step
  proof
    assume "\<exists>m i. filter_migration d x = AList.update (mg_instance_uuid m) (m, i) d"
    then obtain m i where eq: "filter_migration d x = AList.update (mg_instance_uuid m) (m, i) d" by blast
    show ?thesis unfolding eq using Cons.prems up[of "mg_instance_uuid m" "(m, i)"] by (auto intro: distinct_update)
  qed (use Cons.prems in simp)
  then show ?case using Cons.IH by simp
qed simp

lemma audit_books:
  assumes "update_available_resource cf a s = (Inr u, t)" and "ad_resources a = Some v" and "keyed s"
    and "distinct (map vi_uuid (ad_instances a))"
  shows "tr_node t \<noteq> None" and "keyed t" and "tr_instances t = map (\<lambda>i. (vi_uuid i, i)) (accountable a)"
    and "unbooked cf t r = reserved cf r + (\<Sum>(u, mem) \<leftarrow> find_orphaned_instances (ad_reported a) t. orphan_cost cf mem r)"
proof -
  define t0 where "t0 = init_compute_node cf v (ad_stored a) s"
  have t0: "tr_node t0 \<noteq> None" "tr_migrations t0 = tr_migrations s"
    by (simp_all add: t0_def init_compute_node_def copy_resources_def split: option.splits)
  define t1 where "t1 = map_node (reset_usage cf) (t0\<lparr>tr_instances := []\<rparr>)"
  have t1: "tr_node t1 \<noteq> None" "tr_instances t1 = []" "tr_migrations t1 = tr_migrations s" "keyed t1"
    using t0 assms(3) by (simp_all add: t1_def keyed_def)
  have used1: "used_of t1 r = reserved cf r" for r
    using t0(1) by (cases r) (auto simp: t1_def used_of_def reset_usage_def update_free_def)
  obtain r2 t2 where i2: "update_from_instances cf (ad_instances a) t0 = (r2, t2)" by (metis surj_pair)
  obtain r3 t3 where i3: "update_from_migrations cf (ad_migrations a) t2 = (r3, t3)" by (metis surj_pair)
  obtain r4 t4 where i4: "update_from_orphans cf (find_orphaned_instances (ad_reported a) t3) t3 = (r4, t4)" by (metis surj_pair)
  have ok: "r2 = Inr ()" "r3 = Inr ()" "r4 = Inr ()" "t = publish (map_node (\<lambda>n. n\<lparr>cn_pci_device_pools := Some []\<rparr>) t4)"
    using assms(1) by (auto simp: update_available_resource_def assms(2) t0_def[symmetric] i2 i3 i4 split: sum.splits)
  obtain t2' where t2': "each_op (\<lambda>i. update_from_instance cf i False) (accountable a) t1 = (Inr (), t2')"
    "t2 = map_node (\<lambda>n. n\<lparr>cn_free_ram_mb := max 0 (cn_free_ram_mb n), cn_free_disk_gb := max 0 (cn_free_disk_gb n)\<rparr>) t2'"
    using i2 ok(1) by (auto simp: update_from_instances_def accountable_def Let_def t1_def[symmetric] split: prod.splits sum.splits)
  have "distinct (map vi_uuid (accountable a))" using assms(4) by (simp add: accountable_def distinct_map_filter)
  from each_instance[OF t2'(1) t1(1,4) this] have e2: "tr_node t2' \<noteq> None" "keyed t2'" "tr_migrations t2' = tr_migrations s"
    "tr_instances t2' = map (\<lambda>i. (vi_uuid i, i)) (accountable a)" "unbooked cf t2' r = unbooked cf t1 r" for r
    by (simp_all add: t1)
  have "used_of t2 r = used_of t2' r" for r
    using e2(1) by (cases r) (auto simp: t2'(2) used_of_def)
  then have u2: "used_of t2 r = reserved cf r + (\<Sum>(u, i) \<leftarrow> tr_instances t2'. instance_cost cf i r)" for r
    using e2(5)[of r] used1[of r] by (simp add: unbooked_def booked_def t1(2,3) e2(3))
  define t2e where "t2e = t2\<lparr>tr_migrations := []\<rparr>"
  have t2e: "tr_node t2e \<noteq> None" "keyed t2e" "tr_instances t2e = tr_instances t2'" "unbooked cf t2e r = reserved cf r" for r
    using e2 u2[of r] by (simp_all add: t2e_def t2'(2) keyed_def unbooked_def booked_def used_of_def)
  have "each_op (\<lambda>(u, m, i). update_from_migration cf i m) (foldl filter_migration [] (ad_migrations a)) t2e = (Inr (), t3)"
    using i3 ok(2) by (simp add: update_from_migrations_def t2e_def)
  moreover have "distinct (map fst (foldl filter_migration [] (ad_migrations a)))"
    "\<forall>(u, m, i) \<in> set (foldl filter_migration [] (ad_migrations a)). u = mg_instance_uuid m \<and> map_of (tr_migrations t2e) u = None"
    using filter_migration_keys[of "[]" "ad_migrations a"] by (auto simp: t2e_def)
  ultimately have e3: "tr_node t3 \<noteq> None" "keyed t3" "tr_instances t3 = tr_instances t2'" "unbooked cf t3 r = reserved cf r" for r
    using each_migration[OF _ t2e(1,2)] t2e(3,4) by auto
  have "each_op (\<lambda>(u, mem). apply_usage cf (usage_of_orphan mem) 1) (find_orphaned_instances (ad_reported a) t3) t3 = (Inr (), t4)"
    using i4 ok(3) by (simp add: update_from_orphans_def)
  note e4 = each_orphan[OF this e3(1)]
  define t5 where "t5 = map_node (\<lambda>n. n\<lparr>cn_pci_device_pools := Some []\<rparr>) t4"
  have eq: "t = publish t5" by (simp add: ok(4) t5_def)
  have "tr_node t4 \<noteq> None" using e4 by blast
  then obtain n4 where n4: "tr_node t4 = Some n4" by blast
  have "used_of t5 r = used_of t4 r" for r by (cases r) (simp_all add: t5_def used_of_def n4)
  then have t: "tr_instances t = tr_instances t4" "tr_migrations t = tr_migrations t4" "tr_node t \<noteq> None" "used_of t r = used_of t4 r" for r
    unfolding eq by (simp_all add: t5_def n4)
  show "tr_node t \<noteq> None" by (rule t(3))
  show "keyed t" using e3(2) e4 t by (simp add: keyed_def)
  show "tr_instances t = map (\<lambda>i. (vi_uuid i, i)) (accountable a)" using t(1) e4 e3(3) e2(4) by simp
  have "find_orphaned_instances (ad_reported a) t = find_orphaned_instances (ad_reported a) t3"
    using t e4 by (simp add: find_orphaned_instances_def)
  then show "unbooked cf t r = reserved cf r + (\<Sum>(u, mem) \<leftarrow> find_orphaned_instances (ad_reported a) t. orphan_cost cf mem r)"
    using e4[of r] e3(4)[of r] t by (simp add: unbooked_def booked_def)
qed

end
