(* ===== verification/Tracker_Scheduling.thy ===== *)
theory Tracker_Scheduling
  imports Tracker_Accounting
begin

text \<open>
  The tracker and the scheduler together: what the scheduler reads of a published node, and whether
  the claim accepts what the filters have passed; and a run that shows the promises of the tracker
  on concrete requests.
\<close>

section \<open>Free resources\<close>

text \<open>What is free is what is not used, except that an audit hides what is overcommitted.\<close>

definition free_known :: "tracker \<Rightarrow> bool" where
  "free_known t \<longleftrightarrow> (case tr_node t of
     None \<Rightarrow> True
   | Some n \<Rightarrow>
       (let ram = cn_memory_mb n - tn_memory_mb_used n; disk = cn_local_gb n - cn_local_gb_used n
        in (cn_free_ram_mb n = ram \<or> cn_free_ram_mb n = max 0 ram) \<and> (cn_free_disk_gb n = disk \<or> cn_free_disk_gb n = max 0 disk)))"

lemma free_apply_usage: "free_known t \<Longrightarrow> apply_usage cf u sign t = (r, t') \<Longrightarrow> free_known t'"
  by (auto simp: apply_usage_def free_known_def update_free_def Let_def split: option.splits sum.splits)

lemma free_map_node:
  "(\<And>n. cn_memory_mb (f n) = cn_memory_mb n \<and> tn_memory_mb_used (f n) = tn_memory_mb_used n \<and> cn_free_ram_mb (f n) = cn_free_ram_mb n \<and>
     cn_local_gb (f n) = cn_local_gb n \<and> cn_local_gb_used (f n) = cn_local_gb_used n \<and> cn_free_disk_gb (f n) = cn_free_disk_gb n) \<Longrightarrow>
   free_known (map_node f t) = free_known t"
  by (auto simp: free_known_def map_node_def split: option.split)

lemma free_publish [simp]: "free_known (publish t) = free_known t"
  by (auto simp: free_known_def publish_def Let_def split: option.split)

lemma free_cong: "tr_node t' = tr_node t \<Longrightarrow> free_known t' = free_known t"
  by (simp add: free_known_def)

lemma free_update_from_instance:
  assumes "free_known t" and "update_from_instance cf i rm t = (r, t')"
  shows "free_known t'"
proof -
  from assms(2) show ?thesis
  proof (rule update_from_instance_parts)
    fix t1 r0 t3
    let ?new = "map_of (tr_instances t) (vi_uuid i) = None" and ?gone = "rm \<or> vi_vm_state i \<in> set allow_resource_removal"
    assume t1: "t1 = (if ?new then t\<lparr>tr_instances := AList.update (vi_uuid i) i (tr_instances t)\<rparr>
        else if ?gone then t\<lparr>tr_instances := AList.delete (vi_uuid i) (tr_instances t)\<rparr> else t)
        \<lparr>tr_stats := update_stats_for_instance i (\<not> ?new \<and> ?gone) (tr_stats t)\<rparr>"
      and mid: "(if ?new \<or> ?gone then apply_usage cf (usage_of_instance i) (if \<not> ?new \<and> ?gone then -1 else 1) t1 else (Inr (), t1)) = (r0, t3)"
      and eq: "t' = (case r0 of Inl e \<Rightarrow> t3 | Inr _ \<Rightarrow> map_node (note_workload t3) t3)"
    have "free_known t1" using assms(1) by (simp add: free_known_def t1)
    then have "free_known t3" using mid free_apply_usage by (metis (no_types, lifting) prod.inject)
    moreover have "free_known (map_node (note_workload t3) t3) = free_known t3"
      by (rule free_map_node) (simp add: note_workload_def)
    ultimately show ?thesis by (simp add: eq split: sum.split)
  qed
qed

lemma free_update_from_migration:
  assumes "free_known t" and "update_from_migration cf i m t = (r, t')"
  shows "free_known t'"
proof -
  have "free_known (t1\<lparr>tr_migrations := d\<rparr>) = free_known t1" for t1 d by (simp add: free_known_def)
  then show ?thesis
    using assms free_apply_usage[OF assms(1)]
    by (auto simp: update_from_migration_def free_map_node split: if_splits option.splits prod.splits sum.splits)
qed

lemma free_drop: "free_known t \<Longrightarrow> free_known (snd (snd (drop_move_claim cf i f new t)))"
proof -
  assume t: "free_known t"
  have t1: "free_known (t\<lparr>tr_migrations := d\<rparr>)" for d using t by (simp add: free_known_def)
  have "free_known t'" if "apply_usage cf u (-1) (t\<lparr>tr_migrations := d\<rparr>) = (r, t')" for u d r t'
    using free_apply_usage[OF t1 that] .
  then show ?thesis using t t1 by (auto simp: drop_move_claim_def Let_def split: option.splits prod.splits sum.splits)
qed

lemma free_each_op:
  assumes "\<And>x s s' r. free_known s \<Longrightarrow> f x s = (r, s') \<Longrightarrow> free_known s'"
  shows "free_known s \<Longrightarrow> each_op f xs s = (r, s') \<Longrightarrow> free_known s'"
proof (induction xs arbitrary: s)
  case (Cons x xs)
  then show ?case using assms[OF Cons.prems(1)] by (auto split: prod.splits sum.splits)
qed simp

lemma free_update_from_instances:
  assumes "update_from_instances cf is s = (r, t)"
  shows "free_known t"
proof -
  have "free_known (map_node (reset_usage cf) (s\<lparr>tr_instances := []\<rparr>))"
    by (auto simp: free_known_def map_node_def reset_usage_def update_free_def split: option.splits)
  moreover obtain r2 t2 where e2: "each_op (\<lambda>i. update_from_instance cf i False) [i \<leftarrow> is. vi_vm_state i \<notin> set allow_resource_removal]
      (map_node (reset_usage cf) (s\<lparr>tr_instances := []\<rparr>)) = (r2, t2)" by (metis surj_pair)
  ultimately have t2: "free_known t2" by (metis (no_types, lifting) free_each_op free_update_from_instance)
  have "t = t2 \<or> t = map_node (\<lambda>n. n\<lparr>cn_free_ram_mb := max 0 (cn_free_ram_mb n), cn_free_disk_gb := max 0 (cn_free_disk_gb n)\<rparr>) t2"
    using assms e2 by (cases r2) (simp_all add: update_from_instances_def)
  then show ?thesis using t2 by (cases "tr_node t2") (auto simp: free_known_def map_node_def Let_def)
qed

text \<open>This holds after every audit, one that fails on the way included.\<close>

lemma free_audit: "free_known (snd (update_available_resource cf a s))"
proof (cases "ad_resources a")
  case (Some v)
  obtain r2 t2 where i2: "update_from_instances cf (ad_instances a) (init_compute_node cf v (ad_stored a) s) = (r2, t2)" by (metis surj_pair)
  obtain r3 t3 where i3: "update_from_migrations cf (ad_migrations a) t2 = (r3, t3)" by (metis surj_pair)
  obtain r4 t4 where i4: "update_from_orphans cf (find_orphaned_instances (ad_reported a) t3) t3 = (r4, t4)" by (metis surj_pair)
  have t2: "free_known t2" by (rule free_update_from_instances[OF i2])
  then have "free_known (t2\<lparr>tr_migrations := []\<rparr>)" by (simp add: free_known_def)
  then have t3: "free_known t3"
    using i3 unfolding update_from_migrations_def
    by (rule free_each_op[rotated]) (auto split: prod.splits intro: free_update_from_migration)
  have t4: "free_known t4"
    using t3 i4 unfolding update_from_orphans_def
    by (rule free_each_op[rotated]) (auto split: prod.splits intro: free_apply_usage)
  show ?thesis using t2 t3 t4 by (simp add: update_available_resource_def Some i2 i3 i4 free_map_node split: sum.split)
qed (simp add: update_available_resource_def free_known_def)

lemma free_tracker_step: "free_known t \<Longrightarrow> free_known (tracker_step cf x t)"
proof (cases x)
  case (Op_claim i limits)
  assume t: "free_known t"
  show ?thesis
    using t free_update_from_instance[OF t]
    by (auto simp: Op_claim instance_claim_def Let_def split: option.splits prod.splits sum.splits)
next
  case (Op_abort c)
  assume t: "free_known t"
  show ?thesis
  proof (cases "cm_flavor c")
    case None
    then show ?thesis
      using t free_update_from_instance[OF t]
      by (auto simp: Op_abort abort_claim_def abort_instance_claim_def split: prod.splits sum.splits)
  next
    case (Some f)
    then show ?thesis
      using free_drop[OF t, of cf "cm_instance c" "Some f" True]
      by (cases "drop_move_claim cf (cm_instance c) (Some f) True t") (simp add: Op_abort abort_claim_def)
  qed
next
  case (Op_update i)
  assume t: "free_known t"
  show ?thesis
    using t free_update_from_instance[OF t]
    by (auto simp: Op_update tracker_update_usage_def split: prod.splits sum.splits)
next
  case (Op_move i f props ty limits mig k)
  assume t: "free_known t"
  show ?thesis
    using t free_update_from_migration[OF t]
    by (auto simp: Op_move move_claim_def Let_def split: option.splits prod.splits sum.splits)
qed (simp_all add: free_drop free_audit)

lemma free_tracker_run: "tracker_run cf ok s t \<Longrightarrow> free_known s \<Longrightarrow> free_known t"
  by (induction rule: tracker_run.induct) (simp_all add: free_tracker_step)

section \<open>What the scheduler accepts\<close>

text \<open>The state of a host that the scheduler has made from a published node.\<close>

definition scheduled_host :: "string \<Rightarrow> string \<Rightarrow> tracked_node \<Rightarrow> host_state" where
  "scheduled_host host node n = update_from_compute_node (new_host_state host node) (compute_node.truncate n)"

definition spec_of_instance :: "vm_instance \<Rightarrow> request_spec \<Rightarrow> bool" where
  "spec_of_instance i spec \<longleftrightarrow> rs_memory_mb spec = vi_memory_mb i \<and> rs_vcpus spec = vi_vcpus i \<and>
     rs_root_gb spec = vi_root_gb i \<and> rs_ephemeral_gb spec = vi_ephemeral_gb i \<and> 0 \<le> rs_swap spec"

lemma scheduled_host_fields:
  "hs_free_ram_mb (scheduled_host h d n) = cn_free_ram_mb n" "hs_total_usable_ram_mb (scheduled_host h d n) = cn_memory_mb n"
  "hs_total_usable_disk_gb (scheduled_host h d n) = cn_local_gb n" "hs_vcpus_total (scheduled_host h d n) = cn_vcpus n"
  "hs_vcpus_used (scheduled_host h d n) = cn_vcpus_used n" "hs_limits (scheduled_host h d n) = no_limits"
  "hs_free_disk_mb (scheduled_host h d n) \<le> cn_free_disk_gb n * 1024"
  by (auto simp: scheduled_host_def update_from_compute_node_def new_host_state_def compute_node.truncate_def Let_def split: option.split)

text \<open>Each filter leaves a limit that the claim can keep.\<close>

lemma core_filter_limit:
  assumes "core_filter ratio h spec = (True, h')" and "hs_limits h = no_limits"
  shows "case lim_vcpu (hs_limits h') of None \<Rightarrow> True | Some l \<Rightarrow> of_int (hs_vcpus_used h + rs_vcpus spec) \<le> l"
    and "hs_limits h' = no_limits\<lparr>lim_vcpu := lim_vcpu (hs_limits h')\<rparr>"
    and "hs_free_ram_mb h' = hs_free_ram_mb h" "hs_total_usable_ram_mb h' = hs_total_usable_ram_mb h"
    and "hs_free_disk_mb h' = hs_free_disk_mb h" "hs_total_usable_disk_gb h' = hs_total_usable_disk_gb h"
  using assms by (auto simp: core_filter_def set_limits_def no_limits_def Let_def split: if_splits)

lemma ram_filter_limit:
  assumes "ram_filter ratio h spec = (True, h')"
  shows "\<exists>l. hs_limits h' = (hs_limits h)\<lparr>lim_memory_mb := Some l\<rparr> \<and>
      of_int (hs_total_usable_ram_mb h - hs_free_ram_mb h + rs_memory_mb spec) \<le> l"
    and "hs_free_disk_mb h' = hs_free_disk_mb h" "hs_total_usable_disk_gb h' = hs_total_usable_disk_gb h"
  using assms by (auto simp: ram_filter_def set_limits_def Let_def split: if_splits)

lemma disk_filter_limit:
  assumes "disk_filter ratio h spec = (True, h')" and "0 \<le> rs_swap spec"
    and "hs_free_disk_mb h \<le> 1024 * free"
  shows "\<exists>l. hs_limits h' = (hs_limits h)\<lparr>lim_disk_gb := Some l\<rparr> \<and>
      of_int (hs_total_usable_disk_gb h - free + (rs_root_gb spec + rs_ephemeral_gb spec)) \<le> l"
proof -
  define m where "m = of_int (hs_total_usable_disk_gb h * 1024) * ratio"
  have lim: "hs_limits h' = (hs_limits h)\<lparr>lim_disk_gb := Some (m / 1024)\<rparr>"
    and ge: "of_int (requested_disk spec) \<le> m - of_int (hs_total_usable_disk_gb h * 1024 - hs_free_disk_mb h)"
    using assms(1) by (auto simp: disk_filter_def set_limits_def Let_def m_def split: if_splits)
  have "requested_disk spec + (hs_total_usable_disk_gb h * 1024 - hs_free_disk_mb h) \<ge>
      1024 * (hs_total_usable_disk_gb h - free + (rs_root_gb spec + rs_ephemeral_gb spec))"
    using assms(2,3) by (simp add: requested_disk_def)
  then have "of_int (1024 * (hs_total_usable_disk_gb h - free + (rs_root_gb spec + rs_ephemeral_gb spec))) \<le>
      (of_int (requested_disk spec + (hs_total_usable_disk_gb h * 1024 - hs_free_disk_mb h)) :: rat)"
    by (simp only: of_int_le_iff)
  also have "\<dots> \<le> m" using ge by simp
  finally show ?thesis using lim by (intro exI[of _ "m / 1024"]) simp
qed

lemma update_from_instance_no_numa:
  assumes "tr_node t = Some n" and "cn_numa_topology n = None"
  shows "fst (update_from_instance cf i rm t) = Inr ()"
proof -
  have applied: "\<exists>t3. apply_usage cf u sign t' = (Inr (), t3)" if "tr_node t' = Some n" for t' u sign
    using that assms(2) by (simp add: apply_usage_def Let_def update_free_def host_numa_usage_def numa_usage_from_instances_def)
  define t2 where "t2 d removed = t\<lparr>tr_instances := d, tr_stats := update_stats_for_instance i removed (tr_stats t)\<rparr>" for d removed
  have "tr_node (t2 d removed) = Some n" for d removed by (simp add: t2_def assms(1))
  note ap = applied[OF this]
  obtain t3 where new: "apply_usage cf (usage_of_instance i) 1 (t2 (AList.update (vi_uuid i) i (tr_instances t)) False) = (Inr (), t3)"
    using ap by blast
  obtain t4 where gone: "apply_usage cf (usage_of_instance i) (-1) (t2 (AList.delete (vi_uuid i) (tr_instances t)) True) = (Inr (), t4)"
    using ap by blast
  show ?thesis using new gone by (auto simp: update_from_instance_def Let_def t2_def)
qed

section \<open>A run\<close>

definition demo_tracker_config :: tracker_config where
  "demo_tracker_config = \<lparr>tc_reserved_host_disk_mb = 2048, tc_reserved_host_memory_mb = 100, tc_ram_allocation_ratio = 3 / 2,
     tc_cpu_allocation_ratio = 16, tc_disk_allocation_ratio = 1, tc_overhead = (\<lambda>_ _. 0), tc_set_order = (\<lambda>_. [])\<rparr>"

definition tracked_flavor :: "int \<Rightarrow> int \<Rightarrow> sized_flavor" where
  "tracked_flavor k mem = \<lparr>fl_id = k, fl_name = ''m1'', fl_vcpus = 2, fl_memory_mb = mem, fl_extra_specs = [], fl_root_gb = 10, fl_ephemeral_gb = 0\<rparr>"

definition demo_instance :: "string \<Rightarrow> int \<Rightarrow> string \<Rightarrow> vm_instance" where
  "demo_instance uuid mem state = \<lparr>vi_uuid = uuid, vi_memory_mb = mem, vi_vcpus = 2, vi_root_gb = 10, vi_ephemeral_gb = 0,
     vi_vm_state = state, vi_task_state = None, vi_os_type = Some ''linux'', vi_project_id = Some ''web'', vi_numa_topology = None,
     vi_host = None, vi_node = None, vi_launched_on = None, vi_instance_type_id = 1, vi_flavor = tracked_flavor 1 mem,
     vi_old_flavor = None, vi_new_flavor = Some (tracked_flavor 2 400), vi_migration_context = None\<rparr>"

definition demo_resources :: virt_resources where
  "demo_resources = \<lparr>vr_vcpus = 8, vr_memory_mb = 1000, vr_local_gb = 100, vr_disk_available_least = None,
     vr_numa_topology = None, vr_stats = None\<rparr>"

definition demo_audit :: audit_data where
  "demo_audit = \<lparr>ad_resources = Some demo_resources, ad_stored = None,
     ad_instances = [demo_instance ''i1'' 300 ''active'', demo_instance ''i2'' 800 ''deleted''],
     ad_migrations = [], ad_reported = [(''i1'', 300), (''lost'', 50)]\<rparr>"

definition demo_audited :: tracker where
  "demo_audited = snd (update_available_resource demo_tracker_config demo_audit (new_tracker ''h'' ''n''))"

definition demo_limits :: host_limits where
  "demo_limits = no_limits\<lparr>lim_memory_mb := Some 1500\<rparr>"

text \<open>A claim that is granted, one that is refused, a resize to this host, and the deletion of an instance.\<close>

definition demo_ops :: "tracker_op list" where
  "demo_ops =
     [Op_claim (demo_instance ''i3'' 500 ''building'') (Some demo_limits),
      Op_claim (demo_instance ''i4'' 900 ''building'') (Some demo_limits),
      Op_move (demo_instance ''i5'' 100 ''active'') (tracked_flavor 2 400) no_image_props None (Some demo_limits) None 7,
      Op_update (demo_instance ''i1'' 300 ''deleted'')]"

definition demo_end :: tracker where
  "demo_end = fold (tracker_step demo_tracker_config) demo_ops demo_audited"

fun meets :: "tracker_config \<Rightarrow> (tracker_op \<Rightarrow> tracker \<Rightarrow> bool) \<Rightarrow> tracker_op list \<Rightarrow> tracker \<Rightarrow> bool" where
  "meets cf ok [] t \<longleftrightarrow> True"
| "meets cf ok (x # xs) t \<longleftrightarrow> ok x t \<and> meets cf ok xs (tracker_step cf x t)"

lemma run_first: "tracker_run cf ok (tracker_step cf x s) t \<Longrightarrow> ok x s \<Longrightarrow> tracker_run cf ok s t"
  by (induction "tracker_step cf x s" t rule: tracker_run.induct) (auto intro: tracker_run.intros)

lemma meets_run: "meets cf ok xs s \<Longrightarrow> tracker_run cf ok s (fold (tracker_step cf) xs s)"
  by (induction xs arbitrary: s) (auto intro: run_start run_first)

lemma demo_run:
  "tracker_run demo_tracker_config (accountable_op demo_tracker_config) demo_audited demo_end"
  "tracker_run demo_tracker_config (within_limit demo_tracker_config Memory 1500) demo_audited demo_end"
proof -
  have "meets demo_tracker_config (accountable_op demo_tracker_config) demo_ops demo_audited"
    "meets demo_tracker_config (within_limit demo_tracker_config Memory 1500) demo_ops demo_audited"
    by code_simp+
  from this[THEN meets_run]
  show "tracker_run demo_tracker_config (accountable_op demo_tracker_config) demo_audited demo_end"
    "tracker_run demo_tracker_config (within_limit demo_tracker_config Memory 1500) demo_audited demo_end"
    by (simp_all only: demo_end_def)
qed

lemma demo_audit_ok:
  "update_available_resource demo_tracker_config demo_audit (new_tracker ''h'' ''n'') = (Inr (), demo_audited)"
  "ad_resources demo_audit = Some demo_resources" "keyed (new_tracker ''h'' ''n'')" "distinct (map vi_uuid (ad_instances demo_audit))"
proof -
  have "fst (update_available_resource demo_tracker_config demo_audit (new_tracker ''h'' ''n'')) = Inr ()" by code_simp
  then show "update_available_resource demo_tracker_config demo_audit (new_tracker ''h'' ''n'') = (Inr (), demo_audited)"
    by (simp add: demo_audited_def prod_eq_iff)
qed (simp_all add: demo_audit_def new_tracker_def keyed_def demo_instance_def)

section \<open>The promises\<close>

text \<open>Claim C4. The books of the resource tracker balance. A successful audit, of resources that the driver reports, puts them in order: it
  tracks exactly the instances of the database that still hold resources. After it, through claims,
  aborts, updates, moves and drops, granted or refused, the used memory, disk and virtual CPUs are
  what is reserved for the host, what the tracked instances and migrations cost with their overhead,
  and what the orphans cost that the audit found. The history holds none of these, which unbalance
  the books in the code: an instance whose size has changed since it was tracked; a move of an
  instance whose migration is tracked, or one that raises after its usage was added; a drop, of a
  tracked migration, of another flavor than it booked or of none. It holds no second audit, which
  starts new books. The uuids in the database are distinct, and so are the keys of the dictionaries.
\<close>

theorem tracker_books_balance:
  assumes "update_available_resource cf a s = (Inr (), audited)" and "ad_resources a = Some v" and "keyed s"
    and "distinct (map vi_uuid (ad_instances a))" and "tracker_run cf (accountable_op cf) audited t"
  shows "tr_instances audited = map (\<lambda>i. (vi_uuid i, i)) (accountable a) \<and>
    used_of t r = reserved cf r + (\<Sum>(u, i) \<leftarrow> tr_instances t. instance_cost cf i r) +
      (\<Sum>(u, m, f) \<leftarrow> tr_migrations t. flavor_cost cf f r) +
      (\<Sum>(u, mem) \<leftarrow> find_orphaned_instances (ad_reported a) audited. orphan_cost cf mem r)"
proof -
  note books = audit_books[OF assms(1-4)]
  have "unbooked cf t r = unbooked cf audited r"
    using tracker_run_books[OF assms(5) books(1,2)] by (simp add: keeps_books_def)
  then show ?thesis using books(3,4) by (simp add: unbooked_def booked_def)
qed

theorem tracker_books_balance_witness:
  "used_of demo_end Memory = reserved demo_tracker_config Memory +
     (\<Sum>(u, i) \<leftarrow> tr_instances demo_end. instance_cost demo_tracker_config i Memory) +
     (\<Sum>(u, m, f) \<leftarrow> tr_migrations demo_end. flavor_cost demo_tracker_config f Memory) +
     (\<Sum>(u, mem) \<leftarrow> find_orphaned_instances (ad_reported demo_audit) demo_audited. orphan_cost demo_tracker_config mem Memory) \<and>
   map fst (tr_instances demo_end) = [''i3''] \<and> map fst (tr_migrations demo_end) = [''i5'']"
proof -
  have "map fst (tr_instances demo_end) = [''i3''] \<and> map fst (tr_migrations demo_end) = [''i5'']" by code_simp
  then show ?thesis using tracker_books_balance[OF demo_audit_ok demo_run(1), of Memory] by blast
qed

text \<open>Claim C3. Claims never overcommit a host, however the scheduler that sent them was misled. In a
  history in which every claim, for a build or a move, comes with a limit for a resource (memory,
  disk or virtual CPUs) of at most a bound, what is used of the resource never exceeds the bound,
  unless it already did at the start, and then it does not grow. Operations may be refused, or raise
  on the way, and instances may change their size. The history holds none of these, for which the
  code has no test: a claim without such a limit; a negative size; an abort of a build claim
  whose instance the tracker does not have (the code adds its usage); a move whose booked
  flavor, taken from the instance, needs more than the flavor it is tested for; an audit, which takes
  what it finds. The starting state is any state.
\<close>

theorem claims_never_overcommit:
  assumes "tracker_run cf (within_limit cf r bound) s t"
  shows "of_int (used_of t r) \<le> max bound (of_int (used_of s r))"
  by (rule tracker_run_within[OF assms])

theorem claims_never_overcommit_witness:
  "of_int (used_of demo_end Memory) \<le> (max 1500 (of_int (used_of demo_audited Memory)) :: rat)"
  by (rule claims_never_overcommit[OF demo_run(2)])

text \<open>Claim C15. The claim keeps what the scheduler promised. If the core, RAM and disk filters pass a
  host on the node that its tracker has published and not changed since, and the limits they leave
  come with the request, then the claim is granted. The tracker has any history from its start, of
  any operations with any limits, granted, refused or raising, and of audits that succeed or fail.
  The request asks for the sizes of the instance, with no negative swap. The host has no NUMA
  topology, the instance no memory overhead, and memory and disk are not overcommitted already: the
  audit reports those as if no more than the total were in use.
\<close>

theorem claim_keeps_schedule:
  assumes "tracker_run cf anything (new_tracker host node) t" and "tr_node t = Some n" and "tr_published t = Some n"
    and "cn_numa_topology n = None"
    and "core_filter rc (scheduled_host (tr_host t) (tr_nodename t) n) spec = (True, h1)"
    and "ram_filter rr h1 spec = (True, h2)" and "disk_filter rd h2 spec = (True, h3)"
    and "spec_of_instance i spec" and "tc_overhead cf (vi_memory_mb i) (Some (vi_vcpus i)) = 0"
    and "used_of t Memory \<le> cn_memory_mb n" and "used_of t Disk \<le> cn_local_gb n"
  shows "\<exists>c i' t'. instance_claim cf i (Some (hs_limits h3)) t = (Inr (Some c), i', t')"
proof -
  have spec: "rs_memory_mb spec = vi_memory_mb i" "rs_vcpus spec = vi_vcpus i" "rs_root_gb spec = vi_root_gb i"
    "rs_ephemeral_gb spec = vi_ephemeral_gb i" "0 \<le> rs_swap spec"
    using assms(8) by (simp_all add: spec_of_instance_def)
  have "free_known t" by (rule free_tracker_run[OF assms(1)]) (simp add: free_known_def new_tracker_def)
  then have free: "cn_free_ram_mb n = cn_memory_mb n - used_of t Memory" "cn_free_disk_gb n = cn_local_gb n - used_of t Disk"
    using assms(10,11) by (auto simp: free_known_def used_of_def assms(2) Let_def)
  note sh = scheduled_host_fields[of "tr_host t" "tr_nodename t" n]
  note core = core_filter_limit[OF assms(5) sh(6)]
  obtain lm where ram: "hs_limits h2 = (hs_limits h1)\<lparr>lim_memory_mb := Some lm\<rparr>"
    "of_int (used_of t Memory + vi_memory_mb i) \<le> lm"
    using ram_filter_limit(1)[OF assms(6)] by (auto simp: core(3,4) sh free spec)
  have "hs_free_disk_mb h2 \<le> 1024 * (cn_local_gb n - used_of t Disk)"
    using sh(7) free(2) by (simp add: ram_filter_limit(2)[OF assms(6)] core(5))
  from disk_filter_limit[OF assms(7) spec(5) this] obtain ld where disk: "hs_limits h3 = (hs_limits h2)\<lparr>lim_disk_gb := Some ld\<rparr>"
    "of_int (used_of t Disk + (vi_root_gb i + vi_ephemeral_gb i)) \<le> ld"
    by (auto simp: ram_filter_limit(3)[OF assms(6)] core(6) sh spec)
  have lims: "lim_memory_mb (hs_limits h3) = Some lm" "lim_disk_gb (hs_limits h3) = Some ld"
    "lim_vcpu (hs_limits h3) = lim_vcpu (hs_limits h1)"
    by (simp_all add: disk(1) ram(1))
  have vcpu: "\<not> claim_exhausted (lim_vcpu (hs_limits h1)) (cn_vcpus_used n) (vi_vcpus i)"
    using core(1) by (auto simp: claim_exhausted_def sh spec split: option.splits)
  have "claim_test cf n (usage_of_instance i) (tc_overhead cf (vi_memory_mb i) (Some (vi_vcpus i))) (hs_limits h3) = (vi_numa_topology i, Inr None)"
    using ram(2) disk(2) vcpu
    by (simp add: claim_test_def claim_numa_def assms(4,9) lims usage_of_instance_def claim_exhausted_def used_of_def assms(2) algebra_simps)
  then show ?thesis
    using update_from_instance_no_numa[OF assms(2,4)]
    by (auto simp: instance_claim_def assms(2) Let_def split: prod.split sum.split) (metis fst_conv old.sum.distinct(2))+
qed

definition demo_spec :: request_spec where
  "demo_spec = plain_spec\<lparr>rs_memory_mb := 400, rs_root_gb := 10\<rparr>"

definition demo_host :: "tracker \<Rightarrow> host_state" where
  "demo_host t = scheduled_host (tr_host t) (tr_nodename t) (the (tr_node t))"

theorem claim_keeps_schedule_witness:
  "\<exists>c i' t'. instance_claim demo_tracker_config (demo_instance ''i6'' 400 ''building'')
     (Some (hs_limits (snd (disk_filter 1 (snd (ram_filter (3 / 2) (snd (core_filter 16 (demo_host demo_audited) demo_spec)) demo_spec)) demo_spec))))
     demo_audited = (Inr (Some c), i', t')"
proof -
  have demo_history: "tracker_run demo_tracker_config anything (new_tracker ''h'' ''n'') demo_audited"
    using run_step[OF run_start, of anything "Op_audit demo_audit" "new_tracker ''h'' ''n''" demo_tracker_config]
    by (simp add: anything_def demo_audited_def)
  have node: "tr_node demo_audited = Some (the (tr_node demo_audited))" "tr_published demo_audited = tr_node demo_audited"
    "cn_numa_topology (the (tr_node demo_audited)) = None" "used_of demo_audited Memory \<le> cn_memory_mb (the (tr_node demo_audited))"
    "used_of demo_audited Disk \<le> cn_local_gb (the (tr_node demo_audited))"
    by code_simp+
  have passed: "fst (core_filter 16 (demo_host demo_audited) demo_spec)"
    "fst (ram_filter (3 / 2) (snd (core_filter 16 (demo_host demo_audited) demo_spec)) demo_spec)"
    "fst (disk_filter 1 (snd (ram_filter (3 / 2) (snd (core_filter 16 (demo_host demo_audited) demo_spec)) demo_spec)) demo_spec)"
    by code_simp+
  have spec: "spec_of_instance (demo_instance ''i6'' 400 ''building'') demo_spec" by code_simp
  have none: "tc_overhead demo_tracker_config (vi_memory_mb (demo_instance ''i6'' 400 ''building'')) (Some (vi_vcpus (demo_instance ''i6'' 400 ''building''))) = 0"
    by (simp add: demo_tracker_config_def)
  show ?thesis
    by (rule claim_keeps_schedule[OF demo_history node(1) trans[OF node(2,1)] node(3)
        _ _ _ spec none node(4,5)]) (use passed in \<open>simp_all add: demo_host_def[symmetric] prod_eq_iff\<close>)
qed

section \<open>Overcommitted hosts\<close>

text \<open>
  The audit reports no negative free memory, so that the RAM filter takes a host that uses 1400 of
  1000 MB for one that uses 1000, and passes it for 400 MB more within a limit of 1500 MB. The claim
  refuses it. A claim or a deletion in between would have published the true number.
\<close>

definition overcommitted :: tracker where
  "overcommitted = snd (update_available_resource demo_tracker_config
     (demo_audit\<lparr>ad_instances := [demo_instance ''i1'' 700 ''active'', demo_instance ''i2'' 600 ''active''], ad_reported := []\<rparr>)
     (new_tracker ''h'' ''n''))"

lemma audit_hides_overcommit:
  "used_of overcommitted Memory = 1400" "cn_free_ram_mb (the (tr_published overcommitted)) = 0"
  "fst (ram_filter (3 / 2) (scheduled_host ''h'' ''n'' (the (tr_published overcommitted))) demo_spec)"
  "fst (instance_claim demo_tracker_config (demo_instance ''i6'' 400 ''building'') (Some demo_limits) overcommitted)
     = Inl (ComputeResourcesUnavailable [No_memory])"
  by code_simp+

end
