(* ===== verification/Spec2Isabelle.thy ===== *)
theory Spec2Isabelle
  imports Cpu_Topology Numa_Constraints Filter_Scheduler Heat_Task_Group Heat_Convergence Ironic_Clean_Run
    Hash_Ring Revoke_Manager Tracker_Scheduling
begin

text \<open>
  OpenStack Mitaka: the placement logic of Nova, the orchestration core of Heat, the
  provisioning core of Ironic and the revocation of tokens in Keystone. Paths below are relative to
  \<open>src/OpenStack-Mitaka-src/\<close>. The parts are separate services: Nova's scheduler places instances on
  hosts (some of which are bare metal nodes that Ironic provisions), Heat drives Nova and the other
  services through tasks that it orders by the dependencies of a stack, and every request to any of
  them carries a token that Keystone validates.

  \<^bold>\<open>Shared prelude.\<close> \<open>Py_Base\<close> has the exception results (\<open>Inl\<close> an exception, \<open>Inr\<close> a value), loops
  whose body may raise, and the parts of Python's strings and integers that the code uses.
  Unbounded integers are \<open>int\<close> or \<open>nat\<close>, floats are exact rationals, dictionaries are maps, or
  association lists where their order matters. \<open>Nova_Base\<close> has the exceptions of Nova and the
  lemmas its theories share.

  \<^bold>\<open>Nova: guest topology and NUMA\<close> (\<open>nova/nova/virt/hardware.py\<close>, \<open>nova/nova/objects\<close>).
  \<open>Cpu_Spec\<close>: parsing and printing of CPU sets, \<open>get_vcpu_pin_set\<close>, the realtime mask; printing and
  parsing are inverse. \<open>Cpu_Topology\<close>: the limits and preferences of flavor and image, the
  enumeration, scoring and choice of topologies. \<open>Numa_Objects\<close>: host cells, instance cells, huge
  pages, pinning. \<open>Numa_Fit\<close>: page sizes, packing of virtual CPUs on cores and threads, fitting one
  instance cell, and the search over the permutations of the host cells with the assignments it
  leaves in the instance cells; a fit respects the limits and can be claimed, and a fit is found if
  there is one. \<open>Numa_Usage\<close>: the usage of the host after instances come and go; claiming and freeing
  are inverse. \<open>Numa_Constraints\<close>: the requested topology from flavor and image. \<open>Pci_Stats\<close>
  (\<open>nova/nova/pci/stats.py\<close>): the pools of PCI devices, adding, removing, matching and requests.

  \<^bold>\<open>Nova: scheduling\<close> (\<open>nova/nova/scheduler\<close>, \<open>nova/nova/filters.py\<close>, \<open>nova/nova/weights.py\<close>).
  \<open>Host_State\<close>: what the scheduler knows of a host. \<open>Host_Filters\<close>: each filter and the chain that
  runs them. \<open>Host_Weights\<close>: normalisation and the weighers. \<open>Filter_Scheduler\<close>: \<open>_schedule\<close>, which
  filters, weighs, chooses and consumes for every instance of a request, and \<open>select_destinations\<close>;
  what it places stays within the capacity of the hosts and obeys anti-affinity. The pseudo-random
  choice among the best hosts is an argument. When a filter raises, the call ends with the exception and
  the model says nothing of the hosts, of which some were consumed before.

  \<^bold>\<open>Nova: the compute host\<close> (\<open>nova/nova/compute/resource_tracker.py\<close>, \<open>claims.py\<close>, \<open>stats.py\<close>).
  \<open>Resource_Tracker\<close>: claims for builds and moves, aborting and dropping them, updates, the periodic
  audit with instances, migrations and orphans, and the statistics; an exception leaves what was
  assigned before, so operations return a result and a state. \<open>Tracker_Accounting\<close>: what each
  operation does to the books, and histories of operations, audits included (an inductive relation,
  \<open>tracker_run\<close>), with the conditions on each operation that a promise needs: \<open>accountable_op\<close> for the
  books, \<open>within_limit\<close> for the limits, \<open>anything\<close> for none; the code does not check these conditions,
  and lemmas show what happens without them. \<open>Tracker_Scheduling\<close>: the books balance, claims never
  overcommit, and a claim is granted where the scheduler's filters have passed the published node.
  PCI passthrough is left out here.

  \<^bold>\<open>Heat\<close> (\<open>heat/heat/engine/dependencies.py\<close>, \<open>scheduler.py\<close>). \<open>Heat_Dependencies\<close>: the graph, the
  topological sort and \<open>__getitem__\<close>; the locale \<open>topological\<close> states what a sort promises and is
  interpreted on both directions of the graph. \<open>Heat_Tasks\<close>: generators as
  trees of what they yield and how they answer (so that each yields finitely often), timeouts, \<open>TaskRunner\<close> and \<open>wrappertask\<close>. A loop that need not end is a \<open>partial_function (option)\<close>.
  \<open>Heat_Task_Group\<close>: \<open>DependencyTaskGroup\<close> as a step relation; tasks start only when what they
  require is finished, the group ends, and a failure cancels the dependents. The clock and the tasks
  are arguments.

  \<^bold>\<open>Heat: convergence\<close> (\<open>heat/heat/engine/worker.py\<close>, \<open>sync_point.py\<close>, and the parts of \<open>stack.py\<close>
  and \<open>resource.py\<close> they use). Engines on many hosts process the nodes of a graph, the update or the
  cleanup of a resource each, and meet at sync points in the database. \<open>Heat_Sync_Point\<close>: the packing
  of the data they leave there, the JSON column, the rows, and \<open>sync\<close> cut at its read and its compare-and-swap.
  \<open>Heat_Converge\<close>: the rows of resources and of the stack, the graph of a traversal (on
  \<open>Heat_Dependencies\<close>), what an action records of itself before it fails or times out, replacements,
  conditional writes. \<open>Heat_Worker\<close>: threads as lists of actions,
  each one access to the database or the queue, and the step relation \<open>step\<close>, in which the threads
  of all engines interleave, engines die, users ask for new traversals, and the outcome of a plugin
  is a choice. \<open>Heat_Traversal_Spec\<close>: the abstract machine of a traversal, with its invariant, and the
  locale \<open>simulation\<close>. \<open>Heat_Engine\<close>: the invariant that every step keeps. \<open>Heat_Traversal\<close>: every step
  is one of the abstract machine (an interpretation of \<open>simulation\<close>), so nodes are checked once and
  after what they require, and the stack completes once and last. \<open>Heat_Setup\<close>: from the template to
  the world in which the leaves are triggered. \<open>Heat_Smooth\<close>, \<open>Heat_Smooth_Steps\<close>,
  \<open>Heat_Termination\<close>: the runs in which every check ends well lose nothing and end, by a lexicographic
  rank. \<open>Heat_Convergence\<close>: the properties, what a rollback leaves behind, and how a worker of an
  earlier traversal disturbs the one that starts: the properties are about traversals at whose start
  no such worker is left (\<open>traversal_start\<close>).

  \<^bold>\<open>Ironic\<close> (\<open>ironic/ironic/common/fsm.py\<close>, \<open>states.py\<close>, \<open>conductor/\<close>). \<open>Ironic_Fsm\<close>: the machine of
  provisioning states on the \<open>automaton\<close> library; its operations keep it well formed, and a node
  leaves the hands of an instance only through cleaning. \<open>Ironic_Node\<close>: the node, its row, the task
  manager, and state passing functions that may raise. \<open>Ironic_Cleaning\<close>: clean steps, their order,
  suspension, continuation, abortion and failure. \<open>Ironic_Conductor\<close>: deploying, tearing down,
  verifying, inspecting, power, timeouts, and \<open>serve\<close>, the life of a request: lock, handler, worker,
  hooks, unlock. Requests on one node exclude each other by the reservation, so a sequence of
  requests is a list (\<open>serve_all\<close>). \<open>Ironic_Provisioning\<close>: a calculus of assertions that operations
  keep, the contract of drivers (locale \<open>provisioning_driver\<close>, interpreted on the fake driver), the
  invariant of all requests. \<open>Ironic_Clean_Run\<close>: what a refused request reverts, and a whole
  automated cleaning (locale \<open>cleaning_driver\<close>), which executes every enabled step once, for drivers
  whose \<open>prepare_cleaning\<close> does not wait for an agent. \<open>Hash_Ring\<close>
  (\<open>common/hash_ring.py\<close>): the ring that maps nodes to conductors and its manager; a look up ends and
  gives as many different hosts as there are replicas, unless fewer are left (locale \<open>host_ring\<close>).

  \<^bold>\<open>Keystone\<close> (\<open>keystone/keystone/models/revoke_model.py\<close>, \<open>revoke/\<close>, \<open>token/provider.py\<close>).
  \<open>Revoke_Tree\<close>: revocation events and the tree that indexes them; the locale \<open>revocation_index\<close> says
  what an index promises, the tree is an interpretation, and it refines the check of every event
  that the unit tests use as reference. \<open>Revoke_Manager\<close>: the calls and notifications that record
  events, the SQL table and its pruning, the memoised tree, the values of v2 and v3 tokens, and
  validating and revoking tokens; a revoked token never validates again. What a driver knows of a
  token id is a parameter, times are microseconds.

  \<^bold>\<open>Bounds and fuel.\<close> Every recursion of the models is structural or has a proved measure, except
  \<open>run_to_completion\<close> and \<open>probe\<close>, whose results are options (the theorems about them show that they
  end), and \<open>call_backs\<close>, which counts: as many call backs as there are clean steps are enough, which
  the theorem about it states.

  \<^bold>\<open>Not modelled.\<close> The databases (but for Keystone's table of events), message queues, HTTP APIs and their serialisation; logging and
  notifications; hypervisor, hardware and image drivers (drivers and image services are parameters
  with stated contracts); green threads other than the worker of a task. In Nova, the metrics,
  trusted, image property, compute capability, JSON and CIDR filters. In Ironic, consoles, RAID,
  vendor methods, take over, and drivers that send events of their own. In Heat, the plugins of
  resources, templates, the lock of a resource (whether it is taken is a choice), and the engine
  without convergence but for tasks and dependencies. In Keystone,
  everything but revocation: users, projects, assignments, issuing tokens, the deletion of persisted
  tokens. The rest of these four services is mostly calls of hypervisors, SQL and each other. The
  other services of the release (network, block and object storage, images, telemetry, DNS), the
  clients and the third-party packages beside them are not modelled; nothing modelled calls into
  them but for \<open>automaton\<close> and \<open>oslo_utils\<close>, of which the used parts are.
\<close>

end
